(* ===== verification/Prelude.thy ===== *)
theory Prelude
  imports Main "HOL-Library.Word" "HOL-Library.Monad_Syntax" "HOL-Library.Multiset"
begin

text \<open>
  The vocabulary every component of the development shares.

  \<^item> Machine integers: \<open>byte\<close>, \<open>u16\<close>, \<open>u32\<close>, \<open>u64\<close> are the C types \<open>uint8_t\<close> ..
    \<open>uint64_t\<close> (and \<open>unsigned long\<close>, \<open>size_t\<close> on the LP64 targets the code is built for).
  \<^item> Faults: an operation that can dereference a null or dangling pointer, index an array out
    of its bounds or fail an \<open>assert\<close> has a result of type \<open>'a option\<close>, and \<open>None\<close> is that
    fault (undefined behaviour or an aborted process). A theorem that an operation returns
    \<open>Some\<close> is a memory-safety statement.
  \<^item> Null pointers: a pointer is an \<open>addr option\<close>, and \<open>None\<close> is \<open>NULL\<close>.
  \<^item> Arrays: \<open>get_at\<close> and \<open>set_at\<close> are the bounds-checked reads and writes.
\<close>

named_theorems fault_simps \<open>rules that push option binds and checked accesses to a normal form\<close>
named_theorems word_list_simps \<open>shifts and masks read off bit by bit\<close>

type_synonym byte = "8 word"
type_synonym u16 = "16 word"
type_synonym u32 = "32 word"
type_synonym u64 = "64 word"
type_synonym addr = nat

subsection \<open>Comparing bytes\<close>

text \<open>\<open>memcmp\<close> of the C library: the difference of the first bytes that differ.\<close>

fun memcmp :: "byte list \<Rightarrow> byte list \<Rightarrow> nat \<Rightarrow> int" where
  "memcmp (x # xs) (y # ys) (Suc n) = (if x = y then memcmp xs ys n else uint x - uint y)"
| "memcmp _ _ _ = 0"

lemma memcmp_zero: "length xs = n \<Longrightarrow> length ys = n \<Longrightarrow> (memcmp xs ys n = 0) = (xs = ys)"
  by (induction xs ys n rule: memcmp.induct) (auto simp: word_uint_eq_iff)

subsection \<open>Faults\<close>

definition ensure :: "bool \<Rightarrow> unit option" where
  "ensure b = (if b then Some () else None)"

definition get_at :: "'a list \<Rightarrow> nat \<Rightarrow> 'a option" where
  "get_at xs i = (if i < length xs then Some (xs ! i) else None)"

definition set_at :: "'a list \<Rightarrow> nat \<Rightarrow> 'a \<Rightarrow> 'a list option" where
  "set_at xs i v = (if i < length xs then Some (xs[i := v]) else None)"

lemma ensure_simps [simp]: "ensure True = Some ()" "ensure False = None"
  by (simp_all add: ensure_def)

lemma ensure_bind_Some [fault_simps]:
  "(ensure b \<bind> f = Some y) = (b \<and> f () = Some y)"
  by (simp add: ensure_def)

lemma get_at_in [simp]: "i < length xs \<Longrightarrow> get_at xs i = Some (xs ! i)"
  by (simp add: get_at_def)

lemma get_at_out [simp]: "length xs \<le> i \<Longrightarrow> get_at xs i = None"
  by (simp add: get_at_def)

lemma get_at_Some [fault_simps]: "(get_at xs i = Some v) = (i < length xs \<and> xs ! i = v)"
  by (simp add: get_at_def)

lemma set_at_in [simp]: "i < length xs \<Longrightarrow> set_at xs i v = Some (xs[i := v])"
  by (simp add: set_at_def)

lemma set_at_out [simp]: "length xs \<le> i \<Longrightarrow> set_at xs i v = None"
  by (simp add: set_at_def)

lemma set_at_Some [fault_simps]: "(set_at xs i v = Some ys) = (i < length xs \<and> ys = xs[i := v])"
  by (auto simp: set_at_def)

lemma set_get_same: "set_at xs i v = Some ys \<Longrightarrow> get_at ys i = Some v"
  by (auto simp: set_at_Some get_at_Some)

lemma set_get_other: "set_at xs i v = Some ys \<Longrightarrow> i \<noteq> j \<Longrightarrow> get_at ys j = get_at xs j"
  by (auto simp: set_at_Some get_at_def)

lemma bind_Some_iff [fault_simps]: "(m \<bind> f = Some y) = (\<exists>x. m = Some x \<and> f x = Some y)"
  for m :: "'a option"
  by (rule Option.bind_eq_Some_conv)

subsection \<open>Lists\<close>

lemma sum_list_update_nat:
  "i < length xs \<Longrightarrow> sum_list (map f (xs[i := v])) + f (xs ! i) = sum_list (map f xs) + (f v :: nat)"
proof (induction xs arbitrary: i)
  case Nil
  then show ?case by simp
next
  case (Cons x xs)
  then show ?case by (cases i) (auto simp: add.commute add.left_commute)
qed

lemma list_update_split:
  "i < length xs \<Longrightarrow> xs[i := v] = take i xs @ v # drop (Suc i) xs"
  by (rule upd_conv_take_nth_drop)

lemma concat_update_in:
  "i < length xss \<Longrightarrow> set (concat (xss[i := ys])) \<subseteq> set (concat xss) \<union> set ys"
  by (auto dest!: set_update_subset_insert [THEN subsetD])

lemma mset_concat_update:
  "i < length xss \<Longrightarrow> mset (concat (xss[i := ys])) + mset (xss ! i) = mset (concat xss) + mset ys"
proof (induction xss arbitrary: i)
  case Nil
  then show ?case by simp
next
  case (Cons x xss)
  then show ?case by (cases i) (auto simp: add.commute add.left_commute)
qed

lemma find_ex_iff: "(find P xs \<noteq> None) = (\<exists>x \<in> set xs. P x)"
  by (induction xs) auto

lemma find_SomeD: "find P xs = Some x \<Longrightarrow> x \<in> set xs \<and> P x"
  by (induction xs) (auto split: if_splits)

lemma find_unique:
  assumes "x \<in> set xs" "P x" "\<And>y. y \<in> set xs \<Longrightarrow> P y \<Longrightarrow> y = x"
  shows "find P xs = Some x"
proof -
  obtain y where y: "find P xs = Some y" using assms(1,2) find_ex_iff [of P xs] by blast
  with assms(3) find_SomeD [OF y] show ?thesis by simp
qed

lemma find_append: "find P (xs @ ys) = (case find P xs of Some x \<Rightarrow> Some x | None \<Rightarrow> find P ys)"
  by (induction xs) auto

lemma concat_nth_ex: "x \<in> set (concat xss) \<Longrightarrow> \<exists>i < length xss. x \<in> set (xss ! i)"
  by (auto simp: set_conv_nth [of xss])

lemma nth_concat_subset: "i < length xss \<Longrightarrow> set (xss ! i) \<subseteq> set (concat xss)"
  by (auto simp: set_conv_nth [of xss])

subsection \<open>Masks\<close>

lemma mask_as_shift: "push_bit n 1 - 1 = (mask n :: 'a::len word)"
  by (simp add: mask_eq_exp_minus_1 push_bit_eq_mult)

lemma unat_and_mask_mod: "unat (and w (mask n)) = unat w mod 2 ^ n" for w :: "'a::len word"
  by (simp flip: take_bit_eq_mask add: unsigned_take_bit_eq) (simp add: take_bit_eq_mod)

end
