(* ===== verification/Adlist.thy ===== *)
theory Adlist
  imports Prelude
begin

text \<open>
  The generic doubly linked list of \<open>myRedis/src/adlist.c\<close>.

  Nodes live in a store \<open>nodes\<close> (address to node); the \<open>list\<close> header is a record passed and
  returned, so two lists can share one store, as \<open>listJoin\<close> and \<open>listDup\<close> need. A \<open>void *\<close>
  value is an element of the type variable, equal when the pointers are. Function pointers of the
  header are optional functions; the \<open>free\<close> callback is external, so the model records in
  \<open>freed\<close> the values it is called on. \<open>zmalloc\<close> is a parameter: given the store it answers
  \<open>NULL\<close> or an address with the (uninitialised) contents found there; \<open>zmalloc_ok\<close> is what the C
  library documents of it, that the address is not one already in use. \<open>unsigned long len\<close> is a
  natural number: each counted node occupies 24 bytes, so \<open>2 ^ 64\<close> of them do not exist.

  After the operations come the invariant (\<open>list_inv\<close>: the chain of next pointers, the chain of
  prev pointers, the header and the counter agree), the abstraction \<open>lrep\<close> to HOL lists, and the
  refinement of every operation.
\<close>

subsection \<open>Data\<close>

record 'v listNode =
  prev :: "addr option"
  nxt :: "addr option"
  nvalue :: 'v

record 'v mem =
  nodes :: "addr \<Rightarrow> 'v listNode option"
  freed :: "'v list"

record listIter =
  inext :: "addr option"
  direction :: int

record 'v hlist =
  head :: "addr option"
  tail :: "addr option"
  dup :: "('v \<Rightarrow> 'v option) option"
  free :: bool
  match :: "('v \<Rightarrow> 'v \<Rightarrow> bool) option"
  llen :: nat

type_synonym 'v zmalloc = "'v mem \<Rightarrow> (addr \<times> 'v listNode) option"

definition zmalloc_ok :: "'v zmalloc \<Rightarrow> bool" where
  "zmalloc_ok zm \<longleftrightarrow> (\<forall>m a n. zm m = Some (a, n) \<longrightarrow> nodes m a = None)"

definition AL_START_HEAD :: int where "AL_START_HEAD = 0"
definition AL_START_TAIL :: int where "AL_START_TAIL = 1"

text \<open>Reading and writing through a pointer; a null or dangling pointer is a fault.\<close>

definition load :: "'v mem \<Rightarrow> addr option \<Rightarrow> 'v listNode option" where
  "load m p = (case p of None \<Rightarrow> None | Some a \<Rightarrow> nodes m a)"

definition modify :: "'v mem \<Rightarrow> addr option \<Rightarrow> ('v listNode \<Rightarrow> 'v listNode) \<Rightarrow> 'v mem option" where
  "modify m p f = (case p of None \<Rightarrow> None | Some a \<Rightarrow>
     (case nodes m a of None \<Rightarrow> None | Some n \<Rightarrow> Some (m\<lparr>nodes := (nodes m)(a \<mapsto> f n)\<rparr>)))"

definition zfree :: "'v mem \<Rightarrow> addr option \<Rightarrow> 'v mem option" where
  "zfree m p = (case p of None \<Rightarrow> Some m | Some a \<Rightarrow>
     (case nodes m a of None \<Rightarrow> None | Some n \<Rightarrow> Some (m\<lparr>nodes := (nodes m)(a := None)\<rparr>)))"

definition call_free :: "'v hlist \<Rightarrow> 'v \<Rightarrow> 'v mem \<Rightarrow> 'v mem" where
  "call_free l v m = (if free l then m\<lparr>freed := freed m @ [v]\<rparr> else m)"

definition new_node :: "'v zmalloc \<Rightarrow> 'v mem \<Rightarrow> 'v \<Rightarrow> (addr \<times> 'v mem) option" where
  "new_node zm m v = (case zm m of None \<Rightarrow> None
     | Some (a, n) \<Rightarrow> Some (a, m\<lparr>nodes := (nodes m)(a \<mapsto> n\<lparr>nvalue := v\<rparr>)\<rparr>))"

subsection \<open>Operations\<close>

text \<open>
  The allocation of a header or of an iterator is a flag: whether \<open>zmalloc\<close> returned memory.
\<close>

definition listCreate :: "bool \<Rightarrow> 'v hlist option" where
  "listCreate allocated = (if \<not> allocated then None
     else Some \<lparr>head = None, tail = None, dup = None, free = False, match = None, llen = 0\<rparr>)"

fun listEmpty_loop :: "'v hlist \<Rightarrow> nat \<Rightarrow> 'v mem \<Rightarrow> addr option \<Rightarrow> 'v mem option" where
  "listEmpty_loop l 0 m current = Some m"
| "listEmpty_loop l (Suc k) m current = do {
     n \<leftarrow> load m current;
     m \<leftarrow> zfree (call_free l (nvalue n) m) current;
     listEmpty_loop l k m (nxt n) }"

definition listEmpty :: "'v mem \<Rightarrow> 'v hlist \<Rightarrow> ('v mem \<times> 'v hlist) option" where
  "listEmpty m l = do {
     m \<leftarrow> listEmpty_loop l (llen l) m (head l);
     Some (m, l\<lparr>head := None, tail := None, llen := 0\<rparr>) }"

definition listRelease :: "'v mem \<Rightarrow> 'v hlist \<Rightarrow> 'v mem option" where
  "listRelease m l = map_option fst (listEmpty m l)"

definition listLinkNodeHead :: "'v mem \<Rightarrow> 'v hlist \<Rightarrow> addr option \<Rightarrow> ('v mem \<times> 'v hlist) option" where
  "listLinkNodeHead m l node =
     (if llen l = 0 then do {
        m \<leftarrow> modify m node (\<lambda>n. n\<lparr>prev := None, nxt := None\<rparr>);
        Some (m, l\<lparr>head := node, tail := node, llen := llen l + 1\<rparr>) }
      else do {
        m \<leftarrow> modify m node (\<lambda>n. n\<lparr>prev := None\<rparr>);
        m \<leftarrow> modify m node (\<lambda>n. n\<lparr>nxt := head l\<rparr>);
        m \<leftarrow> modify m (head l) (\<lambda>n. n\<lparr>prev := node\<rparr>);
        Some (m, l\<lparr>head := node, llen := llen l + 1\<rparr>) })"

text \<open>
  The functions that allocate return \<open>None\<close> inside \<open>Some\<close> when \<open>zmalloc\<close> answers \<open>NULL\<close>: the
  caller sees \<open>NULL\<close> and store and header are as before.
\<close>

definition listAddNodeHead ::
    "'v zmalloc \<Rightarrow> 'v mem \<Rightarrow> 'v hlist \<Rightarrow> 'v \<Rightarrow> ('v mem \<times> 'v hlist) option option" where
  "listAddNodeHead zm m l v = (case new_node zm m v of None \<Rightarrow> Some None
     | Some (a, m) \<Rightarrow> map_option Some (listLinkNodeHead m l (Some a)))"

definition listAddNodeTail ::
    "'v zmalloc \<Rightarrow> 'v mem \<Rightarrow> 'v hlist \<Rightarrow> 'v \<Rightarrow> ('v mem \<times> 'v hlist) option option" where
  "listAddNodeTail zm m l v = (case new_node zm m v of None \<Rightarrow> Some None
     | Some (a, m) \<Rightarrow> map_option Some
         (if llen l = 0 then do {
            m \<leftarrow> modify m (Some a) (\<lambda>n. n\<lparr>prev := None, nxt := None\<rparr>);
            Some (m, l\<lparr>head := Some a, tail := Some a, llen := llen l + 1\<rparr>) }
          else do {
            m \<leftarrow> modify m (Some a) (\<lambda>n. n\<lparr>prev := tail l\<rparr>);
            m \<leftarrow> modify m (Some a) (\<lambda>n. n\<lparr>nxt := None\<rparr>);
            m \<leftarrow> modify m (tail l) (\<lambda>n. n\<lparr>nxt := Some a\<rparr>);
            Some (m, l\<lparr>tail := Some a, llen := llen l + 1\<rparr>) }))"

definition listInsertNode ::
    "'v zmalloc \<Rightarrow> 'v mem \<Rightarrow> 'v hlist \<Rightarrow> addr option \<Rightarrow> 'v \<Rightarrow> bool \<Rightarrow>
     ('v mem \<times> 'v hlist) option option" where
  "listInsertNode zm m l old_node v after = (case new_node zm m v of None \<Rightarrow> Some None
     | Some (a, m) \<Rightarrow> map_option Some (do {
         (m, l) \<leftarrow>
           (if after then do {
              m \<leftarrow> modify m (Some a) (\<lambda>n. n\<lparr>prev := old_node\<rparr>);
              old \<leftarrow> load m old_node;
              m \<leftarrow> modify m (Some a) (\<lambda>n. n\<lparr>nxt := nxt old\<rparr>);
              Some (m, if tail l = old_node then l\<lparr>tail := Some a\<rparr> else l) }
            else do {
              m \<leftarrow> modify m (Some a) (\<lambda>n. n\<lparr>nxt := old_node\<rparr>);
              old \<leftarrow> load m old_node;
              m \<leftarrow> modify m (Some a) (\<lambda>n. n\<lparr>prev := prev old\<rparr>);
              Some (m, if head l = old_node then l\<lparr>head := Some a\<rparr> else l) });
         node \<leftarrow> load m (Some a);
         m \<leftarrow> (if prev node \<noteq> None then modify m (prev node) (\<lambda>n. n\<lparr>nxt := Some a\<rparr>) else Some m);
         node \<leftarrow> load m (Some a);
         m \<leftarrow> (if nxt node \<noteq> None then modify m (nxt node) (\<lambda>n. n\<lparr>prev := Some a\<rparr>) else Some m);
         Some (m, l\<lparr>llen := llen l + 1\<rparr>) }))"

definition listUnlinkNode :: "'v mem \<Rightarrow> 'v hlist \<Rightarrow> addr option \<Rightarrow> ('v mem \<times> 'v hlist) option" where
  "listUnlinkNode m l node = do {
     n \<leftarrow> load m node;
     (m, l) \<leftarrow> (if prev n \<noteq> None
        then do { m \<leftarrow> modify m (prev n) (\<lambda>p. p\<lparr>nxt := nxt n\<rparr>); Some (m, l) }
        else Some (m, l\<lparr>head := nxt n\<rparr>));
     n \<leftarrow> load m node;
     (m, l) \<leftarrow> (if nxt n \<noteq> None
        then do { m \<leftarrow> modify m (nxt n) (\<lambda>q. q\<lparr>prev := prev n\<rparr>); Some (m, l) }
        else Some (m, l\<lparr>tail := prev n\<rparr>));
     m \<leftarrow> modify m node (\<lambda>n. n\<lparr>nxt := None\<rparr>);
     m \<leftarrow> modify m node (\<lambda>n. n\<lparr>prev := None\<rparr>);
     Some (m, l\<lparr>llen := llen l - 1\<rparr>) }"

definition listDelNode :: "'v mem \<Rightarrow> 'v hlist \<Rightarrow> addr option \<Rightarrow> ('v mem \<times> 'v hlist) option" where
  "listDelNode m l node = do {
     (m, l) \<leftarrow> listUnlinkNode m l node;
     n \<leftarrow> load m node;
     m \<leftarrow> zfree (call_free l (nvalue n) m) node;
     Some (m, l) }"

text \<open>
  An iterator is two fields; \<open>listGetIterator\<close> differs from the two rewinds only in that the
  iterator is allocated, which can fail.
\<close>

definition listGetIterator :: "bool \<Rightarrow> 'v hlist \<Rightarrow> int \<Rightarrow> listIter option" where
  "listGetIterator allocated l dir =
     (if \<not> allocated then None
      else Some \<lparr>inext = (if dir = AL_START_HEAD then head l else tail l), direction = dir\<rparr>)"

definition listRewind :: "'v hlist \<Rightarrow> listIter" where
  "listRewind l = \<lparr>inext = head l, direction = AL_START_HEAD\<rparr>"

definition listRewindTail :: "'v hlist \<Rightarrow> listIter" where
  "listRewindTail l = \<lparr>inext = tail l, direction = AL_START_TAIL\<rparr>"

definition listNext :: "'v mem \<Rightarrow> listIter \<Rightarrow> (addr option \<times> listIter) option" where
  "listNext m iter =
     (if inext iter \<noteq> None then do {
        current \<leftarrow> load m (inext iter);
        Some (inext iter, if direction iter = AL_START_HEAD
                          then iter\<lparr>inext := nxt current\<rparr> else iter\<lparr>inext := prev current\<rparr>) }
      else Some (None, iter))"

text \<open>
  A loop over an iterator does not stop on a cyclic chain, so the two loops below are partial;
  on a well-formed list they return, as shown further down.
\<close>

partial_function (option) listDup_loop ::
    "'v zmalloc \<Rightarrow> 'v mem \<Rightarrow> 'v hlist \<Rightarrow> listIter \<Rightarrow> ('v mem \<times> 'v hlist option) option" where
  "listDup_loop zm m copy iter = do {
     (node, iter) \<leftarrow> listNext m iter;
     if node = None then Some (m, Some copy)
     else do {
       n \<leftarrow> load m node;
       (case (case dup copy of None \<Rightarrow> Some (nvalue n) | Some f \<Rightarrow> f (nvalue n)) of
          None \<Rightarrow> do { m \<leftarrow> listRelease m copy; Some (m, None) }
        | Some v \<Rightarrow> do {
            r \<leftarrow> listAddNodeTail zm m copy v;
            (case r of
               None \<Rightarrow> do { m \<leftarrow> listRelease (call_free copy v m) copy; Some (m, None) }
             | Some (m, copy) \<Rightarrow> listDup_loop zm m copy iter) }) } }"

definition listDup ::
    "bool \<Rightarrow> 'v zmalloc \<Rightarrow> 'v mem \<Rightarrow> 'v hlist \<Rightarrow> ('v mem \<times> 'v hlist option) option" where
  "listDup allocated zm m orig = (case listCreate allocated of None \<Rightarrow> Some (m, None)
     | Some copy \<Rightarrow>
         listDup_loop zm m (copy\<lparr>dup := dup orig, free := free orig, match := match orig\<rparr>)
           (listRewind orig))"

partial_function (option) listSearchKey_loop ::
    "'v mem \<Rightarrow> 'v hlist \<Rightarrow> 'v \<Rightarrow> listIter \<Rightarrow> addr option option" where
  "listSearchKey_loop m l key iter = do {
     (node, iter) \<leftarrow> listNext m iter;
     if node = None then Some None
     else do {
       n \<leftarrow> load m node;
       if (case match l of Some f \<Rightarrow> f (nvalue n) key | None \<Rightarrow> key = nvalue n)
       then Some node
       else listSearchKey_loop m l key iter } }"

definition listSearchKey :: "'v mem \<Rightarrow> 'v hlist \<Rightarrow> 'v \<Rightarrow> addr option option" where
  "listSearchKey m l key = listSearchKey_loop m l key (listRewind l)"

fun walk :: "('v listNode \<Rightarrow> addr option) \<Rightarrow> 'v mem \<Rightarrow> nat \<Rightarrow> addr option \<Rightarrow> addr option option" where
  "walk f m 0 n = Some n"
| "walk f m (Suc k) n = (if n = None then Some None else do { nd \<leftarrow> load m n; walk f m k (f nd) })"

definition listIndex :: "'v mem \<Rightarrow> 'v hlist \<Rightarrow> int \<Rightarrow> addr option option" where
  "listIndex m l index =
     (if index < 0 then walk prev m (nat (- index - 1)) (tail l)
      else walk nxt m (nat index) (head l))"

definition listRotateTailToHead :: "'v mem \<Rightarrow> 'v hlist \<Rightarrow> ('v mem \<times> 'v hlist) option" where
  "listRotateTailToHead m l =
     (if llen l \<le> 1 then Some (m, l)
      else do {
        let tl = tail l;
        t \<leftarrow> load m tl;
        let l = l\<lparr>tail := prev t\<rparr>;
        m \<leftarrow> modify m (tail l) (\<lambda>n. n\<lparr>nxt := None\<rparr>);
        m \<leftarrow> modify m (head l) (\<lambda>n. n\<lparr>prev := tl\<rparr>);
        m \<leftarrow> modify m tl (\<lambda>n. n\<lparr>prev := None\<rparr>);
        m \<leftarrow> modify m tl (\<lambda>n. n\<lparr>nxt := head l\<rparr>);
        Some (m, l\<lparr>head := tl\<rparr>) })"

definition listRotateHeadToTail :: "'v mem \<Rightarrow> 'v hlist \<Rightarrow> ('v mem \<times> 'v hlist) option" where
  "listRotateHeadToTail m l =
     (if llen l \<le> 1 then Some (m, l)
      else do {
        let hd = head l;
        h \<leftarrow> load m hd;
        let l = l\<lparr>head := nxt h\<rparr>;
        m \<leftarrow> modify m (head l) (\<lambda>n. n\<lparr>prev := None\<rparr>);
        m \<leftarrow> modify m (tail l) (\<lambda>n. n\<lparr>nxt := hd\<rparr>);
        m \<leftarrow> modify m hd (\<lambda>n. n\<lparr>nxt := None\<rparr>);
        m \<leftarrow> modify m hd (\<lambda>n. n\<lparr>prev := tail l\<rparr>);
        Some (m, l\<lparr>tail := hd\<rparr>) })"

definition listJoin ::
    "'v mem \<Rightarrow> 'v hlist \<Rightarrow> 'v hlist \<Rightarrow> ('v mem \<times> 'v hlist \<times> 'v hlist) option" where
  "listJoin m l other =
     (if llen other = 0 then Some (m, l, other)
      else do {
        m \<leftarrow> modify m (head other) (\<lambda>n. n\<lparr>prev := tail l\<rparr>);
        (m, l) \<leftarrow> (if tail l \<noteq> None
           then do { m \<leftarrow> modify m (tail l) (\<lambda>n. n\<lparr>nxt := head other\<rparr>); Some (m, l) }
           else Some (m, l\<lparr>head := head other\<rparr>));
        let l = l\<lparr>tail := tail other, llen := llen l + llen other\<rparr>;
        Some (m, l, other\<lparr>head := None, tail := None, llen := 0\<rparr>) })"

definition listInitNode :: "'v mem \<Rightarrow> addr option \<Rightarrow> 'v \<Rightarrow> 'v mem option" where
  "listInitNode m node v = modify m node (\<lambda>n. n\<lparr>prev := None, nxt := None, nvalue := v\<rparr>)"

subsection \<open>Store lemmas\<close>

lemma load_simps [simp]: "load m None = None" "load m (Some a) = nodes m a"
  by (simp_all add: load_def)

lemma modify_None [simp]: "modify m None f = None"
  by (simp add: modify_def)

lemma modify_Some [simp]:
  "nodes m a = Some n \<Longrightarrow> modify m (Some a) f = Some (m\<lparr>nodes := (nodes m)(a \<mapsto> f n)\<rparr>)"
  by (simp add: modify_def)

lemma zfree_Some [simp]:
  "nodes m a = Some n \<Longrightarrow> zfree m (Some a) = Some (m\<lparr>nodes := (nodes m)(a := None)\<rparr>)"
  by (simp add: zfree_def)

lemma call_free_nodes [simp]: "nodes (call_free l v m) = nodes m"
  by (simp add: call_free_def)

lemma call_free_freed: "freed (call_free l v m) = freed m @ (if free l then [v] else [])"
  by (simp add: call_free_def)

subsection \<open>Segments of a doubly linked chain\<close>

text \<open>
  \<open>dseg h pr fst_p as lst nx\<close>: the chain that starts at \<open>fst_p\<close> visits the addresses \<open>as\<close>, its
  first node points back to \<open>pr\<close>, its last node is \<open>lst\<close> and points forward to \<open>nx\<close>; for the empty
  chain \<open>fst_p\<close> is \<open>nx\<close> and \<open>lst\<close> is \<open>pr\<close>.
\<close>

fun dseg :: "(addr \<Rightarrow> 'v listNode option) \<Rightarrow> addr option \<Rightarrow> addr option \<Rightarrow> addr list \<Rightarrow>
    addr option \<Rightarrow> addr option \<Rightarrow> bool" where
  "dseg h pr fst_p [] lst nx \<longleftrightarrow> fst_p = nx \<and> lst = pr"
| "dseg h pr fst_p (a # as) lst nx \<longleftrightarrow>
     fst_p = Some a \<and> (\<exists>n. h a = Some n \<and> prev n = pr \<and> dseg h (Some a) (nxt n) as lst nx)"

lemma dseg_append:
  "dseg h pr f (as @ bs) l nx \<longleftrightarrow> (\<exists>ml mf. dseg h pr f as ml mf \<and> dseg h ml mf bs l nx)"
  by (induction as arbitrary: pr f) auto

lemma dseg_middle:
  "dseg h pr f (as @ a # bs) l nx \<longleftrightarrow>
     (\<exists>n. h a = Some n \<and> dseg h pr f as (prev n) (Some a) \<and> dseg h (Some a) (nxt n) bs l nx)"
  by (auto simp: dseg_append)

lemma dseg_frame [simp]: "a \<notin> set as \<Longrightarrow> dseg (h(a := x)) pr f as l nx = dseg h pr f as l nx"
  by (induction as arbitrary: pr f) auto

lemma dseg_alloc: "dseg h pr f as l nx \<Longrightarrow> a \<in> set as \<Longrightarrow> \<exists>n. h a = Some n"
  by (induction as arbitrary: pr f) auto

lemma dseg_first: "dseg h pr f (a # as) l nx \<Longrightarrow> f = Some a"
  by simp

lemma dseg_last: "dseg h pr f (as @ [a]) l nx \<Longrightarrow> l = Some a"
  by (auto simp: dseg_append)

lemma dseg_first_None: "dseg h pr f as l None \<Longrightarrow> f = None \<longleftrightarrow> as = []"
  by (cases as) auto

lemma dseg_last_None: "dseg h None f as l nx \<Longrightarrow> l = None \<longleftrightarrow> as = []"
  by (cases as rule: rev_cases) (auto simp: dseg_append)

lemma dseg_set_prev:
  "dseg h pr f (a # as) l nx \<Longrightarrow> a \<notin> set as \<Longrightarrow> h a = Some n \<Longrightarrow>
   dseg (h(a \<mapsto> n\<lparr>prev := pr'\<rparr>)) pr' f (a # as) l nx"
  by auto

lemma dseg_set_nxt:
  "dseg h pr f (as @ [a]) l nx \<Longrightarrow> a \<notin> set as \<Longrightarrow> h a = Some n \<Longrightarrow>
   dseg (h(a \<mapsto> n\<lparr>nxt := nx'\<rparr>)) pr f (as @ [a]) l nx'"
  by (auto simp: dseg_middle)

definition vals :: "(addr \<Rightarrow> 'v listNode option) \<Rightarrow> addr list \<Rightarrow> 'v list" where
  "vals h as = map (\<lambda>a. nvalue (the (h a))) as"

lemma vals_simps [simp]:
  "vals h [] = []" "vals h (a # as) = nvalue (the (h a)) # vals h as"
  "vals h (as @ bs) = vals h as @ vals h bs" "length (vals h as) = length as"
  by (simp_all add: vals_def)

lemma vals_upd_out [simp]: "a \<notin> set as \<Longrightarrow> vals (h(a := x)) as = vals h as"
  by (auto simp: vals_def)

lemma vals_upd_links [simp]:
  "h a = Some n \<Longrightarrow> nvalue n' = nvalue n \<Longrightarrow> vals (h(a \<mapsto> n')) as = vals h as"
  by (auto simp: vals_def)

subsection \<open>Invariant and abstraction\<close>

definition list_inv :: "'v mem \<Rightarrow> 'v hlist \<Rightarrow> addr list \<Rightarrow> bool" where
  "list_inv m l as \<longleftrightarrow>
     dseg (nodes m) None (head l) as (tail l) None \<and> distinct as \<and> llen l = length as"

definition lrep :: "'v mem \<Rightarrow> 'v hlist \<Rightarrow> 'v list \<Rightarrow> bool" where
  "lrep m l xs \<longleftrightarrow> (\<exists>as. list_inv m l as \<and> vals (nodes m) as = xs)"

text \<open>Outside \<open>A\<close> the store is as it was: no node changed, none allocated, none freed.\<close>

definition frame :: "'v mem \<Rightarrow> 'v mem \<Rightarrow> addr set \<Rightarrow> bool" where
  "frame m m' A \<longleftrightarrow> (\<forall>a. a \<notin> A \<longrightarrow> nodes m' a = nodes m a)"

lemma frame_refl [simp]: "frame m m A"
  by (simp add: frame_def)

lemma dseg_cong:
  "(\<And>a. a \<in> set as \<Longrightarrow> h' a = h a) \<Longrightarrow> dseg h' pr f as l nx = dseg h pr f as l nx"
  by (induction as arbitrary: pr f) auto

lemma list_inv_frame:
  assumes "list_inv m l as" "frame m m' A" "set as \<inter> A = {}"
  shows "list_inv m' l as" "vals (nodes m') as = vals (nodes m) as"
proof -
  have eq: "nodes m' a = nodes m a" if "a \<in> set as" for a
    using assms that by (auto simp: frame_def)
  show "list_inv m' l as"
    using assms(1) by (simp add: list_inv_def dseg_cong [OF eq])
  show "vals (nodes m') as = vals (nodes m) as"
    by (simp add: vals_def eq)
qed

lemma list_inv_empty [simp]: "list_inv m l [] \<longleftrightarrow> head l = None \<and> tail l = None \<and> llen l = 0"
  by (auto simp: list_inv_def)

subsection \<open>Refinement of the operations\<close>

text \<open>What an operation that frees nothing leaves behind: the list, its values, the frame.\<close>

definition list_post ::
    "'v mem \<Rightarrow> 'v mem \<Rightarrow> 'v hlist \<Rightarrow> addr list \<Rightarrow> 'v list \<Rightarrow> addr set \<Rightarrow> bool" where
  "list_post m m' l' as' xs' A \<longleftrightarrow>
     list_inv m' l' as' \<and> vals (nodes m') as' = xs' \<and> frame m m' A \<and> freed m' = freed m"

lemma listLinkNodeHead_post:
  assumes "list_inv m l as" "a \<notin> set as" "nodes m a = Some n"
  shows "\<exists>m' l'. listLinkNodeHead m l (Some a) = Some (m', l') \<and>
     list_post m m' l' (a # as) (nvalue n # vals (nodes m) as) (set (a # as))"
proof (cases as)
  case Nil
  with assms show ?thesis
    by (auto simp: listLinkNodeHead_def list_post_def list_inv_def frame_def)
next
  case (Cons b bs)
  with assms obtain nb where nb: "nodes m b = Some nb" "head l = Some b"
    by (auto simp: list_inv_def)
  with assms Cons show ?thesis
    by (auto simp: listLinkNodeHead_def list_post_def list_inv_def frame_def)
qed

lemma new_node_Some:
  "zmalloc_ok zm \<Longrightarrow> new_node zm m v = Some (a, m') \<Longrightarrow>
   nodes m a = None \<and> (\<exists>n. nodes m' = (nodes m)(a \<mapsto> n\<lparr>nvalue := v\<rparr>)) \<and> freed m' = freed m"
  by (auto simp: new_node_def zmalloc_ok_def split: option.splits)

lemma list_inv_new_node:
  assumes "zmalloc_ok zm" "new_node zm m v = Some (a, m')" "list_inv m l as"
  shows "list_inv m' l as" "vals (nodes m') as = vals (nodes m) as" "a \<notin> set as"
    "\<exists>n. nodes m' a = Some n \<and> nvalue n = v" "freed m' = freed m" "frame m m' {a}"
proof -
  note n = new_node_Some [OF assms(1,2)]
  show a: "a \<notin> set as"
    using n assms(3) by (auto simp: list_inv_def dest: dseg_alloc)
  from n a assms(3) show "list_inv m' l as" "vals (nodes m') as = vals (nodes m) as"
    by (auto simp: list_inv_def)
  from n show "\<exists>n. nodes m' a = Some n \<and> nvalue n = v" "freed m' = freed m" "frame m m' {a}"
    by (auto simp: frame_def)
qed

lemma list_post_new:
  "frame m m1 {a} \<Longrightarrow> freed m1 = freed m \<Longrightarrow> list_post m1 m' l' as' xs' A \<Longrightarrow> a \<in> A \<Longrightarrow>
   list_post m m' l' as' xs' A"
  by (auto simp: list_post_def frame_def)

lemma new_nodeE:
  assumes "zmalloc_ok zm" "zm m \<noteq> None" "list_inv m l as"
  obtains a m1 k where "new_node zm m v = Some (a, m1)" "nodes m a = None" "list_inv m1 l as"
    "vals (nodes m1) as = vals (nodes m) as" "a \<notin> set as" "nodes m1 a = Some k" "nvalue k = v"
    "\<forall>m' l' as' xs' A. list_post m1 m' l' as' xs' A \<longrightarrow> a \<in> A \<longrightarrow> list_post m m' l' as' xs' A"
proof -
  obtain a m1 where new: "new_node zm m v = Some (a, m1)"
    using assms(2) by (auto simp: new_node_def)
  note n = list_inv_new_node [OF assms(1) new assms(3)]
  from n(4) obtain k where k: "nodes m1 a = Some k" "nvalue k = v" by blast
  from new_node_Some [OF assms(1) new] have "nodes m a = None" by simp
  then show thesis
    using that [OF new _ n(1,2,3) k] list_post_new [OF n(6,5)] by blast
qed

definition same_methods :: "'v hlist \<Rightarrow> 'v hlist \<Rightarrow> bool" where
  "same_methods l l' \<longleftrightarrow> dup l' = dup l \<and> free l' = free l \<and> match l' = match l"

lemma same_methods_cong: "same_methods l l' \<Longrightarrow> same_methods l' k = same_methods l k"
  by (simp add: same_methods_def)

lemma listAddNodeHead_post:
  assumes zm: "zmalloc_ok zm" "zm m \<noteq> None" and inv: "list_inv m l as"
  shows "\<exists>a m' l'. listAddNodeHead zm m l v = Some (Some (m', l')) \<and> nodes m a = None \<and>
     list_post m m' l' (a # as) (v # vals (nodes m) as) (set (a # as))"
proof -
  obtain a m1 k where new: "new_node zm m v = Some (a, m1)" and a: "nodes m a = None"
    and n: "list_inv m1 l as" "vals (nodes m1) as = vals (nodes m) as" "a \<notin> set as"
    and k: "nodes m1 a = Some k" "nvalue k = v"
    and post: "\<forall>m' l' as' xs' A. list_post m1 m' l' as' xs' A \<longrightarrow> a \<in> A \<longrightarrow> list_post m m' l' as' xs' A"
    using new_nodeE [OF zm inv, of v] by blast
  obtain m' l' where "listLinkNodeHead m1 l (Some a) = Some (m', l')"
    "list_post m1 m' l' (a # as) (nvalue k # vals (nodes m1) as) (set (a # as))"
    using listLinkNodeHead_post [OF n(1,3) k(1)] by blast
  with a new n(2) k(2) post show ?thesis
    by (fastforce simp: listAddNodeHead_def)
qed

lemma listAddNodeTail_post:
  assumes zm: "zmalloc_ok zm" "zm m \<noteq> None" and inv: "list_inv m l as"
  shows "\<exists>a m' l'. listAddNodeTail zm m l v = Some (Some (m', l')) \<and> nodes m a = None \<and>
     list_post m m' l' (as @ [a]) (vals (nodes m) as @ [v]) (set (a # as)) \<and> same_methods l l'"
proof -
  obtain a m1 k where new: "new_node zm m v = Some (a, m1)" and a: "nodes m a = None"
    and n: "list_inv m1 l as" "vals (nodes m1) as = vals (nodes m) as" "a \<notin> set as"
    and k: "nodes m1 a = Some k" "nvalue k = v"
    and post: "\<forall>m' l' as' xs' A. list_post m1 m' l' as' xs' A \<longrightarrow> a \<in> A \<longrightarrow> list_post m m' l' as' xs' A"
    using new_nodeE [OF zm inv, of v] by blast
  have "\<exists>m' l'. listAddNodeTail zm m l v = Some (Some (m', l')) \<and> same_methods l l' \<and>
     list_post m1 m' l' (as @ [a]) (vals (nodes m1) as @ [v]) (set (a # as))"
  proof (cases as rule: rev_cases)
    case Nil
    with n k new show ?thesis
      by (auto simp: listAddNodeTail_def list_post_def list_inv_def frame_def same_methods_def)
  next
    case (snoc bs b)
    with n(1) obtain nb where nb: "nodes m1 b = Some nb" "tail l = Some b"
      by (auto simp: list_inv_def dseg_append)
    with snoc n(1,3) k new show ?thesis
      by (auto simp: listAddNodeTail_def list_post_def list_inv_def frame_def dseg_middle
          same_methods_def)
  qed
  with a n(2) post show ?thesis by fastforce
qed

lemma listUnlinkNode_post:
  assumes inv: "list_inv m l (as @ a # bs)"
  shows "\<exists>m' l' n. listUnlinkNode m l (Some a) = Some (m', l') \<and> same_methods l l' \<and>
     list_post m m' l' (as @ bs) (vals (nodes m) (as @ bs)) (set (as @ a # bs)) \<and>
     nodes m' a = Some (n\<lparr>prev := None, nxt := None\<rparr>) \<and> nodes m a = Some n"
proof -
  from inv obtain n where n: "nodes m a = Some n" "dseg (nodes m) None (head l) as (prev n) (Some a)"
      "dseg (nodes m) (Some a) (nxt n) bs (tail l) None"
    by (auto simp: list_inv_def dseg_middle)
  have d: "distinct (as @ a # bs)" and ll: "llen l = length (as @ a # bs)"
    using inv by (auto simp: list_inv_def)
  show ?thesis
  proof (cases as rule: rev_cases)
    case Nil
    show ?thesis
    proof (cases bs)
      case Nil
      with \<open>as = []\<close> n d ll show ?thesis
        by (auto simp: listUnlinkNode_def list_post_def list_inv_def frame_def same_methods_def)
    next
      case (Cons c cs)
      with n obtain nc where "nodes m c = Some nc" "nxt n = Some c" by auto
      with Cons \<open>as = []\<close> n d ll show ?thesis
        by (auto simp: listUnlinkNode_def list_post_def list_inv_def frame_def same_methods_def)
    qed
  next
    case (snoc ds e)
    with n obtain ne where ne: "nodes m e = Some ne" "prev n = Some e"
      by (auto simp: dseg_append)
    show ?thesis
    proof (cases bs)
      case Nil
      with snoc ne n d ll show ?thesis
        by (auto simp: listUnlinkNode_def list_post_def list_inv_def frame_def same_methods_def
            dseg_middle)
    next
      case (Cons c cs)
      with n obtain nc where "nodes m c = Some nc" "nxt n = Some c" by auto
      with Cons snoc ne n d ll show ?thesis
        by (auto simp: listUnlinkNode_def list_post_def list_inv_def frame_def same_methods_def
            dseg_middle)
    qed
  qed
qed

lemma listDelNode_post:
  assumes inv: "list_inv m l (as @ a # bs)"
  shows "\<exists>m' l'. listDelNode m l (Some a) = Some (m', l') \<and> list_inv m' l' (as @ bs) \<and>
     vals (nodes m') (as @ bs) = vals (nodes m) (as @ bs) \<and> nodes m' a = None \<and>
     freed m' = freed m @ (if free l then vals (nodes m) [a] else []) \<and>
     frame m m' (set (as @ a # bs))"
proof -
  obtain m1 l1 n where u: "listUnlinkNode m l (Some a) = Some (m1, l1)" "same_methods l l1"
    and p: "list_post m m1 l1 (as @ bs) (vals (nodes m) (as @ bs)) (set (as @ a # bs))"
    and n: "nodes m1 a = Some (n\<lparr>prev := None, nxt := None\<rparr>)" "nodes m a = Some n"
    using listUnlinkNode_post [OF inv] by blast
  have "a \<notin> set (as @ bs)" using inv by (auto simp: list_inv_def)
  with u p n show ?thesis
    by (auto simp: listDelNode_def list_post_def list_inv_def frame_def same_methods_def
        call_free_freed)
qed


lemma listInsertNode_after_post:
  assumes zm: "zmalloc_ok zm" "zm m \<noteq> None" and inv: "list_inv m l (as @ b # bs)"
  shows "\<exists>a m' l'. listInsertNode zm m l (Some b) v True = Some (Some (m', l')) \<and> nodes m a = None \<and>
     list_post m m' l' (as @ b # a # bs) (vals (nodes m) (as @ [b]) @ v # vals (nodes m) bs)
       (set (a # as @ b # bs))"
proof -
  obtain a m1 k where new: "new_node zm m v = Some (a, m1)" and a: "nodes m a = None"
    and n: "list_inv m1 l (as @ b # bs)" "vals (nodes m1) (as @ b # bs) = vals (nodes m) (as @ b # bs)" "a \<notin> set (as @ b # bs)"
    and k: "nodes m1 a = Some k" "nvalue k = v"
    and post: "\<forall>m' l' as' xs' A. list_post m1 m' l' as' xs' A \<longrightarrow> a \<in> A \<longrightarrow> list_post m m' l' as' xs' A"
    using new_nodeE [OF zm inv, of v] by blast
  obtain nb where nb: "nodes m1 b = Some nb"
    using n(1) by (auto simp: list_inv_def dseg_middle)
  have "\<exists>m' l'. listInsertNode zm m l (Some b) v True = Some (Some (m', l')) \<and>
     list_post m1 m' l' (as @ b # a # bs) (vals (nodes m1) (as @ [b]) @ v # vals (nodes m1) bs)
       (set (a # as @ b # bs))"
  proof (cases bs)
    case Nil
    with n k new nb show ?thesis
      by (auto simp: listInsertNode_def list_post_def list_inv_def frame_def dseg_middle)
  next
    case (Cons c cs)
    with n(1) nb obtain nc where nc: "nodes m1 c = Some nc" "nxt nb = Some c" "tail l \<noteq> Some b"
      by (cases cs rule: rev_cases) (auto simp: list_inv_def dseg_middle)
    with Cons n(1,3) k new nb show ?thesis
      by (auto simp: listInsertNode_def list_post_def list_inv_def frame_def dseg_middle)
  qed
  with a n(2) post show ?thesis by fastforce
qed

lemma listInsertNode_before_post:
  assumes zm: "zmalloc_ok zm" "zm m \<noteq> None" and inv: "list_inv m l (as @ b # bs)"
  shows "\<exists>a m' l'. listInsertNode zm m l (Some b) v False = Some (Some (m', l')) \<and> nodes m a = None \<and>
     list_post m m' l' (as @ a # b # bs) (vals (nodes m) as @ v # vals (nodes m) (b # bs))
       (set (a # as @ b # bs))"
proof -
  obtain a m1 k where new: "new_node zm m v = Some (a, m1)" and a: "nodes m a = None"
    and n: "list_inv m1 l (as @ b # bs)" "vals (nodes m1) (as @ b # bs) = vals (nodes m) (as @ b # bs)" "a \<notin> set (as @ b # bs)"
    and k: "nodes m1 a = Some k" "nvalue k = v"
    and post: "\<forall>m' l' as' xs' A. list_post m1 m' l' as' xs' A \<longrightarrow> a \<in> A \<longrightarrow> list_post m m' l' as' xs' A"
    using new_nodeE [OF zm inv, of v] by blast
  obtain nb where nb: "nodes m1 b = Some nb"
    using n(1) by (auto simp: list_inv_def dseg_middle)
  have "\<exists>m' l'. listInsertNode zm m l (Some b) v False = Some (Some (m', l')) \<and>
     list_post m1 m' l' (as @ a # b # bs) (vals (nodes m1) as @ v # vals (nodes m1) (b # bs))
       (set (a # as @ b # bs))"
  proof (cases as rule: rev_cases)
    case Nil
    with n k new nb show ?thesis
      by (auto simp: listInsertNode_def list_post_def list_inv_def frame_def dseg_middle)
  next
    case (snoc cs c)
    with n(1) nb obtain nc where nc: "nodes m1 c = Some nc" "prev nb = Some c" "head l \<noteq> Some b"
      by (cases cs) (auto simp: list_inv_def dseg_middle)
    with snoc n(1,3) k new nb show ?thesis
      by (auto simp: listInsertNode_def list_post_def list_inv_def frame_def dseg_middle)
  qed
  with a n(2) post show ?thesis by fastforce
qed

lemma listEmpty_loop_post:
  assumes "dseg (nodes m) pr f as lst None" "distinct as"
  shows "\<exists>m'. listEmpty_loop l (length as) m f = Some m' \<and> frame m m' (set as) \<and>
     (\<forall>a \<in> set as. nodes m' a = None) \<and>
     freed m' = freed m @ (if free l then vals (nodes m) as else [])"
  using assms
proof (induction as arbitrary: m pr f)
  case Nil
  then show ?case by simp
next
  case (Cons a as)
  then obtain n where n: "f = Some a" "nodes m a = Some n" "dseg (nodes m) (Some a) (nxt n) as lst None"
    by auto
  let ?m = "(call_free l (nvalue n) m)\<lparr>nodes := (nodes m)(a := None)\<rparr>"
  have "dseg (nodes ?m) (Some a) (nxt n) as lst None" "distinct as"
    using n Cons.prems by auto
  from Cons.IH [OF this] obtain m' where m': "listEmpty_loop l (length as) ?m (nxt n) = Some m'"
      "frame ?m m' (set as)" "\<forall>a \<in> set as. nodes m' a = None"
      "freed m' = freed ?m @ (if free l then vals (nodes ?m) as else [])"
    by blast
  then have "nodes m' a = None" using Cons.prems(2) by (auto simp: frame_def)
  with m' n Cons.prems(2) show ?case
    by (auto simp: frame_def call_free_freed)
qed

lemma listEmpty_post:
  assumes "list_inv m l as"
  shows "\<exists>m'. listEmpty m l = Some (m', l\<lparr>head := None, tail := None, llen := 0\<rparr>) \<and>
     frame m m' (set as) \<and> (\<forall>a \<in> set as. nodes m' a = None) \<and>
     freed m' = freed m @ (if free l then vals (nodes m) as else [])"
proof -
  have "dseg (nodes m) None (head l) as (tail l) None" "distinct as" "llen l = length as"
    using assms by (auto simp: list_inv_def)
  with listEmpty_loop_post [OF this(1,2), of l] show ?thesis
    by (auto simp: listEmpty_def)
qed

lemma walk_nxt:
  "dseg (nodes m) pr f as lst None \<Longrightarrow>
   walk nxt m k f = Some (if k < length as then Some (as ! k) else None)"
proof (induction k arbitrary: pr f as)
  case 0
  then show ?case by (cases as) auto
next
  case (Suc k)
  show ?case
  proof (cases as)
    case Nil
    with Suc show ?thesis by simp
  next
    case (Cons a bs)
    with Suc.prems obtain n where "f = Some a" "nodes m a = Some n" "dseg (nodes m) (Some a) (nxt n) bs lst None"
      by auto
    with Suc.IH Cons show ?thesis by simp
  qed
qed

lemma walk_prev:
  "dseg (nodes m) None f as lst nx \<Longrightarrow>
   walk prev m k lst = Some (if k < length as then Some (rev as ! k) else None)"
proof (induction k arbitrary: lst nx as)
  case 0
  then show ?case by (cases as rule: rev_cases) (auto simp: dseg_append)
next
  case (Suc k)
  show ?case
  proof (cases as rule: rev_cases)
    case Nil
    with Suc show ?thesis by simp
  next
    case (snoc bs a)
    with Suc.prems obtain n where "lst = Some a" "nodes m a = Some n"
        "dseg (nodes m) None f bs (prev n) (Some a)"
      by (auto simp: dseg_middle)
    with Suc.IH snoc show ?thesis by simp
  qed
qed

lemma listRotateTailToHead_post:
  assumes inv: "list_inv m l (as @ [a])"
  shows "\<exists>m' l'. listRotateTailToHead m l = Some (m', l') \<and>
     list_post m m' l' (a # as) (vals (nodes m) (a # as)) (set (a # as))"
proof (cases as rule: rev_cases)
  case Nil
  with inv show ?thesis
    by (auto simp: listRotateTailToHead_def list_post_def list_inv_def)
next
  case (snoc bs b)
  show ?thesis
  proof (cases bs)
    case Nil
    with snoc inv show ?thesis
      by (auto simp: listRotateTailToHead_def list_post_def list_inv_def frame_def Let_def)
  next
    case (Cons c cs)
    with snoc inv obtain na nb nc where "nodes m a = Some na" "nodes m b = Some nb" "nodes m c = Some nc"
        "tail l = Some a" "prev na = Some b" "head l = Some c"
      by (auto simp: list_inv_def dseg_middle)
    with Cons snoc inv show ?thesis
      by (auto simp: listRotateTailToHead_def list_post_def list_inv_def frame_def Let_def dseg_middle)
  qed
qed

lemma listRotateHeadToTail_post:
  assumes inv: "list_inv m l (a # as)"
  shows "\<exists>m' l'. listRotateHeadToTail m l = Some (m', l') \<and>
     list_post m m' l' (as @ [a]) (vals (nodes m) (as @ [a])) (set (a # as))"
proof (cases as)
  case Nil
  with inv show ?thesis
    by (auto simp: listRotateHeadToTail_def list_post_def list_inv_def)
next
  case (Cons b bs)
  show ?thesis
  proof (cases bs rule: rev_cases)
    case Nil
    with Cons inv show ?thesis
      by (auto simp: listRotateHeadToTail_def list_post_def list_inv_def frame_def Let_def)
  next
    case (snoc cs c)
    with Cons inv obtain na nb nc where "nodes m a = Some na" "nodes m b = Some nb" "nodes m c = Some nc"
        "tail l = Some c" "nxt na = Some b" "head l = Some a"
      by (auto simp: list_inv_def dseg_middle)
    with Cons snoc inv show ?thesis
      by (auto simp: listRotateHeadToTail_def list_post_def list_inv_def frame_def Let_def dseg_middle)
  qed
qed

lemma listJoin_post:
  assumes "list_inv m l as" "list_inv m k bs" "set as \<inter> set bs = {}"
  shows "\<exists>m' l' k'. listJoin m l k = Some (m', l', k') \<and> list_inv m' k' [] \<and>
     list_post m m' l' (as @ bs) (vals (nodes m) (as @ bs)) (set (as @ bs))"
proof (cases bs)
  case Nil
  with assms show ?thesis by (auto simp: listJoin_def list_post_def)
next
  case (Cons b cs)
  with assms obtain nb where nb: "nodes m b = Some nb" "head k = Some b"
    by (auto simp: list_inv_def)
  show ?thesis
  proof (cases as rule: rev_cases)
    case Nil
    with Cons nb assms show ?thesis
      by (auto simp: listJoin_def list_post_def list_inv_def frame_def Let_def)
  next
    case (snoc ds d)
    with assms obtain nd where "nodes m d = Some nd" "tail l = Some d"
      by (auto simp: list_inv_def dseg_middle)
    with Cons snoc nb assms show ?thesis
      by (auto simp: listJoin_def list_post_def list_inv_def frame_def Let_def dseg_middle)
  qed
qed


lemma list_inv_iter:
  "list_inv m l as \<Longrightarrow> as = xs @ a # ys \<Longrightarrow> \<exists>n. nodes m a = Some n \<and>
     prev n = (if xs = [] then None else Some (last xs)) \<and> nxt n = (if ys = [] then None else Some (hd ys))"
  by (cases xs rule: rev_cases; cases ys) (auto simp: list_inv_def dseg_middle)

lemma list_inv_head: "list_inv m l as \<Longrightarrow> head l = (if as = [] then None else Some (hd as))"
  by (cases as) (auto simp: list_inv_def)

lemma list_inv_tail: "list_inv m l as \<Longrightarrow> tail l = (if as = [] then None else Some (last as))"
  by (cases as rule: rev_cases) (auto simp: list_inv_def dseg_middle)

fun ptr_of :: "addr list \<Rightarrow> addr option" where
  "ptr_of [] = None"
| "ptr_of (a # as) = Some a"

lemma ptr_of_if: "ptr_of as = (if as = [] then None else Some (hd as))"
  by (cases as) auto

lemma listNext_head:
  assumes "list_inv m l (xs @ a # ys)"
  shows "listNext m \<lparr>inext = Some a, direction = AL_START_HEAD\<rparr> =
     Some (Some a, \<lparr>inext = ptr_of ys, direction = AL_START_HEAD\<rparr>)"
  using list_inv_iter [OF assms refl] by (auto simp: listNext_def ptr_of_if)

lemma listNext_tail:
  assumes "list_inv m l (xs @ a # ys)"
  shows "listNext m \<lparr>inext = Some a, direction = AL_START_TAIL\<rparr> =
     Some (Some a, \<lparr>inext = ptr_of (rev xs), direction = AL_START_TAIL\<rparr>)"
  using list_inv_iter [OF assms refl]
  by (auto simp: listNext_def AL_START_HEAD_def AL_START_TAIL_def hd_rev ptr_of_if)

lemma listNext_end [simp]: "listNext m \<lparr>inext = None, direction = d\<rparr> = Some (None, \<lparr>inext = None, direction = d\<rparr>)"
  by (simp add: listNext_def)

lemma listSearchKey_loop_result:
  assumes "list_inv m l (xs @ ys)"
  shows "listSearchKey_loop m l key \<lparr>inext = ptr_of ys, direction = AL_START_HEAD\<rparr> =
     Some (find (\<lambda>a. case match l of Some f \<Rightarrow> f (nvalue (the (nodes m a))) key
                     | None \<Rightarrow> key = nvalue (the (nodes m a))) ys)"
  using assms
proof (induction ys arbitrary: xs)
  case Nil
  then show ?case by (subst listSearchKey_loop.simps) simp
next
  case (Cons a ys)
  note nx = listNext_head [OF Cons.prems]
  obtain n where n: "nodes m a = Some n" using list_inv_iter [OF Cons.prems refl] by blast
  have "list_inv m l ((xs @ [a]) @ ys)" using Cons.prems by simp
  from Cons.IH [OF this] show ?case
    by (subst listSearchKey_loop.simps) (simp add: nx n split: option.splits)
qed

definition dup_value :: "'v hlist \<Rightarrow> 'v \<Rightarrow> 'v option" where
  "dup_value l v = (case dup l of None \<Rightarrow> Some v | Some f \<Rightarrow> f v)"

text \<open>State of the copy loop: the copy holds fresh nodes \<open>cs\<close>, all else is the original store.\<close>

definition dup_state :: "'v mem \<Rightarrow> 'v mem \<Rightarrow> 'v hlist \<Rightarrow> addr list \<Rightarrow> bool" where
  "dup_state m0 m copy cs \<longleftrightarrow>
     list_inv m copy cs \<and> frame m0 m (set cs) \<and> (\<forall>c \<in> set cs. nodes m0 c = None)"

lemma list_inv_alloc: "list_inv m l as \<Longrightarrow> a \<in> set as \<Longrightarrow> nodes m a \<noteq> None"
  by (auto simp: list_inv_def dest: dseg_alloc)

lemma dup_state_release:
  assumes "dup_state m0 m copy cs"
  shows "\<exists>m'. listRelease m copy = Some m' \<and> nodes m' = nodes m0"
proof -
  obtain m' where m': "listEmpty m copy = Some (m', copy\<lparr>head := None, tail := None, llen := 0\<rparr>)"
      "frame m m' (set cs)" "\<forall>a \<in> set cs. nodes m' a = None"
    using listEmpty_post assms unfolding dup_state_def by blast
  have "nodes m' a = nodes m0 a" for a
    using m' assms by (cases "a \<in> set cs") (auto simp: dup_state_def frame_def)
  with m'(1) show ?thesis by (auto simp: listRelease_def)
qed

lemma dup_state_add:
  assumes "dup_state m0 m copy cs" "zmalloc_ok zm" "zm m \<noteq> None"
  shows "\<exists>c m' copy'. listAddNodeTail zm m copy v = Some (Some (m', copy')) \<and>
     dup_state m0 m' copy' (cs @ [c]) \<and> same_methods copy copy' \<and>
     vals (nodes m') (cs @ [c]) = vals (nodes m) cs @ [v]"
proof -
  have cm: "list_inv m copy cs" using assms(1) by (simp add: dup_state_def)
  obtain c m' copy' where *: "listAddNodeTail zm m copy v = Some (Some (m', copy'))" "nodes m c = None"
      "list_post m m' copy' (cs @ [c]) (vals (nodes m) cs @ [v]) (set (c # cs))" "same_methods copy copy'"
    using listAddNodeTail_post [OF assms(2,3) cm, of v] by blast
  have "c \<notin> set cs" using *(2) cm by (auto simp: list_inv_def dest: dseg_alloc)
  with * assms(1) have "dup_state m0 m' copy' (cs @ [c])"
    by (auto simp: dup_state_def list_post_def frame_def)
  with * show ?thesis by (auto simp: list_post_def)
qed

text \<open>
  What \<open>listDup\<close> promises: \<open>NULL\<close> with the store restored, or a list of fresh nodes with the
  methods of the original and the duplicated values in the same order.
\<close>

definition dup_result ::
    "'v mem \<Rightarrow> 'v hlist \<Rightarrow> addr list \<Rightarrow> 'v hlist \<Rightarrow> 'v mem \<Rightarrow> 'v hlist option \<Rightarrow> bool" where
  "dup_result m0 orig as copy m' r = (case r of None \<Rightarrow> nodes m' = nodes m0
     | Some copy' \<Rightarrow> \<exists>cs'. dup_state m0 m' copy' cs' \<and> same_methods copy copy' \<and>
         map Some (vals (nodes m') cs') = map (dup_value orig) (vals (nodes m0) as))"

lemma dup_result_cong:
  "same_methods copy copy' \<Longrightarrow> dup_result m0 orig as copy' = dup_result m0 orig as copy"
  by (intro ext) (auto simp: dup_result_def same_methods_def split: option.splits)

lemma listDup_loop_result:
  assumes "list_inv m0 orig (xs @ ys)" "dup_state m0 m copy cs" "zmalloc_ok zm"
    "dup copy = dup orig" "map Some (vals (nodes m) cs) = map (dup_value orig) (vals (nodes m0) xs)"
  shows "\<exists>m' r. listDup_loop zm m copy \<lparr>inext = ptr_of ys, direction = AL_START_HEAD\<rparr> = Some (m', r) \<and>
     dup_result m0 orig (xs @ ys) copy m' r"
  using assms
proof (induction ys arbitrary: xs m copy cs)
  case Nil
  then show ?case
    by (subst listDup_loop.simps) (auto simp: same_methods_def dup_result_def)
next
  case (Cons a ys)
  have disj: "set (xs @ a # ys) \<inter> set cs = {}"
    using list_inv_alloc [OF Cons.prems(1)] Cons.prems(2) by (auto simp only: dup_state_def)
  then have "a \<notin> set cs" by simp
  have inv: "list_inv m orig (xs @ a # ys)"
    using list_inv_frame(1) [OF Cons.prems(1) _ disj] Cons.prems(2) by (simp add: dup_state_def)
  note nx = listNext_head [OF inv]
  obtain n where n: "nodes m0 a = Some n" using list_inv_iter [OF Cons.prems(1) refl] by blast
  with \<open>a \<notin> set cs\<close> Cons.prems(2) have nm: "nodes m a = Some n"
    by (simp add: dup_state_def frame_def)
  show ?case
  proof (cases "dup_value orig (nvalue n)")
    case None
    with nx nm dup_state_release [OF Cons.prems(2)] Cons.prems(4) show ?thesis
      by (subst listDup_loop.simps) (auto simp: dup_value_def dup_result_def)
  next
    case (Some v)
    note v = this
    show ?thesis
    proof (cases "zm m")
      case None
      have "dup_state m0 (call_free copy v m) copy cs"
        using Cons.prems(2) by (simp add: dup_state_def list_inv_def frame_def)
      from dup_state_release [OF this] v None nx nm Cons.prems(4) show ?thesis
        by (subst listDup_loop.simps)
          (auto simp: dup_value_def listAddNodeTail_def new_node_def dup_result_def)
    next
      case (Some k)
      obtain c m' copy' where add: "listAddNodeTail zm m copy v = Some (Some (m', copy'))"
          "dup_state m0 m' copy' (cs @ [c])" "same_methods copy copy'"
          "vals (nodes m') (cs @ [c]) = vals (nodes m) cs @ [v]"
        using dup_state_add [OF Cons.prems(2,3)] Some by blast
      have loop: "listDup_loop zm m copy \<lparr>inext = ptr_of (a # ys), direction = AL_START_HEAD\<rparr> =
          listDup_loop zm m' copy' \<lparr>inext = ptr_of ys, direction = AL_START_HEAD\<rparr>"
        using nx nm v add(1) Cons.prems(4)
        by (subst listDup_loop.simps) (simp add: dup_value_def)
      have "list_inv m0 orig ((xs @ [a]) @ ys)" using Cons.prems(1) by simp
      moreover have "dup copy' = dup orig" using add(3) Cons.prems(4) by (simp add: same_methods_def)
      moreover have "map Some (vals (nodes m') (cs @ [c])) = map (dup_value orig) (vals (nodes m0) (xs @ [a]))"
        using add(4) Cons.prems(5) v n by simp
      ultimately show ?thesis
        using Cons.IH [OF _ add(2) Cons.prems(3), of "xs @ [a]"] unfolding loop
        by (simp add: dup_result_cong [OF add(3)])
    qed
  qed
qed

subsection \<open>The interface its clients use\<close>

text \<open>
  A client (the copy loop, the client queues of the server) sees a list as a sequence of values:
  adding at either end either reports that memory ran out or extends the sequence, rotating moves
  the end element to the other end, and the counter is the length.
\<close>

locale seq_store =
  fixes ok :: "'z \<Rightarrow> bool"
    and rep :: "'m \<Rightarrow> 'l \<Rightarrow> 'v list \<Rightarrow> bool"
    and add_head :: "'z \<Rightarrow> 'm \<Rightarrow> 'l \<Rightarrow> 'v \<Rightarrow> ('m \<times> 'l) option option"
    and add_tail :: "'z \<Rightarrow> 'm \<Rightarrow> 'l \<Rightarrow> 'v \<Rightarrow> ('m \<times> 'l) option option"
    and rot_tail_head :: "'m \<Rightarrow> 'l \<Rightarrow> ('m \<times> 'l) option"
    and rot_head_tail :: "'m \<Rightarrow> 'l \<Rightarrow> ('m \<times> 'l) option"
    and len :: "'l \<Rightarrow> nat"
  assumes rep_len: "rep m l xs \<Longrightarrow> len l = length xs"
    and add_head_rep: "ok z \<Longrightarrow> rep m l xs \<Longrightarrow> add_head z m l v = Some None \<or>
      (\<exists>m' l'. add_head z m l v = Some (Some (m', l')) \<and> rep m' l' (v # xs))"
    and add_tail_rep: "ok z \<Longrightarrow> rep m l xs \<Longrightarrow> add_tail z m l v = Some None \<or>
      (\<exists>m' l'. add_tail z m l v = Some (Some (m', l')) \<and> rep m' l' (xs @ [v]))"
    and rot_tail_head_rep: "rep m l xs \<Longrightarrow>
      \<exists>m' l'. rot_tail_head m l = Some (m', l') \<and> rep m' l' (rotate (length xs - 1) xs)"
    and rot_head_tail_rep: "rep m l xs \<Longrightarrow>
      \<exists>m' l'. rot_head_tail m l = Some (m', l') \<and> rep m' l' (rotate1 xs)"
begin

text \<open>Values added at the tail one after the other are read in that order (a FIFO).\<close>

fun add_all :: "'z \<Rightarrow> 'm \<Rightarrow> 'l \<Rightarrow> 'v list \<Rightarrow> ('m \<times> 'l) option option" where
  "add_all z m l [] = Some (Some (m, l))"
| "add_all z m l (v # vs) = do {
     r \<leftarrow> add_tail z m l v;
     (case r of None \<Rightarrow> Some None | Some (m', l') \<Rightarrow> add_all z m' l' vs) }"

lemma add_all_rep:
  "ok z \<Longrightarrow> rep m l xs \<Longrightarrow> add_all z m l vs = Some None \<or>
     (\<exists>m' l'. add_all z m l vs = Some (Some (m', l')) \<and> rep m' l' (xs @ vs))"
proof (induction vs arbitrary: m l xs)
  case Nil
  then show ?case by simp
next
  case (Cons v vs)
  from add_tail_rep [OF Cons.prems, of v] show ?case
  proof
    assume "add_tail z m l v = Some None"
    then show ?thesis by simp
  next
    assume "\<exists>m' l'. add_tail z m l v = Some (Some (m', l')) \<and> rep m' l' (xs @ [v])"
    then obtain m' l' where a: "add_tail z m l v = Some (Some (m', l'))" "rep m' l' (xs @ [v])"
      by blast
    from Cons.IH [OF Cons.prems(1) a(2)] a(1) show ?thesis by simp
  qed
qed

text \<open>The two rotations undo each other.\<close>

lemma rotate_last_first: "rotate1 (rotate (length xs - 1) xs) = xs"
  by (cases xs) (simp_all add: rotate_id flip: rotate_Suc)

lemma rot_round_trip:
  assumes "rep m l xs"
  shows "\<exists>m1 l1 m2 l2. rot_tail_head m l = Some (m1, l1) \<and> rot_head_tail m1 l1 = Some (m2, l2) \<and>
     rep m2 l2 xs"
proof -
  obtain m1 l1 where 1: "rot_tail_head m l = Some (m1, l1)" "rep m1 l1 (rotate (length xs - 1) xs)"
    using rot_tail_head_rep [OF assms] by blast
  obtain m2 l2 where 2: "rot_head_tail m1 l1 = Some (m2, l2)"
      "rep m2 l2 (rotate1 (rotate (length xs - 1) xs))"
    using rot_head_tail_rep [OF 1(2)] by blast
  with 1 show ?thesis by (simp only: rotate_last_first) blast
qed

end

lemma rotate_to_head: "rotate (length (xs @ [x]) - 1) (xs @ [x]) = x # xs"
  by (simp add: rotate_drop_take)

lemma lrep_len: "lrep m l xs \<Longrightarrow> llen l = length xs"
  by (auto simp: lrep_def list_inv_def)

lemma lrep_add_head:
  assumes "zmalloc_ok zm" "lrep m l xs"
  shows "listAddNodeHead zm m l v = Some None \<or>
      (\<exists>m' l'. listAddNodeHead zm m l v = Some (Some (m', l')) \<and> lrep m' l' (v # xs))"
proof (cases "zm m")
  case None
  then show ?thesis by (simp add: listAddNodeHead_def new_node_def)
next
  case (Some k)
  obtain as where as: "list_inv m l as" "vals (nodes m) as = xs" using assms by (auto simp: lrep_def)
  with listAddNodeHead_post [OF assms(1) _ as(1), of v] Some show ?thesis
    unfolding lrep_def list_post_def by fastforce
qed

lemma lrep_add_tail:
  assumes "zmalloc_ok zm" "lrep m l xs"
  shows "listAddNodeTail zm m l v = Some None \<or>
      (\<exists>m' l'. listAddNodeTail zm m l v = Some (Some (m', l')) \<and> lrep m' l' (xs @ [v]))"
proof (cases "zm m")
  case None
  then show ?thesis by (simp add: listAddNodeTail_def new_node_def)
next
  case (Some k)
  obtain as where as: "list_inv m l as" "vals (nodes m) as = xs" using assms by (auto simp: lrep_def)
  with listAddNodeTail_post [OF assms(1) _ as(1), of v] Some show ?thesis
    unfolding lrep_def list_post_def by fastforce
qed

lemma lrep_rot_tail_head:
  assumes "lrep m l xs"
  shows "\<exists>m' l'. listRotateTailToHead m l = Some (m', l') \<and> lrep m' l' (rotate (length xs - 1) xs)"
proof -
  obtain as where as: "list_inv m l as" "vals (nodes m) as = xs" using assms by (auto simp: lrep_def)
  show ?thesis
  proof (cases as rule: rev_cases)
    case Nil
    with as assms show ?thesis by (auto simp: listRotateTailToHead_def)
  next
    case (snoc bs b)
    then have "rotate (length xs - 1) xs = vals (nodes m) (b # bs)"
      using as(2) rotate_to_head [of "vals (nodes m) bs"] by auto
    moreover obtain m' l' where "listRotateTailToHead m l = Some (m', l')"
      "list_post m m' l' (b # bs) (vals (nodes m) (b # bs)) (set (b # bs))"
      using listRotateTailToHead_post [of m l bs b] as(1) snoc by blast
    ultimately show ?thesis unfolding lrep_def list_post_def by metis
  qed
qed

lemma lrep_rot_head_tail:
  assumes "lrep m l xs"
  shows "\<exists>m' l'. listRotateHeadToTail m l = Some (m', l') \<and> lrep m' l' (rotate1 xs)"
proof -
  obtain as where as: "list_inv m l as" "vals (nodes m) as = xs" using assms by (auto simp: lrep_def)
  show ?thesis
  proof (cases as)
    case Nil
    with as assms show ?thesis by (auto simp: listRotateHeadToTail_def)
  next
    case (Cons b bs)
    then have "rotate1 xs = vals (nodes m) (bs @ [b])" using as(2) by auto
    moreover obtain m' l' where "listRotateHeadToTail m l = Some (m', l')"
      "list_post m m' l' (bs @ [b]) (vals (nodes m) (bs @ [b])) (set (b # bs))"
      using listRotateHeadToTail_post [of m l b bs] as(1) Cons by blast
    ultimately show ?thesis unfolding lrep_def list_post_def by metis
  qed
qed

interpretation adlist: seq_store zmalloc_ok lrep listAddNodeHead listAddNodeTail
    listRotateTailToHead listRotateHeadToTail llen
  by unfold_locales
    (fact lrep_len lrep_add_head lrep_add_tail lrep_rot_tail_head lrep_rot_head_tail)+

subsection \<open>Properties\<close>

text \<open>A first-fit allocator over the addresses below \<open>cap\<close>, for the concrete instances.\<close>

definition first_fit :: "nat \<Rightarrow> 'v listNode \<Rightarrow> 'v zmalloc" where
  "first_fit cap junk m = map_option (\<lambda>a. (a, junk)) (find (\<lambda>a. nodes m a = None) [0..<cap])"

lemma first_fit_ok: "zmalloc_ok (first_fit cap junk)"
  by (auto simp: zmalloc_ok_def first_fit_def find_Some_iff)

text \<open>A three-element list at addresses 2, 0, 1 holding 10, 20, 30.\<close>

definition demo_mem :: "int mem" where
  "demo_mem = \<lparr>nodes = [2 \<mapsto> \<lparr>prev = None, nxt = Some 0, nvalue = 10\<rparr>,
     0 \<mapsto> \<lparr>prev = Some 2, nxt = Some 1, nvalue = 20\<rparr>,
     1 \<mapsto> \<lparr>prev = Some 0, nxt = None, nvalue = 30\<rparr>], freed = []\<rparr>"

definition demo_list :: "int hlist" where
  "demo_list = \<lparr>head = Some 2, tail = Some 1, dup = Some (\<lambda>v. Some (v + 1)), free = True,
     match = None, llen = 3\<rparr>"

lemma demo_inv: "list_inv demo_mem demo_list [2, 0, 1]"
  by (simp add: list_inv_def demo_mem_def demo_list_def)

lemma demo_rep: "lrep demo_mem demo_list [10, 20, 30]"
  unfolding lrep_def
  by (intro exI [of _ "[2, 0, 1]"] conjI, rule demo_inv, simp add: demo_mem_def)

text \<open>
  C17. \<open>listDelNode\<close> on a node of a well-formed list does not fault; it removes exactly that node,
  keeps the order and the values of the others, releases the node, hands its value to the \<open>free\<close>
  method once if there is one, and touches no node of another list.
\<close>

theorem listDelNode_refines:
  assumes "list_inv m l as" "a \<in> set as"
  shows "\<exists>m' l'. listDelNode m l (Some a) = Some (m', l') \<and> list_inv m' l' (remove1 a as) \<and>
     vals (nodes m') (remove1 a as) = vals (nodes m) (remove1 a as) \<and> nodes m' a = None \<and>
     freed m' = freed m @ (if free l then [nvalue (the (nodes m a))] else []) \<and>
     (\<forall>b. b \<notin> set as \<longrightarrow> nodes m' b = nodes m b)"
proof -
  obtain xs ys where as: "as = xs @ a # ys" using assms(2) by (auto dest: split_list)
  then have "remove1 a as = xs @ ys" using assms(1) by (simp add: list_inv_def remove1_append)
  with listDelNode_post [of m l xs a ys] assms(1) as show ?thesis
    unfolding frame_def by (auto simp only: vals_simps)
qed

theorem listDelNode_refines_witness:
  "\<exists>m' l'. listDelNode demo_mem demo_list (Some 0) = Some (m', l') \<and> list_inv m' l' [2, 1] \<and>
     vals (nodes m') [2, 1] = [10, 30] \<and> nodes m' 0 = None \<and> freed m' = [20]"
  using listDelNode_refines [OF demo_inv, of 0] by (simp add: demo_mem_def demo_list_def) blast

text \<open>
  \<open>listInsertNode\<close> with memory available puts the new value right after (or right before) the
  given node, keeps the order of all the others and uses a node that was not in use.
\<close>

theorem listInsertNode_refines:
  assumes "zmalloc_ok zm" "zm m \<noteq> None" "list_inv m l (as @ b # bs)"
  shows "\<exists>a m' l'. listInsertNode zm m l (Some b) v after = Some (Some (m', l')) \<and> nodes m a = None \<and>
     list_inv m' l' (if after then as @ b # a # bs else as @ a # b # bs) \<and>
     vals (nodes m') (if after then as @ b # a # bs else as @ a # b # bs) =
       vals (nodes m) (if after then as @ [b] else as) @ v #
       vals (nodes m) (if after then bs else b # bs) \<and>
     freed m' = freed m"
  using listInsertNode_after_post [OF assms, of v] listInsertNode_before_post [OF assms, of v]
  unfolding list_post_def by (cases after) auto

theorem listInsertNode_refines_witness:
  "\<exists>a m' l'. listInsertNode (first_fit 9 \<lparr>prev = Some 7, nxt = Some 8, nvalue = -1\<rparr>) demo_mem demo_list
       (Some 0) 25 True = Some (Some (m', l')) \<and> nodes demo_mem a = None \<and>
     list_inv m' l' [2, 0, a, 1] \<and> vals (nodes m') [2, 0, a, 1] = [10, 20, 25, 30]"
proof -
  let ?zm = "first_fit 9 \<lparr>prev = Some 7, nxt = Some 8, nvalue = -1\<rparr> :: int zmalloc"
  have "?zm demo_mem \<noteq> None" by (simp add: first_fit_def demo_mem_def upt_rec)
  moreover have "list_inv demo_mem demo_list ([2] @ 0 # [1])" using demo_inv by simp
  moreover have "vals (nodes demo_mem) [2, 0] = [10, 20]" "vals (nodes demo_mem) [1] = [30]"
    by (simp_all add: demo_mem_def)
  ultimately show ?thesis
    using listInsertNode_refines [OF first_fit_ok, of _ _ demo_mem demo_list "[2]" 0 "[1]" 25 True]
    by fastforce
qed

text \<open>
  \<open>listDup\<close> always returns (its loop ends on a well-formed list, whatever \<open>zmalloc\<close> and the
  \<open>dup\<close> method answer). If it returns a list, that list has the duplicated values in order, in
  nodes that were not in use, with the methods of the original; if it returns \<open>NULL\<close>, every node it
  had allocated is released again. The original list is the same list in both cases.
\<close>

theorem listDup_correct:
  assumes "list_inv m l as" "zmalloc_ok zm"
  shows "\<exists>m' r. listDup allocated zm m l = Some (m', r) \<and> list_inv m' l as \<and>
     vals (nodes m') as = vals (nodes m) as \<and>
     (case r of None \<Rightarrow> nodes m' = nodes m
      | Some copy \<Rightarrow> \<exists>cs. list_inv m' copy cs \<and> (\<forall>c \<in> set cs. nodes m c = None) \<and>
          same_methods l copy \<and>
          map Some (vals (nodes m') cs) = map (dup_value l) (vals (nodes m) as))"
proof (cases allocated)
  case False
  with assms show ?thesis by (simp add: listDup_def listCreate_def)
next
  case True
  let ?copy = "\<lparr>head = None, tail = None, dup = dup l, free = free l, match = match l, llen = 0\<rparr>"
  have st: "dup_state m m ?copy []" by (simp add: dup_state_def)
  have it: "listRewind l = \<lparr>inext = ptr_of as, direction = AL_START_HEAD\<rparr>"
    using list_inv_head [OF assms(1)] by (simp add: listRewind_def ptr_of_if)
  obtain m' r where res: "listDup_loop zm m ?copy (listRewind l) = Some (m', r)"
      "dup_result m l as ?copy m' r"
    using listDup_loop_result [of m l "[]" as m ?copy "[]" zm] assms st it by auto
  have "frame m m' A \<Longrightarrow> set as \<inter> A = {} \<Longrightarrow> list_inv m' l as \<and> vals (nodes m') as = vals (nodes m) as" for A
    using list_inv_frame [OF assms(1)] by blast
  moreover have "set as \<inter> set cs = {}" if "dup_state m m' k cs" for k cs
    using that list_inv_alloc [OF assms(1)] unfolding dup_state_def by blast
  ultimately have "list_inv m' l as \<and> vals (nodes m') as = vals (nodes m) as"
    using res(2) list_inv_frame [OF assms(1), of m' "{}"]
    by (auto simp: dup_result_def dup_state_def frame_def split: option.splits)
  with True res show ?thesis
    by (auto simp: listDup_def listCreate_def dup_result_def dup_state_def same_methods_def
        split: option.splits)
qed

theorem listDup_correct_witness:
  "\<exists>m' r. listDup True (first_fit 9 \<lparr>prev = None, nxt = None, nvalue = 0\<rparr>) demo_mem demo_list = Some (m', r) \<and>
     vals (nodes m') [2, 0, 1] = [10, 20, 30]"
  using listDup_correct [OF demo_inv first_fit_ok, of True] by (fastforce simp: demo_mem_def)

text \<open>
  \<open>listIndex\<close> answers the node at a non-negative position counted from the head, at a negative
  one counted from the tail (\<open>-1\<close> is the last), and \<open>NULL\<close> when the position is out of range; it
  never follows a null pointer.
\<close>

theorem listIndex_correct:
  assumes "list_inv m l as"
  shows "listIndex m l i = Some (
     if 0 \<le> i \<and> i < int (length as) then Some (as ! nat i)
     else if i < 0 \<and> - i \<le> int (length as) then Some (as ! nat (int (length as) + i))
     else None)"
proof (cases "i < 0")
  case True
  have "dseg (nodes m) None (head l) as (tail l) None" using assms by (simp add: list_inv_def)
  note w = walk_prev [OF this, of "nat (- i - 1)"]
  have "rev as ! nat (- i - 1) = as ! nat (int (length as) + i)" if "- i \<le> int (length as)"
  proof -
    have "length as - Suc (nat (- i - 1)) = nat (int (length as) + i)" using True that by linarith
    then show ?thesis using True that by (subst rev_nth) auto
  qed
  with True w show ?thesis by (auto simp: listIndex_def)
next
  case False
  have "dseg (nodes m) None (head l) as (tail l) None" using assms by (simp add: list_inv_def)
  from walk_nxt [OF this, of "nat i"] False show ?thesis
    by (auto simp: listIndex_def nat_less_iff)
qed

theorem listIndex_correct_witness:
  "listIndex demo_mem demo_list (-3) = Some (Some 2) \<and> listIndex demo_mem demo_list 3 = Some None"
  using listIndex_correct [OF demo_inv, of "-3"] listIndex_correct [OF demo_inv, of 3] by simp



text \<open>
  \<open>listJoin\<close> appends the second list to the first (any of the two may be empty), leaves the
  second one empty and valid, and keeps values and order.
\<close>

theorem listJoin_refines:
  assumes "list_inv m l as" "list_inv m k bs" "set as \<inter> set bs = {}"
  shows "\<exists>m' l' k'. listJoin m l k = Some (m', l', k') \<and> lrep m' k' [] \<and>
     list_inv m' l' (as @ bs) \<and> vals (nodes m') (as @ bs) = vals (nodes m) (as @ bs)"
  using listJoin_post [OF assms] unfolding list_post_def lrep_def
  by (metis vals_simps(1))

theorem listJoin_refines_witness:
  "\<exists>m' l' k'. listJoin demo_mem demo_list (demo_list\<lparr>head := None, tail := None, llen := 0\<rparr>) = Some (m', l', k') \<and>
     lrep m' k' [] \<and> list_inv m' l' [2, 0, 1]"
  using listJoin_refines [OF demo_inv, of "demo_list\<lparr>head := None, tail := None, llen := 0\<rparr>" "[]"]
  by (simp add: list_inv_empty) blast

text \<open>
  \<open>listSearchKey\<close> returns on every well-formed list, with the first node (from the head) whose
  value matches the key under the \<open>match\<close> method, or under pointer equality when there is none,
  and \<open>NULL\<close> when no node does.
\<close>

theorem listSearchKey_first:
  assumes "list_inv m l as"
  shows "listSearchKey m l key = Some (find (\<lambda>a. case match l of
       Some f \<Rightarrow> f (nvalue (the (nodes m a))) key | None \<Rightarrow> key = nvalue (the (nodes m a))) as)"
  using listSearchKey_loop_result [of m l "[]" as key] assms list_inv_head [OF assms]
  by (simp add: listSearchKey_def listRewind_def ptr_of_if)

theorem listSearchKey_first_witness:
  "listSearchKey demo_mem demo_list 30 = Some (Some 1)"
  using listSearchKey_first [OF demo_inv, of 30] by (simp add: demo_mem_def demo_list_def)

text \<open>
  The two rotations undo each other on any well-formed list, of any length.
\<close>

theorem listRotate_round_trip:
  assumes "lrep m l xs"
  shows "\<exists>m1 l1 m2 l2. listRotateTailToHead m l = Some (m1, l1) \<and>
     listRotateHeadToTail m1 l1 = Some (m2, l2) \<and> lrep m2 l2 xs"
  using assms by (rule adlist.rot_round_trip)

theorem listRotate_round_trip_witness:
  "\<exists>m1 l1 m2 l2. listRotateTailToHead demo_mem demo_list = Some (m1, l1) \<and>
     listRotateHeadToTail m1 l1 = Some (m2, l2) \<and> lrep m2 l2 [10, 20, 30]"
  using listRotate_round_trip [OF demo_rep] .

end
