(* ===== verification/Dict.thy ===== *)
theory Dict
  imports Prelude
begin

unbundle bit_operations_syntax

declare One_nat_def [simp del]

text \<open>
  The incrementally rehashed hash table of \<open>myRedis/src/dict.c\<close> and \<open>dict.h\<close>.

  A table is the list of its buckets and a bucket the list of its entries in the order of the
  \<open>next\<close> pointers; a \<open>NULL\<close> table is \<open>None\<close>. An entry carries the address \<open>zmalloc\<close> gave it, and
  an entry pointer is that address: it survives the moves of rehashing, and reading through it
  when no table holds the entry is a fault. Keys and values are the \<open>void *\<close> the caller passes; the \<open>dictType\<close> callbacks
  are functions, except the two destructors, which are external: \<open>dlog\<close> records what they are
  called on. \<open>env\<close> holds the two resize settings, the address the next \<open>calloc\<close> answers
  (\<open>None\<close>: out of memory), the address of the next entry and the uninitialised value it holds. \<open>None\<close> results are
  faults: a null or out-of-bounds access, a failed \<open>assert\<close>, a counter decremented below zero,
  or the abort of \<open>zcalloc\<close> without memory.
\<close>

subsection \<open>Data\<close>

definition DICT_OK :: int where "DICT_OK = 0"
definition DICT_ERR :: int where "DICT_ERR = 1"
definition DICT_HT_INITIAL_EXP :: nat where "DICT_HT_INITIAL_EXP = 2"
definition DICT_HT_INITIAL_SIZE :: nat where "DICT_HT_INITIAL_SIZE = 2 ^ DICT_HT_INITIAL_EXP"
definition LONG_MAX :: nat where "LONG_MAX = 2 ^ 63 - 1"

datatype ('k, 'v) dtor = FreeKey 'k | FreeVal 'v

record ('k, 'v) dictEntry =
  eaddr :: addr
  ekey :: 'k
  eval :: 'v
  metadata :: "byte list"

record ('k, 'v) dictType =
  hashFunction :: "'k \<Rightarrow> u64"
  keyDup :: "('k \<Rightarrow> 'k) option"
  valDup :: "('v \<Rightarrow> 'v) option"
  keyCompare :: "('k \<Rightarrow> 'k \<Rightarrow> bool) option"
  keyDestructor :: bool
  valDestructor :: bool
  expandAllowed :: "(nat \<Rightarrow> nat \<times> nat \<Rightarrow> bool) option"
  dictEntryMetadataBytes :: "nat option"

type_synonym ('k, 'v) buckets = "('k, 'v) dictEntry list list"

record ('k, 'v) dict =
  dtype :: "('k, 'v) dictType"
  ht_table :: "nat \<Rightarrow> ('k, 'v) buckets option"
  ht_addr :: "nat \<Rightarrow> u64"
  ht_used :: "nat \<Rightarrow> nat"
  rehashidx :: int
  pauserehash :: u16
  ht_size_exp :: "nat \<Rightarrow> int"
  dlog :: "('k, 'v) dtor list"

record 'v env =
  dict_can_resize :: bool
  dict_force_resize_ratio :: nat
  calloc_addr :: "u64 option"
  zmalloc_addr :: addr
  junk :: 'v

subsection \<open>Macros of dict.h\<close>

definition DICTHT_SIZE :: "int \<Rightarrow> nat" where
  "DICTHT_SIZE e = (if e = -1 then 0 else 2 ^ nat e)"

definition DICTHT_SIZE_MASK :: "int \<Rightarrow> u64" where
  "DICTHT_SIZE_MASK e = (if e = -1 then 0 else push_bit (nat e) 1 - 1)"

definition dictFreeVal :: "('k, 'v) dict \<Rightarrow> 'v \<Rightarrow> ('k, 'v) dict" where
  "dictFreeVal d v =
     (if valDestructor (dtype d) then d\<lparr>dlog := dlog d @ [FreeVal v]\<rparr> else d)"

definition dictFreeKey :: "('k, 'v) dict \<Rightarrow> 'k \<Rightarrow> ('k, 'v) dict" where
  "dictFreeKey d k =
     (if keyDestructor (dtype d) then d\<lparr>dlog := dlog d @ [FreeKey k]\<rparr> else d)"

definition dictSetVal :: "('k, 'v) dict \<Rightarrow> ('k, 'v) dictEntry \<Rightarrow> 'v \<Rightarrow> ('k, 'v) dictEntry" where
  "dictSetVal d e v =
     (case valDup (dtype d) of Some f \<Rightarrow> e\<lparr>eval := f v\<rparr> | None \<Rightarrow> e\<lparr>eval := v\<rparr>)"

definition dictSetKey :: "('k, 'v) dict \<Rightarrow> ('k, 'v) dictEntry \<Rightarrow> 'k \<Rightarrow> ('k, 'v) dictEntry" where
  "dictSetKey d e k =
     (case keyDup (dtype d) of Some f \<Rightarrow> e\<lparr>ekey := f k\<rparr> | None \<Rightarrow> e\<lparr>ekey := k\<rparr>)"

definition dictCompareKeys :: "('k, 'v) dict \<Rightarrow> 'k \<Rightarrow> 'k \<Rightarrow> bool" where
  "dictCompareKeys d k1 k2 = (case keyCompare (dtype d) of Some f \<Rightarrow> f k1 k2 | None \<Rightarrow> k1 = k2)"

definition dictMetadataSize :: "('k, 'v) dict \<Rightarrow> nat" where
  "dictMetadataSize d = (case dictEntryMetadataBytes (dtype d) of Some n \<Rightarrow> n | None \<Rightarrow> 0)"

definition dictHashKey :: "('k, 'v) dict \<Rightarrow> 'k \<Rightarrow> u64" where
  "dictHashKey d k = hashFunction (dtype d) k"

definition dictSlots :: "('k, 'v) dict \<Rightarrow> nat" where
  "dictSlots d = DICTHT_SIZE (ht_size_exp d 0) + DICTHT_SIZE (ht_size_exp d 1)"

definition dictSize :: "('k, 'v) dict \<Rightarrow> nat" where
  "dictSize d = ht_used d 0 + ht_used d 1"

definition dictIsRehashing :: "('k, 'v) dict \<Rightarrow> bool" where
  "dictIsRehashing d \<longleftrightarrow> rehashidx d \<noteq> -1"

definition dictPauseRehashing :: "('k, 'v) dict \<Rightarrow> ('k, 'v) dict" where
  "dictPauseRehashing d = d\<lparr>pauserehash := pauserehash d + 1\<rparr>"

definition dictResumeRehashing :: "('k, 'v) dict \<Rightarrow> ('k, 'v) dict" where
  "dictResumeRehashing d = d\<lparr>pauserehash := pauserehash d - 1\<rparr>"

subsection \<open>Creation and expansion\<close>

definition dictReset :: "('k, 'v) dict \<Rightarrow> nat \<Rightarrow> ('k, 'v) dict" where
  "dictReset d htidx = d\<lparr>ht_table := (ht_table d)(htidx := None), ht_addr := (ht_addr d)(htidx := 0),
     ht_size_exp := (ht_size_exp d)(htidx := -1), ht_used := (ht_used d)(htidx := 0)\<rparr>"

definition dictInit :: "('k, 'v) dict \<Rightarrow> ('k, 'v) dictType \<Rightarrow> ('k, 'v) dict \<times> int" where
  "dictInit d type = (let d = dictReset (dictReset d 0) 1 in
     (d\<lparr>dtype := type, rehashidx := -1, pauserehash := 0\<rparr>, DICT_OK))"

text \<open>\<open>mem\<close> is the uninitialised structure \<open>zmalloc\<close> answers.\<close>

definition dictCreate :: "('k, 'v) dict \<Rightarrow> ('k, 'v) dictType \<Rightarrow> ('k, 'v) dict" where
  "dictCreate mem type = fst (dictInit mem type)"

lemma exp_gap: "\<not> sz \<le> (2::nat) ^ e \<Longrightarrow> sz - (e + 1) < sz - e"
  using less_exp [of e] by linarith

function nextExp_loop :: "nat \<Rightarrow> nat \<Rightarrow> nat" where
  "nextExp_loop e sz = (if sz \<le> 2 ^ e then e else nextExp_loop (e + 1) sz)"
  by pat_completeness auto
termination
  by (relation "measure (\<lambda>(e, sz). sz - e)") (simp_all add: exp_gap)

declare nextExp_loop.simps [simp del]

definition dictNextExp :: "nat \<Rightarrow> nat" where
  "dictNextExp sz = (if LONG_MAX \<le> sz then 8 * 8 - 1 else nextExp_loop DICT_HT_INITIAL_EXP sz)"

text \<open>\<open>try\<close> says that the caller passed a \<open>malloc_failed\<close> pointer; the last component of the result is
  what is stored there. \<open>newsize * sizeof(dictEntry* )\<close> wraps at \<open>2 ^ 64\<close>.\<close>

definition dictExpand_ex ::
  "'v env \<Rightarrow> ('k, 'v) dict \<Rightarrow> nat \<Rightarrow> bool \<Rightarrow> (('k, 'v) dict \<times> int \<times> bool) option" where
  "dictExpand_ex env d sz try =
     (if dictIsRehashing d \<or> sz < ht_used d 0 then Some (d, DICT_ERR, False)
      else let e = dictNextExp sz; newsize = (2::nat) ^ e in
        if newsize < sz \<or> (newsize * 8) mod 2 ^ 64 < newsize then Some (d, DICT_ERR, False)
        else if int e = ht_size_exp d 0 then Some (d, DICT_ERR, False)
        else (case calloc_addr env of
          None \<Rightarrow> if try then Some (d, DICT_ERR, True) else None
        | Some a \<Rightarrow>
          let i = (if ht_table d 0 = None then 0 else 1);
              d' = d\<lparr>ht_size_exp := (ht_size_exp d)(i := int e), ht_used := (ht_used d)(i := 0),
                     ht_table := (ht_table d)(i := Some (replicate newsize [])),
                     ht_addr := (ht_addr d)(i := a)\<rparr>
          in Some (if i = 0 then d' else d'\<lparr>rehashidx := 0\<rparr>, DICT_OK, False)))"

definition dictExpand :: "'v env \<Rightarrow> ('k, 'v) dict \<Rightarrow> nat \<Rightarrow> (('k, 'v) dict \<times> int) option" where
  "dictExpand env d sz = do { (d', r, _) \<leftarrow> dictExpand_ex env d sz False; Some (d', r) }"

subsection \<open>Incremental rehashing\<close>

definition dec :: "nat \<Rightarrow> nat option" where
  "dec n = (if n = 0 then None else Some (n - 1))"

text \<open>The scan over empty buckets: the index of the next bucket to move with the visits left, or the
  index at which the visits ran out.\<close>

function skip_empty :: "('k, 'v) buckets \<Rightarrow> nat \<Rightarrow> int \<Rightarrow> (nat + nat \<times> int) option" where
  "skip_empty t idx visits =
     (if idx < length t then
        (if t ! idx \<noteq> [] then Some (Inr (idx, visits))
         else if visits - 1 = 0 then Some (Inl (idx + 1))
         else skip_empty t (idx + 1) (visits - 1))
      else None)"
  by pat_completeness auto
termination by (relation "measure (\<lambda>(t, idx, _). length t - idx)") auto

declare skip_empty.simps [simp del]

definition push_entry :: "('k, 'v) dict \<Rightarrow> nat \<Rightarrow> nat \<Rightarrow> ('k, 'v) dictEntry \<Rightarrow> ('k, 'v) dict option" where
  "push_entry d i h e = do {
     t \<leftarrow> ht_table d i;
     c \<leftarrow> get_at t h;
     t \<leftarrow> set_at t h (e # c);
     Some (d\<lparr>ht_table := (ht_table d)(i := Some t)\<rparr>) }"

fun move_bucket :: "('k, 'v) dict \<Rightarrow> ('k, 'v) dictEntry list \<Rightarrow> ('k, 'v) dict option" where
  "move_bucket d [] = Some d"
| "move_bucket d (de # nextde) = do {
     let h = unat (dictHashKey d (ekey de) AND DICTHT_SIZE_MASK (ht_size_exp d 1));
     d \<leftarrow> push_entry d 1 h de;
     u \<leftarrow> dec (ht_used d 0);
     move_bucket (d\<lparr>ht_used := (ht_used d)(0 := u, 1 := ht_used d 1 + 1)\<rparr>) nextde }"

text \<open>The outer loop; \<open>Inl\<close> is the early \<open>return 1\<close>.\<close>

fun rehash_loop :: "nat \<Rightarrow> int \<Rightarrow> ('k, 'v) dict \<Rightarrow> (('k, 'v) dict + ('k, 'v) dict) option" where
  "rehash_loop 0 visits d = Some (Inr d)"
| "rehash_loop (Suc n) visits d =
     (if ht_used d 0 = 0 then Some (Inr d)
      else do {
        ensure (rehashidx d < int (DICTHT_SIZE (ht_size_exp d 0)) \<and> 0 \<le> rehashidx d);
        t \<leftarrow> ht_table d 0;
        s \<leftarrow> skip_empty t (nat (rehashidx d)) visits;
        (case s of
           Inl idx \<Rightarrow> Some (Inl (d\<lparr>rehashidx := int idx\<rparr>))
         | Inr (idx, visits) \<Rightarrow> do {
             d \<leftarrow> move_bucket d (t ! idx);
             t \<leftarrow> set_at t idx [];
             rehash_loop n visits
               (d\<lparr>ht_table := (ht_table d)(0 := Some t), rehashidx := int idx + 1\<rparr>) }) })"

definition rehash_done :: "('k, 'v) dict \<Rightarrow> ('k, 'v) dict" where
  "rehash_done d = (dictReset (d\<lparr>ht_table := (ht_table d)(0 := ht_table d 1),
     ht_addr := (ht_addr d)(0 := ht_addr d 1), ht_used := (ht_used d)(0 := ht_used d 1),
     ht_size_exp := (ht_size_exp d)(0 := ht_size_exp d 1)\<rparr>) 1)\<lparr>rehashidx := -1\<rparr>"

definition dictRehash :: "('k, 'v) dict \<Rightarrow> nat \<Rightarrow> (('k, 'v) dict \<times> int) option" where
  "dictRehash d n =
     (if \<not> dictIsRehashing d then Some (d, 0)
      else do {
        s \<leftarrow> rehash_loop n (int n * 10) d;
        (case s of
           Inl d \<Rightarrow> Some (d, 1)
         | Inr d \<Rightarrow> if ht_used d 0 = 0 then Some (rehash_done d, 0) else Some (d, 1)) })"

definition dictRehashStep :: "('k, 'v) dict \<Rightarrow> ('k, 'v) dict option" where
  "dictRehashStep d =
     (if pauserehash d = 0 then map_option fst (dictRehash d 1) else Some d)"

definition rehash_step_if_rehashing :: "('k, 'v) dict \<Rightarrow> ('k, 'v) dict option" where
  "rehash_step_if_rehashing d = (if dictIsRehashing d then dictRehashStep d else Some d)"

subsection \<open>Lookup of the slot of a key\<close>

text \<open>The chain walk every operation makes: the first entry whose key is the same pointer or
  compares equal.\<close>

definition key_eq :: "('k, 'v) dict \<Rightarrow> 'k \<Rightarrow> 'k \<Rightarrow> bool" where
  "key_eq d k k' \<longleftrightarrow> k = k' \<or> dictCompareKeys d k k'"

definition chain_find :: "('k, 'v) dict \<Rightarrow> 'k \<Rightarrow> ('k, 'v) dictEntry list \<Rightarrow> ('k, 'v) dictEntry option" where
  "chain_find d key c = find (\<lambda>he. key_eq d key (ekey he)) c"

definition bucket_idx :: "('k, 'v) dict \<Rightarrow> nat \<Rightarrow> u64 \<Rightarrow> nat" where
  "bucket_idx d table h = unat (h AND DICTHT_SIZE_MASK (ht_size_exp d table))"

definition read_bucket :: "('k, 'v) dict \<Rightarrow> nat \<Rightarrow> nat \<Rightarrow> ('k, 'v) dictEntry list option" where
  "read_bucket d table idx = do { t \<leftarrow> ht_table d table; get_at t idx }"

definition dictTypeExpandAllowed :: "('k, 'v) dict \<Rightarrow> bool" where
  "dictTypeExpandAllowed d = (case expandAllowed (dtype d) of
     None \<Rightarrow> True
   | Some f \<Rightarrow> f ((DICTHT_SIZE (int (dictNextExp (ht_used d 0 + 1))) * 8) mod 2 ^ 64)
                 (ht_used d 0, DICTHT_SIZE (ht_size_exp d 0)))"

definition dictExpandIfNeeded :: "'v env \<Rightarrow> ('k, 'v) dict \<Rightarrow> (('k, 'v) dict \<times> int) option" where
  "dictExpandIfNeeded env d =
     (if dictIsRehashing d then Some (d, DICT_OK)
      else if DICTHT_SIZE (ht_size_exp d 0) = 0 then dictExpand env d DICT_HT_INITIAL_SIZE
      else if DICTHT_SIZE (ht_size_exp d 0) \<le> ht_used d 0 \<and>
              (dict_can_resize env \<or>
               dict_force_resize_ratio env < ht_used d 0 div DICTHT_SIZE (ht_size_exp d 0)) \<and>
              dictTypeExpandAllowed d
      then dictExpand env d (ht_used d 0 + 1)
      else Some (d, DICT_OK))"

text \<open>\<open>Inl\<close> is the result \<open>-1\<close>, with what \<open>*existing\<close> receives; \<open>Inr\<close> is the index.\<close>

definition dictKeyIndex ::
  "'v env \<Rightarrow> ('k, 'v) dict \<Rightarrow> 'k \<Rightarrow> u64 \<Rightarrow> (('k, 'v) dict \<times> (addr option + nat)) option" where
  "dictKeyIndex env d key hash = do {
     (d, r) \<leftarrow> dictExpandIfNeeded env d;
     if r = DICT_ERR then Some (d, Inl None)
     else do {
       c \<leftarrow> read_bucket d 0 (bucket_idx d 0 hash);
       (case chain_find d key c of
          Some he \<Rightarrow> Some (d, Inl (Some (eaddr he)))
        | None \<Rightarrow>
            if \<not> dictIsRehashing d then Some (d, Inr (bucket_idx d 0 hash))
            else do {
              c \<leftarrow> read_bucket d 1 (bucket_idx d 1 hash);
              (case chain_find d key c of
                 Some he \<Rightarrow> Some (d, Inl (Some (eaddr he)))
               | None \<Rightarrow> Some (d, Inr (bucket_idx d 1 hash))) }) } }"

subsection \<open>Insertion and replacement\<close>

text \<open>Access through an entry pointer.\<close>

definition buckets_of :: "('k, 'v) dict \<Rightarrow> nat \<Rightarrow> ('k, 'v) buckets" where
  "buckets_of d i = (case ht_table d i of None \<Rightarrow> [] | Some t \<Rightarrow> t)"

definition entries :: "('k, 'v) dict \<Rightarrow> ('k, 'v) dictEntry list" where
  "entries d = concat (buckets_of d 0) @ concat (buckets_of d 1)"

definition deref_entry :: "('k, 'v) dict \<Rightarrow> addr \<Rightarrow> ('k, 'v) dictEntry option" where
  "deref_entry d a = find (\<lambda>e. eaddr e = a) (entries d)"

definition write_entry ::
  "('k, 'v) dict \<Rightarrow> addr \<Rightarrow> ('k, 'v) dictEntry \<Rightarrow> ('k, 'v) dict option" where
  "write_entry d a e' = do {
     _ \<leftarrow> deref_entry d a;
     Some (d\<lparr>ht_table := (\<lambda>i. map_option (map (map (\<lambda>e. if eaddr e = a then e' else e)))
                                        (ht_table d i))\<rparr>) }"

text \<open>The returned entry pointer and the value of \<open>*existing\<close>.\<close>

definition dictAddRaw ::
  "'v env \<Rightarrow> ('k, 'v) dict \<Rightarrow> 'k \<Rightarrow> (('k, 'v) dict \<times> addr option \<times> addr option) option" where
  "dictAddRaw env d key = do {
     d \<leftarrow> rehash_step_if_rehashing d;
     (d, s) \<leftarrow> dictKeyIndex env d key (dictHashKey d key);
     (case s of
        Inl existing \<Rightarrow> Some (d, None, existing)
      | Inr index \<Rightarrow> do {
          let htidx = (if dictIsRehashing d then 1 else 0);
          let entry = dictSetKey d \<lparr>eaddr = zmalloc_addr env, ekey = key, eval = junk env,
                                    metadata = replicate (dictMetadataSize d) 0\<rparr> key;
          d \<leftarrow> push_entry d htidx index entry;
          Some (d\<lparr>ht_used := (ht_used d)(htidx := ht_used d htidx + 1)\<rparr>,
                Some (zmalloc_addr env), None) }) }"

definition set_val_at :: "('k, 'v) dict \<Rightarrow> addr \<Rightarrow> 'v \<Rightarrow> ('k, 'v) dict option" where
  "set_val_at d r v = do { e \<leftarrow> deref_entry d r; write_entry d r (dictSetVal d e v) }"

definition dictAdd :: "'v env \<Rightarrow> ('k, 'v) dict \<Rightarrow> 'k \<Rightarrow> 'v \<Rightarrow> (('k, 'v) dict \<times> int) option" where
  "dictAdd env d key val = do {
     (d, entry, _) \<leftarrow> dictAddRaw env d key;
     (case entry of
        None \<Rightarrow> Some (d, DICT_ERR)
      | Some r \<Rightarrow> do { d \<leftarrow> set_val_at d r val; Some (d, DICT_OK) }) }"

definition dictReplace :: "'v env \<Rightarrow> ('k, 'v) dict \<Rightarrow> 'k \<Rightarrow> 'v \<Rightarrow> (('k, 'v) dict \<times> int) option" where
  "dictReplace env d key val = do {
     (d, entry, existing) \<leftarrow> dictAddRaw env d key;
     (case entry of
        Some r \<Rightarrow> do { d \<leftarrow> set_val_at d r val; Some (d, 1) }
      | None \<Rightarrow> do {
          r \<leftarrow> existing;
          auxentry \<leftarrow> deref_entry d r;
          d \<leftarrow> set_val_at d r val;
          Some (dictFreeVal d (eval auxentry), 0) }) }"

subsection \<open>Deletion\<close>

definition dictFreeUnlinkedEntry :: "('k, 'v) dict \<Rightarrow> ('k, 'v) dictEntry option \<Rightarrow> ('k, 'v) dict" where
  "dictFreeUnlinkedEntry d he = (case he of
     None \<Rightarrow> d
   | Some he \<Rightarrow> dictFreeVal (dictFreeKey d (ekey he)) (eval he))"

fun chain_unlink :: "('k, 'v) dict \<Rightarrow> 'k \<Rightarrow> ('k, 'v) dictEntry list \<Rightarrow> ('k, 'v) dictEntry list" where
  "chain_unlink d key [] = []"
| "chain_unlink d key (he # rest) =
     (if key_eq d key (ekey he) then rest else he # chain_unlink d key rest)"

text \<open>One round of the loop over the two tables: the entry found in the bucket is unlinked.\<close>

definition delete_in_table ::
  "('k, 'v) dict \<Rightarrow> 'k \<Rightarrow> bool \<Rightarrow> u64 \<Rightarrow> nat \<Rightarrow> (('k, 'v) dict \<times> ('k, 'v) dictEntry option) option" where
  "delete_in_table d key nofree h table = do {
     let idx = bucket_idx d table h;
     t \<leftarrow> ht_table d table;
     c \<leftarrow> get_at t idx;
     (case chain_find d key c of
        None \<Rightarrow> Some (d, None)
      | Some he \<Rightarrow> do {
          t \<leftarrow> set_at t idx (chain_unlink d key c);
          let d = d\<lparr>ht_table := (ht_table d)(table := Some t)\<rparr>;
          let d = (if nofree then d else dictFreeUnlinkedEntry d (Some he));
          u \<leftarrow> dec (ht_used d table);
          Some (d\<lparr>ht_used := (ht_used d)(table := u)\<rparr>, Some he) }) }"

definition dictGenericDelete ::
  "('k, 'v) dict \<Rightarrow> 'k \<Rightarrow> bool \<Rightarrow> (('k, 'v) dict \<times> ('k, 'v) dictEntry option) option" where
  "dictGenericDelete d key nofree =
     (if dictSize d = 0 then Some (d, None)
      else do {
        d \<leftarrow> rehash_step_if_rehashing d;
        let h = dictHashKey d key;
        (d, he) \<leftarrow> delete_in_table d key nofree h 0;
        (if he \<noteq> None \<or> \<not> dictIsRehashing d then Some (d, he)
         else delete_in_table d key nofree h 1) })"

definition dictDelete :: "('k, 'v) dict \<Rightarrow> 'k \<Rightarrow> (('k, 'v) dict \<times> int) option" where
  "dictDelete d key = do {
     (d, he) \<leftarrow> dictGenericDelete d key False;
     Some (d, if he \<noteq> None then DICT_OK else DICT_ERR) }"

fun clear_chain :: "('k, 'v) dict \<Rightarrow> nat \<Rightarrow> ('k, 'v) dictEntry list \<Rightarrow> ('k, 'v) dict option" where
  "clear_chain d htidx [] = Some d"
| "clear_chain d htidx (he # nextHe) = do {
     let d = dictFreeVal (dictFreeKey d (ekey he)) (eval he);
     u \<leftarrow> dec (ht_used d htidx);
     clear_chain (d\<lparr>ht_used := (ht_used d)(htidx := u)\<rparr>) htidx nextHe }"

text \<open>The loop over the buckets: \<open>fuel\<close> is the number of buckets left, \<open>i\<close> the index; \<open>callback\<close> may
  change what it is given (\<open>id\<close> when the pointer is \<open>NULL\<close>).\<close>

fun clear_loop :: "(('k, 'v) dict \<Rightarrow> ('k, 'v) dict) \<Rightarrow> nat \<Rightarrow> nat \<Rightarrow> nat \<Rightarrow> ('k, 'v) dict \<Rightarrow> ('k, 'v) dict option" where
  "clear_loop callback htidx 0 i d = Some d"
| "clear_loop callback htidx (Suc left) i d =
     (if ht_used d htidx = 0 then Some d
      else do {
        let d = (if i mod 65536 = 0 then callback d else d);
        c \<leftarrow> read_bucket d htidx i;
        d \<leftarrow> clear_chain d htidx c;
        clear_loop callback htidx left (i + 1) d })"

definition dictClear :: "(('k, 'v) dict \<Rightarrow> ('k, 'v) dict) \<Rightarrow> ('k, 'v) dict \<Rightarrow> nat \<Rightarrow> (('k, 'v) dict \<times> int) option" where
  "dictClear callback d htidx = do {
     d \<leftarrow> clear_loop callback htidx (DICTHT_SIZE (ht_size_exp d htidx)) 0 d;
     Some (dictReset d htidx, DICT_OK) }"

text \<open>What is left of a released dictionary is the record of the destructor calls.\<close>

definition dictRelease :: "('k, 'v) dict \<Rightarrow> ('k, 'v) dtor list option" where
  "dictRelease d = do {
     (d, _) \<leftarrow> dictClear id d 0;
     (d, _) \<leftarrow> dictClear id d 1;
     Some (dlog d) }"

subsection \<open>Lookup\<close>

text \<open>\<open>dictFind\<close> increments the bucket index between computing and using it
  (\<open>debug = idx++\<close>).\<close>

definition find_in_table :: "('k, 'v) dict \<Rightarrow> 'k \<Rightarrow> u64 \<Rightarrow> nat \<Rightarrow> addr option option" where
  "find_in_table d key h table = do {
     let idx = bucket_idx d table h + 1;
     c \<leftarrow> read_bucket d table idx;
     Some (map_option eaddr (chain_find d key c)) }"

definition dictFind :: "('k, 'v) dict \<Rightarrow> 'k \<Rightarrow> (('k, 'v) dict \<times> addr option) option" where
  "dictFind d key =
     (if dictSize d = 0 then Some (d, None)
      else do {
        d \<leftarrow> rehash_step_if_rehashing d;
        let h = dictHashKey d key;
        he \<leftarrow> find_in_table d key h 0;
        (if he \<noteq> None \<or> \<not> dictIsRehashing d then Some (d, he)
         else do { he \<leftarrow> find_in_table d key h 1; Some (d, he) }) })"

definition dictFetchValue :: "('k, 'v) dict \<Rightarrow> 'k \<Rightarrow> (('k, 'v) dict \<times> 'v option) option" where
  "dictFetchValue d key = do {
     (d, he) \<leftarrow> dictFind d key;
     (case he of
        None \<Rightarrow> Some (d, None)
      | Some r \<Rightarrow> do { e \<leftarrow> deref_entry d r; Some (d, Some (eval e)) }) }"


subsection \<open>Next power of two\<close>

lemma nextExp_loop_least:
  "e0 \<le> e \<Longrightarrow> sz \<le> 2 ^ e \<Longrightarrow>
     e0 \<le> nextExp_loop e0 sz \<and> nextExp_loop e0 sz \<le> e \<and> sz \<le> 2 ^ nextExp_loop e0 sz"
proof (induction e0 sz rule: nextExp_loop.induct)
  case (1 e0 sz)
  show ?case
  proof (cases "sz \<le> 2 ^ e0")
    case True
    then show ?thesis using 1 by (subst (1 2 3) nextExp_loop.simps) simp
  next
    case False
    with 1(3) have "e0 \<noteq> e" by auto
    with 1(2) have "e0 + 1 \<le> e" by simp
    with 1(1) [OF False this 1(3)] False show ?thesis
      by (subst (1 2 3) nextExp_loop.simps) simp
  qed
qed

lemma nextExp_loop_ge: "e0 \<le> nextExp_loop e0 sz"
  using nextExp_loop_least [of e0 "max e0 sz" sz] less_exp [of "max e0 sz"] by linarith

lemma nextExp_loop_min: "e0 < nextExp_loop e0 sz \<Longrightarrow> 2 ^ (nextExp_loop e0 sz - 1) < sz"
proof (induction e0 sz rule: nextExp_loop.induct)
  case (1 e0 sz)
  then have big: "\<not> sz \<le> 2 ^ e0" by (auto simp: nextExp_loop.simps [of e0 sz])
  then have eq: "nextExp_loop e0 sz = nextExp_loop (e0 + 1) sz" by (subst nextExp_loop.simps) simp
  show ?case
  proof (cases "e0 + 1 < nextExp_loop (e0 + 1) sz")
    case True
    then show ?thesis using 1(1) [OF big] unfolding eq by simp
  next
    case False
    with nextExp_loop_ge [of "e0 + 1" sz] have "nextExp_loop (e0 + 1) sz = e0 + 1" by linarith
    then show ?thesis using big unfolding eq by simp
  qed
qed

lemma nextExp_loop_bound: "sz \<le> 2 ^ n \<Longrightarrow> e0 \<le> n \<Longrightarrow> nextExp_loop e0 sz \<le> n"
  using nextExp_loop_least by blast

lemma dictNextExp_ok:
  assumes "sz < LONG_MAX"
  shows "sz \<le> 2 ^ dictNextExp sz" "2 \<le> dictNextExp sz" "dictNextExp sz \<le> 63"
proof -
  have "sz \<le> 2 ^ 63" using assms by (simp add: LONG_MAX_def)
  then show "sz \<le> 2 ^ dictNextExp sz" "2 \<le> dictNextExp sz" "dictNextExp sz \<le> 63"
    using assms nextExp_loop_least [of 2 63 sz]
    by (simp_all add: dictNextExp_def DICT_HT_INITIAL_EXP_def)
qed

subsection \<open>Invariant\<close>

definition table_ok :: "('k \<Rightarrow> u64) \<Rightarrow> int \<Rightarrow> ('k, 'v) buckets \<Rightarrow> bool" where
  "table_ok hash e t \<longleftrightarrow> 0 \<le> e \<and> e < 64 \<and> length t = 2 ^ nat e \<and>
     (\<forall>b < length t. \<forall>x \<in> set (t ! b). unat (hash (ekey x) AND DICTHT_SIZE_MASK e) = b)"

definition ht_ok :: "('k, 'v) dict \<Rightarrow> nat \<Rightarrow> bool" where
  "ht_ok d i = (case ht_table d i of
     None \<Rightarrow> ht_size_exp d i = -1 \<and> ht_used d i = 0
   | Some t \<Rightarrow> table_ok (dictHashKey d) (ht_size_exp d i) t \<and> ht_used d i = length (concat t))"

definition rehash_ok :: "('k, 'v) dict \<Rightarrow> bool" where
  "rehash_ok d =
     (if rehashidx d = -1 then ht_table d 1 = None
      else 0 \<le> rehashidx d \<and> ht_table d 0 \<noteq> None \<and> ht_table d 1 \<noteq> None \<and>
           rehashidx d \<le> int (length (buckets_of d 0)) \<and>
           (\<forall>b < nat (rehashidx d). buckets_of d 0 ! b = []))"

definition keys_ok :: "('k \<Rightarrow> bool) \<Rightarrow> ('k, 'v) dict \<Rightarrow> bool" where
  "keys_ok ok d \<longleftrightarrow> distinct (map eaddr (entries d)) \<and> (\<forall>x \<in> set (entries d). ok (ekey x)) \<and>
     (\<forall>x \<in> set (entries d). \<forall>y \<in> set (entries d). key_eq d (ekey x) (ekey y) \<longrightarrow> x = y)"

definition dict_inv :: "('k \<Rightarrow> bool) \<Rightarrow> ('k, 'v) dict \<Rightarrow> bool" where
  "dict_inv ok d \<longleftrightarrow> ht_ok d 0 \<and> ht_ok d 1 \<and> rehash_ok d \<and> keys_ok ok d"

definition dict_map :: "('k, 'v) dict \<Rightarrow> 'k \<Rightarrow> 'v option" where
  "dict_map d k = map_option eval (find (\<lambda>e. key_eq d k (ekey e)) (entries d))"

lemma SIZE_MASK_mask: "0 \<le> e \<Longrightarrow> DICTHT_SIZE_MASK e = mask (nat e)"
  by (simp add: DICTHT_SIZE_MASK_def mask_eq_exp_minus_1 push_bit_eq_mult)

lemma table_ok_idx:
  "table_ok hash e t \<Longrightarrow> unat (h AND DICTHT_SIZE_MASK e) < length t"
  by (auto simp: table_ok_def SIZE_MASK_mask unat_and_mask_mod)

lemma table_ok_size: "table_ok hash e t \<Longrightarrow> DICTHT_SIZE e = length t"
  by (auto simp: table_ok_def DICTHT_SIZE_def)

lemma buckets_size: "ht_ok d i \<Longrightarrow> length (buckets_of d i) = DICTHT_SIZE (ht_size_exp d i)"
  by (cases "ht_table d i")
     (auto simp: ht_ok_def buckets_of_def DICTHT_SIZE_def dest!: table_ok_size)

lemma table_ok_push:
  assumes "table_ok hash e t" "b = unat (hash (ekey x) AND DICTHT_SIZE_MASK e)"
  shows "table_ok hash e (t[b := x # t ! b])"
proof -
  have "b < length t" using assms table_ok_idx by blast
  then show ?thesis using assms by (auto simp: table_ok_def nth_list_update split: if_splits)
qed

lemma table_ok_subset:
  assumes "table_ok hash e t" "b < length t" "set c \<subseteq> set (t ! b)"
  shows "table_ok hash e (t[b := c])"
  using assms by (auto simp: table_ok_def nth_list_update)

lemma table_ok_empty: "e < 64 \<Longrightarrow> table_ok hash (int e) (replicate (2 ^ e) [])"
  by (simp add: table_ok_def)

lemma key_eq_dtype: "dtype d' = dtype d \<Longrightarrow> key_eq d' = key_eq d"
  by (simp add: key_eq_def dictCompareKeys_def fun_eq_iff)

lemma dictHashKey_dtype: "dtype d' = dtype d \<Longrightarrow> dictHashKey d' = dictHashKey d"
  by (simp add: dictHashKey_def fun_eq_iff)

lemma dictHashKey_upd [simp]:
  "dictHashKey (d\<lparr>ht_table := x0\<rparr>) = dictHashKey d"
  "dictHashKey (d\<lparr>ht_addr := x1\<rparr>) = dictHashKey d"
  "dictHashKey (d\<lparr>ht_used := x2\<rparr>) = dictHashKey d"
  "dictHashKey (d\<lparr>rehashidx := x3\<rparr>) = dictHashKey d"
  "dictHashKey (d\<lparr>pauserehash := x4\<rparr>) = dictHashKey d"
  "dictHashKey (d\<lparr>ht_size_exp := x5\<rparr>) = dictHashKey d"
  "dictHashKey (d\<lparr>dlog := x6\<rparr>) = dictHashKey d"
  by (simp_all add: dictHashKey_def fun_eq_iff)

lemma key_eq_upd [simp]:
  "key_eq (d\<lparr>ht_table := x0\<rparr>) = key_eq d"
  "key_eq (d\<lparr>ht_addr := x1\<rparr>) = key_eq d"
  "key_eq (d\<lparr>ht_used := x2\<rparr>) = key_eq d"
  "key_eq (d\<lparr>rehashidx := x3\<rparr>) = key_eq d"
  "key_eq (d\<lparr>pauserehash := x4\<rparr>) = key_eq d"
  "key_eq (d\<lparr>ht_size_exp := x5\<rparr>) = key_eq d"
  "key_eq (d\<lparr>dlog := x6\<rparr>) = key_eq d"
  by (simp_all add: key_eq_def dictCompareKeys_def fun_eq_iff)

lemma buckets_of_upd [simp]:
  "buckets_of (d\<lparr>ht_addr := x1\<rparr>) = buckets_of d"
  "buckets_of (d\<lparr>ht_used := x2\<rparr>) = buckets_of d"
  "buckets_of (d\<lparr>rehashidx := x3\<rparr>) = buckets_of d"
  "buckets_of (d\<lparr>pauserehash := x4\<rparr>) = buckets_of d"
  "buckets_of (d\<lparr>ht_size_exp := x5\<rparr>) = buckets_of d"
  "buckets_of (d\<lparr>dlog := x6\<rparr>) = buckets_of d"
  by (simp_all add: buckets_of_def fun_eq_iff)

lemma entries_upd [simp]:
  "entries (d\<lparr>ht_addr := x1\<rparr>) = entries d"
  "entries (d\<lparr>ht_used := x2\<rparr>) = entries d"
  "entries (d\<lparr>rehashidx := x3\<rparr>) = entries d"
  "entries (d\<lparr>pauserehash := x4\<rparr>) = entries d"
  "entries (d\<lparr>ht_size_exp := x5\<rparr>) = entries d"
  "entries (d\<lparr>dlog := x6\<rparr>) = entries d"
  by (simp_all add: entries_def fun_eq_iff)

subsection \<open>Rehashing\<close>

lemma move_bucket_ok:
  assumes "ht_table d 1 = Some t1" "table_ok (dictHashKey d) (ht_size_exp d 1) t1"
    "length c \<le> ht_used d 0"
  shows "\<exists>t1'. move_bucket d c = Some (d\<lparr>ht_table := (ht_table d)(1 := Some t1'),
            ht_used := (ht_used d)(0 := ht_used d 0 - length c, 1 := ht_used d 1 + length c)\<rparr>) \<and>
          table_ok (dictHashKey d) (ht_size_exp d 1) t1' \<and>
          mset (concat t1') = mset (concat t1) + mset c"
  using assms
proof (induction c arbitrary: d t1)
  case Nil
  then show ?case by (intro exI [of _ t1]) (simp add: fun_upd_idem)
next
  case (Cons de c)
  let ?h = "unat (dictHashKey d (ekey de) AND DICTHT_SIZE_MASK (ht_size_exp d 1))"
  let ?t = "t1[?h := de # t1 ! ?h]"
  let ?d = "d\<lparr>ht_table := (ht_table d)(1 := Some ?t),
              ht_used := (ht_used d)(0 := ht_used d 0 - 1, 1 := ht_used d 1 + 1)\<rparr>"
  have h: "?h < length t1" using Cons.prems by (blast intro: table_ok_idx)
  have eq: "move_bucket d (de # c) = move_bucket ?d c"
    using Cons.prems h by (simp add: push_entry_def dec_def Let_def)
  have hash: "dictHashKey ?d = dictHashKey d" by (rule dictHashKey_dtype) simp
  have "table_ok (dictHashKey d) (ht_size_exp d 1) ?t"
    using Cons.prems(2) by (rule table_ok_push) simp
  then have pre: "ht_table ?d 1 = Some ?t" "table_ok (dictHashKey ?d) (ht_size_exp ?d 1) ?t"
    "length c \<le> ht_used ?d 0"
    using Cons.prems(3) unfolding hash by auto
  from Cons.IH [OF this] obtain t1' where t1':
      "move_bucket ?d c = Some (?d\<lparr>ht_table := (ht_table ?d)(1 := Some t1'),
      ht_used := (ht_used ?d)(0 := ht_used ?d 0 - length c, 1 := ht_used ?d 1 + length c)\<rparr>)"
    "table_ok (dictHashKey ?d) (ht_size_exp ?d 1) t1'" "mset (concat t1') = mset (concat ?t) + mset c"
    by blast
  have "mset (concat ?t) = mset (concat t1) + {#de#}"
    using mset_concat_update [OF h, of "de # t1 ! ?h"] by simp
  moreover have "(ht_used ?d)(0 := ht_used ?d 0 - length c, 1 := ht_used ?d 1 + length c) =
      (ht_used d)(0 := ht_used d 0 - length (de # c), 1 := ht_used d 1 + length (de # c))"
    by (simp add: fun_eq_iff)
  ultimately show ?case
    using t1' unfolding eq hash by (intro exI [of _ t1']) (simp del: fun_upd_apply)
qed

lemma less_add1_iff: "(i < n + (1::nat)) = (i < n \<or> i = n)" by auto

lemma skip_empty_ok:
  assumes "b < length t" "t ! b \<noteq> []" "idx \<le> b" "\<forall>i < idx. t ! i = []" "0 < visits"
  shows "(\<exists>j. skip_empty t idx visits = Some (Inl j) \<and> j \<le> b \<and> idx < j \<and> (\<forall>i < j. t ! i = [])) \<or>
    (\<exists>j v. skip_empty t idx visits = Some (Inr (j, v)) \<and> j \<le> b \<and> idx \<le> j \<and> t ! j \<noteq> [] \<and> 0 < v \<and>
       (\<forall>i < j. t ! i = []))"
  using assms
proof (induction t idx visits rule: skip_empty.induct)
  case (1 t idx visits)
  then have "t ! idx = [] \<Longrightarrow> idx < b" using le_neq_implies_less by blast
  note step = this
  show ?case
  proof (cases "t ! idx = [] \<and> visits - 1 \<noteq> 0")
    case True
    then have "idx + 1 \<le> b" using step by simp
    moreover have "\<forall>i < idx + 1. t ! i = []" using 1(5) True by (metis Suc_eq_plus1 less_Suc_eq)
    ultimately show ?thesis
      using 1(1) [OF _ _ _ 1(2,3)] 1(2-6) True by (subst (1 2) skip_empty.simps) force
  next
    case False
    then show ?thesis using 1(2-6) step by (auto simp: skip_empty.simps [of t idx] less_add1_iff)
  qed
qed

lemma entries_tables:
  "ht_table d 0 = Some t0 \<Longrightarrow> ht_table d 1 = Some t1 \<Longrightarrow> entries d = concat t0 @ concat t1"
  by (simp add: entries_def buckets_of_def)

text \<open>What an operation keeps when it only moves entries: the structure, the entries as a multiset,
  the callbacks, the pause counter and the destructor calls.\<close>

definition moved :: "('k, 'v) dict \<Rightarrow> ('k, 'v) dict \<Rightarrow> bool" where
  "moved d d' \<longleftrightarrow> mset (entries d') = mset (entries d) \<and> dtype d' = dtype d \<and>
     pauserehash d' = pauserehash d \<and> dlog d' = dlog d"

definition struct_ok :: "('k, 'v) dict \<Rightarrow> bool" where
  "struct_ok d \<longleftrightarrow> ht_ok d 0 \<and> ht_ok d 1 \<and> rehash_ok d"

lemma moved_refl [simp]: "moved d d" by (simp add: moved_def)

lemma moved_trans: "moved a b \<Longrightarrow> moved b c \<Longrightarrow> moved a c" by (simp add: moved_def)

lemma rehash_loop_ok:
  assumes "struct_ok d" "dictIsRehashing d" "0 < visits"
  shows "\<exists>r d'. rehash_loop n visits d = Some r \<and> (r = Inl d' \<or> r = Inr d') \<and>
           struct_ok d' \<and> dictIsRehashing d' \<and> moved d d' \<and>
           (0 < n \<and> 0 < ht_used d 0 \<longrightarrow> rehashidx d < rehashidx d') \<and>
           ((0 < n \<and> 0 < ht_used d 0) \<or> r = Inr d \<and> d' = d) \<and>
           length (buckets_of d' 0) = length (buckets_of d 0)"
  using assms
proof (induction n arbitrary: d visits)
  case 0
  then show ?case by auto
next
  case (Suc n)
  show ?case
  proof (cases "ht_used d 0 = 0")
    case True
    then show ?thesis using Suc.prems by auto
  next
    case False
    obtain t0 t1 where t: "ht_table d 0 = Some t0" "ht_table d 1 = Some t1"
      using Suc.prems by (auto simp: struct_ok_def rehash_ok_def dictIsRehashing_def)
    let ?i = "nat (rehashidx d)"
    have i: "0 \<le> rehashidx d" "rehashidx d \<le> int (length t0)" "\<forall>b < ?i. t0 ! b = []"
      using Suc.prems t by (auto simp: struct_ok_def rehash_ok_def dictIsRehashing_def buckets_of_def)
    have ok: "table_ok (dictHashKey d) (ht_size_exp d 0) t0" "ht_used d 0 = length (concat t0)"
      "table_ok (dictHashKey d) (ht_size_exp d 1) t1" "ht_used d 1 = length (concat t1)"
      using Suc.prems t by (auto simp: struct_ok_def ht_ok_def)
    from False ok(2) obtain c where "c \<in> set t0" "c \<noteq> []" by auto
    then obtain b where b: "b < length t0" "t0 ! b \<noteq> []" by (auto simp: in_set_conv_nth)
    then have "?i \<le> b" using i(3) by (meson not_le)
    then have guard: "rehashidx d < int (DICTHT_SIZE (ht_size_exp d 0)) \<and> 0 \<le> rehashidx d"
      using b(1) i(1) unfolding table_ok_size [OF ok(1)] by linarith
    from skip_empty_ok [OF b \<open>?i \<le> b\<close> i(3) Suc.prems(3)] show ?thesis
    proof (elim disjE exE conjE)
      fix j
      assume j: "skip_empty t0 ?i visits = Some (Inl j)" "j \<le> b" "?i < j" "\<forall>i < j. t0 ! i = []"
      let ?d = "d\<lparr>rehashidx := int j\<rparr>"
      have "struct_ok ?d \<and> dictIsRehashing ?d \<and> moved d ?d"
        using Suc.prems t j(2,4) b(1)
        by (auto simp: struct_ok_def ht_ok_def rehash_ok_def dictIsRehashing_def buckets_of_def
            moved_def entries_def dictHashKey_def [abs_def])
      moreover have "rehash_loop (Suc n) visits d = Some (Inl ?d)"
        using False guard t j(1) by simp
      ultimately show ?thesis using j(3) by fastforce
    next
      fix j v
      assume j: "skip_empty t0 ?i visits = Some (Inr (j, v))" "j \<le> b" "?i \<le> j" "t0 ! j \<noteq> []"
        "0 < v" "\<forall>i < j. t0 ! i = []"
      have jl: "j < length t0" using j(2) b(1) by simp
      have len: "length (t0 ! j) \<le> ht_used d 0"
        using sum_list_update_nat [OF jl, of length "[]"] ok(2) by (simp add: length_concat)
      obtain t1' where m: "move_bucket d (t0 ! j) = Some (d\<lparr>ht_table := (ht_table d)(1 := Some t1'),
            ht_used := (ht_used d)(0 := ht_used d 0 - length (t0 ! j),
                                   1 := ht_used d 1 + length (t0 ! j))\<rparr>)"
          "table_ok (dictHashKey d) (ht_size_exp d 1) t1'"
          "mset (concat t1') = mset (concat t1) + mset (t0 ! j)"
        using move_bucket_ok [OF t(2) ok(3) len] by blast
      let ?t0 = "t0[j := []]"
      let ?d = "d\<lparr>ht_used := (ht_used d)(0 := ht_used d 0 - length (t0 ! j),
                                   1 := ht_used d 1 + length (t0 ! j)),
                  ht_table := (ht_table d)(1 := Some t1', 0 := Some ?t0), rehashidx := int j + 1\<rparr>"
      have c0: "mset (concat ?t0) + mset (t0 ! j) = mset (concat t0)"
        using mset_concat_update [OF jl, of "[]"] by simp
      have l0: "length (concat ?t0) + length (t0 ! j) = length (concat t0)"
        and l1: "length (concat t1') = length (concat t1) + length (t0 ! j)"
        using c0 m(3) mset_eq_length [of "concat ?t0 @ t0 ! j" "concat t0"]
          mset_eq_length [of "concat t1'" "concat t1 @ t0 ! j"] by simp_all
      have tab0: "table_ok (dictHashKey d) (ht_size_exp d 0) ?t0"
        using table_ok_subset [OF ok(1) jl] by simp
      have hash: "dictHashKey ?d = dictHashKey d" by (rule dictHashKey_dtype) simp
      have "struct_ok ?d"
        using tab0 m(2) l0 l1 ok(2,4) j(6) jl
        by (auto simp: struct_ok_def ht_ok_def rehash_ok_def buckets_of_def hash nth_list_update
            nat_add_distrib less_add1_iff)
      moreover have "dictIsRehashing ?d" by (simp add: dictIsRehashing_def)
      ultimately obtain r d' where r: "rehash_loop n v ?d = Some r" "r = Inl d' \<or> r = Inr d'"
        "struct_ok d'" "dictIsRehashing d'" "moved ?d d'" "rehashidx ?d \<le> rehashidx d'"
        "length (buckets_of d' 0) = length (buckets_of ?d 0)"
        using Suc.IH [of ?d v] j(5) by (metis order.refl order.strict_implies_order)
      have "moved d ?d"
        using t by (simp add: moved_def entries_def buckets_of_def m(3) c0 [symmetric] ac_simps)
      moreover have "rehash_loop (Suc n) visits d = rehash_loop n v ?d"
        using False guard t(1) j(1) m(1) jl by simp
      moreover have "rehashidx d < rehashidx d'" using r(6) j(3) i(1) by simp
      ultimately show ?thesis
        using r(1-4,7) t False moved_trans [OF _ r(5)]
        by (intro exI [of _ r] exI [of _ d']) (auto simp: buckets_of_def)
    qed
  qed
qed

lemma rehash_done_ok:
  assumes "struct_ok d" "dictIsRehashing d" "ht_used d 0 = 0"
  shows "struct_ok (rehash_done d) \<and> moved d (rehash_done d) \<and> \<not> dictIsRehashing (rehash_done d)"
proof -
  obtain t0 t1 where "ht_table d 0 = Some t0" "ht_table d 1 = Some t1"
    using assms by (auto simp: struct_ok_def rehash_ok_def dictIsRehashing_def)
  with assms show ?thesis
    by (auto simp: struct_ok_def rehash_ok_def dictIsRehashing_def ht_ok_def rehash_done_def
        dictReset_def moved_def entries_def buckets_of_def)
qed

lemma dictRehash_ok:
  assumes "struct_ok d"
  shows "\<exists>d' r. dictRehash d n = Some (d', r) \<and> struct_ok d' \<and> moved d d' \<and>
           (r = 0 \<longleftrightarrow> \<not> dictIsRehashing d') \<and> (r = 0 \<or> r = 1) \<and>
           (dictIsRehashing d' \<longrightarrow> dictIsRehashing d) \<and>
           (0 < n \<and> dictIsRehashing d' \<longrightarrow> rehashidx d < rehashidx d') \<and>
           (dictIsRehashing d' \<longrightarrow> length (buckets_of d' 0) = length (buckets_of d 0))"
proof (cases "dictIsRehashing d \<and> 0 < n")
  case True
  then obtain r d' where r: "rehash_loop n (int n * 10) d = Some r" "r = Inl d' \<or> r = Inr d'"
    "struct_ok d'" "dictIsRehashing d'" "moved d d'"
    "0 < n \<and> 0 < ht_used d 0 \<longrightarrow> rehashidx d < rehashidx d'"
    "(0 < n \<and> 0 < ht_used d 0) \<or> r = Inr d \<and> d' = d"
    "length (buckets_of d' 0) = length (buckets_of d 0)"
    using rehash_loop_ok [OF assms, of "int n * 10" n] by auto
  show ?thesis
    using r(1-8) True rehash_done_ok [OF r(3,4)] moved_trans [OF r(5)]
    by (cases "ht_used d' 0 = 0") (auto simp: dictRehash_def)
next
  case False
  then show ?thesis using assms rehash_done_ok [OF assms] by (auto simp: dictRehash_def)
qed

lemma rehash_step_ok:
  assumes "struct_ok d"
  shows "\<exists>d'. rehash_step_if_rehashing d = Some d' \<and> struct_ok d' \<and> moved d d' \<and>
           (\<not> dictIsRehashing d \<longrightarrow> d' = d)"
  using dictRehash_ok [OF assms, of 1] assms
  by (auto simp: rehash_step_if_rehashing_def dictRehashStep_def)

subsection \<open>The contract of a key type\<close>

text \<open>What the dictionary asks of the callbacks of its \<open>dictType\<close>: on the keys the caller uses, being
  the same pointer or comparing equal is an equivalence, equivalent keys have one hash, and
  \<open>keyDup\<close> answers an equivalent key.\<close>

definition type_eq :: "('k, 'v) dictType \<Rightarrow> 'k \<Rightarrow> 'k \<Rightarrow> bool" where
  "type_eq T k k' \<longleftrightarrow> k = k' \<or> (case keyCompare T of Some f \<Rightarrow> f k k' | None \<Rightarrow> k = k')"

definition dup_key :: "('k, 'v) dictType \<Rightarrow> 'k \<Rightarrow> 'k" where
  "dup_key T k = (case keyDup T of Some f \<Rightarrow> f k | None \<Rightarrow> k)"

definition dup_val :: "('k, 'v) dictType \<Rightarrow> 'v \<Rightarrow> 'v" where
  "dup_val T v = (case valDup T of Some f \<Rightarrow> f v | None \<Rightarrow> v)"

lemma key_eq_type: "key_eq d k k' = type_eq (dtype d) k k'"
  by (simp add: key_eq_def type_eq_def dictCompareKeys_def)

lemma moved_set: "moved d d' \<Longrightarrow> set (entries d') = set (entries d)"
  by (metis moved_def mset_eq_setD)

lemma moved_keys_ok:
  assumes "moved d d'" "keys_ok ok d"
  shows "keys_ok ok d'"
proof -
  have "mset (map eaddr (entries d')) = mset (map eaddr (entries d))"
    using assms(1) by (simp add: moved_def)
  then have "distinct (map eaddr (entries d')) = distinct (map eaddr (entries d))"
    by (rule mset_eq_imp_distinct_iff)
  with assms moved_set [OF assms(1)] show ?thesis
    by (simp add: keys_ok_def key_eq_type moved_def)
qed

lemma dict_inv_struct: "dict_inv ok d \<longleftrightarrow> struct_ok d \<and> keys_ok ok d"
  by (auto simp: dict_inv_def struct_ok_def)

subsection \<open>Expansion\<close>

lemma dictSize_entries: "struct_ok d \<Longrightarrow> dictSize d = length (entries d)"
  by (auto simp: struct_ok_def ht_ok_def dictSize_def entries_def buckets_of_def split: option.splits)

lemma moved_size: "moved d d' \<Longrightarrow> struct_ok d \<Longrightarrow> struct_ok d' \<Longrightarrow> dictSize d' = dictSize d"
  by (metis dictSize_entries moved_def mset_eq_length)

lemma dictExpand_ok:
  assumes "struct_ok d" "\<not> dictIsRehashing d" "ht_used d 0 \<le> sz" "sz \<le> 2 ^ 60"
    "calloc_addr env = Some a" "ht_table d 0 = None \<or> DICTHT_SIZE (ht_size_exp d 0) < sz"
  shows "\<exists>d'. dictExpand env d sz = Some (d', DICT_OK) \<and> struct_ok d' \<and> moved d d' \<and>
           ht_table d' 0 \<noteq> None"
proof -
  let ?e = "dictNextExp sz"
  have "sz < LONG_MAX" using assms(4) by (simp add: LONG_MAX_def)
  then have e: "sz \<le> 2 ^ ?e" "?e \<le> 60"
    using nextExp_loop_least [of 2 60 sz] assms(4) by (simp_all add: dictNextExp_def DICT_HT_INITIAL_EXP_def)
  have "(2::nat) ^ ?e * 8 = 2 ^ (?e + 3)" by (simp add: power_add)
  also have "\<dots> < 2 ^ 64" using e(2) by (intro power_strict_increasing) auto
  finally have wrap: "(2::nat) ^ ?e * 8 mod 2 ^ 64 = 2 ^ ?e * 8" by (rule mod_less)
  have fresh: "int ?e \<noteq> ht_size_exp d 0"
  proof
    assume eq: "int ?e = ht_size_exp d 0"
    then have "DICTHT_SIZE (ht_size_exp d 0) = 2 ^ ?e" by (simp flip: eq add: DICTHT_SIZE_def)
    moreover have "ht_table d 0 \<noteq> None" using assms(1) eq by (auto simp: struct_ok_def ht_ok_def split: option.splits)
    ultimately show False using assms(6) e(1) by simp
  qed
  have tab: "table_ok h (int ?e) (replicate (2 ^ ?e) [])" for h :: "_ \<Rightarrow> u64"
    using e(2) by (intro table_ok_empty) simp
  show ?thesis
    using assms e fresh wrap tab
    by (auto simp: dictExpand_def dictExpand_ex_def Let_def struct_ok_def ht_ok_def rehash_ok_def
        dictIsRehashing_def moved_def entries_def buckets_of_def split: option.splits)
qed

lemma dictExpandIfNeeded_ok:
  assumes "struct_ok d" "dictSize d < 2 ^ 60" "calloc_addr env = Some a"
  shows "\<exists>d'. dictExpandIfNeeded env d = Some (d', DICT_OK) \<and> struct_ok d' \<and> moved d d' \<and>
           ht_table d' 0 \<noteq> None"
proof -
  have used: "ht_used d 0 < 2 ^ 60" using assms(2) by (simp add: dictSize_def)
  consider "dictIsRehashing d" | "\<not> dictIsRehashing d" "ht_table d 0 = None"
    | "\<not> dictIsRehashing d" "ht_table d 0 \<noteq> None" by blast
  then show ?thesis
  proof cases
    case 1
    then show ?thesis using assms
      by (auto simp: dictExpandIfNeeded_def struct_ok_def rehash_ok_def dictIsRehashing_def)
  next
    case 2
    then have "DICTHT_SIZE (ht_size_exp d 0) = 0" "ht_used d 0 = 0"
      using assms(1) by (auto simp: struct_ok_def ht_ok_def DICTHT_SIZE_def)
    with 2 assms dictExpand_ok [of d 4 env a] show ?thesis
      by (simp add: dictExpandIfNeeded_def DICT_HT_INITIAL_SIZE_def DICT_HT_INITIAL_EXP_def)
  next
    case 3
    then have "0 < DICTHT_SIZE (ht_size_exp d 0)"
      using assms(1) by (auto simp: struct_ok_def ht_ok_def DICTHT_SIZE_def table_ok_def)
    with 3 assms used dictExpand_ok [of d "ht_used d 0 + 1" env a] show ?thesis
      by (auto simp: dictExpandIfNeeded_def)
  qed
qed


subsection \<open>Linking an entry, writing through an entry pointer\<close>

text \<open>The table new entries go to.\<close>

definition add_table :: "('k, 'v) dict \<Rightarrow> nat" where
  "add_table d = (if dictIsRehashing d then 1 else 0)"

definition linked :: "('k, 'v) dict \<Rightarrow> ('k, 'v) dictEntry \<Rightarrow> ('k, 'v) dict \<Rightarrow> bool" where
  "linked d e d' \<longleftrightarrow> mset (entries d') = add_mset e (mset (entries d)) \<and> dtype d' = dtype d \<and>
     pauserehash d' = pauserehash d \<and> dlog d' = dlog d"

lemma push_entry_ok:
  assumes "struct_ok d" "ht_table d (add_table d) \<noteq> None"
    "h = bucket_idx d (add_table d) (dictHashKey d (ekey e))"
  shows "\<exists>d'. push_entry d (add_table d) h e = Some d' \<and>
           (let d'' = d'\<lparr>ht_used := (ht_used d')(add_table d := ht_used d' (add_table d) + 1)\<rparr>
            in struct_ok d'' \<and> linked d e d'' \<and> dictIsRehashing d'' = dictIsRehashing d)"
proof -
  obtain t where t: "ht_table d (add_table d) = Some t" using assms(2) by blast
  have ok: "ht_ok d (add_table d)" using assms(1) by (auto simp: struct_ok_def add_table_def)
  then have tab: "table_ok (dictHashKey d) (ht_size_exp d (add_table d)) t"
    "ht_used d (add_table d) = length (concat t)"
    using t by (simp_all add: ht_ok_def)
  have h: "h < length t" using table_ok_idx [OF tab(1)] assms(3) by (simp add: bucket_idx_def)
  let ?t = "t[h := e # t ! h]"
  have tab': "table_ok (dictHashKey d) (ht_size_exp d (add_table d)) ?t"
    using tab(1) assms(3) by (intro table_ok_push) (simp_all add: bucket_idx_def)
  have m: "mset (concat ?t) = add_mset e (mset (concat t))"
    using mset_concat_update [OF h, of "e # t ! h"] by simp
  have l: "length (concat ?t) = length (concat t) + 1"
    using m mset_eq_length [of "concat ?t" "e # concat t"] by simp
  show ?thesis
    using t h tab(2) tab' m l assms(1)
    by (cases "dictIsRehashing d")
       (auto simp: push_entry_def Let_def add_table_def struct_ok_def ht_ok_def rehash_ok_def
         dictIsRehashing_def linked_def entries_def buckets_of_def)
qed

definition overwrite :: "addr \<Rightarrow> ('k, 'v) dictEntry \<Rightarrow> ('k, 'v) dictEntry \<Rightarrow> ('k, 'v) dictEntry" where
  "overwrite a e' e = (if eaddr e = a then e' else e)"

lemma buckets_of_map:
  "buckets_of (d\<lparr>ht_table := (\<lambda>i. map_option (map (map f)) (ht_table d i))\<rparr>) i = map (map f) (buckets_of d i)"
  by (simp add: buckets_of_def split: option.splits)

lemma deref_entryI:
  assumes "distinct (map eaddr (entries d))" "e \<in> set (entries d)" "eaddr e = a"
  shows "deref_entry d a = Some e"
  unfolding deref_entry_def
  using assms by (intro find_unique) (auto simp: distinct_map inj_on_def)

lemma table_ok_map:
  assumes "table_ok hash e t" "\<forall>x \<in> set (concat t). ekey (f x) = ekey x"
  shows "table_ok hash e (map (map f) t)"
proof -
  have "ekey (f x) = ekey x" if "b < length t" "x \<in> set (t ! b)" for b x
    using assms(2) nth_concat_subset [OF that(1)] that(2) by blast
  with assms(1) show ?thesis by (auto simp: table_ok_def)
qed

lemma struct_ok_map:
  assumes "struct_ok d" "\<forall>x \<in> set (entries d). ekey (f x) = ekey x"
  shows "struct_ok (d\<lparr>ht_table := (\<lambda>i. map_option (map (map f)) (ht_table d i))\<rparr>)"
proof -
  have len: "length (concat (map (map f) t)) = length (concat t)" for t
    by (simp add: length_concat comp_def)
  have "ht_ok (d\<lparr>ht_table := (\<lambda>i. map_option (map (map f)) (ht_table d i))\<rparr>) i"
    if "i = 0 \<or> i = 1" for i
  proof (cases "ht_table d i")
    case None
    then show ?thesis using assms(1) that by (auto simp: struct_ok_def ht_ok_def)
  next
    case (Some t)
    then have "set (concat t) \<subseteq> set (entries d)"
      using that by (auto simp: entries_def buckets_of_def)
    with assms(2) have "\<forall>x \<in> set (concat t). ekey (f x) = ekey x" by blast
    then show ?thesis
      using assms(1) that Some table_ok_map [of "dictHashKey d" "ht_size_exp d i" t f]
      by (auto simp: struct_ok_def ht_ok_def len)
  qed
  moreover have "rehash_ok (d\<lparr>ht_table := (\<lambda>i. map_option (map (map f)) (ht_table d i))\<rparr>)"
    using assms(1) by (auto simp: struct_ok_def rehash_ok_def buckets_of_map)
  ultimately show ?thesis by (simp add: struct_ok_def)
qed

lemma write_entry_ok:
  assumes "struct_ok d" "distinct (map eaddr (entries d))" "e \<in> set (entries d)" "ekey e' = ekey e"
  shows "\<exists>d'. write_entry d (eaddr e) e' = Some d' \<and> struct_ok d' \<and>
           entries d' = map (overwrite (eaddr e) e') (entries d) \<and> dtype d' = dtype d \<and>
           pauserehash d' = pauserehash d \<and> dlog d' = dlog d"
proof -
  have "\<forall>x \<in> set (entries d). ekey (overwrite (eaddr e) e' x) = ekey x"
    using assms(2-4) by (auto simp: overwrite_def distinct_map inj_on_def)
  note ok = struct_ok_map [OF assms(1) this]
  show ?thesis
    using ok deref_entryI [OF assms(2,3) refl]
    by (simp add: write_entry_def overwrite_def [abs_def] entries_def buckets_of_map map_concat)
qed


locale dict_type =
  fixes T :: "('k, 'v) dictType" and ok :: "'k \<Rightarrow> bool"
  assumes eq_sym: "ok k \<Longrightarrow> ok k' \<Longrightarrow> type_eq T k k' \<Longrightarrow> type_eq T k' k"
    and eq_trans: "ok k \<Longrightarrow> ok k' \<Longrightarrow> ok k'' \<Longrightarrow> type_eq T k k' \<Longrightarrow> type_eq T k' k'' \<Longrightarrow> type_eq T k k''"
    and eq_hash: "ok k \<Longrightarrow> ok k' \<Longrightarrow> type_eq T k k' \<Longrightarrow> hashFunction T k = hashFunction T k'"
    and dup_ok: "ok k \<Longrightarrow> ok (dup_key T k) \<and> type_eq T k (dup_key T k)"
begin

lemma map_SomeI:
  assumes "dtype d = T" "keys_ok ok d" "ok k" "e \<in> set (entries d)" "type_eq T k (ekey e)"
  shows "find (\<lambda>e. key_eq d k (ekey e)) (entries d) = Some e"
proof (rule find_unique)
  fix y
  assume y: "y \<in> set (entries d)" "key_eq d k (ekey y)"
  then have "ok (ekey y)" "ok (ekey e)" using assms by (auto simp: keys_ok_def)
  moreover have "type_eq T k (ekey y)" using y(2) assms(1) by (simp add: key_eq_type)
  ultimately have "type_eq T (ekey y) (ekey e)"
    using assms(3,5) eq_sym eq_trans by blast
  then show "y = e" using assms y(1) by (auto simp: keys_ok_def key_eq_type)
qed (use assms in \<open>simp_all add: key_eq_type\<close>)

lemma map_iff:
  assumes "dtype d = T" "keys_ok ok d" "ok k"
  shows "dict_map d k = Some v \<longleftrightarrow> (\<exists>e \<in> set (entries d). type_eq T k (ekey e) \<and> eval e = v)"
  using assms map_SomeI [OF assms]
  by (auto simp: dict_map_def key_eq_type dest!: find_SomeD)

lemma moved_map:
  assumes "dtype d = T" "keys_ok ok d" "ok k" "moved d d'"
  shows "dict_map d' k = dict_map d k"
proof -
  have "dtype d' = T" using assms by (simp add: moved_def)
  moreover have "keys_ok ok d'" using assms moved_keys_ok by blast
  ultimately show ?thesis
    using map_iff [of d' k] map_iff [of d k] assms moved_set [OF assms(4)]
    by (metis not_None_eq)
qed

text \<open>The chain a key hashes to holds every entry with an equivalent key.\<close>

lemma bucket_complete:
  assumes "dtype d = T" "ht_ok d i" "ht_table d i = Some t" "ok k"
    "e \<in> set (concat t)" "ok (ekey e)" "type_eq T k (ekey e)"
  shows "e \<in> set (t ! bucket_idx d i (dictHashKey d k))"
proof -
  have tab: "table_ok (dictHashKey d) (ht_size_exp d i) t" using assms by (simp add: ht_ok_def)
  from assms(5) obtain b where b: "b < length t" "e \<in> set (t ! b)"
    using concat_nth_ex by fast
  with tab have "unat (dictHashKey d (ekey e) AND DICTHT_SIZE_MASK (ht_size_exp d i)) = b"
    by (simp add: table_ok_def)
  moreover have "dictHashKey d (ekey e) = dictHashKey d k"
    using eq_hash [OF assms(4,6,7)] assms(1) by (simp add: dictHashKey_def)
  ultimately show ?thesis using b by (simp add: bucket_idx_def)
qed

lemma chain_find_table:
  assumes "dtype d = T" "ht_ok d i" "ht_table d i = Some t" "ok k" "\<forall>e \<in> set (concat t). ok (ekey e)"
  shows "chain_find d k (t ! bucket_idx d i (dictHashKey d k)) = None \<longleftrightarrow>
         (\<forall>e \<in> set (concat t). \<not> type_eq T k (ekey e))"
proof -
  have "bucket_idx d i (dictHashKey d k) < length t"
    using assms(2,3) table_ok_idx by (auto simp: ht_ok_def bucket_idx_def)
  then have sub: "set (t ! bucket_idx d i (dictHashKey d k)) \<subseteq> set (concat t)"
    by (rule nth_concat_subset)
  show ?thesis
    unfolding chain_find_def find_None_iff key_eq_type assms(1)
    using bucket_complete [OF assms(1-4)] assms(5) sub by blast
qed

lemma dictKeyIndex_ok:
  assumes "dtype d = T" "struct_ok d" "keys_ok ok d" "ok k" "dictSize d < 2 ^ 60"
    "calloc_addr env = Some a"
  shows "\<exists>d' r. dictKeyIndex env d k (dictHashKey d k) = Some (d', r) \<and> struct_ok d' \<and> moved d d' \<and>
     ht_table d' (add_table d') \<noteq> None \<and>
     ((\<exists>e \<in> set (entries d'). type_eq T k (ekey e) \<and> r = Inl (Some (eaddr e))) \<or>
      (\<forall>e \<in> set (entries d'). \<not> type_eq T k (ekey e)) \<and>
        r = Inr (bucket_idx d' (add_table d') (dictHashKey d' k)))"
proof -
  obtain d' where d': "dictExpandIfNeeded env d = Some (d', DICT_OK)" "struct_ok d'" "moved d d'"
    "ht_table d' 0 \<noteq> None"
    using dictExpandIfNeeded_ok [OF assms(2,5,6)] by blast
  obtain t0 where t0: "ht_table d' 0 = Some t0" using d'(4) by blast
  have T: "dtype d' = T" and hash: "dictHashKey d' = dictHashKey d"
    using d'(3) assms(1) by (simp_all add: moved_def dictHashKey_dtype)
  have oks: "\<forall>e \<in> set (entries d'). ok (ekey e)"
    using moved_keys_ok [OF d'(3) assms(3)] by (simp add: keys_ok_def)
  have bound: "bucket_idx d' i (dictHashKey d' k) < length t"
    if "ht_table d' i = Some t" "i = 0 \<or> i = 1" for i t
    using d'(2) that table_ok_idx by (fastforce simp: struct_ok_def ht_ok_def bucket_idx_def)
  have found: "e \<in> set (concat t) \<and> type_eq T k (ekey e)"
    if "chain_find d' k (t ! bucket_idx d' i (dictHashKey d' k)) = Some e" "ht_table d' i = Some t"
      "i = 0 \<or> i = 1" for i t e
    using find_SomeD [OF that(1) [unfolded chain_find_def]] nth_concat_subset [OF bound [OF that(2,3)]] T
    by (auto simp: key_eq_type)
  have absent: "chain_find d' k (t ! bucket_idx d' i (dictHashKey d' k)) = None \<longleftrightarrow>
         (\<forall>e \<in> set (concat t). \<not> type_eq T k (ekey e))"
    if "ht_table d' i = Some t" "i = 0 \<or> i = 1" for i t
  proof (rule chain_find_table [OF T _ that(1) assms(4)])
    show "ht_ok d' i" using d'(2) that(2) by (auto simp: struct_ok_def)
    have "set (concat t) \<subseteq> set (entries d')" using that by (auto simp: entries_def buckets_of_def)
    then show "\<forall>e \<in> set (concat t). ok (ekey e)" using oks by blast
  qed
  have rd: "read_bucket d' i (bucket_idx d' i (dictHashKey d' k)) = Some (t ! bucket_idx d' i (dictHashKey d' k))"
    if "ht_table d' i = Some t" "i = 0 \<or> i = 1" for i t
    using bound [OF that] that(1) by (simp add: read_bucket_def)
  have DE: "DICT_OK \<noteq> DICT_ERR" by (simp add: DICT_OK_def DICT_ERR_def)
  show ?thesis
  proof (cases "dictIsRehashing d'")
    case False
    then have "entries d' = concat t0"
      using d'(2) t0 by (auto simp: struct_ok_def rehash_ok_def dictIsRehashing_def entries_def buckets_of_def)
    then show ?thesis
      using False d' t0 rd [OF t0] found [OF _ t0] absent [OF t0] DE hash
      by (cases "chain_find d' k (t0 ! bucket_idx d' 0 (dictHashKey d' k))")
         (auto simp: dictKeyIndex_def add_table_def)
  next
    case True
    then obtain t1 where t1: "ht_table d' 1 = Some t1"
      using d'(2) by (auto simp: struct_ok_def rehash_ok_def dictIsRehashing_def)
    have "set (entries d') = set (concat t0) \<union> set (concat t1)"
      using t0 t1 by (simp add: entries_tables)
    then show ?thesis
      using True d' t0 rd [OF t0] found [OF _ t0] absent [OF t0] DE hash
        t1 rd [OF t1] found [OF _ t1] absent [OF t1]
      by (cases "chain_find d' k (t0 ! bucket_idx d' 0 (dictHashKey d' k))";
          cases "chain_find d' k (t1 ! bucket_idx d' 1 (dictHashKey d' k))")
         (auto simp: dictKeyIndex_def add_table_def)
  qed
qed

end

subsection \<open>Insertion and replacement\<close>

lemma linked_set: "linked d e d' \<Longrightarrow> set (entries d') = insert e (set (entries d))"
  by (metis linked_def set_mset_add_mset_insert set_mset_mset)

lemma moved_linked: "moved d d1 \<Longrightarrow> linked d1 e d2 \<Longrightarrow> linked d e d2"
  by (simp add: moved_def linked_def)

lemma linked_size: "struct_ok d \<Longrightarrow> struct_ok d' \<Longrightarrow> linked d e d' \<Longrightarrow> dictSize d' = dictSize d + 1"
  using mset_eq_length [of "entries d'" "e # entries d"] by (simp add: linked_def dictSize_entries)

lemma linked_distinct:
  assumes "linked d e d'" "distinct (map eaddr (entries d))" "eaddr e \<notin> eaddr ` set (entries d)"
  shows "distinct (map eaddr (entries d'))"
proof -
  have "mset (map eaddr (entries d')) = mset (map eaddr (e # entries d))"
    using assms(1) by (simp add: linked_def)
  then have "distinct (map eaddr (entries d')) = distinct (map eaddr (e # entries d))"
    by (rule mset_eq_imp_distinct_iff)
  with assms(2,3) show ?thesis by simp
qed

lemma set_val_at_new:
  assumes "struct_ok d'" "linked d e d'" "distinct (map eaddr (entries d'))"
    "eaddr e \<notin> eaddr ` set (entries d)"
  shows "\<exists>d''. set_val_at d' (eaddr e) v = Some d'' \<and> struct_ok d'' \<and>
           linked d (e\<lparr>eval := dup_val (dtype d) v\<rparr>) d''"
proof -
  let ?e = "e\<lparr>eval := dup_val (dtype d) v\<rparr>"
  have e: "e \<in> set (entries d')" using linked_set [OF assms(2)] by simp
  have "dictSetVal d' e v = ?e"
    using assms(2) by (simp add: dictSetVal_def dup_val_def linked_def split: option.splits)
  moreover obtain d'' where d'': "write_entry d' (eaddr e) ?e = Some d''" "struct_ok d''"
      "entries d'' = map (overwrite (eaddr e) ?e) (entries d')" "dtype d'' = dtype d'"
      "pauserehash d'' = pauserehash d'" "dlog d'' = dlog d'"
    using write_entry_ok [OF assms(1,3) e, of ?e] by auto
  ultimately have "set_val_at d' (eaddr e) v = Some d''"
    using deref_entryI [OF assms(3) e refl] by (simp add: set_val_at_def)
  moreover have "eaddr z \<noteq> eaddr e" if "z \<in> set (entries d)" for z
    using assms(4) that by (metis imageI)
  then have "image_mset (overwrite (eaddr e) ?e) (mset (entries d)) = mset (entries d)"
    by (intro multiset.map_ident_strong) (simp add: overwrite_def)
  then have "linked d ?e d''"
    using d'' assms(2) by (simp add: linked_def overwrite_def)
  ultimately show ?thesis using d''(2) by blast
qed

context dict_type
begin

lemma linked_keys_ok:
  assumes "dtype d = T" "keys_ok ok d" "linked d e d'" "ok k" "ekey e = dup_key T k"
    "\<forall>x \<in> set (entries d). \<not> type_eq T k (ekey x)" "eaddr e \<notin> eaddr ` set (entries d)"
  shows "keys_ok ok d'"
proof -
  have T: "dtype d' = T" using assms(1,3) by (simp add: linked_def)
  have k: "ok (ekey e)" "type_eq T k (ekey e)" using dup_ok [OF assms(4)] assms(5) by simp_all
  have no: "\<not> type_eq T (ekey e) (ekey x) \<and> \<not> type_eq T (ekey x) (ekey e)" if "x \<in> set (entries d)" for x
  proof -
    have "ok (ekey x)" using assms(2) that by (simp add: keys_ok_def)
    then show ?thesis using eq_trans eq_sym k assms(4,6) that by meson
  qed
  show ?thesis
    using linked_set [OF assms(3)] linked_distinct [OF assms(3) _ assms(7)] assms(1,2) no k(1) T
    by (auto simp: keys_ok_def key_eq_type)
qed

lemma linked_map:
  assumes "dtype d = T" "keys_ok ok d" "keys_ok ok d'" "linked d e d'" "ok k" "ekey e = dup_key T k"
    "\<forall>x \<in> set (entries d). \<not> type_eq T k (ekey x)" "ok k'"
  shows "dict_map d' k' = (if type_eq T k k' then Some (eval e) else dict_map d k')"
proof -
  have T: "dtype d' = T" using assms(1,4) by (simp add: linked_def)
  have k: "ok (ekey e)" "type_eq T k (ekey e)" using dup_ok [OF assms(5)] assms(6) by simp_all
  have "type_eq T k' (ekey e) \<longleftrightarrow> type_eq T k k'"
    using eq_trans eq_sym k assms(5,8) by meson
  note key = this
  show ?thesis
  proof (cases "type_eq T k k'")
    case True
    then have "dict_map d' k' = Some (eval e)"
      unfolding map_iff [OF T assms(3,8)] linked_set [OF assms(4)] using key by blast
    with True show ?thesis by simp
  next
    case False
    then have "dict_map d' k' = Some v \<longleftrightarrow> dict_map d k' = Some v" for v
      unfolding map_iff [OF T assms(3,8)] map_iff [OF assms(1,2,8)] linked_set [OF assms(4)]
      using key by blast
    with False show ?thesis by (metis not_None_eq)
  qed
qed

lemma dictAddRaw_ok:
  assumes "dtype d = T" "dict_inv ok d" "ok k" "dictSize d < 2 ^ 60" "calloc_addr env \<noteq> None"
    "zmalloc_addr env \<notin> eaddr ` set (entries d)"
  shows "(\<exists>d' e. dictAddRaw env d k = Some (d', None, Some (eaddr e)) \<and> struct_ok d' \<and> moved d d' \<and>
            e \<in> set (entries d') \<and> type_eq T k (ekey e)) \<or>
         (\<exists>d' e. dictAddRaw env d k = Some (d', Some (eaddr e), None) \<and> struct_ok d' \<and> linked d e d' \<and>
            (\<forall>x \<in> set (entries d). \<not> type_eq T k (ekey x)) \<and>
            e = \<lparr>eaddr = zmalloc_addr env, ekey = dup_key T k, eval = junk env,
                 metadata = replicate (dictMetadataSize d) 0\<rparr>)"
proof -
  have st: "struct_ok d" "keys_ok ok d" using assms(2) by (simp_all add: dict_inv_struct)
  obtain d1 where d1: "rehash_step_if_rehashing d = Some d1" "struct_ok d1" "moved d d1"
    using rehash_step_ok [OF st(1)] by blast
  have T1: "dtype d1 = T" using d1(3) assms(1) by (simp add: moved_def)
  have k1: "keys_ok ok d1" by (rule moved_keys_ok [OF d1(3) st(2)])
  have size: "dictSize d1 < 2 ^ 60" using moved_size [OF d1(3) st(1) d1(2)] assms(4) by simp
  obtain a where a: "calloc_addr env = Some a" using assms(5) by blast
  obtain d2 r where d2: "dictKeyIndex env d1 k (dictHashKey d1 k) = Some (d2, r)" "struct_ok d2"
    "moved d1 d2" "ht_table d2 (add_table d2) \<noteq> None"
    and r: "(\<exists>e \<in> set (entries d2). type_eq T k (ekey e) \<and> r = Inl (Some (eaddr e))) \<or>
      (\<forall>e \<in> set (entries d2). \<not> type_eq T k (ekey e)) \<and>
        r = Inr (bucket_idx d2 (add_table d2) (dictHashKey d2 k))"
    using dictKeyIndex_ok [OF T1 d1(2) k1 assms(3) size a] by blast
  have m: "moved d d2" using moved_trans [OF d1(3) d2(3)] .
  have T2: "dtype d2 = T" using m assms(1) by (simp add: moved_def)
  from r show ?thesis
  proof (elim disjE bexE conjE)
    fix e assume "e \<in> set (entries d2)" "type_eq T k (ekey e)" "r = Inl (Some (eaddr e))"
    then show ?thesis using d1 d2 m by (auto simp: dictAddRaw_def)
  next
    assume no: "\<forall>e \<in> set (entries d2). \<not> type_eq T k (ekey e)"
      and r: "r = Inr (bucket_idx d2 (add_table d2) (dictHashKey d2 k))"
    let ?e = "\<lparr>eaddr = zmalloc_addr env, ekey = dup_key T k, eval = junk env,
                 metadata = replicate (dictMetadataSize d) 0\<rparr>"
    have e: "dictSetKey d2 \<lparr>eaddr = zmalloc_addr env, ekey = k, eval = junk env,
                                    metadata = replicate (dictMetadataSize d2) 0\<rparr> k = ?e"
      using T2 assms(1) by (simp add: dictSetKey_def dup_key_def dictMetadataSize_def split: option.splits)
    have "hashFunction T k = hashFunction T (dup_key T k)"
      using dup_ok [OF assms(3)] eq_hash assms(3) by blast
    then have "bucket_idx d2 (add_table d2) (dictHashKey d2 k) =
        bucket_idx d2 (add_table d2) (dictHashKey d2 (ekey ?e))"
      by (simp add: dictHashKey_def T2)
    from push_entry_ok [OF d2(2,4) this] obtain d3 where
      d3: "push_entry d2 (add_table d2) (bucket_idx d2 (add_table d2) (dictHashKey d2 k)) ?e = Some d3"
      and ok3: "struct_ok (d3\<lparr>ht_used := (ht_used d3)(add_table d2 := ht_used d3 (add_table d2) + 1)\<rparr>)"
        "linked d2 ?e (d3\<lparr>ht_used := (ht_used d3)(add_table d2 := ht_used d3 (add_table d2) + 1)\<rparr>)"
      by (auto simp: Let_def)
    have "dictAddRaw env d k = Some (d3\<lparr>ht_used := (ht_used d3)(add_table d2 := ht_used d3 (add_table d2) + 1)\<rparr>,
            Some (eaddr ?e), None)"
      using d1(1) d2(1) d3 r e by (simp add: dictAddRaw_def Let_def add_table_def del: fun_upd_apply)
    moreover have "\<forall>x \<in> set (entries d). \<not> type_eq T k (ekey x)" using no moved_set [OF m] by simp
    ultimately show ?thesis using ok3 moved_linked [OF m] by blast
  qed
qed

lemma dictAdd_ok:
  assumes "dtype d = T" "dict_inv ok d" "ok k" "dictSize d < 2 ^ 60" "calloc_addr env \<noteq> None"
    "zmalloc_addr env \<notin> eaddr ` set (entries d)"
  shows "\<exists>d' r. dictAdd env d k v = Some (d', r) \<and> dict_inv ok d' \<and> dtype d' = T \<and> dlog d' = dlog d \<and>
     r = (if dict_map d k = None then DICT_OK else DICT_ERR) \<and>
     dictSize d' = (if dict_map d k = None then dictSize d + 1 else dictSize d) \<and>
     (\<forall>k'. ok k' \<longrightarrow> dict_map d' k' =
        (if dict_map d k = None \<and> type_eq T k k' then Some (dup_val T v) else dict_map d k'))"
proof -
  have st: "struct_ok d" "keys_ok ok d" using assms(2) by (simp_all add: dict_inv_struct)
  from dictAddRaw_ok [OF assms] show ?thesis
  proof (elim disjE exE conjE)
    fix d' e
    assume raw: "dictAddRaw env d k = Some (d', None, Some (eaddr e))" and d': "struct_ok d'" "moved d d'"
      and e: "e \<in> set (entries d')" "type_eq T k (ekey e)"
    have "dict_map d k \<noteq> None"
      using map_iff [OF assms(1) st(2) assms(3)] e moved_set [OF d'(2)] by force
    then show ?thesis
      using raw d' moved_keys_ok [OF d'(2) st(2)] moved_map [OF assms(1) st(2) _ d'(2)] assms(1)
        moved_size [OF d'(2) st(1) d'(1)]
      by (auto simp: dictAdd_def dict_inv_struct moved_def)
  next
    fix d' e
    assume raw: "dictAddRaw env d k = Some (d', Some (eaddr e), None)" and d': "struct_ok d'" "linked d e d'"
      and no: "\<forall>x \<in> set (entries d). \<not> type_eq T k (ekey x)"
      and e: "e = \<lparr>eaddr = zmalloc_addr env, ekey = dup_key T k, eval = junk env,
                 metadata = replicate (dictMetadataSize d) 0\<rparr>"
    have none: "dict_map d k = None"
      using map_iff [OF assms(1) st(2) assms(3)] no by (metis not_None_eq)
    have fresh: "eaddr e \<notin> eaddr ` set (entries d)" using e assms(6) by simp
    have "distinct (map eaddr (entries d'))"
      using linked_distinct [OF d'(2) _ fresh] st(2) by (simp add: keys_ok_def)
    from set_val_at_new [OF d' this fresh, of v] obtain d'' where
      d'': "set_val_at d' (eaddr e) v = Some d''" "struct_ok d''"
        "linked d (e\<lparr>eval := dup_val (dtype d) v\<rparr>) d''" by blast
    have keys: "keys_ok ok d''"
      using linked_keys_ok [OF assms(1) st(2) d''(3) assms(3) _ no] fresh e by simp
    show ?thesis
      using raw d''(1,2) keys none linked_size [OF st(1) d''(2,3)]
        linked_map [OF assms(1) st(2) keys d''(3) assms(3) _ no] d''(3) e assms(1)
      by (auto simp: dictAdd_def dict_inv_struct linked_def)
  qed
qed

end

lemma struct_ok_upd [simp]:
  "struct_ok (d\<lparr>dlog := x\<rparr>) = struct_ok d"
  "struct_ok (d\<lparr>pauserehash := y\<rparr>) = struct_ok d"
  by (simp_all add: struct_ok_def ht_ok_def rehash_ok_def split: option.splits)

lemma set_val_at_old:
  assumes "struct_ok d" "distinct (map eaddr (entries d))" "e \<in> set (entries d)"
  shows "\<exists>d'. set_val_at d (eaddr e) v = Some d' \<and> struct_ok d' \<and>
           entries d' = map (overwrite (eaddr e) (e\<lparr>eval := dup_val (dtype d) v\<rparr>)) (entries d) \<and>
           dtype d' = dtype d \<and> dlog d' = dlog d"
proof -
  have "dictSetVal d e v = e\<lparr>eval := dup_val (dtype d) v\<rparr>"
    by (simp add: dictSetVal_def dup_val_def split: option.splits)
  then show ?thesis
    using write_entry_ok [OF assms, of "e\<lparr>eval := dup_val (dtype d) v\<rparr>"]
      deref_entryI [OF assms(2,3) refl]
    by (auto simp: set_val_at_def)
qed

lemma overwrite_set:
  assumes "distinct (map eaddr xs)" "e \<in> set xs" "eaddr e' = eaddr e"
  shows "set (map (overwrite (eaddr e) e') xs) = insert e' (set xs - {e})"
proof -
  have "eaddr x = eaddr e \<longleftrightarrow> x = e" if "x \<in> set xs" for x
    using assms(1,2) that by (auto simp: distinct_map inj_on_def)
  then show ?thesis using assms(2) by (auto simp: overwrite_def)
qed

lemma overwrite_keys_ok:
  assumes "keys_ok ok d" "e \<in> set (entries d)" "dtype d' = dtype d"
    "entries d' = map (overwrite (eaddr e) (e\<lparr>eval := v\<rparr>)) (entries d)"
  shows "keys_ok ok d'"
proof -
  have dist: "distinct (map eaddr (entries d))" using assms(1) by (simp add: keys_ok_def)
  have "map eaddr (entries d') = map eaddr (entries d)"
    using assms(4) by (simp add: overwrite_def)
  then show ?thesis
    using assms(1-3) overwrite_set [OF dist assms(2), of "e\<lparr>eval := v\<rparr>", folded assms(4)]
    by (auto simp: keys_ok_def key_eq_type)
qed

context dict_type
begin

lemma overwrite_map:
  assumes "dtype d = T" "keys_ok ok d" "e \<in> set (entries d)" "dtype d' = T"
    "entries d' = map (overwrite (eaddr e) (e\<lparr>eval := v\<rparr>)) (entries d)"
    "ok k" "type_eq T k (ekey e)" "ok k'"
  shows "dict_map d' k' = (if type_eq T k k' then Some v else dict_map d k')"
proof -
  have dist: "distinct (map eaddr (entries d))" using assms(2) by (simp add: keys_ok_def)
  have set': "set (entries d') = insert (e\<lparr>eval := v\<rparr>) (set (entries d) - {e})"
    using assms(5) overwrite_set [OF dist assms(3), of "e\<lparr>eval := v\<rparr>"] by simp
  have keys': "keys_ok ok d'" by (rule overwrite_keys_ok [OF assms(2,3) _ assms(5)]) (simp add: assms(1,4))
  have oke: "ok (ekey e)" using assms(2,3) by (simp add: keys_ok_def)
  have key: "type_eq T k' (ekey e) \<longleftrightarrow> type_eq T k k'"
    using eq_trans eq_sym oke assms(6-8) by meson
  show ?thesis
  proof (cases "type_eq T k k'")
    case True
    then have "dict_map d' k' = Some v"
      unfolding map_iff [OF assms(4) keys' assms(8)] set' using key by auto
    with True show ?thesis by simp
  next
    case False
    then have "dict_map d' k' = Some w \<longleftrightarrow> dict_map d k' = Some w" for w
      unfolding map_iff [OF assms(4) keys' assms(8)] map_iff [OF assms(1,2,8)] set' using key by auto
    with False show ?thesis by (metis not_None_eq)
  qed
qed

lemma dictReplace_ok:
  assumes "dtype d = T" "dict_inv ok d" "ok k" "dictSize d < 2 ^ 60" "calloc_addr env \<noteq> None"
    "zmalloc_addr env \<notin> eaddr ` set (entries d)"
  shows "\<exists>d' r. dictReplace env d k v = Some (d', r) \<and> dict_inv ok d' \<and> dtype d' = T \<and>
     r = (if dict_map d k = None then 1 else 0) \<and>
     dlog d' = dlog d @ (case dict_map d k of
        Some old \<Rightarrow> if valDestructor T then [FreeVal old] else [] | None \<Rightarrow> []) \<and>
     (\<forall>k'. ok k' \<longrightarrow> dict_map d' k' = (if type_eq T k k' then Some (dup_val T v) else dict_map d k'))"
proof -
  have st: "struct_ok d" "keys_ok ok d" using assms(2) by (simp_all add: dict_inv_struct)
  from dictAddRaw_ok [OF assms] show ?thesis
  proof (elim disjE exE conjE)
    fix d1 e
    assume raw: "dictAddRaw env d k = Some (d1, None, Some (eaddr e))" and d1: "struct_ok d1" "moved d d1"
      and e: "e \<in> set (entries d1)" "type_eq T k (ekey e)"
    have T1: "dtype d1 = T" and log1: "dlog d1 = dlog d" using d1(2) assms(1) by (simp_all add: moved_def)
    have keys1: "keys_ok ok d1" by (rule moved_keys_ok [OF d1(2) st(2)])
    then have dist: "distinct (map eaddr (entries d1))" by (simp add: keys_ok_def)
    have "dict_map d k = dict_map d1 k"
      using moved_map [OF assms(1) st(2) assms(3) d1(2)] by simp
    also have "\<dots> = Some (eval e)" unfolding map_iff [OF T1 keys1 assms(3)] using e by blast
    finally have old: "dict_map d k = Some (eval e)" .
    obtain d2 where d2: "set_val_at d1 (eaddr e) v = Some d2" "struct_ok d2"
       "entries d2 = map (overwrite (eaddr e) (e\<lparr>eval := dup_val (dtype d1) v\<rparr>)) (entries d1)"
       "dtype d2 = dtype d1" "dlog d2 = dlog d1"
      using set_val_at_old [OF d1(1) dist e(1)] by blast
    let ?d = "dictFreeVal d2 (eval e)"
    have "dictReplace env d k v = Some (?d, 0)"
      using raw d2(1) deref_entryI [OF dist e(1) refl] by (simp add: dictReplace_def)
    moreover have ents: "entries ?d = entries d2" "dtype ?d = T" "struct_ok ?d"
      using T1 d2(2,4) by (simp_all add: dictFreeVal_def)
    moreover have "keys_ok ok ?d"
      using overwrite_keys_ok [OF keys1 e(1), of ?d "dup_val (dtype d1) v"] ents d2(3) T1 by simp
    moreover have "dict_map ?d k' = (if type_eq T k k' then Some (dup_val T v) else dict_map d k')"
      if "ok k'" for k'
      using overwrite_map [where v = "dup_val (dtype d1) v", OF T1 keys1 e(1) ents(2) _ assms(3) e(2) that] ents(1) d2(3) T1
        moved_map [OF assms(1) st(2) that d1(2)] by simp
    ultimately show ?thesis
      using old d2(5) log1 T1 d2(4) by (auto simp: dict_inv_struct dictFreeVal_def)
  next
    fix d' e
    assume raw: "dictAddRaw env d k = Some (d', Some (eaddr e), None)" and d': "struct_ok d'" "linked d e d'"
      and no: "\<forall>x \<in> set (entries d). \<not> type_eq T k (ekey x)"
      and e: "e = \<lparr>eaddr = zmalloc_addr env, ekey = dup_key T k, eval = junk env,
                 metadata = replicate (dictMetadataSize d) 0\<rparr>"
    have none: "dict_map d k = None"
      using map_iff [OF assms(1) st(2) assms(3)] no by (metis not_None_eq)
    obtain d'' where d'': "dictAdd env d k v = Some (d'', DICT_OK)" "dict_inv ok d''" "dtype d'' = T"
      "dlog d'' = dlog d"
      "\<forall>k'. ok k' \<longrightarrow> dict_map d'' k' = (if type_eq T k k' then Some (dup_val T v) else dict_map d k')"
      using dictAdd_ok [OF assms, of v] none by auto
    from d''(1) raw have "dictReplace env d k v = Some (d'', 1)"
      by (auto simp: dictAdd_def dictReplace_def fault_simps)
    then show ?thesis using d'' none by simp
  qed
qed

end

subsection \<open>Deletion\<close>

definition free_log :: "('k, 'v) dictType \<Rightarrow> ('k, 'v) dictEntry \<Rightarrow> ('k, 'v) dtor list" where
  "free_log T he = (if keyDestructor T then [FreeKey (ekey he)] else []) @
     (if valDestructor T then [FreeVal (eval he)] else [])"

lemma dictFreeUnlinkedEntry_log:
  "dictFreeUnlinkedEntry d (Some he) = d\<lparr>dlog := dlog d @ free_log (dtype d) he\<rparr>"
  by (simp add: dictFreeUnlinkedEntry_def dictFreeVal_def dictFreeKey_def free_log_def)

lemma chain_unlink_mset:
  "chain_find d k c = Some he \<Longrightarrow> mset c = add_mset he (mset (chain_unlink d k c))"
  by (induction c) (auto simp: chain_find_def split: if_splits)

lemma delete_in_table_ok:
  assumes "struct_ok d" "ht_table d i = Some t" "i = 0 \<or> i = 1"
    "chain_find d k (t ! bucket_idx d i h) = Some he"
  shows "\<exists>d'. delete_in_table d k nofree h i = Some (d', Some he) \<and> struct_ok d' \<and>
     mset (entries d) = add_mset he (mset (entries d')) \<and> dtype d' = dtype d \<and>
     dlog d' = dlog d @ (if nofree then [] else free_log (dtype d) he)"
proof -
  let ?b = "bucket_idx d i h"
  have "ht_ok d i" using assms(1,3) by (auto simp: struct_ok_def)
  then have tab: "table_ok (dictHashKey d) (ht_size_exp d i) t" "ht_used d i = length (concat t)"
    using assms(2) by (simp_all add: ht_ok_def)
  have b: "?b < length t" using table_ok_idx [OF tab(1)] by (simp add: bucket_idx_def)
  let ?c = "chain_unlink d k (t ! ?b)"
  let ?t = "t[?b := ?c]"
  have c: "mset (t ! ?b) = add_mset he (mset ?c)" using chain_unlink_mset [OF assms(4)] .
  then have "set ?c \<subseteq> set (t ! ?b)" by (metis set_mset_add_mset_insert set_mset_mset subset_insertI)
  then have tab': "table_ok (dictHashKey d) (ht_size_exp d i) ?t" by (rule table_ok_subset [OF tab(1) b])
  have m: "mset (concat t) = add_mset he (mset (concat ?t))"
    using mset_concat_update [OF b, of ?c] c by simp
  have l: "length (concat t) = length (concat ?t) + 1"
    using m mset_eq_length [of "concat t" "he # concat ?t"] by simp
  let ?d = "d\<lparr>ht_table := (ht_table d)(i := Some ?t),
              dlog := dlog d @ (if nofree then [] else free_log (dtype d) he),
              ht_used := (ht_used d)(i := ht_used d i - 1)\<rparr>"
  have "delete_in_table d k nofree h i = Some (?d, Some he)"
    using assms(2,4) b tab(2) l
    by (simp add: delete_in_table_def Let_def dec_def dictFreeUnlinkedEntry_log)
  moreover have "ht_ok ?d 0" "ht_ok ?d 1"
    using assms(1,3) tab tab' l by (auto simp: struct_ok_def ht_ok_def split: option.splits)
  moreover have "rehash_ok ?d"
    using assms(1-3) c b
    by (auto simp: struct_ok_def rehash_ok_def buckets_of_def nth_list_update split: if_splits)
  moreover have "mset (entries d) = add_mset he (mset (entries ?d))"
    using assms(2,3) m by (auto simp: entries_def buckets_of_def)
  ultimately show ?thesis by (auto simp: struct_ok_def)
qed

context dict_type
begin

lemma unlinked_keys_ok:
  assumes "dtype d = T" "keys_ok ok d" "mset (entries d) = add_mset he (mset (entries d'))" "dtype d' = T"
  shows "keys_ok ok d' \<and> he \<notin> set (entries d') \<and> set (entries d) = insert he (set (entries d'))"
proof -
  have set: "set (entries d) = insert he (set (entries d'))"
    using assms(3) by (metis set_mset_add_mset_insert set_mset_mset)
  have "mset (map eaddr (entries d)) = mset (map eaddr (he # entries d'))" using assms(3) by simp
  then have "distinct (map eaddr (he # entries d'))"
    using assms(2) mset_eq_imp_distinct_iff by (fastforce simp: keys_ok_def)
  then have "distinct (map eaddr (entries d'))" "he \<notin> set (entries d')" by auto
  then show ?thesis using assms(1,2,4) set by (auto simp: keys_ok_def key_eq_type)
qed

lemma dictGenericDelete_ok:
  assumes "dtype d = T" "dict_inv ok d" "ok k"
  shows "\<exists>d' r. dictGenericDelete d k nofree = Some (d', r) \<and> dict_inv ok d' \<and> dtype d' = T \<and>
     (case r of
        None \<Rightarrow> dict_map d k = None \<and> mset (entries d') = mset (entries d) \<and> dlog d' = dlog d
      | Some he \<Rightarrow> mset (entries d) = add_mset he (mset (entries d')) \<and> type_eq T k (ekey he) \<and>
          dict_map d k = Some (eval he) \<and> dlog d' = dlog d @ (if nofree then [] else free_log T he))"
proof (cases "dictSize d = 0")
  case True
  then have "entries d = []" using assms(2) dictSize_entries [of d] by (simp add: dict_inv_struct)
  then show ?thesis using True assms by (auto simp: dictGenericDelete_def dict_map_def)
next
  case False
  have st: "struct_ok d" "keys_ok ok d" using assms(2) by (simp_all add: dict_inv_struct)
  obtain d1 where d1: "rehash_step_if_rehashing d = Some d1" "struct_ok d1" "moved d d1"
    using rehash_step_ok [OF st(1)] by blast
  have T1: "dtype d1 = T" "dlog d1 = dlog d" "mset (entries d1) = mset (entries d)"
    using d1(3) assms(1) by (simp_all add: moved_def)
  have k1: "keys_ok ok d1" by (rule moved_keys_ok [OF d1(3) st(2)])
  have map1: "dict_map d1 k = dict_map d k" by (rule moved_map [OF assms(1) st(2) assms(3) d1(3)])
  let ?h = "dictHashKey d1 k"
  have ht: "ht_ok d1 i" if "i = 0 \<or> i = 1" for i using d1(2) that by (auto simp: struct_ok_def)
  have bound: "bucket_idx d1 i ?h < length t" if "ht_table d1 i = Some t" "i = 0 \<or> i = 1" for i t
    using ht [OF that(2)] that(1) table_ok_idx by (fastforce simp: ht_ok_def bucket_idx_def)
  have sub: "set (concat t) \<subseteq> set (entries d1)" if "ht_table d1 i = Some t" "i = 0 \<or> i = 1" for i t
    using that by (auto simp: entries_def buckets_of_def)
  have absent: "delete_in_table d1 k nofree ?h i = Some (d1, None) \<and>
         (\<forall>e \<in> set (concat t). \<not> type_eq T k (ekey e))"
    if "chain_find d1 k (t ! bucket_idx d1 i ?h) = None" "ht_table d1 i = Some t" "i = 0 \<or> i = 1" for i t
  proof -
    have "\<forall>e \<in> set (concat t). ok (ekey e)" using sub [OF that(2,3)] k1 by (auto simp: keys_ok_def)
    with that show ?thesis
      using chain_find_table [OF T1(1) ht [OF that(3)] that(2) assms(3)] bound [OF that(2,3)]
      by (simp add: delete_in_table_def Let_def)
  qed
  have found: "\<exists>d'. delete_in_table d1 k nofree ?h i = Some (d', Some he) \<and> dict_inv ok d' \<and> dtype d' = T \<and>
      mset (entries d) = add_mset he (mset (entries d')) \<and> type_eq T k (ekey he) \<and>
      dict_map d k = Some (eval he) \<and> dlog d' = dlog d @ (if nofree then [] else free_log T he)"
    if "chain_find d1 k (t ! bucket_idx d1 i ?h) = Some he" "ht_table d1 i = Some t" "i = 0 \<or> i = 1" for i t he
  proof -
    note del = delete_in_table_ok [OF d1(2) that(2,3,1), of nofree]
    obtain d' where d': "delete_in_table d1 k nofree ?h i = Some (d', Some he)" "struct_ok d'"
      "mset (entries d1) = add_mset he (mset (entries d'))" "dtype d' = dtype d1"
      "dlog d' = dlog d1 @ (if nofree then [] else free_log (dtype d1) he)"
      using del by blast
    have he: "he \<in> set (entries d1)" "type_eq T k (ekey he)"
      using find_SomeD [OF that(1) [unfolded chain_find_def]] nth_concat_subset [OF bound [OF that(2,3)]]
        sub [OF that(2,3)] T1(1) by (auto simp: key_eq_type)
    then have "dict_map d1 k = Some (eval he)" unfolding map_iff [OF T1(1) k1 assms(3)] by blast
    then show ?thesis
      using d' he unlinked_keys_ok [OF T1(1) k1 d'(3)] T1 map1 by (auto simp: dict_inv_struct)
  qed
  have none: "dict_map d k = None" if "\<forall>e \<in> set (entries d1). \<not> type_eq T k (ekey e)"
    using that map1 map_iff [OF T1(1) k1 assms(3)] by (metis not_None_eq)
  have "dictSize d1 \<noteq> 0" using False moved_size [OF d1(3) st(1) d1(2)] by simp
  then obtain t0 where t0: "ht_table d1 0 = Some t0"
    using d1(2) by (auto simp: dictSize_def struct_ok_def ht_ok_def rehash_ok_def split: option.splits if_splits)
  have inv1: "dict_inv ok d1" using d1(2) k1 by (simp add: dict_inv_struct)
  have eq: "dictGenericDelete d k nofree = delete_in_table d1 k nofree ?h 0 \<bind>
     (\<lambda>(d', he). if he \<noteq> None \<or> \<not> dictIsRehashing d' then Some (d', he)
                 else delete_in_table d' k nofree ?h 1)"
    using False d1(1) by (simp add: dictGenericDelete_def Let_def)
  show ?thesis
  proof (cases "chain_find d1 k (t0 ! bucket_idx d1 0 ?h)")
    case (Some he)
    then show ?thesis using found [OF Some t0] unfolding eq by fastforce
  next
    case a0: None
    note a0 = absent [OF a0 t0 disjI1 [OF refl]]
    show ?thesis
    proof (cases "dictIsRehashing d1")
      case False
      then have "entries d1 = concat t0"
        using d1(2) t0 by (auto simp: struct_ok_def rehash_ok_def dictIsRehashing_def entries_def buckets_of_def)
      then show ?thesis using a0 False none inv1 T1 unfolding eq by simp
    next
      case True
      then obtain t1 where t1: "ht_table d1 1 = Some t1"
        using d1(2) by (auto simp: struct_ok_def rehash_ok_def dictIsRehashing_def)
      have all: "set (entries d1) = set (concat t0) \<union> set (concat t1)"
        using t0 t1 by (simp add: entries_tables)
      show ?thesis
      proof (cases "chain_find d1 k (t1 ! bucket_idx d1 1 ?h)")
        case (Some he)
        then show ?thesis using a0 True found [OF Some t1] unfolding eq by fastforce
      next
        case n: None
        note a1 = absent [OF n t1 disjI2 [OF refl]]
        have "\<forall>e \<in> set (entries d1). \<not> type_eq T k (ekey e)" using a0 a1 all by blast
        then show ?thesis using a0 a1 True none inv1 T1 unfolding eq by simp
      qed
    qed
  qed
qed

lemma dictDelete_ok:
  assumes "dtype d = T" "dict_inv ok d" "ok k"
  shows "\<exists>d' r. dictDelete d k = Some (d', r) \<and> dict_inv ok d' \<and> dtype d' = T \<and>
     r = (if dict_map d k = None then DICT_ERR else DICT_OK) \<and>
     dictSize d' = (if dict_map d k = None then dictSize d else dictSize d - 1) \<and>
     (\<forall>k'. ok k' \<longrightarrow> dict_map d' k' = (if type_eq T k k' then None else dict_map d k')) \<and>
     (\<exists>e. dlog d' = dlog d @ (if dict_map d k = None then [] else free_log T e) \<and>
        (dict_map d k \<noteq> None \<longrightarrow> e \<in> set (entries d) \<and> type_eq T k (ekey e)))"
proof -
  have st: "struct_ok d" "keys_ok ok d" using assms(2) by (simp_all add: dict_inv_struct)
  obtain d' r where r: "dictGenericDelete d k False = Some (d', r)" "dict_inv ok d'" "dtype d' = T"
    "case r of
        None \<Rightarrow> dict_map d k = None \<and> mset (entries d') = mset (entries d) \<and> dlog d' = dlog d
      | Some he \<Rightarrow> mset (entries d) = add_mset he (mset (entries d')) \<and> type_eq T k (ekey he) \<and>
          dict_map d k = Some (eval he) \<and> dlog d' = dlog d @ free_log T he"
    using dictGenericDelete_ok [OF assms, of False, simplified if_False] by blast
  have st': "struct_ok d'" "keys_ok ok d'" using r(2) by (simp_all add: dict_inv_struct)
  have ret: "dictDelete d k = Some (d', if r \<noteq> None then DICT_OK else DICT_ERR)"
    using r(1) by (simp add: dictDelete_def)
  show ?thesis
  proof (cases r)
    case None
    then have n: "dict_map d k = None" "mset (entries d') = mset (entries d)" "dlog d' = dlog d"
      using r(4) by simp_all
    then have set: "set (entries d') = set (entries d)" and len: "dictSize d' = dictSize d"
      using mset_eq_setD mset_eq_length dictSize_entries [OF st(1)] dictSize_entries [OF st'(1)] by metis+
    have same: "dict_map d' k' = dict_map d k'" if "ok k'" for k'
      using map_iff [OF r(3) st'(2) that] map_iff [OF assms(1) st(2) that] set by (metis not_None_eq)
    have absent: "dict_map d k' = None" if "ok k'" "type_eq T k k'" for k'
    proof -
      have "dict_map d k' \<noteq> Some v" for v
        using n(1) map_iff [OF assms(1) st(2) that(1), of v] map_iff [OF assms(1) st(2) assms(3), of v] st(2)
          eq_trans [OF assms(3) that(1) _ that(2)] by (auto simp: keys_ok_def)
      then show ?thesis by (metis not_None_eq)
    qed
    show ?thesis
      using ret None r(2,3) n len same absent by (intro exI [of _ d']) auto
  next
    case (Some he)
    then have he: "mset (entries d) = add_mset he (mset (entries d'))" "type_eq T k (ekey he)"
      "dict_map d k = Some (eval he)" "dlog d' = dlog d @ free_log T he"
      using r(4) by simp_all
    have set: "he \<notin> set (entries d')" "set (entries d) = insert he (set (entries d'))"
      using unlinked_keys_ok [OF assms(1) st(2) he(1) r(3)] by auto
    have okhe: "ok (ekey he)" using st(2) set(2) by (simp add: keys_ok_def)
    have len: "dictSize d = dictSize d' + 1"
      using he(1) mset_eq_length [of "entries d" "he # entries d'"] dictSize_entries [OF st(1)]
        dictSize_entries [OF st'(1)] by simp
    have map': "dict_map d' k' = (if type_eq T k k' then None else dict_map d k')" if "ok k'" for k'
    proof -
      have key: "type_eq T k' (ekey he) \<longleftrightarrow> type_eq T k k'"
        using eq_trans eq_sym okhe assms(3) that he(2) by meson
      have only: "x = he" if "x \<in> set (entries d)" "type_eq T k' (ekey x)" "type_eq T k k'" for x
      proof -
        have "ok (ekey x)" using st(2) that(1) by (simp add: keys_ok_def)
        then have "type_eq T (ekey x) (ekey he)"
          using that key eq_trans eq_sym okhe \<open>ok k'\<close> by meson
        then show ?thesis using st(2) that(1) set(2) assms(1) by (auto simp: keys_ok_def key_eq_type)
      qed
      show ?thesis
      proof (cases "type_eq T k k'")
        case True
        have "dict_map d' k' \<noteq> Some v" for v
          unfolding map_iff [OF r(3) st'(2) that] using only True set by blast
        with True show ?thesis by (metis not_None_eq)
      next
        case False
        have "dict_map d' k' = Some v \<longleftrightarrow> dict_map d k' = Some v" for v
          unfolding map_iff [OF r(3) st'(2) that] map_iff [OF assms(1) st(2) that] set(2)
          using key False by blast
        with False show ?thesis by (metis not_None_eq)
      qed
    qed
    show ?thesis
      using ret Some r(2,3) he(2-4) set(2) len map' by (intro exI [of _ d']) auto
  qed
qed

end

lemma table_entries:
  "ht_table d i = Some t \<Longrightarrow> i = 0 \<or> i = 1 \<Longrightarrow> set (concat t) \<subseteq> set (entries d)"
  by (auto simp: entries_def buckets_of_def)

subsection \<open>Release\<close>

lemma clear_chain_ok:
  "length c \<le> ht_used d i \<Longrightarrow> clear_chain d i c =
     Some (d\<lparr>ht_used := (ht_used d)(i := ht_used d i - length c),
             dlog := dlog d @ concat (map (free_log (dtype d)) c)\<rparr>)"
proof (induction c arbitrary: d)
  case Nil
  then show ?case by simp
next
  case (Cons he c)
  have eq: "dictFreeVal (dictFreeKey d (ekey he)) (eval he) = d\<lparr>dlog := dlog d @ free_log (dtype d) he\<rparr>"
    by (simp add: dictFreeVal_def dictFreeKey_def free_log_def)
  show ?case using Cons.prems by (simp add: eq Let_def dec_def Cons.IH One_nat_def cong: if_cong)
qed

lemma clear_loop_ok:
  assumes "ht_table d i = Some t" "ht_used d i = length (concat (drop j t))" "left + j = length t"
  shows "clear_loop id i left j d =
     Some (d\<lparr>ht_used := (ht_used d)(i := 0),
             dlog := dlog d @ concat (map (free_log (dtype d)) (concat (drop j t)))\<rparr>)"
  using assms
proof (induction left arbitrary: j d)
  case 0
  then show ?case by (simp add: fun_upd_idem)
next
  case (Suc left)
  show ?case
  proof (cases "ht_used d i = 0")
    case True
    then have "concat (drop j t) = []" using Suc.prems(2) by (metis length_0_conv)
    with True show ?thesis by (simp add: fun_upd_idem del: concat_eq_Nil_conv)
  next
    case False
    have j: "j < length t" using Suc.prems(3) by simp
    then have drop: "drop j t = t ! j # drop (Suc j) t" by (simp add: Cons_nth_drop_Suc)
    let ?d = "d\<lparr>ht_used := (ht_used d)(i := length (concat (drop (Suc j) t))),
                dlog := dlog d @ concat (map (free_log (dtype d)) (t ! j))\<rparr>"
    have "clear_chain d i (t ! j) = Some ?d"
      using clear_chain_ok [of "t ! j" d i] Suc.prems(2) drop by simp
    then have "clear_loop id i (Suc left) j d = clear_loop id i left (Suc j) ?d"
      using False Suc.prems(1) j by (simp add: read_bucket_def Let_def Suc_eq_plus1 [of j])
    also have "\<dots> = Some (?d\<lparr>ht_used := (ht_used ?d)(i := 0),
        dlog := dlog ?d @ concat (map (free_log (dtype ?d)) (concat (drop (Suc j) t)))\<rparr>)"
      using Suc.prems by (intro Suc.IH) simp_all
    also have "?d\<lparr>ht_used := (ht_used ?d)(i := 0),
        dlog := dlog ?d @ concat (map (free_log (dtype ?d)) (concat (drop (Suc j) t)))\<rparr> =
      d\<lparr>ht_used := (ht_used d)(i := 0),
        dlog := dlog d @ concat (map (free_log (dtype d)) (concat (drop j t)))\<rparr>"
      by (simp add: drop)
    finally show ?thesis .
  qed
qed

lemma dictClear_ok:
  assumes "ht_ok d i"
  shows "\<exists>d'. dictClear id d i = Some (d', DICT_OK) \<and> dtype d' = dtype d \<and>
     dlog d' = dlog d @ concat (map (free_log (dtype d)) (concat (buckets_of d i))) \<and>
     (\<forall>j. j \<noteq> i \<longrightarrow> ht_table d' j = ht_table d j \<and> ht_size_exp d' j = ht_size_exp d j \<and> ht_used d' j = ht_used d j) \<and>
     ht_table d' i = None \<and> ht_size_exp d' i = -1 \<and> ht_used d' i = 0"
proof (cases "ht_table d i")
  case None
  then show ?thesis using assms
    by (simp add: dictClear_def ht_ok_def DICTHT_SIZE_def dictReset_def buckets_of_def)
next
  case (Some t)
  then have "DICTHT_SIZE (ht_size_exp d i) = length t" "ht_used d i = length (concat t)"
    using assms table_ok_size by (auto simp: ht_ok_def)
  then show ?thesis
    using Some clear_loop_ok [OF Some, of 0 "length t"]
    by (simp add: dictClear_def dictReset_def buckets_of_def)
qed

lemma dictRelease_frees:
  assumes "struct_ok d"
  shows "dictRelease d = Some (dlog d @ concat (map (free_log (dtype d)) (entries d)))"
proof -
  obtain d1 where d1: "dictClear id d 0 = Some (d1, DICT_OK)" "dtype d1 = dtype d"
    "dlog d1 = dlog d @ concat (map (free_log (dtype d)) (concat (buckets_of d 0)))"
    "ht_table d1 1 = ht_table d 1" "ht_size_exp d1 1 = ht_size_exp d 1" "ht_used d1 1 = ht_used d 1"
    using dictClear_ok [of d 0] assms by (auto simp: struct_ok_def)
  have "ht_ok d1 1"
    using assms d1 dictHashKey_dtype [OF d1(2)] by (simp add: struct_ok_def ht_ok_def split: option.splits)
  moreover have "buckets_of d1 1 = buckets_of d 1" using d1(4) by (simp add: buckets_of_def)
  ultimately obtain d2 where d2: "dictClear id d1 1 = Some (d2, DICT_OK)"
    "dlog d2 = dlog d1 @ concat (map (free_log (dtype d)) (concat (buckets_of d 1)))"
    using dictClear_ok [of d1 1] d1(2) by auto
  show ?thesis using d1(1,3) d2 by (simp add: dictRelease_def entries_def)
qed

subsection \<open>Progress of rehashing\<close>

fun rehash_calls :: "nat \<Rightarrow> ('k, 'v) dict \<Rightarrow> ('k, 'v) dict option" where
  "rehash_calls 0 d = Some d"
| "rehash_calls (Suc m) d = do { (d, _) \<leftarrow> dictRehash d 1; rehash_calls m d }"

lemma rehash_calls_finish:
  assumes "struct_ok d" "nat (int (length (buckets_of d 0)) - rehashidx d) < m \<or> \<not> dictIsRehashing d"
  shows "\<exists>d'. rehash_calls m d = Some d' \<and> struct_ok d' \<and> moved d d' \<and> \<not> dictIsRehashing d'"
  using assms
proof (induction m arbitrary: d)
  case 0
  then show ?case by simp
next
  case (Suc m)
  obtain d1 r where d1: "dictRehash d 1 = Some (d1, r)" "struct_ok d1" "moved d d1"
    "dictIsRehashing d1 \<longrightarrow> dictIsRehashing d"
    "dictIsRehashing d1 \<longrightarrow> rehashidx d < rehashidx d1 \<and> length (buckets_of d1 0) = length (buckets_of d 0)"
    using dictRehash_ok [OF Suc.prems(1), of 1] by auto
  have "rehashidx d1 \<le> int (length (buckets_of d1 0))" if "dictIsRehashing d1"
    using d1(2) that by (auto simp: struct_ok_def rehash_ok_def dictIsRehashing_def)
  then have "nat (int (length (buckets_of d1 0)) - rehashidx d1) < m \<or> \<not> dictIsRehashing d1"
    using Suc.prems(2) d1(4,5) by linarith
  from Suc.IH [OF d1(2) this] d1(1,3) moved_trans show ?case by auto
qed

subsection \<open>What dictFind finds\<close>

context dict_type
begin

lemma find_in_table_misses:
  assumes "dtype d = T" "struct_ok d" "keys_ok ok d" "ok k" "ht_table d i = Some t" "i = 0 \<or> i = 1"
    "find_in_table d k (dictHashKey d k) i = Some r"
  shows "r = None"
proof (rule ccontr)
  assume "r \<noteq> None"
  let ?b = "bucket_idx d i (dictHashKey d k)"
  from assms(5,7) \<open>r \<noteq> None\<close> obtain e where b: "?b + 1 < length t" and
    e: "chain_find d k (t ! (?b + 1)) = Some e"
    by (auto simp: find_in_table_def read_bucket_def Let_def fault_simps)
  then have e': "e \<in> set (t ! (?b + 1))" "type_eq T k (ekey e)"
    using find_SomeD assms(1) by (fastforce simp: chain_find_def key_eq_type)+
  have tab: "table_ok (dictHashKey d) (ht_size_exp d i) t"
    using assms(2,5,6) by (auto simp: struct_ok_def ht_ok_def)
  have "e \<in> set (entries d)"
    using e'(1) nth_concat_subset [OF b] table_entries [OF assms(5,6)] by blast
  then have "hashFunction T k = hashFunction T (ekey e)"
    using e'(2) eq_hash assms(3,4) by (simp add: keys_ok_def)
  moreover have "bucket_idx d i (dictHashKey d (ekey e)) = ?b + 1"
    using tab b e'(1) by (simp add: table_ok_def bucket_idx_def)
  ultimately show False using assms(1) by (simp add: dictHashKey_def)
qed

lemma dictFind_never:
  assumes "dtype d = T" "dict_inv ok d" "ok k"
  shows "dictFind d k = None \<or> (\<exists>d'. dictFind d k = Some (d', None))"
proof (cases "dictSize d = 0")
  case True
  then show ?thesis by (simp add: dictFind_def)
next
  case False
  have st: "struct_ok d" "keys_ok ok d" using assms(2) by (simp_all add: dict_inv_struct)
  obtain d1 where d1: "rehash_step_if_rehashing d = Some d1" "struct_ok d1" "moved d d1"
    using rehash_step_ok [OF st(1)] by blast
  have T1: "dtype d1 = T" using d1(3) assms(1) by (simp add: moved_def)
  have k1: "keys_ok ok d1" by (rule moved_keys_ok [OF d1(3) st(2)])
  have tab: "r = None" if "find_in_table d1 k (dictHashKey d1 k) i = Some r" "i = 0 \<or> i = 1" for i r
  proof -
    from that(1) obtain t where "ht_table d1 i = Some t"
      by (auto simp: find_in_table_def read_bucket_def Let_def fault_simps)
    from find_in_table_misses [OF T1 d1(2) k1 assms(3) this that(2,1)] show ?thesis .
  qed
  show ?thesis
    using False d1(1) tab [of 0] tab [of 1]
    by (cases "find_in_table d1 k (dictHashKey d1 k) 0"; cases "find_in_table d1 k (dictHashKey d1 k) 1")
       (auto simp: dictFind_def Let_def)
qed

end

end
