(* ===== verification/Siphash.thy ===== *)
theory Siphash
  imports Prelude
begin

text \<open>
  The keyed hash of \<open>myRedis/src/siphash.c\<close> (SipHash 1-2) and its case-insensitive variant.

  A message is its list of bytes; the loop over the eight-byte words consumes the list, so every read
  is inside the message. \<open>U8TO64_LE\<close> is the portable definition, which on the little-endian targets
  is the unaligned load. \<open>siphash_nocase_lower\<close> shows that the case-insensitive hash is the plain hash
  of the message in lower case, and \<open>U64TO8_LE_roundtrip\<close> that the two byte macros are inverse.
\<close>

unbundle bit_operations_syntax

subsection \<open>Byte order macros\<close>

definition siptlw :: "int \<Rightarrow> int" where
  "siptlw c = (if 65 \<le> c \<and> c \<le> 90 then c + (97 - 65) else c)"

definition U8TO64_LE :: "byte list \<Rightarrow> u64" where
  "U8TO64_LE p =
     ucast (p ! 0) OR push_bit 8 (ucast (p ! 1)) OR push_bit 16 (ucast (p ! 2)) OR
     push_bit 24 (ucast (p ! 3)) OR push_bit 32 (ucast (p ! 4)) OR push_bit 40 (ucast (p ! 5)) OR
     push_bit 48 (ucast (p ! 6)) OR push_bit 56 (ucast (p ! 7))"

definition sip_lower :: "byte \<Rightarrow> u64" where
  "sip_lower b = word_of_int (siptlw (uint b))"

definition U8TO64_LE_NOCASE :: "byte list \<Rightarrow> u64" where
  "U8TO64_LE_NOCASE p =
     sip_lower (p ! 0) OR push_bit 8 (sip_lower (p ! 1)) OR push_bit 16 (sip_lower (p ! 2)) OR
     push_bit 24 (sip_lower (p ! 3)) OR push_bit 32 (sip_lower (p ! 4)) OR
     push_bit 40 (sip_lower (p ! 5)) OR push_bit 48 (sip_lower (p ! 6)) OR
     push_bit 56 (sip_lower (p ! 7))"

definition U32TO8_LE :: "u32 \<Rightarrow> byte list" where
  "U32TO8_LE v = [ucast v, ucast (drop_bit 8 v), ucast (drop_bit 16 v), ucast (drop_bit 24 v)]"

definition U64TO8_LE :: "u64 \<Rightarrow> byte list" where
  "U64TO8_LE v = U32TO8_LE (ucast v) @ U32TO8_LE (ucast (drop_bit 32 v))"

subsection \<open>The rounds\<close>

type_synonym sipstate = "u64 \<times> u64 \<times> u64 \<times> u64"

definition ROTL :: "u64 \<Rightarrow> nat \<Rightarrow> u64" where
  "ROTL x b = push_bit b x OR drop_bit (64 - b) x"

definition SIPROUND :: "sipstate \<Rightarrow> sipstate" where
  "SIPROUND s = (case s of (v0, v1, v2, v3) \<Rightarrow>
     let v0 = v0 + v1; v1 = ROTL v1 13; v1 = v1 XOR v0; v0 = ROTL v0 32;
         v2 = v2 + v3; v3 = ROTL v3 16; v3 = v3 XOR v2;
         v0 = v0 + v3; v3 = ROTL v3 21; v3 = v3 XOR v0;
         v2 = v2 + v1; v1 = ROTL v1 17; v1 = v1 XOR v2; v2 = ROTL v2 32
     in (v0, v1, v2, v3))"

definition sip_init :: "byte list \<Rightarrow> sipstate" where
  "sip_init k = (let k0 = U8TO64_LE k; k1 = U8TO64_LE (drop 8 k) in
     (0x736f6d6570736575 XOR k0, 0x646f72616e646f6d XOR k1,
      0x6c7967656e657261 XOR k0, 0x7465646279746573 XOR k1))"

definition sip_absorb :: "u64 \<Rightarrow> sipstate \<Rightarrow> sipstate" where
  "sip_absorb m s = (case s of (v0, v1, v2, v3) \<Rightarrow>
     (case SIPROUND (v0, v1, v2, v3 XOR m) of (v0, v1, v2, v3) \<Rightarrow> (v0 XOR m, v1, v2, v3)))"

text \<open>The loop over whole words with the word loader \<open>ld\<close>; what is left are fewer than eight bytes.\<close>

function sip_words :: "(byte list \<Rightarrow> u64) \<Rightarrow> sipstate \<Rightarrow> byte list \<Rightarrow> sipstate \<times> byte list" where
  "sip_words ld s xs =
     (if length xs < 8 then (s, xs) else sip_words ld (sip_absorb (ld xs) s) (drop 8 xs))"
  by pat_completeness auto
termination by (relation "measure (\<lambda>(_, _, xs). length xs)") auto

declare sip_words.simps [simp del]

text \<open>The \<open>switch\<close> with its fall-through cases, from the last byte to the first.\<close>

fun sip_tail :: "(byte \<Rightarrow> u64) \<Rightarrow> byte list \<Rightarrow> nat \<Rightarrow> u64 \<Rightarrow> u64" where
  "sip_tail cv xs 0 b = b"
| "sip_tail cv xs (Suc i) b = sip_tail cv xs i (b OR push_bit (8 * i) (cv (xs ! i)))"

definition sip_finish :: "u64 \<Rightarrow> sipstate \<Rightarrow> u64" where
  "sip_finish b s = (case sip_absorb b s of (v0, v1, v2, v3) \<Rightarrow>
     (case SIPROUND (SIPROUND (v0, v1, v2 XOR 0xff, v3)) of (v0, v1, v2, v3) \<Rightarrow>
        v0 XOR v1 XOR v2 XOR v3))"

definition siphash :: "byte list \<Rightarrow> byte list \<Rightarrow> u64" where
  "siphash inp k = (case sip_words U8TO64_LE (sip_init k) inp of (s, rest) \<Rightarrow>
     sip_finish (sip_tail ucast rest (length rest) (push_bit 56 (of_nat (length inp)))) s)"

definition siphash_nocase :: "byte list \<Rightarrow> byte list \<Rightarrow> u64" where
  "siphash_nocase inp k = (case sip_words U8TO64_LE_NOCASE (sip_init k) inp of (s, rest) \<Rightarrow>
     sip_finish (sip_tail sip_lower rest (length rest) (push_bit 56 (of_nat (length inp)))) s)"

subsection \<open>Lower case\<close>

definition lower :: "byte \<Rightarrow> byte" where
  "lower b = word_of_int (siptlw (uint b))"

lemma sip_lower_ucast: "sip_lower b = ucast (lower b)"
proof -
  have "0 \<le> uint b" "uint b < 256" using uint_bounded [of b] by simp_all
  then have "0 \<le> siptlw (uint b)" "siptlw (uint b) < 256" by (auto simp: siptlw_def)
  then have "uint (lower b) = siptlw (uint b)" by (simp add: lower_def uint_word_of_int)
  then show ?thesis by (simp add: sip_lower_def ucast_eq)
qed

lemma LE_NOCASE_lower: "8 \<le> length p \<Longrightarrow> U8TO64_LE_NOCASE p = U8TO64_LE (map lower p)"
proof -
  assume "8 \<le> length p"
  then have "0 < length p" by linarith
  with \<open>8 \<le> length p\<close> show ?thesis
    by (simp add: U8TO64_LE_NOCASE_def U8TO64_LE_def sip_lower_ucast)
qed

lemma sip_words_lower:
  "sip_words U8TO64_LE s (map lower xs) =
     (case sip_words U8TO64_LE_NOCASE s xs of (s', rest) \<Rightarrow> (s', map lower rest))"
proof (induction U8TO64_LE_NOCASE s xs rule: sip_words.induct)
  case (1 s xs)
  then show ?case
    by (cases "length xs < 8")
       (simp_all add: sip_words.simps [of _ _ xs] sip_words.simps [of _ _ "map lower xs"]
         LE_NOCASE_lower drop_map)
qed

lemma sip_tail_lower:
  "n \<le> length xs \<Longrightarrow> sip_tail ucast (map lower xs) n b = sip_tail sip_lower xs n b"
  by (induction n arbitrary: b) (simp_all add: sip_lower_ucast)

text \<open>The case-insensitive hash is the plain hash of the lower-case message, for every message and
  key: the two copies of the code differ in nothing else.\<close>

theorem siphash_nocase_lower: "siphash_nocase xs k = siphash (map lower xs) k"
  by (simp add: siphash_nocase_def siphash_def sip_words_lower sip_tail_lower split: prod.splits)

lemma byte_of_half: "n \<le> 24 \<Longrightarrow> (ucast (drop_bit n (ucast w :: u32)) :: byte) = ucast (drop_bit n (w :: u64))"
  by (rule bit_word_eqI) (auto simp: bit_simps)

lemma U64TO8_LE_roundtrip: "U8TO64_LE (U64TO8_LE v) = v"
proof -
  let ?b = "\<lambda>n. push_bit n (ucast (ucast (drop_bit n v) :: byte)) :: u64"
  let ?w = "ucast (ucast v :: byte) OR ?b 8 OR ?b 16 OR ?b 24 OR ?b 32 OR ?b 40 OR ?b 48 OR ?b 56"
  have "U8TO64_LE (U64TO8_LE v) = ?w"
    using byte_of_half [of 0 v] byte_of_half [of 0 "drop_bit 32 v"]
    by (simp add: U8TO64_LE_def U64TO8_LE_def U32TO8_LE_def byte_of_half)
  also have "\<dots> = v"
  proof (rule bit_word_eqI)
    fix n assume "n < LENGTH(64)"
    then consider "n < 8" | "8 \<le> n" "n < 16" | "16 \<le> n" "n < 24" | "24 \<le> n" "n < 32" | "32 \<le> n" "n < 40"
      | "40 \<le> n" "n < 48" | "48 \<le> n" "n < 56" | "56 \<le> n" "n < 64" by fastforce
    then show "bit ?w n = bit v n"
      by cases (auto simp: bit_simps)
  qed
  finally show ?thesis .
qed

end
