(* ===== verification/Dict_Types.thy ===== *)
theory Dict_Types
  imports Dict Siphash
begin

text \<open>
  The dictionary types of \<open>myRedis/src/server.c\<close> and the hash callbacks of \<open>dict.c\<close>.

  A key is an \<open>sds\<close>: the pointer and the bytes it points to (\<open>sdskey\<close>). The 16-byte seed, a static
  variable of \<open>dict.c\<close>, is a parameter. The interpretations of \<open>dict_type\<close> show for which keys each
  table type keeps the contract of the dictionary; the correctness theorems of the dictionary
  follow, stated for every type that keeps it.
\<close>

unbundle bit_operations_syntax

declare One_nat_def [simp del]

subsection \<open>Callbacks\<close>

record sdskey =
  sptr :: addr
  sbytes :: "byte list"

definition dictSetHashFunctionSeed :: "byte list \<Rightarrow> byte list" where
  "dictSetHashFunctionSeed seed = take 16 seed"

definition dictGenHashFunction :: "byte list \<Rightarrow> byte list \<Rightarrow> u64" where
  "dictGenHashFunction seed key = siphash key seed"

definition dictGenCaseHashFunction :: "byte list \<Rightarrow> byte list \<Rightarrow> u64" where
  "dictGenCaseHashFunction seed buf = siphash_nocase buf seed"

definition dictSdsHash :: "byte list \<Rightarrow> sdskey \<Rightarrow> u64" where
  "dictSdsHash seed key = dictGenHashFunction seed (sbytes key)"

definition dictSdsCaseHash :: "byte list \<Rightarrow> sdskey \<Rightarrow> u64" where
  "dictSdsCaseHash seed key = dictGenCaseHashFunction seed (sbytes key)"

text \<open>The lengths are stored in an \<open>int\<close>; \<open>memcmp\<close> compares that many bytes.\<close>

definition dictSdsKeyCompare :: "sdskey \<Rightarrow> sdskey \<Rightarrow> bool" where
  "dictSdsKeyCompare key1 key2 =
     (let l1 = sint (of_nat (length (sbytes key1)) :: u32);
          l2 = sint (of_nat (length (sbytes key2)) :: u32)
      in if l1 \<noteq> l2 then False else take (nat l1) (sbytes key1) = take (nat l1) (sbytes key2))"

text \<open>\<open>strcasecmp\<close> of the C locale; the byte after the last one of a string is the terminator.\<close>

fun strcasecmp :: "byte list \<Rightarrow> byte list \<Rightarrow> int" where
  "strcasecmp [] [] = 0"
| "strcasecmp [] (y # ys) = 0 - uint (lower y)"
| "strcasecmp (x # xs) [] = uint (lower x)"
| "strcasecmp (x # xs) (y # ys) =
     (if lower x \<noteq> lower y then uint (lower x) - uint (lower y)
      else if x = 0 then 0 else strcasecmp xs ys)"

definition dictSdsKeyCaseCompare :: "sdskey \<Rightarrow> sdskey \<Rightarrow> bool" where
  "dictSdsKeyCaseCompare key1 key2 \<longleftrightarrow> strcasecmp (sbytes key1) (sbytes key2) = 0"

definition commandTableDictType :: "byte list \<Rightarrow> (sdskey, 'v) dictType" where
  "commandTableDictType seed =
     \<lparr>hashFunction = dictSdsCaseHash seed, keyDup = None, valDup = None,
      keyCompare = Some dictSdsKeyCaseCompare, keyDestructor = True, valDestructor = False,
      expandAllowed = None, dictEntryMetadataBytes = None\<rparr>"

definition migrateCacheDictType :: "byte list \<Rightarrow> (sdskey, 'v) dictType" where
  "migrateCacheDictType seed =
     \<lparr>hashFunction = dictSdsHash seed, keyDup = None, valDup = None,
      keyCompare = Some dictSdsKeyCompare, keyDestructor = True, valDestructor = False,
      expandAllowed = None, dictEntryMetadataBytes = None\<rparr>"

definition sdsHashDictType :: "byte list \<Rightarrow> (sdskey, 'v) dictType" where
  "sdsHashDictType seed =
     \<lparr>hashFunction = dictSdsCaseHash seed, keyDup = None, valDup = None,
      keyCompare = None, keyDestructor = False, valDestructor = False,
      expandAllowed = None, dictEntryMetadataBytes = None\<rparr>"

subsection \<open>The contracts\<close>

lemma siptlw_zero: "0 \<le> c \<Longrightarrow> (siptlw c = 0) = (c = 0)"
  by (auto simp: siptlw_def)

lemma uint_lower: "uint (lower b) = siptlw (uint b)"
proof -
  have "0 \<le> uint b" "uint b < 256" using uint_bounded [of b] by simp_all
  then have "0 \<le> siptlw (uint b)" "siptlw (uint b) < 256" by (auto simp: siptlw_def)
  then show ?thesis by (simp add: lower_def uint_word_of_int)
qed

lemma lower_zero [simp]: "(lower b = 0) = (b = 0)"
  using uint_lower [of b] siptlw_zero [of "uint b"] by (simp add: word_uint_eq_iff)

lemma strcasecmp_iff:
  "0 \<notin> set xs \<Longrightarrow> 0 \<notin> set ys \<Longrightarrow> (strcasecmp xs ys = 0) = (map lower xs = map lower ys)"
  by (induction xs ys rule: strcasecmp.induct) (auto simp: uint_lower word_uint_eq_iff siptlw_zero)

lemma KeyCompare_iff:
  assumes "length (sbytes a) < 2 ^ 31" "length (sbytes b) < 2 ^ 31"
  shows "dictSdsKeyCompare a b = (sbytes a = sbytes b)"
proof -
  have s: "sint (of_nat n :: u32) = int n" if "n < 2 ^ 31" for n
    using that by (simp add: signed_of_nat signed_take_bit_int_eq_self)
  show ?thesis using assms by (auto simp: dictSdsKeyCompare_def Let_def s)
qed

definition plain_key :: "sdskey \<Rightarrow> bool" where
  "plain_key k \<longleftrightarrow> 0 \<notin> set (sbytes k)"

definition short_key :: "sdskey \<Rightarrow> bool" where
  "short_key k \<longleftrightarrow> length (sbytes k) < 2 ^ 31"

interpretation command_table: dict_type "commandTableDictType seed" plain_key for seed
  by unfold_locales
     (auto simp: type_eq_def commandTableDictType_def dictSdsKeyCaseCompare_def plain_key_def
       strcasecmp_iff dup_key_def dictSdsCaseHash_def dictGenCaseHashFunction_def siphash_nocase_lower)

interpretation migrate_cache: dict_type "migrateCacheDictType seed" short_key for seed
  by unfold_locales
     (auto simp: type_eq_def migrateCacheDictType_def KeyCompare_iff short_key_def
       dup_key_def dictSdsHash_def)

interpretation sds_hash: dict_type "sdsHashDictType seed" "\<lambda>_. True" for seed
  by unfold_locales (auto simp: type_eq_def sdsHashDictType_def dup_key_def)

subsection \<open>A concrete dictionary\<close>

definition demo_env :: "addr \<Rightarrow> nat env" where
  "demo_env a = \<lparr>dict_can_resize = True, dict_force_resize_ratio = 5, calloc_addr = Some 4096,
     zmalloc_addr = a, junk = 0\<rparr>"

definition demo_type :: "(sdskey, nat) dictType" where
  "demo_type = migrateCacheDictType (replicate 16 0)"

definition demo_dict :: "(sdskey, nat) dict" where
  "demo_dict = dictCreate \<lparr>dtype = demo_type, ht_table = (\<lambda>_. None), ht_addr = (\<lambda>_. 0),
     ht_used = (\<lambda>_. 0), rehashidx = 3, pauserehash = 9, ht_size_exp = (\<lambda>_. 0), dlog = []\<rparr> demo_type"

definition demo_key :: "byte \<Rightarrow> sdskey" where
  "demo_key b = \<lparr>sptr = 8, sbytes = [b]\<rparr>"

lemma demo_dict_simps [simp]:
  "dtype demo_dict = demo_type" "entries demo_dict = []" "dictSize demo_dict = 0" "dlog demo_dict = []"
  "dict_inv ok demo_dict" "dict_map demo_dict k = None" "\<not> dictIsRehashing demo_dict"
  by (simp_all add: demo_dict_def dictCreate_def dictInit_def dictReset_def Let_def entries_def
      buckets_of_def dictSize_def dict_inv_def ht_ok_def rehash_ok_def keys_ok_def dict_map_def
      dictIsRehashing_def)

lemma demo_env_simps [simp]: "calloc_addr (demo_env a) = Some 4096" "zmalloc_addr (demo_env a) = a"
  by (simp_all add: demo_env_def)

lemma demo_key_short [simp]: "short_key (demo_key b)"
  by (simp add: demo_key_def short_key_def)

lemma demo_type_ok: "dict_type demo_type short_key"
  unfolding demo_type_def by (rule migrate_cache.dict_type_axioms)

lemma demo_type_simps [simp]:
  "keyDestructor demo_type" "\<not> valDestructor demo_type" "dup_val demo_type v = v"
  by (simp_all add: demo_type_def migrateCacheDictType_def dup_val_def)

lemma demo_added:
  "\<exists>d. dictAdd (demo_env 1) demo_dict (demo_key 97) 7 = Some (d, DICT_OK) \<and> dict_inv short_key d \<and>
     dtype d = demo_type \<and> dlog d = [] \<and> dictSize d = 1 \<and> dict_map d (demo_key 97) = Some 7"
  using dict_type.dictAdd_ok [OF demo_type_ok, of demo_dict "demo_key 97" "demo_env 1" 7]
  by (auto simp: type_eq_def)

subsection \<open>Correctness of the dictionary\<close>

text \<open>C3. \<open>dictAdd\<close> on a well-formed dictionary whose table type keeps the contract returns (no null or
  out-of-bounds access, in every rehashing state, expansion included): it answers \<open>DICT_OK\<close> exactly
  when no equivalent key was present, then the abstract map is updated at that key and nowhere else
  and the size grows by one; otherwise map and size are unchanged. The invariant is kept and no
  destructor runs.\<close>

theorem dictAdd_refines:
  assumes "dict_type T ok" "dtype d = T" "dict_inv ok d" "ok k" "dictSize d < 2 ^ 60"
    "calloc_addr env \<noteq> None" "zmalloc_addr env \<notin> eaddr ` set (entries d)"
  shows "\<exists>d' r. dictAdd env d k v = Some (d', r) \<and> dict_inv ok d' \<and> dtype d' = T \<and> dlog d' = dlog d \<and>
     r = (if dict_map d k = None then DICT_OK else DICT_ERR) \<and>
     dictSize d' = (if dict_map d k = None then dictSize d + 1 else dictSize d) \<and>
     (\<forall>k'. ok k' \<longrightarrow> dict_map d' k' =
        (if dict_map d k = None \<and> type_eq T k k' then Some (dup_val T v) else dict_map d k'))"
  using assms by (rule dict_type.dictAdd_ok)

theorem dictAdd_refines_witness:
  "\<exists>d'. dictAdd (demo_env 1) demo_dict (demo_key 97) 7 = Some (d', DICT_OK) \<and> dictSize d' = 1 \<and>
     dict_map d' (demo_key 97) = Some 7"
  using dictAdd_refines [OF demo_type_ok, of demo_dict "demo_key 97" "demo_env 1" 7]
  by (auto simp: type_eq_def)

text \<open>C4. \<open>dictDelete\<close> on a well-formed dictionary returns: the key is absent afterwards, every key not
  equivalent to it keeps its value, the answer says whether it was present, the size shrinks by
  one exactly then, and the destructors ran on the deleted entry's key and value and on nothing
  else.\<close>

theorem dictDelete_refines:
  assumes "dict_type T ok" "dtype d = T" "dict_inv ok d" "ok k"
  shows "\<exists>d' r. dictDelete d k = Some (d', r) \<and> dict_inv ok d' \<and> dtype d' = T \<and>
     r = (if dict_map d k = None then DICT_ERR else DICT_OK) \<and>
     dictSize d' = (if dict_map d k = None then dictSize d else dictSize d - 1) \<and>
     (\<forall>k'. ok k' \<longrightarrow> dict_map d' k' = (if type_eq T k k' then None else dict_map d k')) \<and>
     (\<exists>e. dlog d' = dlog d @ (if dict_map d k = None then [] else free_log T e) \<and>
        (dict_map d k \<noteq> None \<longrightarrow> e \<in> set (entries d) \<and> type_eq T k (ekey e)))"
  using assms by (rule dict_type.dictDelete_ok)

theorem dictDelete_refines_witness:
  "\<exists>d d'. dictAdd (demo_env 1) demo_dict (demo_key 97) 7 = Some (d, DICT_OK) \<and>
     dictDelete d (demo_key 97) = Some (d', DICT_OK) \<and> dictSize d' = 0 \<and>
     dict_map d' (demo_key 97) = None \<and> length (dlog d') = 1"
proof -
  obtain d where d: "dictAdd (demo_env 1) demo_dict (demo_key 97) 7 = Some (d, DICT_OK)"
    "dict_inv short_key d" "dtype d = demo_type" "dlog d = []" "dictSize d = 1"
    "dict_map d (demo_key 97) = Some 7"
    using demo_added by blast
  have eq: "type_eq demo_type (demo_key 97) (demo_key 97)" by (simp add: type_eq_def)
  have log: "length (free_log demo_type e) = 1" for e by (simp add: free_log_def)
  obtain d' e where "dictDelete d (demo_key 97) = Some (d', DICT_OK)" "dictSize d' = 0"
    "dict_map d' (demo_key 97) = None" "dlog d' = free_log demo_type e"
    using dictDelete_refines [OF demo_type_ok d(3,2) demo_key_short, of 97] d(4-6) eq by auto
  with d(1) log show ?thesis by auto
qed

text \<open>C22. \<open>dictReplace\<close> on a well-formed dictionary returns with the key bound to the new value and every
  other key unchanged; it answers 1 when the key was new and 0 otherwise, and in the second case
  the value destructor, if the type has one, ran on the old value and on nothing else.\<close>

theorem dictReplace_refines:
  assumes "dict_type T ok" "dtype d = T" "dict_inv ok d" "ok k" "dictSize d < 2 ^ 60"
    "calloc_addr env \<noteq> None" "zmalloc_addr env \<notin> eaddr ` set (entries d)"
  shows "\<exists>d' r. dictReplace env d k v = Some (d', r) \<and> dict_inv ok d' \<and> dtype d' = T \<and>
     r = (if dict_map d k = None then 1 else 0) \<and>
     dlog d' = dlog d @ (case dict_map d k of
        Some old \<Rightarrow> if valDestructor T then [FreeVal old] else [] | None \<Rightarrow> []) \<and>
     (\<forall>k'. ok k' \<longrightarrow> dict_map d' k' = (if type_eq T k k' then Some (dup_val T v) else dict_map d k'))"
  using assms by (rule dict_type.dictReplace_ok)

theorem dictReplace_refines_witness:
  "\<exists>d'. dictReplace (demo_env 1) demo_dict (demo_key 97) 9 = Some (d', 1) \<and>
     dict_map d' (demo_key 97) = Some 9"
  using dictReplace_refines [OF demo_type_ok, of demo_dict "demo_key 97" "demo_env 1" 9]
  by (auto simp: type_eq_def)





text \<open>C16. \<open>dictFind\<close> never returns an entry, whatever the dictionary holds: it reads the bucket after
  the one its key hashes to. On a well-formed dictionary every call either answers \<open>NULL\<close> or
  reads past the end of the table; without a rehash in progress the second happens exactly
  when the key hashes to the last bucket of a non-empty dictionary.\<close>

theorem dictFind_never_finds:
  assumes "dict_type T ok" "dtype d = T" "dict_inv ok d" "ok k"
  shows "(dictFind d k = None \<or> (\<exists>d'. dictFind d k = Some (d', None))) \<and>
     (\<not> dictIsRehashing d \<and> dictSize d \<noteq> 0 \<longrightarrow>
        dictFind d k = (if bucket_idx d 0 (dictHashKey d k) + 1 = DICTHT_SIZE (ht_size_exp d 0)
                        then None else Some (d, None)))"
proof -
  note never = dict_type.dictFind_never [OF assms]
  have st: "struct_ok d" "keys_ok ok d" using assms(3) by (simp_all add: dict_inv_struct)
  have "dictFind d k = (if bucket_idx d 0 (dictHashKey d k) + 1 = DICTHT_SIZE (ht_size_exp d 0)
                        then None else Some (d, None))"
    if r: "\<not> dictIsRehashing d" "dictSize d \<noteq> 0"
  proof -
    obtain t where t: "ht_table d 0 = Some t"
      using st(1) r by (auto simp: struct_ok_def ht_ok_def rehash_ok_def dictIsRehashing_def dictSize_def
          split: option.splits)
    then have tab: "table_ok (dictHashKey d) (ht_size_exp d 0) t"
      using st(1) by (simp add: struct_ok_def ht_ok_def)
    have "bucket_idx d 0 (dictHashKey d k) < length t"
      using table_ok_idx [OF tab] by (simp add: bucket_idx_def)
    then have *: "find_in_table d k (dictHashKey d k) 0 = None \<longleftrightarrow>
        bucket_idx d 0 (dictHashKey d k) + 1 = DICTHT_SIZE (ht_size_exp d 0)"
      using t table_ok_size [OF tab] by (auto simp: find_in_table_def read_bucket_def Let_def get_at_def)
    have "rehash_step_if_rehashing d = Some d" using r(1) by (simp add: rehash_step_if_rehashing_def)
    then have "dictFind d k = find_in_table d k (dictHashKey d k) 0 \<bind> (\<lambda>he. Some (d, he))"
      using r by (simp add: dictFind_def Let_def)
    then show ?thesis using * never by (cases "find_in_table d k (dictHashKey d k) 0") auto
  qed
  with never show ?thesis by blast
qed

theorem dictFind_never_finds_witness:
  "\<exists>d. dictAdd (demo_env 1) demo_dict (demo_key 97) 7 = Some (d, DICT_OK) \<and>
     dict_map d (demo_key 97) = Some 7 \<and>
     (dictFind d (demo_key 97) = None \<or> (\<exists>d'. dictFind d (demo_key 97) = Some (d', None)))"
proof -
  obtain d where d: "dictAdd (demo_env 1) demo_dict (demo_key 97) 7 = Some (d, DICT_OK)"
    "dict_inv short_key d" "dtype d = demo_type" "dict_map d (demo_key 97) = Some 7"
    using demo_added by blast
  from dictFind_never_finds [OF demo_type_ok d(3,2) demo_key_short, of 97] d(1,4) show ?thesis by blast
qed



text \<open>\<open>_dictNextExp\<close> ends and answers the exponent of the least power of two that is at least the
  size and at least the initial size, and shifting by it stays inside 64 bits.\<close>

theorem dictNextExp_least:
  assumes "sz < LONG_MAX"
  shows "sz \<le> 2 ^ dictNextExp sz \<and> DICT_HT_INITIAL_EXP \<le> dictNextExp sz \<and> dictNextExp sz \<le> 63 \<and>
     (\<forall>e. DICT_HT_INITIAL_EXP \<le> e \<and> sz \<le> 2 ^ e \<longrightarrow> dictNextExp sz \<le> e)"
  using assms dictNextExp_ok [OF assms] nextExp_loop_bound
  by (auto simp: dictNextExp_def DICT_HT_INITIAL_EXP_def)

theorem dictNextExp_least_witness: "(1000::nat) \<le> 2 ^ dictNextExp 1000 \<and> dictNextExp 1000 \<le> 10"
  using dictNextExp_least [of 1000] by (simp add: LONG_MAX_def DICT_HT_INITIAL_EXP_def)

end
