(* ===== verification/Dict_Iter.thy ===== *)
theory Dict_Iter
  imports Dict_Types
begin

text \<open>
  Iteration over the hash table of \<open>myRedis/src/dict.c\<close>: the fingerprint that detects a change of
  the table under an unsafe iterator, and the iterators. \<open>dictFingerprint_detects\<close> shows that the
  fingerprint separates two dictionaries that differ in one of the six numbers it mixes; the
  iterator part shows that repeated \<open>dictNext\<close> calls return every entry exactly once, in both tables
  while a rehash is in progress.
\<close>

unbundle bit_operations_syntax

subsection \<open>Fingerprint and iterators\<close>

definition wang_mix :: "u64 \<Rightarrow> u64" where
  "wang_mix hash =
     (let hash = (NOT hash) + push_bit 21 hash;
          hash = hash XOR drop_bit 24 hash;
          hash = (hash + push_bit 3 hash) + push_bit 8 hash;
          hash = hash XOR drop_bit 14 hash;
          hash = (hash + push_bit 2 hash) + push_bit 4 hash;
          hash = hash XOR drop_bit 28 hash
      in hash + push_bit 31 hash)"

definition fingerprint_integers :: "('k, 'v) dict \<Rightarrow> u64 list" where
  "fingerprint_integers d =
     [ht_addr d 0, word_of_int (ht_size_exp d 0), of_nat (ht_used d 0),
      ht_addr d 1, word_of_int (ht_size_exp d 1), of_nat (ht_used d 1)]"

definition dictFingerprint :: "('k, 'v) dict \<Rightarrow> u64" where
  "dictFingerprint d = foldl (\<lambda>hash n. wang_mix (hash + n)) 0 (fingerprint_integers d)"

record dictIterator =
  index :: int
  itable :: nat
  safe :: bool
  entry :: "addr option"
  nextEntry :: "addr option"
  fingerprint :: u64

definition dictInitIterator :: "dictIterator \<Rightarrow> dictIterator" where
  "dictInitIterator iter =
     iter\<lparr>itable := 0, index := -1, safe := False, entry := None, nextEntry := None\<rparr>"

definition dictGetIterator :: "dictIterator \<Rightarrow> dictIterator" where
  "dictGetIterator mem = dictInitIterator mem"

definition dictGetSafeIterator :: "dictIterator \<Rightarrow> dictIterator" where
  "dictGetSafeIterator mem = (dictGetIterator mem)\<lparr>safe := True\<rparr>"

definition dictResetIterator :: "dictIterator \<Rightarrow> ('k, 'v) dict \<Rightarrow> ('k, 'v) dict option" where
  "dictResetIterator iter d =
     (if \<not> (index iter = -1 \<and> itable iter = 0)
      then (if safe iter then Some (dictResumeRehashing d)
            else do { ensure (fingerprint iter = dictFingerprint d); Some d })
      else Some d)"

definition dictReleaseIterator :: "dictIterator \<Rightarrow> ('k, 'v) dict \<Rightarrow> ('k, 'v) dict option" where
  "dictReleaseIterator iter d = dictResetIterator iter d"

text \<open>The pointer \<open>entry->next\<close>, and the head of a bucket.\<close>

fun chain_next :: "('k, 'v) dictEntry list \<Rightarrow> addr \<Rightarrow> addr option option" where
  "chain_next [] a = None"
| "chain_next (e # es) a =
     (if eaddr e = a then Some (case es of [] \<Rightarrow> None | e' # _ \<Rightarrow> Some (eaddr e')) else chain_next es a)"

fun buckets_next :: "('k, 'v) buckets \<Rightarrow> addr \<Rightarrow> addr option option" where
  "buckets_next [] a = None"
| "buckets_next (c # cs) a = (case chain_next c a of Some n \<Rightarrow> Some n | None \<Rightarrow> buckets_next cs a)"

definition next_ref :: "('k, 'v) dict \<Rightarrow> addr \<Rightarrow> addr option option" where
  "next_ref d a = buckets_next (buckets_of d 0 @ buckets_of d 1) a"

definition bucket_head :: "('k, 'v) dict \<Rightarrow> nat \<Rightarrow> int \<Rightarrow> addr option option" where
  "bucket_head d table idx = do {
     ensure (0 \<le> idx);
     c \<leftarrow> read_bucket d table (nat idx);
     Some (case c of [] \<Rightarrow> None | e # _ \<Rightarrow> Some (eaddr e)) }"

definition first_next :: "dictIterator \<Rightarrow> ('k, 'v) dict \<Rightarrow> dictIterator \<times> ('k, 'v) dict" where
  "first_next iter d =
     (if index iter = -1 \<and> itable iter = 0
      then (if safe iter then (iter, dictPauseRehashing d)
            else (iter\<lparr>fingerprint := dictFingerprint d\<rparr>, d))
      else (iter, d))"

text \<open>One turn of the \<open>while (1)\<close> up to the test of \<open>iter->entry\<close>: \<open>Inl\<close> is the \<open>break\<close>.\<close>

definition load_slot ::
  "dictIterator \<Rightarrow> ('k, 'v) dict \<Rightarrow> (dictIterator \<times> ('k, 'v) dict) option" where
  "load_slot iter d = do {
     h \<leftarrow> bucket_head d (itable iter) (index iter);
     Some (iter\<lparr>entry := h\<rparr>, d) }"

definition next_turn ::
  "dictIterator \<Rightarrow> ('k, 'v) dict
     \<Rightarrow> (dictIterator \<times> ('k, 'v) dict + dictIterator \<times> ('k, 'v) dict) option" where
  "next_turn iter d =
     (if entry iter = None then
        (let (iter, d) = first_next iter d; iter = iter\<lparr>index := index iter + 1\<rparr> in
         if int (DICTHT_SIZE (ht_size_exp d (itable iter))) \<le> index iter then
           (if dictIsRehashing d \<and> itable iter = 0
            then map_option Inr (load_slot (iter\<lparr>itable := 1, index := 0\<rparr>) d)
            else Some (Inl (iter, d)))
         else map_option Inr (load_slot iter d))
      else Some (Inr (iter\<lparr>entry := nextEntry iter\<rparr>, d)))"

definition turns_left :: "dictIterator \<Rightarrow> ('k, 'v) dict \<Rightarrow> nat" where
  "turns_left iter d = 2 * ((if itable iter = 0 then DICTHT_SIZE (ht_size_exp d 1) + 1 else 0)
     + nat (int (DICTHT_SIZE (ht_size_exp d (itable iter))) - index iter))
     + (if entry iter = None then 0 else 1)"

lemma first_next_keeps:
  "first_next iter d = (iter', d') \<Longrightarrow>
     index iter' = index iter \<and> itable iter' = itable iter \<and> entry iter' = entry iter \<and>
     ht_size_exp d' = ht_size_exp d"
  by (auto simp: first_next_def dictPauseRehashing_def split: if_splits)

lemma next_turn_decreases:
  assumes "next_turn iter d = Some (Inr (iter', d'))" "entry iter' = None"
  shows "turns_left iter' d' < turns_left iter d"
  using assms
  by (auto simp: Let_def next_turn_def turns_left_def load_slot_def bucket_head_def fault_simps
      split: prod.splits if_splits dest!: first_next_keeps)

function dictNext ::
  "dictIterator \<Rightarrow> ('k, 'v) dict \<Rightarrow> (dictIterator \<times> ('k, 'v) dict \<times> addr option) option" where
  "dictNext iter d = (case next_turn iter d of
     None \<Rightarrow> None
   | Some (Inl (iter, d)) \<Rightarrow> Some (iter, d, None)
   | Some (Inr (iter, d)) \<Rightarrow>
       (case entry iter of
          Some a \<Rightarrow> do { n \<leftarrow> next_ref d a; Some (iter\<lparr>nextEntry := n\<rparr>, d, Some a) }
        | None \<Rightarrow> dictNext iter d))"
  by pat_completeness auto
termination
  by (relation "measure (\<lambda>(iter, d). turns_left iter d)") (auto intro: next_turn_decreases)

declare dictNext.simps [simp del]

declare One_nat_def [simp del]

subsection \<open>The fingerprint\<close>

lemma odd_mult_inj: "(c :: u64) * i = 1 \<Longrightarrow> inj (\<lambda>h. h * c)"
proof (rule injI)
  fix x y :: u64
  assume c: "c * i = 1" and "x * c = y * c"
  then have "x * c * i = y * c * i" by simp
  then show "x = y" by (simp add: mult.assoc c)
qed

lemma cancel_sum: "- h - 1 + (x + h) = x - (1 :: u64)"
  by (simp add: algebra_simps)

lemma odd_shift_sum: "(h :: u64) * c + h = h * (c + 1)"
  by (simp add: distrib_left)

lemma xorshift_inj: "0 < n \<Longrightarrow> inj (\<lambda>h :: u64. h XOR drop_bit n h)"
proof (rule injI)
  fix h g :: u64
  assume n: "0 < n" and eq: "h XOR drop_bit n h = g XOR drop_bit n g"
  have step: "bit h m = bit g m" if "bit h (m + n) = bit g (m + n)" "m < 64" for m
    using arg_cong [OF eq, of "\<lambda>x. bit x m"] that by (auto simp: bit_simps add.commute)
  have "bit h m = bit g m" for m
  proof (induction "64 - m" arbitrary: m rule: less_induct)
    case less
    show ?case
    proof (cases "m < 64")
      case True
      then have "64 - (m + n) < 64 - m" using n by linarith
      from step [OF less [OF this] True] show ?thesis .
    next
      case False
      then have "\<not> bit h m" "\<not> bit g m" using bit_imp_le_length by force+
      then show ?thesis by simp
    qed
  qed
  then show "h = g" by (simp add: bit_eq_iff)
qed

lemma wang_mix_inj: "inj wang_mix"
proof -
  have i: "inj (\<lambda>h :: u64. h * 0x1FFFFF)" "inj (\<lambda>h :: u64. h * 265)" "inj (\<lambda>h :: u64. h * 21)"
    "inj (\<lambda>h :: u64. h * 0x80000001)"
    by (rule odd_mult_inj [where i = "0x7FFFFBFFFFDFFFFF"], simp add: One_nat_def)
       (rule odd_mult_inj [where i = "0xD38FF08B1C03DD39"], simp add: One_nat_def,
        rule odd_mult_inj [where i = "0xCF3CF3CF3CF3CF3D"], simp add: One_nat_def,
        rule odd_mult_inj [where i = "0x3FFFFFFF80000001"], simp add: One_nat_def)
  have "(NOT h) + push_bit 21 h = h * 0x1FFFFF - 1" for h :: u64
  proof -
    have "h * 0x200000 = h * 0x1FFFFF + h"
      using odd_shift_sum [of h "0x1FFFFF"] by (simp add: One_nat_def)
    moreover have "(NOT h) + push_bit 21 h = - h - 1 + h * 0x200000"
      by (simp add: push_bit_eq_mult not_eq_complement One_nat_def)
    ultimately show ?thesis by (simp only: cancel_sum)
  qed
  moreover have "inj (\<lambda>h :: u64. h * 0x1FFFFF - 1)"
    using inj_compose [OF _ i(1), of "\<lambda>x. x - 1"] by (simp add: comp_def)
  ultimately have 1: "inj (\<lambda>h :: u64. (NOT h) + push_bit 21 h)" by (simp only:)
  have "(h + push_bit 3 h) + push_bit 8 h = h * 265" for h :: u64 by (simp add: push_bit_eq_mult)
  then have 2: "inj (\<lambda>h :: u64. (h + push_bit 3 h) + push_bit 8 h)" using i(2) by (simp only:)
  have "(h + push_bit 2 h) + push_bit 4 h = h * 21" for h :: u64 by (simp add: push_bit_eq_mult)
  then have 3: "inj (\<lambda>h :: u64. (h + push_bit 2 h) + push_bit 4 h)" using i(3) by (simp only:)
  have "h + push_bit 31 h = h * 0x80000001" for h :: u64 by (simp add: push_bit_eq_mult)
  then have 4: "inj (\<lambda>h :: u64. h + push_bit 31 h)" using i(4) by (simp only:)
  have eq: "wang_mix = (\<lambda>h. h + push_bit 31 h) \<circ> (\<lambda>h. h XOR drop_bit 28 h) \<circ>
      (\<lambda>h. (h + push_bit 2 h) + push_bit 4 h) \<circ> (\<lambda>h. h XOR drop_bit 14 h) \<circ>
      (\<lambda>h. (h + push_bit 3 h) + push_bit 8 h) \<circ> (\<lambda>h. h XOR drop_bit 24 h) \<circ>
      (\<lambda>h. (NOT h) + push_bit 21 h)"
    by (simp add: fun_eq_iff wang_mix_def Let_def)
  show ?thesis unfolding eq by (intro inj_compose 1 2 3 4 xorshift_inj) simp_all
qed

lemma mix_foldl_inj:
  "foldl (\<lambda>hash n. wang_mix (hash + n)) a xs = foldl (\<lambda>hash n. wang_mix (hash + n)) b xs \<Longrightarrow> a = b"
proof (induction xs arbitrary: a b)
  case (Cons x xs)
  then have "wang_mix (a + x) = wang_mix (b + x)" by simp
  then show ?case using wang_mix_inj by (simp add: inj_eq)
qed simp

text \<open>C25. The fingerprint of an unsafe iterator detects every change of exactly one of the six numbers it
  is made of (the two table addresses, the two size exponents, the two element counters): two
  states that differ in one of them have different fingerprints.\<close>

theorem dictFingerprint_detects:
  fixes d d' :: "('a, 'b) dict"
  assumes "j < 6" "fingerprint_integers d ! j \<noteq> fingerprint_integers d' ! j"
    "\<forall>i < 6. i \<noteq> j \<longrightarrow> fingerprint_integers d ! i = fingerprint_integers d' ! i"
  shows "dictFingerprint d \<noteq> dictFingerprint d'"
proof
  assume eq: "dictFingerprint d = dictFingerprint d'"
  let ?f = "foldl (\<lambda>hash n. wang_mix (hash + n))"
  have len: "length (fingerprint_integers x) = 6" for x :: "('a, 'b) dict"
    by (simp add: fingerprint_integers_def)
  have split: "fingerprint_integers x = take j (fingerprint_integers x) @
      fingerprint_integers x ! j # drop (Suc j) (fingerprint_integers x)" for x :: "('a, 'b) dict"
    using assms(1) len [of x] by (simp add: id_take_nth_drop)
  have pre: "take j (fingerprint_integers d) = take j (fingerprint_integers d')"
    using assms(1,3) by (intro nth_equalityI) (auto simp: len [of d] len [of d'])
  have post: "drop (Suc j) (fingerprint_integers d) = drop (Suc j) (fingerprint_integers d')"
    using assms(1,3) by (intro nth_equalityI) (auto simp: len [of d] len [of d'])
  have fp: "dictFingerprint x = ?f (wang_mix (?f 0 (take j (fingerprint_integers x)) +
      fingerprint_integers x ! j)) (drop (Suc j) (fingerprint_integers x))" for x :: "('a, 'b) dict"
    unfolding dictFingerprint_def by (subst split [of x]) (simp only: foldl_append foldl_Cons)
  let ?h = "?f 0 (take j (fingerprint_integers d'))"
  have "?f (wang_mix (?h + fingerprint_integers d ! j)) (drop (Suc j) (fingerprint_integers d')) =
      ?f (wang_mix (?h + fingerprint_integers d' ! j)) (drop (Suc j) (fingerprint_integers d'))"
    using eq unfolding fp pre post .
  from mix_foldl_inj [OF this] have "fingerprint_integers d ! j = fingerprint_integers d' ! j"
    using wang_mix_inj by (simp add: inj_eq)
  with assms(2) show False by simp
qed

theorem dictFingerprint_detects_witness:
  "dictFingerprint demo_dict \<noteq> dictFingerprint (demo_dict\<lparr>ht_used := (ht_used demo_dict)(0 := 5)\<rparr>)"
proof (rule dictFingerprint_detects [of 2])
  show "\<forall>i < 6. i \<noteq> 2 \<longrightarrow> fingerprint_integers demo_dict ! i =
      fingerprint_integers (demo_dict\<lparr>ht_used := (ht_used demo_dict)(0 := 5)\<rparr>) ! i"
    by (auto simp: fingerprint_integers_def nth_Cons' numeral_eq_Suc)
qed (simp_all add: fingerprint_integers_def demo_dict_def dictCreate_def dictInit_def dictReset_def Let_def)

subsection \<open>Iteration\<close>

definition nref :: "('k, 'v) dictEntry list \<Rightarrow> addr option" where
  "nref c = (case c of [] \<Rightarrow> None | e # _ \<Rightarrow> Some (eaddr e))"

lemma chain_next_ok:
  "eaddr e \<notin> eaddr ` set pre \<Longrightarrow> chain_next (pre @ e # post) (eaddr e) = Some (nref post)"
  by (induction pre) (auto simp: nref_def)

lemma chain_next_none: "a \<notin> eaddr ` set c \<Longrightarrow> chain_next c a = None"
  by (induction c) auto

lemma buckets_next_ok:
  "distinct (map eaddr (concat bs)) \<Longrightarrow> b < length bs \<Longrightarrow> bs ! b = pre @ e # post \<Longrightarrow>
     buckets_next bs (eaddr e) = Some (nref post)"
proof (induction bs arbitrary: b)
  case Nil
  then show ?case by simp
next
  case (Cons c bs)
  show ?case
  proof (cases b)
    case 0
    then have c: "c = pre @ e # post" using Cons.prems(3) by simp
    then have "eaddr e \<notin> eaddr ` set pre" using Cons.prems(1) by auto
    from chain_next_ok [OF this, of post] show ?thesis unfolding c by simp
  next
    case (Suc b')
    then have b': "b' < length bs" "bs ! b' = pre @ e # post" using Cons.prems by simp_all
    then have "e \<in> set (concat bs)" using nth_concat_subset [OF b'(1)] by auto
    then have "eaddr e \<notin> eaddr ` set c" using Cons.prems(1) by auto
    then show ?thesis using Cons.IH [OF _ b'] Cons.prems(1) by (simp add: chain_next_none)
  qed
qed

lemma next_ref_ok:
  assumes "distinct (map eaddr (entries d))" "tb \<le> 1" "b < length (buckets_of d tb)"
    "buckets_of d tb ! b = pre @ e # post"
  shows "next_ref d (eaddr e) = Some (nref post)"
proof -
  let ?bs = "buckets_of d 0 @ buckets_of d 1"
  let ?b = "(if tb = 0 then b else length (buckets_of d 0) + b)"
  have tb: "tb = 0 \<or> tb = 1" using assms(2) by linarith
  then have "?b < length ?bs" "?bs ! ?b = pre @ e # post" using assms(3,4) by (auto simp: nth_append)
  moreover have "distinct (map eaddr (concat ?bs))" using assms(1) by (simp add: entries_def)
  ultimately show ?thesis unfolding next_ref_def by (intro buckets_next_ok)
qed

definition later :: "('k, 'v) dict \<Rightarrow> nat \<Rightarrow> int \<Rightarrow> addr list" where
  "later d tb ix = map eaddr (concat (drop (nat (ix + 1)) (buckets_of d tb)) @
     (if tb = 0 then concat (buckets_of d 1) else []))"

definition it_pos :: "dictIterator \<Rightarrow> ('k, 'v) dict \<Rightarrow> bool" where
  "it_pos iter d \<longleftrightarrow> -1 \<le> index iter \<and> itable iter \<le> 1 \<and> (itable iter = 1 \<longrightarrow> dictIsRehashing d \<and> 0 \<le> index iter)"

definition in_chain :: "dictIterator \<Rightarrow> ('k, 'v) dict \<Rightarrow> addr \<Rightarrow> ('k, 'v) dictEntry list \<Rightarrow> bool" where
  "in_chain iter d a post \<longleftrightarrow> 0 \<le> index iter \<and> index iter < int (length (buckets_of d (itable iter))) \<and>
     (\<exists>pre e. buckets_of d (itable iter) ! nat (index iter) = pre @ e # post \<and> eaddr e = a)"

text \<open>\<open>it_ok\<close>: between two calls, \<open>rest\<close> is what is still to be returned; \<open>turned\<close>: after a turn of the
  loop, the current entry included.\<close>

definition it_ok :: "dictIterator \<Rightarrow> ('k, 'v) dict \<Rightarrow> addr list \<Rightarrow> bool" where
  "it_ok iter d rest \<longleftrightarrow> it_pos iter d \<and> (case entry iter of
     None \<Rightarrow> rest = later d (itable iter) (index iter)
   | Some a \<Rightarrow> \<exists>post. in_chain iter d a post \<and> nextEntry iter = nref post \<and>
       rest = map eaddr post @ later d (itable iter) (index iter))"

definition turned :: "dictIterator \<Rightarrow> ('k, 'v) dict \<Rightarrow> addr list \<Rightarrow> bool" where
  "turned iter d rest \<longleftrightarrow> it_pos iter d \<and> (case entry iter of
     None \<Rightarrow> rest = later d (itable iter) (index iter)
   | Some a \<Rightarrow> \<exists>post. in_chain iter d a post \<and>
       rest = a # map eaddr post @ later d (itable iter) (index iter))"

definition fresh_iter :: "dictIterator \<Rightarrow> bool" where
  "fresh_iter iter \<longleftrightarrow> index iter = -1 \<and> itable iter = 0"

definition opened :: "dictIterator \<Rightarrow> ('k, 'v) dict \<Rightarrow> ('k, 'v) dict" where
  "opened iter d = (if fresh_iter iter \<and> safe iter then dictPauseRehashing d else d)"

definition kept :: "dictIterator \<Rightarrow> ('k, 'v) dict \<Rightarrow> dictIterator \<Rightarrow> bool" where
  "kept iter d iter' \<longleftrightarrow> safe iter' = safe iter \<and> \<not> fresh_iter iter' \<and>
     fingerprint iter' = (if fresh_iter iter \<and> \<not> safe iter then dictFingerprint d else fingerprint iter)"

lemma opened_simps [simp]:
  "buckets_of (opened iter d) = buckets_of d" "entries (opened iter d) = entries d"
  "ht_size_exp (opened iter d) = ht_size_exp d" "dictIsRehashing (opened iter d) = dictIsRehashing d"
  "struct_ok (opened iter d) = struct_ok d" "ht_table (opened iter d) = ht_table d"
  by (auto simp: opened_def dictPauseRehashing_def dictIsRehashing_def fun_eq_iff)

lemma read_bucket_in:
  "b < length (buckets_of d i) \<Longrightarrow> read_bucket d i b = Some (buckets_of d i ! b)"
  by (auto simp: read_bucket_def buckets_of_def split: option.splits)

lemma bucket_head_in:
  "0 \<le> ix \<Longrightarrow> ix < int (length (buckets_of d i)) \<Longrightarrow>
     bucket_head d i ix = Some (nref (buckets_of d i ! nat ix))"
  by (simp add: bucket_head_def read_bucket_in nref_def nat_less_iff)

lemma later_slot:
  assumes "0 \<le> ix" "ix < int (length (buckets_of d tb))"
  shows "later d tb (ix - 1) = map eaddr (buckets_of d tb ! nat ix) @ later d tb ix"
proof -
  have "nat ix < length (buckets_of d tb)" using assms by linarith
  moreover have "nat (ix + 1) = Suc (nat ix)" using assms(1) by linarith
  ultimately show ?thesis by (simp add: later_def Cons_nth_drop_Suc [symmetric])
qed

text \<open>Loading slot \<open>ix\<close> of table \<open>tb\<close> gives a state in which the slot's chain comes first.\<close>

lemma load_slot_ok:
  assumes "0 \<le> index iter" "index iter < int (length (buckets_of d (itable iter)))" "it_pos iter d"
  shows "\<exists>iter'. load_slot iter d = Some (iter', d) \<and> turned iter' d (later d (itable iter) (index iter - 1)) \<and>
     index iter' = index iter \<and> itable iter' = itable iter \<and> safe iter' = safe iter \<and>
     fingerprint iter' = fingerprint iter"
proof -
  let ?c = "buckets_of d (itable iter) ! nat (index iter)"
  have eq: "load_slot iter d = Some (iter\<lparr>entry := nref ?c\<rparr>, d)"
    by (simp add: load_slot_def bucket_head_in [OF assms(1,2)])
  show ?thesis
  proof (cases ?c)
    case Nil
    then show ?thesis
      using eq assms(3) later_slot [OF assms(1,2)] by (simp add: turned_def it_pos_def nref_def)
  next
    case (Cons e post)
    then have "in_chain (iter\<lparr>entry := nref ?c\<rparr>) d (eaddr e) post"
      using assms(1,2) by (auto simp: in_chain_def intro: exI [of _ "[]"])
    then show ?thesis
      using eq assms(3) later_slot [OF assms(1,2)] Cons by (auto simp: turned_def it_pos_def nref_def)
  qed
qed

lemma first_next_eq:
  "first_next iter d = (if fresh_iter iter \<and> \<not> safe iter then iter\<lparr>fingerprint := dictFingerprint d\<rparr> else iter,
     opened iter d)"
  by (auto simp: first_next_def fresh_iter_def opened_def)

lemma struct_ok_sizes:
  assumes "struct_ok d" "i \<le> 1"
  shows "length (buckets_of d i) = DICTHT_SIZE (ht_size_exp d i)"
proof -
  have "i = 0 \<or> i = 1" using assms(2) by linarith
  then show ?thesis using assms(1) by (intro buckets_size) (auto simp: struct_ok_def)
qed

lemma struct_ok_table1:
  assumes "struct_ok d"
  shows "dictIsRehashing d \<Longrightarrow> 0 < length (buckets_of d 1)"
    and "\<not> dictIsRehashing d \<Longrightarrow> buckets_of d 1 = []"
  using assms by (auto simp: struct_ok_def rehash_ok_def dictIsRehashing_def buckets_of_def ht_ok_def table_ok_def)

lemma next_turn_ok:
  assumes "struct_ok d" "it_ok iter d rest"
  shows "(\<exists>iter'. rest = [] \<and> next_turn iter d = Some (Inl (iter', opened iter d)) \<and> kept iter d iter') \<or>
    (\<exists>iter'. next_turn iter d = Some (Inr (iter', opened iter d)) \<and> kept iter d iter' \<and>
       turned iter' (opened iter d) rest)"
proof (cases "entry iter")
  case (Some a)
  then obtain post where post: "in_chain iter d a post" "nextEntry iter = nref post"
    "rest = map eaddr post @ later d (itable iter) (index iter)" and pos: "it_pos iter d"
    using assms(2) by (auto simp: it_ok_def)
  then obtain pre e where c: "buckets_of d (itable iter) ! nat (index iter) = pre @ e # post" "eaddr e = a"
    "0 \<le> index iter" "index iter < int (length (buckets_of d (itable iter)))"
    by (auto simp: in_chain_def)
  have nf: "\<not> fresh_iter iter" using c(3) by (simp add: fresh_iter_def)
  have o: "opened iter d = d" using nf by (simp add: opened_def)
  have k: "kept iter d (iter\<lparr>entry := nextEntry iter\<rparr>)"
    using nf by (auto simp: kept_def fresh_iter_def)
  have "turned (iter\<lparr>entry := nextEntry iter\<rparr>) d rest"
  proof (cases post)
    case Nil
    then show ?thesis using post pos by (simp add: turned_def it_pos_def nref_def)
  next
    case (Cons e' post')
    then have "in_chain (iter\<lparr>entry := nextEntry iter\<rparr>) d (eaddr e') post'"
      using c by (auto simp: in_chain_def intro: exI [of _ "pre @ [e]"])
    then show ?thesis using Cons post pos by (auto simp: turned_def it_pos_def nref_def)
  qed
  then show ?thesis using Some o k by (auto simp: next_turn_def)
next
  case None
  let ?i = "if fresh_iter iter \<and> \<not> safe iter then iter\<lparr>fingerprint := dictFingerprint d\<rparr> else iter"
  let ?j = "?i\<lparr>index := index iter + 1\<rparr>"
  let ?d = "opened iter d"
  have pos: "it_pos iter d" and rest: "rest = later d (itable iter) (index iter)"
    using assms(2) None by (auto simp: it_ok_def)
  have i: "index ?i = index iter" "itable ?i = itable iter" "safe ?i = safe iter" by auto
  have len: "length (buckets_of d (itable iter)) = DICTHT_SIZE (ht_size_exp d (itable iter))"
    using struct_ok_sizes [OF assms(1)] pos by (simp add: it_pos_def)
  have fp: "fingerprint ?i = (if fresh_iter iter \<and> \<not> safe iter then dictFingerprint d else fingerprint iter)"
    by simp
  have turn: "next_turn iter d =
     (if int (DICTHT_SIZE (ht_size_exp d (itable iter))) \<le> index iter + 1 then
        (if dictIsRehashing d \<and> itable iter = 0
         then map_option Inr (load_slot (?j\<lparr>itable := 1, index := 0\<rparr>) ?d)
         else Some (Inl (?j, ?d)))
      else map_option Inr (load_slot ?j ?d))"
    using None i by (simp add: next_turn_def first_next_eq Let_def del: if_split)
  show ?thesis
  proof (cases "int (DICTHT_SIZE (ht_size_exp d (itable iter))) \<le> index iter + 1")
    case False
    have "\<exists>iter'. load_slot ?j ?d = Some (iter', ?d) \<and>
        turned iter' ?d (later ?d (itable ?j) (index ?j - 1)) \<and>
        index iter' = index ?j \<and> itable iter' = itable ?j \<and> safe iter' = safe ?j \<and>
        fingerprint iter' = fingerprint ?j"
      using False pos len i by (intro load_slot_ok) (auto simp: it_pos_def)
    then show ?thesis
      using turn False rest fp i pos by (auto simp: kept_def fresh_iter_def it_pos_def later_def)
  next
    case True
    then have fin: "drop (nat (index iter + 1)) (buckets_of d (itable iter)) = []" using len by simp
    show ?thesis
    proof (cases "dictIsRehashing d \<and> itable iter = 0")
      case False
      then have "rest = []"
        using rest fin struct_ok_table1(2) [OF assms(1)] pos by (auto simp: later_def it_pos_def)
      then show ?thesis
        using turn True False fp i pos by (auto simp: kept_def fresh_iter_def it_pos_def)
    next
      case sw: True
      let ?k = "?j\<lparr>itable := 1, index := 0\<rparr>"
      have "\<exists>iter'. load_slot ?k ?d = Some (iter', ?d) \<and>
        turned iter' ?d (later ?d (itable ?k) (index ?k - 1)) \<and>
        index iter' = index ?k \<and> itable iter' = itable ?k \<and> safe iter' = safe ?k \<and>
        fingerprint iter' = fingerprint ?k"
        using sw struct_ok_table1(1) [OF assms(1)] by (intro load_slot_ok) (auto simp: it_pos_def)
      moreover have "later d 1 (-1) = rest" using rest fin sw by (simp add: later_def)
      ultimately show ?thesis
        using turn True sw fp i by (auto simp: kept_def fresh_iter_def later_def)
    qed
  qed
qed

lemma kept_trans: "kept iter d i1 \<Longrightarrow> kept i1 d1 i2 \<Longrightarrow> kept iter d i2"
  by (simp add: kept_def)

lemma opened_again: "kept iter d iter' \<Longrightarrow> opened iter' d' = d'"
  by (simp add: kept_def opened_def)

lemma dictNext_ok:
  assumes "struct_ok d" "distinct (map eaddr (entries d))" "it_ok iter d rest"
  shows "\<exists>iter'. kept iter d iter' \<and>
    (case rest of
       [] \<Rightarrow> dictNext iter d = Some (iter', opened iter d, None)
     | a # as \<Rightarrow> dictNext iter d = Some (iter', opened iter d, Some a) \<and> it_ok iter' (opened iter d) as)"
  using assms
proof (induction iter d arbitrary: rest rule: dictNext.induct)
  case (1 iter d)
  from next_turn_ok [OF 1(2,4)] show ?case
  proof (elim disjE exE conjE)
    fix iter'
    assume "rest = []" "next_turn iter d = Some (Inl (iter', opened iter d))" "kept iter d iter'"
    then show ?thesis by (subst dictNext.simps) auto
  next
    fix i1
    assume turn: "next_turn iter d = Some (Inr (i1, opened iter d))" and k: "kept iter d i1"
      and t: "turned i1 (opened iter d) rest"
    show ?thesis
    proof (cases "entry i1")
      case None
      then have "it_ok i1 (opened iter d) rest" using t by (simp add: it_ok_def turned_def)
      from 1(1) [OF turn refl refl None _ _ this] 1(2,3)
      obtain iter' where "kept i1 (opened iter d) iter'"
        "case rest of
           [] \<Rightarrow> dictNext i1 (opened iter d) = Some (iter', opened iter d, None)
         | a # as \<Rightarrow> dictNext i1 (opened iter d) = Some (iter', opened iter d, Some a) \<and>
             it_ok iter' (opened iter d) as"
        unfolding opened_again [OF k] opened_simps by blast
      moreover have "dictNext iter d = dictNext i1 (opened iter d)"
        using turn None by (subst dictNext.simps) simp
      ultimately show ?thesis using kept_trans [OF k] by (auto split: list.splits)
    next
      case (Some a)
      then obtain post where post: "in_chain i1 (opened iter d) a post" "it_pos i1 (opened iter d)"
        "rest = a # map eaddr post @ later (opened iter d) (itable i1) (index i1)"
        using t by (auto simp: turned_def)
      then obtain pre e where "buckets_of d (itable i1) ! nat (index i1) = pre @ e # post" "eaddr e = a"
        "nat (index i1) < length (buckets_of d (itable i1))" "itable i1 \<le> 1"
        by (auto simp: in_chain_def it_pos_def nat_less_iff)
      then have nx: "next_ref (opened iter d) a = Some (nref post)"
        using next_ref_ok [of "opened iter d" "itable i1" "nat (index i1)" pre e post] 1(3) by simp
      have "it_ok (i1\<lparr>nextEntry := nref post\<rparr>) (opened iter d)
          (map eaddr post @ later (opened iter d) (itable i1) (index i1))"
        using post(1,2) Some by (auto simp: it_ok_def it_pos_def in_chain_def)
      moreover have "kept iter d (i1\<lparr>nextEntry := nref post\<rparr>)" using k by (simp add: kept_def fresh_iter_def)
      ultimately show ?thesis
        using turn Some nx post(3) by (subst dictNext.simps) auto
    qed
  qed
qed

text \<open>Calling \<open>dictNext\<close> until it answers \<open>NULL\<close>, at most \<open>n\<close> times.\<close>

fun drain :: "nat \<Rightarrow> dictIterator \<Rightarrow> ('k, 'v) dict \<Rightarrow> (addr list \<times> dictIterator \<times> ('k, 'v) dict) option" where
  "drain 0 iter d = Some ([], iter, d)"
| "drain (Suc n) iter d = do {
     (iter, d, r) \<leftarrow> dictNext iter d;
     (case r of
        None \<Rightarrow> Some ([], iter, d)
      | Some a \<Rightarrow> do { (as, iter, d) \<leftarrow> drain n iter d; Some (a # as, iter, d) }) }"

lemma drain_ok:
  assumes "struct_ok d" "distinct (map eaddr (entries d))" "it_ok iter d rest" "length rest < n"
  shows "\<exists>iter'. drain n iter d = Some (rest, iter', opened iter d) \<and> kept iter d iter'"
  using assms
proof (induction n arbitrary: iter d rest)
  case 0
  then show ?case by simp
next
  case (Suc n)
  obtain i1 where k: "kept iter d i1" and nx: "case rest of
       [] \<Rightarrow> dictNext iter d = Some (i1, opened iter d, None)
     | a # as \<Rightarrow> dictNext iter d = Some (i1, opened iter d, Some a) \<and> it_ok i1 (opened iter d) as"
    using dictNext_ok [OF Suc.prems(1-3)] by blast
  show ?case
  proof (cases rest)
    case Nil
    then show ?thesis using nx k by simp
  next
    case (Cons a as)
    then have "\<exists>iter'. drain n i1 (opened iter d) = Some (as, iter', opened i1 (opened iter d)) \<and>
        kept i1 (opened iter d) iter'"
      using Suc.prems nx by (intro Suc.IH) simp_all
    then show ?thesis
      using Cons nx kept_trans [OF k] opened_again [OF k, of "opened iter d"] by auto
  qed
qed

lemma start_ok:
  assumes "index iter = -1" "itable iter = 0" "entry iter = None"
  shows "it_ok iter d (map eaddr (entries d))"
  using assms by (simp add: it_ok_def it_pos_def later_def entries_def)

text \<open>C24. Iteration, safe or not, in any well-formed state (also in the middle of a rehash): calling
  \<open>dictNext\<close> on a new iterator until it answers \<open>NULL\<close> returns the entry of every element of both
  tables exactly once and no other pointer, and releasing the iterator afterwards passes the
  fingerprint assertion and restores the dictionary, the pause counter included.\<close>

theorem dictNext_visits_all:
  assumes "dict_inv ok d" "dictSize d < n" "iter = dictGetIterator mem \<or> iter = dictGetSafeIterator mem"
  shows "\<exists>iter' d'. drain n iter d = Some (map eaddr (entries d), iter', d') \<and>
     distinct (map eaddr (entries d)) \<and> dictReleaseIterator iter' d' = Some d"
proof -
  have st: "struct_ok d" "distinct (map eaddr (entries d))"
    using assms(1) by (auto simp: dict_inv_struct keys_ok_def)
  have it: "index iter = -1" "itable iter = 0" "entry iter = None"
    using assms(3) by (auto simp: dictGetIterator_def dictGetSafeIterator_def dictInitIterator_def)
  have "length (map eaddr (entries d)) < n" using assms(2) dictSize_entries [OF st(1)] by simp
  from drain_ok [OF st start_ok [OF it] this] obtain iter' where
    r: "drain n iter d = Some (map eaddr (entries d), iter', opened iter d)" "kept iter d iter'" by blast
  have "dictReleaseIterator iter' (opened iter d) = Some d"
    using r(2) it
    by (auto simp: dictReleaseIterator_def dictResetIterator_def kept_def fresh_iter_def opened_def
        dictPauseRehashing_def dictResumeRehashing_def)
  with r(1) st(2) show ?thesis by blast
qed

definition demo_iter :: dictIterator where
  "demo_iter = \<lparr>index = 4, itable = 1, safe = False, entry = None, nextEntry = None, fingerprint = 0\<rparr>"

theorem dictNext_visits_all_witness:
  "\<exists>d iter' d'. dictAdd (demo_env 1) demo_dict (demo_key 97) 7 = Some (d, DICT_OK) \<and>
     drain 2 (dictGetSafeIterator demo_iter) d = Some (map eaddr (entries d), iter', d') \<and>
     dictReleaseIterator iter' d' = Some d"
proof -
  obtain d where d: "dictAdd (demo_env 1) demo_dict (demo_key 97) 7 = Some (d, DICT_OK)"
    "dict_inv short_key d" "dictSize d = 1"
    using demo_added by blast
  from dictNext_visits_all [OF d(2), of 2 "dictGetSafeIterator demo_iter" demo_iter] d(1,3) show ?thesis by auto
qed

end
