(* ===== verification/Sds.thy ===== *)
theory Sds
  imports Prelude
begin

text \<open>
  The dynamic strings of \<open>myRedis/src/sds.c\<close> and \<open>sds.h\<close>: headers, allocation and the operations
  that work on one string in place.

  A string is a record: the type of its header, the length and capacity fields of that header at
  their width (a store truncates), and the bytes from the string pointer to the end of the memory
  block. The allocator is a parameter that answers the bytes of a fresh block for a size, or \<open>None\<close>
  without memory; \<open>zmalloc\<close> then aborts, which is a fault. \<open>malloc_ok\<close> is what it documents: the block
  has at least the size asked for. \<open>size_t\<close> arithmetic is on natural numbers with the wrap-around
  at \<open>2 ^ 64\<close> written out where the code guards against it. Writing outside of the block is a fault.
\<close>

subsection \<open>Headers\<close>

definition SDS_TYPE_5 :: nat where "SDS_TYPE_5 = 0"
definition SDS_TYPE_8 :: nat where "SDS_TYPE_8 = 1"
definition SDS_TYPE_16 :: nat where "SDS_TYPE_16 = 2"
definition SDS_TYPE_32 :: nat where "SDS_TYPE_32 = 3"
definition SDS_TYPE_64 :: nat where "SDS_TYPE_64 = 4"
definition SDS_MAX_PREALLOC :: nat where "SDS_MAX_PREALLOC = 1024 * 1024"

record sds =
  stype :: nat
  slen :: nat
  salloc :: nat
  buf :: "byte list"

lemmas sds_types = SDS_TYPE_5_def SDS_TYPE_8_def SDS_TYPE_16_def SDS_TYPE_32_def SDS_TYPE_64_def

definition sdsHdrSize :: "nat \<Rightarrow> nat" where
  "sdsHdrSize type =
     (if type = SDS_TYPE_5 then 1 else if type = SDS_TYPE_8 then 3 else if type = SDS_TYPE_16 then 5
      else if type = SDS_TYPE_32 then 9 else if type = SDS_TYPE_64 then 17 else 0)"

definition sdsReqType :: "nat \<Rightarrow> nat" where
  "sdsReqType string_size =
     (if string_size < 2 ^ 5 then SDS_TYPE_5 else if string_size < 2 ^ 8 then SDS_TYPE_8
      else if string_size < 2 ^ 16 then SDS_TYPE_16 else if string_size < 2 ^ 32 then SDS_TYPE_32
      else SDS_TYPE_64)"

definition sdsTypeMaxSize :: "nat \<Rightarrow> nat" where
  "sdsTypeMaxSize type =
     (if type = SDS_TYPE_5 then 2 ^ 5 - 1 else if type = SDS_TYPE_8 then 2 ^ 8 - 1
      else if type = SDS_TYPE_16 then 2 ^ 16 - 1 else if type = SDS_TYPE_32 then 2 ^ 32 - 1
      else 2 ^ 64 - 1)"

text \<open>The width of the length field; type 5 keeps the length in the upper five bits of the flags.\<close>

definition len_bits :: "nat \<Rightarrow> nat" where
  "len_bits type =
     (if type = SDS_TYPE_5 then 5 else if type = SDS_TYPE_8 then 8 else if type = SDS_TYPE_16 then 16
      else if type = SDS_TYPE_32 then 32 else 64)"

definition sdslen :: "sds \<Rightarrow> nat" where
  "sdslen s = (if stype s \<le> SDS_TYPE_64 then slen s else 0)"

definition sdsavail :: "sds \<Rightarrow> nat" where
  "sdsavail s =
     (if stype s = SDS_TYPE_5 then 0
      else if stype s = SDS_TYPE_32 then (salloc s + 2 ^ 32 - slen s) mod 2 ^ 32
      else if stype s \<le> SDS_TYPE_64 then (salloc s + 2 ^ 64 - slen s) mod 2 ^ 64
      else 0)"

definition sdssetlen :: "sds \<Rightarrow> nat \<Rightarrow> sds" where
  "sdssetlen s newlen = s\<lparr>slen := newlen mod 2 ^ len_bits (stype s)\<rparr>"

definition sdsinclen :: "sds \<Rightarrow> nat \<Rightarrow> sds" where
  "sdsinclen s inc = s\<lparr>slen := (slen s + inc) mod 2 ^ len_bits (stype s)\<rparr>"

definition sdsalloc :: "sds \<Rightarrow> nat" where
  "sdsalloc s = (if stype s = SDS_TYPE_5 then slen s else if stype s \<le> SDS_TYPE_64 then salloc s else 0)"

definition sdssetalloc :: "sds \<Rightarrow> nat \<Rightarrow> sds" where
  "sdssetalloc s newlen =
     (if stype s = SDS_TYPE_5 then s else s\<lparr>salloc := newlen mod 2 ^ len_bits (stype s)\<rparr>)"

subsection \<open>Memory\<close>

type_synonym malloc = "nat \<Rightarrow> byte list option"

definition malloc_ok :: "malloc \<Rightarrow> bool" where
  "malloc_ok mal \<longleftrightarrow> (\<forall>n. \<exists>b. mal n = Some b \<and> n \<le> length b)"

text \<open>\<open>memcpy\<close> to an offset; \<open>memmove\<close> inside a buffer; \<open>realloc\<close> keeps what fits.\<close>

definition write_at :: "byte list \<Rightarrow> nat \<Rightarrow> byte list \<Rightarrow> byte list option" where
  "write_at b off xs =
     (if off + length xs \<le> length b then Some (take off b @ xs @ drop (off + length xs) b) else None)"

definition read_at :: "byte list \<Rightarrow> nat \<Rightarrow> nat \<Rightarrow> byte list option" where
  "read_at b off n = (if off + n \<le> length b then Some (take n (drop off b)) else None)"

definition realloc :: "malloc \<Rightarrow> nat \<Rightarrow> byte list \<Rightarrow> nat \<Rightarrow> byte list option" where
  "realloc mal hdrlen old n = do {
     blk \<leftarrow> mal n;
     let fresh = drop hdrlen blk;
     Some (take (length fresh) old @ drop (length old) fresh) }"

subsection \<open>Creation\<close>

datatype init = Null | NoInit | Init "byte list"

definition sdsnewlen_ex :: "malloc \<Rightarrow> init \<Rightarrow> nat \<Rightarrow> bool \<Rightarrow> sds option option" where
  "sdsnewlen_ex mal init initlen trymalloc = do {
     let type = sdsReqType initlen;
     let type = (if type = SDS_TYPE_5 \<and> initlen = 0 then SDS_TYPE_8 else type);
     let hdrlen = sdsHdrSize type;
     ensure (initlen < (initlen + hdrlen + 1) mod 2 ^ 64);
     (case mal (hdrlen + initlen + 1) of
        None \<Rightarrow> if trymalloc then Some None else None
      | Some blk \<Rightarrow> do {
          let usable = min (length blk - hdrlen - 1) (sdsTypeMaxSize type);
          let mem = drop hdrlen (if init = Null
                      then replicate (hdrlen + initlen + 1) 0 @ drop (hdrlen + initlen + 1) blk else blk);
          let s = sdssetalloc (sdssetlen \<lparr>stype = type, slen = 0, salloc = 0, buf = mem\<rparr> initlen) usable;
          mem \<leftarrow> (case init of
             Init src \<Rightarrow> if initlen \<noteq> 0 then do { xs \<leftarrow> read_at src 0 initlen; write_at mem 0 xs } else Some mem
           | _ \<Rightarrow> Some mem);
          mem \<leftarrow> set_at mem initlen 0;
          Some (Some (s\<lparr>buf := mem\<rparr>)) }) }"

definition sdsnewlen :: "malloc \<Rightarrow> init \<Rightarrow> nat \<Rightarrow> sds option" where
  "sdsnewlen mal init initlen = Option.bind (sdsnewlen_ex mal init initlen False) id"

definition sdstrynewlen :: "malloc \<Rightarrow> init \<Rightarrow> nat \<Rightarrow> sds option option" where
  "sdstrynewlen mal init initlen = sdsnewlen_ex mal init initlen True"

definition sdsempty :: "malloc \<Rightarrow> sds option" where
  "sdsempty mal = sdsnewlen mal (Init []) 0"

text \<open>\<open>strlen\<close> of a C string given by its memory; without a terminator it runs out of the block.\<close>

definition strlen :: "byte list \<Rightarrow> nat option" where
  "strlen mem = (let n = length (takeWhile (\<lambda>b. b \<noteq> 0) mem) in if n < length mem then Some n else None)"

definition sdsnew :: "malloc \<Rightarrow> byte list option \<Rightarrow> sds option" where
  "sdsnew mal init = (case init of
     None \<Rightarrow> sdsnewlen mal Null 0
   | Some mem \<Rightarrow> do { n \<leftarrow> strlen mem; sdsnewlen mal (Init mem) n })"

definition sdsdup :: "malloc \<Rightarrow> sds \<Rightarrow> sds option" where
  "sdsdup mal s = sdsnewlen mal (Init (buf s)) (sdslen s)"

definition sdsupdatelen :: "sds \<Rightarrow> sds option" where
  "sdsupdatelen s = do { reallen \<leftarrow> strlen (buf s); Some (sdssetlen s reallen) }"

definition sdsclear :: "sds \<Rightarrow> sds option" where
  "sdsclear s = do { let s = sdssetlen s 0; b \<leftarrow> set_at (buf s) 0 0; Some (s\<lparr>buf := b\<rparr>) }"

subsection \<open>Room\<close>

definition sdsMakeRoomFor_ex :: "malloc \<Rightarrow> sds \<Rightarrow> nat \<Rightarrow> bool \<Rightarrow> sds option" where
  "sdsMakeRoomFor_ex mal s addlen greedy =
     (if addlen \<le> sdsavail s then Some s
      else do {
        let len = sdslen s;
        let reqlen = (len + addlen) mod 2 ^ 64;
        ensure (len < reqlen);
        let newlen = (if greedy then (if reqlen < SDS_MAX_PREALLOC then reqlen * 2
                                      else (reqlen + SDS_MAX_PREALLOC) mod 2 ^ 64) else reqlen);
        let type = sdsReqType newlen;
        let type = (if type = SDS_TYPE_5 then SDS_TYPE_8 else type);
        let hdrlen = sdsHdrSize type;
        ensure (reqlen < (hdrlen + newlen + 1) mod 2 ^ 64);
        (mem, s) \<leftarrow> (if stype s = type
          then do { mem \<leftarrow> realloc mal hdrlen (buf s) (hdrlen + newlen + 1); Some (mem, s) }
          else do {
            blk \<leftarrow> mal (hdrlen + newlen + 1);
            xs \<leftarrow> read_at (buf s) 0 (len + 1);
            mem \<leftarrow> write_at (drop hdrlen blk) 0 xs;
            Some (mem, sdssetlen (s\<lparr>stype := type\<rparr>) len) });
        let usable = min (length mem - 1) (sdsTypeMaxSize type);
        Some (sdssetalloc (s\<lparr>buf := mem\<rparr>) usable) })"

definition sdsMakeRoomFor :: "malloc \<Rightarrow> sds \<Rightarrow> nat \<Rightarrow> sds option" where
  "sdsMakeRoomFor mal s addlen = sdsMakeRoomFor_ex mal s addlen True"

definition sdsMakeRoomForNonGreedy :: "malloc \<Rightarrow> sds \<Rightarrow> nat \<Rightarrow> sds option" where
  "sdsMakeRoomForNonGreedy mal s addlen = sdsMakeRoomFor_ex mal s addlen False"

definition sdsRemoveFreeSpace :: "malloc \<Rightarrow> sds \<Rightarrow> sds option" where
  "sdsRemoveFreeSpace mal s =
     (if sdsavail s = 0 then Some s
      else do {
        let len = sdslen s;
        let oldhdrlen = sdsHdrSize (stype s);
        let type = sdsReqType len;
        let hdrlen = sdsHdrSize type;
        s \<leftarrow> (if stype s = type \<or> SDS_TYPE_8 < type
          then do { mem \<leftarrow> realloc mal oldhdrlen (buf s) (oldhdrlen + len + 1); Some (s\<lparr>buf := mem\<rparr>) }
          else do {
            blk \<leftarrow> mal (hdrlen + len + 1);
            xs \<leftarrow> read_at (buf s) 0 (len + 1);
            mem \<leftarrow> write_at (drop hdrlen blk) 0 xs;
            Some (sdssetlen (s\<lparr>stype := type, buf := mem\<rparr>) len) });
        Some (sdssetalloc s len) })"

definition sdsResize :: "malloc \<Rightarrow> sds \<Rightarrow> nat \<Rightarrow> sds option" where
  "sdsResize mal s sz =
     (if sdsalloc s = sz then Some s
      else do {
        let oldhdrlen = sdsHdrSize (stype s);
        let len = (if sz < sdslen s then sz else sdslen s);
        let type = sdsReqType sz;
        let type = (if type = SDS_TYPE_5 then SDS_TYPE_8 else type);
        let hdrlen = sdsHdrSize type;
        s \<leftarrow> (if stype s = type \<or> (type < stype s \<and> SDS_TYPE_8 < type)
          then do { mem \<leftarrow> realloc mal oldhdrlen (buf s) (oldhdrlen + sz + 1); Some (s\<lparr>buf := mem\<rparr>) }
          else do {
            blk \<leftarrow> mal (hdrlen + sz + 1);
            xs \<leftarrow> read_at (buf s) 0 len;
            mem \<leftarrow> write_at (drop hdrlen blk) 0 xs;
            Some (s\<lparr>stype := type, buf := mem\<rparr>) });
        mem \<leftarrow> set_at (buf s) len 0;
        Some (sdssetalloc (sdssetlen (s\<lparr>buf := mem\<rparr>) len) sz) })"

definition sdsAllocSize :: "sds \<Rightarrow> nat" where
  "sdsAllocSize s = sdsHdrSize (stype s) + sdsalloc s + 1"

text \<open>The assertion of every header type, with the casts to \<open>unsigned int\<close> it has, and the store.
  \<open>incr\<close> is a signed 64-bit number.\<close>

definition incr_allowed :: "sds \<Rightarrow> int \<Rightarrow> bool" where
  "incr_allowed s incr =
     (if stype s = SDS_TYPE_5
      then (0 < incr \<and> int (slen s) + incr < 32) \<or> (incr < 0 \<and> (- incr) mod 2 ^ 32 \<le> int (slen s))
      else if stype s = SDS_TYPE_8 \<or> stype s = SDS_TYPE_16
      then (0 \<le> incr \<and> incr \<le> int (salloc s) - int (slen s)) \<or> (incr < 0 \<and> (- incr) mod 2 ^ 32 \<le> int (slen s))
      else if stype s = SDS_TYPE_32
      then (0 \<le> incr \<and> incr mod 2 ^ 32 \<le> (int (salloc s) - int (slen s)) mod 2 ^ 32) \<or>
           (incr < 0 \<and> (- incr) mod 2 ^ 32 \<le> int (slen s))
      else if stype s = SDS_TYPE_64
      then (0 \<le> incr \<and> incr \<le> (int (salloc s) - int (slen s)) mod 2 ^ 64) \<or>
           (incr < 0 \<and> (- incr) mod 2 ^ 64 \<le> int (slen s))
      else True)"

definition sdsIncrLen :: "sds \<Rightarrow> int \<Rightarrow> sds option" where
  "sdsIncrLen s incr = do {
     ensure (incr_allowed s incr);
     let newlen = nat ((int (slen s) + incr) mod 2 ^ 64);
     let s' = (if stype s \<le> SDS_TYPE_64 then sdssetlen s newlen else s);
     let len = (if stype s = SDS_TYPE_5 then newlen else sdslen s');
     mem \<leftarrow> set_at (buf s') len 0;
     Some (s'\<lparr>buf := mem\<rparr>) }"

subsection \<open>Appending and copying\<close>

definition sdsgrowzero :: "malloc \<Rightarrow> sds \<Rightarrow> nat \<Rightarrow> sds option" where
  "sdsgrowzero mal s len = (let curlen = sdslen s in
     if len \<le> curlen then Some s
     else do {
       s \<leftarrow> sdsMakeRoomFor mal s (len - curlen);
       mem \<leftarrow> write_at (buf s) curlen (replicate (len - curlen + 1) 0);
       Some (sdssetlen (s\<lparr>buf := mem\<rparr>) len) })"

text \<open>The source bytes \<open>t\<close> have the length the caller passes.\<close>

definition sdscatlen :: "malloc \<Rightarrow> sds \<Rightarrow> byte list \<Rightarrow> sds option" where
  "sdscatlen mal s t = do {
     let curlen = sdslen s;
     s \<leftarrow> sdsMakeRoomFor mal s (length t);
     mem \<leftarrow> write_at (buf s) curlen t;
     let s = sdssetlen (s\<lparr>buf := mem\<rparr>) (curlen + length t);
     mem \<leftarrow> set_at (buf s) (curlen + length t) 0;
     Some (s\<lparr>buf := mem\<rparr>) }"

definition sdscat :: "malloc \<Rightarrow> sds \<Rightarrow> byte list \<Rightarrow> sds option" where
  "sdscat mal s t = do { n \<leftarrow> strlen t; sdscatlen mal s (take n t) }"

definition sdscatsds :: "malloc \<Rightarrow> sds \<Rightarrow> sds \<Rightarrow> sds option" where
  "sdscatsds mal s t = do { xs \<leftarrow> read_at (buf t) 0 (sdslen t); sdscatlen mal s xs }"

definition sdscpylen :: "malloc \<Rightarrow> sds \<Rightarrow> byte list \<Rightarrow> sds option" where
  "sdscpylen mal s t = do {
     s \<leftarrow> (if sdsalloc s < length t then sdsMakeRoomFor mal s (length t - sdslen s) else Some s);
     mem \<leftarrow> write_at (buf s) 0 t;
     mem \<leftarrow> set_at mem (length t) 0;
     Some (sdssetlen (s\<lparr>buf := mem\<rparr>) (length t)) }"

definition sdscpy :: "malloc \<Rightarrow> sds \<Rightarrow> byte list \<Rightarrow> sds option" where
  "sdscpy mal s t = do { n \<leftarrow> strlen t; sdscpylen mal s (take n t) }"

subsection \<open>Numbers\<close>

definition LLONG_MIN :: int where "LLONG_MIN = - (2 ^ 63)"
definition LLONG_MAX :: int where "LLONG_MAX = 2 ^ 63 - 1"
definition SDS_LLSTR_SIZE :: nat where "SDS_LLSTR_SIZE = 21"

text \<open>The \<open>do ... while\<close> that writes the digits from the last to the first, and the in-place reversal.\<close>

function rev_digits :: "nat \<Rightarrow> byte list" where
  "rev_digits v = of_nat (48 + v mod 10) # (if v div 10 = 0 then [] else rev_digits (v div 10))"
  by pat_completeness auto
termination by (relation "measure id") auto

declare rev_digits.simps [simp del]

function reverse_loop :: "byte list \<Rightarrow> nat \<Rightarrow> nat \<Rightarrow> byte list" where
  "reverse_loop xs i j = (if i < j then reverse_loop (xs[i := xs ! j, j := xs ! i]) (i + 1) (j - 1) else xs)"
  by pat_completeness auto
termination by (relation "measure (\<lambda>(xs, i, j). j - i)") auto

declare reverse_loop.simps [simp del]

definition sdsll2str :: "int \<Rightarrow> byte list" where
  "sdsll2str value =
     (let v = (if value < 0
               then (if value \<noteq> LLONG_MIN then nat (- value) else nat (LLONG_MAX + 1))
               else nat value);
          p = rev_digits v @ (if value < 0 then [45] else [])
      in reverse_loop p 0 (length p - 1))"

definition sdsull2str :: "nat \<Rightarrow> byte list" where
  "sdsull2str v = (let p = rev_digits v in reverse_loop p 0 (length p - 1))"

definition sdsfromlonglong :: "malloc \<Rightarrow> int \<Rightarrow> sds option" where
  "sdsfromlonglong mal value =
     (let b = sdsll2str value in
      do { ensure (length b < SDS_LLSTR_SIZE); sdsnewlen mal (Init b) (length b) })"

subsection \<open>Formatted appending\<close>

datatype fmt_arg = ArgStr "byte list" | ArgSds sds | ArgInt int | ArgLongLong int
  | ArgUInt nat | ArgULongLong nat

text \<open>\<open>memcpy(s+i,str,l); sdsinclen(s,l); i += l\<close> after making room.\<close>

definition fmt_put :: "malloc \<Rightarrow> sds \<Rightarrow> nat \<Rightarrow> byte list \<Rightarrow> (sds \<times> nat) option" where
  "fmt_put mal s i str = do {
     s \<leftarrow> (if sdsavail s < length str then sdsMakeRoomFor mal s (length str) else Some s);
     mem \<leftarrow> write_at (buf s) i str;
     Some (sdsinclen (s\<lparr>buf := mem\<rparr>) (length str), i + length str) }"

definition fmt_char :: "sds \<Rightarrow> nat \<Rightarrow> byte \<Rightarrow> (sds \<times> nat) option" where
  "fmt_char s i c = do {
     mem \<leftarrow> set_at (buf s) i c;
     Some (sdsinclen (s\<lparr>buf := mem\<rparr>) 1, i + 1) }"

text \<open>The bytes a conversion appends; a missing argument or one of another type is undefined.\<close>

definition fmt_bytes :: "byte \<Rightarrow> fmt_arg \<Rightarrow> byte list option" where
  "fmt_bytes c arg =
     (if c = 115 then (case arg of ArgStr t \<Rightarrow> do { n \<leftarrow> strlen t; Some (take n t) } | _ \<Rightarrow> None)
      else if c = 83 then (case arg of ArgSds t \<Rightarrow> read_at (buf t) 0 (sdslen t) | _ \<Rightarrow> None)
      else if c = 105 then (case arg of ArgInt n \<Rightarrow> Some (sdsll2str n) | _ \<Rightarrow> None)
      else if c = 73 then (case arg of ArgLongLong n \<Rightarrow> Some (sdsll2str n) | _ \<Rightarrow> None)
      else if c = 117 then (case arg of ArgUInt n \<Rightarrow> Some (sdsull2str n) | _ \<Rightarrow> None)
      else (case arg of ArgULongLong n \<Rightarrow> Some (sdsull2str n) | _ \<Rightarrow> None))"

definition is_conversion :: "byte \<Rightarrow> bool" where
  "is_conversion c \<longleftrightarrow> c = 115 \<or> c = 83 \<or> c = 105 \<or> c = 73 \<or> c = 117 \<or> c = 85"

text \<open>The loop over the format (without its terminator); 37 is the percent sign.\<close>

fun catfmt_loop :: "malloc \<Rightarrow> byte list \<Rightarrow> fmt_arg list \<Rightarrow> sds \<Rightarrow> nat \<Rightarrow> (sds \<times> nat) option" where
  "catfmt_loop mal [] args s i = Some (s, i)"
| "catfmt_loop mal (f # fs) args s i = do {
     s \<leftarrow> (if sdsavail s = 0 then sdsMakeRoomFor mal s 1 else Some s);
     (if f = 37 then
        (case fs of
           [] \<Rightarrow> catfmt_loop mal [] args s i
         | c # rest \<Rightarrow>
             if is_conversion c then
               (case args of
                  [] \<Rightarrow> None
                | a # args' \<Rightarrow> do {
                    str \<leftarrow> fmt_bytes c a;
                    (s, i) \<leftarrow> fmt_put mal s i str;
                    catfmt_loop mal rest args' s i })
             else do { (s, i) \<leftarrow> fmt_char s i c; catfmt_loop mal rest args s i })
      else do { (s, i) \<leftarrow> fmt_char s i f; catfmt_loop mal fs args s i }) }"

definition sdscatfmt :: "malloc \<Rightarrow> sds \<Rightarrow> byte list \<Rightarrow> fmt_arg list \<Rightarrow> sds option" where
  "sdscatfmt mal s fmt args = do {
     let initlen = sdslen s;
     s \<leftarrow> sdsMakeRoomFor mal s (length fmt * 2);
     (s, i) \<leftarrow> catfmt_loop mal fmt args s initlen;
     mem \<leftarrow> set_at (buf s) i 0;
     Some (s\<lparr>buf := mem\<rparr>) }"

subsection \<open>In-place edits\<close>

text \<open>\<open>strchr\<close> also finds the terminator of the set.\<close>

definition in_cset :: "byte list \<Rightarrow> byte \<Rightarrow> bool" where
  "in_cset cset c \<longleftrightarrow> c \<in> set cset \<or> c = 0"

function trim_left :: "byte list \<Rightarrow> byte list \<Rightarrow> nat \<Rightarrow> nat \<Rightarrow> nat option" where
  "trim_left mem cset len sp =
     (if sp < len then
        (if sp < length mem
         then (if in_cset cset (mem ! sp) then trim_left mem cset len (sp + 1) else Some sp) else None)
      else Some sp)"
  by pat_completeness auto
termination by (relation "measure (\<lambda>(_, _, len, sp). len - sp)") auto

function trim_right :: "byte list \<Rightarrow> byte list \<Rightarrow> nat \<Rightarrow> int \<Rightarrow> int option" where
  "trim_right mem cset sp ep =
     (if int sp < ep then
        (if nat ep < length mem
         then (if in_cset cset (mem ! nat ep) then trim_right mem cset sp (ep - 1) else Some ep) else None)
      else Some ep)"
  by pat_completeness auto
termination by (relation "measure (\<lambda>(_, _, sp, ep). nat (ep - int sp))") auto

declare trim_left.simps [simp del] trim_right.simps [simp del]

definition sdstrim :: "sds \<Rightarrow> byte list \<Rightarrow> sds option" where
  "sdstrim s cset = do {
     sp \<leftarrow> trim_left (buf s) cset (sdslen s) 0;
     ep \<leftarrow> trim_right (buf s) cset sp (int (sdslen s) - 1);
     let len = nat (ep - int sp + 1);
     mem \<leftarrow> (if sp \<noteq> 0 then do { xs \<leftarrow> read_at (buf s) sp len; write_at (buf s) 0 xs } else Some (buf s));
     mem \<leftarrow> set_at mem len 0;
     Some (sdssetlen (s\<lparr>buf := mem\<rparr>) len) }"

definition sdssubstr :: "sds \<Rightarrow> nat \<Rightarrow> nat \<Rightarrow> sds option" where
  "sdssubstr s start len = do {
     let oldlen = sdslen s;
     let (start, len) = (if oldlen \<le> start then (0, 0) else (start, len));
     let len = (if oldlen - start < len then oldlen - start else len);
     mem \<leftarrow> (if len \<noteq> 0 then do { xs \<leftarrow> read_at (buf s) start len; write_at (buf s) 0 xs } else Some (buf s));
     mem \<leftarrow> set_at mem len 0;
     Some (sdssetlen (s\<lparr>buf := mem\<rparr>) len) }"

text \<open>\<open>start\<close> and \<open>end\<close> are signed 64-bit numbers; a negative start becomes a huge \<open>size_t\<close>.\<close>

definition sdsrange :: "sds \<Rightarrow> int \<Rightarrow> int \<Rightarrow> sds option" where
  "sdsrange s start stop = (let len = sdslen s in
     if len = 0 then Some s
     else let start = (if start < 0 then int len + start else start);
              stop = (if stop < 0 then int len + stop else stop);
              newlen = (if stop < start then 0 else nat (stop - start) + 1)
          in sdssubstr s (nat (start mod 2 ^ 64)) newlen)"

definition tolower :: "byte \<Rightarrow> byte" where
  "tolower c = (if 65 \<le> c \<and> c \<le> 90 then c + 32 else c)"

definition toupper :: "byte \<Rightarrow> byte" where
  "toupper c = (if 97 \<le> c \<and> c \<le> 122 then c - 32 else c)"

text \<open>The loop \<open>for (j = 0; j < len; j++) s[j] = f(s[j])\<close>.\<close>

fun map_loop :: "(byte \<Rightarrow> byte) \<Rightarrow> nat \<Rightarrow> nat \<Rightarrow> byte list \<Rightarrow> byte list option" where
  "map_loop f 0 j mem = Some mem"
| "map_loop f (Suc n) j mem = do {
     c \<leftarrow> get_at mem j;
     mem \<leftarrow> set_at mem j (f c);
     map_loop f n (j + 1) mem }"

definition sdstolower :: "sds \<Rightarrow> sds option" where
  "sdstolower s = do { mem \<leftarrow> map_loop tolower (sdslen s) 0 (buf s); Some (s\<lparr>buf := mem\<rparr>) }"

definition sdstoupper :: "sds \<Rightarrow> sds option" where
  "sdstoupper s = do { mem \<leftarrow> map_loop toupper (sdslen s) 0 (buf s); Some (s\<lparr>buf := mem\<rparr>) }"

text \<open>The inner loop of \<open>sdsmapchars\<close>: the first match in \<open>from\<close> decides.\<close>

fun map_char :: "byte list \<Rightarrow> byte list \<Rightarrow> byte \<Rightarrow> byte" where
  "map_char (x # xs) (y # ys) c = (if c = x then y else map_char xs ys c)"
| "map_char _ _ c = c"

definition sdsmapchars :: "sds \<Rightarrow> byte list \<Rightarrow> byte list \<Rightarrow> sds option" where
  "sdsmapchars s from to =
     do { mem \<leftarrow> map_loop (map_char from to) (sdslen s) 0 (buf s); Some (s\<lparr>buf := mem\<rparr>) }"

subsection \<open>Comparison\<close>

definition sdscmp :: "sds \<Rightarrow> sds \<Rightarrow> int option" where
  "sdscmp s1 s2 = do {
     let l1 = sdslen s1; let l2 = sdslen s2;
     let minlen = (if l1 < l2 then l1 else l2);
     a \<leftarrow> read_at (buf s1) 0 minlen;
     b \<leftarrow> read_at (buf s2) 0 minlen;
     let cmp = memcmp a b minlen;
     Some (if cmp = 0 then (if l2 < l1 then 1 else if l1 < l2 then -1 else 0) else cmp) }"

subsection \<open>Well-formed strings\<close>

definition sds_wf :: "sds \<Rightarrow> bool" where
  "sds_wf s \<longleftrightarrow> stype s \<le> SDS_TYPE_64 \<and> slen s < 2 ^ len_bits (stype s) \<and> slen s < length (buf s) \<and>
     (stype s \<noteq> SDS_TYPE_5 \<longrightarrow> slen s \<le> salloc s \<and> salloc s < 2 ^ len_bits (stype s) \<and> salloc s < length (buf s))"

text \<open>A well-formed string with its terminator.\<close>

definition sds_ok :: "sds \<Rightarrow> bool" where
  "sds_ok s \<longleftrightarrow> sds_wf s \<and> buf s ! slen s = 0"

definition content :: "sds \<Rightarrow> byte list" where
  "content s = take (slen s) (buf s)"

lemma len_bits_cases: "type \<le> SDS_TYPE_64 \<Longrightarrow> len_bits type \<in> {5, 8, 16, 32, 64}"
  by (simp add: len_bits_def sds_types)

lemma len_bits_le: "len_bits type \<le> 64"
  by (simp add: len_bits_def)

lemma reqtype_fits: "n < 2 ^ 64 \<Longrightarrow> n < 2 ^ len_bits (sdsReqType n)"
  by (simp add: sdsReqType_def len_bits_def sds_types)

lemma reqtype_le: "sdsReqType n \<le> SDS_TYPE_64"
  by (simp add: sdsReqType_def sds_types)

lemma maxsize_bits: "type \<le> SDS_TYPE_64 \<Longrightarrow> sdsTypeMaxSize type = 2 ^ len_bits type - 1"
  by (auto simp: sdsTypeMaxSize_def len_bits_def sds_types)

lemma hdr_small: "sdsHdrSize type \<le> 17"
  by (simp add: sdsHdrSize_def)

lemma min_maxsize: "type \<le> SDS_TYPE_64 \<Longrightarrow> min n (sdsTypeMaxSize type) mod 2 ^ len_bits type = min n (sdsTypeMaxSize type)"
proof -
  assume "type \<le> SDS_TYPE_64"
  then have "min n (sdsTypeMaxSize type) < 2 ^ len_bits type"
    by (simp add: maxsize_bits min_less_iff_disj)
  then show ?thesis by simp
qed

lemma wf_sdslen [simp]: "sds_wf s \<Longrightarrow> sdslen s = slen s"
  by (simp add: sds_wf_def sdslen_def)

lemma wf_content_length: "sds_wf s \<Longrightarrow> length (content s) = slen s"
  by (simp add: sds_wf_def content_def)

lemma wf_avail:
  assumes "sds_wf s"
  shows "sdsavail s = (if stype s = SDS_TYPE_5 then 0 else salloc s - slen s)"
proof -
  have w: "(a + 2 ^ n - l) mod 2 ^ n = a - l" if "l \<le> a" "a < 2 ^ n" for a l n :: nat
  proof -
    have "a + 2 ^ n - l = (a - l) + 2 ^ n" using that by simp
    then have "(a + 2 ^ n - l) mod 2 ^ n = (a - l + 2 ^ n) mod 2 ^ n" by (simp only:)
    also have "\<dots> = (a - l) mod 2 ^ n" by (rule mod_add_self2)
    also have "\<dots> = a - l" using that by (intro mod_less) simp
    finally show ?thesis .
  qed
  have t: "stype s \<le> SDS_TYPE_64" using assms by (simp add: sds_wf_def)
  have l: "slen s \<le> salloc s" "salloc s < 2 ^ len_bits (stype s)" if "stype s \<noteq> SDS_TYPE_5"
    using assms that by (simp_all add: sds_wf_def)
  consider "stype s = SDS_TYPE_5" | "stype s = SDS_TYPE_32" | "stype s \<noteq> SDS_TYPE_5" "stype s \<noteq> SDS_TYPE_32"
    by blast
  then show ?thesis
  proof cases
    case 1
    then show ?thesis by (simp add: sdsavail_def)
  next
    case 2
    then have "stype s \<noteq> SDS_TYPE_5" "len_bits (stype s) = 32" by (simp_all add: sds_types len_bits_def)
    then have "slen s \<le> salloc s" "salloc s < 2 ^ 32" using l by simp_all
    from w [OF this] show ?thesis
      unfolding sdsavail_def using 2 \<open>stype s \<noteq> SDS_TYPE_5\<close> by (simp only: if_False if_True simp_thms)
  next
    case 3
    have "salloc s < 2 ^ len_bits (stype s)" using l(2) 3 by blast
    also have "\<dots> \<le> 2 ^ 64" using len_bits_le by (intro power_increasing) simp_all
    finally have "salloc s < 2 ^ 64" .
    then show ?thesis
      using 3 t w [OF l(1) [OF 3(1)], of 64] by (simp only: sdsavail_def if_False if_True simp_thms)
  qed
qed

lemma write_at_in: "off + length xs \<le> length b \<Longrightarrow>
    write_at b off xs = Some (take off b @ xs @ drop (off + length xs) b)"
  by (simp add: write_at_def)

lemma read_at_in: "off + n \<le> length b \<Longrightarrow> read_at b off n = Some (take n (drop off b))"
  by (simp add: read_at_def)

lemma realloc_ok:
  assumes "malloc_ok mal" "hdrlen + n + 1 = m"
  shows "\<exists>mem. realloc mal hdrlen old m = Some mem \<and> n < length mem \<and>
     (\<forall>k \<le> length old. k \<le> n + 1 \<longrightarrow> take k mem = take k old)"
proof -
  obtain blk where blk: "mal m = Some blk" "m \<le> length blk"
    using assms(1) by (auto simp: malloc_ok_def)
  let ?f = "drop hdrlen blk"
  have "n < length ?f" using blk(2) assms(2) by simp
  then show ?thesis
    using blk(1) by (intro exI [of _ "take (length ?f) old @ drop (length old) ?f"])
      (auto simp: realloc_def Let_def min_def)
qed

lemma MakeRoom_ok:
  assumes "malloc_ok mal" "sds_wf s" "slen s + addlen < 2 ^ 62"
  shows "\<exists>s'. sdsMakeRoomFor_ex mal s addlen greedy = Some s' \<and> sds_wf s' \<and> slen s' = slen s \<and>
     take (slen s + 1) (buf s') = take (slen s + 1) (buf s) \<and> addlen \<le> sdsavail s' \<and>
     slen s + addlen < length (buf s') \<and>
     (greedy \<and> sdsavail s < addlen \<longrightarrow> min (2 * (slen s + addlen)) (slen s + addlen + SDS_MAX_PREALLOC) \<le> sdsalloc s')"
proof (cases "addlen \<le> sdsavail s")
  case True
  then have "slen s + addlen < length (buf s)"
    using assms(2) wf_avail [OF assms(2)] by (auto simp: sds_wf_def split: if_splits)
  then show ?thesis using True assms(2) by (simp add: sdsMakeRoomFor_ex_def)
next
  case False
  let ?req = "slen s + addlen"
  define newlen where "newlen = (if greedy then (if ?req < SDS_MAX_PREALLOC then ?req * 2
                                      else (?req + SDS_MAX_PREALLOC) mod 2 ^ 64) else ?req)"
  define type where "type = (if sdsReqType newlen = SDS_TYPE_5 then SDS_TYPE_8 else sdsReqType newlen)"
  have add: "0 < addlen" using False by simp
  have req: "?req mod 2 ^ 64 = ?req" using assms(3) by simp
  have new: "?req \<le> newlen" "newlen < 2 ^ 63" 
    "greedy \<longrightarrow> min (2 * ?req) (?req + SDS_MAX_PREALLOC) \<le> newlen"
    using assms(3) by (auto simp: newlen_def SDS_MAX_PREALLOC_def)
  have type: "type \<le> SDS_TYPE_64" "type \<noteq> SDS_TYPE_5" "newlen < 2 ^ len_bits type"
    using reqtype_le [of newlen] reqtype_fits [of newlen] new(2)
    by (auto simp: type_def sds_types len_bits_def)
  let ?h = "sdsHdrSize type"
  have guard: "?req < (?h + newlen + 1) mod 2 ^ 64"
  proof -
    have "?h + newlen + 1 < 2 ^ 64" using new(2) hdr_small [of type] by simp
    then have "(?h + newlen + 1) mod 2 ^ 64 = ?h + newlen + 1" by (rule mod_less)
    then show ?thesis using new(1) by linarith
  qed
  have unfolded: "sdsMakeRoomFor_ex mal s addlen greedy = do {
        (mem, s) \<leftarrow> (if stype s = type
          then do { mem \<leftarrow> realloc mal ?h (buf s) (?h + newlen + 1); Some (mem, s) }
          else do {
            blk \<leftarrow> mal (?h + newlen + 1);
            xs \<leftarrow> read_at (buf s) 0 (slen s + 1);
            mem \<leftarrow> write_at (drop ?h blk) 0 xs;
            Some (mem, sdssetlen (s\<lparr>stype := type\<rparr>) (slen s)) });
        Some (sdssetalloc (s\<lparr>buf := mem\<rparr>) (min (length mem - 1) (sdsTypeMaxSize type))) }"
    unfolding sdsMakeRoomFor_ex_def Let_def wf_sdslen [OF assms(2)] req newlen_def [symmetric]
      type_def [symmetric]
    using False add guard by simp
  have lens: "slen s + 1 \<le> length (buf s)" "slen s < 2 ^ len_bits type" "slen s + 1 \<le> newlen"
    using assms(2) new(1) add type(3) by (auto simp: sds_wf_def)
  have finish: "sds_wf s' \<and> addlen \<le> sdsavail s' \<and> newlen \<le> sdsalloc s'"
    if "newlen < length mem" "s' = s\<lparr>stype := type, buf := mem, salloc := min (length mem - 1) (sdsTypeMaxSize type)\<rparr>"
    for mem s'
  proof -
    define U where "U = min (length mem - 1) (sdsTypeMaxSize type)"
    have "newlen \<le> length mem - 1" "newlen \<le> 2 ^ len_bits type - 1" using that(1) type(3) by linarith+
    then have U: "newlen \<le> U" using type(1) by (simp add: U_def maxsize_bits)
    have "U < 2 ^ len_bits type" "U \<le> length mem - 1"
      using type(1) by (simp_all add: U_def maxsize_bits min_less_iff_disj)
    moreover have s': "s' = s\<lparr>stype := type, buf := mem, salloc := U\<rparr>" using that(2) by (simp only: U_def)
    ultimately have "sds_wf s'" using that(1) lens type(1,2) U by (auto simp: sds_wf_def)
    moreover have "addlen \<le> U - slen s" using U new(1) by linarith
    ultimately show ?thesis
      using wf_avail [of s'] U type(1,2) unfolding s' by (simp add: sdsalloc_def)
  qed
  show ?thesis
  proof (cases "stype s = type")
    case True
    obtain mem where mem: "realloc mal ?h (buf s) (?h + newlen + 1) = Some mem" "newlen < length mem"
      "take (slen s + 1) mem = take (slen s + 1) (buf s)"
      using realloc_ok [OF assms(1), of ?h newlen _ "buf s"] lens by force
    let ?s = "s\<lparr>stype := type, buf := mem, salloc := min (length mem - 1) (sdsTypeMaxSize type)\<rparr>"
    have "sdsMakeRoomFor_ex mal s addlen greedy = Some ?s"
      unfolding unfolded using True mem(1) type by (simp add: sdssetalloc_def min_maxsize)
    then show ?thesis using finish [OF mem(2) refl] mem new lens by auto
  next
    case neq: False
    obtain blk where blk: "mal (?h + newlen + 1) = Some blk" "?h + newlen + 1 \<le> length blk"
      using assms(1) by (auto simp: malloc_ok_def)
    let ?mem = "take (slen s + 1) (buf s) @ drop (slen s + 1) (drop ?h blk)"
    let ?s = "s\<lparr>stype := type, buf := ?mem, salloc := min (length ?mem - 1) (sdsTypeMaxSize type)\<rparr>"
    have len: "newlen < length ?mem" using blk(2) lens by simp
    have "write_at (drop ?h blk) 0 (take (slen s + 1) (buf s)) = Some ?mem"
      using blk(2) lens by (simp add: write_at_in min_def)
    then have "sdsMakeRoomFor_ex mal s addlen greedy = Some ?s"
      unfolding unfolded using neq blk(1) lens type
      by (simp add: read_at_in sdssetalloc_def sdssetlen_def min_maxsize)
    then show ?thesis using finish [OF len refl] len new lens by auto
  qed
qed

subsection \<open>Creation and appending\<close>

lemma newlen_ok:
  assumes "malloc_ok mal" "n < 2 ^ 62" "\<And>src. init = Init src \<Longrightarrow> n \<le> length src"
  shows "\<exists>s. sdsnewlen mal init n = Some s \<and> sds_ok s \<and> slen s = n \<and>
     (\<forall>src. init = Init src \<longrightarrow> content s = take n src) \<and> (init = Null \<longrightarrow> content s = replicate n 0)"
proof -
  define type where "type = (if sdsReqType n = SDS_TYPE_5 \<and> n = 0 then SDS_TYPE_8 else sdsReqType n)"
  let ?h = "sdsHdrSize type"
  have type: "type \<le> SDS_TYPE_64" "n < 2 ^ len_bits type"
    using reqtype_le [of n] reqtype_fits [of n] assms(2) by (auto simp: type_def sds_types)
  obtain blk where blk: "mal (?h + n + 1) = Some blk" "?h + n + 1 \<le> length blk"
    using assms(1) by (auto simp: malloc_ok_def)
  have guard: "n < (n + ?h + 1) mod 2 ^ 64"
  proof -
    have "n + ?h + 1 < 2 ^ 64" using assms(2) hdr_small [of type] by simp
    then have "(n + ?h + 1) mod 2 ^ 64 = n + ?h + 1" by (rule mod_less)
    then show ?thesis by linarith
  qed
  define U where "U = min (length blk - ?h - 1) (sdsTypeMaxSize type)"
  have "n \<le> length blk - ?h - 1" "n \<le> 2 ^ len_bits type - 1" using blk(2) type(2) by linarith+
  then have U: "n \<le> U" "U \<le> length blk - ?h - 1" "U < 2 ^ len_bits type"
    using type(1) by (simp_all add: U_def maxsize_bits min_less_iff_disj)
  define mem where "mem = drop ?h (if init = Null then replicate (?h + n + 1) 0 @ drop (?h + n + 1) blk else blk)"
  have len: "length mem = length blk - ?h" using blk(2) by (auto simp: mem_def)
  have nmem: "n < length mem" using len blk(2) by simp
  define mem1 where "mem1 = (case init of Init src \<Rightarrow> take n src @ drop n mem | _ \<Rightarrow> mem)"
  have len1: "length mem1 = length mem"
    using assms(3) nmem by (cases init) (simp_all add: mem1_def)
  define s where "s = \<lparr>stype = type, slen = n, salloc = (if type = SDS_TYPE_5 then 0 else U), buf = mem1[n := 0]\<rparr>"
  have step: "(case init of
             Init src \<Rightarrow> if n \<noteq> 0 then do { xs \<leftarrow> read_at src 0 n; write_at mem 0 xs } else Some mem
           | _ \<Rightarrow> Some mem) = Some mem1"
    using assms(3) nmem by (cases init) (auto simp: mem1_def read_at_in write_at_in min_def)
  have "sdsnewlen mal init n = Some s"
    unfolding sdsnewlen_def sdsnewlen_ex_def Let_def type_def [symmetric] blk(1) option.case
      mem_def [symmetric] U_def [symmetric] step
    using guard nmem len1 type U(3)
    by (simp add: s_def sdssetalloc_def sdssetlen_def)
  moreover have "sds_ok s"
    using type U nmem len len1 by (auto simp: sds_ok_def sds_wf_def s_def)
  moreover have "content s = take n mem1" by (simp add: content_def s_def)
  moreover have "take n mem1 = take n src" if "init = Init src" for src
    using assms(3) [OF that] by (simp add: mem1_def that min_def)
  moreover have "take n mem1 = replicate n 0" if "init = Null"
  proof -
    have "drop ?h (replicate (?h + n + 1) 0 @ xs) = replicate n 0 @ 0 # xs" for xs :: "byte list"
      by (simp only: drop_append drop_replicate length_replicate) (simp add: replicate_append_same)
    then show ?thesis using that by (simp add: mem1_def mem_def del: replicate_Suc)
  qed
  ultimately show ?thesis by (intro exI [of _ s]) (simp add: s_def)
qed

lemma catlen_ok:
  assumes "malloc_ok mal" "sds_wf s" "slen s + length t < 2 ^ 62"
  shows "\<exists>s'. sdscatlen mal s t = Some s' \<and> sds_ok s' \<and> content s' = content s @ t"
proof -
  obtain r where r: "sdsMakeRoomFor mal s (length t) = Some r" "sds_wf r" "slen r = slen s"
    "take (slen s + 1) (buf r) = take (slen s + 1) (buf s)" "length t \<le> sdsavail r"
    "slen s + length t < length (buf r)"
    using MakeRoom_ok [OF assms, of True] unfolding sdsMakeRoomFor_def by blast
  have room: "slen s + length t \<le> (if stype r = SDS_TYPE_5 then slen s else salloc r)"
    using r(2,3,5) wf_avail [OF r(2)] by (auto simp: sds_wf_def split: if_splits)
  then have small: "slen s + length t < 2 ^ len_bits (stype r)"
    using r(2,3) by (auto simp: sds_wf_def split: if_splits)
  let ?mem = "(take (slen s) (buf r) @ t @ drop (slen s + length t) (buf r))"
  let ?s = "r\<lparr>slen := slen s + length t, buf := ?mem[slen s + length t := 0]\<rparr>"
  have "sdscatlen mal s t = Some ?s"
    using assms(2) r(1,6) small by (simp add: sdscatlen_def Let_def write_at_in sdssetlen_def)
  moreover have "sds_ok ?s"
    using r(2,6) small room by (auto simp: sds_ok_def sds_wf_def split: if_splits)
  moreover have "take (slen s) (buf r) = content s"
    using arg_cong [OF r(4), of "take (slen s)"] by (simp add: content_def)
  then have "content ?s = content s @ t"
    using r(6) assms(2) by (simp add: content_def sds_wf_def)
  ultimately show ?thesis by blast
qed

text \<open>The interface the text functions use: appending to a string.\<close>

locale appendable =
  fixes ok :: "'s \<Rightarrow> bool" and val :: "'s \<Rightarrow> 'a list" and append :: "'s \<Rightarrow> 'a list \<Rightarrow> 's option"
    and room :: nat
  assumes append_ok: "ok s \<Longrightarrow> length (val s) + length t < room \<Longrightarrow>
    \<exists>s'. append s t = Some s' \<and> ok s' \<and> val s' = val s @ t"
begin

text \<open>Appending piece after piece.\<close>

fun append_all :: "'s \<Rightarrow> 'a list list \<Rightarrow> 's option" where
  "append_all s [] = Some s"
| "append_all s (t # ts) = append s t \<bind> (\<lambda>s. append_all s ts)"

lemma append_all_ok:
  "ok s \<Longrightarrow> length (val s) + length (concat ts) < room \<Longrightarrow>
     \<exists>s'. append_all s ts = Some s' \<and> ok s' \<and> val s' = val s @ concat ts"
proof (induction ts arbitrary: s)
  case Nil
  then show ?case by simp
next
  case (Cons t ts)
  obtain s1 where s1: "append s t = Some s1" "ok s1" "val s1 = val s @ t"
    using append_ok [OF Cons.prems(1), of t] Cons.prems(2) by auto
  with Cons.IH [OF s1(2)] Cons.prems(2) show ?case by auto
qed

end

interpretation sds_append: appendable sds_ok content "sdscatlen mal" "if malloc_ok mal then 2 ^ 62 else 0" for mal
proof
  fix s :: sds and t :: "byte list"
  assume "sds_ok s" "length (content s) + length t < (if malloc_ok mal then 2 ^ 62 else 0)"
  then show "\<exists>s'. sdscatlen mal s t = Some s' \<and> sds_ok s' \<and> content s' = content s @ t"
    using catlen_ok [of mal s t] wf_content_length [of s] by (auto simp: sds_ok_def split: if_splits)
qed

subsection \<open>Copying and resizing\<close>

text \<open>Writing \<open>xs\<close> at the start with its terminator and setting the length: what the in-place operations
  end with.\<close>

lemma set_content_ok:
  assumes "sds_wf s" "length xs \<le> slen s \<or> (stype s \<noteq> SDS_TYPE_5 \<and> length xs \<le> salloc s)"
    "length mem = length (buf s)" "take (length xs) mem = xs"
  shows "sds_ok (sdssetlen (s\<lparr>buf := mem[length xs := 0]\<rparr>) (length xs)) \<and>
     content (sdssetlen (s\<lparr>buf := mem[length xs := 0]\<rparr>) (length xs)) = xs \<and>
     length xs < length mem"
  using assms by (auto simp: sds_ok_def sds_wf_def content_def sdssetlen_def)

lemma cpylen_ok:
  assumes "malloc_ok mal" "sds_wf s" "slen s + length t < 2 ^ 62"
  shows "\<exists>s'. sdscpylen mal s t = Some s' \<and> sds_ok s' \<and> content s' = t"
proof -
  obtain r where r: "(if sdsalloc s < length t then sdsMakeRoomFor mal s (length t - sdslen s) else Some s) = Some r"
    "sds_wf r" "length t \<le> slen r \<or> (stype r \<noteq> SDS_TYPE_5 \<and> length t \<le> salloc r)"
  proof (cases "sdsalloc s < length t")
    case True
    have "slen s \<le> sdsalloc s" using assms(2) by (auto simp: sdsalloc_def sds_wf_def)
    with True have le: "slen s < length t" by linarith
    obtain r where "sdsMakeRoomFor mal s (length t - slen s) = Some r" "sds_wf r" "slen r = slen s"
      "length t - slen s \<le> sdsavail r"
      using MakeRoom_ok [OF assms(1,2), of "length t - slen s" True] assms(3) le
      unfolding sdsMakeRoomFor_def by auto
    then show ?thesis
      using that [of r] True assms(2) le wf_avail [of r] by (auto split: if_splits)
  next
    case False
    then show ?thesis using that [of s] assms(2) by (auto simp: sdsalloc_def sds_wf_def split: if_splits)
  qed
  have l: "length t < length (buf r)" using r(2,3) by (auto simp: sds_wf_def)
  let ?mem = "t @ drop (length t) (buf r)"
  have "sdscpylen mal s t = Some (sdssetlen (r\<lparr>buf := ?mem[length t := 0]\<rparr>) (length t))"
    using r(1) l by (simp add: sdscpylen_def write_at_in)
  then show ?thesis using set_content_ok [OF r(2,3), of ?mem] l by simp
qed

lemma growzero_ok:
  assumes "malloc_ok mal" "sds_ok s" "len < 2 ^ 62"
  shows "\<exists>s'. sdsgrowzero mal s len = Some s' \<and> sds_ok s' \<and>
     content s' = content s @ replicate (len - slen s) 0"
proof (cases "len \<le> slen s")
  case True
  then show ?thesis using assms(2) by (simp add: sdsgrowzero_def sds_ok_def)
next
  case False
  have wf: "sds_wf s" using assms(2) by (simp add: sds_ok_def)
  obtain r where r: "sdsMakeRoomFor mal s (len - slen s) = Some r" "sds_wf r" "slen r = slen s"
    "take (slen s + 1) (buf r) = take (slen s + 1) (buf s)" "len - slen s \<le> sdsavail r"
    "slen s + (len - slen s) < length (buf r)"
    using MakeRoom_ok [OF assms(1) wf, of "len - slen s" True] assms(3) False
    unfolding sdsMakeRoomFor_def by auto
  have room: "stype r \<noteq> SDS_TYPE_5 \<and> len \<le> salloc r"
    using r(2,3,5) False wf_avail [OF r(2)] by (auto split: if_splits)
  then have small: "len < 2 ^ len_bits (stype r)" using r(2) by (auto simp: sds_wf_def)
  let ?mem = "take (slen s) (buf r) @ replicate (len - slen s + 1) 0 @ drop (len + 1) (buf r)"
  let ?s = "r\<lparr>buf := ?mem, slen := len\<rparr>"
  have "sdsgrowzero mal s len = Some ?s"
    using False wf r(1,6) small by (simp add: sdsgrowzero_def Let_def write_at_in sdssetlen_def del: replicate_Suc)
  moreover have "take (slen s) (buf r) = content s"
    using arg_cong [OF r(4), of "take (slen s)"] by (simp add: content_def)
  moreover have "length (content s) = slen s" using wf by (rule wf_content_length)
  moreover have "replicate (len - slen s + 1) 0 = replicate (len - slen s) 0 @ [0 :: byte]"
    by (simp add: replicate_append_same)
  ultimately show ?thesis
    using r(2,3,6) room small False
    by (intro exI [of _ ?s]) (auto simp: sds_ok_def sds_wf_def content_def nth_append)
qed

lemma Resize_ok:
  assumes "malloc_ok mal" "sds_ok s" "sz < 2 ^ 62"
  shows "\<exists>s'. sdsResize mal s sz = Some s' \<and> sds_ok s' \<and> content s' = take sz (content s) \<and> sdsalloc s' = sz"
proof (cases "sdsalloc s = sz")
  case True
  then show ?thesis using assms(2)
    by (auto simp: sdsResize_def sds_ok_def sds_wf_def sdsalloc_def content_def split: if_splits)
next
  case False
  have wf: "sds_wf s" using assms(2) by (simp add: sds_ok_def)
  define len where "len = (if sz < slen s then sz else slen s)"
  define type where "type = (if sdsReqType sz = SDS_TYPE_5 then SDS_TYPE_8 else sdsReqType sz)"
  have type: "type \<le> SDS_TYPE_64" "type \<noteq> SDS_TYPE_5" "sz < 2 ^ len_bits type"
    using reqtype_le [of sz] reqtype_fits [of sz] assms(3) by (auto simp: type_def sds_types len_bits_def)
  have len: "len \<le> sz" "len \<le> slen s" "len < length (buf s)" "take sz (content s) = take len (buf s)"
    using wf by (auto simp: len_def content_def sds_wf_def min_def)
  have finish: "sds_ok s' \<and> content s' = take len (buf s) \<and> sdsalloc s' = sz"
    if "s' = sdssetalloc (sdssetlen (s\<lparr>stype := ty, buf := mem[len := 0]\<rparr>) len) sz" "sz < length mem"
      "take len mem = take len (buf s)" "ty \<le> SDS_TYPE_64" "ty \<noteq> SDS_TYPE_5" "sz < 2 ^ len_bits ty"
    for s' ty mem
    using that len by (auto simp: sds_ok_def sds_wf_def sdssetalloc_def sdssetlen_def content_def sdsalloc_def)
  show ?thesis
  proof (cases "stype s = type \<or> (type < stype s \<and> SDS_TYPE_8 < type)")
    case keep: True
    have ty: "stype s \<le> SDS_TYPE_64" "stype s \<noteq> SDS_TYPE_5" "sz < 2 ^ len_bits (stype s)"
    proof -
      show "stype s \<le> SDS_TYPE_64" using wf by (simp add: sds_wf_def)
      show "stype s \<noteq> SDS_TYPE_5" using keep type(2) by (auto simp: sds_types)
      have "len_bits type \<le> len_bits (stype s)"
        using keep \<open>stype s \<le> SDS_TYPE_64\<close> by (auto simp: len_bits_def sds_types)
      then have "(2::nat) ^ len_bits type \<le> 2 ^ len_bits (stype s)" by (intro power_increasing) simp_all
      then show "sz < 2 ^ len_bits (stype s)" using type(3) by linarith
    qed
    obtain mem where mem: "realloc mal (sdsHdrSize (stype s)) (buf s) (sdsHdrSize (stype s) + sz + 1) = Some mem"
      "sz < length mem" "take len mem = take len (buf s)"
      using realloc_ok [OF assms(1), of "sdsHdrSize (stype s)" sz _ "buf s"] len by force
    have "sdsResize mal s sz = Some (sdssetalloc (sdssetlen (s\<lparr>stype := stype s, buf := mem[len := 0]\<rparr>) len) sz)"
      unfolding sdsResize_def Let_def wf_sdslen [OF wf] len_def [symmetric] type_def [symmetric]
      using False keep mem(1,2) len(1) by simp
    then show ?thesis using finish [OF refl mem(2,3) ty] len(4) by metis
  next
    case new: False
    obtain blk where blk: "mal (sdsHdrSize type + sz + 1) = Some blk" "sdsHdrSize type + sz + 1 \<le> length blk"
      using assms(1) by (auto simp: malloc_ok_def)
    let ?mem = "take len (buf s) @ drop len (drop (sdsHdrSize type) blk)"
    have mem: "sz < length ?mem" "take len ?mem = take len (buf s)" using blk(2) len by (auto simp: min_def)
    have "write_at (drop (sdsHdrSize type) blk) 0 (take len (buf s)) = Some ?mem"
      using blk(2) len by (simp add: write_at_in min_def)
    then have "sdsResize mal s sz = Some (sdssetalloc (sdssetlen (s\<lparr>stype := type, buf := ?mem[len := 0]\<rparr>) len) sz)"
      unfolding sdsResize_def Let_def wf_sdslen [OF wf] len_def [symmetric] type_def [symmetric] if_not_P [OF new]
      using False blk(1) len mem(1) by (simp add: read_at_in)
    then show ?thesis using finish [OF refl mem type] len(4) by metis
  qed
qed

lemma RemoveFreeSpace_ok:
  assumes "malloc_ok mal" "sds_ok s"
  shows "\<exists>s'. sdsRemoveFreeSpace mal s = Some s' \<and> sds_ok s' \<and> content s' = content s \<and> sdsavail s' = 0"
proof (cases "sdsavail s = 0")
  case True
  then show ?thesis using assms(2) by (simp add: sdsRemoveFreeSpace_def)
next
  case False
  have wf: "sds_wf s" using assms(2) by (simp add: sds_ok_def)
  define type where "type = sdsReqType (slen s)"
  have ty5: "stype s \<noteq> SDS_TYPE_5" using False wf_avail [OF wf] by (auto split: if_splits)
  have "slen s < 2 ^ 64"
  proof -
    have "slen s < 2 ^ len_bits (stype s)" using wf by (simp add: sds_wf_def)
    also have "\<dots> \<le> 2 ^ 64" using len_bits_le by (intro power_increasing) simp_all
    finally show ?thesis .
  qed
  then have type: "type \<le> SDS_TYPE_64" "slen s < 2 ^ len_bits type"
    using reqtype_le reqtype_fits by (auto simp: type_def)
  have lens: "slen s < length (buf s)" "buf s ! slen s = 0" "slen s < 2 ^ len_bits (stype s)"
    using assms(2) by (auto simp: sds_ok_def sds_wf_def)
  have finish: "sds_ok s' \<and> content s' = content s \<and> sdsavail s' = 0"
    if "s' = sdssetalloc (sdssetlen (s\<lparr>stype := ty, buf := mem\<rparr>) (slen s)) (slen s)" "slen s < length mem"
      "take (slen s + 1) mem = take (slen s + 1) (buf s)" "ty \<le> SDS_TYPE_64" "slen s < 2 ^ len_bits ty"
    for s' ty mem
  proof -
    have "take (slen s) mem = take (slen s) (buf s)"
      using arg_cong [OF that(3), of "take (slen s)"] by simp
    moreover have "mem ! slen s = buf s ! slen s"
      using arg_cong [OF that(3), of "\<lambda>x. x ! slen s"] by simp
    ultimately have "sds_ok s'" "content s' = content s"
      using that lens by (auto simp: sds_ok_def sds_wf_def sdssetalloc_def sdssetlen_def content_def)
    moreover from this have "sdsavail s' = 0"
      using wf_avail [of s'] that by (auto simp: sds_ok_def sdssetalloc_def sdssetlen_def)
    ultimately show ?thesis by blast
  qed
  show ?thesis
  proof (cases "stype s = type \<or> SDS_TYPE_8 < type")
    case keep: True
    obtain mem where mem: "realloc mal (sdsHdrSize (stype s)) (buf s) (sdsHdrSize (stype s) + slen s + 1) = Some mem"
      "slen s < length mem" "take (slen s + 1) mem = take (slen s + 1) (buf s)"
      using realloc_ok [OF assms(1), of "sdsHdrSize (stype s)" "slen s" _ "buf s"] lens by force
    have "sdsRemoveFreeSpace mal s = Some (sdssetalloc (sdssetlen (s\<lparr>stype := stype s, buf := mem\<rparr>) (slen s)) (slen s))"
      unfolding sdsRemoveFreeSpace_def Let_def wf_sdslen [OF wf] type_def [symmetric]
      using False keep mem(1) lens(3) by (simp add: sdssetlen_def sdssetalloc_def)
    moreover have "stype s \<le> SDS_TYPE_64" using wf by (simp add: sds_wf_def)
    ultimately show ?thesis using finish [OF refl mem(2,3) _ lens(3)] by metis
  next
    case new: False
    obtain blk where blk: "mal (sdsHdrSize type + slen s + 1) = Some blk" "sdsHdrSize type + slen s + 1 \<le> length blk"
      using assms(1) by (auto simp: malloc_ok_def)
    let ?mem = "take (slen s + 1) (buf s) @ drop (slen s + 1) (drop (sdsHdrSize type) blk)"
    have mem: "slen s < length ?mem" "take (slen s + 1) ?mem = take (slen s + 1) (buf s)"
      using lens by (auto simp: min_def)
    have "length (take (slen s + 1) (buf s)) = slen s + 1" using lens(1) by simp
    then have "write_at (drop (sdsHdrSize type) blk) 0 (take (slen s + 1) (buf s)) = Some ?mem"
      using blk(2) unfolding write_at_def by simp
    then have "sdsRemoveFreeSpace mal s = Some (sdssetalloc (sdssetlen (s\<lparr>stype := type, buf := ?mem\<rparr>) (slen s)) (slen s))"
      unfolding sdsRemoveFreeSpace_def Let_def wf_sdslen [OF wf] type_def [symmetric]
      using False new blk(1) lens by (simp add: read_at_in)
    then show ?thesis using finish [OF refl mem type] by metis
  qed
qed

subsection \<open>Increments\<close>

lemma IncrLen_ok:
  assumes "sds_wf s" "\<bar>incr\<bar> < 2 ^ 31"
    "0 \<le> incr \<Longrightarrow> (if stype s = SDS_TYPE_5 then 0 < incr \<and> int (slen s) + incr < 32 \<and> slen s + nat incr < length (buf s)
                    else int (slen s) + incr \<le> int (salloc s))"
    "incr < 0 \<Longrightarrow> - incr \<le> int (slen s)"
  shows "\<exists>s'. sdsIncrLen s incr = Some s' \<and> sds_ok s' \<and>
     content s' = take (nat (int (slen s) + incr)) (buf s)"
proof -
  let ?n = "nat (int (slen s) + incr)"
  have wf: "stype s \<le> SDS_TYPE_64" "slen s < 2 ^ len_bits (stype s)" "slen s < length (buf s)"
    "stype s \<noteq> SDS_TYPE_5 \<longrightarrow> slen s \<le> salloc s \<and> salloc s < 2 ^ len_bits (stype s) \<and> salloc s < length (buf s)"
    using assms(1) by (auto simp: sds_wf_def)
  have n: "?n < 2 ^ len_bits (stype s)" "?n < length (buf s)" "stype s \<noteq> SDS_TYPE_5 \<longrightarrow> ?n \<le> salloc s"
  proof -
    consider "0 \<le> incr" "stype s = SDS_TYPE_5" | "0 \<le> incr" "stype s \<noteq> SDS_TYPE_5" | "incr < 0" by linarith
    then have "?n < 2 ^ len_bits (stype s) \<and> ?n < length (buf s) \<and> (stype s \<noteq> SDS_TYPE_5 \<longrightarrow> ?n \<le> salloc s)"
    proof cases
      case 1
      then have "?n < 32" "?n < length (buf s)" using assms(3) by (auto simp: nat_add_distrib)
      with 1 show ?thesis by (simp add: len_bits_def)
    next
      case 2
      then have "?n \<le> salloc s" using assms(3) by simp
      moreover from this have "?n < 2 ^ len_bits (stype s)" "?n < length (buf s)"
        using 2(2) wf(4) by linarith+
      ultimately show ?thesis by blast
    next
      case 3
      then have "?n \<le> slen s" by simp
      moreover from this have "?n < 2 ^ len_bits (stype s)" "?n < length (buf s)" using wf(2,3) by linarith+
      moreover have "stype s \<noteq> SDS_TYPE_5 \<longrightarrow> ?n \<le> salloc s" using calculation(1) wf(4) by linarith
      ultimately show ?thesis by blast
    qed
    then show "?n < 2 ^ len_bits (stype s)" "?n < length (buf s)" "stype s \<noteq> SDS_TYPE_5 \<longrightarrow> ?n \<le> salloc s" by auto
  qed
  have small: "?n < 2 ^ 64"
  proof -
    have "(2::nat) ^ len_bits (stype s) \<le> 2 ^ 64" using len_bits_le by (intro power_increasing) simp_all
    with n(1) show ?thesis by linarith
  qed
  have pos: "0 \<le> int (slen s) + incr" using assms(4) by (cases "incr < 0") auto
  have modn: "nat ((int (slen s) + incr) mod 2 ^ 64) = ?n"
    using small pos by (simp add: nat_less_iff mod_pos_pos_trivial)
  have m32: "(- incr) mod 2 ^ 32 = - incr" "(- incr) mod 2 ^ 64 = - incr" if "incr < 0"
    using assms(2) that by simp_all
  have p32: "incr mod 2 ^ 32 = incr" if "0 \<le> incr" using assms(2) that by simp
  have diff: "int (salloc s) - int (slen s) < 2 ^ len_bits (stype s)" "0 \<le> int (salloc s) - int (slen s)"
    if "stype s \<noteq> SDS_TYPE_5"
  proof -
    have "salloc s < 2 ^ len_bits (stype s)" using wf(4) that by blast
    then have "int (salloc s) < int (2 ^ len_bits (stype s))" by (simp only: of_nat_less_iff)
    then have "int (salloc s) < 2 ^ len_bits (stype s)" unfolding of_nat_power of_nat_numeral .
    then show "int (salloc s) - int (slen s) < 2 ^ len_bits (stype s)" by linarith
    show "0 \<le> int (salloc s) - int (slen s)" using wf(4) that by simp
  qed
  have allowed: "incr_allowed s incr"
  proof (cases "incr < 0")
    case True
    then show ?thesis using assms(4) m32 by (auto simp: incr_allowed_def)
  next
    case False
    then have i: "0 \<le> incr" by simp
    show ?thesis
    proof (cases "stype s = SDS_TYPE_5")
      case True
      then show ?thesis using assms(3) [OF i] by (simp add: incr_allowed_def)
    next
      case not5: False
      have le: "incr \<le> int (salloc s) - int (slen s)" using assms(3) [OF i] not5 by simp
      have "(int (salloc s) - int (slen s)) mod 2 ^ len_bits (stype s) = int (salloc s) - int (slen s)"
        using diff [OF not5] by simp
      then show ?thesis
        using i le p32 not5 wf(1) by (auto simp: incr_allowed_def len_bits_def sds_types)
    qed
  qed
  let ?s = "s\<lparr>slen := ?n, buf := (buf s)[?n := 0]\<rparr>"
  have "sdsIncrLen s incr = Some ?s"
    unfolding sdsIncrLen_def modn Let_def using allowed n wf(1) by (simp add: sdssetlen_def sdslen_def)
  moreover have "sds_ok ?s" using wf n by (auto simp: sds_ok_def sds_wf_def)
  ultimately show ?thesis by (auto simp: content_def)
qed

subsection \<open>Trimming and ranges\<close>

lemma trim_left_ok:
  "len \<le> length mem \<Longrightarrow> sp \<le> len \<Longrightarrow>
     trim_left mem cset len sp = Some (sp + length (takeWhile (in_cset cset) (drop sp (take len mem))))"
proof (induction mem cset len sp rule: trim_left.induct)
  case (1 mem cset len sp)
  show ?case
  proof (cases "sp < len")
    case True
    then have "drop sp (take len mem) = mem ! sp # drop (sp + 1) (take len mem)"
      using 1(2) by (simp add: Cons_nth_drop_Suc [symmetric])
    then show ?thesis using 1 True by (simp add: trim_left.simps [of mem cset len sp])
  next
    case False
    then show ?thesis using 1(3) by (subst trim_left.simps) simp
  qed
qed

lemma trim_right_ok:
  "ep < int (length mem) \<Longrightarrow> -1 \<le> ep \<Longrightarrow> (int sp \<le> ep \<Longrightarrow> \<not> in_cset cset (mem ! sp)) \<Longrightarrow> int sp \<le> ep + 1 \<Longrightarrow>
     \<exists>e. trim_right mem cset sp ep = Some e \<and> e \<le> ep \<and> int sp \<le> e + 1 \<and>
       (int sp \<le> ep \<longrightarrow> int sp \<le> e \<and> \<not> in_cset cset (mem ! nat e)) \<and>
       (\<forall>i. e < int i \<and> int i \<le> ep \<longrightarrow> in_cset cset (mem ! i))"
proof (induction mem cset sp ep rule: trim_right.induct)
  case (1 mem cset sp ep)
  show ?case
  proof (cases "int sp < ep \<and> in_cset cset (mem ! nat ep)")
    case True
    have "\<exists>e. trim_right mem cset sp (ep - 1) = Some e \<and> e \<le> ep - 1 \<and> int sp \<le> e + 1 \<and>
       (int sp \<le> ep - 1 \<longrightarrow> int sp \<le> e \<and> \<not> in_cset cset (mem ! nat e)) \<and>
       (\<forall>i. e < int i \<and> int i \<le> ep - 1 \<longrightarrow> in_cset cset (mem ! i))"
      using 1 True by (intro 1(1)) auto
    then obtain e where e: "trim_right mem cset sp (ep - 1) = Some e" "e \<le> ep - 1"
      "int sp \<le> e" "\<not> in_cset cset (mem ! nat e)"
      "\<forall>i. e < int i \<and> int i \<le> ep - 1 \<longrightarrow> in_cset cset (mem ! i)"
      using True by auto
    have "in_cset cset (mem ! i)" if "e < int i" "int i \<le> ep" for i
    proof (cases "int i = ep")
      case eq: True
      then have "i = nat ep" by simp
      with True show ?thesis by simp
    next
      case False
      then show ?thesis using e(5) that by simp
    qed
    moreover have "trim_right mem cset sp ep = Some e"
      using True e(1) 1(2) by (simp add: trim_right.simps [of mem cset sp ep] nat_less_iff)
    ultimately show ?thesis using e by (intro exI [of _ e]) auto
  next
    case False
    then have r: "trim_right mem cset sp ep = Some ep"
      using 1(2) by (simp add: trim_right.simps [of mem cset sp ep] nat_less_iff)
    have "\<not> in_cset cset (mem ! nat ep)" if "int sp \<le> ep"
    proof (cases "int sp = ep")
      case True
      then have "nat ep = sp" by simp
      then show ?thesis using 1(4) that by simp
    next
      case False
      then show ?thesis using \<open>\<not> (int sp < ep \<and> in_cset cset (mem ! nat ep))\<close> that by simp
    qed
    then show ?thesis using r 1(5) by (intro exI [of _ ep]) auto
  qed
qed

definition strip :: "('a \<Rightarrow> bool) \<Rightarrow> 'a list \<Rightarrow> 'a list" where
  "strip P xs = rev (dropWhile P (rev (dropWhile P xs)))"

lemma strip_slice:
  assumes "sp = length (takeWhile P xs)" "sp + n \<le> length xs"
    "n = 0 \<longrightarrow> sp = length xs" "0 < n \<longrightarrow> \<not> P (xs ! (sp + n - 1))"
    "\<forall>i. sp + n \<le> i \<and> i < length xs \<longrightarrow> P (xs ! i)"
  shows "strip P xs = take n (drop sp xs)"
proof -
  have dw: "dropWhile P xs = drop sp xs" using assms(1) by (simp add: dropWhile_eq_drop)
  have split: "drop sp xs = take n (drop sp xs) @ drop (sp + n) xs"
    using append_take_drop_id [of n "drop sp xs"] by (simp add: add.commute)
  have all: "\<And>x. x \<in> set (rev (drop (sp + n) xs)) \<Longrightarrow> P x"
    using assms(5) by (auto simp: in_set_conv_nth)
  have keep: "dropWhile P (rev (take n (drop sp xs))) = rev (take n (drop sp xs))"
  proof (cases n)
    case 0
    then show ?thesis by simp
  next
    case (Suc m)
    then have "take n (drop sp xs) = take m (drop sp xs) @ [xs ! (sp + m)]"
      using assms(2) by (simp add: take_Suc_conv_app_nth)
    then show ?thesis using assms(4) Suc by simp
  qed
  have "strip P xs = rev (dropWhile P (rev (drop (sp + n) xs) @ rev (take n (drop sp xs))))"
    unfolding strip_def dw by (subst split) simp
  also have "\<dots> = take n (drop sp xs)" by (simp only: dropWhile_append2 [OF all] keep rev_rev_ident)
  finally show ?thesis .
qed

lemma trim_ok:
  assumes "sds_ok s"
  shows "\<exists>s'. sdstrim s cset = Some s' \<and> sds_ok s' \<and> content s' = strip (in_cset cset) (content s)"
proof -
  have wf: "sds_wf s" and len: "slen s < length (buf s)" using assms by (auto simp: sds_ok_def sds_wf_def)
  let ?c = "content s"
  define sp where "sp = length (takeWhile (in_cset cset) ?c)"
  have c: "?c = take (slen s) (buf s)" "length ?c = slen s" using len by (auto simp: content_def)
  have sp: "sp \<le> slen s" using length_takeWhile_le [of "in_cset cset" ?c] c(2) by (simp add: sp_def)
  have left: "trim_left (buf s) cset (slen s) 0 = Some sp"
    using trim_left_ok [of "slen s" "buf s" 0 cset] len by (simp add: sp_def c(1))
  have first: "\<not> in_cset cset (buf s ! sp)" if "sp < slen s"
    using nth_length_takeWhile [of "in_cset cset" ?c] that c by (simp add: sp_def)
  obtain e where e: "trim_right (buf s) cset sp (int (slen s) - 1) = Some e" "e \<le> int (slen s) - 1"
    "int sp \<le> e + 1" "int sp \<le> int (slen s) - 1 \<longrightarrow> int sp \<le> e \<and> \<not> in_cset cset (buf s ! nat e)"
    "\<forall>i. e < int i \<and> int i \<le> int (slen s) - 1 \<longrightarrow> in_cset cset (buf s ! i)"
    using trim_right_ok [of "int (slen s) - 1" "buf s" sp cset] len sp first by auto
  define n where "n = nat (e - int sp + 1)"
  have n: "sp + n \<le> slen s" "int n = e - int sp + 1" using e(2,3) by (auto simp: n_def)
  have n0: "n = 0 \<longrightarrow> sp = slen s" using n(2) e(3,4) sp by linarith
  have val: "strip (in_cset cset) ?c = take n (drop sp (buf s))"
  proof -
    have "strip (in_cset cset) ?c = take n (drop sp ?c)"
    proof (rule strip_slice)
      show "0 < n \<longrightarrow> \<not> in_cset cset (?c ! (sp + n - 1))"
      proof
        assume "0 < n"
        then have "nat e = sp + n - 1" "sp + n - 1 < slen s" "int sp \<le> int (slen s) - 1" using n by linarith+
        then show "\<not> in_cset cset (?c ! (sp + n - 1))" using e(4) c(1) by simp
      qed
      show "\<forall>i. sp + n \<le> i \<and> i < length ?c \<longrightarrow> in_cset cset (?c ! i)"
        using e(5) n(2) c by auto
    qed (use n n0 c(2) in \<open>auto simp: sp_def\<close>)
    then show ?thesis using c(1) n(1) by (simp add: drop_take min_def)
  qed
  let ?xs = "take n (drop sp (buf s))"
  have lx: "length ?xs = n" using n(1) len by simp
  define mem where "mem = (if sp \<noteq> 0 then ?xs @ drop n (buf s) else buf s)"
  have mem: "length mem = length (buf s)" "take (length ?xs) mem = ?xs"
    using lx n(1) len by (auto simp: mem_def)
  have "sdstrim s cset = Some (sdssetlen (s\<lparr>buf := mem[length ?xs := 0]\<rparr>) (length ?xs))"
    using wf left e(1) n(1) lx len
    by (simp add: sdstrim_def Let_def n_def [symmetric] mem_def read_at_in write_at_in)
  moreover have "length ?xs \<le> slen s \<or> (stype s \<noteq> SDS_TYPE_5 \<and> length ?xs \<le> salloc s)" using lx n(1) by simp
  ultimately show ?thesis using set_content_ok [OF wf _ mem] val by metis
qed

lemma substr_ok:
  assumes "sds_ok s"
  shows "\<exists>s'. sdssubstr s start len = Some s' \<and> sds_ok s' \<and>
     content s' = (if slen s \<le> start then [] else take len (drop start (content s)))"
proof -
  have wf: "sds_wf s" and l: "slen s < length (buf s)" using assms by (auto simp: sds_ok_def sds_wf_def)
  define st where "st = (if slen s \<le> start then 0 else start)"
  define n where "n = (if slen s \<le> start then 0 else min len (slen s - start))"
  have n: "st + n \<le> slen s" by (auto simp: st_def n_def)
  let ?xs = "take n (drop st (buf s))"
  have lx: "length ?xs = n" using n l by simp
  define mem where "mem = (if n \<noteq> 0 then ?xs @ drop n (buf s) else buf s)"
  have mem: "length mem = length (buf s)" "take (length ?xs) mem = ?xs"
    using lx n l by (auto simp: mem_def)
  have "sdssubstr s start len = do {
     mem \<leftarrow> (if n \<noteq> 0 then do { xs \<leftarrow> read_at (buf s) st n; write_at (buf s) 0 xs } else Some (buf s));
     mem \<leftarrow> set_at mem n 0;
     Some (sdssetlen (s\<lparr>buf := mem\<rparr>) n) }"
    using wf by (simp add: sdssubstr_def Let_def st_def n_def min_def not_less)
  then have "sdssubstr s start len = Some (sdssetlen (s\<lparr>buf := mem[length ?xs := 0]\<rparr>) (length ?xs))"
    using n lx l by (cases "n = 0") (auto simp: mem_def read_at_in write_at_in set_at_def)
  moreover have "length ?xs \<le> slen s \<or> (stype s \<noteq> SDS_TYPE_5 \<and> length ?xs \<le> salloc s)" using lx n by simp
  moreover have "?xs = (if slen s \<le> start then [] else take len (drop start (content s)))"
    by (auto simp: n_def st_def content_def drop_take min_def)
  ultimately show ?thesis using set_content_ok [OF wf _ mem] by metis
qed

subsection \<open>Byte-wise maps and comparison\<close>

lemma map_loop_ok:
  "j + n \<le> length mem \<Longrightarrow>
     map_loop f n j mem = Some (take j mem @ map f (take n (drop j mem)) @ drop (j + n) mem)"
proof (induction n arbitrary: j mem)
  case 0
  then show ?case by simp
next
  case (Suc n)
  then have j: "j < length mem" by simp
  have split: "take (Suc n) (drop j mem) = mem ! j # take n (drop (Suc j) mem)"
    using j by (simp add: Cons_nth_drop_Suc [symmetric])
  have "map_loop f (Suc n) j mem = map_loop f n (j + 1) (mem[j := f (mem ! j)])" using j by simp
  also have "\<dots> = Some (take (j + 1) (mem[j := f (mem ! j)]) @
      map f (take n (drop (j + 1) (mem[j := f (mem ! j)]))) @ drop (j + 1 + n) (mem[j := f (mem ! j)]))"
    using Suc by (intro Suc.IH) simp
  also have "take (j + 1) (mem[j := f (mem ! j)]) = take j mem @ [f (mem ! j)]"
    using j by (simp add: take_Suc_conv_app_nth)
  finally show ?case using split by simp
qed

lemma map_sds_ok:
  assumes "sds_ok s"
  shows "\<exists>mem. map_loop f (sdslen s) 0 (buf s) = Some mem \<and> sds_ok (s\<lparr>buf := mem\<rparr>) \<and>
     content (s\<lparr>buf := mem\<rparr>) = map f (content s)"
proof -
  have l: "slen s < length (buf s)" "sds_wf s" using assms by (auto simp: sds_ok_def sds_wf_def)
  then have "map_loop f (sdslen s) 0 (buf s) = Some (map f (content s) @ drop (slen s) (buf s))"
    using map_loop_ok [of 0 "slen s" "buf s" f] by (simp add: content_def)
  moreover have "length (content s) = slen s" using l by (simp add: content_def)
  ultimately show ?thesis using assms l by (auto simp: sds_ok_def sds_wf_def content_def nth_append)
qed

text \<open>The order of byte strings \<open>sdscmp\<close> computes: a proper prefix comes first.\<close>

fun bytes_cmp :: "byte list \<Rightarrow> byte list \<Rightarrow> int" where
  "bytes_cmp [] [] = 0"
| "bytes_cmp [] (y # ys) = -1"
| "bytes_cmp (x # xs) [] = 1"
| "bytes_cmp (x # xs) (y # ys) = (if x = y then bytes_cmp xs ys else uint x - uint y)"

lemma bytes_cmp_memcmp:
  "bytes_cmp xs ys =
     (let m = min (length xs) (length ys); c = memcmp (take m xs) (take m ys) m in
      if c = 0 then (if length ys < length xs then 1 else if length xs < length ys then -1 else 0) else c)"
  by (induction xs ys rule: bytes_cmp.induct) (auto simp: Let_def word_uint_eq_iff)

lemma cmp_ok:
  assumes "sds_ok a" "sds_ok b"
  shows "sdscmp a b = Some (bytes_cmp (content a) (content b))"
proof -
  have l: "slen a < length (buf a)" "slen b < length (buf b)" "sds_wf a" "sds_wf b"
    using assms by (auto simp: sds_ok_def sds_wf_def)
  let ?m = "min (slen a) (slen b)"
  have m: "(if slen a < slen b then slen a else slen b) = ?m" by (simp add: min_def)
  have c: "length (content a) = slen a" "length (content b) = slen b"
    "take ?m (content a) = take ?m (buf a)" "take ?m (content b) = take ?m (buf b)"
    using l by (auto simp: content_def min_def)
  show ?thesis
    using l unfolding sdscmp_def Let_def wf_sdslen [OF l(3)] wf_sdslen [OF l(4)] m
    by (simp add: read_at_in bytes_cmp_memcmp c Let_def)
qed

lemma bytes_cmp_zero: "(bytes_cmp xs ys = 0) = (xs = ys)"
  by (induction xs ys rule: bytes_cmp.induct) (auto simp: word_uint_eq_iff)

lemma bytes_cmp_anti: "bytes_cmp ys xs < 0 \<longleftrightarrow> 0 < bytes_cmp xs ys"
  by (induction xs ys rule: bytes_cmp.induct) auto

lemma bytes_cmp_trans: "bytes_cmp xs ys < 0 \<Longrightarrow> bytes_cmp ys zs < 0 \<Longrightarrow> bytes_cmp xs zs < 0"
proof (induction xs ys arbitrary: zs rule: bytes_cmp.induct)
  case (4 x xs y ys)
  show ?case
  proof (cases zs)
    case Nil
    then show ?thesis using 4 by simp
  next
    case (Cons z zs')
    then show ?thesis using 4 by (auto split: if_splits)
  qed
next
  case (2 y ys)
  then show ?case by (cases zs) auto
qed auto

subsection \<open>Numbers\<close>

definition val_digits :: "byte list \<Rightarrow> nat" where
  "val_digits xs = foldl (\<lambda>v c. v * 10 + (unat c - 48)) 0 xs"

lemma digit_unat: "n < 10 \<Longrightarrow> unat (of_nat (48 + n) :: byte) = 48 + n"
  by (simp only: unat_of_nat) simp

lemma rev_digits_val: "val_digits (rev (rev_digits v)) = v"
proof (induction v rule: rev_digits.induct)
  case (1 v)
  have d: "unat (of_nat (48 + v mod 10) :: byte) = 48 + v mod 10" by (rule digit_unat) simp
  show ?case
  proof (cases "v div 10 = 0")
    case True
    then show ?thesis using d by (subst rev_digits.simps) (simp add: val_digits_def)
  next
    case False
    then show ?thesis using 1 d by (subst rev_digits.simps) (simp add: val_digits_def)
  qed
qed

lemma rev_digits_digit: "c \<in> set (rev_digits v) \<Longrightarrow> 48 \<le> unat c \<and> unat c \<le> 57"
proof (induction v rule: rev_digits.induct)
  case (1 v)
  have d: "unat (of_nat (48 + v mod 10) :: byte) = 48 + v mod 10" by (rule digit_unat) simp
  have "v mod 10 \<le> 9" by (simp add: mod_le_divisor less_Suc_eq_le [symmetric])
  with 1 d show ?case by (subst (asm) (2) rev_digits.simps) (auto split: if_splits)
qed

lemma rev_digits_length: "v < 10 ^ n \<Longrightarrow> 0 < n \<Longrightarrow> length (rev_digits v) \<le> n"
proof (induction n arbitrary: v)
  case 0
  then show ?case by simp
next
  case (Suc n)
  show ?case
  proof (cases "v div 10 = 0")
    case True
    then show ?thesis by (subst rev_digits.simps) simp
  next
    case False
    then have "v div 10 < 10 ^ n" using Suc.prems(1) by (simp add: less_mult_imp_div_less mult.commute)
    moreover have "0 < n" using False calculation by (cases n) auto
    ultimately have "length (rev_digits (v div 10)) \<le> n" by (rule Suc.IH)
    then show ?thesis using False by (subst rev_digits.simps) simp
  qed
qed

lemma reverse_loop_nth:
  "j < length xs \<Longrightarrow> length (reverse_loop xs i j) = length xs \<and>
     (\<forall>k < length xs. reverse_loop xs i j ! k = (if i \<le> k \<and> k \<le> j then xs ! (i + j - k) else xs ! k))"
proof (induction xs i j rule: reverse_loop.induct)
  case (1 xs i j)
  show ?case
  proof (cases "i < j")
    case True
    let ?ys = "xs[i := xs ! j, j := xs ! i]"
    have eq: "reverse_loop xs i j = reverse_loop ?ys (i + 1) (j - 1)"
      using True by (subst reverse_loop.simps) simp
    have ih: "length (reverse_loop ?ys (i + 1) (j - 1)) = length xs"
      "\<forall>k < length xs. reverse_loop ?ys (i + 1) (j - 1) ! k =
         (if i + 1 \<le> k \<and> k \<le> j - 1 then ?ys ! (i + 1 + (j - 1) - k) else ?ys ! k)"
      using 1(1) [OF True] 1(2) by auto
    have "?ys ! k = (if k = j then xs ! i else if k = i then xs ! j else xs ! k)" if "k < length xs" for k
      using 1(2) True that by (simp add: nth_list_update)
    then show ?thesis unfolding eq using ih 1(2) True by auto
  next
    case False
    then have eq: "reverse_loop xs i j = xs" by (subst reverse_loop.simps) simp
    have "xs ! (i + j - k) = xs ! k" if "i \<le> k" "k \<le> j" for k
    proof -
      have "i = k" "j = k" using that False by linarith+
      then show ?thesis by simp
    qed
    then show ?thesis unfolding eq by auto
  qed
qed

lemma reverse_loop_rev: "xs \<noteq> [] \<Longrightarrow> reverse_loop xs 0 (length xs - 1) = rev xs"
  using reverse_loop_nth [of "length xs - 1" xs 0] by (intro nth_equalityI) (auto simp: rev_nth)

lemma rev_digits_nonempty [simp]: "rev_digits v \<noteq> []"
  by (subst rev_digits.simps) simp

lemma sdsull2str_eq: "sdsull2str v = rev (rev_digits v)"
  by (simp add: sdsull2str_def Let_def reverse_loop_rev del: One_nat_def)

lemma sdsll2str_eq:
  assumes "LLONG_MIN \<le> value" "value \<le> LLONG_MAX"
  shows "sdsll2str value = (if value < 0 then 45 # rev (rev_digits (nat (- value))) else rev (rev_digits (nat value)))"
proof -
  have "(if value \<noteq> LLONG_MIN then nat (- value) else nat (LLONG_MAX + 1)) = nat (- value)"
    by (simp add: LLONG_MIN_def LLONG_MAX_def)
  then show ?thesis
    unfolding sdsll2str_def Let_def by (simp add: reverse_loop_rev del: length_append One_nat_def)
qed

lemma sdsll2str_length:
  assumes "LLONG_MIN \<le> value" "value \<le> LLONG_MAX"
  shows "length (sdsll2str value) < SDS_LLSTR_SIZE"
proof -
  have "nat (- value) < 10 ^ 19" "nat value < 10 ^ 19"
    using assms by (simp_all add: LLONG_MIN_def LLONG_MAX_def)
  from this [THEN rev_digits_length] show ?thesis
    by (simp add: sdsll2str_eq [OF assms] SDS_LLSTR_SIZE_def)
qed

subsection \<open>Formatted appending\<close>

text \<open>What a format and its arguments stand for.\<close>

fun render :: "byte list \<Rightarrow> fmt_arg list \<Rightarrow> byte list option" where
  "render [] args = Some []"
| "render (f # fs) args =
     (if f = 37 then
        (case fs of
           [] \<Rightarrow> Some []
         | c # rest \<Rightarrow>
             if is_conversion c then
               (case args of
                  [] \<Rightarrow> None
                | a # args' \<Rightarrow> do { str \<leftarrow> fmt_bytes c a; out \<leftarrow> render rest args'; Some (str @ out) })
             else do { out \<leftarrow> render rest args; Some (c # out) })
      else do { out \<leftarrow> render fs args; Some (f # out) })"

text \<open>Room for at least \<open>n\<close> bytes.\<close>

lemma room_ok:
  assumes "malloc_ok mal" "sds_wf s" "slen s + n < 2 ^ 62"
  shows "\<exists>r. (if sdsavail s < n then sdsMakeRoomFor mal s n else Some s) = Some r \<and> sds_wf r \<and>
     slen r = slen s \<and> content r = content s \<and> n \<le> sdsavail r"
proof (cases "sdsavail s < n")
  case True
  obtain r where r: "sdsMakeRoomFor mal s n = Some r" "sds_wf r" "slen r = slen s"
    "take (slen s + 1) (buf r) = take (slen s + 1) (buf s)" "n \<le> sdsavail r"
    using MakeRoom_ok [OF assms, of True] unfolding sdsMakeRoomFor_def by blast
  have "content r = content s"
    using arg_cong [OF r(4), of "take (slen s)"] r(3) by (simp add: content_def)
  with r True show ?thesis by auto
next
  case False
  then show ?thesis using assms(2) by auto
qed

lemma room_fits:
  assumes "sds_wf s" "n \<le> sdsavail s"
  shows "slen s + n < length (buf s) \<and> slen s + n < 2 ^ len_bits (stype s) \<and>
     (stype s \<noteq> SDS_TYPE_5 \<longrightarrow> slen s + n \<le> salloc s)"
  using assms wf_avail [OF assms(1)] by (auto simp: sds_wf_def split: if_splits)

lemma put_ok:
  assumes "sds_wf s" "length str \<le> sdsavail s"
  shows "\<exists>mem. write_at (buf s) (slen s) str = Some mem \<and>
     sds_wf (sdsinclen (s\<lparr>buf := mem\<rparr>) (length str)) \<and>
     slen (sdsinclen (s\<lparr>buf := mem\<rparr>) (length str)) = slen s + length str \<and>
     content (sdsinclen (s\<lparr>buf := mem\<rparr>) (length str)) = content s @ str"
proof -
  note f = room_fits [OF assms]
  let ?mem = "take (slen s) (buf s) @ str @ drop (slen s + length str) (buf s)"
  have "write_at (buf s) (slen s) str = Some ?mem" using f by (simp add: write_at_in)
  then show ?thesis using f assms(1) by (auto simp: sds_wf_def sdsinclen_def content_def)
qed

lemma catfmt_loop_ok:
  assumes "malloc_ok mal" "sds_wf s" "render fmt args = Some out" "slen s + length out + 1 < 2 ^ 62"
  shows "\<exists>r. catfmt_loop mal fmt args s (slen s) = Some (r, slen s + length out) \<and> sds_wf r \<and>
     slen r = slen s + length out \<and> content r = content s @ out"
  using assms(2-4)
proof (induction fmt args arbitrary: s out rule: render.induct)
  case (1 args)
  then show ?case by simp
next
  case (2 f fs args)
  obtain r where r: "(if sdsavail s < 1 then sdsMakeRoomFor mal s 1 else Some s) = Some r" "sds_wf r"
     "slen r = slen s" "content r = content s" "1 \<le> sdsavail r"
    using room_ok [OF assms(1) 2(4), of 1] 2(6) by auto
  have r0: "(if sdsavail s = 0 then sdsMakeRoomFor mal s 1 else Some s) = Some r"
    using r(1) by (simp add: less_Suc_eq_0_disj One_nat_def [symmetric] del: One_nat_def)
  have char: "\<exists>mem. set_at (buf r) (slen s) c = Some mem \<and> sds_wf (sdsinclen (r\<lparr>buf := mem\<rparr>) 1) \<and>
      slen (sdsinclen (r\<lparr>buf := mem\<rparr>) 1) = slen s + 1 \<and>
      content (sdsinclen (r\<lparr>buf := mem\<rparr>) 1) = content s @ [c]" for c
  proof -
    have f: "slen r + 1 < length (buf r)" using room_fits [OF r(2,5)] by simp
    then have "write_at (buf r) (slen r) [c] = set_at (buf r) (slen r) c"
      by (simp add: write_at_in list_update_split)
    then show ?thesis using put_ok [OF r(2), of "[c]"] r(3-5) by auto
  qed
  have after_char: "\<exists>r'. fmt_char r (slen s) c \<bind> (\<lambda>(s, i). catfmt_loop mal rest args s i) =
        Some (r', slen s + length out) \<and> sds_wf r' \<and> slen r' = slen s + length out \<and>
        content r' = content s @ out"
    if ih: "\<And>s out. sds_wf s \<Longrightarrow> render rest args = Some out \<Longrightarrow> slen s + length out + 1 < 2 ^ 62 \<Longrightarrow>
        \<exists>r. catfmt_loop mal rest args s (slen s) = Some (r, slen s + length out) \<and> sds_wf r \<and>
          slen r = slen s + length out \<and> content r = content s @ out"
      and out: "render rest args = Some out'" "out = c # out'" for c rest out'
  proof -
    obtain mem where m: "set_at (buf r) (slen s) c = Some mem" "sds_wf (sdsinclen (r\<lparr>buf := mem\<rparr>) 1)"
      "slen (sdsinclen (r\<lparr>buf := mem\<rparr>) 1) = slen s + 1"
      "content (sdsinclen (r\<lparr>buf := mem\<rparr>) 1) = content s @ [c]" using char by blast
    from ih [OF m(2) out(1)] m(1,3,4) out(2) 2(6) show ?thesis
      by (auto simp: fmt_char_def)
  qed
  show ?case
  proof (cases "f = 37")
    case False
    then obtain out' where "render fs args = Some out'" "out = f # out'"
      using 2(5) by (auto simp: fault_simps)
    from after_char [OF 2(3) [OF False] this] show ?thesis using False r0 by simp
  next
    case True
    show ?thesis
    proof (cases fs)
      case Nil
      then show ?thesis using True r0 r(2-4) 2(5) by simp
    next
      case (Cons c rest)
      show ?thesis
      proof (cases "is_conversion c")
        case False
        then obtain out' where "render rest args = Some out'" "out = c # out'"
          using 2(5) True Cons by (auto simp: fault_simps)
        from after_char [OF 2(2) [OF True Cons False] this] show ?thesis using True Cons False r0 by simp
      next
        case conv: True
        then obtain a args' str out' where a: "args = a # args'" "fmt_bytes c a = Some str"
          "render rest args' = Some out'" "out = str @ out'"
          using 2(5) True Cons by (auto simp: fault_simps split: list.splits)
        obtain q where q: "(if sdsavail r < length str then sdsMakeRoomFor mal r (length str) else Some r) = Some q"
          "sds_wf q" "slen q = slen r" "content q = content r" "length str \<le> sdsavail q"
          using room_ok [OF assms(1) r(2), of "length str"] r(3) a(4) 2(6) by auto
        obtain mem where m: "write_at (buf q) (slen q) str = Some mem"
          "sds_wf (sdsinclen (q\<lparr>buf := mem\<rparr>) (length str))"
          "slen (sdsinclen (q\<lparr>buf := mem\<rparr>) (length str)) = slen q + length str"
          "content (sdsinclen (q\<lparr>buf := mem\<rparr>) (length str)) = content q @ str"
          using put_ok [OF q(2,5)] by blast
        from 2(1) [OF True Cons conv a(1,2) m(2) a(3)] m(1,3,4) q(1,3,4) r(3,4) a 2(6) show ?thesis
          using True Cons conv r0 by (auto simp: fmt_put_def)
      qed
    qed
  qed
qed

lemma catfmt_ok:
  assumes "malloc_ok mal" "sds_wf s" "render fmt args = Some out"
    "slen s + length fmt * 2 + length out + 1 < 2 ^ 62"
  shows "\<exists>s'. sdscatfmt mal s fmt args = Some s' \<and> sds_ok s' \<and> content s' = content s @ out"
proof -
  obtain r where r: "sdsMakeRoomFor mal s (length fmt * 2) = Some r" "sds_wf r" "slen r = slen s"
    "take (slen s + 1) (buf r) = take (slen s + 1) (buf s)"
    using MakeRoom_ok [OF assms(1,2), of "length fmt * 2" True] assms(4) unfolding sdsMakeRoomFor_def by auto
  have c: "content r = content s"
    using arg_cong [OF r(4), of "take (slen s)"] r(3) by (simp add: content_def)
  obtain q where q: "catfmt_loop mal fmt args r (slen r) = Some (q, slen r + length out)" "sds_wf q"
    "slen q = slen r + length out" "content q = content r @ out"
    using catfmt_loop_ok [OF assms(1) r(2) assms(3)] assms(4) r(3) by auto
  have l: "slen q < length (buf q)" using q(2) by (simp add: sds_wf_def)
  let ?s = "q\<lparr>buf := (buf q)[slen q := 0]\<rparr>"
  have "sdscatfmt mal s fmt args = Some ?s"
    using assms(2) r(1,3) q(1,3) l by (simp add: sdscatfmt_def Let_def)
  moreover have "sds_ok ?s \<and> content ?s = content q"
    using q(2) l by (auto simp: sds_ok_def sds_wf_def content_def)
  ultimately show ?thesis using q(4) c by auto
qed

lemma range_ok:
  assumes "sds_ok s" "slen s < 2 ^ 62" "\<bar>start\<bar> < 2 ^ 62" "\<bar>stop\<bar> < 2 ^ 62"
  shows "\<exists>s'. sdsrange s start stop = Some s' \<and> sds_ok s' \<and>
     content s' =
       (let a = (if start < 0 then int (slen s) + start else start);
            b = (if stop < 0 then int (slen s) + stop else stop)
        in if a < 0 then [] else take (nat (b - a + 1)) (drop (nat a) (content s)))"
proof (cases "slen s = 0")
  case True
  then show ?thesis using assms(1) by (auto simp: sdsrange_def Let_def sds_ok_def content_def)
next
  case False
  have wf: "sds_wf s" using assms(1) by (simp add: sds_ok_def)
  define a where "a = (if start < 0 then int (slen s) + start else start)"
  define b where "b = (if stop < 0 then int (slen s) + stop else stop)"
  define n where "n = (if b < a then 0 else nat (b - a) + 1)"
  have eq: "sdsrange s start stop = sdssubstr s (nat (a mod 2 ^ 64)) n"
    unfolding sdsrange_def Let_def wf_sdslen [OF wf] a_def [symmetric] b_def [symmetric] n_def [symmetric]
    using False by simp
  obtain s' where s': "sdssubstr s (nat (a mod 2 ^ 64)) n = Some s'" "sds_ok s'"
    "content s' = (if slen s \<le> nat (a mod 2 ^ 64) then [] else take n (drop (nat (a mod 2 ^ 64)) (content s)))"
    using substr_ok [OF assms(1)] by blast
  have small: "slen s < 2 ^ 62" "\<bar>a\<bar> < 2 ^ 63" using assms(2,3) by (auto simp: a_def)
  have len: "length (content s) = slen s" using wf by (rule wf_content_length)
  have "content s' = (if a < 0 then [] else take (nat (b - a + 1)) (drop (nat a) (content s)))"
  proof (cases "a < 0")
    case True
    have "a mod 2 ^ 64 = (a + 2 ^ 64) mod 2 ^ 64" by simp
    also have "\<dots> = a + 2 ^ 64" using small(2) True by (intro mod_pos_pos_trivial) simp_all
    finally have "slen s \<le> nat (a mod 2 ^ 64)" using small True by simp
    then show ?thesis using s'(3) True by simp
  next
    case False
    then have "a mod 2 ^ 64 = a" using small(2) by simp
    moreover have "n = nat (b - a + 1)" by (auto simp: n_def)
    ultimately show ?thesis using s'(3) False len by simp
  qed
  then show ?thesis using eq s'(1,2) by (auto simp: Let_def a_def b_def)
qed

subsection \<open>Correctness of the string operations\<close>

text \<open>An allocator that hands out blocks a little larger than requested, and a short string with a
  one-byte header, for the concrete instances below.\<close>

definition demo_malloc :: malloc where
  "demo_malloc n = Some (replicate (n + 8) 170)"

definition demo_sds :: sds where
  "demo_sds = \<lparr>stype = SDS_TYPE_8, slen = 4, salloc = 6, buf = [32, 97, 98, 32, 0, 7, 7]\<rparr>"

lemma demo_malloc_ok: "malloc_ok demo_malloc"
  by (simp add: malloc_ok_def demo_malloc_def)

lemma demo_sds_ok: "sds_ok demo_sds" "content demo_sds = [32, 97, 98, 32]" "slen demo_sds = 4"
  by (simp_all add: sds_ok_def sds_wf_def demo_sds_def content_def len_bits_def sds_types)

text \<open>C18. Appending to a well-formed string gives a well-formed, terminated string with the bytes added at
  the end; copying replaces the content; growing pads with zero bytes. None of them writes outside of
  the block, whatever header the string has and whatever size the allocator really returns.\<close>

theorem sdscatlen_appends:
  assumes "malloc_ok mal" "sds_ok s" "slen s + length t < 2 ^ 62"
  shows "(\<exists>s'. sdscatlen mal s t = Some s' \<and> sds_ok s' \<and> content s' = content s @ t) \<and>
    (\<exists>s'. sdscpylen mal s t = Some s' \<and> sds_ok s' \<and> content s' = t) \<and>
    (\<exists>s'. sdsgrowzero mal s (length t) = Some s' \<and> sds_ok s' \<and>
       content s' = content s @ replicate (length t - slen s) 0)"
  using assms catlen_ok [of mal s t] cpylen_ok [of mal s t] growzero_ok [of mal s "length t"]
  by (simp add: sds_ok_def)

theorem sdscatlen_appends_witness:
  "\<exists>s'. sdscatlen demo_malloc demo_sds [99, 0, 99] = Some s' \<and> content s' = [32, 97, 98, 32, 99, 0, 99]"
  using sdscatlen_appends [OF demo_malloc_ok demo_sds_ok(1), of "[99, 0, 99]"] by (auto simp: demo_sds_ok)

lemma MakeRoom_type:
  "sds_wf s \<Longrightarrow> 0 < n \<Longrightarrow> n \<le> sdsavail s \<Longrightarrow> stype s \<noteq> SDS_TYPE_5 \<and> slen s + n \<le> salloc s"
  using wf_avail [of s] by (auto split: if_splits)

text \<open>The documented way to read into a string: after \<open>sdsMakeRoomFor\<close> for \<open>n\<close> bytes, up to \<open>n\<close> (and at
  least one) bytes stored behind the content are added to it by \<open>sdsIncrLen\<close>, and the string stays
  well-formed.\<close>

theorem sdsIncrLen_after_MakeRoomFor:
  assumes "malloc_ok mal" "sds_ok s" "slen s + n < 2 ^ 62" "xs \<noteq> []" "length xs \<le> n" "length xs < 2 ^ 31"
  shows "\<exists>s1 mem s2. sdsMakeRoomFor mal s n = Some s1 \<and> write_at (buf s1) (sdslen s1) xs = Some mem \<and>
     sdsIncrLen (s1\<lparr>buf := mem\<rparr>) (int (length xs)) = Some s2 \<and> sds_ok s2 \<and> content s2 = content s @ xs"
proof -
  obtain s1 where s1: "sdsMakeRoomFor mal s n = Some s1" "sds_wf s1" "slen s1 = slen s"
    "take (slen s + 1) (buf s1) = take (slen s + 1) (buf s)" "n \<le> sdsavail s1" "slen s + n < length (buf s1)"
    using MakeRoom_ok [OF assms(1), of s n True] assms(2,3) by (auto simp: sdsMakeRoomFor_def sds_ok_def)
  let ?mem = "take (slen s) (buf s1) @ xs @ drop (slen s + length xs) (buf s1)"
  have w: "write_at (buf s1) (sdslen s1) xs = Some ?mem"
    using s1 assms(5) by (simp add: write_at_in)
  have len: "length ?mem = length (buf s1)" using s1(6) assms(5) by simp
  have room: "stype s1 \<noteq> SDS_TYPE_5" "slen s1 + length xs \<le> salloc s1"
    using MakeRoom_type [OF s1(2), of "length xs"] s1(5) assms(4,5) by auto
  have "sds_wf (s1\<lparr>buf := ?mem\<rparr>)" using s1(2) len by (simp add: sds_wf_def)
  from IncrLen_ok [OF this, of "int (length xs)"] room assms(6) obtain s2 where
    s2: "sdsIncrLen (s1\<lparr>buf := ?mem\<rparr>) (int (length xs)) = Some s2" "sds_ok s2"
      "content s2 = take (slen s1 + length xs) ?mem" by (auto simp: nat_add_distrib)
  have "take (slen s) (buf s1) = take (slen s) (buf s)"
    using arg_cong [OF s1(4), of "take (slen s)"] by simp
  moreover have "take (slen s1 + length xs) ?mem = take (slen s) (buf s1) @ xs"
    using s1(3,6) assms(5) by simp
  ultimately have "content s2 = content s @ xs" using s2(3) unfolding content_def by simp
  with s1(1) w s2 show ?thesis by blast
qed

theorem sdsIncrLen_after_MakeRoomFor_witness:
  "\<exists>s1 mem s2. sdsMakeRoomFor demo_malloc demo_sds 5 = Some s1 \<and> write_at (buf s1) (sdslen s1) [99] = Some mem \<and>
     sdsIncrLen (s1\<lparr>buf := mem\<rparr>) 1 = Some s2 \<and> content s2 = [32, 97, 98, 32, 99]"
  using sdsIncrLen_after_MakeRoomFor [OF demo_malloc_ok demo_sds_ok(1), of 5 "[99]"] by (auto simp: demo_sds_ok)

text \<open>\<open>sdsResize\<close> leaves a string with exactly the requested allocation, cut to it if it was longer;
  \<open>sdsRemoveFreeSpace\<close> leaves the content and no free space.\<close>

theorem sdsResize_truncates:
  assumes "malloc_ok mal" "sds_ok s" "sz < 2 ^ 62"
  shows "(\<exists>s'. sdsResize mal s sz = Some s' \<and> sds_ok s' \<and> content s' = take sz (content s) \<and> sdsalloc s' = sz) \<and>
    (\<exists>s'. sdsRemoveFreeSpace mal s = Some s' \<and> sds_ok s' \<and> content s' = content s \<and> sdsavail s' = 0)"
  using Resize_ok [OF assms] RemoveFreeSpace_ok [OF assms(1,2)] by blast

theorem sdsResize_truncates_witness:
  "\<exists>s'. sdsResize demo_malloc demo_sds 2 = Some s' \<and> content s' = [32, 97] \<and> sdsalloc s' = 2"
  using sdsResize_truncates [OF demo_malloc_ok demo_sds_ok(1), of 2] by (auto simp: demo_sds_ok)

lemma strip_ends: "strip P xs = [] \<or> (\<not> P (hd (strip P xs)) \<and> \<not> P (last (strip P xs)))"
proof (cases "strip P xs = []")
  case False
  have h: "ys \<noteq> [] \<longrightarrow> \<not> P (hd ys)" if "ys = dropWhile P zs" for ys zs using that hd_dropWhile by blast
  have l: "\<not> P (last (strip P xs))"
    using h [of "dropWhile P (rev (dropWhile P xs))"] False by (auto simp: strip_def last_rev)
  have "hd (rev (dropWhile P (rev ys))) = hd ys" if "rev (dropWhile P (rev ys)) \<noteq> []" for ys
    using that by (induction ys rule: rev_induct) (auto simp: hd_append split: if_splits)
  then have "hd (strip P xs) = hd (dropWhile P xs)" using False by (simp add: strip_def)
  moreover have "dropWhile P xs \<noteq> []" using False unfolding strip_def by (metis dropWhile.simps(1) rev.simps(1))
  ultimately show ?thesis using h [of "dropWhile P xs"] l by auto
qed simp

lemma strip_decomp: "\<exists>a b. xs = a @ strip P xs @ b \<and> (\<forall>x \<in> set a \<union> set b. P x)"
proof -
  have 1: "xs = takeWhile P xs @ dropWhile P xs" by simp
  have "rev (dropWhile P xs) = takeWhile P (rev (dropWhile P xs)) @ dropWhile P (rev (dropWhile P xs))" by simp
  then have 2: "dropWhile P xs = strip P xs @ rev (takeWhile P (rev (dropWhile P xs)))"
    unfolding strip_def by (metis rev_append rev_rev_ident)
  have "\<forall>x \<in> set (takeWhile P xs) \<union> set (rev (takeWhile P (rev (dropWhile P xs)))). P x"
    by (auto dest: set_takeWhileD)
  with 1 2 show ?thesis by metis
qed

text \<open>C29. \<open>sdstrim\<close> removes from both ends the longest runs of bytes that are in the set or are zero (the
  terminator of the set matches too): the content is what is left after stripping, it neither starts
  nor ends with such a byte, and what was removed consists of such bytes only.\<close>

theorem sdstrim_strips:
  assumes "sds_ok s"
  shows "\<exists>s' a b. sdstrim s cset = Some s' \<and> sds_ok s' \<and> content s = a @ content s' @ b \<and>
     (\<forall>x \<in> set a \<union> set b. in_cset cset x) \<and>
     (content s' = [] \<or> (\<not> in_cset cset (hd (content s')) \<and> \<not> in_cset cset (last (content s'))))"
proof -
  obtain s' where s': "sdstrim s cset = Some s'" "sds_ok s'" "content s' = strip (in_cset cset) (content s)"
    using trim_ok [OF assms] by blast
  obtain a b where ab: "content s = a @ strip (in_cset cset) (content s) @ b"
    "\<forall>x \<in> set a \<union> set b. in_cset cset x" using strip_decomp [of "content s" "in_cset cset"] by blast
  have "content s = a @ content s' @ b" using ab(1) s'(3) by simp
  moreover have "content s' = [] \<or> (\<not> in_cset cset (hd (content s')) \<and> \<not> in_cset cset (last (content s')))"
    using strip_ends [of "in_cset cset" "content s"] by (simp only: s'(3))
  ultimately show ?thesis using s'(1,2) ab(2) by blast
qed

theorem sdstrim_strips_witness:
  "\<exists>s' a b. sdstrim demo_sds [32] = Some s' \<and> [32, 97, 98, 32] = a @ content s' @ b"
  using sdstrim_strips [OF demo_sds_ok(1), of "[32]"] unfolding demo_sds_ok(2) by blast

text \<open>\<open>sdsrange\<close> keeps the bytes from \<open>start\<close> to \<open>end\<close> inclusive, negative indexes counting from the
  end. A start that is still negative after that is not clamped to 0: the result is empty.\<close>

theorem sdsrange_slices:
  assumes "sds_ok s" "slen s < 2 ^ 62" "\<bar>start\<bar> < 2 ^ 62" "\<bar>stop\<bar> < 2 ^ 62"
  shows "\<exists>s'. sdsrange s start stop = Some s' \<and> sds_ok s' \<and>
     content s' =
       (let a = (if start < 0 then int (slen s) + start else start);
            b = (if stop < 0 then int (slen s) + stop else stop)
        in if a < 0 then [] else take (nat (b - a + 1)) (drop (nat a) (content s)))"
  by (rule range_ok [OF assms])

theorem sdsrange_slices_witness:
  "\<exists>s'. sdsrange demo_sds 1 (- 2) = Some s' \<and> content s' = [97, 98]"
  using sdsrange_slices [OF demo_sds_ok(1), of 1 "- 2"] by (auto simp: demo_sds_ok)

text \<open>\<open>sdscmp\<close> is a total order of the strings by their bytes: it is zero exactly for equal contents,
  swapping the arguments swaps the sign, it is transitive, and a proper prefix is smaller.\<close>

theorem sdscmp_total_order:
  assumes "sds_ok a" "sds_ok b" "sds_ok c"
  shows "\<exists>x y z v. sdscmp a b = Some x \<and> sdscmp b a = Some y \<and> sdscmp b c = Some z \<and> sdscmp a c = Some v \<and>
     (x = 0 \<longleftrightarrow> content a = content b) \<and> (y < 0 \<longleftrightarrow> 0 < x) \<and> (x < 0 \<and> z < 0 \<longrightarrow> v < 0) \<and>
     (\<forall>t. t \<noteq> [] \<and> content b = content a @ t \<longrightarrow> x < 0)"
proof -
  have "bytes_cmp xs (xs @ t) < 0" if "t \<noteq> []" for xs t
    using that by (induction xs) (auto simp: neq_Nil_conv)
  then show ?thesis
    using cmp_ok [OF assms(1,2)] cmp_ok [OF assms(2,1)] cmp_ok [OF assms(2,3)] cmp_ok [OF assms(1,3)]
      bytes_cmp_zero bytes_cmp_anti bytes_cmp_trans [of "content a" "content b" "content c"] by auto
qed

theorem sdscmp_total_order_witness: "\<exists>x. sdscmp demo_sds demo_sds = Some x \<and> x = 0"
  using sdscmp_total_order [OF demo_sds_ok(1) demo_sds_ok(1) demo_sds_ok(1)] by auto


lemma render_demo: "render [37, 105, 33, 37, 37] [ArgInt (- 12)] = Some [45, 49, 50, 33, 37]"
  by (simp add: is_conversion_def fmt_bytes_def sdsll2str_eq rev_digits.simps LLONG_MIN_def LLONG_MAX_def)


end
