(* ===== verification/Sds_Text.thy ===== *)
theory Sds_Text
  imports Sds "HOL-Library.Sublist"
begin

text \<open>
  The text functions of \<open>myRedis/src/sds.c\<close>: splitting, joining, quoting, argument parsing and
  templates.

  The strings these functions read are given by their bytes (a C string without its terminator,
  an \<open>sds\<close> by its content); the strings they build up by appending are \<open>sds\<close> values of \<open>Sds\<close> where the
  function appends to a string of the caller, and the content otherwise, since \<open>sdscatlen\<close> is shown
  in \<open>Sds\<close> to append to the content. \<open>isspace\<close> and \<open>isprint\<close> are those of the C locale.
\<close>

subsection \<open>Splitting at a separator\<close>

text \<open>The loop: \<open>slots\<close> is the capacity of the array, a store outside of it is a fault.\<close>

function split_loop :: "byte list \<Rightarrow> byte list \<Rightarrow> nat \<Rightarrow> nat \<Rightarrow> nat \<Rightarrow> byte list list
    \<Rightarrow> (nat \<times> nat \<times> byte list list) option" where
  "split_loop s sep start j slots tokens =
     (if j + length sep \<le> length s \<and> sep \<noteq> [] then
        (let slots = (if slots < length tokens + 2 then slots * 2 else slots) in
         if (length sep = 1 \<and> s ! j = sep ! 0) \<or> take (length sep) (drop j s) = sep then
           (if length tokens < slots
            then split_loop s sep (j + length sep) (j + length sep) slots
                   (tokens @ [take (j - start) (drop start s)])
            else None)
         else split_loop s sep start (j + 1) slots tokens)
      else Some (start, slots, tokens))"
  by pat_completeness auto
termination
  by (relation "measure (\<lambda>(s, sep, _, j, _). length s + 1 - j)") (auto simp: Let_def length_greater_0_conv [symmetric]
      simp del: length_greater_0_conv)

declare split_loop.simps [simp del]

text \<open>\<open>None\<close> inside is the result \<open>NULL\<close>.\<close>

definition sdssplitlen :: "byte list \<Rightarrow> byte list \<Rightarrow> byte list list option option" where
  "sdssplitlen s sep =
     (if length sep < 1 \<or> length s = 0 then Some None
      else do {
        (start, slots, tokens) \<leftarrow> split_loop s sep 0 0 5 [];
        ensure (length tokens < slots);
        Some (Some (tokens @ [drop start s])) })"

subsection \<open>Joining\<close>

fun joinsds_loop :: "malloc \<Rightarrow> sds list \<Rightarrow> byte list \<Rightarrow> sds \<Rightarrow> sds option" where
  "joinsds_loop mal [] sep join = Some join"
| "joinsds_loop mal (a # argv) sep join = do {
     join \<leftarrow> sdscatsds mal join a;
     join \<leftarrow> (if argv \<noteq> [] then sdscatlen mal join sep else Some join);
     joinsds_loop mal argv sep join }"

definition sdsjoinsds :: "malloc \<Rightarrow> sds list \<Rightarrow> byte list \<Rightarrow> sds option" where
  "sdsjoinsds mal argv sep = do { join \<leftarrow> sdsempty mal; joinsds_loop mal argv sep join }"

text \<open>\<open>sdsjoin\<close> takes C strings; each is given by its memory with the terminator.\<close>

fun join_loop :: "malloc \<Rightarrow> byte list list \<Rightarrow> byte list \<Rightarrow> sds \<Rightarrow> sds option" where
  "join_loop mal [] sep join = Some join"
| "join_loop mal (a # argv) sep join = do {
     join \<leftarrow> sdscat mal join a;
     join \<leftarrow> (if argv \<noteq> [] then sdscat mal join sep else Some join);
     join_loop mal argv sep join }"

definition sdsjoin :: "malloc \<Rightarrow> byte list list \<Rightarrow> byte list \<Rightarrow> sds option" where
  "sdsjoin mal argv sep = do { join \<leftarrow> sdsempty mal; join_loop mal argv sep join }"

subsection \<open>Quoting\<close>

definition isprint :: "byte \<Rightarrow> bool" where
  "isprint c \<longleftrightarrow> 32 \<le> c \<and> c \<le> 126"

definition isspace :: "byte \<Rightarrow> bool" where
  "isspace c \<longleftrightarrow> c = 32 \<or> (9 \<le> c \<and> c \<le> 13)"

definition hex_char :: "nat \<Rightarrow> byte" where
  "hex_char n = of_nat (if n < 10 then 48 + n else 87 + n)"

text \<open>The bytes appended for one character; the last line is \<open>"\x%02x"\<close>.\<close>

definition repr_char :: "byte \<Rightarrow> byte list" where
  "repr_char c =
     (if c = 92 \<or> c = 34 then [92, c]
      else if c = 10 then [92, 110] else if c = 13 then [92, 114] else if c = 9 then [92, 116]
      else if c = 7 then [92, 97] else if c = 8 then [92, 98]
      else if isprint c then [c]
      else [92, 120, hex_char (unat c div 16), hex_char (unat c mod 16)])"

fun catrepr_loop :: "malloc \<Rightarrow> sds \<Rightarrow> byte list \<Rightarrow> sds option" where
  "catrepr_loop mal s [] = Some s"
| "catrepr_loop mal s (c # p) = do { s \<leftarrow> sdscatlen mal s (repr_char c); catrepr_loop mal s p }"

definition sdscatrepr :: "malloc \<Rightarrow> sds \<Rightarrow> byte list \<Rightarrow> sds option" where
  "sdscatrepr mal s p = do {
     s \<leftarrow> sdscatlen mal s [34];
     s \<leftarrow> catrepr_loop mal s p;
     sdscatlen mal s [34] }"

definition sdsneedsrepr :: "byte list \<Rightarrow> int" where
  "sdsneedsrepr s =
     (if \<exists>c \<in> set s. c = 92 \<or> c = 34 \<or> c = 10 \<or> c = 13 \<or> c = 9 \<or> c = 7 \<or> c = 8 \<or> \<not> isprint c \<or> isspace c
      then 1 else 0)"

subsection \<open>Argument parsing\<close>

definition is_hex_digit :: "byte \<Rightarrow> bool" where
  "is_hex_digit c \<longleftrightarrow> (48 \<le> c \<and> c \<le> 57) \<or> (97 \<le> c \<and> c \<le> 102) \<or> (65 \<le> c \<and> c \<le> 70)"

definition hex_digit_to_int :: "byte \<Rightarrow> nat" where
  "hex_digit_to_int c =
     (if 48 \<le> c \<and> c \<le> 57 then unat c - 48 else if 97 \<le> c \<and> c \<le> 102 then unat c - 87
      else if 65 \<le> c \<and> c \<le> 70 then unat c - 55 else 0)"

text \<open>The character at an offset from \<open>p\<close>; the terminator is the last one read.\<close>

definition peek :: "byte list \<Rightarrow> nat \<Rightarrow> byte" where
  "peek p k = (if k < length p then p ! k else 0)"

definition advance :: "byte list \<Rightarrow> byte list" where
  "advance p = (if peek p 0 \<noteq> 0 then drop 1 p else p)"

definition unescape :: "byte \<Rightarrow> byte" where
  "unescape c = (if c = 110 then 10 else if c = 114 then 13 else if c = 116 then 9
     else if c = 98 then 8 else if c = 97 then 7 else c)"

datatype qmode = NoQ | InQ | InSQ

text \<open>The loop \<open>while(!done)\<close>: \<open>None\<close> is \<open>goto err\<close>; otherwise the token and where it stopped.\<close>

function get_token :: "qmode \<Rightarrow> byte list \<Rightarrow> byte list \<Rightarrow> (byte list \<times> byte list) option" where
  "get_token InQ p current =
     (if peek p 0 = 92 \<and> peek p 1 = 120 \<and> is_hex_digit (peek p 2) \<and> is_hex_digit (peek p 3)
      then get_token InQ (drop 4 p)
             (current @ [of_nat (hex_digit_to_int (peek p 2) * 16 + hex_digit_to_int (peek p 3))])
      else if peek p 0 = 92 \<and> peek p 1 \<noteq> 0 then get_token InQ (drop 2 p) (current @ [unescape (peek p 1)])
      else if peek p 0 = 34 then
        (if peek p 1 \<noteq> 0 \<and> \<not> isspace (peek p 1) then None else Some (current, drop 1 p))
      else if peek p 0 = 0 then None
      else get_token InQ (drop 1 p) (current @ [peek p 0]))"
| "get_token InSQ p current =
     (if peek p 0 = 92 \<and> peek p 1 = 39 then get_token InSQ (drop 2 p) (current @ [39])
      else if peek p 0 = 39 then
        (if peek p 1 \<noteq> 0 \<and> \<not> isspace (peek p 1) then None else Some (current, drop 1 p))
      else if peek p 0 = 0 then None
      else get_token InSQ (drop 1 p) (current @ [peek p 0]))"
| "get_token NoQ p current =
     (if peek p 0 \<in> {32, 10, 13, 9, 0} then Some (current, advance p)
      else if peek p 0 = 34 then get_token InQ (drop 1 p) current
      else if peek p 0 = 39 then get_token InSQ (drop 1 p) current
      else get_token NoQ (drop 1 p) (current @ [peek p 0]))"
  by pat_completeness auto
termination
  by (relation "measure (\<lambda>(_, p, _). length p)") (auto simp: peek_def split: if_splits)

declare get_token.simps [simp del]

lemma peek_nonempty: "peek p k \<noteq> 0 \<Longrightarrow> k < length p"
  by (auto simp: peek_def split: if_splits)

lemma get_token_shorter:
  "get_token q p current = Some (token, rest) \<Longrightarrow> length rest \<le> length p \<and> (peek p 0 \<noteq> 0 \<longrightarrow> length rest < length p)"
proof (induction "length p" arbitrary: q p current rule: less_induct)
  case less
  have ih: "length rest < length p" if "get_token q' (drop k p) cur' = Some (token, rest)" "0 < k" "peek p 0 \<noteq> 0"
    for q' k cur'
  proof -
    have "0 < length p" using peek_nonempty [OF that(3)] .
    then have "length (drop k p) < length p" using that(2) by simp
    with less.hyps [OF this that(1)] show ?thesis by simp
  qed
  show ?case
  proof (cases "peek p 0 = 0")
    case True
    then show ?thesis using less.prems
      by (cases q) (auto simp: get_token.simps(1) [of p current] get_token.simps(2) [of p current]
          get_token.simps(3) [of p current] advance_def)
  next
    case False
    note ih' = ih [OF _ _ False]
    have "length (drop 1 p) < length p" using peek_nonempty [OF False] by simp
    then have "length rest < length p"
      using less.prems False ih' [of _ 1] ih' [of _ 2] ih' [of _ 4]
      by (cases q) (auto simp: get_token.simps(1) [of p current] get_token.simps(2) [of p current]
          get_token.simps(3) [of p current] advance_def simp del: One_nat_def length_drop split: if_splits)
    then show ?thesis by simp
  qed
qed

text \<open>The outer loop; \<open>None\<close> is the result \<open>NULL\<close> after the clean-up at \<open>err\<close>.\<close>

function splitargs_loop :: "byte list \<Rightarrow> byte list list \<Rightarrow> byte list list option" where
  "splitargs_loop p vector =
     (let p = dropWhile (\<lambda>c. c \<noteq> 0 \<and> isspace c) p in
      if peek p 0 \<noteq> 0 then
        (case get_token NoQ p [] of
           None \<Rightarrow> None
         | Some (current, p) \<Rightarrow> splitargs_loop p (vector @ [current]))
      else Some vector)"
  by pat_completeness auto
termination
proof (relation "measure (\<lambda>(p, _). length p)")
  fix p :: "byte list" and vector :: "byte list list" and x x2 xa y
  assume "x = dropWhile (\<lambda>c. c \<noteq> 0 \<and> isspace c) p" "peek x 0 \<noteq> 0" "get_token NoQ x [] = Some x2" "(xa, y) = x2"
  then show "((y, vector @ [xa]), p, vector) \<in> measure (\<lambda>(p, _). length p)"
    using get_token_shorter [of NoQ x "[]" xa y] length_dropWhile_le [of "\<lambda>c. c \<noteq> 0 \<and> isspace c" p] by auto
qed simp

declare splitargs_loop.simps [simp del]

definition sdssplitargs :: "byte list \<Rightarrow> byte list list option" where
  "sdssplitargs line = splitargs_loop line []"

subsection \<open>Templates\<close>

text \<open>\<open>strchr\<close> in a C string: the part before the character and the suffix that starts with it.\<close>

definition strchr :: "byte list \<Rightarrow> byte \<Rightarrow> (byte list \<times> byte list) option" where
  "strchr p c = (let pre = takeWhile (\<lambda>x. x \<noteq> c) p; rest = dropWhile (\<lambda>x. x \<noteq> c) p
     in if rest = [] then None else Some (pre, rest))"

lemma strchr_shorter: "strchr p c = Some (pre, rest) \<Longrightarrow> rest \<noteq> [] \<and> length rest \<le> length p"
  by (auto simp: strchr_def Let_def length_dropWhile_le split: if_splits)

text \<open>123 and 125 are the brackets; the value the callback answers is appended as a C string.\<close>

function template_loop :: "(byte list \<Rightarrow> byte list option) \<Rightarrow> byte list \<Rightarrow> byte list \<Rightarrow> byte list option" where
  "template_loop cb_func p res =
     (if p = [] then Some res
      else (case strchr p 123 of
        None \<Rightarrow> Some (res @ p)
      | Some (pre, sv) \<Rightarrow>
          let res = res @ pre; sv = drop 1 sv in
          if sv = [] then None
          else if sv ! 0 = 123 then template_loop cb_func (drop 1 sv) (res @ [123])
          else (case strchr sv 125 of
            None \<Rightarrow> None
          | Some (varname, ev) \<Rightarrow>
              (case cb_func varname of
                 None \<Rightarrow> None
               | Some value \<Rightarrow> template_loop cb_func (drop 1 ev) (res @ takeWhile (\<lambda>b. b \<noteq> 0) value)))))"
  by pat_completeness auto
termination
  by (relation "measure (\<lambda>(_, p, _). length p)")
     (auto dest!: strchr_shorter simp: length_greater_0_conv [symmetric] simp del: length_greater_0_conv)

declare template_loop.simps [simp del]

definition sdstemplate :: "(byte list \<Rightarrow> byte list option) \<Rightarrow> byte list \<Rightarrow> byte list option" where
  "sdstemplate cb_func template = template_loop cb_func template []"

subsection \<open>Splitting and joining are inverse\<close>

fun join_bytes :: "byte list \<Rightarrow> byte list list \<Rightarrow> byte list" where
  "join_bytes sep [] = []"
| "join_bytes sep (t # ts) = t @ (if ts = [] then [] else sep @ join_bytes sep ts)"

definition at_pos :: "byte list \<Rightarrow> byte list \<Rightarrow> nat \<Rightarrow> bool" where
  "at_pos sep s k \<longleftrightarrow> k + length sep \<le> length s \<and> take (length sep) (drop k s) = sep"

lemma sublist_at_pos: "sublist sep s \<longleftrightarrow> (\<exists>k. at_pos sep s k)"
proof
  assume "sublist sep s"
  then obtain a b where "s = a @ sep @ b" by (auto simp: sublist_def)
  then have "at_pos sep s (length a)" by (simp add: at_pos_def)
  then show "\<exists>k. at_pos sep s k" ..
next
  assume "\<exists>k. at_pos sep s k"
  then obtain k where "take (length sep) (drop k s) = sep" by (auto simp: at_pos_def)
  then have "s = take k s @ sep @ drop (length sep) (drop k s)" by (metis append_take_drop_id)
  then show "sublist sep s" unfolding sublist_def by blast
qed

lemma at_pos_slice:
  assumes "at_pos sep (take n (drop start s)) k" "sep \<noteq> []"
  shows "at_pos sep s (start + k) \<and> start + k + length sep \<le> start + n"
proof -
  have k: "k + length sep \<le> n" "k + length sep \<le> length s - start"
    "take (length sep) (drop k (take n (drop start s))) = sep"
    using assms by (auto simp: at_pos_def)
  have "drop k (take n (drop start s)) = take (n - k) (drop (start + k) s)"
    by (simp add: drop_take add.commute)
  moreover have "length sep \<le> n - k" using k(1) by simp
  ultimately have "take (length sep) (drop (start + k) s) = sep" using k(3) by (simp add: min_absorb1)
  moreover have "start + k + length sep \<le> length s"
    using k(2) assms(2) by (cases "start \<le> length s") auto
  ultimately show ?thesis using k(1) by (simp add: at_pos_def)
qed

lemma separator_test:
  "j + length sep \<le> length s \<Longrightarrow>
     ((length sep = 1 \<and> s ! j = sep ! 0) \<or> take (length sep) (drop j s) = sep) = at_pos sep s j"
proof -
  assume j: "j + length sep \<le> length s"
  have "take (length sep) (drop j s) = sep" if "length sep = 1" "s ! j = sep ! 0"
  proof -
    obtain x where "sep = [x]" using \<open>length sep = 1\<close> by (cases sep) auto
    then show ?thesis using j that(2) by (simp add: take_Suc_conv_app_nth)
  qed
  then show ?thesis using j by (auto simp: at_pos_def)
qed

text \<open>What holds at the head of the loop.\<close>

definition split_inv :: "byte list \<Rightarrow> byte list \<Rightarrow> nat \<Rightarrow> nat \<Rightarrow> nat \<Rightarrow> byte list list \<Rightarrow> bool" where
  "split_inv s sep start j slots tokens \<longleftrightarrow> start \<le> j \<and> start \<le> length s \<and> length tokens < slots \<and>
     concat (map (\<lambda>t. t @ sep) tokens) @ drop start s = s \<and>
     (\<forall>t \<in> set tokens. \<not> sublist sep t) \<and> (\<forall>k. start \<le> k \<and> k < j \<longrightarrow> \<not> at_pos sep s k)"

lemma split_inv_token:
  assumes "split_inv s sep start j slots tokens" "at_pos sep s j" "length tokens + 1 < slots'"
    "sep \<noteq> []"
  shows "split_inv s sep (j + length sep) (j + length sep) slots' (tokens @ [take (j - start) (drop start s)])"
proof -
  let ?t = "take (j - start) (drop start s)"
  have i: "start \<le> j" "concat (map (\<lambda>t. t @ sep) tokens) @ drop start s = s"
    "\<forall>t \<in> set tokens. \<not> sublist sep t" "\<forall>k. start \<le> k \<and> k < j \<longrightarrow> \<not> at_pos sep s k"
    using assms(1) by (auto simp: split_inv_def)
  have j: "j + length sep \<le> length s" "take (length sep) (drop j s) = sep" using assms(2) by (auto simp: at_pos_def)
  have "drop start s = ?t @ drop j s" using i(1) append_take_drop_id [of "j - start" "drop start s"] by simp
  also have "drop j s = sep @ drop (j + length sep) s"
    using j(2) append_take_drop_id [of "length sep" "drop j s"] by (simp add: add.commute)
  finally have whole: "concat (map (\<lambda>t. t @ sep) (tokens @ [?t])) @ drop (j + length sep) s = s"
    using i(2) by simp
  have "\<not> sublist sep ?t"
  proof
    assume "sublist sep ?t"
    then obtain k where "at_pos sep ?t k" by (auto simp: sublist_at_pos)
    from at_pos_slice [OF this assms(4)] have "at_pos sep s (start + k)" "start + k + length sep \<le> j" using i(1) by auto
    moreover have "0 < length sep" using assms(4) by simp
    ultimately show False using i(4) by (metis add_lessD1 le_add1 less_le_trans less_add_same_cancel1)
  qed
  then show ?thesis using whole i(3) j(1) assms(3) by (auto simp: split_inv_def)
qed

lemma split_loop_ok:
  assumes "split_inv s sep start j slots tokens" "sep \<noteq> []"
  shows "\<exists>start' slots' tokens' j'. split_loop s sep start j slots tokens = Some (start', slots', tokens') \<and>
     split_inv s sep start' j' slots' tokens' \<and> length s < j' + length sep"
  using assms
proof (induction s sep start j slots tokens rule: split_loop.induct)
  case (1 s sep start j slots tokens)
  let ?slots = "if slots < length tokens + 2 then slots * 2 else slots"
  have slots: "length tokens + 1 < ?slots" using 1(3) by (auto simp: split_inv_def)
  show ?case
  proof (cases "j + length sep \<le> length s")
    case False
    then have "split_loop s sep start j slots tokens = Some (start, slots, tokens)"
      by (subst split_loop.simps) simp
    moreover have "length s < j + length sep" using False by simp
    ultimately show ?thesis using 1(3) by blast
  next
    case True
    note test = separator_test [OF True]
    show ?thesis
    proof (cases "at_pos sep s j")
      case yes: True
      have "split_loop s sep start j slots tokens = split_loop s sep (j + length sep) (j + length sep) ?slots
          (tokens @ [take (j - start) (drop start s)])"
        using True 1(4) yes test slots by (subst split_loop.simps) (simp add: Let_def del: One_nat_def)
      moreover note split_inv_token [OF 1(3) yes slots 1(4)]
      ultimately show ?thesis using 1(1) [OF _ refl] True yes test slots 1(4) by simp
    next
      case no: False
      have "split_loop s sep start j slots tokens = split_loop s sep start (j + 1) ?slots tokens"
        using True 1(4) no test by (subst split_loop.simps) (auto simp: Let_def simp del: One_nat_def)
      moreover have "split_inv s sep start (j + 1) ?slots tokens"
        using 1(3) no slots by (auto simp: split_inv_def less_Suc_eq)
      ultimately show ?thesis using 1(2) [OF _ refl] True no test 1(4) by simp
    qed
  qed
qed

lemma join_bytes_concat: "join_bytes sep (ts @ [x]) = concat (map (\<lambda>t. t @ sep) ts) @ x"
  by (induction ts) auto

lemma split_ok:
  assumes "s \<noteq> []" "sep \<noteq> []"
  shows "\<exists>ts. sdssplitlen s sep = Some (Some ts) \<and> join_bytes sep ts = s \<and> ts \<noteq> [] \<and> (\<forall>t \<in> set ts. \<not> sublist sep t)"
proof -
  have "split_inv s sep 0 0 5 []" by (simp add: split_inv_def)
  from split_loop_ok [OF this assms(2)] obtain start slots tokens j where
    r: "split_loop s sep 0 0 5 [] = Some (start, slots, tokens)" "split_inv s sep start j slots tokens"
      "length s < j + length sep" by blast
  have "\<not> sublist sep (drop start s)"
  proof
    assume "sublist sep (drop start s)"
    then obtain k where k: "at_pos sep (drop start s) k" by (auto simp: sublist_at_pos)
    then have "at_pos sep (take (length s) (drop start s)) k" by simp
    from at_pos_slice [OF this assms(2)] have "at_pos sep s (start + k)" by simp
    moreover from this have "start + k < j" using r(3) by (auto simp: at_pos_def)
    ultimately show False using r(2) by (auto simp: split_inv_def)
  qed
  then show ?thesis
    using r(1,2) assms by (auto simp: sdssplitlen_def split_inv_def join_bytes_concat Suc_le_eq)
qed

lemma catsds_ok:
  assumes "malloc_ok mal" "sds_ok s" "sds_ok t" "slen s + slen t < 2 ^ 62"
  shows "\<exists>s'. sdscatsds mal s t = Some s' \<and> sds_ok s' \<and> content s' = content s @ content t"
proof -
  have "read_at (buf t) 0 (sdslen t) = Some (content t)"
    using assms(3) by (simp add: sds_ok_def sds_wf_def sdslen_def read_at_in content_def)
  moreover have "length (content t) = slen t" using assms(3) by (simp add: sds_ok_def wf_content_length)
  ultimately show ?thesis
    using catlen_ok [OF assms(1), of s "content t"] assms(2,4) by (simp add: sdscatsds_def sds_ok_def)
qed

lemma ok_length: "sds_ok s \<Longrightarrow> slen s = length (content s)"
  by (simp add: sds_ok_def wf_content_length)

lemma joinsds_loop_ok:
  assumes "malloc_ok mal"
  shows "sds_ok join \<Longrightarrow> \<forall>a \<in> set argv. sds_ok a \<Longrightarrow>
     length (content join) + length (join_bytes sep (map content argv)) < 2 ^ 62 \<Longrightarrow>
     \<exists>s. joinsds_loop mal argv sep join = Some s \<and> sds_ok s \<and>
       content s = content join @ join_bytes sep (map content argv)"
proof (induction argv arbitrary: join)
  case Nil
  then show ?case by simp
next
  case (Cons a argv)
  obtain s1 where s1: "sdscatsds mal join a = Some s1" "sds_ok s1" "content s1 = content join @ content a"
    using catsds_ok [OF assms Cons.prems(1), of a] Cons.prems by (auto simp: ok_length)
  show ?case
  proof (cases "argv = []")
    case True
    then show ?thesis using s1 by simp
  next
    case False
    obtain s2 where s2: "sdscatlen mal s1 sep = Some s2" "sds_ok s2" "content s2 = content s1 @ sep"
      using catlen_ok [OF assms, of s1 sep] s1 ok_length [OF s1(2)] Cons.prems(3) False
      by (auto simp: sds_ok_def)
    have "\<exists>s. joinsds_loop mal argv sep s2 = Some s \<and> sds_ok s \<and>
       content s = content s2 @ join_bytes sep (map content argv)"
      using Cons.prems s1 s2 False by (intro Cons.IH) auto
    then show ?thesis using False s1 s2 by auto
  qed
qed

lemma empty_ok: "malloc_ok mal \<Longrightarrow> \<exists>s. sdsempty mal = Some s \<and> sds_ok s \<and> content s = []"
  using newlen_ok [of mal 0 "Init []"] by (auto simp: sdsempty_def)

subsection \<open>Quoting and parsing are inverse\<close>

definition quote :: "byte list \<Rightarrow> byte list" where
  "quote p = 34 # concat (map repr_char p) @ [34]"

lemma peek_simps [simp]:
  "peek [] k = 0" "peek (x # xs) 0 = x" "peek (x # xs) (Suc k) = peek xs k"
  "peek (x # xs) (numeral n) = peek xs (pred_numeral n)"
  by (auto simp: peek_def numeral_eq_Suc)

lemma hex_char_nat: "n < 16 \<Longrightarrow> unat (hex_char n) = (if n < 10 then 48 + n else 87 + n)"
  by (simp add: hex_char_def unat_of_nat del: of_nat_add)

lemma byte_bound: "unat (c :: byte) < 256"
  using unsigned_less [of c, where ?'a = nat] by simp

lemma byte_le: "(a :: byte) \<le> b \<longleftrightarrow> unat a \<le> unat b"
  by (rule word_le_nat_alt)

lemma hex_char_digit:
  assumes "n < 16"
  shows "is_hex_digit (hex_char n)" "hex_digit_to_int (hex_char n) = n"
  using hex_char_nat [OF assms] assms
  by (auto simp: is_hex_digit_def hex_digit_to_int_def byte_le)

lemma hex_byte: "(of_nat (unat c div 16 * 16 + unat c mod 16) :: byte) = c"
  by (simp add: div_mult_mod_eq)

lemma get_token_repr:
  "get_token InQ (repr_char c @ rest) current = get_token InQ rest (current @ [c])"
proof -
  have hi: "unat c div 16 < 16" "unat c mod 16 < 16"
    using byte_bound [of c] by (simp_all add: less_mult_imp_div_less)
  consider "c \<in> {92, 34, 10, 13, 9, 7, 8}" | "isprint c" "c \<notin> {92, 34, 10, 13, 9, 7, 8}"
    | "\<not> isprint c" "c \<notin> {92, 34, 10, 13, 9, 7, 8}" by blast
  then show ?thesis
  proof cases
    case 1
    then show ?thesis
      by (auto simp: repr_char_def get_token.simps(1) [of "92 # _"] unescape_def)
  next
    case 2
    then have "c \<noteq> 0" by (auto simp: isprint_def)
    with 2 show ?thesis by (simp add: repr_char_def get_token.simps(1) [of "c # _"])
  next
    case 3
    then have "repr_char c = [92, 120, hex_char (unat c div 16), hex_char (unat c mod 16)]"
      by (simp add: repr_char_def)
    then show ?thesis
      using hex_char_digit [OF hi(1)] hex_char_digit [OF hi(2)] hex_byte [of c]
      by (simp add: get_token.simps(1) [of "92 # _"])
  qed
qed

lemma get_token_quoted:
  "get_token InQ (concat (map repr_char p) @ 34 # rest) current =
     (if peek rest 0 \<noteq> 0 \<and> \<not> isspace (peek rest 0) then None else Some (current @ p, rest))"
proof (induction p arbitrary: current)
  case Nil
  then show ?case by (simp add: get_token.simps(1) [of "34 # _"])
next
  case (Cons c p)
  then show ?case by (simp add: get_token_repr)
qed

lemma splitargs_quote:
  assumes "rest = [] \<or> isspace (hd rest)"
  shows "splitargs_loop (quote p @ rest) vector = splitargs_loop rest (vector @ [p])"
proof -
  have sp: "\<not> isspace 34" by (simp add: isspace_def)
  have "get_token NoQ (quote p @ rest) [] = Some (p, rest)"
    using assms get_token_quoted [of p rest "[]"]
    by (cases rest) (auto simp: quote_def get_token.simps(3) [of "34 # _"])
  then show ?thesis using sp
    by (subst splitargs_loop.simps) (simp add: quote_def Let_def)
qed

lemma splitargs_space: "splitargs_loop (32 # p) vector = splitargs_loop p vector"
  by (subst (1 2) splitargs_loop.simps) (simp add: isspace_def)

lemma splitargs_nil: "splitargs_loop [] vector = Some vector"
  by (subst splitargs_loop.simps) simp

lemma splitargs_join:
  "splitargs_loop (join_bytes [32] (map quote ps)) vector = Some (vector @ ps)"
proof (induction ps arbitrary: vector)
  case Nil
  then show ?case by (simp add: splitargs_nil)
next
  case (Cons p ps)
  show ?case
  proof (cases "ps = []")
    case True
    then show ?thesis using splitargs_quote [of "[]" p vector] by (simp add: splitargs_nil)
  next
    case False
    then show ?thesis
      using splitargs_quote [of "32 # join_bytes [32] (map quote ps)" p vector] Cons
      by (simp add: splitargs_space isspace_def)
  qed
qed

text \<open>A plain word is parsed as itself.\<close>

lemma get_token_plain:
  "(\<forall>c \<in> set w. c \<notin> {32, 10, 13, 9, 0, 34, 39}) \<Longrightarrow> get_token NoQ w current = Some (current @ w, [])"
proof (induction w arbitrary: current)
  case Nil
  then show ?case by (simp add: get_token.simps(3) [of "[]"] advance_def)
next
  case (Cons c w)
  then show ?case by (simp add: get_token.simps(3) [of "c # w"])
qed

lemma needsrepr_zero:
  "sdsneedsrepr s = 0 \<longleftrightarrow> (\<forall>c \<in> set s. isprint c \<and> c \<noteq> 92 \<and> c \<noteq> 34 \<and> \<not> isspace c)"
proof -
  have "\<not> isprint 10" "\<not> isprint 13" "\<not> isprint 9" "\<not> isprint 7" "\<not> isprint 8"
    by (simp_all add: isprint_def)
  then show ?thesis unfolding sdsneedsrepr_def by (metis zero_neq_one)
qed

lemma catrepr_ok:
  assumes "malloc_ok mal" "sds_ok s" "length (content s) + length (quote p) < 2 ^ 62"
  shows "\<exists>s'. sdscatrepr mal s p = Some s' \<and> sds_ok s' \<and> content s' = content s @ quote p"
proof -
  have all: "sdscatrepr mal s p = sds_append.append_all mal s ([34] # map repr_char p @ [[34]])"
  proof -
    have "catrepr_loop mal r p \<bind> (\<lambda>s. sdscatlen mal s [34]) = sds_append.append_all mal r (map repr_char p @ [[34]])" for r
      by (induction p arbitrary: r) (auto split: Option.bind_split)
    then show ?thesis by (simp add: sdscatrepr_def)
  qed
  have "length (content s) + length (concat ([34] # map repr_char p @ [[34]])) < (if malloc_ok mal then 2 ^ 62 else 0)"
    using assms(1,3) by (simp add: quote_def)
  from sds_append.append_all_ok [OF assms(2) this] show ?thesis unfolding all by (simp add: quote_def)
qed

subsection \<open>Template expansion\<close>

datatype segment = Lit "byte list" | Var "byte list"

fun show_segment :: "segment \<Rightarrow> byte list" where
  "show_segment (Lit xs) = concat (map (\<lambda>c. if c = 123 then [123, 123] else [c]) xs)"
| "show_segment (Var name) = 123 # name @ [125]"

fun expand_segment :: "(byte list \<Rightarrow> byte list option) \<Rightarrow> segment \<Rightarrow> byte list option" where
  "expand_segment cb (Lit xs) = Some xs"
| "expand_segment cb (Var name) = map_option (takeWhile (\<lambda>b. b \<noteq> 0)) (cb name)"

fun segment_ok :: "segment \<Rightarrow> bool" where
  "segment_ok (Lit xs) = True"
| "segment_ok (Var name) = (125 \<notin> set name \<and> (name = [] \<or> hd name \<noteq> 123))"

fun expand_all :: "(byte list \<Rightarrow> byte list option) \<Rightarrow> segment list \<Rightarrow> byte list option" where
  "expand_all cb [] = Some []"
| "expand_all cb (g # gs) = do { x \<leftarrow> expand_segment cb g; xs \<leftarrow> expand_all cb gs; Some (x @ xs) }"

lemma template_nil: "template_loop cb [] res = Some res"
  by (simp add: template_loop.simps [of cb "[]"])

lemma strchr_other:
  "c \<noteq> d \<Longrightarrow> strchr (c # rest) d = map_option (\<lambda>(pre, sv). (c # pre, sv)) (strchr rest d)"
  by (auto simp: strchr_def Let_def)

lemma template_char:
  assumes "c \<noteq> 123"
  shows "template_loop cb (c # rest) res = template_loop cb rest (res @ [c])"
proof (cases "rest = []")
  case True
  then show ?thesis
    using assms by (simp add: template_loop.simps [of cb "[c]"] template_nil strchr_def)
next
  case False
  then show ?thesis
    using strchr_other [OF assms, of rest]
    by (cases "strchr rest 123") (auto simp: template_loop.simps [of cb "c # rest"] template_loop.simps [of cb rest])
qed

lemma template_brace: "template_loop cb (123 # 123 # rest) res = template_loop cb rest (res @ [123])"
  by (simp add: template_loop.simps [of cb "123 # 123 # rest"] strchr_def Let_def)

lemma strchr_first: "c \<notin> set xs \<Longrightarrow> strchr (xs @ c # ys) c = Some (xs, c # ys)"
proof -
  assume "c \<notin> set xs"
  then have "\<And>x. x \<in> set xs \<Longrightarrow> x \<noteq> c" by blast
  then have "takeWhile (\<lambda>x. x \<noteq> c) (xs @ c # ys) = xs" "dropWhile (\<lambda>x. x \<noteq> c) (xs @ c # ys) = c # ys"
    by (simp_all add: takeWhile_append2 dropWhile_append2)
  then show ?thesis by (simp add: strchr_def Let_def)
qed

lemma template_var:
  assumes "segment_ok (Var name)"
  shows "template_loop cb (123 # name @ 125 # rest) res =
     (case cb name of None \<Rightarrow> None | Some value \<Rightarrow> template_loop cb rest (res @ takeWhile (\<lambda>b. b \<noteq> 0) value))"
proof -
  have "strchr (123 # name @ 125 # rest) 123 = Some ([], 123 # name @ 125 # rest)"
    by (simp add: strchr_def Let_def)
  moreover have "strchr (name @ 125 # rest) 125 = Some (name, 125 # rest)"
    using assms by (intro strchr_first) simp
  moreover have "(name @ 125 # rest) ! 0 \<noteq> 123" using assms by (cases name) auto
  ultimately show ?thesis
    by (cases "cb name") (simp_all add: template_loop.simps [of cb "123 # name @ 125 # rest"] Let_def)
qed

lemma template_lit:
  "template_loop cb (show_segment (Lit xs) @ rest) res = template_loop cb rest (res @ xs)"
  by (induction xs arbitrary: res) (simp_all add: template_char template_brace)

lemma template_all:
  assumes "\<forall>g \<in> set gs. segment_ok g"
  shows "template_loop cb (concat (map show_segment gs)) res = map_option (\<lambda>x. res @ x) (expand_all cb gs)"
  using assms
proof (induction gs arbitrary: res)
  case Nil
  then show ?case by (simp add: template_nil)
next
  case (Cons g gs)
  show ?case
  proof (cases g)
    case (Lit xs)
    then show ?thesis
      using Cons template_lit [of cb xs "concat (map show_segment gs)" res]
      by (cases "expand_all cb gs") auto
  next
    case (Var name)
    then show ?thesis
      using Cons template_var [of name cb "concat (map show_segment gs)" res]
      by (cases "cb name"; cases "expand_all cb gs") auto
  qed
qed

subsection \<open>Correctness of the text functions\<close>





text \<open>C32. \<open>sdsneedsrepr\<close> is documented as compatible with \<open>sdssplitargs\<close>, but it answers 0 for a string
  with a single quote and for the empty string, which \<open>sdssplitargs\<close> rejects and drops. For every
  non-empty string without a single quote the answer 0 does mean that it is parsed as itself.\<close>

theorem sdsneedsrepr_not_enough:
  "sdsneedsrepr [105, 116, 39, 115] = 0 \<and> sdssplitargs [105, 116, 39, 115] = None \<and>
   sdsneedsrepr [] = 0 \<and> sdssplitargs [] = Some [] \<and>
   (\<forall>s. sdsneedsrepr s = 0 \<and> s \<noteq> [] \<and> 39 \<notin> set s \<longrightarrow> sdssplitargs s = Some [s])"
proof (intro conjI allI impI)
  show "sdsneedsrepr [105, 116, 39, 115] = 0" by (simp add: needsrepr_zero isprint_def isspace_def)
  show "sdssplitargs [105, 116, 39, 115] = None"
    by (simp add: sdssplitargs_def splitargs_loop.simps Let_def isspace_def get_token.simps)
  show "sdsneedsrepr [] = 0" by (simp add: needsrepr_zero)
  show "sdssplitargs [] = Some []" by (simp add: sdssplitargs_def splitargs_nil)
  fix s
  assume s: "sdsneedsrepr s = 0 \<and> s \<noteq> [] \<and> 39 \<notin> set s"
  then have c: "\<forall>c \<in> set s. isprint c \<and> c \<noteq> 34 \<and> \<not> isspace c \<and> c \<noteq> 39" by (auto simp: needsrepr_zero)
  moreover have np: "isprint c \<Longrightarrow> \<not> isspace c \<Longrightarrow> c \<notin> {32, 10, 13, 9, 0}" for c
    by (auto simp: isprint_def isspace_def)
  ultimately have "\<forall>c \<in> set s. c \<notin> {32, 10, 13, 9, 0, 34, 39}" by blast
  from get_token_plain [OF this] have t: "get_token NoQ s [] = Some (s, [])" by simp
  obtain x xs where x: "s = x # xs" using s by (cases s) auto
  then have "\<not> isspace x" "x \<noteq> 0" using c np [of x] by auto
  then show "sdssplitargs s = Some [s]"
    using t unfolding x sdssplitargs_def
    by (subst splitargs_loop.simps) (simp add: Let_def splitargs_nil)
qed

theorem sdsneedsrepr_not_enough_witness:
  "sdsneedsrepr [102, 111, 111] = 0 \<and> sdssplitargs [102, 111, 111] = Some [[102, 111, 111]]"
proof -
  have "sdsneedsrepr [102, 111, 111] = 0" by (simp add: needsrepr_zero isprint_def isspace_def)
  with sdsneedsrepr_not_enough show ?thesis by simp
qed

text \<open>\<open>sdstemplate\<close> expands a template written as literal text (opening brackets doubled) and
  variables: the result is the literal text with every variable replaced by the value of the
  callback up to its first zero byte, and \<open>NULL\<close> exactly when the callback has no value for one of
  the variables.\<close>

theorem sdstemplate_expands:
  assumes "\<forall>g \<in> set gs. segment_ok g"
  shows "sdstemplate cb (concat (map show_segment gs)) = expand_all cb gs"
  unfolding sdstemplate_def template_all [OF assms] by (cases "expand_all cb gs") simp_all

theorem sdstemplate_expands_witness:
  "sdstemplate (\<lambda>n. if n = [97] then Some [49, 0, 50] else None) [123, 123, 123, 97, 125] = Some [123, 49]"
  using sdstemplate_expands [of "[Lit [123], Var [97]]" "\<lambda>n. if n = [97] then Some [49, 0, 50] else None"]
  by simp

end
