(* ===== verification/Util.thy ===== *)
theory Util
  imports Sds_Text
begin

text \<open>
  The conversions and matchers of \<open>myRedis/src/util.c\<close>: integers to text and back, memory sizes,
  byte sets, and glob patterns.

  A buffer that is written is a byte list with an offset; every store is checked. Strings that are
  only read are the bytes before the terminator. \<open>unsigned long long\<close> numbers are naturals below
  \<open>2 ^ 64\<close> with the reductions written out where an operation could wrap.
\<close>

subsection \<open>Printing integers\<close>

definition ULLONG_MAX :: nat where "ULLONG_MAX = 2 ^ 64 - 1"
definition LONG_STR_SIZE :: nat where "LONG_STR_SIZE = 21"

function digits10 :: "nat \<Rightarrow> nat" where
  "digits10 v =
     (if v < 10 then 1 else if v < 100 then 2 else if v < 1000 then 3
      else if v < 1000000000000 then
        (if v < 100000000 then
           (if v < 1000000 then (if v < 10000 then 4 else 5 + (if 100000 \<le> v then 1 else 0))
            else 7 + (if 10000000 \<le> v then 1 else 0))
         else if v < 10000000000 then 9 + (if 1000000000 \<le> v then 1 else 0)
         else 11 + (if 100000000000 \<le> v then 1 else 0))
      else 12 + digits10 (v div 1000000000000))"
  by pat_completeness auto
termination by (relation "measure id") auto

declare digits10.simps [simp del]

definition sdigits10 :: "int \<Rightarrow> nat" where
  "sdigits10 v =
     (if v < 0 then digits10 (if v \<noteq> LLONG_MIN then nat (- v) else nat (LLONG_MAX + 1)) + 1
      else digits10 (nat v))"

text \<open>The table of the two-digit numbers and the subtraction of \<open>uint32_t\<close>.\<close>

definition digit_pairs :: "byte list" where
  "digit_pairs = map of_char
     (''0001020304050607080910111213141516171819'' @
      ''2021222324252627282930313233343536373839'' @
      ''4041424344454647484950515253545556575859'' @
      ''6061626364656667686970717273747576777879'' @
      ''8081828384858687888990919293949596979899'')"

definition sub32 :: "nat \<Rightarrow> nat \<Rightarrow> nat" where
  "sub32 a b = (a + 2 ^ 32 - b) mod 2 ^ 32"

text \<open>\<open>dst[next] = digits[i + 1]; dst[next - 1] = digits[i]\<close>.\<close>

definition put_pair :: "byte list \<Rightarrow> nat \<Rightarrow> nat \<Rightarrow> nat \<Rightarrow> byte list option" where
  "put_pair mem off nxt i = do {
     hi \<leftarrow> get_at digit_pairs (i + 1);
     mem \<leftarrow> set_at mem (off + nxt) hi;
     lo \<leftarrow> get_at digit_pairs i;
     set_at mem (off + sub32 nxt 1) lo }"

text \<open>The loop over pairs of digits and, once it ends, the last one or two digits.\<close>

function put_digits :: "byte list \<Rightarrow> nat \<Rightarrow> nat \<Rightarrow> nat \<Rightarrow> byte list option" where
  "put_digits mem off nxt value =
     (if 100 \<le> value
      then (case put_pair mem off nxt (value mod 100 * 2) of
              None \<Rightarrow> None
            | Some mem \<Rightarrow> put_digits mem off (sub32 nxt 2) (value div 100))
      else if value < 10 then set_at mem (off + nxt) (of_nat (48 + value))
      else put_pair mem off nxt (value * 2))"
  by pat_completeness auto
termination by (relation "measure (\<lambda>(_, _, _, value). value)") auto

declare put_digits.simps [simp del]

text \<open>The result is the buffer and the returned length.\<close>

definition ull2string :: "byte list \<Rightarrow> nat \<Rightarrow> nat \<Rightarrow> nat \<Rightarrow> (byte list \<times> nat) option" where
  "ull2string mem off dstlen value =
     (let len = digits10 value in
      if dstlen \<le> len then
        (if 0 < dstlen then do { mem \<leftarrow> set_at mem off 0; Some (mem, 0) } else Some (mem, 0))
      else do {
        let nxt = sub32 len 1;
        mem \<leftarrow> set_at mem (off + (nxt + 1)) 0;
        mem \<leftarrow> put_digits mem off nxt value;
        Some (mem, len) })"

definition ll2string :: "byte list \<Rightarrow> nat \<Rightarrow> int \<Rightarrow> (byte list \<times> nat) option" where
  "ll2string mem dstlen svalue =
     (if svalue < 0 then
        (let value = (if svalue \<noteq> LLONG_MIN then nat (- svalue) else nat (LLONG_MAX + 1)) in
         if dstlen < 2 then
           (if 0 < dstlen then do { mem \<leftarrow> set_at mem 0 0; Some (mem, 0) } else Some (mem, 0))
         else do {
           mem \<leftarrow> set_at mem 0 45;
           (mem, len) \<leftarrow> ull2string mem 1 (dstlen - 1) value;
           Some (mem, if len = 0 then 0 else len + 1) })
      else do {
        (mem, len) \<leftarrow> ull2string mem 0 dstlen (nat svalue);
        Some (mem, len) })"

subsection \<open>Parsing integers\<close>

definition isdigit :: "byte \<Rightarrow> bool" where
  "isdigit c \<longleftrightarrow> 48 \<le> c \<and> c \<le> 57"

text \<open>The digit loop: \<open>None\<close> is an overflow; otherwise the value and what was not used.\<close>

fun ll_digits :: "byte list \<Rightarrow> nat \<Rightarrow> (nat \<times> byte list) option" where
  "ll_digits [] v = Some (v, [])"
| "ll_digits (c # p) v =
     (if isdigit c then
        (if ULLONG_MAX div 10 < v then None
         else let v = (v * 10) mod 2 ^ 64 in
              if ULLONG_MAX - (unat c - 48) < v then None
              else ll_digits p ((v + (unat c - 48)) mod 2 ^ 64))
      else Some (v, c # p))"

text \<open>The conversion of \<open>unsigned long long\<close> to \<open>long long\<close>.\<close>

definition to_ll :: "int \<Rightarrow> int" where
  "to_ll x = (x + 2 ^ 63) mod 2 ^ 64 - 2 ^ 63"

definition string2ll :: "byte list \<Rightarrow> int option" where
  "string2ll s =
     (if s = [] \<or> LONG_STR_SIZE \<le> length s then None
      else if length s = 1 \<and> s ! 0 = 48 then Some 0
      else let negative = (s ! 0 = 45); p = (if negative then drop 1 s else s) in
        if p = [] then None
        else if 49 \<le> p ! 0 \<and> p ! 0 \<le> 57 then
          (case ll_digits (drop 1 p) (unat (p ! 0) - 48) of
             None \<Rightarrow> None
           | Some (v, rest) \<Rightarrow>
               if rest \<noteq> [] then None
               else if negative then
                 (if - (LLONG_MIN + 1) + 1 < int v then None else Some (to_ll ((- int v) mod 2 ^ 64)))
               else if LLONG_MAX < int v then None else Some (to_ll (int v)))
        else None)"

text \<open>\<open>long\<close> is as wide as \<open>long long\<close>.\<close>

definition string2l :: "byte list \<Rightarrow> int option" where
  "string2l s = (case string2ll s of
     None \<Rightarrow> None | Some v \<Rightarrow> if v < LLONG_MIN \<or> LLONG_MAX < v then None else Some v)"

text \<open>\<open>strtoull\<close> in base 10: the value, the rest at \<open>endptr\<close> and whether \<open>errno\<close> is \<open>ERANGE\<close>.\<close>

definition strtoull :: "byte list \<Rightarrow> nat \<times> byte list \<times> bool" where
  "strtoull s =
     (let p = dropWhile isspace s;
          negative = (p \<noteq> [] \<and> hd p = 45);
          p = (if p \<noteq> [] \<and> (hd p = 45 \<or> hd p = 43) then tl p else p);
          ds = takeWhile isdigit p;
          v = val_digits ds
      in if ds = [] then (0, s, False)
         else if ULLONG_MAX < v then (ULLONG_MAX, dropWhile isdigit p, True)
         else (if negative then (2 ^ 64 - v) mod 2 ^ 64 else v, dropWhile isdigit p, False))"

definition string2ull :: "byte list \<Rightarrow> nat option" where
  "string2ull s =
     (case string2ll s of
        Some ll \<Rightarrow> if ll < 0 then None else Some (nat ll)
      | None \<Rightarrow> (let (v, rest, erange) = strtoull s in
          if erange \<or> \<not> (s \<noteq> [] \<and> rest = []) then None else Some v))"

text \<open>\<open>None\<close> is \<open>*err = 1\<close> with the result 0.\<close>

definition unit_mul :: "byte list \<Rightarrow> nat option" where
  "unit_mul u =
     (let l = map tolower u in
      if u = [] \<or> l = [98] then Some 1
      else if l = [107] then Some 1000 else if l = [107, 98] then Some 1024
      else if l = [109] then Some (1000 * 1000) else if l = [109, 98] then Some (1024 * 1024)
      else if l = [103] then Some (1000 * 1000 * 1000)
      else if l = [103, 98] then Some (1024 * 1024 * 1024) else None)"

definition memtoull :: "byte list \<Rightarrow> nat option" where
  "memtoull p =
     (if p \<noteq> [] \<and> p ! 0 = 45 then None
      else let ds = takeWhile isdigit p; u = dropWhile isdigit p in
        (case unit_mul u of
           None \<Rightarrow> None
         | Some mul \<Rightarrow>
             if 128 \<le> length ds then None
             else let (val, rest, _) = strtoull ds in
                  if rest \<noteq> [] then None else Some (val * mul mod 2 ^ 64)))"

subsection \<open>Decimal numbers\<close>

definition decimal :: "nat \<Rightarrow> byte list" where
  "decimal v = rev (rev_digits v)"

lemma decimal_nonempty [simp]: "decimal v \<noteq> []"
  by (simp add: decimal_def)

lemma decimal_small: "v < 10 \<Longrightarrow> decimal v = [of_nat (48 + v)]"
  by (simp add: decimal_def rev_digits.simps)

lemma decimal_snoc: "10 \<le> v \<Longrightarrow> decimal v = decimal (v div 10) @ [of_nat (48 + v mod 10)]"
  unfolding decimal_def by (subst rev_digits.simps) (simp add: div_eq_0_iff)

lemma decimal_pair:
  "100 \<le> v \<Longrightarrow> decimal v = decimal (v div 100) @ [of_nat (48 + v mod 100 div 10), of_nat (48 + v mod 10)]"
  using decimal_snoc [of v] decimal_snoc [of "v div 10"]
  by (simp add: div_mult2_eq [symmetric] mod_mult2_eq [of v 10 10, simplified])

lemma decimal_two:
  "10 \<le> v \<Longrightarrow> v < 100 \<Longrightarrow> decimal v = [of_nat (48 + v div 10), of_nat (48 + v mod 10)]"
  using decimal_snoc [of v] decimal_small [of "v div 10"] by (simp add: less_mult_imp_div_less)

lemma decimal_val [simp]: "val_digits (decimal v) = v"
  by (simp add: decimal_def rev_digits_val)

lemma length_decimal_less: "v < 10 ^ n \<Longrightarrow> 0 < n \<Longrightarrow> length (decimal v) \<le> n"
  by (simp add: decimal_def rev_digits_length)

lemma ten_le: "10 ^ Suc n \<le> v \<Longrightarrow> 10 \<le> (v :: nat)"
  using one_le_power [of "10 :: nat" n] unfolding power_Suc by linarith

lemma length_decimal_ge: "10 ^ n \<le> v \<Longrightarrow> n < length (decimal v)"
proof (induction n arbitrary: v)
  case (Suc n)
  then have "10 ^ n \<le> v div 10" by (simp add: less_eq_div_iff_mult_less_eq mult.commute)
  from Suc.IH [OF this] have "n < length (decimal (v div 10))" .
  moreover have "10 \<le> v" using Suc.prems by (rule ten_le)
  ultimately show ?case by (simp add: decimal_snoc)
qed simp

lemma length_decimal: "10 ^ n \<le> v \<Longrightarrow> v < 10 ^ Suc n \<Longrightarrow> length (decimal v) = Suc n"
  using length_decimal_less [of v "Suc n"] length_decimal_ge [of n v] by simp

lemma length_decimal_shift:
  "10 ^ k \<le> v \<Longrightarrow> length (decimal v) = k + length (decimal (v div 10 ^ k))"
proof (induction k arbitrary: v)
  case (Suc k)
  have "10 \<le> v" using Suc.prems by (rule ten_le)
  moreover have "10 ^ k \<le> v div 10" using Suc.prems by (simp add: less_eq_div_iff_mult_less_eq mult.commute)
  ultimately show ?case using Suc.IH [of "v div 10"] by (simp add: decimal_snoc div_mult2_eq)
qed simp

lemma digits10_small: "v < 1000000000000 \<Longrightarrow> digits10 v = length (decimal v)"
  using length_decimal [of 1 v] length_decimal [of 2 v] length_decimal [of 3 v] length_decimal [of 4 v]
    length_decimal [of 5 v] length_decimal [of 6 v] length_decimal [of 7 v] length_decimal [of 8 v]
    length_decimal [of 9 v] length_decimal [of 10 v] length_decimal [of 11 v] decimal_small [of v]
  by (subst digits10.simps) simp

lemma digits10_length: "digits10 v = length (decimal v)"
proof (induction v rule: digits10.induct)
  case (1 v)
  show ?case
  proof (cases "v < 1000000000000")
    case True
    then show ?thesis by (rule digits10_small)
  next
    case False
    then show ?thesis using 1 length_decimal_shift [of 12 v] by (subst digits10.simps) simp
  qed
qed


subsection \<open>Printing is right\<close>

lemma nth_concat_pairs:
  "length (concat (map (\<lambda>i. [f i, g i]) [0..<n])) = 2 * n \<and>
     (\<forall>i < n. concat (map (\<lambda>i. [f i, g i]) [0..<n]) ! (i * 2) = f i \<and>
        concat (map (\<lambda>i. [f i, g i]) [0..<n]) ! (i * 2 + 1) = g i)"
proof (induction n)
  case (Suc n)
  then show ?case by (auto simp: nth_append less_Suc_eq)
qed simp

lemma digit_pairs_eq:
  "digit_pairs = concat (map (\<lambda>i. [of_nat (48 + i div 10), of_nat (48 + i mod 10)]) [0..<100])"
  by code_simp

lemma digit_pairs_nth:
  assumes "i < 100"
  shows "get_at digit_pairs (i * 2) = Some (of_nat (48 + i div 10))"
    "get_at digit_pairs (i * 2 + 1) = Some (of_nat (48 + i mod 10))"
proof -
  note p = nth_concat_pairs [of "\<lambda>i. of_nat (48 + i div 10) :: byte" "\<lambda>i. of_nat (48 + i mod 10)" 100, folded digit_pairs_eq]
  then have l: "length digit_pairs = 200" by simp
  have "i * 2 < length digit_pairs" "i * 2 + 1 < length digit_pairs" using l assms by simp_all
  with p assms show "get_at digit_pairs (i * 2) = Some (of_nat (48 + i div 10))"
    "get_at digit_pairs (i * 2 + 1) = Some (of_nat (48 + i mod 10))"
    unfolding get_at_def by presburger+
qed

lemma put_pair_ok:
  assumes "i < 100" "0 < nxt" "nxt < 2 ^ 32" "off + nxt < length mem"
  shows "put_pair mem off nxt (i * 2) =
     Some (take (off + nxt - 1) mem @ [of_nat (48 + i div 10), of_nat (48 + i mod 10)] @ drop (off + nxt + 1) mem)"
proof -
  have s: "sub32 nxt 1 = nxt - 1" using assms(2,3) by (simp add: sub32_def mod_if)
  have u: "mem[k + 1 := y, k := x] = take k mem @ [x, y] @ drop (k + 2) mem" if "k + 1 < length mem" for k x y
    using that by (simp add: list_eq_iff_nth_eq nth_append nth_list_update nth_Cons split: nat.splits) (auto intro!: arg_cong [where f = "nth mem"])
  from u [of "off + nxt - 1"] show ?thesis
    using assms digit_pairs_nth [OF assms(1)] s by (simp add: put_pair_def)
qed

lemma put_digits_ok:
  "off + length (decimal v) \<le> length mem \<Longrightarrow> length (decimal v) < 2 ^ 32 \<Longrightarrow>
     put_digits mem off (length (decimal v) - 1) v =
       Some (take off mem @ decimal v @ drop (off + length (decimal v)) mem)"
proof (induction v arbitrary: mem rule: less_induct)
  case (less v)
  consider "v < 10" | "10 \<le> v" "v < 100" | "100 \<le> v" by linarith
  then show ?case
  proof cases
    case 1
    then show ?thesis using less.prems
      by (subst put_digits.simps) (simp add: decimal_small upd_conv_take_nth_drop Suc_le_eq)
  next
    case 2
    then show ?thesis using less.prems put_pair_ok [of v 1 off mem]
      by (subst put_digits.simps) (simp add: decimal_two numeral_2_eq_2 Suc_le_eq)
  next
    case 3
    let ?q = "v div 100" and ?t = "v mod 100"
    let ?l = "length (decimal ?q)"
    have dec: "decimal v = decimal ?q @ [of_nat (48 + ?t div 10), of_nat (48 + ?t mod 10)]"
      using decimal_pair [OF 3] by (simp add: mod_mod_cancel)
    have pos: "0 < ?l" by simp
    have len: "length (decimal v) = ?l + 2" using dec by simp
    let ?mem = "take (off + ?l) mem @ [of_nat (48 + ?t div 10), of_nat (48 + ?t mod 10)] @ drop (off + ?l + 2) mem"
    have p: "put_pair mem off (?l + 1) (?t * 2) = Some ?mem"
      using put_pair_ok [of ?t "?l + 1" off mem] less.prems len by simp
    have s: "sub32 (?l + 1) 2 = ?l - 1" using less.prems(2) len pos by (simp add: sub32_def mod_if)
    have "put_digits mem off (length (decimal v) - 1) v = put_digits ?mem off (?l - 1) ?q"
      using 3 p s len by (subst put_digits.simps) simp
    also have "\<dots> = Some (take off ?mem @ decimal ?q @ drop (off + ?l) ?mem)"
      using less.prems len 3 by (intro less.IH) auto
    finally show ?thesis using less.prems len dec by simp
  qed
qed

lemma ull2string_ok:
  assumes "length (decimal v) < dstlen" "off + dstlen \<le> length mem" "v < 2 ^ 64"
  shows "ull2string mem off dstlen v =
     Some (take off mem @ decimal v @ 0 # drop (off + length (decimal v) + 1) mem, length (decimal v))"
proof -
  let ?l = "length (decimal v)"
  have "v < 10 ^ 20" using assms(3) by simp
  from length_decimal_less [OF this] have small: "?l < 2 ^ 32" by simp
  have pos: "0 < ?l" by simp
  have s: "sub32 ?l 1 = ?l - 1" using small pos by (simp add: sub32_def mod_if)
  have n: "Suc (off + (?l - Suc 0)) = off + ?l" using pos by linarith
  let ?mem = "mem[off + ?l := 0]"
  have "put_digits ?mem off (?l - 1) v = Some (take off ?mem @ decimal v @ drop (off + ?l) ?mem)"
    using assms(1,2) small by (intro put_digits_ok) simp_all
  moreover have "take off ?mem = take off mem" "drop (off + ?l) ?mem = 0 # drop (off + ?l + 1) mem"
    using assms(1,2) Cons_nth_drop_Suc [of "off + ?l" ?mem] by (simp_all add: drop_update_cancel)
  ultimately show ?thesis
    using assms(1,2) s by (simp add: ull2string_def digits10_length Let_def n)
qed

lemma ull2string_short:
  "dstlen \<le> length (decimal v) \<Longrightarrow> 0 < dstlen \<Longrightarrow> off < length mem \<Longrightarrow>
     ull2string mem off dstlen v = Some (mem[off := 0], 0)"
  by (simp add: ull2string_def digits10_length Let_def)

lemma ll2str_decimal:
  "LLONG_MIN \<le> v \<Longrightarrow> v \<le> LLONG_MAX \<Longrightarrow>
     sdsll2str v = (if v < 0 then 45 # decimal (nat (- v)) else decimal (nat v))"
  by (simp add: sdsll2str_eq decimal_def)

subsection \<open>Parsing is right\<close>

definition digits_from :: "nat \<Rightarrow> byte list \<Rightarrow> nat" where
  "digits_from v p = foldl (\<lambda>v c. v * 10 + (unat c - 48)) v p"

lemma digits_from_simps [simp]:
  "digits_from v [] = v" "digits_from v (c # p) = digits_from (v * 10 + (unat c - 48)) p"
  by (simp_all add: digits_from_def)

lemma digits_from_ge: "v \<le> digits_from v p"
proof (induction p arbitrary: v)
  case (Cons c p)
  have "v \<le> v * 10 + (unat c - 48)" by simp
  with Cons [of "v * 10 + (unat c - 48)"] show ?case by simp
qed simp

lemma digit_nat: "isdigit c \<longleftrightarrow> 48 \<le> unat c \<and> unat c \<le> 57"
  by (simp add: isdigit_def byte_le)

lemma ll_digits_ok:
  "\<forall>c \<in> set p. isdigit c \<Longrightarrow> v < 2 ^ 64 \<Longrightarrow>
     ll_digits p v = (if digits_from v p < 2 ^ 64 then Some (digits_from v p, []) else None)"
proof (induction p arbitrary: v)
  case (Cons c p)
  define d where "d = unat c - 48"
  have c: "isdigit c" "d < 10" using Cons.prems(1) by (auto simp: digit_nat d_def)
  have eq: "ll_digits (c # p) v = (if ULLONG_MAX div 10 < v then None
      else if ULLONG_MAX - d < (v * 10) mod 2 ^ 64 then None
      else ll_digits p (((v * 10) mod 2 ^ 64 + d) mod 2 ^ 64))"
    using c(1) by (simp only: ll_digits.simps Let_def d_def if_True)
  have big: "\<not> digits_from (v * 10 + d) p < 2 ^ 64" if "2 ^ 64 \<le> v * 10 + d"
    using digits_from_ge [of "v * 10 + d" p] that by linarith
  consider "ULLONG_MAX div 10 < v" | "v \<le> ULLONG_MAX div 10" "ULLONG_MAX - d < v * 10"
    | "v \<le> ULLONG_MAX div 10" "v * 10 \<le> ULLONG_MAX - d" by linarith
  then show ?case
  proof cases
    case 1
    then have "2 ^ 64 \<le> v * 10 + d" by (simp add: ULLONG_MAX_def)
    from big [OF this] show ?thesis using 1 c(1) by (simp add: eq d_def [symmetric])
  next
    case 2
    then have "2 ^ 64 \<le> v * 10 + d" "v * 10 < 2 ^ 64" using c(2) by (auto simp: ULLONG_MAX_def)
    from big [OF this(1)] this(2) show ?thesis using 2 c(1) by (simp add: eq mod_less d_def [symmetric])
  next
    case 3
    then have "v * 10 + d < 2 ^ 64" "v * 10 < 2 ^ 64" using c(2) by (auto simp: ULLONG_MAX_def)
    with 3 Cons.IH [of "v * 10 + d"] Cons.prems(1) show ?thesis by (simp add: eq mod_less d_def [symmetric])
  qed
qed simp

lemma ll_digits_rest: "ll_digits p v = Some (w, []) \<Longrightarrow> \<forall>c \<in> set p. isdigit c"
  by (induction p arbitrary: v) (auto simp: Let_def split: if_splits)

text \<open>A digit string that does not start with a zero is the decimal form of its value.\<close>

definition plain_number :: "byte list \<Rightarrow> bool" where
  "plain_number p \<longleftrightarrow> p \<noteq> [] \<and> hd p \<noteq> 48 \<and> (\<forall>c \<in> set p. isdigit c)"

lemma byte_of_digit: "isdigit c \<Longrightarrow> of_nat (48 + (unat c - 48)) = c"
  by (simp add: digit_nat)

lemma plain_number_decimal: "plain_number p \<Longrightarrow> decimal (val_digits p) = p \<and> 0 < val_digits p"
proof (induction p rule: rev_induct)
  case (snoc c p)
  let ?d = "unat c - 48"
  have c: "isdigit c" "?d < 10" using snoc.prems by (auto simp: plain_number_def digit_nat)
  have v: "val_digits (p @ [c]) = val_digits p * 10 + ?d" by (simp add: val_digits_def)
  show ?case
  proof (cases "p = []")
    case True
    have "unat c \<noteq> 48" using snoc.prems True by (auto simp: plain_number_def word_unat_eq_iff)
    then have "0 < ?d" using c(1) by (simp add: digit_nat)
    then show ?thesis using True v c byte_of_digit [OF c(1)] by (simp add: val_digits_def decimal_small)
  next
    case False
    then have "plain_number p" using snoc.prems by (simp add: plain_number_def)
    then have ih: "decimal (val_digits p) = p" "0 < val_digits p" using snoc.IH by auto
    have "decimal (val_digits (p @ [c])) = decimal (val_digits p) @ [of_nat (48 + ?d)]"
      using decimal_snoc [of "val_digits (p @ [c])"] v ih(2) c(2) by simp
    then show ?thesis using ih v byte_of_digit [OF c(1)] by simp
  qed
qed (simp add: plain_number_def)

lemma decimal_digits: "c \<in> set (decimal v) \<Longrightarrow> isdigit c"
  using rev_digits_digit [of c v] by (simp add: decimal_def digit_nat)

lemma decimal_hd: "0 < v \<Longrightarrow> hd (decimal v) \<noteq> 48"
proof (induction v rule: less_induct)
  case (less v)
  show ?case
  proof (cases "v < 10")
    case True
    then have "unat (of_nat (48 + v) :: byte) = 48 + v" by (rule digit_unat)
    then show ?thesis using less.prems True by (auto simp: decimal_small word_unat_eq_iff)
  next
    case False
    then show ?thesis using less.IH [of "v div 10"] by (simp add: decimal_snoc)
  qed
qed

lemma plain_decimal: "0 < v \<Longrightarrow> plain_number (decimal v)"
  using decimal_digits decimal_hd by (auto simp: plain_number_def)


lemma val_digits_from: "val_digits (c # p) = digits_from (unat c - 48) p"
  by (simp add: val_digits_def digits_from_def)

definition number_at :: "byte list \<Rightarrow> nat \<Rightarrow> bool" where
  "number_at p w \<longleftrightarrow> p \<noteq> [] \<and> 49 \<le> p ! 0 \<and> p ! 0 \<le> 57 \<and>
     ll_digits (drop 1 p) (unat (p ! 0) - 48) = Some (w, [])"

lemma number_at_iff: "number_at p w \<longleftrightarrow> plain_number p \<and> val_digits p = w \<and> w < 2 ^ 64"
proof (cases p)
  case (Cons c q)
  have c: "49 \<le> c \<and> c \<le> 57 \<longleftrightarrow> isdigit c \<and> c \<noteq> 48"
    by (auto simp: digit_nat byte_le word_unat_eq_iff)
  have "unat c - 48 < 2 ^ 64" using byte_bound [of c] by simp
  then show ?thesis
    using ll_digits_ok [of q "unat c - 48"] ll_digits_rest [of q "unat c - 48" w] c
    unfolding Cons by (auto simp: number_at_def plain_number_def val_digits_from split: if_splits)
qed (simp add: number_at_def plain_number_def)

lemma string2ll_iff:
  assumes "s \<noteq> [48]"
  shows "string2ll s = Some v \<longleftrightarrow> s \<noteq> [] \<and> length s < LONG_STR_SIZE \<and>
     (\<exists>w. if s ! 0 = 45 then number_at (drop 1 s) w \<and> int w \<le> 2 ^ 63 \<and> v = to_ll ((- int w) mod 2 ^ 64)
          else number_at s w \<and> int w \<le> LLONG_MAX \<and> v = to_ll (int w))"
proof -
  have "\<not> (length s = 1 \<and> s ! 0 = 48)" using assms by (cases s) auto
  then show ?thesis
    unfolding string2ll_def Let_def number_at_def LLONG_MIN_def
    by (auto split: option.splits simp del: drop_drop One_nat_def)
qed

lemma to_ll_neg: "v \<le> 2 ^ 63 \<Longrightarrow> to_ll ((- int v) mod 2 ^ 64) = - int v"
proof -
  assume "v \<le> 2 ^ 63"
  then have "int v \<le> 2 ^ 63" by (metis of_nat_le_iff of_nat_numeral of_nat_power)
  then have "(- int v + 2 ^ 63) mod 2 ^ 64 = - int v + 2 ^ 63" by (intro mod_pos_pos_trivial) auto
  then show ?thesis by (simp add: to_ll_def mod_add_left_eq)
qed

lemma to_ll_pos: "int v \<le> LLONG_MAX \<Longrightarrow> to_ll (int v) = int v"
  unfolding to_ll_def LLONG_MAX_def by (subst mod_pos_pos_trivial) auto

text \<open>The accepted strings and their values.\<close>

definition signed_number :: "byte list \<Rightarrow> int \<Rightarrow> bool" where
  "signed_number s v \<longleftrightarrow> s = [48] \<and> v = 0 \<or>
     plain_number s \<and> v = int (val_digits s) \<and> v \<le> LLONG_MAX \<or>
     s \<noteq> [] \<and> s ! 0 = 45 \<and> plain_number (drop 1 s) \<and> v = - int (val_digits (drop 1 s)) \<and> LLONG_MIN \<le> v"

lemma string2ll_signed: "string2ll s = Some v \<longleftrightarrow> length s < LONG_STR_SIZE \<and> signed_number s v"
proof (cases "s = [48]")
  case True
  then show ?thesis
    by (auto simp: string2ll_def signed_number_def plain_number_def LONG_STR_SIZE_def)
next
  case False
  have np: "s \<noteq> [] \<Longrightarrow> s ! 0 = 45 \<Longrightarrow> \<not> plain_number s"
    using hd_in_set [of s] by (auto simp: plain_number_def hd_conv_nth isdigit_def intro!: bexI [of _ 45])
  have neg: "number_at p w \<and> int w \<le> 2 ^ 63 \<and> v = to_ll ((- int w) mod 2 ^ 64) \<longleftrightarrow>
      plain_number p \<and> val_digits p = w \<and> LLONG_MIN \<le> v \<and> v = - int w" for p w
    using to_ll_neg [of w] by (auto simp: number_at_iff LLONG_MIN_def)
  have pos: "number_at p w \<and> int w \<le> LLONG_MAX \<and> v = to_ll (int w) \<longleftrightarrow>
      plain_number p \<and> val_digits p = w \<and> v \<le> LLONG_MAX \<and> v = int w" for p w
    using to_ll_pos [of w] by (auto simp: number_at_iff LLONG_MAX_def)
  show ?thesis
    unfolding string2ll_iff [OF False] neg pos signed_number_def
    using np False by (auto simp: plain_number_def)
qed

lemma signed_number_decimal:
  "signed_number s v \<longleftrightarrow> LLONG_MIN \<le> v \<and> v \<le> LLONG_MAX \<and> s = sdsll2str v"
proof -
  consider "v = 0" | "0 < v" | "v < 0" by linarith
  then show ?thesis
  proof cases
    case 1
    have "sdsll2str 0 = [48]" by (simp add: ll2str_decimal decimal_small LLONG_MIN_def LLONG_MAX_def)
    then show ?thesis using 1 plain_number_decimal [of s] plain_number_decimal [of "drop 1 s"]
      by (auto simp: signed_number_def LLONG_MIN_def LLONG_MAX_def)
  next
    case 2
    then have "plain_number (decimal (nat v))" by (intro plain_decimal) simp
    then show ?thesis using 2 plain_number_decimal [of s] ll2str_decimal [of v]
      by (auto simp: signed_number_def LLONG_MIN_def)
  next
    case 3
    then have "plain_number (decimal (nat (- v)))" by (intro plain_decimal) simp
    then show ?thesis using 3 plain_number_decimal [of "drop 1 s"] ll2str_decimal [of v]
      by (cases s) (auto simp: signed_number_def LLONG_MAX_def)
  qed
qed

lemma store_prefix:
  "length xs < n \<Longrightarrow> n \<le> length mem \<Longrightarrow>
     drop n (xs @ 0 # drop (Suc (length xs)) mem) = drop n mem \<and> length (xs @ 0 # drop (Suc (length xs)) mem) = length mem"
  by (auto simp: drop_Cons')

subsection \<open>Correctness of the conversions\<close>

text \<open>C34. \<open>ll2string\<close> agrees with \<open>sdsll2str\<close>: in a buffer with room for the decimal form and its
  terminator it stores exactly these and returns the length; in a shorter buffer it returns 0 and
  the bytes it wrote stay inside \<open>dstlen\<close>. No store leaves the buffer.\<close>

theorem ll2string_prints:
  assumes "LLONG_MIN \<le> v" "v \<le> LLONG_MAX" "dstlen \<le> length mem"
  shows "\<exists>mem' n. ll2string mem dstlen v = Some (mem', n) \<and> drop dstlen mem' = drop dstlen mem \<and>
     length mem' = length mem \<and>
     (if length (sdsll2str v) < dstlen
      then n = length (sdsll2str v) \<and> take (n + 1) mem' = sdsll2str v @ [0]
      else n = 0)"
proof (cases "v < 0")
  case False
  let ?d = "decimal (nat v)"
  have eq: "sdsll2str v = ?d" "nat v < 2 ^ 64"
    using False ll2str_decimal [OF assms(1,2)] assms(2) by (simp_all add: LLONG_MAX_def)
  show ?thesis
  proof (cases "length ?d < dstlen")
    case True
    with ull2string_ok [of "nat v" dstlen 0 mem] show ?thesis
      using False assms(3) eq store_prefix [of ?d dstlen mem] by (simp add: ll2string_def)
  next
    case no: False
    then show ?thesis using False assms(3) eq ull2string_short [of dstlen "nat v" 0 mem]
      by (cases "dstlen = 0"; cases "mem = []") (simp_all add: ll2string_def ull2string_def digits10_length Let_def drop_update_cancel)
  qed
next
  case True
  let ?d = "decimal (nat (- v))"
  have eq: "sdsll2str v = 45 # ?d" "nat (- v) < 2 ^ 64"
    "(if v \<noteq> LLONG_MIN then nat (- v) else nat (LLONG_MAX + 1)) = nat (- v)"
    using True ll2str_decimal [OF assms(1,2)] assms(1) by (simp_all add: LLONG_MIN_def LLONG_MAX_def)
  show ?thesis
  proof (cases "dstlen < 2")
    case no: True
    then show ?thesis using True assms(3) eq
      by (cases "dstlen = 0"; cases "mem = []") (simp_all add: ll2string_def drop_update_cancel)
  next
    case two: False
    let ?mem = "mem[0 := 45]"
    have "2 \<le> length mem" using two assms(3) by linarith
    then have l: "dstlen - 1 + 1 \<le> length ?mem" "0 < length mem" using two assms(3) by auto
    show ?thesis
    proof (cases "length ?d < dstlen - 1")
      case room: True
      from ull2string_ok [of "nat (- v)" "dstlen - 1" 1 ?mem] room l eq(2) have
        "ll2string mem dstlen v = Some (take 1 ?mem @ ?d @ 0 # drop (1 + length ?d + 1) ?mem, length ?d + 1)"
        using True two eq(3) l(2) by (simp add: ll2string_def Let_def)
      moreover have "take 1 ?mem = [45]" using l(2) by (cases mem) simp_all
      moreover have "drop (1 + length ?d + 1) ?mem = drop (1 + length ?d + 1) mem"
        by (simp add: drop_update_cancel)
      ultimately show ?thesis using room eq(1) assms(3) store_prefix [of "45 # ?d" dstlen mem] by simp
    next
      case short: False
      from ull2string_short [of "dstlen - 1" "nat (- v)" 1 ?mem] short two l have
        "ll2string mem dstlen v = Some (?mem[1 := 0], 0)"
        using True eq(3) by (simp add: ll2string_def Let_def)
      then show ?thesis using short eq(1) two by (simp add: drop_update_cancel)
    qed
  qed
qed

theorem ll2string_prints_witness:
  "\<exists>mem' n. ll2string (replicate 4 7) 4 (- 12) = Some (mem', n) \<and> n = 3 \<and> take 4 mem' = [45, 49, 50, 0]"
proof -
  have s: "sdsll2str (- 12) = [45, 49, 50]"
    by (simp add: sdsll2str_eq rev_digits.simps LLONG_MIN_def LLONG_MAX_def)
  show ?thesis
    using ll2string_prints [of "- 12" 4 "replicate 4 7"] by (auto simp: s LLONG_MIN_def LLONG_MAX_def)
qed

text \<open>C33. \<open>string2ll\<close> is strict: it accepts a string with value \<open>v\<close> exactly when \<open>v\<close> is a \<open>long long\<close> and
  the string is the decimal form \<open>sdsll2str\<close> prints for it, so printing the parsed number gives the
  string back without any loss; \<open>string2l\<close> is the same function where \<open>long\<close> has 64 bits.\<close>

theorem string2ll_exact:
  "(string2ll s = Some v \<longleftrightarrow> LLONG_MIN \<le> v \<and> v \<le> LLONG_MAX \<and> s = sdsll2str v) \<and> string2l s = string2ll s"
proof -
  have ok: "string2ll s = Some v \<longleftrightarrow> LLONG_MIN \<le> v \<and> v \<le> LLONG_MAX \<and> s = sdsll2str v" for v
    using sdsll2str_length [of v] unfolding string2ll_signed signed_number_decimal
    by (auto simp: SDS_LLSTR_SIZE_def LONG_STR_SIZE_def)
  moreover have "string2l s = string2ll s"
    using ok [of "the (string2ll s)"] by (cases "string2ll s") (auto simp: string2l_def)
  ultimately show ?thesis by blast
qed


text \<open>C35. \<open>string2ull\<close> parses what \<open>sdsull2str\<close> prints, over the whole range of \<open>unsigned long long\<close>. Negative
  numbers, which it means to reject as out of range, get through \<open>strtoull\<close> when they do not fit a
  \<open>long long\<close> or are written with a leading blank: they are accepted and wrap around.\<close>

theorem string2ull_wraps:
  "(v < 2 ^ 64 \<longrightarrow> string2ull (sdsull2str v) = Some v) \<and>
   string2ull [45, 49] = None \<and> string2ull [32, 45, 49] = Some (2 ^ 64 - 1)"
proof (intro conjI impI)
  assume v: "v < 2 ^ 64"
  have d: "sdsull2str v = decimal v" by (simp add: sdsull2str_eq decimal_def)
  show "string2ull (sdsull2str v) = Some v"
  proof (cases "string2ll (decimal v)")
    case (Some w)
    then have w: "signed_number (decimal v) w" by (simp add: string2ll_signed)
    have "decimal v ! 0 \<noteq> 45" using decimal_digits [of "decimal v ! 0" v] by (auto simp: isdigit_def)
    moreover have "decimal v = [48] \<Longrightarrow> v = 0" using decimal_val [of v] by (simp add: val_digits_def)
    ultimately have "w = int v" using w by (auto simp: signed_number_def)
    then show ?thesis using Some by (simp add: d string2ull_def)
  next
    case None
    obtain c p where c: "decimal v = c # p" by (cases "decimal v") auto
    have dig: "\<forall>x \<in> set (decimal v). isdigit x" using decimal_digits by blast
    then have "isdigit c" by (simp add: c)
    then have "\<not> isspace c" "c \<noteq> 45" "c \<noteq> 43"
      by (auto simp: digit_nat isspace_def byte_le word_unat_eq_iff)
    then have "dropWhile isspace (decimal v) = decimal v" "hd (decimal v) \<noteq> 45" "hd (decimal v) \<noteq> 43"
      by (simp_all add: c)
    moreover have tw: "takeWhile isdigit (decimal v) = decimal v" "dropWhile isdigit (decimal v) = []"
      using dig by (simp_all add: takeWhile_eq_all_conv)
    ultimately have "strtoull (decimal v) = (v, [], False)"
      using v by (simp add: strtoull_def ULLONG_MAX_def Let_def tw)
    then show ?thesis using None by (simp add: d string2ull_def)
  qed
next
  show "string2ull [45, 49] = None" "string2ull [32, 45, 49] = Some (2 ^ 64 - 1)"
    by (simp_all add: string2ull_def string2ll_def strtoull_def isdigit_def isspace_def val_digits_def
        ULLONG_MAX_def LONG_STR_SIZE_def LLONG_MIN_def to_ll_def)
qed

theorem string2ull_wraps_witness: "string2ull (sdsull2str 7) = Some 7"
  using string2ull_wraps [of 7] by simp

end
