(* ===== verification/Glob.thy ===== *)
theory Glob
  imports Util
begin

text \<open>
  Glob patterns: \<open>stringmatchlen\<close> of \<open>myRedis/src/util.c\<close>.

  The pattern is a block of memory \<open>mem\<close> with the position \<open>i\<close> of the pointer and the \<open>int\<close> counter
  \<open>patternLen\<close>, because the code reads one character ahead of the counter: a read outside of the block
  is a fault. The string is only read where \<open>stringLen\<close> is positive, so it is given by its bytes.
  The reference is a parser of patterns into tokens and the usual meaning of the tokens.
\<close>

subsection \<open>The matcher\<close>

text \<open>\<open>char\<close> is signed; \<open>tolower\<close> changes the 26 capital letters only.\<close>

definition lower_int :: "int \<Rightarrow> int" where
  "lower_int c = (if 65 \<le> c \<and> c \<le> 90 then c + 32 else c)"

definition same_char :: "bool \<Rightarrow> byte \<Rightarrow> byte \<Rightarrow> bool" where
  "same_char nocase p c = (if \<not> nocase then p = c else lower_int (sint p) = lower_int (sint c))"

definition in_range :: "bool \<Rightarrow> byte \<Rightarrow> byte \<Rightarrow> byte \<Rightarrow> bool" where
  "in_range nocase a b c =
     (let start = sint a; stop = sint b; c = sint c;
          (start, stop) = (if stop < start then (stop, start) else (start, stop));
          (start, stop, c) = (if nocase then (lower_int start, lower_int stop, lower_int c) else (start, stop, c))
      in start \<le> c \<and> c \<le> stop)"

text \<open>The loop over a bracket class: the position, the counter and the flag \<open>match\<close> where it breaks.\<close>

function class_loop :: "byte list \<Rightarrow> nat \<Rightarrow> int \<Rightarrow> byte \<Rightarrow> bool \<Rightarrow> bool \<Rightarrow> (nat \<times> int \<times> bool) option" where
  "class_loop mem i n c nocase match =
     (case get_at mem i of None \<Rightarrow> None | Some p0 \<Rightarrow>
        if p0 = 92 \<and> 2 \<le> n then
          (case get_at mem (i + 1) of None \<Rightarrow> None
           | Some p1 \<Rightarrow> class_loop mem (i + 2) (n - 2) c nocase (match \<or> p1 = c))
        else if p0 = 93 then Some (i, n, match)
        else if n = 0 then Some (i - 1, n + 1, match)
        else (case (if 3 \<le> n then get_at mem (i + 1) else Some 0) of None \<Rightarrow> None
           | Some p1 \<Rightarrow>
               if 3 \<le> n \<and> p1 = 45 then
                 (case get_at mem (i + 2) of None \<Rightarrow> None
                  | Some p2 \<Rightarrow> class_loop mem (i + 3) (n - 3) c nocase (match \<or> in_range nocase p0 p2 c))
               else class_loop mem (i + 1) (n - 1) c nocase (match \<or> same_char nocase p0 c)))"
  by pat_completeness auto
termination
  by (relation "measure (\<lambda>(mem, i, _). length mem - i)") (auto simp: get_at_def split: if_splits)

declare class_loop.simps [simp del]

text \<open>The cases of the switch but the star: \<open>None\<close> inside is \<open>return 0\<close>; otherwise the position of the
  last character of the matched token.\<close>

definition match_one :: "byte list \<Rightarrow> nat \<Rightarrow> int \<Rightarrow> byte \<Rightarrow> bool \<Rightarrow> (nat \<times> int) option option" where
  "match_one mem i n c nocase = do {
     p0 \<leftarrow> get_at mem i;
     (if p0 = 63 then Some (Some (i, n))
      else if p0 = 91 then do {
        p1 \<leftarrow> get_at mem (i + 1);
        let neg = (p1 = 94);
        (j, m, match) \<leftarrow> (if neg then class_loop mem (i + 2) (n - 2) c nocase False
                            else class_loop mem (i + 1) (n - 1) c nocase False);
        Some (if match \<noteq> neg then Some (j, m) else None) }
      else do {
        let (j, m) = (if p0 = 92 \<and> 2 \<le> n then (i + 1, n - 1) else (i, n));
        p \<leftarrow> get_at mem j;
        Some (if same_char nocase p c then Some (j, m) else None) }) }"

function skip_stars :: "byte list \<Rightarrow> nat \<Rightarrow> int \<Rightarrow> (nat \<times> int) option" where
  "skip_stars mem i n =
     (if n \<noteq> 0 then
        (case get_at mem (i + 1) of None \<Rightarrow> None
         | Some p \<Rightarrow> if p = 42 then skip_stars mem (i + 1) (n - 1) else Some (i, n))
      else Some (i, n))"
  by pat_completeness auto
termination
  by (relation "measure (\<lambda>(mem, i, _). length mem - i)") (auto simp: get_at_def split: if_splits)

text \<open>\<open>while(*pattern == '*')\<close> once the string is used up; the result is the counter.\<close>

function trailing_stars :: "byte list \<Rightarrow> nat \<Rightarrow> int \<Rightarrow> int option" where
  "trailing_stars mem i n =
     (case get_at mem i of None \<Rightarrow> None
      | Some p \<Rightarrow> if p = 42 then trailing_stars mem (i + 1) (n - 1) else Some n)"
  by pat_completeness auto
termination
  by (relation "measure (\<lambda>(mem, i, _). length mem - i)") (auto simp: get_at_def split: if_splits)

declare skip_stars.simps [simp del] trailing_stars.simps [simp del]

lemma skip_stars_ge: "skip_stars mem i n = Some (j, m) \<Longrightarrow> i \<le> j"
  by (induction mem i n rule: skip_stars.induct)
    (subst (asm) (2) skip_stars.simps, auto split: if_splits option.splits)

text \<open>\<open>star_loop\<close> is the loop that tries the rest of the pattern at every position of the string.\<close>

function matchlen_at :: "byte list \<Rightarrow> nat \<Rightarrow> int \<Rightarrow> byte list \<Rightarrow> bool \<Rightarrow> bool option"
  and star_loop :: "byte list \<Rightarrow> nat \<Rightarrow> int \<Rightarrow> byte list \<Rightarrow> bool \<Rightarrow> bool option" where
  "matchlen_at mem i n s nocase =
     (if n \<noteq> 0 \<and> s \<noteq> [] then
        (case get_at mem i of None \<Rightarrow> None | Some p0 \<Rightarrow>
           if p0 = 42 then
             (case skip_stars mem i n of None \<Rightarrow> None
              | Some (j, m) \<Rightarrow> if m = 1 then Some True else star_loop mem j m s nocase)
           else
             (case match_one mem i n (hd s) nocase of
                None \<Rightarrow> None
              | Some None \<Rightarrow> Some False
              | Some (Some (j, m)) \<Rightarrow>
                  if tl s = [] then
                    (case trailing_stars mem (j + 1) (m - 1) of None \<Rightarrow> None | Some k \<Rightarrow> Some (k = 0))
                  else matchlen_at mem (j + 1) (m - 1) (tl s) nocase))
      else Some (n = 0 \<and> s = []))"
| "star_loop mem i n s nocase =
     (if length mem \<le> i then None
      else if s = [] then Some False
      else (case matchlen_at mem (i + 1) (n - 1) s nocase of
              None \<Rightarrow> None
            | Some True \<Rightarrow> Some True
            | Some False \<Rightarrow> star_loop mem i n (tl s) nocase))"
  by pat_completeness auto
termination
  by (relation "inv_image (less_than <*lex*> less_than <*lex*> less_than)
       (\<lambda>x. case x of Inl (mem, i, _, s, _) \<Rightarrow> (length s, length mem - i, 1 :: nat)
                    | Inr (mem, i, _, s, _) \<Rightarrow> (length s, length mem - i, 0))")
     (auto dest!: skip_stars_ge)

declare matchlen_at.simps [simp del] star_loop.simps [simp del]

definition stringmatchlen :: "byte list \<Rightarrow> int \<Rightarrow> byte list \<Rightarrow> bool \<Rightarrow> bool option" where
  "stringmatchlen pattern patternLen string nocase = matchlen_at pattern 0 patternLen string nocase"

text \<open>Both arguments of \<open>stringmatch\<close> are C strings in memory.\<close>

definition stringmatch :: "byte list \<Rightarrow> byte list \<Rightarrow> bool \<Rightarrow> bool option" where
  "stringmatch pattern string nocase = do {
     n \<leftarrow> strlen pattern;
     m \<leftarrow> strlen string;
     stringmatchlen pattern (int n) (take m string) nocase }"

subsection \<open>The meaning of a pattern\<close>

datatype citem = One byte | Escaped byte | Between byte byte
datatype glob = Star | Any | Class bool "citem list" | Lit byte

function parse_class :: "byte list \<Rightarrow> citem list \<times> byte list" where
  "parse_class [] = ([], [])"
| "parse_class (a # p) =
     (if a = 92 \<and> p \<noteq> [] then (let (items, r) = parse_class (tl p) in (Escaped (hd p) # items, r))
      else if a = 93 then ([], p)
      else if 2 \<le> length p \<and> hd p = 45 then
        (let (items, r) = parse_class (drop 2 p) in (Between a (p ! 1) # items, r))
      else (let (items, r) = parse_class p in (One a # items, r)))"
  by pat_completeness auto
termination by (relation "measure length") auto

lemma parse_class_shorter: "length (snd (parse_class p)) \<le> length p"
  by (induction p rule: parse_class.induct) (auto split: prod.splits)

definition parse_token :: "byte \<Rightarrow> byte list \<Rightarrow> glob \<times> byte list" where
  "parse_token a p =
     (if a = 42 then (Star, p) else if a = 63 then (Any, p)
      else if a = 91 then
        (let neg = (p \<noteq> [] \<and> hd p = 94); (items, r) = parse_class (if neg then tl p else p)
         in (Class neg items, r))
      else if a = 92 \<and> p \<noteq> [] then (Lit (hd p), tl p)
      else (Lit a, p))"

lemma parse_token_shorter: "parse_token a p = (t, r) \<Longrightarrow> length r \<le> length p"
  using parse_class_shorter [of p] parse_class_shorter [of "tl p"]
  by (auto simp: parse_token_def Let_def split: if_splits prod.splits)

function tokens :: "byte list \<Rightarrow> glob list" where
  "tokens [] = []"
| "tokens (a # p) = (case parse_token a p of (t, r) \<Rightarrow> t # tokens r)"
  by pat_completeness auto
termination
  by (relation "measure length") (auto dest: sym [THEN parse_token_shorter] simp: le_imp_less_Suc)

fun accepts_item :: "bool \<Rightarrow> citem \<Rightarrow> byte \<Rightarrow> bool" where
  "accepts_item nocase (One a) c = same_char nocase a c"
| "accepts_item nocase (Escaped a) c = (a = c)"
| "accepts_item nocase (Between a b) c = in_range nocase a b c"

fun accepts :: "bool \<Rightarrow> glob \<Rightarrow> byte \<Rightarrow> bool" where
  "accepts nocase (Lit a) c = same_char nocase a c"
| "accepts nocase Any c = True"
| "accepts nocase Star c = True"
| "accepts nocase (Class neg items) c = (list_ex (\<lambda>x. accepts_item nocase x c) items \<noteq> neg)"

fun glob_match :: "bool \<Rightarrow> glob list \<Rightarrow> byte list \<Rightarrow> bool" where
  "glob_match nocase [] s = (s = [])"
| "glob_match nocase (Star # ts) [] = glob_match nocase ts []"
| "glob_match nocase (Star # ts) (c # s) = (glob_match nocase ts (c # s) \<or> glob_match nocase (Star # ts) s)"
| "glob_match nocase (t # ts) [] = False"
| "glob_match nocase (t # ts) (c # s) = (accepts nocase t c \<and> glob_match nocase ts s)"

subsection \<open>The matcher implements the meaning\<close>

text \<open>Reads of a pattern that is followed by a zero byte.\<close>

lemma pat_get: "i < length p \<Longrightarrow> get_at (p @ 0 # rest) i = Some (p ! i)"
  by (simp add: get_at_def nth_append)

lemma pat_end: "get_at (p @ 0 # rest) (length p) = Some 0"
  by (simp add: get_at_def)

lemma class_loop_ok:
  assumes "parse_class (drop i p) = (items, r)" "i \<le> length p" "0 < i"
  shows "\<exists>j. class_loop (p @ 0 # rest) i (int (length p) - int i) c nocase match =
       Some (j, int (length p) - int j, match \<or> list_ex (\<lambda>x. accepts_item nocase x c) items) \<and>
     j < length p \<and> drop (j + 1) p = r"
  using assms
proof (induction "length p - i" arbitrary: i items match rule: less_induct)
  case less
  let ?mem = "p @ 0 # rest" and ?n = "int (length p) - int i"
  show ?case
  proof (cases "i = length p")
    case True
    then have "class_loop ?mem i ?n c nocase match = Some (i - 1, 1, match)"
      by (subst class_loop.simps) simp
    moreover have e: "1 = int (length p) - int (i - 1)" "i - 1 < length p" using True less.prems(3) by linarith+
    ultimately show ?thesis using True less.prems(1) by (intro exI [of _ "i - 1"]) auto
  next
    case False
    then have i: "i < length p" using less.prems by simp
    then have d: "drop i p = p ! i # drop (i + 1) p" by (simp add: Cons_nth_drop_Suc)
    have ne: "drop (i + 1) p \<noteq> [] \<longleftrightarrow> 2 \<le> ?n" "2 \<le> length (drop (i + 1) p) \<longleftrightarrow> 3 \<le> ?n" by auto
    have h: "2 \<le> ?n \<Longrightarrow> hd (drop (i + 1) p) = p ! (i + 1)" by (simp add: hd_drop_conv_nth)
    have h2: "3 \<le> ?n \<Longrightarrow> drop (i + 1) p ! 1 = p ! (i + 2)" by simp
    have t: "tl (drop (i + 1) p) = drop (i + 2) p" "drop 2 (drop (i + 1) p) = drop (i + 3) p"
      by (simp_all add: drop_Suc [symmetric] tl_drop numeral_eq_Suc)
    have e: "int (length p) - int (i + 1) = ?n - 1" "int (length p) - int (i + 2) = ?n - 2"
      "int (length p) - int (i + 3) = ?n - 3" by simp_all
    note parse = less.prems(1) [unfolded d parse_class.simps]
    consider "p ! i = 92" "2 \<le> ?n" | "p ! i = 93" | "p ! i \<noteq> 93" "\<not> (p ! i = 92 \<and> 2 \<le> ?n)" "3 \<le> ?n" "p ! (i + 1) = 45"
      | "p ! i \<noteq> 93" "\<not> (p ! i = 92 \<and> 2 \<le> ?n)" "\<not> (3 \<le> ?n \<and> p ! (i + 1) = 45)" by blast
    then show ?thesis
    proof cases
      case 1
      then obtain items' where it: "parse_class (drop (i + 2) p) = (items', r)" "items = Escaped (p ! (i + 1)) # items'"
        using parse ne(1) h t(1) by (auto split: prod.splits)
      have "class_loop ?mem i ?n c nocase match =
          class_loop ?mem (i + 2) (int (length p) - int (i + 2)) c nocase (match \<or> p ! (i + 1) = c)"
        unfolding e using 1 i by (subst class_loop.simps) (simp add: nth_append)
      then show ?thesis using less.hyps [OF _ it(1), of "match \<or> p ! (i + 1) = c"] 1(2) i it(2) by simp
    next
      case 2
      then show ?thesis using parse i by (subst class_loop.simps) (auto simp: nth_append intro!: exI [of _ i])
    next
      case 3
      then obtain items' where it: "parse_class (drop (i + 3) p) = (items', r)"
          "items = Between (p ! i) (p ! (i + 2)) # items'"
        using parse ne h h2 t(2) by (auto split: prod.splits)
      have "class_loop ?mem i ?n c nocase match =
          class_loop ?mem (i + 3) (int (length p) - int (i + 3)) c nocase (match \<or> in_range nocase (p ! i) (p ! (i + 2)) c)"
        unfolding e using 3 i by (subst class_loop.simps) (simp add: nth_append)
      then show ?thesis using less.hyps [OF _ it(1), of "match \<or> in_range nocase (p ! i) (p ! (i + 2)) c"] 3(3) i it(2) by simp
    next
      case 4
      then obtain items' where it: "parse_class (drop (i + 1) p) = (items', r)" "items = One (p ! i) # items'"
        using parse ne h by (auto split: prod.splits)
      have "class_loop ?mem i ?n c nocase match =
          class_loop ?mem (i + 1) (int (length p) - int (i + 1)) c nocase (match \<or> same_char nocase (p ! i) c)"
        unfolding e using 4 i by (subst class_loop.simps) (auto simp: nth_append)
      then show ?thesis using less.hyps [OF _ it(1), of "match \<or> same_char nocase (p ! i) c"] i it(2) by simp
    qed
  qed
qed


lemma match_one_ok:
  assumes "i < length p" "p ! i \<noteq> 42" "parse_token (p ! i) (drop (i + 1) p) = (t, r)"
  shows "if accepts nocase t c
     then \<exists>j. match_one (p @ 0 # rest) i (int (length p) - int i) c nocase = Some (Some (j, int (length p) - int j)) \<and>
            j < length p \<and> drop (j + 1) p = r
     else match_one (p @ 0 # rest) i (int (length p) - int i) c nocase = Some None"
proof -
  let ?mem = "p @ 0 # rest" and ?n = "int (length p) - int i"
  have ne: "drop (i + 1) p \<noteq> [] \<longleftrightarrow> 2 \<le> ?n" by auto
  have h: "drop (i + 1) p \<noteq> [] \<Longrightarrow> hd (drop (i + 1) p) = p ! (i + 1)" by (simp add: hd_drop_conv_nth)
  have tl: "tl (drop (i + 1) p) = drop (i + 2) p" by (simp add: drop_Suc [symmetric] tl_drop)
  have nx: "get_at ?mem (i + 1) = Some (if drop (i + 1) p = [] then 0 else p ! (i + 1))"
    using assms(1) pat_get [of "i + 1" p rest] pat_end [of p rest] by (cases "i + 1 = length p") auto
  consider "p ! i = 63" | "p ! i = 91" | "p ! i = 92" "2 \<le> ?n" | "p ! i \<notin> {63, 91}" "\<not> (p ! i = 92 \<and> 2 \<le> ?n)"
    by blast
  then show ?thesis
  proof cases
    case 1
    then show ?thesis using assms by (auto simp: match_one_def nth_append parse_token_def)
  next
    case 2
    let ?neg = "drop (i + 1) p \<noteq> [] \<and> p ! (i + 1) = 94"
    let ?k = "if ?neg then i + 2 else i + 1"
    have "(drop (i + 1) p \<noteq> [] \<and> hd (drop (i + 1) p) = 94) = ?neg" using h by auto
    then have "parse_token (p ! i) (drop (i + 1) p) = (let (items, r) = parse_class (drop ?k p) in (Class ?neg items, r))"
      using 2 tl by (simp only: parse_token_def Let_def) (simp split: prod.splits)
    then obtain items where it: "parse_class (drop ?k p) = (items, r)" "t = Class ?neg items"
      using assms(3) by (auto simp: Let_def split: prod.splits)
    have k: "?k \<le> length p" "0 < ?k" using assms(1) by auto
    obtain j where j: "class_loop ?mem ?k (int (length p) - int ?k) c nocase False =
        Some (j, int (length p) - int j, list_ex (\<lambda>x. accepts_item nocase x c) items)" "j < length p" "drop (j + 1) p = r"
      using class_loop_ok [OF it(1) k, of rest c nocase False] by auto
    have z: "(if drop (i + 1) p = [] then 0 else p ! (i + 1)) = 94 \<longleftrightarrow> ?neg" by simp
    have n: "?n - 2 = int (length p) - int (i + 2)" "?n - 1 = int (length p) - int (i + 1)" by simp_all
    have cl: "(if ?neg then class_loop ?mem (i + 2) (?n - 2) c nocase False
        else class_loop ?mem (i + 1) (?n - 1) c nocase False) =
      Some (j, int (length p) - int j, list_ex (\<lambda>x. accepts_item nocase x c) items)"
      unfolding n using j(1) by (cases ?neg) (simp_all only: if_True if_False simp_thms)
    have num: "(91 :: byte) \<noteq> 63" by simp
    have "match_one ?mem i ?n c nocase =
        Some (if list_ex (\<lambda>x. accepts_item nocase x c) items \<noteq> ?neg then Some (j, int (length p) - int j) else None)"
      unfolding match_one_def nx pat_get [OF assms(1)]
      by (simp only: 2 bind.simps Let_def z cl prod.case num if_True if_False simp_thms)
    with j it(2) show ?thesis by auto
  next
    case 3
    then show ?thesis using assms ne h tl
      by (auto simp: match_one_def nth_append parse_token_def)
  next
    case 4
    then show ?thesis using assms ne h tl
      by (auto simp: match_one_def nth_append parse_token_def Let_def split: if_splits)
  qed
qed

lemma skip_stars_ok:
  "i < length p \<Longrightarrow> p ! i = 42 \<Longrightarrow>
    \<exists>j. skip_stars (p @ 0 # rest) i (int (length p) - int i) = Some (j, int (length p) - int j) \<and>
      i \<le> j \<and> j < length p \<and> p ! j = 42 \<and> (j + 1 < length p \<longrightarrow> p ! (j + 1) \<noteq> 42) \<and>
      (\<forall>s. glob_match nocase (tokens (drop i p)) s = glob_match nocase (tokens (drop j p)) s)"
proof (induction "length p - i" arbitrary: i rule: less_induct)
  case less
  have d: "drop i p = 42 # drop (i + 1) p" using less.prems by (metis Cons_nth_drop_Suc Suc_eq_plus1)
  show ?case
  proof (cases "i + 1 < length p \<and> p ! (i + 1) = 42")
    case True
    then have d1: "drop (i + 1) p = 42 # drop (i + 2) p"
      by (metis Cons_nth_drop_Suc Suc_eq_plus1 add_2_eq_Suc' )
    have eq: "skip_stars (p @ 0 # rest) i (int (length p) - int i) =
        skip_stars (p @ 0 # rest) (i + 1) (int (length p) - int (i + 1))"
      using True less.prems by (subst skip_stars.simps) (simp add: nth_append algebra_simps)
    have g: "glob_match nocase (Star # Star # ts) s = glob_match nocase (Star # ts) s" for ts s
      by (induction s) auto
    have "glob_match nocase (tokens (drop i p)) s = glob_match nocase (tokens (drop (i + 1) p)) s" for s
      unfolding d d1 by (simp add: parse_token_def g)
    with less.hyps [of "i + 1"] True less.prems eq show ?thesis by fastforce
  next
    case False
    have "skip_stars (p @ 0 # rest) i (int (length p) - int i) = Some (i, int (length p) - int i)"
      using False less.prems pat_get [of "i + 1" p rest] pat_end [of p rest]
      by (subst skip_stars.simps) (cases "i + 1 = length p", auto)
    with False less.prems show ?thesis by auto
  qed
qed

lemma trailing_stars_ok:
  "i \<le> length p \<Longrightarrow> \<exists>k. trailing_stars (p @ 0 # rest) i (int (length p) - int i) = Some k \<and>
     (k = 0 \<longleftrightarrow> glob_match nocase (tokens (drop i p)) [])"
proof (induction "length p - i" arbitrary: i rule: less_induct)
  case less
  show ?case
  proof (cases "i = length p")
    case True
    then show ?thesis by (subst trailing_stars.simps) (simp add: pat_end)
  next
    case False
    then have i: "i < length p" using less.prems by simp
    then have d: "drop i p = p ! i # drop (i + 1) p" by (simp add: Cons_nth_drop_Suc)
    show ?thesis
    proof (cases "p ! i = 42")
      case True
      then have "trailing_stars (p @ 0 # rest) i (int (length p) - int i) =
          trailing_stars (p @ 0 # rest) (i + 1) (int (length p) - int (i + 1))"
        using i by (subst trailing_stars.simps) (simp add: nth_append algebra_simps)
      with less.hyps [of "i + 1"] i show ?thesis unfolding d by (simp add: True parse_token_def)
    next
      case False
      have "\<not> glob_match nocase (tokens (drop i p)) []"
        unfolding d using False by (auto simp: parse_token_def Let_def split: prod.splits)
      with False i show ?thesis by (subst trailing_stars.simps) (simp add: nth_append)
    qed
  qed
qed


lemma star_loop_ok:
  assumes "\<And>s'. s' \<noteq> [] \<Longrightarrow> length s' \<le> length s \<Longrightarrow> matchlen_at mem (i + 1) (n - 1) s' nocase = Some (glob_match nocase ts s')"
    "i < length mem" "\<not> glob_match nocase ts []"
  shows "star_loop mem i n s nocase = Some (glob_match nocase (Star # ts) s)"
  using assms(1)
proof (induction s)
  case Nil
  then show ?case using assms(2,3) by (subst star_loop.simps) simp
next
  case (Cons c s)
  have "star_loop mem i n s nocase = Some (glob_match nocase (Star # ts) s)"
    using Cons by (intro Cons.IH) simp_all
  then show ?case using assms(2) Cons.prems [of "c # s"]
    by (subst star_loop.simps) (auto split: bool.splits)
qed

lemma not_star_empty: "a \<noteq> 42 \<Longrightarrow> \<not> glob_match nocase (tokens (a # p)) []"
  by (auto simp: parse_token_def Let_def split: prod.splits)

lemma matchlen_ok:
  "i \<le> length p \<Longrightarrow> matchlen_at (p @ 0 # rest) i (int (length p) - int i) s nocase =
     Some (if s = [] then i = length p else glob_match nocase (tokens (drop i p)) s)"
proof (induction "length s * (length p + 1) + (length p - i)" arbitrary: i s rule: less_induct)
  case less
  let ?mem = "p @ 0 # rest" and ?n = "int (length p) - int i"
  show ?case
  proof (cases "i = length p \<or> s = []")
    case True
    then show ?thesis using less.prems by (subst matchlen_at.simps) auto
  next
    case False
    then have i: "i < length p" "?n \<noteq> 0" "s \<noteq> []" using less.prems by auto
    then have d: "drop i p = p ! i # drop (i + 1) p" by (simp add: Cons_nth_drop_Suc)
    obtain c s' where s: "s = c # s'" using i(3) by (cases s) auto
    have ih: "matchlen_at ?mem j (int (length p) - int j) t nocase =
        Some (if t = [] then j = length p else glob_match nocase (tokens (drop j p)) t)"
      if "i < j" "j \<le> length p" "length t \<le> length s" for j t
      using that i(1) by (intro less.hyps add_le_less_mono mult_le_mono1) auto
    show ?thesis
    proof (cases "p ! i = 42")
      case star: True
      obtain j where j: "skip_stars ?mem i ?n = Some (j, int (length p) - int j)" "i \<le> j" "j < length p" "p ! j = 42"
        "j + 1 < length p \<longrightarrow> p ! (j + 1) \<noteq> 42"
        "\<And>s. glob_match nocase (tokens (drop i p)) s = glob_match nocase (tokens (drop j p)) s"
        using skip_stars_ok [OF i(1) star, of rest nocase] by auto
      have dj: "tokens (drop j p) = Star # tokens (drop (j + 1) p)"
        using j(3,4) by (simp add: Cons_nth_drop_Suc [symmetric] parse_token_def)
      have eq: "matchlen_at ?mem i ?n s nocase =
          (if int (length p) - int j = 1 then Some True else star_loop ?mem j (int (length p) - int j) s nocase)"
        using i star j(1) by (subst matchlen_at.simps) (simp add: nth_append)
      show ?thesis
      proof (cases "j + 1 = length p")
        case True
        have "glob_match nocase [Star] s" for s by (induction s) auto
        then show ?thesis using True eq j(6) dj i(3) by simp
      next
        case False
        then have j1: "j + 1 < length p" using j(3) by simp
        then have "drop (j + 1) p = p ! (j + 1) # drop (j + 2) p" by (simp add: Cons_nth_drop_Suc)
        then have ne: "\<not> glob_match nocase (tokens (drop (j + 1) p)) []" using not_star_empty j(5) j1 by simp
        have n: "int (length p) - int j - 1 = int (length p) - int (j + 1)" by simp
        have "star_loop ?mem j (int (length p) - int j) s nocase = Some (glob_match nocase (Star # tokens (drop (j + 1) p)) s)"
          using ih [of "j + 1"] j(2,3) ne unfolding n by (intro star_loop_ok) (auto simp: n)
        then show ?thesis using eq j1 j(6) dj i(3) by simp
      qed
    next
      case False
      obtain t r where t: "parse_token (p ! i) (drop (i + 1) p) = (t, r)" by fastforce
      have ns: "t \<noteq> Star" using t False by (auto simp: parse_token_def Let_def split: if_splits prod.splits)
      then have g: "glob_match nocase (tokens (drop i p)) s = (accepts nocase t c \<and> glob_match nocase (tokens r) s')"
        unfolding d s using t by (cases t) auto
      show ?thesis
      proof (cases "accepts nocase t c")
        case no: False
        then have "match_one ?mem i ?n c nocase = Some None" using match_one_ok [OF i(1) False t, of nocase c rest] by simp
        then show ?thesis using i False no g s by (subst matchlen_at.simps) (simp add: nth_append)
      next
        case yes: True
        then obtain j where j: "match_one ?mem i ?n c nocase = Some (Some (j, int (length p) - int j))" "j < length p"
          "drop (j + 1) p = r" using match_one_ok [OF i(1) False t, of nocase c rest] by auto
        have n: "int (length p) - int j - 1 = int (length p) - int (j + 1)" by simp
        have eq: "matchlen_at ?mem i ?n s nocase =
            (if s' = [] then (case trailing_stars ?mem (j + 1) (int (length p) - int (j + 1)) of None \<Rightarrow> None | Some k \<Rightarrow> Some (k = 0))
             else matchlen_at ?mem (j + 1) (int (length p) - int (j + 1)) s' nocase)"
          unfolding n [symmetric] using i False j(1) s by (subst matchlen_at.simps) (simp add: nth_append)
        have "matchlen_at ?mem (j + 1) (int (length p) - int (j + 1)) s' nocase =
            Some (glob_match nocase (tokens r) s')" if "s' \<noteq> []"
          using less.hyps [of s' "j + 1"] j(2,3) s that by auto
        then show ?thesis
          using eq g yes i(3) trailing_stars_ok [of "j + 1" p rest nocase] j(2,3) by (cases "s' = []") auto
      qed
    qed
  qed
qed

subsection \<open>Correctness of the matcher\<close>

text \<open>C20. For a pattern in memory that is followed by a zero byte, \<open>stringmatchlen\<close> never reads outside of the
  block, always terminates, and answers whether the string matches the pattern read as a list of
  stars, wildcards, bracket classes and characters, with or without regard to case. The empty string
  is the exception: it matches the empty pattern only, not a pattern of stars.\<close>

theorem stringmatchlen_matches:
  "stringmatchlen (p @ 0 # rest) (int (length p)) s nocase =
     Some (if s = [] then p = [] else glob_match nocase (tokens p) s)"
  using matchlen_ok [of 0 p rest s nocase] by (auto simp: stringmatchlen_def)

end
