(* ===== verification/Client.thy ===== *)
theory Client
  imports Glob
begin

text \<open>
  The client of \<open>myRedis/src/server.h\<close> and the output side of \<open>myRedis/src/networking.c\<close>: queueing replies
  in the static buffer and the list of reply blocks, output limits, and writing to the socket.

  \<^item> The fields of \<open>client\<close> and \<open>server\<close> are those the modelled functions use. \<open>c->flags\<close> is the set of its
    bits. A reply block is its size and the bytes used; the static buffer is the bytes up to \<open>bufpos\<close>.
    A null pointer in the reply list (a deferred length) is \<open>None\<close>.
  \<^item> \<open>c->reply\<close> and the lists of the server are sequences: that the linked list operations implement
    these is the subject of \<open>Adlist\<close>.
  \<^item> The allocator is the function \<open>usable\<close> from requested to usable sizes. The socket answers each write
    from a script of results; what it accepted is \<open>sent\<close>. Logging and memory statistics are left out.
\<close>

subsection \<open>Data\<close>

datatype client_flag = CLIENT_SLAVE | CLIENT_MASTER | CLIENT_MONITOR | CLIENT_MULTI | CLIENT_BLOCKED
  | CLIENT_CLOSE_AFTER_REPLY | CLIENT_SCRIPT | CLIENT_CLOSE_ASAP | CLIENT_MASTER_FORCE_REPLY
  | CLIENT_PUBSUB | CLIENT_PENDING_WRITE | CLIENT_REPLY_OFF | CLIENT_REPLY_SKIP_NEXT
  | CLIENT_REPLY_SKIP | CLIENT_MODULE | CLIENT_PROTECTED | CLIENT_PENDING_COMMAND
  | CLIENT_PROTOCOL_ERROR

datatype client_type = CLIENT_TYPE_NORMAL | CLIENT_TYPE_SLAVE | CLIENT_TYPE_PUBSUB | CLIENT_TYPE_MASTER

datatype result = C_OK | C_ERR

definition PROTO_IOBUF_LEN :: nat where "PROTO_IOBUF_LEN = 1024 * 16"
definition PROTO_REPLY_CHUNK_BYTES :: nat where "PROTO_REPLY_CHUNK_BYTES = 16 * 1024"
definition PROTO_INLINE_MAX_SIZE :: nat where "PROTO_INLINE_MAX_SIZE = 1024 * 64"
definition PROTO_MBULK_BIG_ARG :: int where "PROTO_MBULK_BIG_ARG = 1024 * 32"
definition NET_MAX_WRITES_PER_EVENT :: nat where "NET_MAX_WRITES_PER_EVENT = 1024 * 64"
definition OBJ_SHARED_BULKHDR_LEN :: int where "OBJ_SHARED_BULKHDR_LEN = 32"
definition CLIENT_ID_AOF :: nat where "CLIENT_ID_AOF = 2 ^ 64 - 1"
definition IOV_MAX :: nat where "IOV_MAX = 1024"

record clientReplyBlock =
  bsize :: nat
  bdata :: "byte list"

record replBufBlock =
  rb_refcount :: int
  rb_id :: int
  rb_repl_offset :: int
  rb_size :: nat
  rb_data :: "byte list"

record clientBufferLimitsConfig =
  hard_limit_bytes :: nat
  soft_limit_bytes :: nat
  soft_limit_seconds :: int

record server =
  io_threads_op_idle :: bool
  io_threads_op_read :: bool
  io_threads_num :: nat
  io_threads_active :: bool
  io_threads_do_reads :: bool
  ProcessingEventsWhileBlocked :: bool
  busy_module_yield_flags :: nat
  unixtime :: int
  default_user_nopass :: bool
  default_user_disabled :: bool
  proto_max_bulk_len :: int
  client_obuf_limits :: "client_type \<Rightarrow> clientBufferLimitsConfig"
  repl_backlog_size :: int
  repl_buffer_blocks :: "replBufBlock list"
  repl_slave_ro :: bool
  panic_always :: bool
  panic_on_replicas :: bool
  clients_pending_write :: "nat list"
  clients_pending_read :: "nat list"
  clients_to_close :: "nat list"
  maxmemory :: nat
  used_memory :: nat
  stat_total_error_replies :: nat
  stat_unexpected_error_replies :: nat
  stat_net_input_bytes :: nat
  stat_net_repl_input_bytes :: nat
  stat_total_reads_processed :: nat
  stat_net_output_bytes :: nat
  stat_net_repl_output_bytes :: nat
  stat_total_writes_processed :: nat

record client =
  cid :: nat
  flags :: "client_flag set"
  has_conn :: bool
  resp :: int
  querybuf :: sds
  qb_pos :: nat
  querybuf_peak :: nat
  argv :: "byte list list"
  argv_len :: nat
  argv_len_sum :: nat
  reqtype :: nat
  multibulklen :: int
  bulklen :: int
  reply :: "clientReplyBlock option list"
  reply_bytes :: nat
  deferred_reply_errors :: "byte list list option"
  sentlen :: nat
  lastinteraction :: int
  obuf_soft_limit_reached_time :: int
  authenticated :: bool
  replstate_none :: bool
  replstate_online :: bool
  repl_start_cmd_stream_on_ack :: bool
  repl_ack_time :: int
  reploff :: int
  read_reploff :: int
  repl_applied :: int
  ref_repl_buf_node :: "nat option"
  ref_block_pos :: nat
  realcmd_failed_calls :: "nat option"
  buf_peak :: nat
  buf_usable_size :: nat
  outbuf :: "byte list"

abbreviation bufpos :: "client \<Rightarrow> nat" where "bufpos c \<equiv> length (outbuf c)"
abbreviation argc :: "client \<Rightarrow> nat" where "argc c \<equiv> length (argv c)"

definition has_flag :: "client \<Rightarrow> client_flag \<Rightarrow> bool" where
  "has_flag c f \<longleftrightarrow> f \<in> flags c"

definition set_flag :: "client_flag \<Rightarrow> client \<Rightarrow> client" where
  "set_flag f c = c\<lparr>flags := insert f (flags c)\<rparr>"

definition clear_flag :: "client_flag \<Rightarrow> client \<Rightarrow> client" where
  "clear_flag f c = c\<lparr>flags := flags c - {f}\<rparr>"

definition getClientType :: "client \<Rightarrow> client_type" where
  "getClientType c =
     (if has_flag c CLIENT_MASTER then CLIENT_TYPE_MASTER
      else if has_flag c CLIENT_SLAVE \<and> \<not> has_flag c CLIENT_MONITOR then CLIENT_TYPE_SLAVE
      else if has_flag c CLIENT_PUBSUB then CLIENT_TYPE_PUBSUB
      else CLIENT_TYPE_NORMAL)"

definition authRequired :: "server \<Rightarrow> client \<Rightarrow> bool" where
  "authRequired sv c \<longleftrightarrow> (\<not> default_user_nopass sv \<or> default_user_disabled sv) \<and> \<not> authenticated c"

subsection \<open>Scheduling\<close>

text \<open>With one thread or under the mutex, the client is appended to the list once.\<close>

definition freeClientAsync :: "server \<Rightarrow> client \<Rightarrow> server \<times> client" where
  "freeClientAsync sv c =
     (if has_flag c CLIENT_CLOSE_ASAP \<or> has_flag c CLIENT_SCRIPT then (sv, c)
      else (sv\<lparr>clients_to_close := clients_to_close sv @ [cid c]\<rparr>, set_flag CLIENT_CLOSE_ASAP c))"

text \<open>\<open>None\<close> is a failed assertion; a replica must have an empty output buffer of its own.\<close>

definition clientHasPendingReplies :: "server \<Rightarrow> client \<Rightarrow> bool option" where
  "clientHasPendingReplies sv c =
     (if getClientType c = CLIENT_TYPE_SLAVE then do {
        ensure (outbuf c = [] \<and> reply c = []);
        (case ref_repl_buf_node c of
           None \<Rightarrow> Some False
         | Some i \<Rightarrow> do {
             ensure (repl_buffer_blocks sv \<noteq> []);
             Some (\<not> (i = length (repl_buffer_blocks sv) - 1 \<and>
                      ref_block_pos c = length (rb_data (last (repl_buffer_blocks sv))))) }) }
      else Some (outbuf c \<noteq> [] \<or> reply c \<noteq> []))"

definition putClientInPendingWriteQueue :: "server \<Rightarrow> client \<Rightarrow> server \<times> client" where
  "putClientInPendingWriteQueue sv c =
     (if \<not> has_flag c CLIENT_PENDING_WRITE \<and>
         (replstate_none c \<or> (replstate_online c \<and> \<not> repl_start_cmd_stream_on_ack c))
      then (sv\<lparr>clients_pending_write := cid c # clients_pending_write sv\<rparr>, set_flag CLIENT_PENDING_WRITE c)
      else (sv, c))"

definition prepareClientToWrite :: "server \<Rightarrow> client \<Rightarrow> (server \<times> client \<times> result) option" where
  "prepareClientToWrite sv c =
     (if has_flag c CLIENT_SCRIPT \<or> has_flag c CLIENT_MODULE then Some (sv, c, C_OK)
      else if has_flag c CLIENT_CLOSE_ASAP then Some (sv, c, C_ERR)
      else if has_flag c CLIENT_REPLY_OFF \<or> has_flag c CLIENT_REPLY_SKIP then Some (sv, c, C_ERR)
      else if has_flag c CLIENT_MASTER \<and> \<not> has_flag c CLIENT_MASTER_FORCE_REPLY then Some (sv, c, C_ERR)
      else if \<not> has_conn c then Some (sv, c, C_ERR)
      else do {
        pending \<leftarrow> clientHasPendingReplies sv c;
        let (sv, c) = (if \<not> pending \<and> io_threads_op_idle sv then putClientInPendingWriteQueue sv c else (sv, c));
        Some (sv, c, C_OK) })"

subsection \<open>Output limits\<close>

text \<open>The sizes of \<open>listNode\<close>, \<open>clientReplyBlock\<close> and \<open>replBufBlock\<close> on a 64-bit machine.\<close>

definition getClientOutputBufferMemoryUsage :: "server \<Rightarrow> client \<Rightarrow> nat option" where
  "getClientOutputBufferMemoryUsage sv c =
     (if getClientType c = CLIENT_TYPE_SLAVE then
        (case ref_repl_buf_node c of
           None \<Rightarrow> Some 0
         | Some i \<Rightarrow> do {
             ensure (repl_buffer_blocks sv \<noteq> []);
             let lst = last (repl_buffer_blocks sv);
             cur \<leftarrow> get_at (repl_buffer_blocks sv) i;
             Some (nat ((rb_repl_offset lst + int (rb_size lst) - rb_repl_offset cur +
                         (24 + 40) * (rb_id lst - rb_id cur + 1)) mod 2 ^ 64)) })
      else Some ((reply_bytes c + (24 + 16) * length (reply c)) mod 2 ^ 64))"

definition checkClientOutputBufferLimits :: "server \<Rightarrow> client \<Rightarrow> (client \<times> bool) option" where
  "checkClientOutputBufferLimits sv c = do {
     used_mem \<leftarrow> getClientOutputBufferMemoryUsage sv c;
     let cl = (if getClientType c = CLIENT_TYPE_MASTER then CLIENT_TYPE_NORMAL else getClientType c);
     let lim = client_obuf_limits sv cl;
     let hard_limit = (if cl = CLIENT_TYPE_SLAVE \<and> hard_limit_bytes lim \<noteq> 0 \<and>
                          int (hard_limit_bytes lim) < repl_backlog_size sv
                       then nat (repl_backlog_size sv) else hard_limit_bytes lim);
     let hard = (hard_limit_bytes lim \<noteq> 0 \<and> hard_limit \<le> used_mem);
     let soft = (soft_limit_bytes lim \<noteq> 0 \<and> soft_limit_bytes lim \<le> used_mem);
     (if soft then
        (if obuf_soft_limit_reached_time c = 0
         then Some (c\<lparr>obuf_soft_limit_reached_time := unixtime sv\<rparr>, hard)
         else Some (c, soft_limit_seconds lim < unixtime sv - obuf_soft_limit_reached_time c \<or> hard))
      else Some (c\<lparr>obuf_soft_limit_reached_time := 0\<rparr>, hard)) }"

text \<open>The asynchronous form, the only one the output functions use.\<close>

definition closeClientOnOutputBufferLimitReached :: "server \<Rightarrow> client \<Rightarrow> (server \<times> client) option" where
  "closeClientOnOutputBufferLimitReached sv c =
     (if \<not> has_conn c then Some (sv, c)
      else do {
        ensure (reply_bytes c < 2 ^ 64 - 1 - 1024 * 64);
        (if (reply_bytes c = 0 \<and> getClientType c \<noteq> CLIENT_TYPE_SLAVE) \<or> has_flag c CLIENT_CLOSE_ASAP
         then Some (sv, c)
         else do {
           (c, limit) \<leftarrow> checkClientOutputBufferLimits sv c;
           Some (if limit then freeClientAsync sv c else (sv, c)) }) })"

subsection \<open>Queueing output\<close>

type_synonym usable = "nat \<Rightarrow> nat"

definition usable_ok :: "usable \<Rightarrow> bool" where
  "usable_ok usable \<longleftrightarrow> (\<forall>n. n \<le> usable n \<and> usable n \<le> 2 * n)"

definition REPLY_BLOCK_HDR :: nat where "REPLY_BLOCK_HDR = 16"

text \<open>Returns how many bytes went to the static buffer.\<close>

definition addReplyToBuffer :: "client \<Rightarrow> byte list \<Rightarrow> (client \<times> nat) option" where
  "addReplyToBuffer c s =
     (let available = buf_usable_size c - bufpos c in
      if reply c \<noteq> [] then Some (c, 0)
      else do {
        let reply_len = (if available < length s then available else length s);
        ensure (bufpos c + reply_len \<le> buf_usable_size c);
        let c = c\<lparr>outbuf := outbuf c @ take reply_len s\<rparr>;
        Some (if buf_peak c < bufpos c then c\<lparr>buf_peak := bufpos c\<rparr> else c, reply_len) })"

text \<open>Appending to a block; a copy behind its size is a fault.\<close>

definition block_append :: "clientReplyBlock \<Rightarrow> byte list \<Rightarrow> clientReplyBlock option" where
  "block_append b s = do { ensure (length (bdata b) + length s \<le> bsize b); Some (b\<lparr>bdata := bdata b @ s\<rparr>) }"

definition addReplyProtoToList :: "usable \<Rightarrow> server \<Rightarrow> client \<Rightarrow> byte list \<Rightarrow> (server \<times> client) option" where
  "addReplyProtoToList usable sv c s = do {
     let tail = (if reply c = [] then None else last (reply c));
     (c, s) \<leftarrow> (case tail of
        None \<Rightarrow> Some (c, s)
      | Some b \<Rightarrow> do {
          let avail = bsize b - length (bdata b);
          let copy = (if length s \<le> avail then length s else avail);
          b \<leftarrow> block_append b (take copy s);
          Some (c\<lparr>reply := butlast (reply c) @ [Some b]\<rparr>, drop copy s) });
     (if s \<noteq> [] then do {
        let size = (if length s < PROTO_REPLY_CHUNK_BYTES then PROTO_REPLY_CHUNK_BYTES else length s);
        let b = \<lparr>bsize = usable (size + REPLY_BLOCK_HDR) - REPLY_BLOCK_HDR, bdata = []\<rparr>;
        b \<leftarrow> block_append b s;
        closeClientOnOutputBufferLimitReached sv
          (c\<lparr>reply := reply c @ [Some b], reply_bytes := (reply_bytes c + bsize b) mod 2 ^ 64\<rparr>) }
      else Some (sv, c)) }"

definition addReplyToBufferOrList :: "usable \<Rightarrow> server \<Rightarrow> client \<Rightarrow> byte list \<Rightarrow> (server \<times> client) option" where
  "addReplyToBufferOrList usable sv c s =
     (if has_flag c CLIENT_CLOSE_AFTER_REPLY then Some (sv, c)
      else if getClientType c = CLIENT_TYPE_SLAVE then Some (freeClientAsync sv c)
      else do {
        (c, reply_len) \<leftarrow> addReplyToBuffer c s;
        (if reply_len < length s then addReplyProtoToList usable sv c (drop reply_len s) else Some (sv, c)) })"

definition addReplyProto :: "usable \<Rightarrow> server \<Rightarrow> client \<Rightarrow> byte list \<Rightarrow> (server \<times> client) option" where
  "addReplyProto usable sv c s = do {
     (sv, c, r) \<leftarrow> prepareClientToWrite sv c;
     (if r \<noteq> C_OK then Some (sv, c) else addReplyToBufferOrList usable sv c s) }"

text \<open>A string object: its text, or an integer encoded in the pointer. The buffer has 32 bytes.\<close>

datatype robj = StringObject sds | IntObject int

definition addReply :: "usable \<Rightarrow> server \<Rightarrow> client \<Rightarrow> robj \<Rightarrow> (server \<times> client) option" where
  "addReply usable sv c obj = do {
     (sv, c, r) \<leftarrow> prepareClientToWrite sv c;
     (if r \<noteq> C_OK then Some (sv, c)
      else (case obj of
          StringObject s \<Rightarrow> do {
            text \<leftarrow> read_at (buf s) 0 (sdslen s);
            addReplyToBufferOrList usable sv c text }
        | IntObject v \<Rightarrow> do {
            (b, len) \<leftarrow> ll2string (replicate 32 0) 32 v;
            addReplyToBufferOrList usable sv c (take len b) })) }"

subsection \<open>The replies of the protocol\<close>

definition CRLF :: "byte list" where "CRLF = [13, 10]"

definition addReplyErrorLength :: "usable \<Rightarrow> server \<Rightarrow> client \<Rightarrow> byte list \<Rightarrow> (server \<times> client) option" where
  "addReplyErrorLength usable sv c s = do {
     (sv, c) \<leftarrow> (if s = [] \<or> s ! 0 \<noteq> 45 then addReplyProto usable sv c [45, 69, 82, 82, 32] else Some (sv, c));
     (sv, c) \<leftarrow> addReplyProto usable sv c s;
     addReplyProto usable sv c CRLF }"

text \<open>The statistics and the panics after an error; \<open>no_stats\<close> is \<open>ERR_REPLY_FLAG_NO_STATS_UPDATE\<close>. The
  body of \<open>incrementErrorCount\<close> is empty.\<close>

definition afterErrorReply :: "server \<Rightarrow> client \<Rightarrow> byte list \<Rightarrow> bool \<Rightarrow> (server \<times> client) option" where
  "afterErrorReply sv c s no_stats =
     (if has_flag c CLIENT_MODULE
      then Some (sv, c\<lparr>deferred_reply_errors := Some (case deferred_reply_errors c of None \<Rightarrow> [s] | Some es \<Rightarrow> es @ [s])\<rparr>)
      else do {
        (sv, c) \<leftarrow> (if \<not> no_stats then Some (sv\<lparr>stat_total_error_replies := stat_total_error_replies sv + 1\<rparr>, c)
                     else (case realcmd_failed_calls c of
                             None \<Rightarrow> None
                           | Some n \<Rightarrow> Some (sv, c\<lparr>realcmd_failed_calls := Some (n + 1)\<rparr>)));
        let ctype = getClientType c;
        (if ctype = CLIENT_TYPE_MASTER \<or> ctype = CLIENT_TYPE_SLAVE \<or> cid c = CLIENT_ID_AOF then do {
           let sv = sv\<lparr>stat_unexpected_error_replies := stat_unexpected_error_replies sv + 1\<rparr>;
           ensure (\<not> (ctype = CLIENT_TYPE_MASTER \<and> repl_slave_ro sv \<and> (panic_always sv \<or> panic_on_replicas sv)));
           ensure (\<not> (cid c = CLIENT_ID_AOF \<and> panic_always sv));
           Some (sv, c) }
         else Some (sv, c)) })"

text \<open>\<open>err\<close> is a C string in memory.\<close>

definition addReplyError :: "usable \<Rightarrow> server \<Rightarrow> client \<Rightarrow> byte list \<Rightarrow> (server \<times> client) option" where
  "addReplyError usable sv c err = do {
     n \<leftarrow> strlen err;
     (sv, c) \<leftarrow> addReplyErrorLength usable sv c (take n err);
     afterErrorReply sv c (take n err) False }"

definition addReplyErrorObject :: "usable \<Rightarrow> server \<Rightarrow> client \<Rightarrow> sds \<Rightarrow> (server \<times> client) option" where
  "addReplyErrorObject usable sv c err = do {
     (sv, c) \<leftarrow> addReply usable sv c (StringObject err);
     text \<leftarrow> read_at (buf err) 0 (sdslen err - 2);
     afterErrorReply sv c text False }"

text \<open>\<open>s\<close> is the string \<open>sdscatvprintf\<close> made of the format and the arguments.\<close>

definition addReplyErrorFormatInternal :: "usable \<Rightarrow> server \<Rightarrow> client \<Rightarrow> bool \<Rightarrow> sds \<Rightarrow> (server \<times> client) option" where
  "addReplyErrorFormatInternal usable sv c no_stats s = do {
     s \<leftarrow> sdstrim s CRLF;
     s \<leftarrow> sdsmapchars s CRLF [32, 32];
     text \<leftarrow> read_at (buf s) 0 (sdslen s);
     (sv, c) \<leftarrow> addReplyErrorLength usable sv c text;
     afterErrorReply sv c text no_stats }"

definition addReplyErrorFormat :: "usable \<Rightarrow> server \<Rightarrow> client \<Rightarrow> sds \<Rightarrow> (server \<times> client) option" where
  "addReplyErrorFormat usable sv c s = addReplyErrorFormatInternal usable sv c False s"

definition addReplyStatusLength :: "usable \<Rightarrow> server \<Rightarrow> client \<Rightarrow> byte list \<Rightarrow> (server \<times> client) option" where
  "addReplyStatusLength usable sv c s = do {
     (sv, c) \<leftarrow> addReplyProto usable sv c [43];
     (sv, c) \<leftarrow> addReplyProto usable sv c s;
     addReplyProto usable sv c CRLF }"

definition addReplyStatus :: "usable \<Rightarrow> server \<Rightarrow> client \<Rightarrow> byte list \<Rightarrow> (server \<times> client) option" where
  "addReplyStatus usable sv c status = do {
     n \<leftarrow> strlen status; addReplyStatusLength usable sv c (take n status) }"

text \<open>The shared headers \<open>createSharedObjects\<close> makes with the format \<open>"*%d\r\n"\<close>; \<open>hdr_len\<close> counts one digit
  below 10 and two from there on.\<close>

definition shared_hdr :: "byte \<Rightarrow> int \<Rightarrow> byte list" where
  "shared_hdr pfx j = pfx # sdsll2str j @ CRLF"

definition OBJ_SHARED_HDR_STRLEN :: "int \<Rightarrow> nat" where
  "OBJ_SHARED_HDR_STRLEN len = (if len < 10 then 4 else 5)"

text \<open>The buffer has 128 bytes: the prefix, the number and the line end.\<close>

definition addReplyLongLongWithPrefix :: "usable \<Rightarrow> server \<Rightarrow> client \<Rightarrow> int \<Rightarrow> byte \<Rightarrow> (server \<times> client) option" where
  "addReplyLongLongWithPrefix usable sv c ll pfx =
     (if (pfx = 42 \<or> pfx = 36 \<or> pfx = 37 \<or> pfx = 126) \<and> ll < OBJ_SHARED_BULKHDR_LEN \<and> 0 \<le> ll then do {
        text \<leftarrow> read_at (shared_hdr pfx ll) 0 (OBJ_SHARED_HDR_STRLEN ll);
        addReplyProto usable sv c text }
      else do {
        (b, len) \<leftarrow> ll2string (replicate 127 0) 127 ll;
        b \<leftarrow> set_at b len 13;
        b \<leftarrow> set_at b (len + 1) 10;
        text \<leftarrow> read_at (pfx # b) 0 (len + 3);
        addReplyProto usable sv c text })"

text \<open>\<open>shared.czero\<close> and \<open>shared.cone\<close> are the strings ":0" and ":1" with a line end.\<close>

definition addReplyLongLong :: "usable \<Rightarrow> server \<Rightarrow> client \<Rightarrow> int \<Rightarrow> (server \<times> client) option" where
  "addReplyLongLong usable sv c ll =
     (if ll = 0 then addReplyProto usable sv c [58, 48, 13, 10]
      else if ll = 1 then addReplyProto usable sv c [58, 49, 13, 10]
      else addReplyLongLongWithPrefix usable sv c ll 58)"

definition addReplyAggregateLen :: "usable \<Rightarrow> server \<Rightarrow> client \<Rightarrow> int \<Rightarrow> byte \<Rightarrow> (server \<times> client) option" where
  "addReplyAggregateLen usable sv c len pfx = do {
     ensure (0 \<le> len); addReplyLongLongWithPrefix usable sv c len pfx }"

definition addReplyArrayLen :: "usable \<Rightarrow> server \<Rightarrow> client \<Rightarrow> int \<Rightarrow> (server \<times> client) option" where
  "addReplyArrayLen usable sv c len = addReplyAggregateLen usable sv c len 42"

definition addReplyMapLen :: "usable \<Rightarrow> server \<Rightarrow> client \<Rightarrow> int \<Rightarrow> (server \<times> client) option" where
  "addReplyMapLen usable sv c len =
     addReplyAggregateLen usable sv c (if resp c = 2 then len * 2 else len) (if resp c = 2 then 42 else 37)"

definition addReplySetLen :: "usable \<Rightarrow> server \<Rightarrow> client \<Rightarrow> int \<Rightarrow> (server \<times> client) option" where
  "addReplySetLen usable sv c len = addReplyAggregateLen usable sv c len (if resp c = 2 then 42 else 126)"

definition addReplyPushLen :: "usable \<Rightarrow> server \<Rightarrow> client \<Rightarrow> int \<Rightarrow> (server \<times> client) option" where
  "addReplyPushLen usable sv c len = do { ensure (3 \<le> resp c); addReplyAggregateLen usable sv c len 62 }"

definition addReplyNull :: "usable \<Rightarrow> server \<Rightarrow> client \<Rightarrow> (server \<times> client) option" where
  "addReplyNull usable sv c =
     addReplyProto usable sv c (if resp c = 2 then [36, 45, 49, 13, 10] else [95, 13, 10])"

definition stringObjectLen :: "robj \<Rightarrow> nat" where
  "stringObjectLen obj = (case obj of StringObject s \<Rightarrow> sdslen s | IntObject v \<Rightarrow> sdigits10 v)"

definition addReplyBulkLen :: "usable \<Rightarrow> server \<Rightarrow> client \<Rightarrow> robj \<Rightarrow> (server \<times> client) option" where
  "addReplyBulkLen usable sv c obj = addReplyLongLongWithPrefix usable sv c (int (stringObjectLen obj)) 36"

definition addReplyBulk :: "usable \<Rightarrow> server \<Rightarrow> client \<Rightarrow> robj \<Rightarrow> (server \<times> client) option" where
  "addReplyBulk usable sv c obj = do {
     (sv, c) \<leftarrow> addReplyBulkLen usable sv c obj;
     (sv, c) \<leftarrow> addReply usable sv c obj;
     addReplyProto usable sv c CRLF }"

definition addReplyBulkCBuffer :: "usable \<Rightarrow> server \<Rightarrow> client \<Rightarrow> byte list \<Rightarrow> (server \<times> client) option" where
  "addReplyBulkCBuffer usable sv c p = do {
     (sv, c) \<leftarrow> addReplyLongLongWithPrefix usable sv c (int (length p)) 36;
     (sv, c) \<leftarrow> addReplyProto usable sv c p;
     addReplyProto usable sv c CRLF }"

definition addReplyBulkCString :: "usable \<Rightarrow> server \<Rightarrow> client \<Rightarrow> byte list option \<Rightarrow> (server \<times> client) option" where
  "addReplyBulkCString usable sv c s =
     (case s of
        None \<Rightarrow> addReplyNull usable sv c
      | Some s \<Rightarrow> do { n \<leftarrow> strlen s; addReplyBulkCBuffer usable sv c (take n s) })"

subsection \<open>Deferred lengths\<close>

text \<open>The placeholder is named by its position in the list.\<close>

definition addReplyDeferredLen :: "server \<Rightarrow> client \<Rightarrow> (server \<times> client \<times> nat option) option" where
  "addReplyDeferredLen sv c = do {
     (sv, c, r) \<leftarrow> prepareClientToWrite sv c;
     Some (if r \<noteq> C_OK then (sv, c, None)
           else if getClientType c = CLIENT_TYPE_SLAVE
           then (case freeClientAsync sv c of (sv, c) \<Rightarrow> (sv, c, None))
           else (sv, c\<lparr>reply := reply c @ [None]\<rparr>, Some (length (reply c)))) }"

definition remove_at :: "'a list \<Rightarrow> nat \<Rightarrow> 'a list" where
  "remove_at xs i = take i xs @ drop (i + 1) xs"

text \<open>A new block in the place of the placeholder.\<close>

definition deferred_block :: "usable \<Rightarrow> server \<Rightarrow> client \<Rightarrow> clientReplyBlock option list \<Rightarrow> nat \<Rightarrow> byte list
    \<Rightarrow> (server \<times> client) option" where
  "deferred_block usable sv c blocks i s = do {
     b \<leftarrow> block_append \<lparr>bsize = usable (length s + REPLY_BLOCK_HDR) - REPLY_BLOCK_HDR, bdata = []\<rparr> s;
     closeClientOnOutputBufferLimitReached sv
       (c\<lparr>reply := blocks[i := Some b], reply_bytes := (reply_bytes c + bsize b) mod 2 ^ 64\<rparr>) }"

text \<open>First the room in the previous block, then the next block or a new one.\<close>

definition setDeferredReply :: "usable \<Rightarrow> server \<Rightarrow> client \<Rightarrow> nat option \<Rightarrow> byte list \<Rightarrow> (server \<times> client) option" where
  "setDeferredReply usable sv c node s =
     (case node of None \<Rightarrow> Some (sv, c) | Some i \<Rightarrow> do {
        v \<leftarrow> get_at (reply c) i;
        ensure (v = None);
        (entered, blocks, s) \<leftarrow> (case (if i = 0 then None else reply c ! (i - 1)) of
            None \<Rightarrow> Some (False, reply c, s)
          | Some prev \<Rightarrow> (let room = bsize prev - length (bdata prev) in
              if 0 < room then do {
                let n = (if length s < room then length s else room);
                prev \<leftarrow> block_append prev (take n s);
                Some (True, (reply c)[i - 1 := Some prev], drop n s) }
              else Some (False, reply c, s)));
        (if entered \<and> s = [] then Some (sv, c\<lparr>reply := remove_at blocks i\<rparr>)
         else (case (if i + 1 < length blocks then blocks ! (i + 1) else None) of
             Some nx \<Rightarrow>
               if length s \<le> bsize nx - length (bdata nx) \<and> length (bdata nx) < PROTO_REPLY_CHUNK_BYTES * 4
               then do {
                 ensure (length (bdata nx) + length s \<le> bsize nx);
                 Some (sv, c\<lparr>reply := remove_at (blocks[i + 1 := Some (nx\<lparr>bdata := s @ bdata nx\<rparr>)]) i\<rparr>) }
               else deferred_block usable sv c blocks i s
           | None \<Rightarrow> deferred_block usable sv c blocks i s)) })"

text \<open>\<open>snprintf\<close> with \<open>"%c%ld\r\n"\<close> prints what the shared header holds for small numbers.\<close>

definition setDeferredAggregateLen :: "usable \<Rightarrow> server \<Rightarrow> client \<Rightarrow> nat option \<Rightarrow> int \<Rightarrow> byte \<Rightarrow> (server \<times> client) option" where
  "setDeferredAggregateLen usable sv c node len pfx = do {
     ensure (0 \<le> len);
     (if node = None then Some (sv, c)
      else if (pfx = 42 \<or> pfx = 37 \<or> pfx = 126) \<and> len < OBJ_SHARED_BULKHDR_LEN then do {
        text \<leftarrow> read_at (shared_hdr pfx len) 0 (OBJ_SHARED_HDR_STRLEN len);
        setDeferredReply usable sv c node text }
      else setDeferredReply usable sv c node (pfx # sdsll2str len @ CRLF)) }"

definition setDeferredMapLen :: "usable \<Rightarrow> server \<Rightarrow> client \<Rightarrow> nat option \<Rightarrow> int \<Rightarrow> (server \<times> client) option" where
  "setDeferredMapLen usable sv c node len =
     setDeferredAggregateLen usable sv c node (if resp c = 2 then len * 2 else len) (if resp c = 2 then 42 else 37)"

definition setDeferredSetLen :: "usable \<Rightarrow> server \<Rightarrow> client \<Rightarrow> nat option \<Rightarrow> int \<Rightarrow> (server \<times> client) option" where
  "setDeferredSetLen usable sv c node len =
     setDeferredAggregateLen usable sv c node len (if resp c = 2 then 42 else 126)"

subsection \<open>Writing to the socket\<close>

record sock =
  sent :: "byte list"
  answers :: "int list"
  connected :: bool

text \<open>\<open>connWrite\<close>: the next answer of the kernel, at most the length of the data; without one the socket
  would block.\<close>

definition connWrite :: "sock \<Rightarrow> byte list \<Rightarrow> sock \<times> int" where
  "connWrite k xs =
     (case answers k of
        [] \<Rightarrow> (k, - 1)
      | a # rest \<Rightarrow>
          if a \<le> 0 then (k\<lparr>answers := rest\<rparr>, a)
          else (let n = min (nat a) (length xs)
                in (k\<lparr>answers := rest, sent := sent k @ take n xs\<rparr>, int n)))"

text \<open>The loop that fills the vector: the pieces, what is left of the list (empty nodes are released) and
  \<open>reply_bytes\<close>.\<close>

fun gather_loop :: "clientReplyBlock option list \<Rightarrow> nat \<Rightarrow> nat \<Rightarrow> nat \<Rightarrow> nat
    \<Rightarrow> (byte list list \<times> clientReplyBlock option list \<times> nat) option" where
  "gather_loop [] iovcnt bytes off rb = Some ([], [], rb)"
| "gather_loop (b # bs) iovcnt bytes off rb =
     (if iovcnt < IOV_MAX \<and> bytes < NET_MAX_WRITES_PER_EVENT then
        (case b of
           None \<Rightarrow> None
         | Some blk \<Rightarrow>
             if bdata blk = [] then gather_loop bs iovcnt bytes 0 ((rb + 2 ^ 64 - bsize blk) mod 2 ^ 64)
             else do {
               ensure (off \<le> length (bdata blk));
               (iov, bs', rb') \<leftarrow> gather_loop bs (iovcnt + 1) (bytes + (length (bdata blk) - off)) 0 rb;
               Some (drop off (bdata blk) # iov, Some blk # bs', rb') })
      else Some ([], b # bs, rb))"

text \<open>The loop that releases what was written; \<open>listNext\<close> answering \<open>NULL\<close> here is a fault.\<close>

fun release_loop :: "clientReplyBlock option list \<Rightarrow> int \<Rightarrow> nat \<Rightarrow> nat
    \<Rightarrow> (clientReplyBlock option list \<times> nat \<times> nat) option" where
  "release_loop [] remaining sl rb = (if 0 < remaining then None else Some ([], sl, rb))"
| "release_loop (b # bs) remaining sl rb =
     (if 0 < remaining then
        (case b of
           None \<Rightarrow> None
         | Some blk \<Rightarrow> do {
             ensure (sl \<le> length (bdata blk));
             let left = int (length (bdata blk) - sl);
             (if remaining < left then Some (b # bs, nat (int sl + remaining), rb)
              else release_loop bs (remaining - left) 0 ((rb + 2 ^ 64 - bsize blk) mod 2 ^ 64)) })
      else Some (b # bs, sl, rb))"

text \<open>The bookkeeping after \<open>n\<close> bytes were accepted.\<close>

definition after_write :: "client \<Rightarrow> int \<Rightarrow> client option" where
  "after_write c nwritten = do {
     let (c, remaining) =
       (if outbuf c \<noteq> [] then
          (let buf_len = int (bufpos c) - int (sentlen c);
               sl = nat (int (sentlen c) + nwritten)
           in (if buf_len \<le> nwritten then c\<lparr>outbuf := [], sentlen := 0\<rparr> else c\<lparr>sentlen := sl\<rparr>,
               nwritten - buf_len))
        else (c, nwritten));
     (blocks, sl, rb) \<leftarrow> release_loop (reply c) remaining (sentlen c) (reply_bytes c);
     Some (c\<lparr>reply := blocks, sentlen := sl, reply_bytes := rb\<rparr>) }"

definition writevToClient :: "client \<Rightarrow> sock \<Rightarrow> (client \<times> sock \<times> result \<times> int) option" where
  "writevToClient c k = do {
     ensure (outbuf c = [] \<or> sentlen c \<le> bufpos c);
     let first = (if outbuf c \<noteq> [] then [drop (sentlen c) (outbuf c)] else []);
     let off = (if outbuf c \<noteq> [] then 0 else sentlen c);
     (iov, blocks, rb) \<leftarrow> gather_loop (reply c) (length first) (length (concat first)) off (reply_bytes c);
     let c = c\<lparr>reply := blocks, reply_bytes := rb\<rparr>;
     let iov = first @ iov;
     (if iov = [] then Some (c, k, C_OK, 0)
      else (let (k, nwritten) = connWrite k (concat iov) in
        if nwritten \<le> 0 then Some (c, k, C_ERR, nwritten)
        else do { c \<leftarrow> after_write c nwritten; Some (c, k, C_OK, nwritten) })) }"

text \<open>A replica is served from the shared replication blocks.\<close>

definition write_replica :: "server \<Rightarrow> client \<Rightarrow> sock \<Rightarrow> (server \<times> client \<times> sock \<times> result \<times> int) option" where
  "write_replica sv c k = do {
     ensure (outbuf c = [] \<and> reply c = []);
     i \<leftarrow> ref_repl_buf_node c;
     blk \<leftarrow> get_at (repl_buffer_blocks sv) i;
     ensure (ref_block_pos c \<le> length (rb_data blk));
     let (k, nwritten) = (if ref_block_pos c < length (rb_data blk)
                          then connWrite k (drop (ref_block_pos c) (rb_data blk)) else (k, 0));
     (if ref_block_pos c < length (rb_data blk) \<and> nwritten \<le> 0 then Some (sv, c, k, C_ERR, nwritten)
      else (let c = c\<lparr>ref_block_pos := ref_block_pos c + nat nwritten\<rparr> in
        if i + 1 < length (repl_buffer_blocks sv) \<and> ref_block_pos c = length (rb_data blk) then
          (let nx = repl_buffer_blocks sv ! (i + 1);
               blocks = (repl_buffer_blocks sv)[i := blk\<lparr>rb_refcount := rb_refcount blk - 1\<rparr>,
                                                i + 1 := nx\<lparr>rb_refcount := rb_refcount nx + 1\<rparr>]
           in Some (sv\<lparr>repl_buffer_blocks := blocks\<rparr>, c\<lparr>ref_repl_buf_node := Some (i + 1), ref_block_pos := 0\<rparr>,
                    k, C_OK, nwritten))
        else Some (sv, c, k, C_OK, nwritten))) }"

definition writeToClient_once :: "server \<Rightarrow> client \<Rightarrow> sock \<Rightarrow> (server \<times> client \<times> sock \<times> result \<times> int) option" where
  "writeToClient_once sv c k =
     (if getClientType c = CLIENT_TYPE_SLAVE then write_replica sv c k
      else if reply c \<noteq> [] then do {
        (c, k, r, n) \<leftarrow> writevToClient c k;
        (if r \<noteq> C_OK then Some (sv, c, k, r, n)
         else do {
           ensure (reply c = [] \<longrightarrow> reply_bytes c = 0);
           Some (sv, c, k, C_OK, n) }) }
      else if outbuf c \<noteq> [] then do {
        ensure (sentlen c \<le> bufpos c);
        let (k, n) = connWrite k (drop (sentlen c) (outbuf c));
        (if n \<le> 0 then Some (sv, c, k, C_ERR, n)
         else (let c = c\<lparr>sentlen := sentlen c + nat n\<rparr> in
           Some (sv, if sentlen c = bufpos c then c\<lparr>outbuf := [], sentlen := 0\<rparr> else c, k, C_OK, n))) }
      else Some (sv, c, k, C_OK, 0))"

text \<open>The loop of \<open>writeToClient\<close>; not returning is \<open>None\<close>.\<close>

partial_function (option) write_loop :: "server \<Rightarrow> client \<Rightarrow> sock \<Rightarrow> int \<Rightarrow> int
    \<Rightarrow> (server \<times> client \<times> sock \<times> int \<times> int) option" where
  "write_loop sv c k nwritten totwritten =
     Option.bind (clientHasPendingReplies sv c) (\<lambda>pending.
       if \<not> pending then Some (sv, c, k, nwritten, totwritten)
       else Option.bind (writeToClient_once sv c k) (\<lambda>(sv, c, k, r, n).
         if r = C_ERR then Some (sv, c, k, n, totwritten)
         else if int NET_MAX_WRITES_PER_EVENT < totwritten + n \<and>
                 (maxmemory sv = 0 \<or> used_memory sv < maxmemory sv) \<and> \<not> has_flag c CLIENT_SLAVE
         then Some (sv, c, k, n, totwritten + n)
         else write_loop sv c k n (totwritten + n)))"

definition writeToClient :: "server \<Rightarrow> client \<Rightarrow> sock \<Rightarrow> bool \<Rightarrow> (server \<times> client \<times> sock \<times> result) option" where
  "writeToClient sv c k handler_installed = do {
     let sv = sv\<lparr>stat_total_writes_processed := stat_total_writes_processed sv + 1\<rparr>;
     (sv, c, k, nwritten, totwritten) \<leftarrow> write_loop sv c k 0 0;
     let sv = (if getClientType c = CLIENT_TYPE_SLAVE
               then sv\<lparr>stat_net_repl_output_bytes := stat_net_repl_output_bytes sv + nat totwritten\<rparr>
               else sv\<lparr>stat_net_output_bytes := stat_net_output_bytes sv + nat totwritten\<rparr>);
     (if nwritten = - 1 \<and> \<not> connected k
      then (let (sv, c) = freeClientAsync sv c in Some (sv, c, k, C_ERR))
      else do {
        let c = (if 0 < totwritten \<and> \<not> has_flag c CLIENT_MASTER then c\<lparr>lastinteraction := unixtime sv\<rparr> else c);
        pending \<leftarrow> clientHasPendingReplies sv c;
        (if pending then Some (sv, c, k, C_OK)
         else do {
           let c = c\<lparr>sentlen := 0\<rparr>;
           ensure (handler_installed \<longrightarrow> io_threads_op_idle sv);
           (if has_flag c CLIENT_CLOSE_AFTER_REPLY
            then (let (sv, c) = freeClientAsync sv c in Some (sv, c, k, C_ERR))
            else Some (sv, c, k, C_OK)) }) }) }"

text \<open>The write handler of the event loop: the call of \<open>writeToClient\<close> in it is commented out.\<close>

definition sendReplyToClient :: "server \<Rightarrow> client \<Rightarrow> sock \<Rightarrow> server \<times> client \<times> sock" where
  "sendReplyToClient sv c k = (sv, c, k)"

end
