(* ===== verification/Reply.thy ===== *)
theory Reply
  imports Client
begin

text \<open>
  The output side of \<open>Client\<close> is right: queued replies are neither lost nor reordered, every store stays
  inside its buffer, and what the socket accepts is exactly a prefix of what was queued.
\<close>

subsection \<open>The queued output\<close>

definition block_ok :: "clientReplyBlock option \<Rightarrow> bool" where
  "block_ok b \<longleftrightarrow> (case b of None \<Rightarrow> False | Some x \<Rightarrow> length (bdata x) \<le> bsize x)"

definition block_bytes :: "clientReplyBlock option \<Rightarrow> byte list" where
  "block_bytes b = (case b of None \<Rightarrow> [] | Some x \<Rightarrow> bdata x)"

definition block_size :: "clientReplyBlock option \<Rightarrow> nat" where
  "block_size b = (case b of None \<Rightarrow> 0 | Some x \<Rightarrow> bsize x)"

definition queued :: "client \<Rightarrow> byte list" where
  "queued c = outbuf c @ concat (map block_bytes (reply c))"

definition pending :: "client \<Rightarrow> byte list" where
  "pending c = drop (sentlen c) (queued c)"

text \<open>\<open>sentlen\<close> counts in the static buffer while it is not empty, else in the first block.\<close>

definition sent_ok :: "client \<Rightarrow> bool" where
  "sent_ok c \<longleftrightarrow> (if outbuf c \<noteq> [] then sentlen c < bufpos c
     else if reply c \<noteq> [] then sentlen c \<le> length (block_bytes (hd (reply c))) else sentlen c = 0)"

definition reply_ok :: "client \<Rightarrow> bool" where
  "reply_ok c \<longleftrightarrow> list_all block_ok (reply c) \<and> bufpos c \<le> buf_usable_size c \<and> sent_ok c \<and>
     reply_bytes c = sum_list (map block_size (reply c)) \<and> reply_bytes c < 2 ^ 63"

lemma block_simps [simp]:
  "block_bytes (Some b) = bdata b" "block_bytes None = []" "block_size (Some b) = bsize b" "block_size None = 0"
  "block_ok (Some b) = (length (bdata b) \<le> bsize b)" "\<not> block_ok None"
  by (simp_all add: block_bytes_def block_size_def block_ok_def)

text \<open>An ordinary client: connected, neither master nor replica, with replies switched on.\<close>

definition ordinary :: "client \<Rightarrow> bool" where
  "ordinary c \<longleftrightarrow> has_conn c \<and> flags c \<inter> {CLIENT_SLAVE, CLIENT_MASTER, CLIENT_SCRIPT, CLIENT_MODULE,
     CLIENT_REPLY_OFF, CLIENT_REPLY_SKIP, CLIENT_CLOSE_AFTER_REPLY} = {}"

lemma ordinary_type: "ordinary c \<Longrightarrow> getClientType c \<noteq> CLIENT_TYPE_SLAVE \<and> getClientType c \<noteq> CLIENT_TYPE_MASTER"
  by (auto simp: ordinary_def getClientType_def has_flag_def)

text \<open>What queueing output leaves alone.\<close>

definition same_request :: "client \<Rightarrow> client \<Rightarrow> bool" where
  "same_request c c' \<longleftrightarrow> cid c' = cid c \<and> has_conn c' = has_conn c \<and> resp c' = resp c \<and> querybuf c' = querybuf c \<and>
     qb_pos c' = qb_pos c \<and> argv c' = argv c \<and> argv_len c' = argv_len c \<and> argv_len_sum c' = argv_len_sum c \<and>
     reqtype c' = reqtype c \<and> multibulklen c' = multibulklen c \<and> bulklen c' = bulklen c \<and>
     authenticated c' = authenticated c \<and> buf_usable_size c' = buf_usable_size c \<and>
     flags c' - {CLIENT_CLOSE_ASAP, CLIENT_PENDING_WRITE} = flags c - {CLIENT_CLOSE_ASAP, CLIENT_PENDING_WRITE}"

lemma same_request_refl [simp]: "same_request c c"
  by (simp add: same_request_def)

lemma same_request_trans: "same_request a b \<Longrightarrow> same_request b c \<Longrightarrow> same_request a c"
  by (simp add: same_request_def)

lemma same_request_flag:
  "same_request c c' \<Longrightarrow> f \<notin> {CLIENT_CLOSE_ASAP, CLIENT_PENDING_WRITE} \<Longrightarrow> f \<in> flags c' \<longleftrightarrow> f \<in> flags c"
  unfolding same_request_def by blast

lemma same_request_ordinary: "same_request c c' \<Longrightarrow> ordinary c' = ordinary c"
  using same_request_flag [of c c'] by (auto simp: ordinary_def same_request_def)

subsection \<open>Scheduling and limits keep the queue\<close>

definition same_queue :: "client \<Rightarrow> client \<Rightarrow> bool" where
  "same_queue c c' \<longleftrightarrow> outbuf c' = outbuf c \<and> reply c' = reply c \<and> sentlen c' = sentlen c \<and>
     reply_bytes c' = reply_bytes c \<and> buf_usable_size c' = buf_usable_size c"

lemma same_queue_refl [simp]: "same_queue c c"
  by (simp add: same_queue_def)

lemma same_queue_ok: "same_queue c c' \<Longrightarrow> reply_ok c' = reply_ok c \<and> pending c' = pending c \<and> queued c' = queued c"
  by (simp add: same_queue_def reply_ok_def pending_def queued_def sent_ok_def)

text \<open>What serving a client changes of the server: the two queues of clients and the counters of its input.\<close>

definition same_config :: "server \<Rightarrow> server \<Rightarrow> bool" where
  "same_config sv sv' \<longleftrightarrow> sv'\<lparr>clients_pending_write := clients_pending_write sv, clients_to_close := clients_to_close sv,
     stat_total_reads_processed := stat_total_reads_processed sv, stat_net_input_bytes := stat_net_input_bytes sv\<rparr> = sv"

lemma same_config_refl [simp]: "same_config sv sv"
  by (simp add: same_config_def)

lemma same_config_trans: "same_config a b \<Longrightarrow> same_config b c \<Longrightarrow> same_config a c"
  by (cases a; cases b; cases c) (simp add: same_config_def)

lemma freeClientAsync_keeps:
  assumes "freeClientAsync sv c = (sv', c')"
  shows "same_queue c c' \<and> same_request c c' \<and> same_config sv sv'"
  using assms by (auto simp: same_config_def freeClientAsync_def set_flag_def same_queue_def same_request_def split: if_splits)

lemma limits_keep:
  assumes "ordinary c" "reply_bytes c < 2 ^ 63"
  shows "\<exists>sv' c'. closeClientOnOutputBufferLimitReached sv c = Some (sv', c') \<and> same_queue c c' \<and> same_request c c' \<and> same_config sv sv'"
proof -
  have t: "getClientType c \<noteq> CLIENT_TYPE_SLAVE" using ordinary_type [OF assms(1)] by simp
  have "\<exists>c1 l. checkClientOutputBufferLimits sv c = Some (c1, l) \<and> same_queue c c1 \<and> same_request c c1"
    using t unfolding checkClientOutputBufferLimits_def getClientOutputBufferMemoryUsage_def Let_def
    by (simp add: same_queue_def same_request_def)
  then obtain c1 l where c1: "checkClientOutputBufferLimits sv c = Some (c1, l)" "same_queue c c1 \<and> same_request c c1"
    by blast
  obtain sv2 c2 where f: "freeClientAsync sv c1 = (sv2, c2)" by fastforce
  have "same_queue c c2 \<and> same_request c c2 \<and> same_config sv sv2"
    using freeClientAsync_keeps [OF f] c1(2) same_request_trans by (auto simp: same_queue_def)
  then show ?thesis
    using assms c1 f by (auto simp: closeClientOnOutputBufferLimitReached_def)
qed

lemma prepare_keeps:
  assumes "ordinary c"
  shows "\<exists>sv' c'. prepareClientToWrite sv c = Some (sv', c', if has_flag c CLIENT_CLOSE_ASAP then C_ERR else C_OK) \<and>
     same_queue c c' \<and> same_request c c' \<and> has_flag c' CLIENT_CLOSE_ASAP = has_flag c CLIENT_CLOSE_ASAP \<and> same_config sv sv'"
proof -
  have "getClientType c \<noteq> CLIENT_TYPE_SLAVE" using ordinary_type [OF assms] by simp
  then show ?thesis using assms
    by (auto simp: prepareClientToWrite_def ordinary_def has_flag_def clientHasPendingReplies_def Let_def
        putClientInPendingWriteQueue_def set_flag_def same_queue_def same_request_def same_config_def)
qed


subsection \<open>Queueing appends\<close>

lemma sent_le: "reply_ok c \<Longrightarrow> sentlen c \<le> length (queued c)"
  by (cases "reply c") (auto simp: reply_ok_def sent_ok_def queued_def split: if_splits)

lemma pending_append:
  "reply_ok c \<Longrightarrow> queued c' = queued c @ s \<Longrightarrow> sentlen c' = sentlen c \<Longrightarrow> pending c' = pending c @ s"
  using sent_le [of c] by (simp add: pending_def)

lemma buffer_ok:
  assumes "reply_ok c"
  shows "\<exists>c' n. addReplyToBuffer c s = Some (c', n) \<and> n \<le> length s \<and> reply_ok c' \<and> same_request c c' \<and>
     reply_bytes c' = reply_bytes c \<and> pending c' = pending c @ take n s \<and> flags c' = flags c"
proof (cases "reply c = []")
  case False
  then show ?thesis using assms by (auto simp: addReplyToBuffer_def)
next
  case True
  define n where "n = (if buf_usable_size c - bufpos c < length s then buf_usable_size c - bufpos c else length s)"
  let ?c = "c\<lparr>outbuf := outbuf c @ take n s\<rparr>"
  let ?c' = "if buf_peak ?c < bufpos ?c then ?c\<lparr>buf_peak := bufpos ?c\<rparr> else ?c"
  have room: "bufpos c \<le> buf_usable_size c" using assms by (simp add: reply_ok_def)
  then have n: "bufpos c + n \<le> buf_usable_size c" "n \<le> length s" by (auto simp: n_def)
  have eq: "addReplyToBuffer c s = Some (?c', n)"
    unfolding addReplyToBuffer_def Let_def n_def [symmetric] using True n by simp
  have ok: "reply_ok ?c'"
    using assms True n by (auto simp: reply_ok_def sent_ok_def split: if_splits)
  moreover have "pending ?c' = pending c @ take n s"
    using True by (intro pending_append [OF assms]) (simp_all add: queued_def)
  ultimately show ?thesis using eq n(2) by (auto simp: same_request_def)
qed

definition block_room :: "byte list \<Rightarrow> nat" where
  "block_room s = 2 * (length s + 16400)"

lemma new_block:
  assumes "usable_ok usable" "length s \<le> sz"
  shows "\<exists>b. block_append \<lparr>bsize = usable (sz + REPLY_BLOCK_HDR) - REPLY_BLOCK_HDR, bdata = []\<rparr> s = Some b \<and>
     bdata b = s \<and> sz \<le> bsize b \<and> bsize b \<le> 2 * sz + 16"
proof -
  have "sz + REPLY_BLOCK_HDR \<le> usable (sz + REPLY_BLOCK_HDR)" "usable (sz + REPLY_BLOCK_HDR) \<le> 2 * (sz + REPLY_BLOCK_HDR)"
    using assms(1) unfolding usable_ok_def by blast+
  then show ?thesis using assms(2)
    by (intro exI [of _ "\<lparr>bsize = usable (sz + REPLY_BLOCK_HDR) - REPLY_BLOCK_HDR, bdata = s\<rparr>"])
      (auto simp: block_append_def REPLY_BLOCK_HDR_def ensure_def)
qed

lemma add_block_ok:
  assumes "ordinary c" "reply_ok c" "usable_ok usable" "length s \<le> sz" "reply_bytes c + 2 * sz + 16 < 2 ^ 63"
  shows "\<exists>b sv' c'. block_append \<lparr>bsize = usable (sz + REPLY_BLOCK_HDR) - REPLY_BLOCK_HDR, bdata = []\<rparr> s = Some b \<and>
     closeClientOnOutputBufferLimitReached sv
       (c\<lparr>reply := reply c @ [Some b], reply_bytes := (reply_bytes c + bsize b) mod 2 ^ 64\<rparr>) = Some (sv', c') \<and>
     reply_ok c' \<and> same_request c c' \<and> same_config sv sv' \<and> reply_bytes c' \<le> reply_bytes c + 2 * sz + 16 \<and> pending c' = pending c @ s"
proof -
  obtain b where b: "block_append \<lparr>bsize = usable (sz + REPLY_BLOCK_HDR) - REPLY_BLOCK_HDR, bdata = []\<rparr> s = Some b"
    "bdata b = s" "sz \<le> bsize b" "bsize b \<le> 2 * sz + 16"
    using new_block [OF assms(3,4)] by blast
  let ?rb = "(reply_bytes c + bsize b) mod 2 ^ 64"
  have rb: "?rb = reply_bytes c + bsize b" using b(4) assms(5) by (intro mod_less) simp
  let ?c = "c\<lparr>reply := reply c @ [Some b], reply_bytes := ?rb\<rparr>"
  have "sent_ok c" using assms(2) by (simp add: reply_ok_def)
  then have "sent_ok ?c" by (auto simp: sent_ok_def split: if_splits)
  then have ok: "reply_ok ?c" using assms(2,4,5) b(2,3,4) unfolding reply_ok_def rb by simp
  have p: "pending ?c = pending c @ s" using b(2) by (intro pending_append [OF assms(2)]) (simp_all add: queued_def)
  have r: "same_request c ?c" by (simp add: same_request_def)
  obtain sv' c' where c': "closeClientOnOutputBufferLimitReached sv ?c = Some (sv', c')" "same_queue ?c c'" "same_request ?c c'" "same_config sv sv'"
    using limits_keep [of ?c sv] assms(1) ok same_request_ordinary [OF r] by (auto simp: reply_ok_def)
  have "reply_bytes c' = reply_bytes c + bsize b" using c'(2) rb by (simp add: same_queue_def)
  then have "reply_bytes c' \<le> reply_bytes c + 2 * sz + 16" using b(4) by simp
  moreover have "reply_ok c'" "pending c' = pending c @ s" using same_queue_ok [OF c'(2)] ok p by simp_all
  ultimately show ?thesis using b(1) c'(1,4) same_request_trans [OF r c'(3)] by blast
qed

lemma tail_append_ok:
  assumes "reply_ok c" "reply c \<noteq> []" "last (reply c) = Some b" "n \<le> bsize b - length (bdata b)"
  shows "\<exists>b'. block_append b (take n s) = Some b' \<and>
     reply_ok (c\<lparr>reply := butlast (reply c) @ [Some b']\<rparr>) \<and>
     pending (c\<lparr>reply := butlast (reply c) @ [Some b']\<rparr>) = pending c @ take n s"
proof -
  obtain bl where r: "reply c = bl @ [Some b]" using assms(2,3) by (metis append_butlast_last_id)
  have s: "sent_ok c" "list_all block_ok bl" "length (bdata b) \<le> bsize b" "bufpos c \<le> buf_usable_size c"
    "reply_bytes c = sum_list (map block_size bl) + bsize b" "reply_bytes c < 2 ^ 63"
    using assms(1) by (simp_all add: reply_ok_def r)
  have len: "length (bdata b) + length (take n s) \<le> bsize b" using assms(4) s(3) by simp
  let ?b = "b\<lparr>bdata := bdata b @ take n s\<rparr>"
  let ?c = "c\<lparr>reply := bl @ [Some ?b]\<rparr>"
  have "sent_ok ?c" using s(1) by (cases bl) (auto simp: sent_ok_def r split: if_splits)
  then have "reply_ok ?c" using s len unfolding reply_ok_def by simp
  moreover have "pending ?c = pending c @ take n s"
    by (intro pending_append [OF assms(1)]) (simp_all add: queued_def r)
  moreover have "block_append b (take n s) = Some ?b" using len by (simp add: block_append_def)
  ultimately show ?thesis by (simp add: r)
qed

lemma list_ok:
  assumes "ordinary c" "reply_ok c" "usable_ok usable" "reply_bytes c + block_room s < 2 ^ 63"
  shows "\<exists>sv' c'. addReplyProtoToList usable sv c s = Some (sv', c') \<and> reply_ok c' \<and> same_request c c' \<and> same_config sv sv' \<and>
     reply_bytes c' \<le> reply_bytes c + block_room s \<and> pending c' = pending c @ s"
proof -
  have rest: "\<exists>sv' c'. (if s2 \<noteq> [] then do {
        let size = (if length s2 < PROTO_REPLY_CHUNK_BYTES then PROTO_REPLY_CHUNK_BYTES else length s2);
        let b = \<lparr>bsize = usable (size + REPLY_BLOCK_HDR) - REPLY_BLOCK_HDR, bdata = []\<rparr>;
        b \<leftarrow> block_append b s2;
        closeClientOnOutputBufferLimitReached sv
          (c2\<lparr>reply := reply c2 @ [Some b], reply_bytes := (reply_bytes c2 + bsize b) mod 2 ^ 64\<rparr>) }
      else Some (sv, c2)) = Some (sv', c') \<and> reply_ok c' \<and> same_request c2 c' \<and> same_config sv sv' \<and>
     reply_bytes c' \<le> reply_bytes c2 + block_room s \<and> pending c' = pending c2 @ s2"
    if "ordinary c2" "reply_ok c2" "reply_bytes c2 = reply_bytes c" "length s2 \<le> length s" for c2 s2
  proof (cases "s2 = []")
    case True
    then show ?thesis using that by simp
  next
    case False
    let ?size = "if length s2 < PROTO_REPLY_CHUNK_BYTES then PROTO_REPLY_CHUNK_BYTES else length s2"
    have sz: "length s2 \<le> ?size" "2 * ?size + 16 \<le> block_room s"
      using that(4) by (auto simp: PROTO_REPLY_CHUNK_BYTES_def block_room_def)
    have "reply_bytes c2 + 2 * ?size + 16 < 2 ^ 63" using sz(2) that(3) assms(4) by linarith
    from add_block_ok [OF that(1,2) assms(3) sz(1) this, of sv] sz(2) False show ?thesis
      unfolding Let_def by fastforce
  qed
  show ?thesis
  proof (cases "if reply c = [] then None else last (reply c)")
    case None
    then show ?thesis using rest [of c s] assms(1,2) unfolding addReplyProtoToList_def Let_def None by simp
  next
    case (Some b)
    let ?n = "if length s \<le> bsize b - length (bdata b) then length s else bsize b - length (bdata b)"
    have l: "reply c \<noteq> []" "last (reply c) = Some b" using Some by (auto split: if_splits)
    have "?n \<le> bsize b - length (bdata b)" by simp
    from tail_append_ok [OF assms(2) l this] obtain b' where b': "block_append b (take ?n s) = Some b'"
      "reply_ok (c\<lparr>reply := butlast (reply c) @ [Some b']\<rparr>)"
      "pending (c\<lparr>reply := butlast (reply c) @ [Some b']\<rparr>) = pending c @ take ?n s"
      by blast
    let ?c = "c\<lparr>reply := butlast (reply c) @ [Some b']\<rparr>"
    have r: "same_request c ?c" by (simp add: same_request_def)
    have o: "ordinary ?c" using same_request_ordinary [OF r] assms(1) by simp
    obtain sv' c' where f: "addReplyProtoToList usable sv c s = Some (sv', c')" "reply_ok c'" "same_request ?c c'" "same_config sv sv'"
      "reply_bytes c' \<le> reply_bytes ?c + block_room s" "pending c' = pending ?c @ drop ?n s"
      using rest [OF o b'(2), of "drop ?n s"] b'(1) unfolding addReplyProtoToList_def Let_def Some by auto
    then show ?thesis using b'(3) same_request_trans [OF r f(3)] by simp
  qed
qed

subsection \<open>Output functions as emitters\<close>

text \<open>An emitter queues its text behind everything queued before, at a cost of at most \<open>n\<close> reply bytes. Once
  the client is to be closed, for its output limit, the rest is dropped.\<close>

definition emits :: "(server \<Rightarrow> client \<Rightarrow> (server \<times> client) option) \<Rightarrow> byte list \<Rightarrow> nat \<Rightarrow> bool" where
  "emits f s n \<longleftrightarrow> (\<forall>sv c. ordinary c \<and> reply_ok c \<and> reply_bytes c + n < 2 ^ 63 \<longrightarrow>
     (\<exists>sv' c' p. f sv c = Some (sv', c') \<and> reply_ok c' \<and> same_request c c' \<and> same_config sv sv' \<and> reply_bytes c' \<le> reply_bytes c + n \<and>
        pending c' = pending c @ p \<and> prefix p s \<and>
        (if has_flag c CLIENT_CLOSE_ASAP then p = [] \<and> has_flag c' CLIENT_CLOSE_ASAP
         else has_flag c' CLIENT_CLOSE_ASAP \<or> p = s)))"

lemma emitsE:
  assumes "emits f s n" "ordinary c" "reply_ok c" "reply_bytes c + n < 2 ^ 63"
  obtains sv' c' p where "f sv c = Some (sv', c')" "reply_ok c'" "same_request c c'" "same_config sv sv'" "reply_bytes c' \<le> reply_bytes c + n"
    "pending c' = pending c @ p" "prefix p s"
    "if has_flag c CLIENT_CLOSE_ASAP then p = [] \<and> has_flag c' CLIENT_CLOSE_ASAP else has_flag c' CLIENT_CLOSE_ASAP \<or> p = s"
  using assms unfolding emits_def by blast

lemma emits_comp:
  assumes "emits f s n" "emits g t m"
  shows "emits (\<lambda>sv c. f sv c \<bind> (\<lambda>(sv, c). g sv c)) (s @ t) (n + m)"
  unfolding emits_def
proof (intro allI impI)
  fix sv c
  assume a: "ordinary c \<and> reply_ok c \<and> reply_bytes c + (n + m) < 2 ^ 63"
  then have "reply_bytes c + n < 2 ^ 63" by simp
  from emitsE [OF assms(1) _ _ this, of sv] a obtain sv1 c1 p where
    1: "f sv c = Some (sv1, c1)" "reply_ok c1" "same_request c c1" "same_config sv sv1" "reply_bytes c1 \<le> reply_bytes c + n"
      "pending c1 = pending c @ p" "prefix p s"
      "if has_flag c CLIENT_CLOSE_ASAP then p = [] \<and> has_flag c1 CLIENT_CLOSE_ASAP else has_flag c1 CLIENT_CLOSE_ASAP \<or> p = s"
    by blast
  have o: "ordinary c1" using same_request_ordinary [OF 1(3)] a by simp
  have "reply_bytes c1 + m < 2 ^ 63" using 1(5) a by linarith
  from emitsE [OF assms(2) o 1(2) this, of sv1] obtain sv2 c2 q where
    2: "g sv1 c1 = Some (sv2, c2)" "reply_ok c2" "same_request c1 c2" "same_config sv1 sv2" "reply_bytes c2 \<le> reply_bytes c1 + m"
      "pending c2 = pending c1 @ q" "prefix q t"
      "if has_flag c1 CLIENT_CLOSE_ASAP then q = [] \<and> has_flag c2 CLIENT_CLOSE_ASAP else has_flag c2 CLIENT_CLOSE_ASAP \<or> q = t"
    by blast
  have pq: "prefix (p @ q) (s @ t)"
    using 1(7,8) 2(7,8) by (auto split: if_splits simp: prefix_append intro: prefix_prefix)
  have fl: "if has_flag c CLIENT_CLOSE_ASAP then p @ q = [] \<and> has_flag c2 CLIENT_CLOSE_ASAP
      else has_flag c2 CLIENT_CLOSE_ASAP \<or> p @ q = s @ t"
    using 1(8) 2(8) by (auto split: if_splits)
  have rb: "reply_bytes c2 \<le> reply_bytes c + (n + m)" using 1(5) 2(5) by linarith
  show "\<exists>sv' c' p. f sv c \<bind> (\<lambda>(sv, c). g sv c) = Some (sv', c') \<and> reply_ok c' \<and> same_request c c' \<and> same_config sv sv' \<and>
      reply_bytes c' \<le> reply_bytes c + (n + m) \<and> pending c' = pending c @ p \<and> prefix p (s @ t) \<and>
      (if has_flag c CLIENT_CLOSE_ASAP then p = [] \<and> has_flag c' CLIENT_CLOSE_ASAP
       else has_flag c' CLIENT_CLOSE_ASAP \<or> p = s @ t)"
    using 1(1,6) 2(1,2,6) same_request_trans [OF 1(3) 2(3)] same_config_trans [OF 1(4) 2(4)] rb pq fl
    by (intro exI [of _ sv2] exI [of _ c2] exI [of _ "p @ q"]) simp
qed

lemma emits_weaken:
  assumes "emits f s n" "n \<le> m"
  shows "emits f s m"
  unfolding emits_def
proof (intro allI impI)
  fix sv c
  assume a: "ordinary c \<and> reply_ok c \<and> reply_bytes c + m < 2 ^ 63"
  then have "reply_bytes c + n < 2 ^ 63" using assms(2) by linarith
  from emitsE [OF assms(1) _ _ this, of sv] a obtain sv1 c1 p where
    1: "f sv c = Some (sv1, c1)" "reply_ok c1" "same_request c c1" "same_config sv sv1" "reply_bytes c1 \<le> reply_bytes c + n"
      "pending c1 = pending c @ p" "prefix p s"
      "if has_flag c CLIENT_CLOSE_ASAP then p = [] \<and> has_flag c1 CLIENT_CLOSE_ASAP else has_flag c1 CLIENT_CLOSE_ASAP \<or> p = s"
    by blast
  moreover have "reply_bytes c1 \<le> reply_bytes c + m" using 1(5) assms(2) by linarith
  ultimately show "\<exists>sv' c' p. f sv c = Some (sv', c') \<and> reply_ok c' \<and> same_request c c' \<and> same_config sv sv' \<and>
      reply_bytes c' \<le> reply_bytes c + m \<and> pending c' = pending c @ p \<and> prefix p s \<and>
      (if has_flag c CLIENT_CLOSE_ASAP then p = [] \<and> has_flag c' CLIENT_CLOSE_ASAP
       else has_flag c' CLIENT_CLOSE_ASAP \<or> p = s)"
    by blast
qed

lemma emits_nil: "emits (\<lambda>sv c. Some (sv, c)) [] 0"
  by (simp add: emits_def)

lemma emits_proto:
  assumes "usable_ok usable"
  shows "emits (\<lambda>sv c. addReplyProto usable sv c s) s (block_room s)"
  unfolding emits_def
proof (intro allI impI)
  fix sv c
  assume a: "ordinary c \<and> reply_ok c \<and> reply_bytes c + block_room s < 2 ^ 63"
  obtain sv1 c1 where p: "prepareClientToWrite sv c = Some (sv1, c1, if has_flag c CLIENT_CLOSE_ASAP then C_ERR else C_OK)"
    "same_queue c c1" "same_request c c1" "has_flag c1 CLIENT_CLOSE_ASAP = has_flag c CLIENT_CLOSE_ASAP"
    "same_config sv sv1"
    using prepare_keeps [of c sv] a by blast
  have ok: "reply_ok c1" "pending c1 = pending c" "ordinary c1" "reply_bytes c1 = reply_bytes c"
    using same_queue_ok [OF p(2)] same_request_ordinary [OF p(3)] a p(2) by (simp_all add: same_queue_def)
  show "\<exists>sv' c' p. addReplyProto usable sv c s = Some (sv', c') \<and> reply_ok c' \<and> same_request c c' \<and> same_config sv sv' \<and>
      reply_bytes c' \<le> reply_bytes c + block_room s \<and> pending c' = pending c @ p \<and> prefix p s \<and>
      (if has_flag c CLIENT_CLOSE_ASAP then p = [] \<and> has_flag c' CLIENT_CLOSE_ASAP
       else has_flag c' CLIENT_CLOSE_ASAP \<or> p = s)"
  proof (cases "has_flag c CLIENT_CLOSE_ASAP")
    case True
    then show ?thesis using p ok by (simp add: addReplyProto_def)
  next
    case False
    obtain c2 n where b: "addReplyToBuffer c1 s = Some (c2, n)" "n \<le> length s" "reply_ok c2" "same_request c1 c2"
      "reply_bytes c2 = reply_bytes c1" "pending c2 = pending c1 @ take n s" using buffer_ok [OF ok(1), of s] by blast
    have o2: "ordinary c2" using same_request_ordinary [OF b(4)] ok(3) by simp
    have nf: "\<not> has_flag c1 CLIENT_CLOSE_AFTER_REPLY" "getClientType c1 \<noteq> CLIENT_TYPE_SLAVE"
      using ok(3) ordinary_type [OF ok(3)] by (auto simp: ordinary_def has_flag_def)
    have br: "block_room (drop n s) \<le> block_room s" by (simp add: block_room_def)
    have rb: "reply_bytes c2 + block_room (drop n s) < 2 ^ 63" using a b(5) ok(4) br by linarith
    obtain sv3 c3 where l: "addReplyProtoToList usable sv1 c2 (drop n s) = Some (sv3, c3)" "reply_ok c3" "same_request c2 c3" "same_config sv1 sv3"
      "reply_bytes c3 \<le> reply_bytes c2 + block_room (drop n s)" "pending c3 = pending c2 @ drop n s"
      using list_ok [OF o2 b(3) assms rb, of sv1] by blast
    let ?r = "if n < length s then (sv3, c3) else (sv1, c2)"
    have eq: "addReplyProto usable sv c s = Some ?r"
      using False p(1) nf b(1) l(1) by (simp add: addReplyProto_def addReplyToBufferOrList_def)
    have "reply_bytes c3 \<le> reply_bytes c + block_room s" using l(5) b(5) ok(4) br by linarith
    moreover have "same_request c c3" "same_request c c2"
      using same_request_trans [OF p(3) b(4)] same_request_trans [OF _ l(3)] by blast+
    ultimately show ?thesis
      using eq l b ok False p(5) same_config_trans [OF p(5) l(4)] by (cases "n < length s") auto
  qed
qed


subsection \<open>The replies of the protocol\<close>

lemma decimal_len1: "0 \<le> ll \<Longrightarrow> ll < 10 \<Longrightarrow> length (sdsll2str ll) = 1"
  by (simp add: ll2str_decimal LLONG_MIN_def LLONG_MAX_def decimal_small)

lemma decimal_len2: "10 \<le> ll \<Longrightarrow> ll < 32 \<Longrightarrow> length (sdsll2str ll) = 2"
  by (simp add: ll2str_decimal LLONG_MIN_def LLONG_MAX_def decimal_two)

lemma shared_hdr_read:
  "0 \<le> ll \<Longrightarrow> ll < OBJ_SHARED_BULKHDR_LEN \<Longrightarrow>
     read_at (shared_hdr pfx ll) 0 (OBJ_SHARED_HDR_STRLEN ll) = Some (shared_hdr pfx ll)"
  using decimal_len1 [of ll] decimal_len2 [of ll]
  by (auto simp: read_at_def shared_hdr_def OBJ_SHARED_HDR_STRLEN_def OBJ_SHARED_BULKHDR_LEN_def CRLF_def)

lemma ll2string_room:
  assumes "LLONG_MIN \<le> ll" "ll \<le> LLONG_MAX" "22 \<le> n"
  shows "\<exists>b. ll2string (replicate n 0) n ll = Some (b, length (sdsll2str ll)) \<and> length b = n \<and>
     take (length (sdsll2str ll)) b = sdsll2str ll"
proof -
  let ?s = "sdsll2str ll" and ?m = "replicate n (0 :: byte)"
  have l: "length ?s < 21" using sdsll2str_length [OF assms(1,2)] by (simp add: SDS_LLSTR_SIZE_def)
  show ?thesis
  proof (cases "ll < 0")
    case True
    let ?d = "decimal (nat (- ll))"
    have s: "?s = 45 # ?d" "nat (- ll) < 2 ^ 64" "(if ll \<noteq> LLONG_MIN then nat (- ll) else nat (LLONG_MAX + 1)) = nat (- ll)"
      using ll2str_decimal [OF assms(1,2)] True assms(1) by (simp_all add: LLONG_MIN_def LLONG_MAX_def)
    have "ull2string (?m[0 := 45]) 1 (n - 1) (nat (- ll)) =
        Some (take 1 (?m[0 := 45]) @ ?d @ 0 # drop (1 + length ?d + 1) (?m[0 := 45]), length ?d)"
      using l s(1,2) assms(3) by (intro ull2string_ok) auto
    moreover have "take 1 (?m[0 := 45]) = [45]" using assms(3) by (cases n) simp_all
    ultimately show ?thesis using True s assms(3) l by (simp add: ll2string_def Let_def)
  next
    case False
    have s: "?s = decimal (nat ll)" "nat ll < 2 ^ 64"
      using ll2str_decimal [OF assms(1,2)] False assms(2) by (simp_all add: LLONG_MAX_def)
    have "ull2string ?m 0 n (nat ll) =
        Some (take 0 ?m @ decimal (nat ll) @ 0 # drop (0 + length (decimal (nat ll)) + 1) ?m, length (decimal (nat ll)))"
      using l s assms(3) by (intro ull2string_ok) auto
    then show ?thesis using False s assms(3) l by (simp add: ll2string_def)
  qed
qed

lemma longlong_proto:
  assumes "LLONG_MIN \<le> ll" "ll \<le> LLONG_MAX"
  shows "addReplyLongLongWithPrefix usable sv c ll pfx = addReplyProto usable sv c (pfx # sdsll2str ll @ CRLF)"
proof (cases "(pfx = 42 \<or> pfx = 36 \<or> pfx = 37 \<or> pfx = 126) \<and> ll < OBJ_SHARED_BULKHDR_LEN \<and> 0 \<le> ll")
  case True
  then show ?thesis using shared_hdr_read [of ll pfx]
    by (simp add: addReplyLongLongWithPrefix_def shared_hdr_def)
next
  case False
  let ?s = "sdsll2str ll"
  obtain b where b: "ll2string (replicate 127 0) 127 ll = Some (b, length ?s)" "length b = 127" "take (length ?s) b = ?s"
    using ll2string_room [OF assms, of 127] by auto
  have l: "length ?s < 21" using sdsll2str_length [OF assms] by (simp add: SDS_LLSTR_SIZE_def)
  let ?b = "b[length ?s := 13, length ?s + 1 := 10]"
  have "take (length ?s + 2) ?b = ?s @ CRLF"
    using b(2,3) l by (simp add: take_Suc_conv_app_nth CRLF_def numeral_2_eq_2 take_update_cancel)
  then have "read_at (pfx # ?b) 0 (length ?s + 3) = Some (pfx # ?s @ CRLF)"
    using b(2) l by (simp add: read_at_def numeral_3_eq_3 numeral_2_eq_2)
  then show ?thesis using b l unfolding addReplyLongLongWithPrefix_def if_not_P [OF False] by simp
qed

definition bulk_text :: "byte list \<Rightarrow> byte list" where
  "bulk_text p = 36 # sdsll2str (int (length p)) @ CRLF @ p @ CRLF"

definition array_text :: "nat \<Rightarrow> byte list" where
  "array_text n = 42 # sdsll2str (int n) @ CRLF"

lemma emits_array:
  assumes "usable_ok usable" "int n \<le> LLONG_MAX"
  shows "emits (\<lambda>sv c. addReplyArrayLen usable sv c (int n)) (array_text n) (block_room (array_text n))"
proof -
  have "addReplyArrayLen usable sv c (int n) = addReplyProto usable sv c (array_text n)" for sv c
    using longlong_proto [of "int n" usable sv c 42] assms(2)
    by (simp add: addReplyArrayLen_def addReplyAggregateLen_def array_text_def LLONG_MIN_def)
  then show ?thesis using emits_proto [OF assms(1)] by simp
qed

lemma emits_bulk:
  assumes "usable_ok usable" "int (length p) \<le> LLONG_MAX"
  shows "emits (\<lambda>sv c. addReplyBulkCBuffer usable sv c p) (bulk_text p) (3 * block_room (bulk_text p))"
proof -
  let ?h = "36 # sdsll2str (int (length p)) @ CRLF"
  have eq: "addReplyBulkCBuffer usable sv c p =
      addReplyProto usable sv c ?h \<bind> (\<lambda>(sv, c). addReplyProto usable sv c p \<bind> (\<lambda>(sv, c). addReplyProto usable sv c CRLF))" for sv c
    using longlong_proto [of "int (length p)"] assms(2) by (simp add: addReplyBulkCBuffer_def LLONG_MIN_def)
  have e: "emits (\<lambda>sv c. addReplyBulkCBuffer usable sv c p) (?h @ p @ CRLF) (block_room ?h + (block_room p + block_room CRLF))"
    unfolding eq by (intro emits_comp emits_proto assms(1))
  have b: "?h @ p @ CRLF = bulk_text p" by (simp add: bulk_text_def)
  have le: "block_room ?h + (block_room p + block_room CRLF) \<le> 3 * block_room (bulk_text p)"
    by (simp add: bulk_text_def block_room_def)
  show ?thesis using e le unfolding b by (rule emits_weaken)
qed

subsection \<open>Deferred lengths\<close>

abbreviation bytes_of :: "clientReplyBlock option list \<Rightarrow> byte list" where
  "bytes_of bs \<equiv> concat (map block_bytes bs)"

abbreviation size_of :: "clientReplyBlock option list \<Rightarrow> nat" where
  "size_of bs \<equiv> sum_list (map block_size bs)"

text \<open>A client whose only placeholder stands after the blocks \<open>pre\<close>.\<close>

definition deferred_ok :: "client \<Rightarrow> clientReplyBlock option list \<Rightarrow> clientReplyBlock option list \<Rightarrow> bool" where
  "deferred_ok c pre post \<longleftrightarrow> reply c = pre @ None # post \<and> list_all block_ok (pre @ post) \<and>
     bufpos c \<le> buf_usable_size c \<and> sent_ok c \<and> reply_bytes c = size_of (pre @ post) \<and> reply_bytes c < 2 ^ 63"

text \<open>The list after a step that may have filled the last block of \<open>pre\<close>.\<close>

definition grown :: "clientReplyBlock option list \<Rightarrow> clientReplyBlock option list \<Rightarrow> byte list \<Rightarrow> bool" where
  "grown pre pre1 s \<longleftrightarrow> bytes_of pre1 = bytes_of pre @ s \<and> list_all block_ok pre1 \<and> size_of pre1 = size_of pre \<and>
     length pre1 = length pre \<and> (pre \<noteq> [] \<longrightarrow> length (block_bytes (hd pre)) \<le> length (block_bytes (hd pre1)))"

lemma grown_sent:
  assumes "deferred_ok c pre post" "grown pre pre1 s" "outbuf c' = outbuf c" "sentlen c' = sentlen c" "reply c' = pre1 @ rest"
  shows "sent_ok c'"
proof (cases "pre = []")
  case True
  then have "outbuf c = [] \<Longrightarrow> sentlen c = 0" using assms(1) by (auto simp: deferred_ok_def sent_ok_def)
  then show ?thesis using assms by (auto simp: sent_ok_def deferred_ok_def)
next
  case False
  then obtain x xs where p1: "pre1 = x # xs" using assms(2) by (cases pre1) (auto simp: grown_def)
  have "outbuf c = [] \<Longrightarrow> sentlen c \<le> length (block_bytes (hd pre))"
    using assms(1) False by (auto simp: deferred_ok_def sent_ok_def)
  then show ?thesis using assms False p1 by (auto simp: sent_ok_def grown_def deferred_ok_def)
qed

lemma block_fill:
  assumes "length (bdata b) \<le> bsize b" "n \<le> bsize b - length (bdata b)" "n \<le> length s"
  shows "block_append b (take n s) = Some (b\<lparr>bdata := bdata b @ take n s\<rparr>)"
  using assms by (simp add: block_append_def ensure_def)

lemma fill_prev:
  assumes "list_all block_ok pre"
  shows "\<exists>entered pre1 s0 s1.
     (case (if length pre = 0 then None else (pre @ None # post) ! (length pre - 1)) of
            None \<Rightarrow> Some (False, pre @ None # post, s)
          | Some prev \<Rightarrow> (let room = bsize prev - length (bdata prev) in
              if 0 < room then do {
                let n = (if length s < room then length s else room);
                prev \<leftarrow> block_append prev (take n s);
                Some (True, (pre @ None # post)[length pre - 1 := Some prev], drop n s) }
              else Some (False, pre @ None # post, s))) = Some (entered, pre1 @ None # post, s1) \<and>
     s = s0 @ s1 \<and> grown pre pre1 s0"
proof (cases pre rule: rev_cases)
  case Nil
  then show ?thesis by (intro exI [of _ False] exI [of _ "[]"] exI [of _ s]) (simp add: grown_def)
next
  case (snoc pre' x)
  then obtain b where b: "x = Some b" "length (bdata b) \<le> bsize b" "list_all block_ok pre'"
    using assms by (cases x) auto
  let ?room = "bsize b - length (bdata b)"
  define n where "n = (if length s < ?room then length s else ?room)"
  have n: "n \<le> ?room" "n \<le> length s" by (auto simp: n_def)
  let ?b = "b\<lparr>bdata := bdata b @ take n s\<rparr>"
  have ix: "(pre @ None # post) ! (length pre - 1) = Some b" "length pre \<noteq> 0" using snoc b(1) by (simp_all add: nth_append)
  show ?thesis
  proof (cases "0 < ?room")
    case True
    have "(pre @ None # post)[length pre - 1 := Some ?b] = (pre' @ [Some ?b]) @ None # post"
      using snoc by (simp add: list_update_append)
    moreover have "grown pre (pre' @ [Some ?b]) (take n s)"
      using snoc b n by (cases pre') (auto simp: grown_def)
    ultimately show ?thesis
      using True ix block_fill [OF b(2) n]
      by (intro exI [of _ True] exI [of _ "pre' @ [Some ?b]"] exI [of _ "take n s"] exI [of _ "drop n s"])
        (simp add: n_def [symmetric])
  next
    case False
    have "grown pre pre []" using assms by (simp add: grown_def)
    then show ?thesis using False ix
      by (intro exI [of _ False] exI [of _ pre] exI [of _ "[]"] exI [of _ s]) (simp add: Let_def)
  qed
qed

lemma deferred_block_ok:
  assumes "ordinary c" "usable_ok usable" "deferred_ok c pre post" "grown pre pre1 s0"
    "reply_bytes c + 2 * length s + 16 < 2 ^ 63"
  shows "\<exists>sv' c'. deferred_block usable sv c (pre1 @ None # post) (length pre) s = Some (sv', c') \<and> reply_ok c' \<and>
     same_request c c' \<and> sentlen c' = sentlen c \<and> queued c' = outbuf c @ bytes_of pre1 @ s @ bytes_of post"
proof -
  obtain b where b: "block_append \<lparr>bsize = usable (length s + REPLY_BLOCK_HDR) - REPLY_BLOCK_HDR, bdata = []\<rparr> s = Some b"
    "bdata b = s" "length s \<le> bsize b" "bsize b \<le> 2 * length s + 16"
    using new_block [OF assms(2), of s "length s"] by auto
  let ?rb = "(reply_bytes c + bsize b) mod 2 ^ 64"
  have rb: "?rb = reply_bytes c + bsize b" using b(4) assms(5) by (intro mod_less) simp
  have len: "length pre1 = length pre" using assms(4) by (simp add: grown_def)
  let ?c = "c\<lparr>reply := pre1 @ Some b # post, reply_bytes := ?rb\<rparr>"
  have s: "sent_ok ?c" by (rule grown_sent [OF assms(3,4)]) simp_all
  have ok: "reply_ok ?c"
    using assms(3,4,5) b s unfolding reply_ok_def rb by (simp add: deferred_ok_def grown_def)
  have r: "same_request c ?c" by (simp add: same_request_def)
  obtain sv' c' where c': "closeClientOnOutputBufferLimitReached sv ?c = Some (sv', c')" "same_queue ?c c'" "same_request ?c c'"
    using limits_keep [of ?c sv] assms(1) ok same_request_ordinary [OF r] by (auto simp: reply_ok_def)
  have "deferred_block usable sv c (pre1 @ None # post) (length pre) s = Some (sv', c')"
    using b(1) c'(1) len by (simp add: deferred_block_def list_update_append)
  moreover have "reply_ok c'" "queued c' = queued ?c" using same_queue_ok [OF c'(2)] ok by simp_all
  moreover have "queued ?c = outbuf c @ bytes_of pre1 @ s @ bytes_of post" by (simp add: queued_def b(2))
  moreover have "sentlen c' = sentlen c" using c'(2) by (simp add: same_queue_def)
  ultimately show ?thesis using same_request_trans [OF r c'(3)] by auto
qed

lemma setDeferred_ok:
  assumes "ordinary c" "usable_ok usable" "deferred_ok c pre post" "reply_bytes c + 2 * length s + 16 < 2 ^ 63"
  shows "\<exists>sv' c'. setDeferredReply usable sv c (Some (length pre)) s = Some (sv', c') \<and> reply_ok c' \<and>
     same_request c c' \<and> sentlen c' = sentlen c \<and> queued c' = outbuf c @ bytes_of pre @ s @ bytes_of post"
proof -
  have d: "reply c = pre @ None # post" "list_all block_ok pre" "list_all block_ok post" "bufpos c \<le> buf_usable_size c"
    "reply_bytes c = size_of pre + size_of post" "reply_bytes c < 2 ^ 63"
    using assms(3) by (simp_all add: deferred_ok_def)
  obtain entered pre1 s0 s1 where st: "s = s0 @ s1" "grown pre pre1 s0" and
    eq: "setDeferredReply usable sv c (Some (length pre)) s =
      (if entered \<and> s1 = [] then Some (sv, c\<lparr>reply := remove_at (pre1 @ None # post) (length pre)\<rparr>)
       else (case (if length pre + 1 < length (pre1 @ None # post) then (pre1 @ None # post) ! (length pre + 1) else None) of
             Some nx \<Rightarrow>
               if length s1 \<le> bsize nx - length (bdata nx) \<and> length (bdata nx) < PROTO_REPLY_CHUNK_BYTES * 4
               then do {
                 ensure (length (bdata nx) + length s1 \<le> bsize nx);
                 Some (sv, c\<lparr>reply := remove_at ((pre1 @ None # post)[length pre + 1 := Some (nx\<lparr>bdata := s1 @ bdata nx\<rparr>)]) (length pre)\<rparr>) }
               else deferred_block usable sv c (pre1 @ None # post) (length pre) s1
           | None \<Rightarrow> deferred_block usable sv c (pre1 @ None # post) (length pre) s1))"
    using fill_prev [OF d(2), of post s] unfolding setDeferredReply_def d(1) by fastforce
  have g: "bytes_of pre1 = bytes_of pre @ s0" "list_all block_ok pre1" "size_of pre1 = size_of pre" "length pre1 = length pre"
    using st(2) by (simp_all add: grown_def)
  have kept: "reply_ok c' \<and> same_request c c'"
    if "c' = c\<lparr>reply := pre1 @ rest\<rparr>" "list_all block_ok rest" "size_of rest = size_of post" for c' rest
    using that g d grown_sent [OF assms(3) st(2), of c' rest] by (simp add: reply_ok_def same_request_def)
  have block: "\<exists>sv' c'. deferred_block usable sv c (pre1 @ None # post) (length pre) s1 = Some (sv', c') \<and> reply_ok c' \<and>
     same_request c c' \<and> sentlen c' = sentlen c \<and> queued c' = outbuf c @ bytes_of pre1 @ s1 @ bytes_of post"
    using assms(4) st(1) by (intro deferred_block_ok [OF assms(1,2,3) st(2)]) simp
  show ?thesis
  proof (cases "entered \<and> s1 = []")
    case True
    have "remove_at (pre1 @ None # post) (length pre) = pre1 @ post" using g(4) by (simp add: remove_at_def)
    with True eq kept [OF refl d(3)] show ?thesis using g(1) st(1) by (simp add: queued_def)
  next
    case False
    show ?thesis
    proof (cases post)
      case Nil
      then show ?thesis using eq False block g st(1) by simp
    next
      case (Cons x post')
      then obtain nx where x: "x = Some nx" "length (bdata nx) \<le> bsize nx" "list_all block_ok post'"
        using d(3) by (cases x) auto
      have ix: "(pre1 @ None # post) ! (length pre + 1) = Some nx" using Cons x(1) g(4) by (simp add: nth_append)
      show ?thesis
      proof (cases "length s1 \<le> bsize nx - length (bdata nx) \<and> length (bdata nx) < PROTO_REPLY_CHUNK_BYTES * 4")
        case True
        let ?nx = "nx\<lparr>bdata := s1 @ bdata nx\<rparr>"
        have "remove_at ((pre1 @ None # post)[length pre + 1 := Some ?nx]) (length pre) = pre1 @ Some ?nx # post'"
          using Cons g(4) by (simp add: remove_at_def list_update_append)
        moreover have "length (bdata nx) + length s1 \<le> bsize nx" using True x(2) by linarith
        ultimately have e: "setDeferredReply usable sv c (Some (length pre)) s = Some (sv, c\<lparr>reply := pre1 @ Some ?nx # post'\<rparr>)"
          using eq False True ix Cons g(4) by simp
        have "reply_ok (c\<lparr>reply := pre1 @ Some ?nx # post'\<rparr>) \<and> same_request c (c\<lparr>reply := pre1 @ Some ?nx # post'\<rparr>)"
          using kept [OF refl, of "Some ?nx # post'"] x True Cons by auto
        with e show ?thesis using g(1) st(1) Cons x(1) by (simp add: queued_def)
      next
        case no: False
        then show ?thesis using eq False block g st(1) ix Cons by auto
      qed
    qed
  qed
qed

subsection \<open>Writing sends a prefix of the queue\<close>

text \<open>A socket that accepts something in every write, until it would block.\<close>

definition willing :: "sock \<Rightarrow> bool" where
  "willing k \<longleftrightarrow> list_all (\<lambda>a. 0 < a) (answers k)"

lemma connWrite_ok:
  assumes "connWrite k xs = (k', n)"
  shows "n \<le> int (length xs) \<and> sent k' = sent k @ take (nat n) xs \<and> connected k' = connected k \<and>
     (0 < n \<longrightarrow> length (answers k') < length (answers k)) \<and>
     (willing k \<longrightarrow> willing k' \<and> (n \<le> 0 \<longrightarrow> answers k' = [] \<or> xs = []))"
  using assms by (auto simp: connWrite_def willing_def min_def Let_def split: list.splits if_splits)

definition offset_ok :: "clientReplyBlock option list \<Rightarrow> nat \<Rightarrow> bool" where
  "offset_ok bs off \<longleftrightarrow> (if bs = [] then off = 0 else off \<le> length (block_bytes (hd bs)))"

lemma offset_ok_zero [simp]: "offset_ok bs 0"
  by (simp add: offset_ok_def)

lemma sub_wrap_mod: "b \<le> a \<Longrightarrow> a < m \<Longrightarrow> (a + m - b) mod m = a - (b :: nat)"
proof -
  assume a: "b \<le> a" "a < m"
  then have "a + m - b = (a - b) + m" by simp
  moreover have "(a - b) mod m = a - b" using a by (intro mod_less) simp
  ultimately show ?thesis by simp
qed

lemma sub_wrap:
  assumes "b \<le> a" "a < 2 ^ 63"
  shows "(a + 2 ^ 64 - b) mod 2 ^ 64 = a - (b :: nat)"
proof -
  have "(2 :: nat) ^ 63 < 2 ^ 64" by (rule power_strict_increasing) simp_all
  with assms show ?thesis by (intro sub_wrap_mod) (assumption, rule less_trans)
qed

lemma gather_ok:
  "list_all block_ok bs \<Longrightarrow> offset_ok bs off \<Longrightarrow> a + size_of bs < 2 ^ 63 \<Longrightarrow>
    \<exists>iov bs'. gather_loop bs cnt n off (a + size_of bs) = Some (iov, bs', a + size_of bs') \<and> list_all block_ok bs' \<and>
      offset_ok bs' (if bs' = [] then 0 else off) \<and> bytes_of bs' = bytes_of bs \<and> prefix (concat iov) (drop off (bytes_of bs)) \<and>
      size_of bs' \<le> size_of bs \<and>
      (iov = [] \<and> cnt < IOV_MAX \<and> n < NET_MAX_WRITES_PER_EVENT \<longrightarrow> bs' = [])"
proof (induction bs arbitrary: cnt n off a)
  case Nil
  then show ?case by (simp add: offset_ok_def)
next
  case (Cons x bs)
  then obtain b where b: "x = Some b" "length (bdata b) \<le> bsize b" by (cases x) auto
  have bs: "list_all block_ok bs" "a + size_of bs < 2 ^ 63" using Cons.prems b by auto
  have off: "off \<le> length (bdata b)" using Cons.prems(2) b(1) by (simp add: offset_ok_def)
  have z: "offset_ok bs 0" by (simp add: offset_ok_def)
  show ?case
  proof (cases "cnt < IOV_MAX \<and> n < NET_MAX_WRITES_PER_EVENT")
    case False
    then show ?thesis using Cons.prems by auto
  next
    case True
    show ?thesis
    proof (cases "bdata b = []")
      case empty: True
      have w: "(a + size_of (x # bs) + 2 ^ 64 - bsize b) mod 2 ^ 64 = a + size_of bs"
        using Cons.prems(3) b(1) by (subst sub_wrap) simp_all
      obtain iov bs' where ih: "gather_loop bs cnt n 0 (a + size_of bs) = Some (iov, bs', a + size_of bs')" "list_all block_ok bs'"
        "offset_ok bs' 0" "bytes_of bs' = bytes_of bs" "prefix (concat iov) (bytes_of bs)"
        "size_of bs' \<le> size_of bs" "iov = [] \<and> cnt < IOV_MAX \<and> n < NET_MAX_WRITES_PER_EVENT \<longrightarrow> bs' = []"
        using Cons.IH [OF bs(1) z bs(2), of cnt n] by auto
      have "gather_loop (x # bs) cnt n off (a + size_of (x # bs)) = Some (iov, bs', a + size_of bs')"
        using True empty b(1) w ih(1) by (simp del: list.map sum_list.Cons)
      then show ?thesis using ih b empty off
        by (intro exI [of _ iov] exI [of _ bs']) (simp del: gather_loop.simps)
    next
      case full: False
      have "(a + bsize b) + size_of bs < 2 ^ 63" using Cons.prems(3) b(1) by simp
      from Cons.IH [OF bs(1) z this, of "cnt + 1" "n + (length (bdata b) - off)"] obtain iov bs' where
        ih: "gather_loop bs (cnt + 1) (n + (length (bdata b) - off)) 0 (a + bsize b + size_of bs) = Some (iov, bs', a + bsize b + size_of bs')"
        "list_all block_ok bs'" "bytes_of bs' = bytes_of bs" "prefix (concat iov) (bytes_of bs)" "size_of bs' \<le> size_of bs"
        by auto
      have "gather_loop (x # bs) cnt n off (a + size_of (x # bs)) =
          Some (drop off (bdata b) # iov, x # bs', a + size_of (x # bs'))"
        using True full b(1) off ih(1) by (simp add: add.assoc)
      moreover have "prefix (concat (drop off (bdata b) # iov)) (drop off (bytes_of (x # bs)))"
        using ih(4) off b(1) by simp
      ultimately show ?thesis using ih b off
        by (intro exI [of _ "drop off (bdata b) # iov"] exI [of _ "x # bs'"]) (simp add: offset_ok_def del: gather_loop.simps)
    qed
  qed
qed

lemma gather_some_zero:
  "gather_loop bs cnt n 0 rb = Some (iov, bs', rb') \<Longrightarrow> cnt < IOV_MAX \<Longrightarrow> n < NET_MAX_WRITES_PER_EVENT \<Longrightarrow>
    concat iov = [] \<Longrightarrow> bytes_of bs = []"
proof (induction bs arbitrary: rb iov bs' rb')
  case (Cons x bs)
  then show ?case by (cases x) (auto split: if_splits Option.bind_splits)
qed simp

lemma gather_some:
  assumes "gather_loop bs cnt n off rb = Some (iov, bs', rb')" "cnt + 1 < IOV_MAX" "n < NET_MAX_WRITES_PER_EVENT"
    "concat iov = []"
  shows "drop off (bytes_of bs) = []"
proof (cases bs)
  case (Cons x xs)
  with assms obtain b where b: "x = Some b" by (cases x) auto
  show ?thesis
  proof (cases "bdata b = []")
    case True
    then have "gather_loop xs cnt n 0 ((rb + 2 ^ 64 - bsize b) mod 2 ^ 64) = Some (iov, bs', rb')"
      using assms b Cons by simp
    from gather_some_zero [OF this] assms(2-4) have "bytes_of xs = []" by simp
    then show ?thesis using True b Cons by (simp del: concat_eq_Nil_conv)
  next
    case False
    with assms b Cons obtain iov' bs1 rb1 where
      g: "gather_loop xs (cnt + 1) (n + (length (bdata b) - off)) 0 rb = Some (iov', bs1, rb1)" "iov = drop off (bdata b) # iov'"
      by (auto split: Option.bind_splits)
    then have "off \<ge> length (bdata b)" "concat iov' = []" using assms(4) by auto
    moreover from this gather_some_zero [OF g(1)] assms(2,3) have "bytes_of xs = []" by simp
    ultimately show ?thesis using b Cons by (simp del: concat_eq_Nil_conv)
  qed
qed simp

lemma release_ok:
  "list_all block_ok bs \<Longrightarrow> offset_ok bs sl \<Longrightarrow> a + size_of bs < 2 ^ 63 \<Longrightarrow> remaining \<le> int (length (drop sl (bytes_of bs))) \<Longrightarrow>
    \<exists>bs' sl'. release_loop bs remaining sl (a + size_of bs) = Some (bs', sl', a + size_of bs') \<and> list_all block_ok bs' \<and>
      offset_ok bs' sl' \<and> drop sl' (bytes_of bs') = drop (nat remaining) (drop sl (bytes_of bs)) \<and> size_of bs' \<le> size_of bs"
proof (induction bs arbitrary: remaining sl)
  case Nil
  then show ?case by (auto simp: offset_ok_def)
next
  case (Cons x bs)
  then obtain b where b: "x = Some b" "length (bdata b) \<le> bsize b" by (cases x) auto
  have sl: "sl \<le> length (bdata b)" using Cons.prems(2) b(1) by (simp add: offset_ok_def)
  let ?left = "int (length (bdata b) - sl)"
  consider "remaining \<le> 0" | "0 < remaining" "remaining < ?left" | "0 < remaining" "?left \<le> remaining" by linarith
  then show ?case
  proof cases
    case 1
    then show ?thesis using Cons.prems b by auto
  next
    case 2
    then have "nat (int sl + remaining) = sl + nat remaining" "sl + nat remaining \<le> length (bdata b)" by auto
    then show ?thesis using 2 Cons.prems b sl by (auto simp: offset_ok_def add.commute)
  next
    case 3
    have w: "(a + size_of (x # bs) + 2 ^ 64 - bsize b) mod 2 ^ 64 = a + size_of bs"
      using Cons.prems(3) b(1) by (subst sub_wrap) simp_all
    have rem: "remaining - ?left \<le> int (length (drop 0 (bytes_of bs)))"
      using Cons.prems(4) b(1) sl by simp
    have bs: "list_all block_ok bs" "offset_ok bs 0" "a + size_of bs < 2 ^ 63" using Cons.prems b by (auto simp: offset_ok_def)
    obtain bs' sl' where ih: "release_loop bs (remaining - ?left) 0 (a + size_of bs) = Some (bs', sl', a + size_of bs')"
      "list_all block_ok bs'" "offset_ok bs' sl'" "drop sl' (bytes_of bs') = drop (nat (remaining - ?left)) (bytes_of bs)"
      "size_of bs' \<le> size_of bs"
      using Cons.IH [OF bs rem] by auto
    have "release_loop (x # bs) remaining sl (a + size_of (x # bs)) = Some (bs', sl', a + size_of bs')"
      using 3 b(1) sl w ih(1) by (simp del: list.map sum_list.Cons)
    moreover have "drop (nat (remaining - ?left)) (bytes_of bs) = drop (nat remaining) (drop sl (bytes_of (x # bs)))"
      using 3 b(1) sl by (simp add: nat_diff_distrib)
    ultimately show ?thesis using ih b
      by (intro exI [of _ bs'] exI [of _ sl']) (simp del: release_loop.simps)
  qed
qed


lemma pending_cases:
  assumes "reply_ok c"
  shows "pending c = (if outbuf c \<noteq> [] then drop (sentlen c) (outbuf c) @ bytes_of (reply c) else drop (sentlen c) (bytes_of (reply c)))"
  using assms by (auto simp: pending_def queued_def reply_ok_def sent_ok_def)

lemma reply_ok_alt:
  "reply_ok c \<longleftrightarrow> list_all block_ok (reply c) \<and> bufpos c \<le> buf_usable_size c \<and>
     (if outbuf c \<noteq> [] then sentlen c < bufpos c else offset_ok (reply c) (sentlen c)) \<and>
     reply_bytes c = size_of (reply c) \<and> reply_bytes c < 2 ^ 63"
  by (auto simp: reply_ok_def sent_ok_def offset_ok_def)

text \<open>What a write may change: the queue only.\<close>

definition only_queue :: "client \<Rightarrow> client \<Rightarrow> bool" where
  "only_queue c c' \<longleftrightarrow>
     c'\<lparr>outbuf := outbuf c, reply := reply c, reply_bytes := reply_bytes c, sentlen := sentlen c\<rparr> = c"

lemma only_queue_refl [simp]: "only_queue c c"
  by (simp add: only_queue_def)

lemma only_queue_request: "only_queue c c' \<Longrightarrow> same_request c c' \<and> flags c' = flags c"
  by (cases c; cases c') (simp add: only_queue_def same_request_def)

lemma only_queue_trans: "only_queue a b \<Longrightarrow> only_queue b c \<Longrightarrow> only_queue a c"
  by (cases a; cases b; cases c) (simp add: only_queue_def)

lemma after_write_ok:
  assumes "reply_ok c" "0 < n" "n \<le> int (length (pending c))"
  shows "\<exists>c'. after_write c n = Some c' \<and> reply_ok c' \<and> only_queue c c' \<and> pending c' = drop (nat n) (pending c)"
proof -
  have ok: "list_all block_ok (reply c)" "bufpos c \<le> buf_usable_size c" "reply_bytes c = size_of (reply c)" "size_of (reply c) < 2 ^ 63"
    using assms(1) by (simp_all add: reply_ok_alt)
  have rel: "\<exists>bs' sl'. release_loop (reply c) rem sl (reply_bytes c) = Some (bs', sl', size_of bs') \<and> list_all block_ok bs' \<and>
      offset_ok bs' sl' \<and> drop sl' (bytes_of bs') = drop (nat rem) (drop sl (bytes_of (reply c))) \<and> size_of bs' < 2 ^ 63"
    if "offset_ok (reply c) sl" "rem \<le> int (length (drop sl (bytes_of (reply c))))" for sl rem
    using release_ok [OF ok(1) that(1), of 0 rem] ok(3,4) that(2) by auto
  show ?thesis
  proof (cases "outbuf c = []")
    case True
    have off: "offset_ok (reply c) (sentlen c)" using assms(1) True by (simp add: reply_ok_alt)
    have "pending c = drop (sentlen c) (bytes_of (reply c))" using pending_cases [OF assms(1)] True by simp
    then obtain bs' sl' where r: "release_loop (reply c) n (sentlen c) (reply_bytes c) = Some (bs', sl', size_of bs')" "list_all block_ok bs'"
      "offset_ok bs' sl'" "drop sl' (bytes_of bs') = drop (nat n) (pending c)" "size_of bs' < 2 ^ 63"
      using rel [OF off, of n] assms(3) by auto
    let ?c = "c\<lparr>reply := bs', sentlen := sl', reply_bytes := size_of bs'\<rparr>"
    have "after_write c n = Some ?c" using True r(1) by (simp add: after_write_def)
    moreover have k: "reply_ok ?c" using True r ok(2) by (simp add: reply_ok_alt)
    moreover have "pending ?c = drop (nat n) (pending c)" using pending_cases [OF k] True r(4) by simp
    moreover have "only_queue c ?c" by (simp add: only_queue_def)
    ultimately show ?thesis by blast
  next
    case False
    have sl: "sentlen c < bufpos c" using assms(1) False by (simp add: reply_ok_alt)
    have p: "pending c = drop (sentlen c) (outbuf c) @ bytes_of (reply c)" using pending_cases [OF assms(1)] False by simp
    let ?l = "int (bufpos c) - int (sentlen c)"
    show ?thesis
    proof (cases "?l \<le> n")
      case full: True
      have "n - ?l \<le> int (length (drop 0 (bytes_of (reply c))))" using assms(3) p sl by simp
      from rel [OF offset_ok_zero this] obtain bs' sl' where
        r: "release_loop (reply c) (n - ?l) 0 (reply_bytes c) = Some (bs', sl', size_of bs')" "list_all block_ok bs'"
        "offset_ok bs' sl'" "drop sl' (bytes_of bs') = drop (nat (n - ?l)) (bytes_of (reply c))" "size_of bs' < 2 ^ 63" by auto
      let ?c = "c\<lparr>outbuf := [], reply := bs', reply_bytes := size_of bs', sentlen := sl'\<rparr>"
      have "after_write c n = Some ?c" using False full r(1) by (simp add: after_write_def)
      moreover have k: "reply_ok ?c" using r by (simp add: reply_ok_alt)
      moreover have "drop (nat (n - ?l)) (bytes_of (reply c)) = drop (nat n) (pending c)"
        unfolding p using sl full by (simp add: nat_diff_distrib)
      then have "pending ?c = drop (nat n) (pending c)" using pending_cases [OF k] r(4) by simp
      moreover have "only_queue c ?c" by (simp add: only_queue_def)
      ultimately show ?thesis by blast
    next
      case part: False
      let ?sl = "nat (int (sentlen c) + n)"
      have s: "?sl = sentlen c + nat n" "?sl < bufpos c" using part assms(2) by linarith+
      let ?c = "c\<lparr>sentlen := ?sl\<rparr>"
      have "release_loop (reply c) (n - ?l) ?sl (reply_bytes c) = Some (reply c, ?sl, reply_bytes c)"
        using part by (cases "reply c") simp_all
      then have "after_write c n = Some ?c" using False part by (simp add: after_write_def)
      moreover have k: "reply_ok ?c" using False assms(1) s(2) by (simp add: reply_ok_alt)
      moreover have "pending ?c = drop (nat n) (pending c)"
        using pending_cases [OF k] False s by (simp add: p add.commute)
      moreover have "only_queue c ?c" by (simp add: only_queue_def)
      ultimately show ?thesis by blast
    qed
  qed
qed


lemma writev_ok:
  assumes "reply_ok c" "reply c \<noteq> []"
  shows "\<exists>c' k' r n m. writevToClient c k = Some (c', k', r, n) \<and> reply_ok c' \<and> only_queue c c' \<and>
     sent k' = sent k @ take m (pending c) \<and> pending c' = drop m (pending c) \<and> connected k' = connected k \<and>
     (r = C_OK \<longrightarrow> length (answers k') < length (answers k) \<or> (k' = k \<and> reply c' = [] \<and> outbuf c' = [])) \<and>
     (r = C_OK \<longrightarrow> n = int m) \<and>
     (willing k \<longrightarrow> willing k' \<and> (r = C_ERR \<longrightarrow> answers k' = [] \<or> pending c' = []))"
proof -
  let ?first = "if outbuf c \<noteq> [] then [drop (sentlen c) (outbuf c)] else []"
  let ?off = "if outbuf c \<noteq> [] then 0 else sentlen c"
  have ok: "list_all block_ok (reply c)" "bufpos c \<le> buf_usable_size c" "reply_bytes c = size_of (reply c)" "size_of (reply c) < 2 ^ 63"
    "outbuf c = [] \<or> sentlen c < bufpos c" "offset_ok (reply c) ?off"
    using assms(1) by (auto simp: reply_ok_alt split: if_splits)
  have "0 + size_of (reply c) < 2 ^ 63" using ok(4) by simp
  from gather_ok [OF ok(1,6) this, of "length ?first" "length (concat ?first)", unfolded add_0] obtain iov bs' where
    g0: "gather_loop (reply c) (length ?first) (length (concat ?first)) ?off (size_of (reply c)) = Some (iov, bs', size_of bs')"
    "list_all block_ok bs'" "offset_ok bs' (if bs' = [] then 0 else ?off)" "bytes_of bs' = bytes_of (reply c)"
    "prefix (concat iov) (drop ?off (bytes_of (reply c)))" "size_of bs' \<le> size_of (reply c)"
    "iov = [] \<and> length ?first < IOV_MAX \<and> length (concat ?first) < NET_MAX_WRITES_PER_EVENT \<longrightarrow> bs' = []"
    by blast
  then have g: "gather_loop (reply c) (length ?first) (length (concat ?first)) ?off (reply_bytes c) = Some (iov, bs', size_of bs')"
    "list_all block_ok bs'" "offset_ok bs' (if bs' = [] then 0 else ?off)" "bytes_of bs' = bytes_of (reply c)"
    "prefix (concat iov) (drop ?off (bytes_of (reply c)))" "size_of bs' < 2 ^ 63"
    "iov = [] \<and> length ?first < IOV_MAX \<and> length (concat ?first) < NET_MAX_WRITES_PER_EVENT \<longrightarrow> bs' = []"
    using ok(3,4) by (simp_all only: order.strict_trans1)
  let ?c = "c\<lparr>reply := bs', reply_bytes := size_of bs'\<rparr>" and ?xs = "concat (?first @ iov)"
  have zero: "sentlen c = 0" if "bs' = []" "outbuf c = []"
  proof -
    have "bytes_of (reply c) = []" using g(4) that(1) by simp
    then have "block_bytes (hd (reply c)) = []" using assms(2) by (cases "reply c") simp_all
    then show ?thesis using ok(6) assms(2) that(2) by (simp add: offset_ok_def)
  qed
  have c1: "reply_ok ?c" using ok g(2,3,6) zero by (cases "bs' = []") (auto simp: reply_ok_alt)
  have p: "pending ?c = pending c" using pending_cases [OF c1] pending_cases [OF assms(1)] g(4) by simp
  have q: "only_queue c ?c" by (simp add: only_queue_def)
  have px: "prefix ?xs (pending c)" using g(5) pending_cases [OF assms(1)] by (auto split: if_splits)
  show ?thesis
  proof (cases "?first @ iov = []")
    case True
    then have "outbuf c = []" "iov = []" by (auto split: if_splits)
    then have "bs' = []" using g(7) by (simp add: IOV_MAX_def NET_MAX_WRITES_PER_EVENT_def)
    have "writevToClient c k = Some (?c, k, C_OK, 0)"
      using True g(1) ok(5) by (auto simp: writevToClient_def Let_def)
    then show ?thesis using c1 p q \<open>bs' = []\<close> \<open>outbuf c = []\<close>
      by (intro exI [of _ ?c] exI [of _ k] exI [of _ C_OK] exI [of _ 0] exI [of _ 0]) simp
  next
    case False
    obtain k' n where w: "connWrite k ?xs = (k', n)" by fastforce
    note cw = connWrite_ok [OF w]
    have none: "pending c = []" if "?xs = []"
    proof (cases "outbuf c = []")
      case True
      then show ?thesis using gather_some [OF g(1)] that pending_cases [OF assms(1)]
        by (simp add: IOV_MAX_def NET_MAX_WRITES_PER_EVENT_def)
    next
      case False
      then show ?thesis using that ok(5) by simp
    qed
    have le: "int (length ?xs) \<le> int (length (pending c))" using prefix_length_le [OF px] by (simp only: of_nat_le_iff)
    have tk: "take (nat n) ?xs = take (nat n) (pending c)"
      using px cw by (auto elim!: prefixE)
    have "ensure (outbuf c = [] \<or> sentlen c \<le> bufpos c) = Some ()" using ok(5) by auto
    then have eq: "writevToClient c k = (if n \<le> 0 then Some (?c, k', C_ERR, n)
        else do { c' \<leftarrow> after_write ?c n; Some (c', k', C_OK, n) })"
      using False g(1) w unfolding writevToClient_def Let_def by (simp del: concat_append)
    show ?thesis
    proof (cases "n \<le> 0")
      case True
      have "willing k \<longrightarrow> willing k' \<and> (answers k' = [] \<or> pending c = [])" using cw none True by blast
      then show ?thesis using eq c1 p q cw True
        by (intro exI [of _ ?c] exI [of _ k'] exI [of _ C_ERR] exI [of _ n] exI [of _ 0]) simp
    next
      case no: False
      obtain c' where a: "after_write ?c n = Some c'" "reply_ok c'" "only_queue ?c c'" "pending c' = drop (nat n) (pending c)"
        using after_write_ok [OF c1, of n] no cw le p by auto
      have s: "sent k' = sent k @ take (nat n) (pending c)" using cw tk by simp
      have len: "length (answers k') < length (answers k)" using cw no by simp
      show ?thesis
        using eq no a s len cw only_queue_trans [OF q a(3)]
        by (intro exI [of _ c'] exI [of _ k'] exI [of _ C_OK] exI [of _ n] exI [of _ "nat n"]) simp
    qed
  qed
qed

lemma write_once_ok:
  assumes "reply_ok c" "getClientType c \<noteq> CLIENT_TYPE_SLAVE" "outbuf c \<noteq> [] \<or> reply c \<noteq> []"
  shows "\<exists>c' k' r n m. writeToClient_once sv c k = Some (sv, c', k', r, n) \<and> reply_ok c' \<and> only_queue c c' \<and>
     sent k' = sent k @ take m (pending c) \<and> pending c' = drop m (pending c) \<and> connected k' = connected k \<and>
     (r = C_OK \<longrightarrow> length (answers k') < length (answers k) \<or> (k' = k \<and> reply c' = [] \<and> outbuf c' = [])) \<and>
     (r = C_OK \<longrightarrow> n = int m) \<and>
     (willing k \<longrightarrow> willing k' \<and> (r = C_ERR \<longrightarrow> answers k' = [] \<or> pending c' = []))"
proof (cases "reply c = []")
  case False
  obtain c' k' r n m where w: "writevToClient c k = Some (c', k', r, n)" "reply_ok c'" "only_queue c c'"
    "sent k' = sent k @ take m (pending c)" "pending c' = drop m (pending c)" "connected k' = connected k"
    "r = C_OK \<longrightarrow> length (answers k') < length (answers k) \<or> (k' = k \<and> reply c' = [] \<and> outbuf c' = [])"
    "r = C_OK \<longrightarrow> n = int m" "willing k \<longrightarrow> willing k' \<and> (r = C_ERR \<longrightarrow> answers k' = [] \<or> pending c' = [])"
    using writev_ok [OF assms(1) False, of k] by blast
  have "reply c' = [] \<longrightarrow> reply_bytes c' = 0" using w(2) by (auto simp: reply_ok_def)
  then have "writeToClient_once sv c k = Some (sv, c', k', r, n)"
    using w(1) assms(2) False by (cases r) (simp_all add: writeToClient_once_def)
  with w show ?thesis by blast
next
  case True
  then have o: "outbuf c \<noteq> []" using assms(3) by simp
  have sl: "sentlen c < bufpos c" using assms(1) o by (simp add: reply_ok_alt)
  have p: "pending c = drop (sentlen c) (outbuf c)" using pending_cases [OF assms(1)] o True by simp
  obtain k' n where w: "connWrite k (drop (sentlen c) (outbuf c)) = (k', n)" by fastforce
  note cw = connWrite_ok [OF w]
  show ?thesis
  proof (cases "n \<le> 0")
    case neg: True
    have "writeToClient_once sv c k = Some (sv, c, k', C_ERR, n)"
      using True o sl w neg assms(2) by (simp add: writeToClient_once_def)
    moreover have "drop (sentlen c) (outbuf c) \<noteq> []" using sl by simp
    ultimately show ?thesis using assms(1) cw neg
      by (intro exI [of _ c] exI [of _ k'] exI [of _ C_ERR] exI [of _ n] exI [of _ 0]) simp
  next
    case pos: False
    let ?c = "if sentlen c + nat n = bufpos c then c\<lparr>outbuf := [], sentlen := 0\<rparr> else c\<lparr>sentlen := sentlen c + nat n\<rparr>"
    have le: "sentlen c + nat n \<le> bufpos c" using cw sl by auto
    have eq: "writeToClient_once sv c k = Some (sv, ?c, k', C_OK, n)"
      using True o sl w pos assms(2) by (simp add: writeToClient_once_def Let_def)
    have ok: "reply_ok ?c" using assms(1) True o le by (auto simp: reply_ok_alt)
    have pd: "pending ?c = drop (nat n) (pending c)"
      using pending_cases [OF ok] True o le by (auto simp: p add.commute)
    have q: "only_queue c ?c" by (simp add: only_queue_def)
    show ?thesis using eq ok pd q cw pos p
      by (intro exI [of _ ?c] exI [of _ k'] exI [of _ C_OK] exI [of _ n] exI [of _ "nat n"]) simp
  qed
qed

lemma no_pending: "reply_ok c \<Longrightarrow> outbuf c = [] \<Longrightarrow> reply c = [] \<Longrightarrow> pending c = []"
  by (simp add: pending_def queued_def)

lemma type_flags: "flags c' = flags c \<Longrightarrow> getClientType c' = getClientType c"
  by (simp add: getClientType_def has_flag_def)

lemma write_loop_ok:
  assumes "reply_ok c" "getClientType c \<noteq> CLIENT_TYPE_SLAVE"
  shows "\<exists>c' k' n' t' m. write_loop sv c k n t = Some (sv, c', k', n', t') \<and> reply_ok c' \<and> only_queue c c' \<and>
     sent k' = sent k @ take m (pending c) \<and> pending c' = drop m (pending c) \<and> connected k' = connected k \<and>
     (willing k \<longrightarrow> answers k' = [] \<or> pending c' = [] \<or> int NET_MAX_WRITES_PER_EVENT < t + int m)"
  using assms
proof (induction "length (answers k)" arbitrary: c k n t rule: less_induct)
  case less
  show ?case
  proof (cases "outbuf c \<noteq> [] \<or> reply c \<noteq> []")
    case False
    then have "write_loop sv c k n t = Some (sv, c, k, n, t)"
      using less.prems(2) by (subst write_loop.simps) (simp add: clientHasPendingReplies_def)
    then show ?thesis using less.prems(1) no_pending [of c] False
      by (intro exI [of _ c] exI [of _ k] exI [of _ n] exI [of _ t] exI [of _ 0]) simp
  next
    case True
    obtain c1 k1 r n1 m1 where w: "writeToClient_once sv c k = Some (sv, c1, k1, r, n1)" "reply_ok c1" "only_queue c c1"
      "sent k1 = sent k @ take m1 (pending c)" "pending c1 = drop m1 (pending c)" "connected k1 = connected k"
      "r = C_OK \<longrightarrow> length (answers k1) < length (answers k) \<or> (k1 = k \<and> reply c1 = [] \<and> outbuf c1 = [])"
      "r = C_OK \<longrightarrow> n1 = int m1" "willing k \<longrightarrow> willing k1 \<and> (r = C_ERR \<longrightarrow> answers k1 = [] \<or> pending c1 = [])"
      using write_once_ok [OF less.prems True, of sv k] by blast
    have t1: "getClientType c1 \<noteq> CLIENT_TYPE_SLAVE"
      using less.prems(2) only_queue_request [OF w(3)] type_flags [of c1 c] by simp
    let ?stop = "int NET_MAX_WRITES_PER_EVENT < t + n1 \<and> (maxmemory sv = 0 \<or> used_memory sv < maxmemory sv) \<and> \<not> has_flag c1 CLIENT_SLAVE"
    have eq: "write_loop sv c k n t = (if r = C_ERR then Some (sv, c1, k1, n1, t)
        else if ?stop then Some (sv, c1, k1, n1, t + n1) else write_loop sv c1 k1 n1 (t + n1))"
      using less.prems(2) True w(1) by (subst write_loop.simps) (simp add: clientHasPendingReplies_def)
    have rest: "\<exists>c' k' n' t' m. write_loop sv c1 k1 n1 (t + n1) = Some (sv, c', k', n', t') \<and> reply_ok c' \<and> only_queue c1 c' \<and>
       sent k' = sent k1 @ take m (pending c1) \<and> pending c' = drop m (pending c1) \<and> connected k' = connected k1 \<and>
       (willing k1 \<longrightarrow> answers k' = [] \<or> pending c' = [] \<or> int NET_MAX_WRITES_PER_EVENT < t + n1 + int m)" if "r = C_OK"
    proof (cases "length (answers k1) < length (answers k)")
      case True
      from less.hyps [OF this w(2) t1] show ?thesis .
    next
      case False
      then have e: "reply c1 = []" "outbuf c1 = []" using w(7) that by auto
      then have "write_loop sv c1 k1 n1 (t + n1) = Some (sv, c1, k1, n1, t + n1)"
        using t1 by (subst write_loop.simps) (simp add: clientHasPendingReplies_def)
      then show ?thesis using w(2) no_pending [OF w(2) e(2,1)]
        by (intro exI [of _ c1] exI [of _ k1] exI [of _ n1] exI [of _ "t + n1"] exI [of _ 0]) simp
    qed
    show ?thesis
    proof (cases "r = C_ERR \<or> ?stop")
      case True
      then have "willing k \<longrightarrow> answers k1 = [] \<or> pending c1 = [] \<or> int NET_MAX_WRITES_PER_EVENT < t + int m1"
        using w(8,9) by (cases r) auto
      with True show ?thesis using eq w(2-6) by (auto split: if_splits)
    next
      case False
      then have "r = C_OK" by (cases r) auto
      from rest [OF this] obtain c' k' n' t' m where
        f: "write_loop sv c1 k1 n1 (t + n1) = Some (sv, c', k', n', t')" "reply_ok c'" "only_queue c1 c'"
        "sent k' = sent k1 @ take m (pending c1)" "pending c' = drop m (pending c1)" "connected k' = connected k1"
        "willing k1 \<longrightarrow> answers k' = [] \<or> pending c' = [] \<or> int NET_MAX_WRITES_PER_EVENT < t + n1 + int m" by blast
      have "willing k \<longrightarrow> answers k' = [] \<or> pending c' = [] \<or> int NET_MAX_WRITES_PER_EVENT < t + int (m1 + m)"
        using f(7) w(8,9) \<open>r = C_OK\<close> by auto
      moreover have "sent k' = sent k @ take (m1 + m) (pending c)" "pending c' = drop (m1 + m) (pending c)"
        using f(4,5) w(4,5) by (simp_all add: take_add add.commute)
      moreover have "write_loop sv c k n t = Some (sv, c', k', n', t')" using eq False f(1) by argo
      ultimately show ?thesis using f(2,6) only_queue_trans [OF w(3) f(3)] w(6)
        by (intro exI [of _ c'] exI [of _ k'] exI [of _ n'] exI [of _ t'] exI [of _ "m1 + m"]) simp
    qed
  qed
qed

lemma writeToClient_ok:
  assumes "reply_ok c" "getClientType c \<noteq> CLIENT_TYPE_SLAVE" "handler_installed \<longrightarrow> io_threads_op_idle sv"
  shows "\<exists>sv' c' k' r m. writeToClient sv c k handler_installed = Some (sv', c', k', r) \<and> reply_ok c' \<and> same_request c c' \<and>
     sent k' = sent k @ take m (pending c) \<and> pending c' = drop m (pending c) \<and>
     (willing k \<longrightarrow> answers k' = [] \<or> pending c' = [] \<or> NET_MAX_WRITES_PER_EVENT < m) \<and>
     (connected k \<longrightarrow> (r = C_ERR \<longleftrightarrow> has_flag c CLIENT_CLOSE_AFTER_REPLY \<and> outbuf c' = [] \<and> reply c' = []))"
proof -
  let ?sv = "sv\<lparr>stat_total_writes_processed := stat_total_writes_processed sv + 1\<rparr>"
  obtain c1 k1 n t m where w: "write_loop ?sv c k 0 0 = Some (?sv, c1, k1, n, t)" "reply_ok c1" "only_queue c c1"
    "sent k1 = sent k @ take m (pending c)" "pending c1 = drop m (pending c)" "connected k1 = connected k"
    and lv: "willing k \<longrightarrow> answers k1 = [] \<or> pending c1 = [] \<or> int NET_MAX_WRITES_PER_EVENT < 0 + int m"
    using write_loop_ok [OF assms(1,2), of ?sv k 0 0] by blast
  have r1: "same_request c c1" "flags c1 = flags c" using only_queue_request [OF w(3)] by auto
  have t1: "getClientType c1 \<noteq> CLIENT_TYPE_SLAVE" using assms(2) type_flags [OF r1(2)] by simp
  let ?sv1 = "?sv\<lparr>stat_net_output_bytes := stat_net_output_bytes ?sv + nat t\<rparr>"
  show ?thesis
  proof (cases "n = - 1 \<and> \<not> connected k1")
    case True
    obtain sv2 c2 where f: "freeClientAsync ?sv1 c1 = (sv2, c2)" by fastforce
    note fk = freeClientAsync_keeps [OF f]
    have "writeToClient sv c k handler_installed = Some (sv2, c2, k1, C_ERR)"
      using w(1) t1 True f by (simp add: writeToClient_def)
    then show ?thesis using fk same_queue_ok [of c1 c2] w lv True same_request_trans [OF r1(1)] by auto
  next
    case False
    define c2 where "c2 = (if 0 < t \<and> \<not> has_flag c1 CLIENT_MASTER then c1\<lparr>lastinteraction := unixtime sv\<rparr> else c1)"
    have q2: "same_queue c1 c2" "same_request c1 c2" "flags c2 = flags c1"
      by (simp_all add: c2_def same_queue_def same_request_def)
    have t2: "getClientType c2 \<noteq> CLIENT_TYPE_SLAVE" using t1 type_flags [OF q2(3)] by simp
    have ok2: "reply_ok c2" "pending c2 = pending c1" using same_queue_ok [OF q2(1)] w(2) by auto
    have e2: "outbuf c2 = outbuf c1" "reply c2 = reply c1" using q2(1) by (simp_all add: same_queue_def)
    have st: "clientHasPendingReplies ?sv1 c2 = Some (outbuf c1 \<noteq> [] \<or> reply c1 \<noteq> [])"
      using t2 by (simp add: clientHasPendingReplies_def e2)
    have eq: "writeToClient sv c k handler_installed = (if outbuf c1 \<noteq> [] \<or> reply c1 \<noteq> [] then Some (?sv1, c2, k1, C_OK)
        else if has_flag c2 CLIENT_CLOSE_AFTER_REPLY
        then (let (sv, c) = freeClientAsync ?sv1 (c2\<lparr>sentlen := 0\<rparr>) in Some (sv, c, k1, C_ERR))
        else Some (?sv1, c2\<lparr>sentlen := 0\<rparr>, k1, C_OK))"
    proof -
      have h: "ensure (handler_installed \<longrightarrow> io_threads_op_idle sv) = Some ()" using assms(3) by simp
      have hf: "has_flag (c2\<lparr>sentlen := 0\<rparr>) CLIENT_CLOSE_AFTER_REPLY = has_flag c2 CLIENT_CLOSE_AFTER_REPLY" by (simp add: has_flag_def)
      have nf: "(n = - 1 \<and> \<not> connected k1) = False" using False by simp
      show ?thesis
        unfolding writeToClient_def Let_def using w(1) t1 st h
        by (simp add: c2_def [symmetric] nf hf cong: if_cong split del: if_split)
    qed
    have fl: "has_flag c2 CLIENT_CLOSE_AFTER_REPLY = has_flag c CLIENT_CLOSE_AFTER_REPLY" by (simp add: has_flag_def r1(2) q2(3))
    show ?thesis
    proof (cases "outbuf c1 \<noteq> [] \<or> reply c1 \<noteq> []")
      case True
      then show ?thesis using eq ok2 w(4,5) lv same_request_trans [OF r1(1) q2(2)] e2
        by (intro exI [of _ ?sv1] exI [of _ c2] exI [of _ k1] exI [of _ C_OK] exI [of _ m]) auto
    next
      case no: False
      have "sentlen c2 = 0" using ok2(1) no e2 by (auto simp: reply_ok_alt offset_ok_def)
      then have e3: "c2\<lparr>sentlen := 0\<rparr> = c2" by simp
      obtain sv4 c4 where f: "freeClientAsync ?sv1 c2 = (sv4, c4)" by fastforce
      note fk = freeClientAsync_keeps [OF f]
      have r2: "same_request c c2" using same_request_trans [OF r1(1) q2(2)] .
      have ok4: "reply_ok c4" "pending c4 = pending c1" "outbuf c4 = outbuf c1" "reply c4 = reply c1" "same_request c c4"
        using same_queue_ok [of c2 c4] fk ok2 e2 same_request_trans [OF r2] by (auto simp: same_queue_def)
      show ?thesis
      proof (cases "has_flag c CLIENT_CLOSE_AFTER_REPLY")
        case True
        then have "writeToClient sv c k handler_installed = Some (sv4, c4, k1, C_ERR)"
          using eq no fl f unfolding e3 by simp
        then show ?thesis using True ok4 w(4,5) lv no by auto
      next
        case nf: False
        then have "writeToClient sv c k handler_installed = Some (?sv1, c2, k1, C_OK)"
          using eq no fl unfolding e3 by simp
        then show ?thesis using nf ok2 r2 e2 w(4,5) lv
          by (intro exI [of _ ?sv1] exI [of _ c2] exI [of _ k1] exI [of _ C_OK] exI [of _ m]) auto
      qed
    qed
  qed
qed

subsection \<open>Whole replies\<close>

text \<open>How command code answers with an array of strings.\<close>

fun addReplyBulks :: "usable \<Rightarrow> server \<Rightarrow> client \<Rightarrow> byte list list \<Rightarrow> (server \<times> client) option" where
  "addReplyBulks usable sv c [] = Some (sv, c)"
| "addReplyBulks usable sv c (p # ps) = do {
     (sv, c) \<leftarrow> addReplyBulkCBuffer usable sv c p;
     addReplyBulks usable sv c ps }"

definition addReplyArray :: "usable \<Rightarrow> server \<Rightarrow> client \<Rightarrow> byte list list \<Rightarrow> (server \<times> client) option" where
  "addReplyArray usable sv c ps = do {
     (sv, c) \<leftarrow> addReplyArrayLen usable sv c (int (length ps));
     addReplyBulks usable sv c ps }"

definition resp_text :: "byte list list \<Rightarrow> byte list" where
  "resp_text ps = array_text (length ps) @ concat (map bulk_text ps)"

definition resp_room :: "byte list list \<Rightarrow> nat" where
  "resp_room ps = block_room (array_text (length ps)) + sum_list (map (\<lambda>p. 3 * block_room (bulk_text p)) ps)"

lemma emits_bulks:
  assumes "usable_ok usable" "list_all (\<lambda>p. int (length p) \<le> LLONG_MAX) ps"
  shows "emits (\<lambda>sv c. addReplyBulks usable sv c ps) (concat (map bulk_text ps)) (sum_list (map (\<lambda>p. 3 * block_room (bulk_text p)) ps))"
  using assms(2)
proof (induction ps)
  case Nil
  then show ?case using emits_nil by simp
next
  case (Cons p ps)
  have "emits (\<lambda>sv c. addReplyBulkCBuffer usable sv c p \<bind> (\<lambda>(sv, c). addReplyBulks usable sv c ps))
      (bulk_text p @ concat (map bulk_text ps)) (3 * block_room (bulk_text p) + sum_list (map (\<lambda>p. 3 * block_room (bulk_text p)) ps))"
    using Cons assms(1) by (intro emits_comp emits_bulk) auto
  then show ?case by simp
qed

lemma emits_resp:
  assumes "usable_ok usable" "int (length ps) \<le> LLONG_MAX" "list_all (\<lambda>p. int (length p) \<le> LLONG_MAX) ps"
  shows "emits (\<lambda>sv c. addReplyArray usable sv c ps) (resp_text ps) (resp_room ps)"
  unfolding addReplyArray_def resp_text_def resp_room_def
  by (intro emits_comp emits_array emits_bulks assms)

lemma deferred_start:
  assumes "ordinary c" "reply_ok c" "\<not> has_flag c CLIENT_CLOSE_ASAP"
  shows "\<exists>sv' c'. addReplyDeferredLen sv c = Some (sv', c', Some (length (reply c))) \<and> same_request c c' \<and>
     deferred_ok c' (reply c) [] \<and> outbuf c' = outbuf c \<and> sentlen c' = sentlen c"
proof -
  obtain sv1 c1 where p: "prepareClientToWrite sv c = Some (sv1, c1, C_OK)" "same_queue c c1" "same_request c c1"
    using prepare_keeps [OF assms(1), of sv] assms(3) by auto
  have o: "ordinary c1" using same_request_ordinary [OF p(3)] assms(1) by simp
  have q: "reply c1 = reply c" "outbuf c1 = outbuf c" "sentlen c1 = sentlen c" "reply_bytes c1 = reply_bytes c"
    "buf_usable_size c1 = buf_usable_size c" using p(2) by (simp_all add: same_queue_def)
  let ?c = "c1\<lparr>reply := reply c @ [None]\<rparr>"
  have "addReplyDeferredLen sv c = Some (sv1, ?c, Some (length (reply c)))"
    using p(1) ordinary_type [OF o] q(1) by (simp add: addReplyDeferredLen_def)
  moreover have "deferred_ok ?c (reply c) []"
    using assms(2) q by (auto simp: deferred_ok_def reply_ok_def sent_ok_def hd_append)
  moreover have "same_request c ?c" using p(3) by (simp add: same_request_def)
  ultimately show ?thesis using q by auto
qed

lemma setAggregate_ok:
  assumes "ordinary c" "usable_ok usable" "deferred_ok c pre post" "0 \<le> n" "n \<le> LLONG_MAX" "reply_bytes c + 100 < 2 ^ 63"
  shows "\<exists>sv' c'. setDeferredAggregateLen usable sv c (Some (length pre)) n pfx = Some (sv', c') \<and> reply_ok c' \<and>
     same_request c c' \<and> sentlen c' = sentlen c \<and> queued c' = outbuf c @ bytes_of pre @ (pfx # sdsll2str n @ CRLF) @ bytes_of post"
proof -
  have "LLONG_MIN \<le> n" using assms(4) by (simp add: LLONG_MIN_def)
  then have l: "length (sdsll2str n) < 21" using sdsll2str_length [of n] assms(5) by (simp add: SDS_LLSTR_SIZE_def)
  have "setDeferredAggregateLen usable sv c (Some (length pre)) n pfx = setDeferredReply usable sv c (Some (length pre)) (pfx # sdsll2str n @ CRLF)"
    using assms(4) shared_hdr_read [OF assms(4), of pfx] by (simp add: setDeferredAggregateLen_def shared_hdr_def)
  moreover have "reply_bytes c + 2 * length (pfx # sdsll2str n @ CRLF) + 16 < 2 ^ 63"
    using l assms(6) by (simp add: CRLF_def)
  ultimately show ?thesis using setDeferred_ok [OF assms(1,2,3), of "pfx # sdsll2str n @ CRLF" sv] by simp
qed

subsection \<open>Properties of the output side\<close>

definition demo_client :: client where
  "demo_client = \<lparr>cid = 7, flags = {}, has_conn = True, resp = 2,
     querybuf = \<lparr>stype = SDS_TYPE_8, slen = 0, salloc = 0, buf = [0]\<rparr>, qb_pos = 0, querybuf_peak = 0, argv = [], argv_len = 0, argv_len_sum = 0,
     reqtype = 0, multibulklen = 0, bulklen = - 1, reply = [], reply_bytes = 0, deferred_reply_errors = None,
     sentlen = 0, lastinteraction = 0, obuf_soft_limit_reached_time = 0, authenticated = True, replstate_none = True,
     replstate_online = False, repl_start_cmd_stream_on_ack = False, repl_ack_time = 0, reploff = 0, read_reploff = 0,
     repl_applied = 0, ref_repl_buf_node = None, ref_block_pos = 0, realcmd_failed_calls = None, buf_peak = 0,
     buf_usable_size = 16384, outbuf = []\<rparr>"

definition demo_server :: server where
  "demo_server = \<lparr>io_threads_op_idle = True, io_threads_op_read = False, io_threads_num = 1, io_threads_active = False,
     io_threads_do_reads = False, ProcessingEventsWhileBlocked = False, busy_module_yield_flags = 0, unixtime = 1000, default_user_nopass = True,
     default_user_disabled = False, proto_max_bulk_len = 536870912,
     client_obuf_limits = (\<lambda>_. \<lparr>hard_limit_bytes = 0, soft_limit_bytes = 0, soft_limit_seconds = 0\<rparr>),
     repl_backlog_size = 0, repl_buffer_blocks = [], repl_slave_ro = True, panic_always = False, panic_on_replicas = False,
     clients_pending_write = [], clients_pending_read = [], clients_to_close = [], maxmemory = 0, used_memory = 0, stat_total_error_replies = 0,
     stat_unexpected_error_replies = 0, stat_net_input_bytes = 0, stat_net_repl_input_bytes = 0,
     stat_total_reads_processed = 0, stat_net_output_bytes = 0, stat_net_repl_output_bytes = 0,
     stat_total_writes_processed = 0\<rparr>"

lemma demo_client_ok: "ordinary demo_client" "reply_ok demo_client" "\<not> has_flag demo_client CLIENT_CLOSE_ASAP"
  "pending demo_client = []" "reply_bytes demo_client = 0" "reply demo_client = []" "outbuf demo_client = []" "sentlen demo_client = 0"
  by (simp_all add: ordinary_def reply_ok_def sent_ok_def pending_def queued_def has_flag_def demo_client_def)

lemma usable_id: "usable_ok (\<lambda>n. n)"
  by (simp add: usable_ok_def)



text \<open>C7. Whatever the socket accepts in each of its writes, \<open>writeToClient\<close> returns, what it sent is a prefix of
  the queued output, in order and without gap, and exactly the rest stays queued. As long as the socket accepts bytes it stops only when all is sent or more than
  64 KB are. A client marked for closing after its
  reply is scheduled for that only when the whole reply is out.\<close>
theorem writeToClient_sends_prefix:
  assumes "reply_ok c" "getClientType c \<noteq> CLIENT_TYPE_SLAVE" "handler_installed \<longrightarrow> io_threads_op_idle sv"
  shows "\<exists>sv' c' k' r m. writeToClient sv c k handler_installed = Some (sv', c', k', r) \<and> reply_ok c' \<and> same_request c c' \<and>
     sent k' = sent k @ take m (pending c) \<and> pending c' = drop m (pending c) \<and>
     (willing k \<longrightarrow> answers k' = [] \<or> pending c' = [] \<or> NET_MAX_WRITES_PER_EVENT < m) \<and>
     (connected k \<longrightarrow> (r = C_ERR \<longleftrightarrow> has_flag c CLIENT_CLOSE_AFTER_REPLY \<and> outbuf c' = [] \<and> reply c' = []))"
  by (rule writeToClient_ok [OF assms])

theorem writeToClient_sends_prefix_witness:
  "\<exists>sv' c' k' r m. writeToClient demo_server (demo_client\<lparr>outbuf := [43, 79, 75, 13, 10]\<rparr>) \<lparr>sent = [], answers = [2, 1], connected = True\<rparr> False =
       Some (sv', c', k', r) \<and> reply_ok c' \<and> sent k' = take m [43, 79, 75, 13, 10] \<and> pending c' = drop m [43, 79, 75, 13, 10]"
proof -
  let ?c = "demo_client\<lparr>outbuf := [43, 79, 75, 13, 10]\<rparr>"
  have "reply_ok ?c" "getClientType ?c \<noteq> CLIENT_TYPE_SLAVE" "pending ?c = [43, 79, 75, 13, 10]" "False \<longrightarrow> io_threads_op_idle demo_server"
    by (simp_all add: reply_ok_def sent_ok_def getClientType_def has_flag_def pending_def queued_def demo_client_def)
  from writeToClient_sends_prefix [OF this(1,2,4), of "\<lparr>sent = [], answers = [2, 1], connected = True\<rparr>"] this(3)
  show ?thesis by (simp del: not_False_eq_True) blast
qed

text \<open>The length of a map whose entries were queued before they were counted lands where its placeholder stands:
  in front of everything queued after it and behind everything before, in the form of the client's protocol version,
  whether it fits the previous block, the next one or needs a block of its own.\<close>
theorem setDeferredMapLen_inserts:
  assumes "ordinary c" "usable_ok usable" "deferred_ok c pre post" "0 \<le> n" "n * 2 \<le> LLONG_MAX" "reply_bytes c + 100 < 2 ^ 63"
  shows "\<exists>sv' c'. setDeferredMapLen usable sv c (Some (length pre)) n = Some (sv', c') \<and> reply_ok c' \<and> same_request c c' \<and>
     sentlen c' = sentlen c \<and>
     queued c' = outbuf c @ bytes_of pre @ (if resp c = 2 then 42 # sdsll2str (n * 2) @ CRLF else 37 # sdsll2str n @ CRLF) @ bytes_of post"
proof (cases "resp c = 2")
  case True
  then show ?thesis using setAggregate_ok [OF assms(1,2,3) _ assms(5,6), of sv 42] assms(4) by (simp add: setDeferredMapLen_def)
next
  case False
  have "n \<le> LLONG_MAX" using assms(4,5) by linarith
  then show ?thesis using False setAggregate_ok [OF assms(1,2,3,4) _ assms(6), of sv 37] by (simp add: setDeferredMapLen_def)
qed

theorem setDeferredMapLen_inserts_witness:
  "\<exists>sv' c'. setDeferredMapLen (\<lambda>n. n) demo_server (demo_client\<lparr>reply := [None, Some \<lparr>bsize = 8, bdata = [1, 2]\<rparr>], reply_bytes := 8\<rparr>) (Some 0) 3 =
       Some (sv', c') \<and> reply_ok c' \<and> queued c' = 42 # sdsll2str 6 @ CRLF @ [1, 2]"
proof -
  let ?c = "demo_client\<lparr>reply := [None, Some \<lparr>bsize = 8, bdata = [1, 2]\<rparr>], reply_bytes := 8\<rparr>"
  have "ordinary ?c" "deferred_ok ?c [] [Some \<lparr>bsize = 8, bdata = [1, 2]\<rparr>]"
    by (simp_all add: ordinary_def deferred_ok_def sent_ok_def demo_client_def)
  then show ?thesis
    using setDeferredMapLen_inserts [OF _ usable_id, of ?c "[]" _ 3 demo_server] by (fastforce simp: demo_client_def LLONG_MAX_def)
qed

end
