(* ===== verification/Resp.thy ===== *)
theory Resp
  imports Reply
begin

text \<open>
  The input side of \<open>myRedis/src/networking.c\<close>: reading from the socket into the query buffer, the parsers of
  the multi bulk and the inline protocol, and the loop that executes the commands read.

  \<^item> The query buffer is an sds of \<open>Sds\<close>, so every read of it is checked against its memory; \<open>strchr\<close> stops at
    the first NUL. An argument object is its bytes. A store to \<open>c->argv\<close> outside of its \<open>argv_len\<close> entries is a fault.
  \<^item> \<open>None\<close> is a fault, a failed assertion or an allocation that aborts.
  \<^item> The command table (\<open>processCommand\<close> of \<open>server.c\<close>, which calls through it) is the parameter \<open>exec\<close>: it answers
    the new state, its result and whether it freed the client.
  \<^item> What \<open>setProtocolError\<close> logs and the memory statistics of clients are left out.
\<close>

subsection \<open>Protocol errors\<close>

definition PROTO_REQ_INLINE :: nat where "PROTO_REQ_INLINE = 1"
definition PROTO_REQ_MULTIBULK :: nat where "PROTO_REQ_MULTIBULK = 2"
definition INT_MAX :: int where "INT_MAX = 2 ^ 31 - 1"

text \<open>The memory of a string literal.\<close>

definition literal :: "string \<Rightarrow> byte list" where
  "literal s = map of_char s @ [0]"

definition setProtocolError :: "client \<Rightarrow> client" where
  "setProtocolError c = set_flag CLIENT_PROTOCOL_ERROR (set_flag CLIENT_CLOSE_AFTER_REPLY c)"

text \<open>\<open>addReplyError\<close> followed by \<open>setProtocolError\<close>, the answer to every malformed request.\<close>

definition protocol_error :: "usable \<Rightarrow> server \<Rightarrow> client \<Rightarrow> string \<Rightarrow> (server \<times> client) option" where
  "protocol_error usable sv c msg = do {
     (sv, c) \<leftarrow> addReplyError usable sv c (literal msg);
     Some (sv, setProtocolError c) }"

text \<open>\<open>strchr(mem+off,ch)\<close>, as an index into the memory.\<close>

definition strchr_at :: "byte list \<Rightarrow> nat \<Rightarrow> byte \<Rightarrow> nat option option" where
  "strchr_at mem off ch =
     (let i = off + length (takeWhile (\<lambda>b. b \<noteq> ch \<and> b \<noteq> 0) (drop off mem))
      in if i < length mem then Some (if mem ! i = ch then Some i else None) else None)"

subsection \<open>The multi bulk protocol\<close>

text \<open>What an iteration of the parser decided: go on, wait for more input, or give up.\<close>

datatype progress = Continue | Wait | Fail

definition qblen :: "client \<Rightarrow> nat" where
  "qblen c = sdslen (querybuf c)"

text \<open>Reading a line header: \<open>Inl w\<close> when no complete line is there.\<close>

definition find_line :: "client \<Rightarrow> (progress + nat) option" where
  "find_line c = do {
     newline \<leftarrow> strchr_at (buf (querybuf c)) (qb_pos c) 13;
     (case newline of
        None \<Rightarrow> Some (Inl (if PROTO_INLINE_MAX_SIZE < qblen c - qb_pos c then Fail else Wait))
      | Some i \<Rightarrow>
          if int (qblen c) - int (qb_pos c) - 2 < int i - int (qb_pos c) then Some (Inl Wait)
          else Some (Inr i)) }"

text \<open>The multi bulk length, when it is not known yet.\<close>

definition read_mbulk_count :: "usable \<Rightarrow> server \<Rightarrow> client \<Rightarrow> (server \<times> client \<times> progress) option" where
  "read_mbulk_count usable sv c = do {
     ensure (argc c = 0);
     line \<leftarrow> find_line c;
     (case line of
        Inl p \<Rightarrow> if p = Fail
          then do { (sv, c) \<leftarrow> protocol_error usable sv c ''Protocol error: too big mbulk count string''; Some (sv, c, Fail) }
          else Some (sv, c, Wait)
      | Inr newline \<Rightarrow> do {
          ch \<leftarrow> get_at (buf (querybuf c)) (qb_pos c);
          ensure (ch = 42);
          text \<leftarrow> read_at (buf (querybuf c)) (qb_pos c + 1) (newline - (qb_pos c + 1));
          (case string2ll text of
             None \<Rightarrow> do { (sv, c) \<leftarrow> protocol_error usable sv c ''Protocol error: invalid multibulk length''; Some (sv, c, Fail) }
           | Some ll \<Rightarrow>
               if INT_MAX < ll
               then do { (sv, c) \<leftarrow> protocol_error usable sv c ''Protocol error: invalid multibulk length''; Some (sv, c, Fail) }
               else if 10 < ll \<and> authRequired sv c
               then do { (sv, c) \<leftarrow> protocol_error usable sv c ''Protocol error: unauthenticated multibulk length''; Some (sv, c, Fail) }
               else let c = c\<lparr>qb_pos := newline + 2\<rparr> in
                 if ll \<le> 0 then Some (sv, c, Continue)
                 else Some (sv, c\<lparr>multibulklen := ll, argv_len := nat (min ll 1024), argv := [], argv_len_sum := 0\<rparr>, Continue)) }) }"

text \<open>The length of the next bulk, when it is not known yet.\<close>

definition read_bulk_length :: "malloc \<Rightarrow> usable \<Rightarrow> server \<Rightarrow> client \<Rightarrow> (server \<times> client \<times> progress) option" where
  "read_bulk_length mal usable sv c = do {
     line \<leftarrow> find_line c;
     (case line of
        Inl p \<Rightarrow> if p = Fail
          then do { (sv, c) \<leftarrow> protocol_error usable sv c ''Protocol error: too big bulk count string''; Some (sv, c, Fail) }
          else Some (sv, c, Wait)
      | Inr newline \<Rightarrow> do {
          ch \<leftarrow> get_at (buf (querybuf c)) (qb_pos c);
          (if ch \<noteq> 36 then do {
             s \<leftarrow> sdsempty mal;
             s \<leftarrow> sdscatlen mal s (map of_char ''Protocol error: expected '' @ [39, 36, 39] @ map of_char '', got '' @ [39, ch, 39]);
             (sv, c) \<leftarrow> addReplyErrorFormat usable sv c s;
             Some (sv, setProtocolError c, Fail) }
           else do {
             text \<leftarrow> read_at (buf (querybuf c)) (qb_pos c + 1) (newline - (qb_pos c + 1));
             (case string2ll text of
                None \<Rightarrow> do { (sv, c) \<leftarrow> protocol_error usable sv c ''Protocol error: invalid bulk length''; Some (sv, c, Fail) }
              | Some ll \<Rightarrow>
                  if ll < 0 \<or> (\<not> has_flag c CLIENT_MASTER \<and> proto_max_bulk_len sv < ll)
                  then do { (sv, c) \<leftarrow> protocol_error usable sv c ''Protocol error: invalid bulk length''; Some (sv, c, Fail) }
                  else if 16384 < ll \<and> authRequired sv c
                  then do { (sv, c) \<leftarrow> protocol_error usable sv c ''Protocol error: unauthenticated bulk length''; Some (sv, c, Fail) }
                  else do {
                    let c = c\<lparr>qb_pos := newline + 2\<rparr>;
                    c \<leftarrow> (if \<not> has_flag c CLIENT_MASTER \<and> PROTO_MBULK_BIG_ARG \<le> ll \<and> qblen c - qb_pos c \<le> nat ll + 2
                      then do {
                        q \<leftarrow> sdsrange (querybuf c) (int (qb_pos c)) (- 1);
                        q \<leftarrow> sdsMakeRoomForNonGreedy mal q (nat ((ll + 2 - int (sdslen q)) mod 2 ^ 64));
                        Some (c\<lparr>querybuf := q, qb_pos := 0\<rparr>) }
                      else Some c);
                    Some (sv, c\<lparr>bulklen := ll\<rparr>, Continue) }) }) }) }"

text \<open>Reading the argument itself. The array of arguments grows when it is full.\<close>

definition read_bulk :: "malloc \<Rightarrow> client \<Rightarrow> (client \<times> progress) option" where
  "read_bulk mal c =
     (if int (qblen c) - int (qb_pos c) < bulklen c + 2 then Some (c, Wait)
      else do {
        let c = (if argv_len c \<le> argc c
                 then c\<lparr>argv_len := nat (min (if int (argv_len c) < INT_MAX div 2 then int (argv_len c) * 2 else INT_MAX)
                                             (int (argc c) + multibulklen c))\<rparr>
                 else c);
        ensure (argc c < argv_len c);
        c \<leftarrow> (if \<not> has_flag c CLIENT_MASTER \<and> qb_pos c = 0 \<and> PROTO_MBULK_BIG_ARG \<le> bulklen c \<and>
                 int (qblen c) = bulklen c + 2
          then do {
            arg \<leftarrow> sdsIncrLen (querybuf c) (- 2);
            text \<leftarrow> read_at (buf arg) 0 (sdslen arg);
            q \<leftarrow> sdsnewlen mal NoInit (nat (bulklen c + 2));
            q \<leftarrow> sdsclear q;
            Some (c\<lparr>argv := argv c @ [text], argv_len_sum := argv_len_sum c + nat (bulklen c), querybuf := q\<rparr>) }
          else do {
            text \<leftarrow> read_at (buf (querybuf c)) (qb_pos c) (nat (bulklen c));
            Some (c\<lparr>argv := argv c @ [text], argv_len_sum := argv_len_sum c + nat (bulklen c),
                   qb_pos := qb_pos c + nat (bulklen c) + 2\<rparr>) });
        Some (c\<lparr>bulklen := - 1, multibulklen := multibulklen c - 1\<rparr>, Continue) })"

text \<open>The loop: each round that goes on takes one from \<open>multibulklen\<close>.\<close>

fun multibulk_loop :: "malloc \<Rightarrow> usable \<Rightarrow> nat \<Rightarrow> server \<Rightarrow> client \<Rightarrow> (server \<times> client \<times> progress) option" where
  "multibulk_loop mal usable 0 sv c = Some (sv, c, Continue)"
| "multibulk_loop mal usable (Suc n) sv c = do {
     (sv, c, p) \<leftarrow> (if bulklen c = - 1 then read_bulk_length mal usable sv c else Some (sv, c, Continue));
     (if p \<noteq> Continue then Some (sv, c, p)
      else do {
        (c, p) \<leftarrow> read_bulk mal c;
        (if p \<noteq> Continue then Some (sv, c, p) else multibulk_loop mal usable n sv c) }) }"

definition processMultibulkBuffer :: "malloc \<Rightarrow> usable \<Rightarrow> server \<Rightarrow> client \<Rightarrow> (server \<times> client \<times> result) option" where
  "processMultibulkBuffer mal usable sv c = do {
     let fresh = (multibulklen c = 0);
     (sv, c, p) \<leftarrow> (if fresh then read_mbulk_count usable sv c else Some (sv, c, Continue));
     (if p \<noteq> Continue then Some (sv, c, C_ERR)
      else if fresh \<and> multibulklen c = 0 then Some (sv, c, C_OK)
      else do {
        ensure (0 < multibulklen c);
        (sv, c, p) \<leftarrow> multibulk_loop mal usable (nat (multibulklen c)) sv c;
        Some (sv, c, if multibulklen c = 0 then C_OK else C_ERR) }) }"

subsection \<open>The inline protocol\<close>

definition processInlineBuffer :: "malloc \<Rightarrow> usable \<Rightarrow> server \<Rightarrow> client \<Rightarrow> (server \<times> client \<times> result) option" where
  "processInlineBuffer mal usable sv c = do {
     newline \<leftarrow> strchr_at (buf (querybuf c)) (qb_pos c) 10;
     (case newline of
        None \<Rightarrow>
          if PROTO_INLINE_MAX_SIZE < qblen c - qb_pos c
          then do { (sv, c) \<leftarrow> protocol_error usable sv c ''Protocol error: too big inline request''; Some (sv, c, C_ERR) }
          else Some (sv, c, C_ERR)
      | Some i \<Rightarrow> do {
          let cr = (i \<noteq> qb_pos c \<and> buf (querybuf c) ! (i - 1) = 13);
          let newline = (if cr then i - 1 else i);
          let linefeed_chars = (if cr then 2 else 1);
          let querylen = newline - qb_pos c;
          aux \<leftarrow> sdsnewlen mal (Init (drop (qb_pos c) (buf (querybuf c)))) querylen;
          n \<leftarrow> strlen (buf aux);
          (case sdssplitargs (take n (buf aux)) of
             None \<Rightarrow> do {
               (sv, c) \<leftarrow> protocol_error usable sv c ''Protocol error: unbalanced quotes in request'';
               Some (sv, c, C_ERR) }
           | Some args \<Rightarrow> do {
               let c = (if querylen = 0 \<and> getClientType c = CLIENT_TYPE_SLAVE then c\<lparr>repl_ack_time := unixtime sv\<rparr> else c);
               (if querylen \<noteq> 0 \<and> has_flag c CLIENT_MASTER then Some (sv, setProtocolError c, C_ERR)
                else do {
                  let c = c\<lparr>qb_pos := qb_pos c + querylen + linefeed_chars\<rparr>;
                  let c = (if args \<noteq> [] then c\<lparr>argv_len := length args, argv_len_sum := 0\<rparr> else c);
                  Some (sv, c\<lparr>argv := args, argv_len_sum := argv_len_sum c + sum_list (map length args)\<rparr>, C_OK) }) }) }) }"

subsection \<open>Executing what was read\<close>

definition freeClientArgv :: "client \<Rightarrow> client" where
  "freeClientArgv c = c\<lparr>argv := [], argv_len_sum := 0, argv_len := 0\<rparr>"

definition resetClient :: "client \<Rightarrow> client" where
  "resetClient c = (let c = (freeClientArgv c)\<lparr>reqtype := 0, multibulklen := 0, bulklen := - 1, deferred_reply_errors := None\<rparr>;
       c = clear_flag CLIENT_REPLY_SKIP c
     in if has_flag c CLIENT_REPLY_SKIP_NEXT then clear_flag CLIENT_REPLY_SKIP_NEXT (set_flag CLIENT_REPLY_SKIP c) else c)"

definition commandProcessed :: "client \<Rightarrow> client" where
  "commandProcessed c =
     (if has_flag c CLIENT_BLOCKED then c
      else let c = resetClient c; prev_offset = reploff c;
               c = (if has_flag c CLIENT_MASTER \<and> \<not> has_flag c CLIENT_MULTI
                    then c\<lparr>reploff := read_reploff c - int (qblen c) + int (qb_pos c)\<rparr> else c)
           in if has_flag c CLIENT_MASTER then c\<lparr>repl_applied := repl_applied c + (reploff c - prev_offset)\<rparr> else c)"

type_synonym exec = "server \<Rightarrow> client \<Rightarrow> (server \<times> client \<times> result \<times> bool) option"

definition processCommandAndResetClient :: "exec \<Rightarrow> server \<Rightarrow> client \<Rightarrow> (server \<times> client \<times> result) option" where
  "processCommandAndResetClient exec sv c = do {
     (sv, c, r, deadclient) \<leftarrow> exec sv c;
     Some (sv, if r = C_OK then commandProcessed c else c, if deadclient then C_ERR else C_OK) }"

definition isInsideYieldingLongCommand :: "server \<Rightarrow> bool" where
  "isInsideYieldingLongCommand sv \<longleftrightarrow> busy_module_yield_flags sv \<noteq> 0"

text \<open>The loop of \<open>processInputBuffer\<close>; the last component says whether it fell through (\<open>C_OK\<close>) or the client is
  gone. Not returning is \<open>None\<close>.\<close>

partial_function (option) input_loop :: "malloc \<Rightarrow> usable \<Rightarrow> exec \<Rightarrow> server \<Rightarrow> client \<Rightarrow> (server \<times> client \<times> result) option" where
  "input_loop mal usable exec sv c =
     (if \<not> qb_pos c < qblen c \<or> has_flag c CLIENT_BLOCKED \<or> has_flag c CLIENT_PENDING_COMMAND \<or>
         (isInsideYieldingLongCommand sv \<and> has_flag c CLIENT_MASTER) \<or>
         has_flag c CLIENT_CLOSE_AFTER_REPLY \<or> has_flag c CLIENT_CLOSE_ASAP
      then Some (sv, c, C_OK)
      else Option.bind (get_at (buf (querybuf c)) (qb_pos c)) (\<lambda>ch.
        let c = (if reqtype c = 0 then c\<lparr>reqtype := (if ch = 42 then PROTO_REQ_MULTIBULK else PROTO_REQ_INLINE)\<rparr> else c) in
        Option.bind
          (if reqtype c = PROTO_REQ_INLINE then processInlineBuffer mal usable sv c
           else if reqtype c = PROTO_REQ_MULTIBULK then processMultibulkBuffer mal usable sv c
           else None)
          (\<lambda>(sv, c, r).
            if r \<noteq> C_OK then Some (sv, c, C_OK)
            else if argc c = 0 then input_loop mal usable exec sv (resetClient c)
            else if \<not> io_threads_op_idle sv then
              (if io_threads_op_read sv then Some (sv, set_flag CLIENT_PENDING_COMMAND c, C_OK) else None)
            else Option.bind (processCommandAndResetClient exec sv c) (\<lambda>(sv, c, r).
              if r = C_ERR then Some (sv, c, C_ERR) else input_loop mal usable exec sv c))))"

definition processInputBuffer :: "malloc \<Rightarrow> usable \<Rightarrow> exec \<Rightarrow> server \<Rightarrow> client \<Rightarrow> (server \<times> client \<times> result) option" where
  "processInputBuffer mal usable exec sv c = do {
     (sv, c, r) \<leftarrow> input_loop mal usable exec sv c;
     (if r = C_ERR then Some (sv, c, C_ERR)
      else if has_flag c CLIENT_MASTER then
        (if repl_applied c \<noteq> 0 then do {
           q \<leftarrow> sdsrange (querybuf c) (repl_applied c) (- 1);
           Some (sv, c\<lparr>querybuf := q, qb_pos := nat (int (qb_pos c) - repl_applied c), repl_applied := 0\<rparr>, C_OK) }
         else Some (sv, c, C_OK))
      else if qb_pos c \<noteq> 0 then do {
        q \<leftarrow> sdsrange (querybuf c) (int (qb_pos c)) (- 1);
        Some (sv, c\<lparr>querybuf := q, qb_pos := 0\<rparr>, C_OK) }
      else Some (sv, c, C_OK)) }"

definition processPendingCommandAndInputBuffer ::
    "malloc \<Rightarrow> usable \<Rightarrow> exec \<Rightarrow> server \<Rightarrow> client \<Rightarrow> (server \<times> client \<times> result) option" where
  "processPendingCommandAndInputBuffer mal usable exec sv c = do {
     (sv, c, r) \<leftarrow> (if has_flag c CLIENT_PENDING_COMMAND
        then processCommandAndResetClient exec sv (clear_flag CLIENT_PENDING_COMMAND c) else Some (sv, c, C_OK));
     (if r = C_ERR then Some (sv, c, C_ERR)
      else if 0 < qblen c then processInputBuffer mal usable exec sv c else Some (sv, c, C_OK)) }"

subsection \<open>Reading\<close>

definition postponeClientRead :: "server \<Rightarrow> client \<Rightarrow> server \<times> bool" where
  "postponeClientRead sv c =
     (if io_threads_active sv \<and> io_threads_do_reads sv \<and> \<not> ProcessingEventsWhileBlocked sv \<and>
         \<not> has_flag c CLIENT_MASTER \<and> \<not> has_flag c CLIENT_SLAVE \<and> \<not> has_flag c CLIENT_BLOCKED \<and> io_threads_op_idle sv
      then (sv\<lparr>clients_pending_read := cid c # clients_pending_read sv\<rparr>, True)
      else (sv, False))"

text \<open>How much is read, and whether the buffer is prepared for one big argument.\<close>

definition read_length :: "client \<Rightarrow> nat \<times> bool" where
  "read_length c =
     (if reqtype c = PROTO_REQ_MULTIBULK \<and> multibulklen c \<noteq> 0 \<and> bulklen c \<noteq> - 1 \<and> PROTO_MBULK_BIG_ARG \<le> bulklen c
      then (let remaining = bulklen c + 2 - (int (qblen c) - int (qb_pos c));
                readlen = (if 0 < remaining then nat remaining else PROTO_IOBUF_LEN)
            in (if has_flag c CLIENT_MASTER \<and> readlen < PROTO_IOBUF_LEN then PROTO_IOBUF_LEN else readlen, True))
      else (PROTO_IOBUF_LEN, False))"

text \<open>What the kernel holds for the connection: the bytes received and whether the peer has closed. \<open>connRead\<close>
  answers at most \<open>n\<close> of them, 0 at the end, and -1 when there is nothing or the connection failed.\<close>

record input =
  received :: "byte list"
  peer_closed :: bool
  broken :: bool

definition connRead :: "input \<Rightarrow> nat \<Rightarrow> input \<times> byte list \<times> int" where
  "connRead inp n =
     (if broken inp then (inp, [], - 1)
      else if received inp = [] then (inp, [], if peer_closed inp then 0 else - 1)
      else (inp\<lparr>received := drop n (received inp)\<rparr>, take n (received inp), int (min n (length (received inp)))))"

text \<open>\<open>beforeNextClient\<close> frees a client to be closed: the last component says that it is still there.\<close>

definition beforeNextClient :: "server \<Rightarrow> client \<Rightarrow> bool" where
  "beforeNextClient sv c \<longleftrightarrow> \<not> io_threads_op_idle sv \<or> \<not> has_flag c CLIENT_CLOSE_ASAP"

definition readQueryFromClient ::
    "malloc \<Rightarrow> usable \<Rightarrow> exec \<Rightarrow> server \<Rightarrow> client \<Rightarrow> input \<Rightarrow> (server \<times> client \<times> input \<times> bool) option" where
  "readQueryFromClient mal usable exec sv c inp =
     (case postponeClientRead sv c of (sv, postponed) \<Rightarrow>
      if postponed then Some (sv, c, inp, True)
      else do {
        let sv = sv\<lparr>stat_total_reads_processed := stat_total_reads_processed sv + 1\<rparr>;
        let (readlen, big_arg) = read_length c;
        let len = qblen c;
        let greedy = \<not> (\<not> has_flag c CLIENT_MASTER \<and> (big_arg \<or> sdsalloc (querybuf c) < PROTO_IOBUF_LEN));
        q \<leftarrow> (if greedy then sdsMakeRoomFor mal (querybuf c) readlen else sdsMakeRoomForNonGreedy mal (querybuf c) readlen);
        let c = c\<lparr>querybuf := q\<rparr>;
        let readlen = (if greedy then sdsavail q else readlen);
        let (inp, xs, nread) = connRead inp readlen;
        mem \<leftarrow> write_at (buf q) len xs;
        let c = c\<lparr>querybuf := q\<lparr>buf := mem\<rparr>\<rparr>;
        (if nread = - 1 \<and> \<not> broken inp then Some (sv, c, inp, True)
         else if nread \<le> 0 then (let (sv, c) = freeClientAsync sv c in Some (sv, c, inp, beforeNextClient sv c))
         else do {
           q \<leftarrow> sdsIncrLen (querybuf c) nread;
           let c = c\<lparr>querybuf := q\<rparr>;
           let c = (if querybuf_peak c < qblen c then c\<lparr>querybuf_peak := qblen c\<rparr> else c);
           let c = c\<lparr>lastinteraction := unixtime sv\<rparr>;
           let (sv, c) = (if has_flag c CLIENT_MASTER
             then (sv\<lparr>stat_net_repl_input_bytes := stat_net_repl_input_bytes sv + nat nread\<rparr>, c\<lparr>read_reploff := read_reploff c + nread\<rparr>)
             else (sv\<lparr>stat_net_input_bytes := stat_net_input_bytes sv + nat nread\<rparr>, c));
           (sv, c, r) \<leftarrow> processInputBuffer mal usable exec sv c;
           Some (sv, c, inp, r \<noteq> C_ERR \<and> beforeNextClient sv c) }) })"

end
