(* ===== verification/Request.thy ===== *)
theory Request
  imports Resp
begin

text \<open>
  The multi bulk parser of \<open>Resp\<close> is right: whatever the chunks in which the bytes of a request arrive, the
  arguments it collects are the ones encoded.
\<close>

subsection \<open>The unread part of the query buffer\<close>

definition query_ok :: "client \<Rightarrow> bool" where
  "query_ok c \<longleftrightarrow> sds_ok (querybuf c) \<and> qb_pos c \<le> slen (querybuf c) \<and> slen (querybuf c) < 2 ^ 61"

definition unread :: "client \<Rightarrow> byte list" where
  "unread c = drop (qb_pos c) (content (querybuf c))"

lemma query_simps:
  assumes "query_ok c"
  shows "qblen c = slen (querybuf c)" "length (unread c) = qblen c - qb_pos c" "qb_pos c \<le> qblen c"
    "qblen c < length (buf (querybuf c))" "sds_wf (querybuf c)" "length (content (querybuf c)) = qblen c"
  using assms by (auto simp: query_ok_def unread_def qblen_def sds_ok_def wf_content_length sds_wf_def)

lemma query_memory:
  assumes "query_ok c"
  shows "\<exists>more. drop (qb_pos c) (buf (querybuf c)) = unread c @ 0 # more"
proof -
  let ?b = "buf (querybuf c)" and ?n = "slen (querybuf c)"
  have w: "qb_pos c \<le> ?n" "?n < length ?b" "?b ! ?n = 0"
    using assms by (auto simp: query_ok_def sds_ok_def sds_wf_def)
  have "?b = take ?n ?b @ 0 # drop (Suc ?n) ?b" using w id_take_nth_drop [of ?n ?b] by simp
  then have "drop (qb_pos c) ?b = drop (qb_pos c) (take ?n ?b) @ 0 # drop (Suc ?n) ?b"
    using w by (metis (no_types) append_Nil2 drop_append diff_is_0_eq drop0 length_take min.absorb2 nat_less_le)
  then show ?thesis by (auto simp: unread_def content_def)
qed

lemma query_read:
  assumes "query_ok c" "i + n \<le> length (unread c)"
  shows "read_at (buf (querybuf c)) (qb_pos c + i) n = Some (take n (drop i (unread c)))"
proof -
  obtain more where m: "drop (qb_pos c) (buf (querybuf c)) = unread c @ 0 # more" using query_memory [OF assms(1)] by blast
  have "drop (qb_pos c + i) (buf (querybuf c)) = drop i (unread c @ 0 # more)"
    by (simp only: m [symmetric] drop_drop add.commute)
  then show ?thesis using assms(2) query_simps [OF assms(1)] by (simp add: read_at_def)
qed

lemma query_get:
  assumes "query_ok c" "unread c = x # xs"
  shows "get_at (buf (querybuf c)) (qb_pos c) = Some x"
proof -
  obtain more where m: "drop (qb_pos c) (buf (querybuf c)) = unread c @ 0 # more" using query_memory [OF assms(1)] by blast
  then have "qb_pos c < length (buf (querybuf c))" using assms(2) by (metis drop_eq_Nil append_Cons list.distinct(1) not_less)
  moreover have "buf (querybuf c) ! qb_pos c = x" using m assms(2) nth_via_drop by fastforce
  ultimately show ?thesis by simp
qed

lemma strchr_hit:
  assumes "query_ok c" "unread c = l @ ch # r" "ch \<notin> set l" "0 \<notin> set l"
  shows "strchr_at (buf (querybuf c)) (qb_pos c) ch = Some (Some (qb_pos c + length l))"
proof -
  obtain more where m: "drop (qb_pos c) (buf (querybuf c)) = l @ ch # r @ 0 # more"
    using query_memory [OF assms(1)] assms(2) by auto
  have tw: "takeWhile (\<lambda>b. b \<noteq> ch \<and> b \<noteq> 0) (l @ ch # r @ 0 # more) = l"
    using assms(3,4) by (subst takeWhile_append2) auto
  have len: "qb_pos c + length l < length (buf (querybuf c))"
    using query_simps [OF assms(1)] assms(2) by simp
  have "buf (querybuf c) ! (qb_pos c + length l) = drop (qb_pos c) (buf (querybuf c)) ! length l"
    using len by simp
  also have "\<dots> = ch" unfolding m by simp
  finally show ?thesis using len unfolding strchr_at_def m tw Let_def by simp
qed

lemma strchr_miss:
  assumes "query_ok c" "ch \<notin> set (unread c)" "0 \<notin> set (unread c)" "ch \<noteq> 0"
  shows "strchr_at (buf (querybuf c)) (qb_pos c) ch = Some None"
proof -
  obtain more where m: "drop (qb_pos c) (buf (querybuf c)) = unread c @ 0 # more"
    using query_memory [OF assms(1)] by auto
  have tw: "takeWhile (\<lambda>b. b \<noteq> ch \<and> b \<noteq> 0) (unread c @ 0 # more) = unread c"
    using assms(2,3) by (subst takeWhile_append2) auto
  have len: "qb_pos c + length (unread c) < length (buf (querybuf c))"
    using query_simps [OF assms(1)] by simp
  have "buf (querybuf c) ! (qb_pos c + length (unread c)) = drop (qb_pos c) (buf (querybuf c)) ! length (unread c)"
    using len by simp
  also have "\<dots> = 0" unfolding m by simp
  finally show ?thesis using len assms(4) unfolding strchr_at_def m tw Let_def by simp
qed

subsection \<open>Header lines\<close>

definition header :: "byte \<Rightarrow> nat \<Rightarrow> byte list" where
  "header ch n = ch # sdsll2str (int n) @ CRLF"

lemma header_length: "length (header ch n) = length (sdsll2str (int n)) + 3"
  by (simp add: header_def CRLF_def)

lemma number_clean:
  assumes "int n \<le> LLONG_MAX" "x \<in> set (sdsll2str (int n))"
  shows "x \<noteq> 13" "x \<noteq> 0" "x \<noteq> 10"
proof -
  have "isdigit x" using assms decimal_digits [of x n] ll2str_decimal [of "int n"] by (simp add: LLONG_MIN_def)
  then show "x \<noteq> 13" "x \<noteq> 0" "x \<noteq> 10" by (auto simp: isdigit_def)
qed

lemma number_length: "int n \<le> LLONG_MAX \<Longrightarrow> length (sdsll2str (int n)) < 21"
  using sdsll2str_length [of "int n"] by (simp add: LLONG_MIN_def SDS_LLSTR_SIZE_def)

lemma comparable_prefix:
  "prefix u (a @ x) \<or> prefix (a @ x) u \<Longrightarrow> length a \<le> length u \<Longrightarrow> prefix a u"
  using prefix_length_prefix [of a "a @ x" u] by (auto dest: append_prefixD)

text \<open>A header line is either incomplete, which is noticed, or found where it ends.\<close>

lemma find_line_header:
  assumes "query_ok c" "int n \<le> LLONG_MAX" "ch \<noteq> 13" "ch \<noteq> 0"
    "prefix (unread c) (header ch n @ x) \<or> prefix (header ch n @ x) (unread c)"
  shows "find_line c = Some (if length (unread c) < length (header ch n) then Inl Wait
     else Inr (qb_pos c + length (sdsll2str (int n)) + 1))"
proof -
  let ?d = "sdsll2str (int n)"
  note q = query_simps [OF assms(1)]
  have clean: "13 \<notin> set (ch # ?d)" "0 \<notin> set (ch # ?d)" using number_clean [OF assms(2)] assms(3,4) by auto
  show ?thesis
  proof (cases "length (unread c) < length (header ch n)")
    case False
    then have "prefix (header ch n) (unread c)"
      using assms(5) by (intro comparable_prefix [of _ _ x]) simp_all
    then obtain r where u: "unread c = (ch # ?d) @ 13 # 10 # r" by (auto simp: header_def CRLF_def elim!: prefixE)
    have "strchr_at (buf (querybuf c)) (qb_pos c) 13 = Some (Some (qb_pos c + length (ch # ?d)))"
      by (rule strchr_hit [OF assms(1) u clean])
    moreover have "qblen c = qb_pos c + length ?d + 3 + length r" using q(2,3) u by simp
    ultimately show ?thesis using False by (simp add: find_line_def)
  next
    case True
    have "prefix (unread c) (header ch n @ x)" using assms(5) True prefix_length_le by fastforce
    from prefix_length_prefix [OF this, of "header ch n"] True have px: "prefix (unread c) (header ch n)" by simp
    have "unread c = take (length (unread c)) (header ch n)"
      using px by (elim prefixE) simp
    then have cases: "(\<exists>k. unread c = take k (ch # ?d)) \<or> unread c = (ch # ?d) @ [13]"
      using True unfolding header_length
    proof (cases "length (unread c) \<le> length ?d + 1")
      case le: True
      then have "take (length (unread c)) (header ch n) = take (length (unread c)) (ch # ?d)"
        unfolding header_def by (cases "length (unread c)") auto
      with \<open>unread c = take _ _\<close> show ?thesis by metis
    next
      case no: False
      then have "length (unread c) = length (ch # ?d) + 1" using True by (simp add: header_length)
      then have "take (length (unread c)) (header ch n) = (ch # ?d) @ [13]" by (simp add: header_def CRLF_def)
      with \<open>unread c = take _ _\<close> show ?thesis by metis
    qed
    show ?thesis
    proof (cases "unread c = (ch # ?d) @ [13]")
      case u: True
      have "strchr_at (buf (querybuf c)) (qb_pos c) 13 = Some (Some (qb_pos c + length (ch # ?d)))"
        by (rule strchr_hit [OF assms(1) _ clean]) (use u in simp)
      moreover have "qblen c = qb_pos c + length ?d + 2" using q(2,3) u by simp
      ultimately show ?thesis using True by (simp add: find_line_def)
    next
      case False
      with cases obtain k where k: "unread c = take k (ch # ?d)" by blast
      then have "13 \<notin> set (unread c)" "0 \<notin> set (unread c)" using clean by (auto dest: in_set_takeD)
      from strchr_miss [OF assms(1) this] have "strchr_at (buf (querybuf c)) (qb_pos c) 13 = Some None" by simp
      moreover have "qblen c - qb_pos c \<le> 22" using q(2) k number_length [OF assms(2)] by simp
      ultimately show ?thesis using True by (simp add: find_line_def PROTO_INLINE_MAX_SIZE_def)
    qed
  qed
qed

subsection \<open>One argument\<close>

text \<open>Parsing changes only the query buffer and the collected arguments.\<close>

definition only_input :: "client \<Rightarrow> client \<Rightarrow> bool" where
  "only_input c c' \<longleftrightarrow>
     c'\<lparr>querybuf := querybuf c, qb_pos := qb_pos c, argv := argv c, argv_len := argv_len c, argv_len_sum := argv_len_sum c,
        multibulklen := multibulklen c, bulklen := bulklen c\<rparr> = c"

lemma only_input_refl [simp]: "only_input c c"
  by (simp add: only_input_def)

lemma only_input_trans: "only_input a b \<Longrightarrow> only_input b c \<Longrightarrow> only_input a c"
  by (cases a; cases b; cases c) (simp add: only_input_def)

lemma only_input_keeps:
  "only_input c c' \<Longrightarrow> flags c' = flags c \<and> authenticated c' = authenticated c \<and> reqtype c' = reqtype c \<and> same_queue c c'"
  by (cases c; cases c') (simp add: only_input_def same_queue_def)

text \<open>What the server accepts as one argument, and as a request.\<close>

definition arg_allowed :: "server \<Rightarrow> client \<Rightarrow> byte list \<Rightarrow> bool" where
  "arg_allowed sv c p \<longleftrightarrow> length p < 2 ^ 60 \<and> (has_flag c CLIENT_MASTER \<or> int (length p) \<le> proto_max_bulk_len sv) \<and>
     (authRequired sv c \<longrightarrow> length p \<le> 16384)"

definition request_allowed :: "server \<Rightarrow> client \<Rightarrow> byte list list \<Rightarrow> bool" where
  "request_allowed sv c ps \<longleftrightarrow> int (length ps) \<le> INT_MAX \<and> (authRequired sv c \<longrightarrow> length ps \<le> 10) \<and> list_all (arg_allowed sv c) ps"

lemma arg_llong: "arg_allowed sv c p \<Longrightarrow> int (length p) \<le> LLONG_MAX"
  by (simp add: arg_allowed_def LLONG_MAX_def)

lemma only_input_allowed:
  "only_input c c' \<Longrightarrow> arg_allowed sv c' p = arg_allowed sv c p \<and> request_allowed sv c' ps = request_allowed sv c ps"
proof -
  assume a: "only_input c c'"
  have "arg_allowed sv c' = arg_allowed sv c"
    using only_input_keeps [OF a] by (simp add: arg_allowed_def has_flag_def authRequired_def fun_eq_iff)
  then show ?thesis using only_input_keeps [OF a] by (simp add: request_allowed_def authRequired_def)
qed

lemma range_tail:
  assumes "sds_ok s" "slen s < 2 ^ 61" "n \<le> slen s"
  shows "\<exists>s'. sdsrange s (int n) (- 1) = Some s' \<and> sds_ok s' \<and> content s' = drop n (content s) \<and> slen s' = slen s - n"
proof -
  obtain s' where s': "sdsrange s (int n) (- 1) = Some s'" "sds_ok s'"
    "content s' = take (nat (int (slen s) - int n)) (drop n (content s))"
    using range_ok [OF assms(1), of "int n" "- 1"] assms(2,3) by (auto simp: Let_def)
  have "length (content s) = slen s" using assms(1) by (simp add: sds_ok_def wf_content_length)
  then have c: "content s' = drop n (content s)" using s'(3) assms(3) by simp
  have "slen s' = length (content s')" using s'(2) by (simp add: sds_ok_def wf_content_length)
  then show ?thesis using s'(1,2) c \<open>length (content s) = slen s\<close> by simp
qed

lemma room_tail:
  assumes "malloc_ok mal" "sds_ok s" "slen s + n < 2 ^ 62"
  shows "\<exists>s'. sdsMakeRoomForNonGreedy mal s n = Some s' \<and> sds_ok s' \<and> content s' = content s \<and> slen s' = slen s"
proof -
  obtain s' where s': "sdsMakeRoomForNonGreedy mal s n = Some s'" "sds_wf s'" "slen s' = slen s"
    "take (slen s + 1) (buf s') = take (slen s + 1) (buf s)"
    using MakeRoom_ok [OF assms(1) _ assms(3), of False] assms(2) by (auto simp: sdsMakeRoomForNonGreedy_def sds_ok_def)
  have l: "slen s < length (buf s')" "slen s < length (buf s)" using s'(2,3) assms(2) by (auto simp: sds_wf_def sds_ok_def)
  then have "take (slen s) (buf s') @ [buf s' ! slen s] = take (slen s) (buf s) @ [buf s ! slen s]"
    using s'(4) by (simp add: take_Suc_conv_app_nth)
  then have "take (slen s) (buf s') = take (slen s) (buf s)" "buf s' ! slen s = buf s ! slen s" by simp_all
  then show ?thesis using s' assms(2) by (simp add: sds_ok_def content_def)
qed

lemma bulk_length_ok:
  assumes "malloc_ok mal" "query_ok c" "arg_allowed sv c p"
    "prefix (unread c) (header 36 (length p) @ x) \<or> prefix (header 36 (length p) @ x) (unread c)"
  shows "if length (unread c) < length (header 36 (length p))
     then read_bulk_length mal usable sv c = Some (sv, c, Wait)
     else \<exists>c'. read_bulk_length mal usable sv c = Some (sv, c', Continue) \<and> only_input c c' \<and> query_ok c' \<and>
       bulklen c' = int (length p) \<and> unread c' = drop (length (header 36 (length p))) (unread c) \<and>
       multibulklen c' = multibulklen c \<and> argv c' = argv c \<and> argv_len c' = argv_len c"
proof -
  let ?d = "sdsll2str (int (length p))" and ?h = "header 36 (length p)"
  have ll: "int (length p) \<le> LLONG_MAX" using arg_llong [OF assms(3)] .
  note fl = find_line_header [OF assms(2) ll _ _ assms(4)]
  show ?thesis
  proof (cases "length (unread c) < length ?h")
    case True
    then show ?thesis using fl by (simp add: read_bulk_length_def)
  next
    case False
    then have "prefix ?h (unread c)"
      using assms(4) by (intro comparable_prefix [of _ _ x]) simp_all
    then obtain r where u: "unread c = 36 # ?d @ 13 # 10 # r" by (auto simp: header_def CRLF_def elim!: prefixE)
    have line: "find_line c = Some (Inr (qb_pos c + length ?d + 1))" using fl False by simp
    have ch: "get_at (buf (querybuf c)) (qb_pos c) = Some 36" by (rule query_get [OF assms(2) u])
    have rd: "read_at (buf (querybuf c)) (qb_pos c + 1) (qb_pos c + length ?d + 1 - (qb_pos c + 1)) = Some ?d"
      using query_read [OF assms(2), of 1 "length ?d"] u by simp
    have num: "string2ll ?d = Some (int (length p))"
      using ll number_length [OF ll] by (simp add: string2ll_signed signed_number_decimal LLONG_MIN_def LONG_STR_SIZE_def)
    let ?c1 = "c\<lparr>qb_pos := qb_pos c + length ?d + 1 + 2\<rparr>"
    note q = query_simps [OF assms(2)]
    have q1: "query_ok ?c1" using assms(2) q(1,2,3) u by (simp add: query_ok_def)
    have u1: "unread ?c1 = r"
    proof -
      have "unread ?c1 = drop (length ?d + 3) (unread c)" by (simp add: unread_def add.commute numeral_3_eq_3)
      also have "\<dots> = r" unfolding u by (simp add: numeral_3_eq_3)
      finally show ?thesis .
    qed
    let ?big = "\<not> has_flag ?c1 CLIENT_MASTER \<and> PROTO_MBULK_BIG_ARG \<le> int (length p) \<and>
        qblen ?c1 - qb_pos ?c1 \<le> nat (int (length p)) + 2"
    define big where "big = (if ?big then do {
          q \<leftarrow> sdsrange (querybuf ?c1) (int (qb_pos ?c1)) (- 1);
          q \<leftarrow> sdsMakeRoomForNonGreedy mal q (nat ((int (length p) + 2 - int (sdslen q)) mod 2 ^ 64));
          Some (?c1\<lparr>querybuf := q, qb_pos := 0\<rparr>) } else Some ?c1)"
    have "\<exists>c2. big = Some c2 \<and> only_input c c2 \<and> query_ok c2 \<and> unread c2 = r \<and> multibulklen c2 = multibulklen c \<and>
        argv c2 = argv c \<and> argv_len c2 = argv_len c"
    proof (cases ?big)
      case True
      obtain s1 where s1: "sdsrange (querybuf c) (int (qb_pos ?c1)) (- 1) = Some s1" "sds_ok s1"
        "content s1 = drop (qb_pos ?c1) (content (querybuf c))" "slen s1 = slen (querybuf c) - qb_pos ?c1"
        using range_tail [of "querybuf ?c1" "qb_pos ?c1"] q1 by (auto simp: query_ok_def)
      have le: "slen s1 \<le> length p + 2" using True s1(4) query_simps(1) [OF q1] by simp
      have p: "length p < 2 ^ 60" using assms(3) by (simp add: arg_allowed_def)
      have sl: "sdslen s1 = slen s1" using s1(2) by (simp add: sds_ok_def)
      have m: "(int (length p) + 2 - int (slen s1)) mod 2 ^ 64 = int (length p + 2 - slen s1)"
        using le p by (subst mod_pos_pos_trivial) (simp_all add: of_nat_diff)
      have "slen s1 + (length p + 2 - slen s1) < 2 ^ 62" using le p by simp
      from room_tail [OF assms(1) s1(2) this] obtain s2 where s2: "sdsMakeRoomForNonGreedy mal s1 (length p + 2 - slen s1) = Some s2"
        "sds_ok s2" "content s2 = content s1" "slen s2 = slen s1" by blast
      let ?c2 = "?c1\<lparr>querybuf := s2, qb_pos := 0\<rparr>"
      have "big = Some ?c2" unfolding big_def if_P [OF True] using s1(1) s2(1) m sl by simp
      moreover have "query_ok ?c2" using s2 le p by (simp add: query_ok_def)
      moreover have "unread ?c2 = r" using u1 s2(3) s1(3) by (simp add: unread_def)
      ultimately show ?thesis by (intro exI [of _ ?c2]) (simp add: only_input_def)
    next
      case no: False
      then show ?thesis unfolding big_def if_not_P [OF no] using q1 u1
        by (intro exI [of _ ?c1]) (simp add: only_input_def)
    qed
    then obtain c2 where c2: "big = Some c2" "only_input c c2" "query_ok c2" "unread c2 = r" "multibulklen c2 = multibulklen c"
        "argv c2 = argv c" "argv_len c2 = argv_len c" by blast
    have lim: "\<not> (int (length p) < 0 \<or> (\<not> has_flag c CLIENT_MASTER \<and> proto_max_bulk_len sv < int (length p)))"
      "\<not> (16384 < int (length p) \<and> authRequired sv c)" using assms(3) by (auto simp: arg_allowed_def)
    have "read_bulk_length mal usable sv c = big \<bind> (\<lambda>c. Some (sv, c\<lparr>bulklen := int (length p)\<rparr>, Continue))"
      unfolding read_bulk_length_def line big_def Let_def
      by (simp only: ch rd num if_not_P [OF lim(1)] if_not_P [OF lim(2)] Option.bind.simps sum.case option.case simp_thms if_False)
    then have eq: "read_bulk_length mal usable sv c = Some (sv, c2\<lparr>bulklen := int (length p)\<rparr>, Continue)" using c2(1) by simp
    have d: "drop (length ?h) (unread c) = r" using u by (simp add: header_length numeral_3_eq_3)
    show ?thesis using False eq c2 d
      by (simp add: only_input_def query_ok_def unread_def)
  qed
qed

definition args_room :: "client \<Rightarrow> bool" where
  "args_room c \<longleftrightarrow> 0 < argv_len c \<and> argc c \<le> argv_len c \<and> int (argc c) + multibulklen c \<le> INT_MAX"

lemma incr_minus_two:
  assumes "sds_ok s" "2 \<le> slen s"
  shows "\<exists>s'. sdsIncrLen s (- 2) = Some s' \<and> sds_ok s' \<and> content s' = take (slen s - 2) (content s)"
proof -
  have "\<exists>s'. sdsIncrLen s (- 2) = Some s' \<and> sds_ok s' \<and> content s' = take (nat (int (slen s) + (- 2))) (buf s)"
    using assms by (intro IncrLen_ok) (auto simp: sds_ok_def)
  moreover have "nat (int (slen s) + (- 2)) = slen s - 2" by simp
  ultimately show ?thesis by (auto simp: content_def min_def)
qed

lemma fresh_empty:
  assumes "malloc_ok mal" "n < 2 ^ 62"
  shows "\<exists>q q'. sdsnewlen mal NoInit n = Some q \<and> sdsclear q = Some q' \<and> sds_ok q' \<and> slen q' = 0"
proof -
  obtain q where q: "sdsnewlen mal NoInit n = Some q" "sds_ok q" using newlen_ok [OF assms, of NoInit] by auto
  let ?q = "q\<lparr>slen := 0, buf := (buf q)[0 := 0]\<rparr>"
  have "0 < length (buf q)" using q(2) by (auto simp: sds_ok_def sds_wf_def)
  then have "sdsclear q = Some ?q" "sds_ok ?q" using q(2) by (auto simp: sdsclear_def sds_ok_def sds_wf_def sdssetlen_def)
  then show ?thesis using q(1) by auto
qed

lemma sds_text: "sds_ok s \<Longrightarrow> read_at (buf s) 0 (sdslen s) = Some (content s)"
  by (auto simp: sds_ok_def sds_wf_def read_at_def content_def sdslen_def)

lemma read_bulk_ok:
  assumes "malloc_ok mal" "query_ok c" "length p < 2 ^ 60" "bulklen c = int (length p)" "args_room c" "0 < multibulklen c"
    "prefix (unread c) (p @ CRLF @ x) \<or> prefix (p @ CRLF @ x) (unread c)"
  shows "if length (unread c) < length p + 2 then read_bulk mal c = Some (c, Wait)
     else \<exists>c'. read_bulk mal c = Some (c', Continue) \<and> only_input c c' \<and> query_ok c' \<and> args_room c' \<and>
       bulklen c' = - 1 \<and> multibulklen c' = multibulklen c - 1 \<and> argv c' = argv c @ [p] \<and>
       unread c' = drop (length p + 2) (unread c)"
proof (cases "length (unread c) < length p + 2")
  case True
  then have "int (qblen c) - int (qb_pos c) < bulklen c + 2" using query_simps(2,3) [OF assms(2)] assms(4) by linarith
  then show ?thesis using True by (simp add: read_bulk_def)
next
  case False
  note q = query_simps [OF assms(2)]
  have "prefix (p @ CRLF) (unread c)"
    using False assms(7) by (intro comparable_prefix [of _ _ x]) (simp_all add: CRLF_def)
  then obtain r where u: "unread c = p @ CRLF @ r" by (auto elim!: prefixE)
  have enough: "\<not> int (qblen c) - int (qb_pos c) < bulklen c + 2" using False q(2,3) assms(4) by linarith
  define c1 where "c1 = (if argv_len c \<le> argc c
       then c\<lparr>argv_len := nat (min (if int (argv_len c) < INT_MAX div 2 then int (argv_len c) * 2 else INT_MAX)
                                   (int (argc c) + multibulklen c))\<rparr> else c)"
  have c1: "only_input c c1" "querybuf c1 = querybuf c" "qb_pos c1 = qb_pos c" "argv c1 = argv c" "bulklen c1 = bulklen c"
    "multibulklen c1 = multibulklen c" "argv_len_sum c1 = argv_len_sum c"
    by (simp_all add: c1_def only_input_def)
  have room: "argc c < argv_len c1"
    using assms(5,6) by (auto simp: c1_def args_room_def INT_MAX_def)
  have step: "read_bulk mal c = (do {
        c2 \<leftarrow> (if \<not> has_flag c1 CLIENT_MASTER \<and> qb_pos c1 = 0 \<and> PROTO_MBULK_BIG_ARG \<le> bulklen c1 \<and>
                 int (qblen c1) = bulklen c1 + 2
          then do {
            arg \<leftarrow> sdsIncrLen (querybuf c1) (- 2);
            text \<leftarrow> read_at (buf arg) 0 (sdslen arg);
            q \<leftarrow> sdsnewlen mal NoInit (nat (bulklen c1 + 2));
            q \<leftarrow> sdsclear q;
            Some (c1\<lparr>argv := argv c1 @ [text], argv_len_sum := argv_len_sum c1 + nat (bulklen c1), querybuf := q\<rparr>) }
          else do {
            text \<leftarrow> read_at (buf (querybuf c1)) (qb_pos c1) (nat (bulklen c1));
            Some (c1\<lparr>argv := argv c1 @ [text], argv_len_sum := argv_len_sum c1 + nat (bulklen c1),
                   qb_pos := qb_pos c1 + nat (bulklen c1) + 2\<rparr>) });
        Some (c2\<lparr>bulklen := - 1, multibulklen := multibulklen c2 - 1\<rparr>, Continue) })"
    unfolding read_bulk_def Let_def if_not_P [OF enough] c1_def [symmetric] using room c1(4) by simp
  show ?thesis
  proof (cases "\<not> has_flag c1 CLIENT_MASTER \<and> qb_pos c1 = 0 \<and> PROTO_MBULK_BIG_ARG \<le> bulklen c1 \<and> int (qblen c1) = bulklen c1 + 2")
    case True
    have qb: "qb_pos c = 0" "slen (querybuf c) = length p + 2" using True c1 q(1) assms(4) by (simp_all add: qblen_def)
    then have ct: "content (querybuf c) = p @ CRLF" using u q(1,6) by (simp add: unread_def CRLF_def)
    obtain arg where arg: "sdsIncrLen (querybuf c) (- 2) = Some arg" "sds_ok arg" "content arg = p"
      using incr_minus_two [of "querybuf c"] assms(2) qb ct by (auto simp: query_ok_def)
    have "nat (bulklen c + 2) < 2 ^ 62" using assms(3,4) by (simp add: nat_add_distrib)
    from fresh_empty [OF assms(1) this] obtain q1 q2 where
      n: "sdsnewlen mal NoInit (nat (bulklen c + 2)) = Some q1" "sdsclear q1 = Some q2" "sds_ok q2" "slen q2 = 0"
      by blast
    let ?c = "c1\<lparr>argv := argv c1 @ [p], argv_len_sum := argv_len_sum c1 + nat (bulklen c1), querybuf := q2,
        bulklen := - 1, multibulklen := multibulklen c1 - 1\<rparr>"
    have "read_bulk mal c = Some (?c, Continue)"
      unfolding step if_P [OF True] using arg(1) n(1,2) sds_text [OF arg(2)] arg(3) c1 by simp
    moreover have "only_input c ?c" using c1(1) by (simp add: only_input_def)
    moreover have "query_ok ?c" "unread ?c = drop (length p + 2) (unread c)"
      using n(3,4) qb c1 by (simp_all add: query_ok_def unread_def content_def q(6) qblen_def)
    moreover have "args_room ?c" using room assms(5,6) c1 by (simp add: args_room_def)
    ultimately show ?thesis using False c1 by auto
  next
    case no: False
    let ?c = "c1\<lparr>argv := argv c1 @ [p], argv_len_sum := argv_len_sum c1 + nat (bulklen c1), qb_pos := qb_pos c1 + length p + 2,
        bulklen := - 1, multibulklen := multibulklen c1 - 1\<rparr>"
    have "read_at (buf (querybuf c)) (qb_pos c) (length p) = Some p"
      using query_read [OF assms(2), of 0 "length p"] u by simp
    then have "read_bulk mal c = Some (?c, Continue)"
      unfolding step if_not_P [OF no] using c1 assms(4) by simp
    moreover have "only_input c ?c" using c1(1) by (simp add: only_input_def)
    moreover have "query_ok ?c" "unread ?c = drop (length p + 2) (unread c)"
      using assms(2) False q(1,2,3) c1 by (simp_all add: query_ok_def unread_def add.commute add.left_commute)
    moreover have "args_room ?c" using room assms(5,6) c1 by (simp add: args_room_def)
    ultimately show ?thesis using False c1 by auto
  qed
qed

subsection \<open>A whole request\<close>

text \<open>The bytes the parser still has to see for the arguments \<open>todo\<close>, and its state in the middle of a request.\<close>

definition need :: "client \<Rightarrow> byte list list \<Rightarrow> byte list" where
  "need c todo = (if bulklen c = - 1 then concat (map bulk_text todo)
     else hd todo @ CRLF @ concat (map bulk_text (tl todo)))"

definition parsing :: "client \<Rightarrow> byte list list \<Rightarrow> bool" where
  "parsing c todo \<longleftrightarrow> query_ok c \<and> args_room c \<and> multibulklen c = int (length todo) \<and>
     (bulklen c = - 1 \<or> (todo \<noteq> [] \<and> bulklen c = int (length (hd todo))))"

lemma bulk_header: "bulk_text p = header 36 (length p) @ p @ CRLF"
  by (simp add: bulk_text_def header_def)

lemma bulk_text_nonempty [simp]: "bulk_text p \<noteq> []"
  by (simp add: bulk_text_def)

lemma need_nonempty: "parsing c todo \<Longrightarrow> todo \<noteq> [] \<Longrightarrow> need c todo \<noteq> []"
  by (cases todo) (auto simp: need_def CRLF_def)

lemma comparable_drop:
  "prefix u v \<or> prefix v u \<Longrightarrow> prefix a u \<Longrightarrow> prefix a v \<Longrightarrow>
    prefix (drop (length a) u) (drop (length a) v) \<or> prefix (drop (length a) v) (drop (length a) u)"
  by (auto simp: prefix_def)

lemma loop_step_bulk:
  assumes "malloc_ok mal" "parsing c (p # ps)" "bulklen c \<noteq> - 1" "length p < 2 ^ 60"
    "prefix (unread c) (need c (p # ps)) \<or> prefix (need c (p # ps)) (unread c)"
  shows "if length (unread c) < length p + 2
     then read_bulk mal c = Some (c, Wait)
     else \<exists>c'. read_bulk mal c = Some (c', Continue) \<and> only_input c c' \<and> parsing c' ps \<and> argv c' = argv c @ [p] \<and>
       unread c = (p @ CRLF) @ unread c' \<and> need c (p # ps) = (p @ CRLF) @ need c' ps \<and>
       (prefix (unread c') (need c' ps) \<or> prefix (need c' ps) (unread c'))"
proof -
  have s: "query_ok c" "args_room c" "multibulklen c = int (length ps) + 1" "bulklen c = int (length p)"
    using assms(2,3) by (auto simp: parsing_def)
  have n: "need c (p # ps) = p @ CRLF @ concat (map bulk_text ps)" using assms(3) by (simp add: need_def)
  note rb = read_bulk_ok [OF assms(1) s(1) assms(4) s(4,2) _ assms(5) [unfolded n]]
  show ?thesis
  proof (cases "length (unread c) < length p + 2")
    case True
    then show ?thesis using rb s(3) by simp
  next
    case False
    then obtain c' where c': "read_bulk mal c = Some (c', Continue)" "only_input c c'" "query_ok c'" "args_room c'" "bulklen c' = - 1"
      "multibulklen c' = multibulklen c - 1" "argv c' = argv c @ [p]" "unread c' = drop (length p + 2) (unread c)"
      using rb s(3) by auto
    have px: "prefix (p @ CRLF) (unread c)"
      using False assms(5) n by (intro comparable_prefix [of _ _ "concat (map bulk_text ps)"]) (simp_all add: CRLF_def)
    have u: "unread c = (p @ CRLF) @ unread c'" using px c'(8) by (auto simp: CRLF_def elim!: prefixE)
    have n': "need c (p # ps) = (p @ CRLF) @ need c' ps" using n c'(5) by (simp add: need_def)
    have "parsing c' ps" using c' s(3) by (simp add: parsing_def)
    moreover have "prefix (unread c') (need c' ps) \<or> prefix (need c' ps) (unread c')"
      using assms(5) unfolding u n' by simp
    ultimately show ?thesis using False c'(1,2,7) u n' by simp
  qed
qed

lemma loop_step_length:
  assumes "malloc_ok mal" "parsing c (p # ps)" "bulklen c = - 1" "arg_allowed sv c p"
    "prefix (unread c) (need c (p # ps)) \<or> prefix (need c (p # ps)) (unread c)"
  shows "if length (unread c) < length (header 36 (length p))
     then read_bulk_length mal usable sv c = Some (sv, c, Wait)
     else \<exists>c'. read_bulk_length mal usable sv c = Some (sv, c', Continue) \<and> only_input c c' \<and> parsing c' (p # ps) \<and>
       bulklen c' \<noteq> - 1 \<and> argv c' = argv c \<and>
       unread c = header 36 (length p) @ unread c' \<and> need c (p # ps) = header 36 (length p) @ need c' (p # ps) \<and>
       (prefix (unread c') (need c' (p # ps)) \<or> prefix (need c' (p # ps)) (unread c'))"
proof -
  let ?h = "header 36 (length p)" and ?x = "p @ CRLF @ concat (map bulk_text ps)"
  have s: "query_ok c" "args_room c" "multibulklen c = int (length ps) + 1" using assms(2) by (auto simp: parsing_def)
  have n: "need c (p # ps) = ?h @ ?x" using assms(3) by (simp add: need_def bulk_header)
  note bl = bulk_length_ok [OF assms(1) s(1) assms(4) assms(5) [unfolded n], where usable = usable]
  show ?thesis
  proof (cases "length (unread c) < length ?h")
    case True
    then show ?thesis using bl by simp
  next
    case False
    then obtain c' where c': "read_bulk_length mal usable sv c = Some (sv, c', Continue)" "only_input c c'" "query_ok c'"
      "bulklen c' = int (length p)" "unread c' = drop (length ?h) (unread c)" "multibulklen c' = multibulklen c"
      "argv c' = argv c" "argv_len c' = argv_len c" using bl by auto
    have "prefix ?h (unread c)" using False assms(5) n by (intro comparable_prefix [of _ _ ?x]) simp_all
    then have u: "unread c = ?h @ unread c'" using c'(5) by (auto elim!: prefixE)
    have n': "need c (p # ps) = ?h @ need c' (p # ps)" using n c'(4) by (simp add: need_def)
    have "parsing c' (p # ps)" using c' s by (simp add: parsing_def args_room_def)
    moreover have "prefix (unread c') (need c' (p # ps)) \<or> prefix (need c' (p # ps)) (unread c')"
      using assms(5) unfolding u n' by simp
    ultimately show ?thesis using False c'(1,2,4,7) u n' by simp
  qed
qed

text \<open>How far the parser comes: it consumes a common prefix \<open>x\<close> of what arrived and what is due, and stops in the middle
  exactly when not everything has arrived.\<close>

definition parsed :: "client \<Rightarrow> byte list list \<Rightarrow> client \<Rightarrow> byte list list \<Rightarrow> bool" where
  "parsed c todo c' todo' \<longleftrightarrow> only_input c c' \<and> parsing c' todo' \<and> argv c' @ todo' = argv c @ todo \<and>
     (\<exists>x. unread c = x @ unread c' \<and> need c todo = x @ need c' todo') \<and>
     (todo' = [] \<longleftrightarrow> prefix (need c todo) (unread c))"

lemma parsed_step:
  assumes "only_input c c1" "argv c1 @ todo1 = argv c @ todo" "unread c = x @ unread c1" "need c todo = x @ need c1 todo1"
    "parsed c1 todo1 c' todo'"
  shows "parsed c todo c' todo'"
  using assms only_input_trans [OF assms(1), of c'] unfolding parsed_def by auto

lemma parsed_wait:
  assumes "parsing c todo" "todo \<noteq> []" "length (unread c) < length (need c todo)"
  shows "parsed c todo c todo"
  using assms prefix_length_le [of "need c todo" "unread c"] by (auto simp: parsed_def)

lemma multibulk_loop_ok:
  assumes "malloc_ok mal"
  shows "parsing c todo \<Longrightarrow> list_all (arg_allowed sv c) todo \<Longrightarrow>
     prefix (unread c) (need c todo) \<or> prefix (need c todo) (unread c) \<Longrightarrow>
     \<exists>c' todo' p. multibulk_loop mal usable (length todo) sv c = Some (sv, c', p) \<and> parsed c todo c' todo'"
proof (induction todo arbitrary: c)
  case Nil
  then show ?case by (auto simp: parsed_def parsing_def need_def)
next
  case (Cons a ps)
  have big: "length a < 2 ^ 60" "arg_allowed sv c a" using Cons.prems(2) by (auto simp: arg_allowed_def)
  have bulk: "\<exists>c' todo' p. (do {
        (c, p) \<leftarrow> read_bulk mal c1;
        (if p \<noteq> Continue then Some (sv, c, p) else multibulk_loop mal usable (length ps) sv c) }) = Some (sv, c', p) \<and>
      parsed c1 (a # ps) c' todo'"
    if c1: "parsing c1 (a # ps)" "bulklen c1 \<noteq> - 1" "only_input c c1"
      "prefix (unread c1) (need c1 (a # ps)) \<or> prefix (need c1 (a # ps)) (unread c1)" for c1
  proof (cases "length (unread c1) < length a + 2")
    case True
    have "parsed c1 (a # ps) c1 (a # ps)"
      using c1 True by (intro parsed_wait) (simp_all add: need_def CRLF_def)
    then show ?thesis using loop_step_bulk [OF assms c1(1,2) big(1) c1(4)] True by auto
  next
    case False
    then obtain c2 where c2: "read_bulk mal c1 = Some (c2, Continue)" "only_input c1 c2" "parsing c2 ps" "argv c2 = argv c1 @ [a]"
      "unread c1 = (a @ CRLF) @ unread c2" "need c1 (a # ps) = (a @ CRLF) @ need c2 ps"
      "prefix (unread c2) (need c2 ps) \<or> prefix (need c2 ps) (unread c2)"
      using loop_step_bulk [OF assms c1(1,2) big(1) c1(4)] by auto
    have "list_all (arg_allowed sv c2) ps"
      using Cons.prems(2) only_input_allowed [OF only_input_trans [OF c1(3) c2(2)]] by (simp add: list_all_iff)
    from Cons.IH [OF c2(3) this c2(7)] obtain c' todo' p where
      ih: "multibulk_loop mal usable (length ps) sv c2 = Some (sv, c', p)" "parsed c2 ps c' todo'" by blast
    have "parsed c1 (a # ps) c' todo'" by (rule parsed_step [OF c2(2) _ c2(5,6) ih(2)]) (simp add: c2(4))
    then show ?thesis using c2(1) ih(1) by auto
  qed
  show ?case
  proof (cases "bulklen c = - 1")
    case False
    then show ?thesis using bulk [OF Cons.prems(1) False only_input_refl Cons.prems(3)] by simp
  next
    case True
    note len = loop_step_length [OF assms Cons.prems(1) True big(2) Cons.prems(3), where usable = usable]
    show ?thesis
    proof (cases "length (unread c) < length (header 36 (length a))")
      case short: True
      have "parsed c (a # ps) c (a # ps)"
        using Cons.prems(1) True short by (intro parsed_wait) (simp_all add: need_def bulk_header)
      then show ?thesis using len short True by (auto intro!: exI [of _ c])
    next
      case False
      then obtain c1 where c1: "read_bulk_length mal usable sv c = Some (sv, c1, Continue)" "only_input c c1" "parsing c1 (a # ps)"
        "bulklen c1 \<noteq> - 1" "argv c1 = argv c" "unread c = header 36 (length a) @ unread c1"
        "need c (a # ps) = header 36 (length a) @ need c1 (a # ps)"
        "prefix (unread c1) (need c1 (a # ps)) \<or> prefix (need c1 (a # ps)) (unread c1)"
        using len by auto
      from bulk [OF c1(3,4,2,8)] obtain c' todo' p where
        b: "(do { (c, p) \<leftarrow> read_bulk mal c1;
            (if p \<noteq> Continue then Some (sv, c, p) else multibulk_loop mal usable (length ps) sv c) }) = Some (sv, c', p)"
          "parsed c1 (a # ps) c' todo'" by blast
      have "parsed c (a # ps) c' todo'" by (rule parsed_step [OF c1(2) _ c1(6,7) b(2)]) (simp add: c1(5))
      moreover have "multibulk_loop mal usable (length (a # ps)) sv c = Some (sv, c', p)"
        using True c1(1) b(1) by simp
      ultimately show ?thesis by blast
    qed
  qed
qed

subsection \<open>A request in any number of pieces\<close>

text \<open>A client in the middle of receiving the request \<open>args\<close>, and the bytes of it still due.\<close>

definition receiving :: "client \<Rightarrow> byte list list \<Rightarrow> bool" where
  "receiving c args \<longleftrightarrow> query_ok c \<and> prefix (argv c) args \<and>
     (if multibulklen c = 0 then argv c = [] \<and> bulklen c = - 1 else parsing c (drop (argc c) args))"

definition due :: "client \<Rightarrow> byte list list \<Rightarrow> byte list" where
  "due c args = (if multibulklen c = 0 then resp_text args else need c (drop (argc c) args))"

lemma resp_header: "resp_text args = header 42 (length args) @ concat (map bulk_text args)"
  by (simp add: resp_text_def array_text_def header_def)

lemma mbulk_count_ok:
  assumes "query_ok c" "argv c = []" "bulklen c = - 1" "multibulklen c = 0" "request_allowed sv c args"
    "prefix (unread c) (resp_text args) \<or> prefix (resp_text args) (unread c)"
  shows "if length (unread c) < length (header 42 (length args))
     then read_mbulk_count usable sv c = Some (sv, c, Wait)
     else \<exists>c'. read_mbulk_count usable sv c = Some (sv, c', Continue) \<and> only_input c c' \<and> query_ok c' \<and>
       multibulklen c' = int (length args) \<and> (args \<noteq> [] \<longrightarrow> parsing c' args) \<and> argv c' = [] \<and> bulklen c' = - 1 \<and>
       unread c = header 42 (length args) @ unread c'"
proof -
  let ?d = "sdsll2str (int (length args))" and ?h = "header 42 (length args)"
  have i: "int (length args) \<le> INT_MAX" using assms(5) by (simp add: request_allowed_def)
  then have ll: "int (length args) \<le> LLONG_MAX" by (simp add: INT_MAX_def LLONG_MAX_def)
  have fl: "find_line c = Some (if length (unread c) < length ?h then Inl Wait else Inr (qb_pos c + length ?d + 1))"
    using assms(6) unfolding resp_header by (intro find_line_header [OF assms(1) ll]) simp_all
  show ?thesis
  proof (cases "length (unread c) < length ?h")
    case True
    then show ?thesis using fl assms(2) by (simp add: read_mbulk_count_def)
  next
    case False
    then have "prefix ?h (unread c)"
      using assms(6) unfolding resp_header by (intro comparable_prefix [of _ _ "concat (map bulk_text args)"]) simp_all
    then obtain r where u: "unread c = 42 # ?d @ 13 # 10 # r" by (auto simp: header_def CRLF_def elim!: prefixE)
    have line: "find_line c = Some (Inr (qb_pos c + length ?d + 1))" using fl False by simp
    have ch: "get_at (buf (querybuf c)) (qb_pos c) = Some 42" by (rule query_get [OF assms(1) u])
    have rd: "read_at (buf (querybuf c)) (qb_pos c + 1) (qb_pos c + length ?d + 1 - (qb_pos c + 1)) = Some ?d"
      using query_read [OF assms(1), of 1 "length ?d"] u by simp
    have num: "string2ll ?d = Some (int (length args))"
      using ll number_length [OF ll] by (simp add: string2ll_signed signed_number_decimal LLONG_MIN_def LONG_STR_SIZE_def)
    have lim: "\<not> INT_MAX < int (length args)" "\<not> (10 < int (length args) \<and> authRequired sv c)"
      using assms(5) by (auto simp: request_allowed_def)
    let ?c1 = "c\<lparr>qb_pos := qb_pos c + length ?d + 1 + 2\<rparr>"
    let ?c2 = "if int (length args) \<le> 0 then ?c1 else ?c1\<lparr>multibulklen := int (length args), argv_len := nat (min (int (length args)) 1024),
        argv := [], argv_len_sum := 0\<rparr>"
    have eq: "read_mbulk_count usable sv c = Some (sv, ?c2, Continue)"
      unfolding read_mbulk_count_def line
      using assms(2) ch rd num lim by (simp del: de_Morgan_disj de_Morgan_conj add: Let_def)
    note q = query_simps [OF assms(1)]
    have q1: "query_ok ?c1" using assms(1) q(1,2,3) u by (simp add: query_ok_def)
    then have q2: "query_ok ?c2" by (cases "args = []") (simp_all add: query_ok_def)
    have "unread ?c1 = drop (length ?d + 3) (unread c)" by (simp add: unread_def add.commute numeral_3_eq_3)
    also have "\<dots> = r" unfolding u by (simp add: numeral_3_eq_3)
    finally have u1: "unread ?c1 = r" .
    then have "unread ?c2 = r" by (cases "args = []") (simp_all add: unread_def)
    then have u2: "unread c = ?h @ unread ?c2" using u by (simp add: header_def CRLF_def)
    have "args_room ?c2" if "args \<noteq> []" using that i by (simp add: args_room_def)
    then have "args \<noteq> [] \<longrightarrow> parsing ?c2 args" using q2 assms(3) by (cases "args = []") (simp_all add: parsing_def)
    moreover have "only_input c ?c2" by (simp add: only_input_def)
    moreover have "multibulklen ?c2 = int (length args)" "argv ?c2 = []" "bulklen ?c2 = - 1" using assms(2,3,4) by simp_all
    ultimately show ?thesis using False eq q2 u2 by (intro if_not_P [THEN iffD2] exI [of _ ?c2]) blast+
  qed
qed

lemma multibulk_ok:
  assumes "malloc_ok mal" "receiving c args" "request_allowed sv c args"
    "prefix (unread c) (due c args) \<or> prefix (due c args) (unread c)"
  shows "\<exists>c' r. processMultibulkBuffer mal usable sv c = Some (sv, c', r) \<and> only_input c c' \<and> query_ok c' \<and>
     (if prefix (due c args) (unread c)
      then r = C_OK \<and> argv c' = args \<and> multibulklen c' = 0 \<and> bulklen c' = - 1 \<and> unread c = due c args @ unread c'
      else r = C_ERR \<and> receiving c' args \<and> (\<exists>x. unread c = x @ unread c' \<and> due c args = x @ due c' args))"
proof -
  have rest: "\<exists>c' r. (do { ensure (0 < multibulklen c1);
        (sv, c, p) \<leftarrow> multibulk_loop mal usable (nat (multibulklen c1)) sv c1;
        Some (sv, c, if multibulklen c = 0 then C_OK else C_ERR) }) = Some (sv, c', r) \<and> only_input c c' \<and> query_ok c' \<and>
     (if prefix (h @ need c1 todo) (unread c)
      then r = C_OK \<and> argv c' = args \<and> multibulklen c' = 0 \<and> bulklen c' = - 1 \<and> unread c = (h @ need c1 todo) @ unread c'
      else r = C_ERR \<and> receiving c' args \<and> (\<exists>x. unread c = x @ unread c' \<and> h @ need c1 todo = x @ due c' args))"
    if c1: "parsing c1 todo" "todo \<noteq> []" "only_input c c1" "argv c1 @ todo = args" "unread c = h @ unread c1"
      "prefix (unread c1) (need c1 todo) \<or> prefix (need c1 todo) (unread c1)" for c1 todo h
  proof -
    have "list_all (arg_allowed sv c1) todo"
      using assms(3) c1(4) by (auto simp: request_allowed_def list_all_iff only_input_allowed [OF c1(3), THEN conjunct1])
    from multibulk_loop_ok [OF assms(1) c1(1) this c1(6), where usable = usable] obtain c' todo' p where
      l: "multibulk_loop mal usable (length todo) sv c1 = Some (sv, c', p)" "parsed c1 todo c' todo'" by blast
    obtain x where d: "only_input c1 c'" "parsing c' todo'" "argv c' @ todo' = args" "unread c1 = x @ unread c'"
      "need c1 todo = x @ need c' todo'" "todo' = [] \<longleftrightarrow> prefix (need c1 todo) (unread c1)"
      using l(2) c1(4) unfolding parsed_def by auto
    have m: "multibulklen c1 = int (length todo)" "multibulklen c' = int (length todo')" "query_ok c'"
      using c1(1) d(2) by (simp_all add: parsing_def)
    have o: "only_input c c'" using only_input_trans [OF c1(3) d(1)] .
    have td: "drop (argc c') args = todo'" using d(3) by auto
    show ?thesis
    proof (cases "todo' = []")
      case True
      then have "bulklen c' = - 1" "need c' todo' = []" using d(2) by (auto simp: parsing_def need_def)
      then show ?thesis using True l(1) m o d c1(2,5) by auto
    next
      case False
      have "receiving c' args" using d(2,3) m False td by (auto simp: receiving_def)
      moreover have "due c' args = need c' todo'" using False m(2) td by (simp add: due_def)
      moreover have "\<not> prefix (h @ need c1 todo) (unread c)" using False d(6) c1(5) by simp
      ultimately show ?thesis using False l(1) m o d(4,5) c1(2,5) by auto
    qed
  qed
  show ?thesis
  proof (cases "multibulklen c = 0")
    case False
    let ?todo = "drop (argc c) args"
    have s: "parsing c ?todo" "argv c @ ?todo = args" using assms(2) False by (auto simp: receiving_def elim!: prefixE)
    then have "?todo \<noteq> []" using False by (auto simp: parsing_def)
    have du: "due c args = need c ?todo" using False by (simp add: due_def)
    have eq: "processMultibulkBuffer mal usable sv c = (do { ensure (0 < multibulklen c);
        (sv, c, p) \<leftarrow> multibulk_loop mal usable (nat (multibulklen c)) sv c;
        Some (sv, c, if multibulklen c = 0 then C_OK else C_ERR) })"
      using False by (simp add: processMultibulkBuffer_def)
    show ?thesis unfolding du eq
      by (rule rest [OF s(1) \<open>?todo \<noteq> []\<close> only_input_refl s(2), of "[]", unfolded append_Nil, OF refl assms(4) [unfolded du]])
  next
    case True
    let ?h = "header 42 (length args)"
    have s: "query_ok c" "argv c = []" "bulklen c = - 1" using assms(2) True by (auto simp: receiving_def)
    have du: "due c args = ?h @ concat (map bulk_text args)" using True by (simp add: due_def resp_header)
    note mc = mbulk_count_ok [OF s True assms(3), where usable = usable]
    have cmp: "prefix (unread c) (resp_text args) \<or> prefix (resp_text args) (unread c)"
      using assms(4) True by (simp add: due_def)
    show ?thesis
    proof (cases "length (unread c) < length ?h")
      case short: True
      then have "\<not> prefix (due c args) (unread c)" using prefix_length_le [of "due c args" "unread c"] du by auto
      moreover have "processMultibulkBuffer mal usable sv c = Some (sv, c, C_ERR)"
        using mc [OF cmp] short True by (simp add: processMultibulkBuffer_def)
      ultimately show ?thesis using assms(2) s(1) by auto
    next
      case False
      then obtain c1 where c1: "read_mbulk_count usable sv c = Some (sv, c1, Continue)" "only_input c c1" "query_ok c1"
        "multibulklen c1 = int (length args)" "args \<noteq> [] \<longrightarrow> parsing c1 args" "argv c1 = []" "bulklen c1 = - 1"
        "unread c = ?h @ unread c1" using mc [OF cmp] by auto
      have n: "need c1 args = concat (map bulk_text args)" using c1(7) by (simp add: need_def)
      have cmp1: "prefix (unread c1) (need c1 args) \<or> prefix (need c1 args) (unread c1)"
        using assms(4) unfolding du c1(8) n by simp
      show ?thesis
      proof (cases "args = []")
        case e: True
        then have "processMultibulkBuffer mal usable sv c = Some (sv, c1, C_OK)"
          using True c1(1,4) by (simp add: processMultibulkBuffer_def)
        moreover have "due c args = ?h" using du e by simp
        ultimately show ?thesis using c1 e by auto
      next
        case ne: False
        have "processMultibulkBuffer mal usable sv c = (do { ensure (0 < multibulklen c1);
            (sv, c, p) \<leftarrow> multibulk_loop mal usable (nat (multibulklen c1)) sv c1;
            Some (sv, c, if multibulklen c = 0 then C_OK else C_ERR) })"
          using True c1(1,4) ne by (simp add: processMultibulkBuffer_def)
        with rest [OF _ ne c1(2) _ c1(8) cmp1] c1(5,6) ne show ?thesis unfolding du n by simp
      qed
    qed
  qed
qed

subsection \<open>Malformed requests\<close>

lemma of_char_nonzero:
  assumes "ch \<noteq> CHR 0x00"
  shows "(of_char ch :: byte) \<noteq> 0"
proof
  assume z: "(of_char ch :: byte) = 0"
  have "(of_nat (of_char ch) :: byte) = 0" unfolding of_nat_of_char by (rule z)
  then have "256 dvd (of_char ch :: nat)" by (simp add: word_of_nat_eq_0_iff)
  then have "of_char ch = (0 :: nat)" using nat_of_char_less_256 [of ch] by (metis nat_dvd_not_less neq0_conv)
  then have "of_char ch = (of_char (CHR 0x00) :: nat)" by simp
  then show False using assms by (simp only: of_char_eq_iff)
qed

lemma strlen_literal:
  assumes "CHR 0x00 \<notin> set msg"
  shows "strlen (literal msg) = Some (length msg)"
proof -
  have "x \<noteq> 0" if "x \<in> set (map of_char msg :: byte list)" for x
  proof -
    from that obtain ch where "ch \<in> set msg" "x = of_char ch" by (force simp only: set_map)
    then show ?thesis using assms of_char_nonzero [of ch] by metis
  qed
  then have "takeWhile (\<lambda>b. b \<noteq> 0) (map of_char msg @ [0 :: byte]) = map of_char msg @ takeWhile (\<lambda>b. b \<noteq> 0) [0]"
    by (rule takeWhile_append2)
  then show ?thesis by (simp add: strlen_def literal_def)
qed

definition error_text :: "string \<Rightarrow> byte list" where
  "error_text msg = [45, 69, 82, 82, 32] @ map of_char msg @ CRLF"

definition error_room :: "string \<Rightarrow> nat" where
  "error_room msg = 3 * block_room (error_text msg)"

lemma emits_error:
  assumes "usable_ok usable" "s = [] \<or> s ! 0 \<noteq> 45"
  shows "emits (\<lambda>sv c. addReplyErrorLength usable sv c s) ([45, 69, 82, 82, 32] @ s @ CRLF)
     (block_room [45, 69, 82, 82, 32] + (block_room s + block_room CRLF))"
proof -
  have eq: "addReplyErrorLength usable sv c s = addReplyProto usable sv c [45, 69, 82, 82, 32] \<bind>
      (\<lambda>(sv, c). addReplyProto usable sv c s \<bind> (\<lambda>(sv, c). addReplyProto usable sv c CRLF))" for sv c
    using assms(2) by (simp add: addReplyErrorLength_def)
  show ?thesis unfolding eq by (intro emits_comp emits_proto assms(1))
qed

lemma protocol_error_ok:
  assumes "usable_ok usable" "ordinary c" "reply_ok c" "\<not> has_flag c CLIENT_CLOSE_ASAP" "cid c \<noteq> CLIENT_ID_AOF"
    "reply_bytes c + error_room msg < 2 ^ 63" "CHR 0x00 \<notin> set msg" "msg \<noteq> []" "hd msg \<noteq> CHR 0x2D"
  shows "\<exists>sv' c' p. protocol_error usable sv c msg = Some (sv', c') \<and> reply_ok c' \<and>
     has_flag c' CLIENT_CLOSE_AFTER_REPLY \<and> has_flag c' CLIENT_PROTOCOL_ERROR \<and> pending c' = pending c @ p \<and>
     prefix p (error_text msg) \<and> (has_flag c' CLIENT_CLOSE_ASAP \<or> p = error_text msg) \<and>
     unread c' = unread c \<and> argv c' = argv c"
proof -
  let ?s = "map of_char msg :: byte list"
  have "(of_char (hd msg) :: byte) \<noteq> of_char (CHR 0x2D)"
  proof
    assume "(of_char (hd msg) :: byte) = of_char (CHR 0x2D)"
    then have "(of_nat (of_char (hd msg)) :: byte) = of_nat (of_char (CHR 0x2D))" by (simp only: of_nat_of_char)
    then have "unat (of_nat (of_char (hd msg)) :: byte) = unat (of_nat (of_char (CHR 0x2D)) :: byte)" by (simp only:)
    then have "of_char (hd msg) mod (256 :: nat) = of_char (CHR 0x2D) mod 256" by (simp only: unat_of_nat) simp
    then show False using assms(9) by (simp only: of_char_mod_256 of_char_eq_iff)
  qed
  then have "?s ! 0 \<noteq> 45" using assms(8) by (cases msg) simp_all
  then have e: "emits (\<lambda>sv c. addReplyErrorLength usable sv c ?s) (error_text msg) (error_room msg)"
    using emits_weaken [OF emits_error [OF assms(1), of ?s], of "error_room msg"]
    by (simp add: error_text_def error_room_def block_room_def CRLF_def)
  obtain sv1 c1 p where c1: "addReplyErrorLength usable sv c ?s = Some (sv1, c1)" "reply_ok c1" "same_request c c1"
    "pending c1 = pending c @ p" "prefix p (error_text msg)" "has_flag c1 CLIENT_CLOSE_ASAP \<or> p = error_text msg"
    using emitsE [OF e assms(2,3,6), of sv] assms(4) by metis
  have o: "ordinary c1" using same_request_ordinary [OF c1(3)] assms(2) by simp
  let ?sv = "sv1\<lparr>stat_total_error_replies := stat_total_error_replies sv1 + 1\<rparr>"
  have "\<not> has_flag c1 CLIENT_MODULE" "cid c1 \<noteq> CLIENT_ID_AOF"
    using o c1(3) assms(5) by (auto simp: ordinary_def has_flag_def same_request_def)
  then have a: "afterErrorReply sv1 c1 ?s False = Some (?sv, c1)"
    using ordinary_type [OF o] by (simp add: afterErrorReply_def Let_def)
  have l: "take (length msg) (literal msg) = ?s" by (simp add: literal_def)
  let ?c = "setProtocolError c1"
  have eq: "protocol_error usable sv c msg = Some (?sv, ?c)"
    using strlen_literal [OF assms(7)] c1(1) a by (simp add: protocol_error_def addReplyError_def l)
  have q: "same_queue c1 ?c" by (simp add: same_queue_def setProtocolError_def set_flag_def)
  have "reply_ok ?c" "pending ?c = pending c @ p" using same_queue_ok [OF q] c1(2,4) by simp_all
  moreover have "has_flag ?c CLIENT_CLOSE_AFTER_REPLY" "has_flag ?c CLIENT_PROTOCOL_ERROR"
    "has_flag ?c CLIENT_CLOSE_ASAP = has_flag c1 CLIENT_CLOSE_ASAP"
    by (simp_all add: setProtocolError_def set_flag_def has_flag_def)
  moreover have "unread ?c = unread c" "argv ?c = argv c"
    using c1(3) by (simp_all add: same_request_def unread_def setProtocolError_def set_flag_def)
  ultimately show ?thesis using eq c1(5,6) by (intro exI [of _ ?sv] exI [of _ ?c] exI [of _ p]) simp
qed

subsection \<open>Inline requests\<close>

definition chomp :: "byte list \<Rightarrow> byte list" where
  "chomp l = (if l \<noteq> [] \<and> last l = 13 then butlast l else l)"

lemma inline_ok:
  assumes "malloc_ok mal" "query_ok c" "ordinary c" "unread c = line @ 10 # rest" "10 \<notin> set line" "0 \<notin> set line"
  shows "processInlineBuffer mal usable sv c =
     (case sdssplitargs (chomp line) of
        None \<Rightarrow> do { (sv, c) \<leftarrow> protocol_error usable sv c ''Protocol error: unbalanced quotes in request''; Some (sv, c, C_ERR) }
      | Some args \<Rightarrow> Some (sv, c\<lparr>qb_pos := qb_pos c + length line + 1, argv := args,
          argv_len := (if args \<noteq> [] then length args else argv_len c),
          argv_len_sum := (if args \<noteq> [] then 0 else argv_len_sum c) + sum_list (map length args)\<rparr>, C_OK))"
proof -
  obtain more where m: "drop (qb_pos c) (buf (querybuf c)) = line @ 10 # rest @ 0 # more"
    using query_memory [OF assms(2)] assms(4) by auto
  note q = query_simps [OF assms(2)]
  have hit: "strchr_at (buf (querybuf c)) (qb_pos c) 10 = Some (Some (qb_pos c + length line))"
    by (rule strchr_hit [OF assms(2,4,5,6)])
  let ?i = "qb_pos c + length line"
  have pos: "buf (querybuf c) ! (?i - 1) = last line" if "line \<noteq> []"
  proof -
    have "?i - 1 = qb_pos c + (length line - 1)" "length line - 1 < length line" using that by (cases line; simp)+
    moreover have "qb_pos c + (length line - 1) < length (buf (querybuf c))" using q(2-4) assms(4) by simp
    ultimately have "buf (querybuf c) ! (?i - 1) = drop (qb_pos c) (buf (querybuf c)) ! (length line - 1)" by simp
    also have "\<dots> = last line" unfolding m using that by (simp add: nth_append last_conv_nth)
    finally show ?thesis .
  qed
  let ?cr = "?i \<noteq> qb_pos c \<and> buf (querybuf c) ! (?i - 1) = 13"
  let ?nl = "if ?cr then ?i - 1 else ?i"
  have cr: "?cr \<longleftrightarrow> line \<noteq> [] \<and> last line = 13" using pos by auto
  have len: "?nl - qb_pos c = length (chomp line)" using cr by (auto simp: chomp_def)
  have lf: "length (chomp line) + (if ?cr then 2 else 1) = length line + 1"
    using cr by (auto simp: chomp_def)
  have ch: "chomp line = take (length (chomp line)) line" "0 \<notin> set (chomp line)" "length (chomp line) \<le> length line"
    using assms(6) in_set_butlastD [of 0 line] by (auto simp: chomp_def butlast_conv_take)
  have "slen (querybuf c) < 2 ^ 61" using assms(2) by (simp add: query_ok_def)
  then have b: "length line < 2 ^ 61" using q(1,2) arg_cong [OF assms(4), of length] by (simp del: q)
  obtain aux where aux: "sdsnewlen mal (Init (line @ 10 # rest @ 0 # more)) (length (chomp line)) = Some aux" "sds_ok aux"
    "slen aux = length (chomp line)" "content aux = chomp line"
    using newlen_ok [OF assms(1), of "length (chomp line)" "Init (line @ 10 # rest @ 0 # more)"] ch b by auto
  have buf: "buf aux = chomp line @ 0 # drop (Suc (slen aux)) (buf aux)"
    using aux(2,4) id_take_nth_drop [of "slen aux" "buf aux"] by (auto simp: sds_ok_def sds_wf_def content_def)
  have "takeWhile (\<lambda>b. b \<noteq> 0) (buf aux) = chomp line"
    by (subst buf, subst takeWhile_append2) (use ch(2) in auto)
  then have sl: "strlen (buf aux) = Some (length (chomp line))" using aux(2,3) by (simp add: strlen_def sds_ok_def sds_wf_def)
  have tk: "take (length (chomp line)) (buf aux) = chomp line" using aux(3,4) by (simp add: content_def)
  have nm: "\<not> has_flag c CLIENT_MASTER" "getClientType c \<noteq> CLIENT_TYPE_SLAVE"
    using assms(3) ordinary_type [OF assms(3)] by (auto simp: ordinary_def has_flag_def)
  show ?thesis
  proof (cases "sdssplitargs (chomp line)")
    case None
    then show ?thesis
      unfolding processInlineBuffer_def hit Let_def Option.bind.simps option.case len m aux(1) sl tk by simp
  next
    case (Some args)
    then show ?thesis
      unfolding processInlineBuffer_def hit Let_def Option.bind.simps option.case len m aux(1) sl tk
      using nm by (simp only: Some option.case simp_thms if_False add.assoc lf) simp
  qed
qed

subsection \<open>Properties of the parsers\<close>

definition demo_query :: "byte list \<Rightarrow> client" where
  "demo_query xs = demo_client\<lparr>querybuf := \<lparr>stype = SDS_TYPE_8, slen = length xs, salloc = length xs, buf = xs @ [0]\<rparr>\<rparr>"

lemma demo_query_ok:
  assumes "length xs < 100"
  shows "query_ok (demo_query xs)" "unread (demo_query xs) = xs" "ordinary (demo_query xs)" "reply_ok (demo_query xs)"
    "\<not> has_flag (demo_query xs) CLIENT_CLOSE_ASAP" "cid (demo_query xs) = 7" "reply_bytes (demo_query xs) = 0" "pending (demo_query xs) = []"
    "argv (demo_query xs) = []" "multibulklen (demo_query xs) = 0" "bulklen (demo_query xs) = - 1"
    "authRequired demo_server (demo_query xs) = False" "reqtype (demo_query xs) = 0" "qb_pos (demo_query xs) = 0"
  using assms
  by (simp_all add: query_ok_def sds_ok_def sds_wf_def unread_def content_def ordinary_def reply_ok_def sent_ok_def pending_def
      queued_def has_flag_def demo_query_def demo_client_def len_bits_def sds_types authRequired_def demo_server_def)

lemma small_numbers: "sdsll2str 0 = [48]" "sdsll2str 1 = [49]" "sdsll2str 2 = [50]" "sdsll2str 4 = [52]"
  by (simp_all add: ll2str_decimal LLONG_MIN_def LLONG_MAX_def decimal_small)

text \<open>C2. In whatever pieces the bytes of a multi bulk request arrive, each call of \<open>processMultibulkBuffer\<close> consumes
  exactly what belongs to the request: with the request complete it answers \<open>C_OK\<close> and the arguments are the ones
  that were encoded, and what follows is left unread; with it incomplete it answers \<open>C_ERR\<close> without any error
  reply, and the consumed bytes together with what is still due are the same request. No read leaves the query buffer and no
  store the array of arguments, however it grows; big arguments take over the buffer itself.\<close>
theorem processMultibulkBuffer_parses:
  assumes "malloc_ok mal" "receiving c args" "request_allowed sv c args"
    "prefix (unread c) (due c args) \<or> prefix (due c args) (unread c)"
  shows "\<exists>c' r. processMultibulkBuffer mal usable sv c = Some (sv, c', r) \<and> only_input c c' \<and> query_ok c' \<and>
     (if prefix (due c args) (unread c)
      then r = C_OK \<and> argv c' = args \<and> multibulklen c' = 0 \<and> bulklen c' = - 1 \<and> unread c = due c args @ unread c'
      else r = C_ERR \<and> receiving c' args \<and> (\<exists>x. unread c = x @ unread c' \<and> due c args = x @ due c' args))"
  by (rule multibulk_ok [OF assms])

theorem processMultibulkBuffer_parses_witness:
  "\<exists>c' x. processMultibulkBuffer demo_malloc (\<lambda>n. n) demo_server (demo_query [42, 49, 13, 10, 36, 50, 13, 10, 104]) = Some (demo_server, c', C_ERR) \<and>
     receiving c' [[104, 105]] \<and> [42, 49, 13, 10, 36, 50, 13, 10, 104] = x @ unread c' \<and> resp_text [[104, 105]] = x @ due c' [[104, 105]]"
proof -
  let ?c = "demo_query [42, 49, 13, 10, 36, 50, 13, 10, 104]" and ?a = "[[104, 105]] :: byte list list"
  note c = demo_query_ok [of "[42, 49, 13, 10, 36, 50, 13, 10, 104]", simplified]
  have d: "due ?c ?a = resp_text ?a" "resp_text ?a = [42, 49, 13, 10, 36, 50, 13, 10, 104, 105, 13, 10]"
    using c by (simp_all add: due_def resp_text_def array_text_def bulk_text_def small_numbers CRLF_def)
  have "receiving ?c ?a" using c by (simp add: receiving_def)
  moreover have "request_allowed demo_server ?c ?a"
    using c by (simp add: request_allowed_def arg_allowed_def INT_MAX_def demo_server_def)
  moreover have "prefix (unread ?c) (due ?c ?a) \<or> prefix (due ?c ?a) (unread ?c)" using c d by simp
  ultimately obtain c' r where p: "processMultibulkBuffer demo_malloc (\<lambda>n. n) demo_server ?c = Some (demo_server, c', r)"
    "if prefix (due ?c ?a) (unread ?c)
      then r = C_OK \<and> argv c' = ?a \<and> multibulklen c' = 0 \<and> bulklen c' = - 1 \<and> unread ?c = due ?c ?a @ unread c'
      else r = C_ERR \<and> receiving c' ?a \<and> (\<exists>x. unread ?c = x @ unread c' \<and> due ?c ?a = x @ due c' ?a)"
    using processMultibulkBuffer_parses [OF demo_malloc_ok, of ?c ?a demo_server "\<lambda>n. n"] by blast
  moreover have "\<not> prefix (due ?c ?a) (unread ?c)" unfolding d(1) c(2) d(2) by simp
  ultimately show ?thesis using c(2) d(1) by auto
qed



end
