(* ===== verification/Pipeline.thy ===== *)
theory Pipeline
  imports Request
begin

text \<open>
  From the socket to the reply: the read handler, the input loop and a command together. The contract of a command is
  the locale \<open>command\<close>; \<open>pingCommand\<close> of \<open>server.c\<close> is its instance.
\<close>

subsection \<open>The PING command\<close>

definition addReplyErrorArity :: "malloc \<Rightarrow> usable \<Rightarrow> byte list \<Rightarrow> server \<Rightarrow> client \<Rightarrow> (server \<times> client) option" where
  "addReplyErrorArity mal usable fullname sv c = do {
     s \<leftarrow> sdsempty mal;
     s \<leftarrow> sdscatlen mal s (map of_char ''wrong number of arguments for '' @ [39] @ fullname @ [39] @ map of_char '' command'');
     addReplyErrorFormat usable sv c s }"

text \<open>\<open>shared.pong\<close> is "+PONG" with a line end, \<open>shared.mbulkhdr[2]\<close> is "*2". An argument object is the sds of its bytes;
  \<open>fullname\<close> is the name of the command.\<close>

definition pingCommand :: "malloc \<Rightarrow> usable \<Rightarrow> byte list \<Rightarrow> server \<Rightarrow> client \<Rightarrow> (server \<times> client) option" where
  "pingCommand mal usable fullname sv c =
     (if 2 < argc c then addReplyErrorArity mal usable fullname sv c
      else if has_flag c CLIENT_PUBSUB \<and> resp c = 2 then do {
        (sv, c) \<leftarrow> addReplyProto usable sv c [42, 50, 13, 10];
        (sv, c) \<leftarrow> addReplyBulkCBuffer usable sv c [112, 111, 110, 103];
        (if argc c = 1 then addReplyBulkCBuffer usable sv c []
         else do {
           p \<leftarrow> get_at (argv c) 1;
           s \<leftarrow> sdsnewlen mal (Init p) (length p);
           addReplyBulk usable sv c (StringObject s) }) }
      else if argc c = 1 then addReplyProto usable sv c [43, 80, 79, 78, 71, 13, 10]
      else do {
        p \<leftarrow> get_at (argv c) 1;
        s \<leftarrow> sdsnewlen mal (Init p) (length p);
        addReplyBulk usable sv c (StringObject s) })"

definition ping_exec :: "malloc \<Rightarrow> usable \<Rightarrow> byte list \<Rightarrow> exec" where
  "ping_exec mal usable fullname sv c = do {
     (sv, c) \<leftarrow> pingCommand mal usable fullname sv c;
     Some (sv, c, C_OK, False) }"

subsection \<open>The contract of a command\<close>

text \<open>A client of the ordinary kind that is not blocked, subscribed or waiting for a command.\<close>

definition plain :: "client \<Rightarrow> bool" where
  "plain c \<longleftrightarrow> ordinary c \<and> flags c \<inter> {CLIENT_PUBSUB, CLIENT_BLOCKED, CLIENT_PENDING_COMMAND, CLIENT_REPLY_SKIP_NEXT} = {}"

lemma same_request_plain: "same_request c c' \<Longrightarrow> plain c' = plain c"
  using same_request_flag [of c c'] same_request_ordinary [of c c'] by (auto simp: plain_def)

locale command =
  fixes exec :: exec and valid :: "byte list list \<Rightarrow> bool" and answer :: "byte list list \<Rightarrow> byte list"
    and room :: "byte list list \<Rightarrow> nat"
  assumes valid_nonempty: "valid args \<Longrightarrow> args \<noteq> []"
    and exec_answers: "plain c \<Longrightarrow> reply_ok c \<Longrightarrow> \<not> has_flag c CLIENT_CLOSE_ASAP \<Longrightarrow> valid (argv c) \<Longrightarrow>
      reply_bytes c + room (argv c) < 2 ^ 63 \<Longrightarrow>
      \<exists>sv' c' p. exec sv c = Some (sv', c', C_OK, False) \<and> reply_ok c' \<and> same_request c c' \<and> same_config sv sv' \<and>
        reply_bytes c' \<le> reply_bytes c + room (argv c) \<and> pending c' = pending c @ p \<and> prefix p (answer (argv c)) \<and>
        (has_flag c' CLIENT_CLOSE_ASAP \<or> p = answer (argv c))"

subsection \<open>PING keeps the contract\<close>

definition ping_valid :: "byte list list \<Rightarrow> bool" where
  "ping_valid args \<longleftrightarrow> (length args = 1 \<or> length args = 2) \<and> list_all (\<lambda>p. length p < 2 ^ 60) args"

definition ping_answer :: "byte list list \<Rightarrow> byte list" where
  "ping_answer args = (if length args = 1 then [43, 80, 79, 78, 71, 13, 10] else bulk_text (args ! 1))"

definition ping_room :: "byte list list \<Rightarrow> nat" where
  "ping_room args = 3 * block_room (ping_answer args)"

lemma addReply_text:
  assumes "sds_ok s"
  shows "addReply usable sv c (StringObject s) = addReplyProto usable sv c (content s)"
  using sds_text [OF assms] by (simp add: addReply_def addReplyProto_def cong: if_cong)

lemma addReplyBulk_text:
  assumes "sds_ok s"
  shows "addReplyBulk usable sv c (StringObject s) = addReplyBulkCBuffer usable sv c (content s)"
proof -
  have "stringObjectLen (StringObject s) = length (content s)"
    using assms by (simp add: stringObjectLen_def sds_ok_def wf_content_length)
  then show ?thesis using addReply_text [OF assms]
    by (simp add: addReplyBulk_def addReplyBulkLen_def addReplyBulkCBuffer_def)
qed

lemma emits_ping:
  assumes "usable_ok usable" "ping_valid args"
  shows "emits (\<lambda>sv c. if length args = 1 then addReplyProto usable sv c [43, 80, 79, 78, 71, 13, 10]
      else addReplyBulkCBuffer usable sv c (args ! 1)) (ping_answer args) (ping_room args)"
proof (cases "length args = 1")
  case True
  then show ?thesis using emits_weaken [OF emits_proto [OF assms(1), of "[43, 80, 79, 78, 71, 13, 10]"], of "ping_room args"]
    by (simp add: ping_answer_def ping_room_def)
next
  case False
  then have "length (args ! 1) < 2 ^ 60" using assms(2) by (auto simp: ping_valid_def list_all_length)
  then have "int (length (args ! 1)) \<le> LLONG_MAX" by (simp add: LLONG_MAX_def)
  from emits_bulk [OF assms(1) this] False show ?thesis by (simp add: ping_answer_def ping_room_def)
qed

lemma ping_command:
  assumes "malloc_ok mal" "usable_ok usable"
  shows "command (ping_exec mal usable fullname) ping_valid ping_answer ping_room"
proof unfold_locales
  fix args assume "ping_valid args"
  then show "args \<noteq> []" by (auto simp: ping_valid_def)
next
  fix c :: client and sv :: server
  assume c: "plain c" "reply_ok c" "\<not> has_flag c CLIENT_CLOSE_ASAP" "ping_valid (argv c)" "reply_bytes c + ping_room (argv c) < 2 ^ 63"
  let ?f = "\<lambda>sv c'. if argc c = 1 then addReplyProto usable sv c' [43, 80, 79, 78, 71, 13, 10]
      else addReplyBulkCBuffer usable sv c' (argv c ! 1)"
  have "ordinary c" using c(1) by (simp add: plain_def)
  from emitsE [OF emits_ping [OF assms(2) c(4)] this c(2,5), of sv] c(3) obtain sv' c' p where
    e: "?f sv c = Some (sv', c')" "reply_ok c'" "same_request c c'" "same_config sv sv'"
      "reply_bytes c' \<le> reply_bytes c + ping_room (argv c)" "pending c' = pending c @ p" "prefix p (ping_answer (argv c))"
      "has_flag c' CLIENT_CLOSE_ASAP \<or> p = ping_answer (argv c)" by metis
  have "pingCommand mal usable fullname sv c = ?f sv c"
  proof (cases "argc c = 1")
    case True
    then show ?thesis using c(1) by (simp add: pingCommand_def plain_def has_flag_def)
  next
    case False
    then have l: "argc c = 2" "length (argv c ! 1) < 2 ^ 60" using c(4) by (auto simp: ping_valid_def list_all_length)
    obtain s where s: "sdsnewlen mal (Init (argv c ! 1)) (length (argv c ! 1)) = Some s" "sds_ok s" "content s = argv c ! 1"
      using newlen_ok [OF assms(1), of "length (argv c ! 1)" "Init (argv c ! 1)"] l(2) by auto
    then show ?thesis using c(1) l(1) addReplyBulk_text [OF s(2)]
      by (simp add: pingCommand_def plain_def has_flag_def)
  qed
  then have "ping_exec mal usable fullname sv c = Some (sv', c', C_OK, False)" using e(1) by (simp add: ping_exec_def)
  with e show "\<exists>sv' c' p. ping_exec mal usable fullname sv c = Some (sv', c', C_OK, False) \<and> reply_ok c' \<and> same_request c c' \<and>
      same_config sv sv' \<and> reply_bytes c' \<le> reply_bytes c + ping_room (argv c) \<and> pending c' = pending c @ p \<and>
      prefix p (ping_answer (argv c)) \<and> (has_flag c' CLIENT_CLOSE_ASAP \<or> p = ping_answer (argv c))" by blast
qed

subsection \<open>Serving a stream of requests\<close>

text \<open>A client that is served: the requests \<open>reqs\<close> are still to come, the first of them perhaps partly read; \<open>stream\<close> is
  what they still have to send.\<close>

definition stream :: "client \<Rightarrow> byte list list list \<Rightarrow> byte list" where
  "stream c reqs = (case reqs of [] \<Rightarrow> [] | a # rs \<Rightarrow> due c a @ concat (map resp_text rs))"

definition fresh :: "client \<Rightarrow> bool" where
  "fresh c \<longleftrightarrow> query_ok c \<and> argv c = [] \<and> multibulklen c = 0 \<and> bulklen c = - 1 \<and> reqtype c = 0"

definition served :: "client \<Rightarrow> byte list list list \<Rightarrow> bool" where
  "served c reqs \<longleftrightarrow> plain c \<and> reply_ok c \<and> \<not> has_flag c CLIENT_CLOSE_ASAP \<and> prefix (unread c) (stream c reqs) \<and>
     (case reqs of [] \<Rightarrow> fresh c
      | a # rs \<Rightarrow> receiving c a \<and> (reqtype c = PROTO_REQ_MULTIBULK \<or> (reqtype c = 0 \<and> multibulklen c = 0)))"

lemma fresh_receiving: "fresh c \<Longrightarrow> receiving c a \<and> due c a = resp_text a"
  by (simp add: fresh_def receiving_def due_def)

lemma stream_fresh: "fresh c \<Longrightarrow> stream c reqs = concat (map resp_text reqs)"
  by (cases reqs) (simp_all add: stream_def fresh_receiving)

lemma resp_hd: "\<exists>xs. resp_text a = 42 # xs"
  by (simp add: resp_text_def array_text_def)

lemma only_input_plain: "only_input c c' \<Longrightarrow> plain c' = plain c"
  by (cases c; cases c') (simp add: only_input_def plain_def ordinary_def)

lemma reset_fresh:
  assumes "plain c" "query_ok c"
  shows "fresh (commandProcessed c) \<and> same_queue c (commandProcessed c) \<and> flags (commandProcessed c) = flags c \<and>
     unread (commandProcessed c) = unread c \<and> has_conn (commandProcessed c) = has_conn c \<and>
     authenticated (commandProcessed c) = authenticated c"
  using assms
  by (auto simp: commandProcessed_def resetClient_def freeClientArgv_def fresh_def query_ok_def unread_def plain_def ordinary_def
      has_flag_def clear_flag_def set_flag_def same_queue_def Let_def)

lemma plain_cong: "flags c' = flags c \<Longrightarrow> has_conn c' = has_conn c \<Longrightarrow> plain c' = plain c"
  by (simp add: plain_def ordinary_def)

lemma allowed_cong:
  "has_flag c' CLIENT_MASTER = has_flag c CLIENT_MASTER \<Longrightarrow> authenticated c' = authenticated c \<Longrightarrow> same_config sv sv' \<Longrightarrow>
     request_allowed sv' c' a = request_allowed sv c a"
proof -
  assume a: "has_flag c' CLIENT_MASTER = has_flag c CLIENT_MASTER" "authenticated c' = authenticated c" "same_config sv sv'"
  have "proto_max_bulk_len sv' = proto_max_bulk_len sv" "default_user_nopass sv' = default_user_nopass sv"
    "default_user_disabled sv' = default_user_disabled sv"
    using a(3) by (cases sv; cases sv'; simp add: same_config_def)+
  then have "arg_allowed sv' c' = arg_allowed sv c" "authRequired sv' c' = authRequired sv c"
    using a(1,2) by (simp_all add: arg_allowed_def authRequired_def fun_eq_iff)
  then show ?thesis by (simp add: request_allowed_def)
qed

lemma reqtype_frame:
  "receiving (c\<lparr>reqtype := n\<rparr>) a = receiving c a" "due (c\<lparr>reqtype := n\<rparr>) a = due c a" "unread (c\<lparr>reqtype := n\<rparr>) = unread c"
  "request_allowed sv (c\<lparr>reqtype := n\<rparr>) = request_allowed sv c" "plain (c\<lparr>reqtype := n\<rparr>) = plain c" "same_queue c (c\<lparr>reqtype := n\<rparr>)"
proof -
  show "receiving (c\<lparr>reqtype := n\<rparr>) a = receiving c a" "due (c\<lparr>reqtype := n\<rparr>) a = due c a"
    by (cases c; simp add: receiving_def parsing_def query_ok_def args_room_def due_def need_def)+
  show "request_allowed sv (c\<lparr>reqtype := n\<rparr>) = request_allowed sv c"
    using allowed_cong [of "c\<lparr>reqtype := n\<rparr>" c sv sv] by (simp add: has_flag_def fun_eq_iff)
qed (simp_all add: unread_def plain_def ordinary_def same_queue_def)

lemma served_query: "served c reqs \<Longrightarrow> query_ok c \<and> plain c \<and> reply_ok c"
  by (cases reqs) (simp_all add: served_def fresh_def receiving_def)

lemma stream_nonempty: "served c (a # rs) \<Longrightarrow> stream c (a # rs) \<noteq> []"
proof -
  assume "served c (a # rs)"
  then have r: "receiving c a" by (simp add: served_def)
  show ?thesis
  proof (cases "multibulklen c = 0")
    case True
    then show ?thesis using resp_hd [of a] by (auto simp: stream_def due_def)
  next
    case False
    then have "parsing c (drop (argc c) a)" using r by (simp add: receiving_def)
    moreover from this have "drop (argc c) a \<noteq> []" using False unfolding parsing_def by fastforce
    ultimately show ?thesis using need_nonempty False by (simp add: stream_def due_def)
  qed
qed

lemma served_fresh:
  assumes "fresh c" "plain c" "reply_ok c" "\<not> has_flag c CLIENT_CLOSE_ASAP" "prefix (unread c) (stream c rs)"
  shows "served c rs"
proof (cases rs)
  case (Cons a as)
  then show ?thesis using assms fresh_receiving [OF assms(1), of a] by (simp add: served_def fresh_def)
qed (use assms in \<open>simp add: served_def\<close>)

locale pipeline = command exec valid answer room
  for exec :: exec and valid answer and room :: "byte list list \<Rightarrow> nat" +
  fixes mal :: malloc and usable :: usable
  assumes memory: "malloc_ok mal"
begin

text \<open>One round of the loop: it waits for more input, or answers the request it has read.\<close>

lemma round:
  assumes "served c (a # rs)" "io_threads_op_idle sv" "valid a" "request_allowed sv c a" "reply_bytes c + room a < 2 ^ 63"
    "unread c \<noteq> []"
  shows "(\<exists>c'. input_loop mal usable exec sv c = Some (sv, c', C_OK) \<and> served c' (a # rs) \<and> pending c' = pending c \<and>
        reply_bytes c' = reply_bytes c \<and> request_allowed sv c' = request_allowed sv c \<and>
        (\<exists>x. unread c = x @ unread c' \<and> stream c (a # rs) = x @ stream c' (a # rs)) \<and> unread c' \<noteq> stream c' (a # rs)) \<or>
     (\<exists>sv' c' p. input_loop mal usable exec sv c = input_loop mal usable exec sv' c' \<and> same_config sv sv' \<and>
        plain c' \<and> reply_ok c' \<and> fresh c' \<and> pending c' = pending c @ p \<and> prefix p (answer a) \<and>
        (\<not> has_flag c' CLIENT_CLOSE_ASAP \<longrightarrow> p = answer a) \<and> reply_bytes c' \<le> reply_bytes c + room a \<and>
        request_allowed sv' c' = request_allowed sv c \<and> unread c = due c a @ unread c')"
proof -
  have s: "plain c" "reply_ok c" "\<not> has_flag c CLIENT_CLOSE_ASAP" "prefix (unread c) (due c a @ concat (map resp_text rs))"
    "receiving c a" "reqtype c = PROTO_REQ_MULTIBULK \<or> (reqtype c = 0 \<and> multibulklen c = 0)"
    using assms(1) by (simp_all add: served_def stream_def)
  have q: "query_ok c" using s(5) by (simp add: receiving_def)
  have fl: "\<not> has_flag c CLIENT_BLOCKED" "\<not> has_flag c CLIENT_PENDING_COMMAND" "\<not> has_flag c CLIENT_MASTER" "\<not> has_flag c CLIENT_CLOSE_AFTER_REPLY"
    using s(1) by (auto simp: plain_def ordinary_def has_flag_def)
  obtain ch xs where u: "unread c = ch # xs" using assms(6) by (cases "unread c") auto
  have more: "qb_pos c < qblen c" using query_simps(2) [OF q] u by simp
  have ch: "get_at (buf (querybuf c)) (qb_pos c) = Some ch" by (rule query_get [OF q u])
  have star: "ch = 42" if "reqtype c = 0"
  proof -
    have "due c a = resp_text a" using that s(6) by (auto simp: due_def PROTO_REQ_MULTIBULK_def)
    then show ?thesis using s(4) u resp_hd [of a] by auto
  qed
  let ?c1 = "c\<lparr>reqtype := PROTO_REQ_MULTIBULK\<rparr>"
  have c1: "(if reqtype c = 0 then c\<lparr>reqtype := (if ch = 42 then PROTO_REQ_MULTIBULK else PROTO_REQ_INLINE)\<rparr> else c) = ?c1"
    using s(6) star by (auto simp: PROTO_REQ_MULTIBULK_def)
  have frame: "receiving ?c1 a" "due ?c1 a = due c a" "unread ?c1 = unread c" "request_allowed sv ?c1 = request_allowed sv c" "plain ?c1"
    "same_queue c ?c1"
    using s(1,5) by (simp_all add: reqtype_frame)
  have cmp: "prefix (unread ?c1) (due ?c1 a) \<or> prefix (due ?c1 a) (unread ?c1)"
    using s(4) frame(2,3) prefix_same_cases [of "unread c" "due c a @ concat (map resp_text rs)" "due c a"] by auto
  obtain c2 r where p: "processMultibulkBuffer mal usable sv ?c1 = Some (sv, c2, r)" "only_input ?c1 c2" "query_ok c2"
    "if prefix (due c a) (unread c)
      then r = C_OK \<and> argv c2 = a \<and> multibulklen c2 = 0 \<and> bulklen c2 = - 1 \<and> unread c = due c a @ unread c2
      else r = C_ERR \<and> receiving c2 a \<and> (\<exists>x. unread c = x @ unread c2 \<and> due c a = x @ due c2 a)"
    using multibulk_ok [OF memory frame(1) _ cmp] assms(4) frame by metis
  have k2: "flags c2 = flags c" "authenticated c2 = authenticated c" "same_queue c c2" "reqtype c2 = PROTO_REQ_MULTIBULK" "plain c2"
    using only_input_keeps [OF p(2)] only_input_plain [OF p(2)] frame(5,6) by (auto simp: same_queue_def)
  have q2: "reply_ok c2" "pending c2 = pending c" "reply_bytes c2 = reply_bytes c"
    using same_queue_ok [OF k2(3)] s(2) k2(3) by (simp_all add: same_queue_def)
  have al: "request_allowed sv c2 = request_allowed sv c"
    using allowed_cong [of c2 c sv sv] k2(1,2) by (simp add: has_flag_def fun_eq_iff)
  have step: "input_loop mal usable exec sv c = (if r \<noteq> C_OK then Some (sv, c2, C_OK)
      else if argc c2 = 0 then input_loop mal usable exec sv (resetClient c2)
      else Option.bind (processCommandAndResetClient exec sv c2) (\<lambda>(sv, c, r).
              if r = C_ERR then Some (sv, c, C_ERR) else input_loop mal usable exec sv c))"
    using more fl s(3) ch c1 p(1) assms(2) by (subst input_loop.simps) (simp add: PROTO_REQ_INLINE_def PROTO_REQ_MULTIBULK_def)
  show ?thesis
  proof (cases "prefix (due c a) (unread c)")
    case False
    then obtain x where w: "r = C_ERR" "receiving c2 a" "unread c = x @ unread c2" "due c a = x @ due c2 a" using p(4) by auto
    have st: "stream c (a # rs) = x @ stream c2 (a # rs)" using w(4) by (simp add: stream_def)
    have "prefix (unread c2) (stream c2 (a # rs))" using s(4) w(3,4) by (simp add: stream_def)
    then have "served c2 (a # rs)" using k2 q2 s(3) w(2) by (simp add: served_def has_flag_def)
    moreover have "unread c2 \<noteq> stream c2 (a # rs)" using False w(3,4) by (auto simp: stream_def)
    ultimately show ?thesis using step w(1,3) q2 al st by auto
  next
    case True
    then have w: "r = C_OK" "argv c2 = a" "unread c = due c a @ unread c2" using p(4) by auto
    have ne: "argc c2 \<noteq> 0" using valid_nonempty [OF assms(3)] w(2) by simp
    have "\<not> has_flag c2 CLIENT_CLOSE_ASAP" using s(3) k2(1) by (simp add: has_flag_def)
    from exec_answers [OF k2(5) q2(1) this, of sv] assms(3,5) w(2) q2(3) obtain sv3 c3 o3 where
      e: "exec sv c2 = Some (sv3, c3, C_OK, False)" "reply_ok c3" "same_request c2 c3" "same_config sv sv3"
      "reply_bytes c3 \<le> reply_bytes c + room a" "pending c3 = pending c2 @ o3" "prefix o3 (answer a)"
      "\<not> has_flag c3 CLIENT_CLOSE_ASAP \<longrightarrow> o3 = answer a" by auto
    let ?c4 = "commandProcessed c3"
    have k3: "plain c3" "query_ok c3" "unread c3 = unread c2" "authenticated c3 = authenticated c2"
      using same_request_plain [OF e(3)] k2(5) e(3) p(3) by (simp_all add: same_request_def query_ok_def unread_def)
    note r4 = reset_fresh [OF k3(1,2)]
    have "plain ?c4" using r4 plain_cong [of ?c4 c3] k3(1) by simp
    moreover have "reply_ok ?c4" "pending ?c4 = pending c3" using same_queue_ok [of c3 ?c4] r4 e(2) by simp_all
    moreover have "reply_bytes ?c4 = reply_bytes c3" using r4 by (simp add: same_queue_def)
    moreover have "request_allowed sv3 ?c4 = request_allowed sv c"
    proof -
      have "has_flag ?c4 CLIENT_MASTER = has_flag c CLIENT_MASTER"
        using r4 same_request_flag [OF e(3), of CLIENT_MASTER] k2(1) by (simp add: has_flag_def)
      then show ?thesis using allowed_cong [of ?c4 c sv sv3] e(4) r4 k3(4) k2(2) by (simp add: fun_eq_iff)
    qed
    moreover have "input_loop mal usable exec sv c = input_loop mal usable exec sv3 ?c4"
      using step w(1) ne e(1) by (simp add: processCommandAndResetClient_def)
    moreover have "has_flag ?c4 CLIENT_CLOSE_ASAP = has_flag c3 CLIENT_CLOSE_ASAP" using r4 by (simp add: has_flag_def)
    ultimately show ?thesis using e(4-8) q2(2) r4 k3(3) w(3)
      by (intro disjI2 exI [of _ sv3] exI [of _ ?c4] exI [of _ o3]) simp
  qed
qed

text \<open>What a client has become after some of the requests were answered.\<close>

definition answered :: "server \<Rightarrow> client \<Rightarrow> byte list list list \<Rightarrow> server \<Rightarrow> client \<Rightarrow> bool" where
  "answered sv c reqs sv' c' \<longleftrightarrow> same_config sv sv' \<and> reply_ok c' \<and> plain c' \<and> query_ok c' \<and>
     (\<exists>fin rest p. reqs = fin @ rest \<and> pending c' = pending c @ p \<and> prefix p (concat (map answer fin)) \<and>
       (has_flag c' CLIENT_CLOSE_ASAP \<or>
        (served c' rest \<and> p = concat (map answer fin) \<and> reply_bytes c' + sum_list (map room rest) \<le> reply_bytes c + sum_list (map room reqs) \<and>
         request_allowed sv' c' = request_allowed sv c \<and>
         (\<exists>x. unread c = x @ unread c' \<and> stream c reqs = x @ stream c' rest) \<and> (rest \<noteq> [] \<longrightarrow> unread c' \<noteq> stream c' rest))))"

lemma loop_stops:
  assumes "\<not> qb_pos c < qblen c \<or> has_flag c CLIENT_CLOSE_ASAP"
  shows "input_loop mal usable exec sv c = Some (sv, c, C_OK)"
  using assms by (subst input_loop.simps) auto

lemma answeredI:
  assumes "reqs = fin @ rest" "same_config sv sv'" "plain c'" "reply_ok c'" "query_ok c'" "pending c' = pending c @ p"
    "prefix p (concat (map answer fin))"
    "has_flag c' CLIENT_CLOSE_ASAP \<or> (served c' rest \<and> p = concat (map answer fin) \<and>
      reply_bytes c' + sum_list (map room rest) \<le> reply_bytes c + sum_list (map room reqs) \<and> request_allowed sv' c' = request_allowed sv c \<and>
      (\<exists>x. unread c = x @ unread c' \<and> stream c reqs = x @ stream c' rest) \<and> (rest \<noteq> [] \<longrightarrow> unread c' \<noteq> stream c' rest))"
  shows "answered sv c reqs sv' c'"
  unfolding answered_def using assms by blast

lemma answeredE:
  assumes "answered sv c reqs sv' c'"
  obtains fin rest p where "reqs = fin @ rest" "same_config sv sv'" "plain c'" "reply_ok c'" "query_ok c'" "pending c' = pending c @ p"
    "prefix p (concat (map answer fin))"
    "has_flag c' CLIENT_CLOSE_ASAP \<or> (served c' rest \<and> p = concat (map answer fin) \<and>
      reply_bytes c' + sum_list (map room rest) \<le> reply_bytes c + sum_list (map room reqs) \<and> request_allowed sv' c' = request_allowed sv c \<and>
      (\<exists>x. unread c = x @ unread c' \<and> stream c reqs = x @ stream c' rest) \<and> (rest \<noteq> [] \<longrightarrow> unread c' \<noteq> stream c' rest))"
  using assms unfolding answered_def by (elim conjE exE) (rule that)

lemma answered_wait:
  assumes "served c' reqs" "pending c' = pending c" "reply_bytes c' = reply_bytes c" "request_allowed sv c' = request_allowed sv c"
    "unread c = x @ unread c'" "stream c reqs = x @ stream c' reqs" "reqs \<noteq> [] \<longrightarrow> unread c' \<noteq> stream c' reqs"
  shows "answered sv c reqs sv c'"
  by (rule answeredI [of reqs "[]" reqs sv sv c' c "[]"]) (use served_query [OF assms(1)] assms in auto)

lemma answered_close:
  assumes "has_flag c' CLIENT_CLOSE_ASAP" "same_config sv sv'" "plain c'" "reply_ok c'" "query_ok c'" "pending c' = pending c @ p"
    "prefix p (answer a)"
  shows "answered sv c (a # rs) sv' c'"
  by (rule answeredI [of "a # rs" "[a]" rs sv sv' c' c p]) (use assms in simp_all)

lemma loop_serves:
  "served c reqs \<Longrightarrow> io_threads_op_idle sv \<Longrightarrow> list_all valid reqs \<Longrightarrow> list_all (request_allowed sv c) reqs \<Longrightarrow>
    reply_bytes c + sum_list (map room reqs) < 2 ^ 63 \<Longrightarrow>
    \<exists>sv' c'. input_loop mal usable exec sv c = Some (sv', c', C_OK) \<and> answered sv c reqs sv' c'"
proof (induction reqs arbitrary: sv c)
  case Nil
  then have f: "fresh c" "unread c = []" "plain c" "reply_ok c" "query_ok c" by (simp_all add: served_def stream_def fresh_def)
  have "\<not> qb_pos c < qblen c" using query_simps(2) [OF f(5)] f(2) by simp
  then show ?case using loop_stops [of c sv] answered_wait [OF Nil(1), of c sv "[]"] by simp
next
  case (Cons a rs)
  have s: "plain c" "reply_ok c" "query_ok c" "prefix (unread c) (stream c (a # rs))"
    using Cons.prems(1) by (simp_all add: served_def receiving_def)
  show ?case
  proof (cases "unread c = []")
    case True
    then have "input_loop mal usable exec sv c = Some (sv, c, C_OK)"
      using loop_stops [of c sv] query_simps(2) [OF s(3)] by simp
    moreover have "answered sv c (a # rs) sv c"
      by (rule answered_wait [OF Cons.prems(1), of c sv "[]"]) (use stream_nonempty [OF Cons.prems(1)] True in simp_all)
    ultimately show ?thesis by blast
  next
    case False
    have v: "valid a" "request_allowed sv c a" "reply_bytes c + room a < 2 ^ 63" using Cons.prems(3-5) by simp_all
    from round [OF Cons.prems(1,2) v False] show ?thesis
    proof (elim disjE exE conjE)
      fix c' x
      assume w: "input_loop mal usable exec sv c = Some (sv, c', C_OK)" "served c' (a # rs)" "pending c' = pending c"
        "reply_bytes c' = reply_bytes c" "request_allowed sv c' = request_allowed sv c" "unread c = x @ unread c'"
        "stream c (a # rs) = x @ stream c' (a # rs)" "unread c' \<noteq> stream c' (a # rs)"
      then show ?thesis using answered_wait [OF w(2-7)] by simp
    next
      fix sv1 c1 p
      assume w: "input_loop mal usable exec sv c = input_loop mal usable exec sv1 c1" "same_config sv sv1" "plain c1" "reply_ok c1" "fresh c1"
        "pending c1 = pending c @ p" "prefix p (answer a)" "\<not> has_flag c1 CLIENT_CLOSE_ASAP \<longrightarrow> p = answer a"
        "reply_bytes c1 \<le> reply_bytes c + room a" "request_allowed sv1 c1 = request_allowed sv c" "unread c = due c a @ unread c1"
      have q1: "query_ok c1" using w(5) by (simp add: fresh_def)
      show ?thesis
      proof (cases "has_flag c1 CLIENT_CLOSE_ASAP")
        case True
        then have "input_loop mal usable exec sv c = Some (sv1, c1, C_OK)" using loop_stops [of c1 sv1] w(1) by simp
        then show ?thesis using answered_close [OF True w(2-4) q1 w(6,7)] by simp
      next
        case no: False
        have st: "stream c (a # rs) = due c a @ stream c1 rs" using stream_fresh [OF w(5)] by (simp add: stream_def)
        have "served c1 rs" using w(11) st s(4) by (intro served_fresh w(3-5) no) simp
        moreover have "io_threads_op_idle sv1" using w(2) Cons.prems(2) by (cases sv; cases sv1) (simp add: same_config_def)
        moreover have "reply_bytes c1 + sum_list (map room rs) < 2 ^ 63" using w(9) Cons.prems(5) by simp
        moreover have "list_all valid rs" "list_all (request_allowed sv1 c1) rs" using Cons.prems(3,4) w(10) by simp_all
        ultimately obtain sv' c' where
          ih: "input_loop mal usable exec sv1 c1 = Some (sv', c', C_OK)" "answered sv1 c1 rs sv' c'"
          using Cons.IH by blast
        from ih(2) obtain fin rest p' where r: "rs = fin @ rest" "same_config sv1 sv'" "plain c'" "reply_ok c'" "query_ok c'"
          "pending c' = pending c1 @ p'" "prefix p' (concat (map answer fin))"
          "has_flag c' CLIENT_CLOSE_ASAP \<or> (served c' rest \<and> p' = concat (map answer fin) \<and>
             reply_bytes c' + sum_list (map room rest) \<le> reply_bytes c1 + sum_list (map room rs) \<and> request_allowed sv' c' = request_allowed sv1 c1 \<and>
             (\<exists>x. unread c1 = x @ unread c' \<and> stream c1 rs = x @ stream c' rest) \<and> (rest \<noteq> [] \<longrightarrow> unread c' \<noteq> stream c' rest))"
          by (rule answeredE)
        have pa: "p = answer a" using w(8) no by simp
        have "answered sv c (a # rs) sv' c'"
        proof (rule answeredI [of "a # rs" "a # fin" rest sv sv' c' c "p @ p'"])
          show "has_flag c' CLIENT_CLOSE_ASAP \<or> (served c' rest \<and> p @ p' = concat (map answer (a # fin)) \<and>
             reply_bytes c' + sum_list (map room rest) \<le> reply_bytes c + sum_list (map room (a # rs)) \<and>
             request_allowed sv' c' = request_allowed sv c \<and>
             (\<exists>x. unread c = x @ unread c' \<and> stream c (a # rs) = x @ stream c' rest) \<and> (rest \<noteq> [] \<longrightarrow> unread c' \<noteq> stream c' rest))"
            using r(8)
          proof (elim disjE conjE exE)
            fix x
            assume "served c' rest" "p' = concat (map answer fin)" "rest \<noteq> [] \<longrightarrow> unread c' \<noteq> stream c' rest"
              "reply_bytes c' + sum_list (map room rest) \<le> reply_bytes c1 + sum_list (map room rs)" "request_allowed sv' c' = request_allowed sv1 c1"
              "unread c1 = x @ unread c'" "stream c1 rs = x @ stream c' rest"
            then show ?thesis using w(9,10,11) pa st by (intro disjI2 conjI exI [of _ "due c a @ x"]) simp_all
          qed simp
        qed (use r(1,3-7) w(6) pa same_config_trans [OF w(2) r(2)] in simp_all)
        then show ?thesis using ih(1) w(1) by simp
      qed
    qed
  qed
qed

end

subsection \<open>Reading\<close>

text \<open>Reading changes the query buffer and two times.\<close>

definition only_query :: "client \<Rightarrow> client \<Rightarrow> bool" where
  "only_query c c' \<longleftrightarrow> c'\<lparr>querybuf := querybuf c, qb_pos := qb_pos c, querybuf_peak := querybuf_peak c,
     lastinteraction := lastinteraction c\<rparr> = c"

lemma only_query_frame:
  assumes "only_query c c'"
  shows "due c' a = due c a" "stream c' rs = stream c rs" "request_allowed sv c' = request_allowed sv c" "plain c' = plain c"
    "pending c' = pending c" "reply_ok c' = reply_ok c" "reply_bytes c' = reply_bytes c" "flags c' = flags c"
proof -
  have q: "same_queue c c'" "flags c' = flags c" "authenticated c' = authenticated c" "has_conn c' = has_conn c"
    using assms by (cases c; cases c'; simp add: only_query_def same_queue_def)+
  show d: "due c' a = due c a" for a using assms by (cases c; cases c') (simp add: only_query_def due_def need_def)
  show "stream c' rs = stream c rs" by (simp add: stream_def d split: list.split)
  show "request_allowed sv c' = request_allowed sv c"
    using allowed_cong [of c' c sv sv] q by (simp add: has_flag_def fun_eq_iff)
  show "plain c' = plain c" using q(2,4) by (rule plain_cong)
  show "pending c' = pending c" "reply_ok c' = reply_ok c" "reply_bytes c' = reply_bytes c" "flags c' = flags c"
    using same_queue_ok [OF q(1)] q(1,2) by (simp_all add: same_queue_def)
qed

lemma only_query_served:
  assumes "only_query c c'" "query_ok c'" "served c rs" "prefix (unread c') (stream c rs)"
  shows "served c' rs"
proof -
  have q: "query_ok c" using served_query [OF assms(3)] by simp
  have "fresh c' = fresh c"
    using assms(1,2) q by (cases c; cases c') (simp add: only_query_def fresh_def)
  moreover have "receiving c' a = receiving c a" for a
    using assms(1,2) q by (cases c; cases c') (simp add: only_query_def receiving_def parsing_def args_room_def)
  moreover have "reqtype c' = reqtype c" "multibulklen c' = multibulklen c"
    using assms(1) by (cases c; cases c'; simp add: only_query_def)+
  moreover have "has_flag c' CLIENT_CLOSE_ASAP = has_flag c CLIENT_CLOSE_ASAP"
    using only_query_frame(8) [OF assms(1)] by (simp add: has_flag_def)
  ultimately show ?thesis
    using assms(3,4) only_query_frame(2,4,6) [OF assms(1)] by (cases rs) (simp_all add: served_def)
qed

lemma bulklen_bound:
  assumes "served c reqs" "list_all (request_allowed sv c) reqs"
  shows "bulklen c < 2 ^ 60"
proof (cases reqs)
  case Nil
  then show ?thesis using assms(1) by (simp add: served_def fresh_def)
next
  case (Cons a rs)
  then have r: "receiving c a" "list_all (arg_allowed sv c) a" using assms by (simp_all add: served_def request_allowed_def)
  show ?thesis
  proof (cases "multibulklen c = 0 \<or> bulklen c = - 1")
    case True
    then show ?thesis using r(1) by (auto simp: receiving_def)
  next
    case False
    then have p: "drop (argc c) a \<noteq> []" "bulklen c = int (length (hd (drop (argc c) a)))"
      using r(1) by (auto simp: receiving_def parsing_def)
    then have "hd (drop (argc c) a) \<in> set a" by (meson hd_in_set in_set_dropD)
    then show ?thesis using r(2) p(2) by (simp add: list_all_iff arg_allowed_def)
  qed
qed

lemma read_length_bound:
  assumes "read_length c = (n, b)" "bulklen c < 2 ^ 60" "qb_pos c \<le> qblen c"
  shows "0 < n \<and> n < 2 ^ 61"
proof -
  let ?r = "bulklen c + 2 - (int (qblen c) - int (qb_pos c))"
  have "n = PROTO_IOBUF_LEN \<or> (0 < ?r \<and> n = nat ?r)"
    using assms(1) by (auto simp: read_length_def Let_def split: if_splits)
  moreover have "?r < 2 ^ 61" using assms(2,3) by simp
  ultimately show ?thesis by (auto simp: PROTO_IOBUF_LEN_def)
qed

lemma read_into:
  assumes "malloc_ok mal" "sds_ok s" "0 < n" "slen s + n < 2 ^ 62"
  shows "\<exists>q. sdsMakeRoomFor_ex mal s n greedy = Some q \<and> sds_ok q \<and> content q = content s \<and> slen q = slen s \<and> n \<le> sdsavail q \<and>
     (\<forall>xs. length xs \<le> sdsavail q \<and> xs \<noteq> [] \<and> length xs < 2 ^ 31 \<longrightarrow>
       (\<exists>mem q'. write_at (buf q) (slen s) xs = Some mem \<and> sdsIncrLen (q\<lparr>buf := mem\<rparr>) (int (length xs)) = Some q' \<and>
          sds_ok q' \<and> content q' = content s @ xs))"
proof -
  obtain q where q: "sdsMakeRoomFor_ex mal s n greedy = Some q" "sds_wf q" "slen q = slen s"
    "take (slen s + 1) (buf q) = take (slen s + 1) (buf s)" "n \<le> sdsavail q"
    using MakeRoom_ok [OF assms(1) _ assms(4), of greedy] assms(2) by (auto simp: sds_ok_def)
  have l: "slen s < length (buf q)" "slen s < length (buf s)" using q(2,3) assms(2) by (auto simp: sds_wf_def sds_ok_def)
  then have "take (slen s) (buf q) @ [buf q ! slen s] = take (slen s) (buf s) @ [buf s ! slen s]"
    using q(4) by (simp add: take_Suc_conv_app_nth)
  then have c: "take (slen s) (buf q) = take (slen s) (buf s)" "buf q ! slen s = buf s ! slen s" by simp_all
  have ok: "sds_ok q" "content q = content s" using c q(2,3) assms(2) by (simp_all add: sds_ok_def content_def)
  have app: "\<exists>mem q'. write_at (buf q) (slen s) xs = Some mem \<and> sdsIncrLen (q\<lparr>buf := mem\<rparr>) (int (length xs)) = Some q' \<and>
      sds_ok q' \<and> content q' = content s @ xs" if xs: "length xs \<le> sdsavail q" "xs \<noteq> []" "length xs < 2 ^ 31" for xs
  proof -
    have room: "stype q \<noteq> SDS_TYPE_5" "slen q + length xs \<le> salloc q"
      using MakeRoom_type [OF q(2), of "length xs"] xs by auto
    then have b: "slen q + length xs < length (buf q)" using q(2) by (auto simp: sds_wf_def)
    let ?mem = "take (slen s) (buf q) @ xs @ drop (slen s + length xs) (buf q)"
    have w: "write_at (buf q) (slen s) xs = Some ?mem" using b q(3) by (simp add: write_at_in)
    have "length ?mem = length (buf q)" using b q(3) by simp
    then have wf: "sds_wf (q\<lparr>buf := ?mem\<rparr>)" using q(2) by (simp add: sds_wf_def)
    from IncrLen_ok [OF wf, of "int (length xs)"] room xs(3) obtain q' where
      q': "sdsIncrLen (q\<lparr>buf := ?mem\<rparr>) (int (length xs)) = Some q'" "sds_ok q'" "content q' = take (slen q + length xs) ?mem"
      by (auto simp: nat_add_distrib)
    have "content q' = content s @ xs" using q'(3) c(1) l q(3) by (simp add: content_def)
    then show ?thesis using w q'(1,2) by blast
  qed
  show ?thesis using q(1,3,5) ok app by blast
qed

text \<open>The read handler with its results named: nothing to read, and bytes to parse.\<close>

definition read_greedy :: "client \<Rightarrow> bool \<Rightarrow> bool" where
  "read_greedy c big_arg = (\<not> (\<not> has_flag c CLIENT_MASTER \<and> (big_arg \<or> sdsalloc (querybuf c) < PROTO_IOBUF_LEN)))"

definition note_read :: "client \<Rightarrow> sds \<Rightarrow> int \<Rightarrow> client" where
  "note_read c q t = (if querybuf_peak (c\<lparr>querybuf := q\<rparr>) < qblen (c\<lparr>querybuf := q\<rparr>)
     then c\<lparr>querybuf := q, querybuf_peak := qblen (c\<lparr>querybuf := q\<rparr>)\<rparr> else c\<lparr>querybuf := q\<rparr>)\<lparr>lastinteraction := t\<rparr>"

lemma read_nothing:
  assumes "postponeClientRead sv c = (sv, False)" "read_length c = (n, b)"
    "sdsMakeRoomFor_ex mal (querybuf c) n (read_greedy c b) = Some q"
    "connRead inp (if read_greedy c b then sdsavail q else n) = (inp, [], - 1)" "write_at (buf q) (qblen c) [] = Some (buf q)" "\<not> broken inp"
  shows "readQueryFromClient mal usable exec sv c inp =
     Some (sv\<lparr>stat_total_reads_processed := stat_total_reads_processed sv + 1\<rparr>, c\<lparr>querybuf := q\<rparr>, inp, True)"
proof -
  have room: "(if read_greedy c b then sdsMakeRoomFor mal (querybuf c) n else sdsMakeRoomForNonGreedy mal (querybuf c) n) = Some q"
    using assms(3) by (cases "read_greedy c b") (simp_all add: sdsMakeRoomFor_def sdsMakeRoomForNonGreedy_def)
  show ?thesis
    unfolding readQueryFromClient_def Let_def
    by (simp only: assms(1,2,4,5) prod.case if_False read_greedy_def [symmetric] room Option.bind.simps) (simp add: assms(6))
qed

lemma read_some:
  assumes "postponeClientRead sv c = (sv, False)" "read_length c = (n, b)"
    "sdsMakeRoomFor_ex mal (querybuf c) n (read_greedy c b) = Some q"
    "connRead inp (if read_greedy c b then sdsavail q else n) = (inp', xs, int (length xs))" "xs \<noteq> []"
    "write_at (buf q) (qblen c) xs = Some mem" "sdsIncrLen (q\<lparr>buf := mem\<rparr>) (int (length xs)) = Some q'" "\<not> has_flag c CLIENT_MASTER"
  shows "readQueryFromClient mal usable exec sv c inp =
     processInputBuffer mal usable exec (sv\<lparr>stat_total_reads_processed := stat_total_reads_processed sv + 1,
       stat_net_input_bytes := stat_net_input_bytes sv + length xs\<rparr>) (note_read c q' (unixtime sv)) \<bind>
     (\<lambda>(sv, c, r). Some (sv, c, inp', r \<noteq> C_ERR \<and> beforeNextClient sv c))"
proof -
  have room: "(if read_greedy c b then sdsMakeRoomFor mal (querybuf c) n else sdsMakeRoomForNonGreedy mal (querybuf c) n) = Some q"
    using assms(3) by (cases "read_greedy c b") (simp_all add: sdsMakeRoomFor_def sdsMakeRoomForNonGreedy_def)
  have nr: "(int (length xs) = - 1 \<and> \<not> broken inp') = False" "(int (length xs) \<le> 0) = False" using assms(5) by simp_all
  have m: "CLIENT_MASTER \<notin> flags c" using assms(8) by (simp add: has_flag_def)
  have inc: "sdsIncrLen (querybuf (c\<lparr>querybuf := q, querybuf := q\<lparr>buf := mem\<rparr>\<rparr>)) (int (length xs)) = Some q'" using assms(7) by simp
  show ?thesis
    unfolding readQueryFromClient_def Let_def
    by (simp only: assms(1,2,4,6) prod.case if_False read_greedy_def [symmetric] room Option.bind.simps nr inc)
      (cases "querybuf_peak c < qblen (c\<lparr>querybuf := q'\<rparr>)"; simp add: has_flag_def m note_read_def)
qed

context pipeline
begin

lemma trim_keeps:
  assumes "answered sv c reqs sv' c'" "only_query c' c''" "query_ok c''" "unread c'' = unread c'"
  shows "answered sv c reqs sv' c''"
proof -
  note f = only_query_frame [OF assms(2)]
  from assms(1) obtain fin rest p where r: "reqs = fin @ rest" "same_config sv sv'" "plain c'" "reply_ok c'" "query_ok c'"
    "pending c' = pending c @ p" "prefix p (concat (map answer fin))"
    "has_flag c' CLIENT_CLOSE_ASAP \<or> (served c' rest \<and> p = concat (map answer fin) \<and>
      reply_bytes c' + sum_list (map room rest) \<le> reply_bytes c + sum_list (map room reqs) \<and> request_allowed sv' c' = request_allowed sv c \<and>
      (\<exists>x. unread c = x @ unread c' \<and> stream c reqs = x @ stream c' rest) \<and> (rest \<noteq> [] \<longrightarrow> unread c' \<noteq> stream c' rest))"
    by (rule answeredE)
  have s: "served c'' rest" if "served c' rest"
    using only_query_served [OF assms(2,3) that] that assms(4) by (simp add: served_def)
  show ?thesis
    by (rule answeredI [OF r(1,2)]) (use r(3-8) f s assms(3,4) in \<open>auto simp: has_flag_def\<close>)
qed

lemma input_serves:
  assumes "served c reqs" "io_threads_op_idle sv" "list_all valid reqs" "list_all (request_allowed sv c) reqs"
    "reply_bytes c + sum_list (map room reqs) < 2 ^ 63"
  shows "\<exists>sv' c'. processInputBuffer mal usable exec sv c = Some (sv', c', C_OK) \<and> answered sv c reqs sv' c' \<and> qb_pos c' = 0"
proof -
  obtain sv' c1 where l: "input_loop mal usable exec sv c = Some (sv', c1, C_OK)" "answered sv c reqs sv' c1"
    using loop_serves [OF assms] by blast
  have c1: "plain c1" "query_ok c1" using l(2) by (simp_all add: answered_def)
  have m: "\<not> has_flag c1 CLIENT_MASTER" using c1(1) by (simp add: plain_def ordinary_def has_flag_def)
  obtain q where q: "sdsrange (querybuf c1) (int (qb_pos c1)) (- 1) = Some q" "sds_ok q"
    "content q = drop (qb_pos c1) (content (querybuf c1))" "slen q = slen (querybuf c1) - qb_pos c1"
    using range_tail [of "querybuf c1" "qb_pos c1"] c1(2) by (auto simp: query_ok_def)
  let ?c = "c1\<lparr>querybuf := q, qb_pos := 0\<rparr>"
  have t: "only_query c1 ?c" "query_ok ?c" "unread ?c = unread c1"
    using q c1(2) by (simp_all add: only_query_def query_ok_def unread_def less_imp_diff_less)
  show ?thesis
  proof (cases "qb_pos c1 = 0")
    case True
    then show ?thesis using l m by (simp add: processInputBuffer_def)
  next
    case False
    then have "processInputBuffer mal usable exec sv c = Some (sv', ?c, C_OK)"
      using l(1) m q(1) by (simp add: processInputBuffer_def)
    then show ?thesis using trim_keeps [OF l(2) t] by auto
  qed
qed

lemma read_serves:
  assumes "served c reqs" "qb_pos c = 0" "reqs \<noteq> [] \<longrightarrow> unread c \<noteq> stream c reqs"
    "io_threads_op_idle sv" "\<not> io_threads_active sv" "\<not> broken inp" "\<not> peer_closed inp"
    "list_all valid reqs" "list_all (request_allowed sv c) reqs" "reply_bytes c + sum_list (map room reqs) < 2 ^ 63"
    "prefix (unread c @ received inp) (stream c reqs)" "length (stream c reqs) < 2 ^ 31"
  shows "\<exists>sv1 sv' c1 c' inp' y. readQueryFromClient mal usable exec sv c inp = Some (sv', c', inp', \<not> has_flag c' CLIENT_CLOSE_ASAP) \<and>
     only_query c c1 \<and> unread c1 = unread c @ y \<and> received inp = y @ received inp' \<and> same_config sv sv1 \<and> answered sv1 c1 reqs sv' c' \<and>
     request_allowed sv1 c1 = request_allowed sv c \<and> qb_pos c' = 0 \<and> broken inp' = broken inp \<and> peer_closed inp' = peer_closed inp"
proof -
  have c: "plain c" "query_ok c" using served_query [OF assms(1)] by auto
  have m: "\<not> has_flag c CLIENT_MASTER" using c(1) by (simp add: plain_def ordinary_def has_flag_def)
  let ?sv1 = "sv\<lparr>stat_total_reads_processed := stat_total_reads_processed sv + 1\<rparr>"
  obtain n b where rl: "read_length c = (n, b)" by fastforce
  note qs = query_simps [OF c(2)]
  have sl: "slen (querybuf c) = length (unread c)" using qs assms(2) by simp
  have st: "length (unread c) + length (received inp) < 2 ^ 31" using prefix_length_le [OF assms(11)] assms(12) by simp
  have n: "0 < n" "slen (querybuf c) + n < 2 ^ 62"
    using read_length_bound [OF rl bulklen_bound [OF assms(1,9)] qs(3)] sl st by auto
  have so: "sds_ok (querybuf c)" using c(2) by (simp add: query_ok_def)
  let ?g = "read_greedy c b"
  obtain q where q: "sdsMakeRoomFor_ex mal (querybuf c) n ?g = Some q" "sds_ok q" "content q = content (querybuf c)"
    "slen q = slen (querybuf c)" "n \<le> sdsavail q" and
    app: "\<And>xs. length xs \<le> sdsavail q \<Longrightarrow> xs \<noteq> [] \<Longrightarrow> length xs < 2 ^ 31 \<Longrightarrow>
       \<exists>mem q'. write_at (buf q) (slen (querybuf c)) xs = Some mem \<and> sdsIncrLen (q\<lparr>buf := mem\<rparr>) (int (length xs)) = Some q' \<and>
          sds_ok q' \<and> content q' = content (querybuf c) @ xs"
    using read_into [OF memory so n, of ?g] by blast
  have np: "postponeClientRead sv c = (sv, False)" using assms(5) by (simp add: postponeClientRead_def)
  let ?rd = "if ?g then sdsavail q else n"
  have rd: "0 < ?rd" "?rd \<le> sdsavail q" using n(1) q(5) by auto
  show ?thesis
  proof (cases "received inp = []")
    case True
    let ?c = "c\<lparr>querybuf := q\<rparr>"
    have cr: "connRead inp ?rd = (inp, [], - 1)" using assms(6,7) True by (simp add: connRead_def)
    have wr: "write_at (buf q) (qblen c) [] = Some (buf q)"
      using q(2,4) qs(1) by (simp add: write_at_def sds_ok_def sds_wf_def)
    note eq = read_nothing [OF np rl q(1) cr wr assms(6)]
    have o: "only_query c ?c" "query_ok ?c" "unread ?c = unread c" "qb_pos ?c = 0"
      using q c(2) assms(2) by (simp_all add: only_query_def query_ok_def unread_def)
    note fr = only_query_frame [OF o(1)]
    have sv: "served ?c reqs" using only_query_served [OF o(1,2) assms(1)] o(3) assms(1) by (simp add: served_def)
    have al: "request_allowed ?sv1 ?c = request_allowed sv c"
      using allowed_cong [of ?c c sv ?sv1] by (simp add: has_flag_def fun_eq_iff same_config_def)
    have "answered ?sv1 ?c reqs ?sv1 ?c"
      by (rule answered_wait [OF sv, of _ _ "[]"]) (use assms(3) o(3) fr(2) in simp_all)
    moreover have "\<not> has_flag ?c CLIENT_CLOSE_ASAP" using assms(1) by (simp add: served_def has_flag_def)
    moreover have "same_config sv ?sv1" by (simp add: same_config_def)
    ultimately show ?thesis using eq o al True
      by (intro exI [of _ ?sv1] exI [of _ ?c] exI [of _ inp] exI [of _ "[] :: byte list"]) simp
  next
    case False
    obtain xs inp' where xi: "xs = take ?rd (received inp)" "inp' = inp\<lparr>received := drop ?rd (received inp)\<rparr>" by simp
    have xs: "length xs \<le> sdsavail q" "xs \<noteq> []" "length xs < 2 ^ 31" using rd False st by (auto simp: xi(1) min_def)
    have cr: "connRead inp ?rd = (inp', xs, int (length xs))"
      using assms(6) False by (simp add: connRead_def xi min.commute)
    have rec: "received inp = xs @ received inp'" by (simp add: xi)
    obtain mem q' where a: "write_at (buf q) (slen (querybuf c)) xs = Some mem" "sdsIncrLen (q\<lparr>buf := mem\<rparr>) (int (length xs)) = Some q'"
      "sds_ok q'" "content q' = content (querybuf c) @ xs" using app [OF xs] by blast
    have wr: "write_at (buf q) (qblen c) xs = Some mem" using a(1) qs(1) by simp
    let ?c1 = "note_read c q' (unixtime sv)"
    let ?sv2 = "sv\<lparr>stat_total_reads_processed := stat_total_reads_processed sv + 1, stat_net_input_bytes := stat_net_input_bytes sv + length xs\<rparr>"
    have o: "only_query c ?c1" "querybuf ?c1 = q'" "qb_pos ?c1 = 0" using assms(2) by (simp_all add: note_read_def only_query_def)
    have len: "slen q' = length (unread c) + length xs"
      using a(3,4) wf_content_length [of q'] qs(1,6) sl by (simp add: sds_ok_def)
    have qk: "query_ok ?c1" using a(3) len st rec o by (simp add: query_ok_def)
    have un: "unread ?c1 = unread c @ xs" using a(4) o assms(2) by (simp add: unread_def)
    note fr = only_query_frame [OF o(1)]
    have "prefix (unread ?c1) (stream c reqs)"
      using assms(11) un append_prefixD [of "unread c @ xs" "received inp'"] rec by simp
    then have sv: "served ?c1 reqs" by (rule only_query_served [OF o(1) qk assms(1)])
    have cfg: "same_config sv ?sv2" by (simp add: same_config_def)
    have "authenticated ?c1 = authenticated c" by (simp add: note_read_def)
    then have al: "request_allowed ?sv2 ?c1 = request_allowed sv c"
      using allowed_cong [of ?c1 c sv ?sv2] fr(8) cfg by (simp add: has_flag_def fun_eq_iff)
    have idle: "io_threads_op_idle ?sv2" using assms(4) by simp
    obtain sv' c' where p: "processInputBuffer mal usable exec ?sv2 ?c1 = Some (sv', c', C_OK)" "answered ?sv2 ?c1 reqs sv' c'" "qb_pos c' = 0"
      using input_serves [OF sv idle assms(8)] assms(9,10) fr(7) al by auto
    have "same_config ?sv2 sv'" using p(2) by (simp add: answered_def)
    then have "io_threads_op_idle sv'" using assms(4) by (cases sv; cases sv') (simp add: same_config_def)
    then have al2: "beforeNextClient sv' c' = (\<not> has_flag c' CLIENT_CLOSE_ASAP)" by (simp add: beforeNextClient_def)
    have eq: "readQueryFromClient mal usable exec sv c inp = Some (sv', c', inp', \<not> has_flag c' CLIENT_CLOSE_ASAP)"
      using read_some [OF np rl q(1) cr xs(2) wr a(2) m] p(1) al2 by simp
    have "broken inp' = broken inp" "peer_closed inp' = peer_closed inp" by (simp_all add: xi)
    with eq o(1) un rec cfg p(2,3) al show ?thesis by blast
  qed
qed

end

subsection \<open>A connection\<close>

text \<open>The read handler is called once for each portion of bytes that arrives, until the client is freed.\<close>

fun serve :: "malloc \<Rightarrow> usable \<Rightarrow> exec \<Rightarrow> byte list list \<Rightarrow> server \<Rightarrow> client \<Rightarrow> input \<Rightarrow> (server \<times> client \<times> input) option" where
  "serve mal usable exec [] sv c inp = Some (sv, c, inp)"
| "serve mal usable exec (xs # xss) sv c inp = do {
     (sv, c, inp, alive) \<leftarrow> readQueryFromClient mal usable exec sv c (inp\<lparr>received := received inp @ xs\<rparr>);
     (if alive then serve mal usable exec xss sv c inp else Some (sv, c, inp)) }"

context pipeline
begin

lemma serve_answers:
  "served c reqs \<Longrightarrow> qb_pos c = 0 \<Longrightarrow> reqs \<noteq> [] \<longrightarrow> unread c \<noteq> stream c reqs \<Longrightarrow>
    io_threads_op_idle sv \<Longrightarrow> \<not> io_threads_active sv \<Longrightarrow> \<not> broken inp \<Longrightarrow> \<not> peer_closed inp \<Longrightarrow>
    list_all valid reqs \<Longrightarrow> list_all (request_allowed sv c) reqs \<Longrightarrow> reply_bytes c + sum_list (map room reqs) < 2 ^ 63 \<Longrightarrow>
    prefix (unread c @ received inp @ concat xss) (stream c reqs) \<Longrightarrow> length (stream c reqs) < 2 ^ 31 \<Longrightarrow>
    \<exists>sv' c' inp' fin rest p. serve mal usable exec xss sv c inp = Some (sv', c', inp') \<and> reqs = fin @ rest \<and> plain c' \<and> reply_ok c' \<and>
      same_config sv sv' \<and> pending c' = pending c @ p \<and> prefix p (concat (map answer fin)) \<and>
      (has_flag c' CLIENT_CLOSE_ASAP \<or> (p = concat (map answer fin) \<and>
        (\<exists>x. unread c @ received inp @ concat xss = x @ unread c' @ received inp' \<and> stream c reqs = x @ stream c' rest) \<and>
        (rest \<noteq> [] \<longrightarrow> unread c' \<noteq> stream c' rest)))"
proof (induction xss arbitrary: sv c inp reqs)
  case Nil
  then show ?case using served_query [OF Nil(1)]
    by (intro exI [of _ sv] exI [of _ c] exI [of _ inp] exI [of _ "[] :: byte list list list"] exI [of _ reqs] exI [of _ "[] :: byte list"])
      (auto intro!: exI [of _ "[]"])
next
  case (Cons xs xss)
  let ?inp = "inp\<lparr>received := received inp @ xs\<rparr>"
  have px: "prefix (unread c @ received ?inp) (stream c reqs)"
    using Cons.prems(11) append_prefixD [of "unread c @ received inp @ xs" "concat xss"] by simp
  have h: "\<not> broken ?inp" "\<not> peer_closed ?inp" using Cons.prems(6,7) by simp_all
  from read_serves [OF Cons.prems(1-5) h Cons.prems(8-10) px Cons.prems(12)] obtain sv1 sv2 c1 c2 inp' y where
    r: "readQueryFromClient mal usable exec sv c ?inp = Some (sv2, c2, inp', \<not> has_flag c2 CLIENT_CLOSE_ASAP)" "only_query c c1"
      "unread c1 = unread c @ y" "received inp @ xs = y @ received inp'" "same_config sv sv1" "answered sv1 c1 reqs sv2 c2"
      "request_allowed sv1 c1 = request_allowed sv c" "qb_pos c2 = 0" "\<not> broken inp'" "\<not> peer_closed inp'"
    using h by auto
  note f = only_query_frame [OF r(2)]
  from r(6) obtain fin rest p where a: "reqs = fin @ rest" "same_config sv1 sv2" "plain c2" "reply_ok c2" "query_ok c2"
    "pending c2 = pending c1 @ p" "prefix p (concat (map answer fin))"
    "has_flag c2 CLIENT_CLOSE_ASAP \<or> (served c2 rest \<and> p = concat (map answer fin) \<and>
      reply_bytes c2 + sum_list (map room rest) \<le> reply_bytes c1 + sum_list (map room reqs) \<and> request_allowed sv2 c2 = request_allowed sv1 c1 \<and>
      (\<exists>x. unread c1 = x @ unread c2 \<and> stream c1 reqs = x @ stream c2 rest) \<and> (rest \<noteq> [] \<longrightarrow> unread c2 \<noteq> stream c2 rest))"
    by (rule answeredE)
  have cfg: "same_config sv sv2" using same_config_trans [OF r(5) a(2)] .
  show ?case
  proof (cases "has_flag c2 CLIENT_CLOSE_ASAP")
    case True
    then have "serve mal usable exec (xs # xss) sv c inp = Some (sv2, c2, inp')" using r(1) by simp
    with True a(1,3,4,6,7) cfg f(5) show ?thesis by auto
  next
    case False
    then obtain x where s: "served c2 rest" "p = concat (map answer fin)"
      "reply_bytes c2 + sum_list (map room rest) \<le> reply_bytes c1 + sum_list (map room reqs)" "request_allowed sv2 c2 = request_allowed sv1 c1"
      "unread c1 = x @ unread c2" "stream c1 reqs = x @ stream c2 rest" "rest \<noteq> [] \<longrightarrow> unread c2 \<noteq> stream c2 rest" using a(8) by auto
    have total: "unread c @ received inp @ concat (xs # xss) = x @ unread c2 @ received inp' @ concat xss"
      using r(3,4) s(5) by simp
    have st: "stream c reqs = x @ stream c2 rest" using s(6) f(2) by simp
    have idle: "io_threads_op_idle sv2" "\<not> io_threads_active sv2"
      using cfg Cons.prems(4,5) by (cases sv; cases sv2; simp add: same_config_def)+
    have "list_all valid rest" "list_all (request_allowed sv2 c2) rest" using Cons.prems(8,9) a(1) s(4) r(7) by simp_all
    moreover have "reply_bytes c2 + sum_list (map room rest) < 2 ^ 63" using s(3) f(7) Cons.prems(10) by simp
    moreover have "prefix (unread c2 @ received inp' @ concat xss) (stream c2 rest)" using Cons.prems(11) unfolding total st by simp
    moreover have "length (stream c2 rest) < 2 ^ 31" using Cons.prems(12) st by simp
    ultimately obtain sv' c' inp2 fin2 rest2 p2 where
      i: "serve mal usable exec xss sv2 c2 inp' = Some (sv', c', inp2)" "rest = fin2 @ rest2" "plain c'" "reply_ok c'"
        "same_config sv2 sv'" "pending c' = pending c2 @ p2" "prefix p2 (concat (map answer fin2))"
        "has_flag c' CLIENT_CLOSE_ASAP \<or> (p2 = concat (map answer fin2) \<and>
          (\<exists>x. unread c2 @ received inp' @ concat xss = x @ unread c' @ received inp2 \<and> stream c2 rest = x @ stream c' rest2) \<and>
          (rest2 \<noteq> [] \<longrightarrow> unread c' \<noteq> stream c' rest2))"
      using Cons.IH [OF s(1) r(8) s(7) idle r(9,10)] by blast
    have eq: "serve mal usable exec (xs # xss) sv c inp = Some (sv', c', inp2)" using r(1) False i(1) by simp
    have pd: "pending c' = pending c @ (p @ p2)" "prefix (p @ p2) (concat (map answer (fin @ fin2)))"
      using i(6,7) a(6) f(5) s(2) by simp_all
    have last: "has_flag c' CLIENT_CLOSE_ASAP \<or> (p @ p2 = concat (map answer (fin @ fin2)) \<and>
          (\<exists>x. unread c @ received inp @ concat (xs # xss) = x @ unread c' @ received inp2 \<and> stream c reqs = x @ stream c' rest2) \<and>
          (rest2 \<noteq> [] \<longrightarrow> unread c' \<noteq> stream c' rest2))"
      using i(8)
    proof (elim disjE conjE exE)
      fix z
      assume z: "p2 = concat (map answer fin2)" "rest2 \<noteq> [] \<longrightarrow> unread c' \<noteq> stream c' rest2"
        "unread c2 @ received inp' @ concat xss = z @ unread c' @ received inp2" "stream c2 rest = z @ stream c' rest2"
      then show ?thesis unfolding total st using s(2)
        by (intro disjI2 conjI exI [of _ "x @ z"]) simp_all
    qed simp
    have "reqs = (fin @ fin2) @ rest2" using a(1) i(2) by simp
    then show ?thesis using eq i(3,4) same_config_trans [OF cfg i(5)] pd last by blast
  qed
qed

end

subsection \<open>The PING server\<close>

locale ping_memory =
  fixes mal :: malloc and usable :: usable and fullname :: "byte list"
  assumes mal_ok: "malloc_ok mal" and usable_ok: "usable_ok usable"

sublocale ping_memory \<subseteq> pipeline "ping_exec mal usable fullname" ping_valid ping_answer ping_room mal usable
  by (intro pipeline.intro pipeline_axioms.intro ping_command mal_ok usable_ok)

context ping_memory
begin

lemmas ping_serves = serve_answers

end

interpretation demo_ping: ping_memory demo_malloc "\<lambda>n. n" "[112, 105, 110, 103]"
  by unfold_locales (rule demo_malloc_ok, rule usable_id)

lemma demo_plain:
  "plain (demo_query [])" "fresh (demo_query [])"
  using demo_query_ok [of "[]", simplified]
  by (simp_all add: plain_def fresh_def) (simp add: demo_query_def demo_client_def)

end
