(* ===== verification/Crc.thy ===== *)
theory Crc
  imports Prelude
begin

unbundle bit_operations_syntax


text \<open>
  The 64-bit checksum of \<open>myRedis/src/crc64.c\<close> and \<open>crcspeed.c\<close>: the bit-by-bit generator, the tables built from it,
  and the routine that takes eight bytes at a time, on little- and big-endian machines.

  A lookup outside of a table is a fault. The address of the buffer is a parameter, since the loops depend on its alignment.
\<close>

subsection \<open>The bit-by-bit generator\<close>

definition POLY :: u64 where "POLY = 0xad93d23594c935a9"

fun reflect_loop :: "nat \<Rightarrow> u64 \<Rightarrow> u64 \<Rightarrow> u64" where
  "reflect_loop 0 data ret = ret"
| "reflect_loop (Suc n) data ret =
     (let data = drop_bit 1 data in reflect_loop n data (push_bit 1 ret OR (data AND 1)))"

definition crc_reflect :: "u64 \<Rightarrow> nat \<Rightarrow> u64" where
  "crc_reflect data data_len = reflect_loop (data_len - 1) data (data AND 1)"

definition crc_bit :: "byte \<Rightarrow> nat \<Rightarrow> u64 \<Rightarrow> u64" where
  "crc_bit c i crc =
     (let b = (crc AND 0x8000000000000000 \<noteq> 0);
          b = (if c AND push_bit i 1 \<noteq> 0 then \<not> b else b);
          crc = push_bit 1 crc
      in if b then crc XOR POLY else crc)"

definition crc_byte :: "u64 \<Rightarrow> byte \<Rightarrow> u64" where
  "crc_byte crc c = fold (crc_bit c) [0..<8] crc"

definition crc64_bitwise :: "u64 \<Rightarrow> byte list \<Rightarrow> u64" where
  "crc64_bitwise crc data = crc_reflect (fold (\<lambda>c crc. crc_byte crc c) data crc) 64"

subsection \<open>Tables\<close>

type_synonym crc_table = "u64 list list"

definition look :: "crc_table \<Rightarrow> nat \<Rightarrow> u64 \<Rightarrow> u64 option" where
  "look table k i = do { row \<leftarrow> get_at table k; get_at row (unat i) }"

definition store :: "crc_table \<Rightarrow> nat \<Rightarrow> nat \<Rightarrow> u64 \<Rightarrow> crc_table option" where
  "store table k n v = do { row \<leftarrow> get_at table k; row \<leftarrow> set_at row n v; set_at table k row }"

fun init_single :: "(u64 \<Rightarrow> byte list \<Rightarrow> u64) \<Rightarrow> nat list \<Rightarrow> crc_table \<Rightarrow> crc_table option" where
  "init_single crcfn [] table = Some table"
| "init_single crcfn (n # ns) table = do {
     table \<leftarrow> store table 0 n (crcfn 0 [of_nat n]);
     init_single crcfn ns table }"

fun init_nested :: "nat list \<Rightarrow> nat \<Rightarrow> u64 \<Rightarrow> crc_table \<Rightarrow> crc_table option" where
  "init_nested [] n crc table = Some table"
| "init_nested (k # ks) n crc table = do {
     t \<leftarrow> look table 0 (crc AND 0xff);
     let crc = t XOR drop_bit 8 crc;
     table \<leftarrow> store table k n crc;
     init_nested ks n crc table }"

fun init_rows :: "nat list \<Rightarrow> crc_table \<Rightarrow> crc_table option" where
  "init_rows [] table = Some table"
| "init_rows (n # ns) table = do {
     crc \<leftarrow> look table 0 (of_nat n);
     table \<leftarrow> init_nested [1..<8] n crc table;
     init_rows ns table }"

definition crcspeed64little_init :: "(u64 \<Rightarrow> byte list \<Rightarrow> u64) \<Rightarrow> crc_table \<Rightarrow> crc_table option" where
  "crcspeed64little_init crcfn table = do {
     table \<leftarrow> init_single crcfn [0..<256] table;
     init_rows [0..<256] table }"

definition rev8 :: "u64 \<Rightarrow> u64" where
  "rev8 a =
     (let m = 0xff00ff00ff00ff;
          a = (drop_bit 8 a AND m) OR push_bit 8 (a AND m);
          m = 0xffff0000ffff;
          a = (drop_bit 16 a AND m) OR push_bit 16 (a AND m)
      in drop_bit 32 a OR push_bit 32 a)"

definition crcspeed64big_init :: "(u64 \<Rightarrow> byte list \<Rightarrow> u64) \<Rightarrow> crc_table \<Rightarrow> crc_table option" where
  "crcspeed64big_init crcfn table = map_option (map (map rev8)) (crcspeed64little_init crcfn table)"

subsection \<open>Eight bytes at a time\<close>

text \<open>A load of eight bytes on a little-endian and on a big-endian machine.\<close>

definition load_le :: "byte list \<Rightarrow> u64" where
  "load_le bs = fold (\<lambda>i w. w OR push_bit (8 * i) (ucast (bs ! i))) [0..<8] 0"

definition load_be :: "byte list \<Rightarrow> u64" where
  "load_be bs = fold (\<lambda>i w. w OR push_bit (8 * i) (ucast (bs ! (7 - i)))) [0..<8] 0"

definition little_byte :: "crc_table \<Rightarrow> u64 \<Rightarrow> byte \<Rightarrow> u64 option" where
  "little_byte table crc b = do {
     t \<leftarrow> look table 0 ((crc XOR ucast b) AND 0xff);
     Some (t XOR drop_bit 8 crc) }"

definition little_word :: "crc_table \<Rightarrow> u64 \<Rightarrow> u64 \<Rightarrow> u64 option" where
  "little_word table crc w = do {
     let crc = crc XOR w;
     t7 \<leftarrow> look table 7 (crc AND 0xff);
     t6 \<leftarrow> look table 6 (drop_bit 8 crc AND 0xff);
     t5 \<leftarrow> look table 5 (drop_bit 16 crc AND 0xff);
     t4 \<leftarrow> look table 4 (drop_bit 24 crc AND 0xff);
     t3 \<leftarrow> look table 3 (drop_bit 32 crc AND 0xff);
     t2 \<leftarrow> look table 2 (drop_bit 40 crc AND 0xff);
     t1 \<leftarrow> look table 1 (drop_bit 48 crc AND 0xff);
     t0 \<leftarrow> look table 0 (drop_bit 56 crc);
     Some (t7 XOR t6 XOR t5 XOR t4 XOR t3 XOR t2 XOR t1 XOR t0) }"

definition big_byte :: "crc_table \<Rightarrow> u64 \<Rightarrow> byte \<Rightarrow> u64 option" where
  "big_byte table crc b = do {
     t \<leftarrow> look table 0 (drop_bit 56 crc XOR ucast b);
     Some (t XOR push_bit 8 crc) }"

definition big_word :: "crc_table \<Rightarrow> u64 \<Rightarrow> u64 \<Rightarrow> u64 option" where
  "big_word table crc w = do {
     let crc = crc XOR w;
     t0 \<leftarrow> look table 0 (crc AND 0xff);
     t1 \<leftarrow> look table 1 (drop_bit 8 crc AND 0xff);
     t2 \<leftarrow> look table 2 (drop_bit 16 crc AND 0xff);
     t3 \<leftarrow> look table 3 (drop_bit 24 crc AND 0xff);
     t4 \<leftarrow> look table 4 (drop_bit 32 crc AND 0xff);
     t5 \<leftarrow> look table 5 (drop_bit 40 crc AND 0xff);
     t6 \<leftarrow> look table 6 (drop_bit 48 crc AND 0xff);
     t7 \<leftarrow> look table 7 (drop_bit 56 crc);
     Some (t0 XOR t1 XOR t2 XOR t3 XOR t4 XOR t5 XOR t6 XOR t7) }"

text \<open>The three loops, over what handles a byte and what handles eight: bytes up to an aligned address, words, the rest.\<close>

fun tail_loop :: "(u64 \<Rightarrow> byte \<Rightarrow> u64 option) \<Rightarrow> u64 \<Rightarrow> byte list \<Rightarrow> u64 option" where
  "tail_loop step crc [] = Some crc"
| "tail_loop step crc (b # bs) = do { crc \<leftarrow> step crc b; tail_loop step crc bs }"

function word_loop :: "(u64 \<Rightarrow> byte \<Rightarrow> u64 option) \<Rightarrow> (u64 \<Rightarrow> byte list \<Rightarrow> u64 option) \<Rightarrow> u64 \<Rightarrow> byte list \<Rightarrow> u64 option" where
  "word_loop step wstep crc bs =
     (if 8 \<le> length bs then do { crc \<leftarrow> wstep crc (take 8 bs); word_loop step wstep crc (drop 8 bs) }
      else tail_loop step crc bs)"
  by pat_completeness auto
termination by (relation "measure (\<lambda>(_, _, _, bs). length bs)") auto

declare word_loop.simps [simp del]

fun head_loop :: "(u64 \<Rightarrow> byte \<Rightarrow> u64 option) \<Rightarrow> (u64 \<Rightarrow> byte list \<Rightarrow> u64 option) \<Rightarrow> nat \<Rightarrow> u64 \<Rightarrow> byte list \<Rightarrow> u64 option" where
  "head_loop step wstep a crc [] = word_loop step wstep crc []"
| "head_loop step wstep a crc (b # bs) =
     (if a mod 8 \<noteq> 0 then do { crc \<leftarrow> step crc b; head_loop step wstep (a + 1) crc bs }
      else word_loop step wstep crc (b # bs))"

definition crcspeed64little :: "crc_table \<Rightarrow> u64 \<Rightarrow> nat \<Rightarrow> byte list \<Rightarrow> u64 option" where
  "crcspeed64little table crc a bs =
     head_loop (little_byte table) (\<lambda>crc w. little_word table crc (load_le w)) a crc bs"

definition crcspeed64big :: "crc_table \<Rightarrow> u64 \<Rightarrow> nat \<Rightarrow> byte list \<Rightarrow> u64 option" where
  "crcspeed64big table crc a bs =
     map_option rev8 (head_loop (big_byte table) (\<lambda>crc w. big_word table crc (load_be w)) a (rev8 crc) bs)"

text \<open>\<open>little\<close> says what the machine is.\<close>

definition crcspeed64native :: "bool \<Rightarrow> crc_table \<Rightarrow> u64 \<Rightarrow> nat \<Rightarrow> byte list \<Rightarrow> u64 option" where
  "crcspeed64native little table crc a bs =
     (if little then crcspeed64little table crc a bs else crcspeed64big table crc a bs)"

definition crcspeed64native_init :: "bool \<Rightarrow> (u64 \<Rightarrow> byte list \<Rightarrow> u64) \<Rightarrow> crc_table \<Rightarrow> crc_table option" where
  "crcspeed64native_init little fn table =
     (if little then crcspeed64little_init fn table else crcspeed64big_init fn table)"

definition crc64_init :: "bool \<Rightarrow> crc_table option" where
  "crc64_init little = crcspeed64native_init little crc64_bitwise (replicate 8 (replicate 256 0))"

definition crc64 :: "bool \<Rightarrow> crc_table \<Rightarrow> u64 \<Rightarrow> nat \<Rightarrow> byte list \<Rightarrow> u64 option" where
  "crc64 little crc64_table crc a s = crcspeed64native little crc64_table crc a s"


subsection \<open>Linearity\<close>

locale xor_linear =
  fixes f :: "'a::len word \<Rightarrow> 'a word"
  assumes f_xor: "f (v XOR w) = f v XOR f w"
begin

lemma f_0 [simp]: "f 0 = 0"
  using f_xor [of 0 0] by simp

lemma f_if_xor: "f (if b then v XOR w else v) = (if b then f v XOR f w else f v)"
  by (simp add: f_xor)

lemma funpow_xor: "(f ^^ n) (v XOR w) = (f ^^ n) v XOR (f ^^ n) w"
  by (induction n) (simp_all add: f_xor)

end

lemma bit_reflect_loop:
  "bit (reflect_loop n d r) k \<longleftrightarrow> k < 64 \<and> (if k < n then bit d (n - k) else bit r (k - n))"
proof (induction n arbitrary: d r)
  case 0 then show ?case using bit_imp_le_length [of r k] by auto
next
  case (Suc n)
  then show ?case
    by (cases "k < n"; cases "k = n")
       (auto simp: Let_def bit_simps Suc_diff_le Suc_diff_Suc not_less simp del: push_bit_Suc)
qed

lemma bit_crc_reflect [bit_simps]: "bit (crc_reflect d 64) k \<longleftrightarrow> k < 64 \<and> bit d (63 - k)"
  by (auto simp: crc_reflect_def bit_reflect_loop bit_simps)

interpretation reflect: xor_linear "\<lambda>d. crc_reflect d 64"
  by unfold_locales (rule bit_word_eqI, simp add: bit_simps)

lemma crc_reflect_push: "crc_reflect (push_bit 1 d) 64 = drop_bit 1 (crc_reflect d 64)"
  by (rule bit_word_eqI) (auto simp: bit_simps simp del: push_bit_Suc)

subsection \<open>One bit of the reflected register\<close>

definition crc_step :: "u64 \<Rightarrow> u64" where
  "crc_step r = (if bit r 0 then drop_bit 1 r XOR crc_reflect POLY 64 else drop_bit 1 r)"

interpretation crc: xor_linear crc_step
  by unfold_locales (auto simp: crc_step_def bit_simps intro!: bit_word_eqI)

definition shift :: "nat \<Rightarrow> u64 \<Rightarrow> u64" where "shift n r = (crc_step ^^ n) r"

interpretation shift: xor_linear "shift n" for n
  by unfold_locales (simp add: shift_def crc.funpow_xor)

lemma shift_add: "shift (m + n) r = shift m (shift n r)"
  by (simp add: shift_def funpow_add)

lemma shift_0_id [simp]: "shift 0 r = r"
  by (simp add: shift_def)

lemma shift_low: "(\<And>i. i < n \<Longrightarrow> \<not> bit r i) \<Longrightarrow> shift n r = drop_bit n r"
proof (induction n arbitrary: r)
  case 0 then show ?case by simp
next
  case (Suc n)
  have "crc_step r = drop_bit 1 r" using Suc.prems [of 0] by (simp add: crc_step_def)
  moreover have "shift n (drop_bit 1 r) = drop_bit n (drop_bit 1 r)"
    using Suc.prems by (intro Suc.IH) (simp add: bit_simps)
  ultimately show ?case by (simp add: shift_def funpow_swap1 drop_bit_drop_bit)
qed

lemma shift_push: "drop_bit n (push_bit n v) = v \<Longrightarrow> shift (m + n) (push_bit n v) = shift m v"
  by (simp add: shift_add shift_low bit_simps)

lemma shift_absorb:
  assumes "drop_bit n (push_bit n v) = v"
  shows "shift m (shift n r XOR v) = shift (m + n) (r XOR push_bit n v)"
  using assms by (simp add: shift.f_xor shift_push) (simp add: shift_add)

lemma crc_reflect_bit:
  "crc_reflect (crc_bit c i s) 64 = crc_step (crc_reflect s 64 XOR of_bool (bit c i))"
proof -
  have top: "s AND 0x8000000000000000 \<noteq> 0 \<longleftrightarrow> bit s 63"
    using and_exp_eq_0_iff_not_bit [of s 63] by simp
  have sel: "c AND push_bit i 1 \<noteq> 0 \<longleftrightarrow> bit c i"
    by (simp add: push_bit_of_1 and_exp_eq_0_iff_not_bit)
  have low: "drop_bit 1 (r XOR of_bool b) = drop_bit 1 r" for r :: u64 and b
    by (rule bit_word_eqI) (auto simp: bit_simps)
  show ?thesis
    unfolding crc_bit_def Let_def top sel crc_step_def low
    by (auto simp: reflect.f_xor crc_reflect_push bit_simps simp del: push_bit_Suc One_nat_def)
qed

lemma crc_reflect_bits:
  "n \<le> 8 \<Longrightarrow> crc_reflect (fold (crc_bit c) [0..<n] s) 64 = shift n (crc_reflect s 64 XOR take_bit n (ucast c))"
proof (induction n)
  case 0 then show ?case by simp
next
  case (Suc n)
  have top: "take_bit (Suc n) (ucast c) = take_bit n (ucast c) XOR push_bit n (of_bool (bit c n) :: u64)"
    using Suc.prems by (intro bit_word_eqI) (auto simp: bit_simps less_Suc_eq)
  have "drop_bit n (push_bit n (of_bool (bit c n) :: u64)) = of_bool (bit c n)"
    using Suc.prems by (intro bit_word_eqI) (auto simp: bit_simps)
  then have "shift 1 (shift n (crc_reflect s 64 XOR take_bit n (ucast c)) XOR of_bool (bit c n)) =
    shift (Suc n) (crc_reflect s 64 XOR take_bit (Suc n) (ucast c))"
    unfolding top by (simp only: shift_absorb xor.assoc plus_1_eq_Suc)
  then show ?case using Suc by (simp add: crc_reflect_bit split del: split_of_bool) (simp add: shift_def split del: split_of_bool)
qed

definition next_crc :: "byte \<Rightarrow> u64 \<Rightarrow> u64" where
  "next_crc b r = shift 8 (r XOR ucast b)"

lemma crc_reflect_byte: "crc_reflect (crc_byte s c) 64 = next_crc c (crc_reflect s 64)"
proof -
  have "take_bit 8 (ucast c) = (ucast c :: u64)" by (rule bit_word_eqI) (auto simp: bit_simps dest: bit_imp_le_length)
  then show ?thesis by (simp add: crc_byte_def crc_reflect_bits next_crc_def)
qed

lemma crc64_bitwise_next: "crc64_bitwise s bs = fold next_crc bs (crc_reflect s 64)"
  unfolding crc64_bitwise_def by (induction bs arbitrary: s) (simp_all add: crc_reflect_byte)


subsection \<open>The tables hold the shifts of every byte\<close>

definition entry :: "nat \<Rightarrow> nat \<Rightarrow> u64" where
  "entry k n = shift (8 * Suc k) (of_nat n)"

definition filled :: "(nat \<times> nat) set \<Rightarrow> crc_table \<Rightarrow> bool" where
  "filled S table \<longleftrightarrow> length table = 8 \<and> (\<forall>k < 8. length (table ! k) = 256) \<and>
     (\<forall>(k, n) \<in> S. k < 8 \<longrightarrow> n < 256 \<longrightarrow> table ! k ! n = entry k n)"

lemma look_filled:
  assumes "filled S table" and "(k, unat i) \<in> S" and "k < 8" and "unat i < 256"
  shows "look table k i = Some (entry k (unat i))"
  using assms by (fastforce simp: filled_def look_def get_at_def)

lemma store_filled:
  assumes "filled S table" and "k < 8" and "n < 256" and "v = entry k n"
  shows "\<exists>t. store table k n v = Some t \<and> filled (insert (k, n) S) t"
  using assms by (fastforce simp: filled_def store_def get_at_def set_at_def nth_list_update)

lemma low_byte_less: "unat ((r :: u64) AND 0xff) < 256"
proof -
  have "r AND 0xff = take_bit 8 r" by (simp add: take_bit_eq_mask mask_eq_exp_minus_1)
  then show ?thesis by (simp add: unsigned_take_bit_eq) (simp add: take_bit_eq_mod)
qed

lemma high_byte_less: "unat (drop_bit 56 (r :: u64)) < 256"
proof -
  have "unat r < 2 ^ LENGTH(64)" by (rule unsigned_less)
  then show ?thesis by (simp add: drop_bit_eq_div unat_div less_mult_imp_div_less)
qed

lemma next_split: "shift 8 r = shift 8 (r AND 0xff) XOR drop_bit 8 r"
proof -
  have m: "(0xff :: u64) = mask 8" by (simp add: mask_eq_exp_minus_1)
  have "r = (r AND 0xff) XOR (r AND NOT 0xff)"
    unfolding m by (rule bit_word_eqI) (auto simp: bit_simps)
  then have "shift 8 r = shift 8 (r AND 0xff) XOR shift 8 (r AND NOT 0xff)"
    by (metis shift.f_xor)
  moreover have "shift 8 (r AND NOT 0xff) = drop_bit 8 (r AND NOT 0xff)"
    unfolding m by (rule shift_low) (simp add: bit_simps)
  moreover have "drop_bit 8 (r AND NOT 0xff) = drop_bit 8 r"
    unfolding m by (rule bit_word_eqI) (auto simp: bit_simps dest: bit_imp_le_length)
  ultimately show ?thesis by simp
qed

lemma init_single_filled:
  assumes "filled S table" and "set ns \<subseteq> {..<256}"
  shows "\<exists>t. init_single crc64_bitwise ns table = Some t \<and> filled ({0} \<times> set ns \<union> S) t"
  using assms
proof (induction ns arbitrary: S table)
  case Nil then show ?case by simp
next
  case (Cons n ns)
  have "ucast (of_nat n :: byte) = (of_nat n :: u64)"
    using Cons.prems by (simp add: unsigned_of_nat take_bit_eq_mod)
  then have "crc64_bitwise 0 [of_nat n] = entry 0 n"
    by (simp add: crc64_bitwise_next next_crc_def entry_def)
  then obtain t where t: "store table 0 n (crc64_bitwise 0 [of_nat n]) = Some t" "filled (insert (0, n) S) t"
    using store_filled Cons.prems by (metis insert_subset lessThan_iff list.simps(15) zero_less_numeral)
  have "{0} \<times> set (n # ns) \<union> S = {0} \<times> set ns \<union> insert (0, n) S" by auto
  then show ?case using t Cons.IH [OF t(2)] Cons.prems by simp
qed

lemma init_nested_filled:
  assumes "filled S table" and "{0} \<times> {..<256} \<subseteq> S" and "n < 256" and "1 \<le> j" and "j \<le> 8"
  shows "\<exists>t. init_nested [j..<8] n (entry (j - 1) n) table = Some t \<and> filled ({j..<8} \<times> {n} \<union> S) t"
  using assms
proof (induction "8 - j" arbitrary: j S table)
  case 0 then show ?case by simp
next
  case (Suc d)
  let ?r = "entry (j - 1) n"
  have j: "j < 8" "d = 8 - Suc j" "Suc j \<le> 8" using Suc.hyps(2) by simp_all
  have "?r = shift (8 * j) (of_nat n)" using Suc.prems by (simp add: entry_def)
  then have e: "entry j n = shift 8 ?r" by (simp add: entry_def shift_add)
  have "(0, unat (?r AND 0xff)) \<in> S" using Suc.prems(2) low_byte_less [of ?r] by auto
  then have l: "look table 0 (?r AND 0xff) = Some (shift 8 (?r AND 0xff))"
    using look_filled [OF Suc.prems(1)] low_byte_less [of ?r] by (simp add: entry_def)
  obtain t where t: "store table j n (entry j n) = Some t" "filled (insert (j, n) S) t"
    using store_filled [OF Suc.prems(1) j(1) Suc.prems(3) refl] by blast
  have cut: "[j..<8] = j # [Suc j..<8]" "{j..<8} \<times> {n} \<union> S = {Suc j..<8} \<times> {n} \<union> insert (j, n) S"
    using j(1) by (auto simp: upt_conv_Cons)
  have "\<exists>t'. init_nested [Suc j..<8] n (entry j n) t = Some t' \<and> filled ({Suc j..<8} \<times> {n} \<union> insert (j, n) S) t'"
    using Suc.hyps(1) [of "Suc j", OF j(2) t(2) _ Suc.prems(3) _ j(3)] Suc.prems(2) by (simp add: subset_insertI2)
  moreover have "shift 8 (?r AND 0xff) XOR drop_bit 8 ?r = entry j n" unfolding e by (rule next_split [symmetric])
  ultimately show ?case unfolding cut using l t(1) by simp
qed

lemma init_rows_filled:
  assumes "filled S table" and "{0} \<times> {..<256} \<subseteq> S" and "set ns \<subseteq> {..<256}"
  shows "\<exists>t. init_rows ns table = Some t \<and> filled ({1..<8} \<times> set ns \<union> S) t"
  using assms
proof (induction ns arbitrary: S table)
  case Nil then show ?case by simp
next
  case (Cons n ns)
  have n: "n < 256" "unat (of_nat n :: u64) = n" using Cons.prems by (simp_all add: unsigned_of_nat take_bit_eq_mod)
  then have l: "look table 0 (of_nat n) = Some (entry 0 n)"
    using look_filled [OF Cons.prems(1), of 0 "of_nat n"] Cons.prems(2) by auto
  obtain t where t: "init_nested [1..<8] n (entry 0 n) table = Some t" "filled ({1..<8} \<times> {n} \<union> S) t"
    using init_nested_filled [OF Cons.prems(1,2) n(1), of 1] by auto
  have "{1..<8} \<times> set (n # ns) \<union> S = {1..<8} \<times> set ns \<union> ({1..<8} \<times> {n} \<union> S)" by auto
  then show ?case using l t Cons.IH [OF t(2)] Cons.prems by auto
qed

lemma crcspeed64little_init_filled:
  "\<exists>t. crcspeed64little_init crc64_bitwise (replicate 8 (replicate 256 0)) = Some t \<and> filled UNIV t"
proof -
  have e: "filled {} (replicate 8 (replicate 256 0))" by (simp add: filled_def)
  obtain t where t: "init_single crc64_bitwise [0..<256] (replicate 8 (replicate 256 0)) = Some t"
      "filled ({0} \<times> {0..<256}) t"
    using init_single_filled [OF e, of "[0..<256]"] by (auto simp: lessThan_atLeast0 simp del: upt_rec_numeral)
  moreover obtain t' where "init_rows [0..<256] t = Some t'" "filled ({1..<8} \<times> {0..<256} \<union> {0} \<times> {0..<256}) t'"
    using init_rows_filled [OF t(2), of "[0..<256]"] by (auto simp: lessThan_atLeast0 simp del: upt_rec_numeral)
  moreover from this(2) have "filled UNIV t'" by (auto simp: filled_def Ball_def) (metis le_simps(3) not_gr0)
  ultimately show ?thesis unfolding crcspeed64little_init_def by simp
qed


subsection \<open>Loads\<close>

lemma bit_load_fold:
  fixes f :: "nat \<Rightarrow> byte"
  shows "n \<le> 8 \<Longrightarrow> bit (fold (\<lambda>i w. w OR push_bit (8 * i) (ucast (f i))) [0..<n] (0 :: u64)) k \<longleftrightarrow> k < 8 * n \<and> bit (f (k div 8)) (k mod 8)"
proof (induction n)
  case 0 then show ?case by simp
next
  case (Suc n)
  let ?w = "fold (\<lambda>i w. w OR push_bit (8 * i) (ucast (f i))) [0..<n] (0 :: u64)"
  have IH: "bit ?w k \<longleftrightarrow> k < 8 * n \<and> bit (f (k div 8)) (k mod 8)" using Suc by simp
  have "bit (?w OR push_bit (8 * n) (ucast (f n))) k \<longleftrightarrow>
      k < 8 * n \<and> bit (f (k div 8)) (k mod 8) \<or> 8 * n \<le> k \<and> k < 64 \<and> bit (f n) (k - 8 * n)"
    unfolding bit_or_iff IH bit_push_bit_iff bit_ucast_iff using bit_imp_le_length [of "f n" "k - 8 * n"]
    by (auto simp: possible_bit_def)
  also have "\<dots> \<longleftrightarrow> k < 8 * Suc n \<and> bit (f (k div 8)) (k mod 8)"
  proof -
    consider "k < 8 * n" | "8 * n \<le> k" "k < 8 * n + 8" | "8 * n + 8 \<le> k" by linarith
    then show ?thesis
    proof cases
      case 1 then show ?thesis by simp
    next
      case 2
      then have "k div 8 = n" by (intro div_nat_eqI) simp_all
      moreover from this have "k mod 8 = k - 8 * n" by (simp flip: minus_mult_div_eq_mod)
      moreover have "k < 64" using 2(2) Suc.prems by linarith
      ultimately show ?thesis using 2 by simp
    next
      case 3
      then have "\<not> bit (f n) (k - 8 * n)" using bit_imp_le_length [of "f n" "k - 8 * n"] by auto
      then show ?thesis using 3 by simp
    qed
  qed
  finally show ?case by simp
qed

lemma bit_load_le: "bit (load_le bs) k \<longleftrightarrow> k < 64 \<and> bit (bs ! (k div 8)) (k mod 8)"
  unfolding load_le_def using bit_load_fold [of 8 "\<lambda>i. bs ! i" k] by simp

lemma bit_load_be: "bit (load_be bs) k \<longleftrightarrow> k < 64 \<and> bit (bs ! (7 - k div 8)) (k mod 8)"
  unfolding load_be_def using bit_load_fold [of 8 "\<lambda>i. bs ! (7 - i)" k] by simp

lemma fold_next_crc:
  "n \<le> 8 \<Longrightarrow> n \<le> length bs \<Longrightarrow> fold next_crc (take n bs) r =
     shift (8 * n) (r XOR fold (\<lambda>i w. w OR push_bit (8 * i) (ucast (bs ! i))) [0..<n] 0)"
proof (induction n)
  case 0 then show ?case by simp
next
  case (Suc n)
  let ?w = "fold (\<lambda>i w. w OR push_bit (8 * i) (ucast (bs ! i))) [0..<n] (0 :: u64)"
  have or: "?w OR push_bit (8 * n) (ucast (bs ! n)) = ?w XOR push_bit (8 * n) (ucast (bs ! n))"
    using Suc.prems by (intro bit_word_eqI) (auto simp: bit_simps bit_load_fold)
  have "drop_bit (8 * n) (push_bit (8 * n) (ucast (bs ! n))) = (ucast (bs ! n) :: u64)"
    using Suc.prems by (intro bit_word_eqI) (auto simp: bit_simps dest: bit_imp_le_length)
  then have "shift 8 (shift (8 * n) (r XOR ?w) XOR ucast (bs ! n)) = shift (8 * Suc n) (r XOR (?w OR push_bit (8 * n) (ucast (bs ! n))))"
    unfolding or by (simp only: shift_absorb xor.assoc) simp
  then show ?case using Suc by (simp add: take_Suc_conv_app_nth next_crc_def)
qed

lemma fold_next_crc8: "length bs = 8 \<Longrightarrow> fold next_crc bs r = shift 64 (r XOR load_le bs)"
  using fold_next_crc [of 8 bs r] by (simp add: load_le_def)

subsection \<open>The little-endian steps\<close>

lemma entry_unat: "entry k (unat r) = shift (8 * Suc k) r"
  by (simp add: entry_def)

lemma look_byte:
  assumes "filled UNIV t" and "k < 8"
  shows "look t k (r AND 0xff) = Some (shift (8 * Suc k) (r AND 0xff))"
  using look_filled [OF assms(1) UNIV_I assms(2) low_byte_less] by (simp add: entry_unat)

lemma high_byte: "drop_bit 56 (r :: u64) AND 0xff = drop_bit 56 r"
proof -
  have m: "(0xff :: u64) = mask 8" by (simp add: mask_eq_exp_minus_1)
  show ?thesis unfolding m by (rule bit_word_eqI) (auto simp: bit_simps dest: bit_imp_le_length)
qed

lemma little_byte_next: "filled UNIV t \<Longrightarrow> little_byte t r b = Some (next_crc b r)"
proof -
  assume "filled UNIV t"
  moreover have "drop_bit 8 (r XOR ucast b) = drop_bit 8 r"
    by (rule bit_word_eqI) (auto simp: bit_simps dest: bit_imp_le_length)
  ultimately show ?thesis
    using next_split [of "r XOR ucast b"] by (simp add: little_byte_def next_crc_def look_byte)
qed

lemma shift_byte:
  assumes "i < 8"
  shows "shift 64 (push_bit (8 * i) (drop_bit (8 * i) r AND 0xff)) = shift (8 * (8 - i)) (drop_bit (8 * i) r AND 0xff)"
proof -
  have m: "(0xff :: u64) = mask 8" by (simp add: mask_eq_exp_minus_1)
  have "drop_bit (8 * i) (push_bit (8 * i) (drop_bit (8 * i) r AND 0xff)) = drop_bit (8 * i) r AND 0xff"
    unfolding m using assms by (intro bit_word_eqI) (auto simp: bit_simps)
  then show ?thesis using shift_push [of "8 * i" "drop_bit (8 * i) r AND 0xff" "8 * (8 - i)"] assms by (simp add: diff_mult_distrib2)
qed

lemma bytes_xor:
  "(r :: u64) = (r AND 0xff) XOR push_bit 8 (drop_bit 8 r AND 0xff) XOR push_bit 16 (drop_bit 16 r AND 0xff) XOR
     push_bit 24 (drop_bit 24 r AND 0xff) XOR push_bit 32 (drop_bit 32 r AND 0xff) XOR push_bit 40 (drop_bit 40 r AND 0xff) XOR
     push_bit 48 (drop_bit 48 r AND 0xff) XOR push_bit 56 (drop_bit 56 r)" (is "r = ?b")
proof -
  have m: "(0xff :: u64) = mask 8" by (simp add: mask_eq_exp_minus_1)
  have "bit r n = bit ?b n" if "n < 64" for n
  proof -
    have "n < 8 \<or> 8 \<le> n \<and> n < 16 \<or> 16 \<le> n \<and> n < 24 \<or> 24 \<le> n \<and> n < 32 \<or> 32 \<le> n \<and> n < 40 \<or>
        40 \<le> n \<and> n < 48 \<or> 48 \<le> n \<and> n < 56 \<or> 56 \<le> n" by linarith
    then show ?thesis unfolding m using that by (elim disjE conjE) (simp_all add: bit_simps less_diff_conv2)
  qed
  then show ?thesis by (intro bit_word_eqI) simp
qed

lemma shift_bytes:
  "shift 64 x = shift 64 (x AND 0xff) XOR shift 56 (drop_bit 8 x AND 0xff) XOR shift 48 (drop_bit 16 x AND 0xff) XOR
     shift 40 (drop_bit 24 x AND 0xff) XOR shift 32 (drop_bit 32 x AND 0xff) XOR shift 24 (drop_bit 40 x AND 0xff) XOR
     shift 16 (drop_bit 48 x AND 0xff) XOR shift 8 (drop_bit 56 x)"
  using shift_byte [of 0 x] shift_byte [of 1 x] shift_byte [of 2 x] shift_byte [of 3 x]
    shift_byte [of 4 x] shift_byte [of 5 x] shift_byte [of 6 x] shift_byte [of 7 x]
  by (subst bytes_xor [of x]) (simp add: shift.f_xor high_byte)

lemma look_high_byte: "filled UNIV t \<Longrightarrow> k < 8 \<Longrightarrow> look t k (drop_bit 56 r) = Some (shift (8 * Suc k) (drop_bit 56 r))"
  using look_byte [of t k "drop_bit 56 r"] by (simp add: high_byte)

lemma little_word_next: "filled UNIV t \<Longrightarrow> little_word t r w = Some (shift 64 (r XOR w))"
  using shift_bytes [of "r XOR w"] by (simp add: little_word_def look_byte look_high_byte)


subsection \<open>The big-endian steps\<close>

text \<open>Where \<^const>\<open>rev8\<close> takes a bit from.\<close>

definition mirror :: "nat \<Rightarrow> nat" where "mirror k = 56 - 8 * (k div 8) + k mod 8"

lemma bit_rev8 [bit_simps]: "bit (rev8 a) k \<longleftrightarrow> k < 64 \<and> bit a (mirror k)"
proof (cases "k < 64")
  case True
  have "\<forall>k \<in> set [0..<64]. bit (rev8 a) k \<longleftrightarrow> bit a (mirror k)"
    unfolding mirror_def by (simp add: upt_rec rev8_def Let_def bit_simps) (simp add: eval_nat_numeral)
  then show ?thesis using True by simp
qed (use bit_imp_le_length [of "rev8 a" k] in auto)

interpretation rev8: xor_linear rev8
  by unfold_locales (rule bit_word_eqI, simp add: bit_simps)

lemma mirror_byte: "i < 8 \<Longrightarrow> k < 8 \<Longrightarrow> mirror (8 * i + k) = 8 * (7 - i) + k"
  by (simp add: mirror_def diff_mult_distrib2)

lemma byte_of_bit:
  assumes "k < (64 :: nat)"
  obtains i j where "k = 8 * i + j" and "i < 8" and "j < 8" and "k div 8 = i" and "k mod 8 = j"
  using assms that [of "k div 8" "k mod 8"] by simp

lemma rev8_rev8 [simp]: "rev8 (rev8 r) = r"
  by (rule bit_word_eqI) (auto simp: bit_simps mirror_byte elim!: byte_of_bit)

lemma load_be_rev8: "load_be bs = rev8 (load_le bs)"
  by (rule bit_word_eqI) (auto simp: bit_simps bit_load_le bit_load_be mirror_byte elim!: byte_of_bit)

lemma rev8_byte:
  assumes "i < 8"
  shows "drop_bit (8 * i) (rev8 r) AND 0xff = drop_bit (8 * (7 - i)) r AND 0xff"
proof -
  have m: "(0xff :: u64) = mask 8" by (simp add: mask_eq_exp_minus_1)
  show ?thesis unfolding m using assms by (intro bit_word_eqI) (auto simp: bit_simps mirror_byte)
qed

lemma push_rev8: "push_bit 8 (rev8 r) = rev8 (drop_bit 8 r)"
proof (rule bit_word_eqI)
  fix k assume "k < LENGTH(64)"
  then obtain i j where k: "k = 8 * i + j" "i < 8" "j < 8" by (auto elim: byte_of_bit)
  show "bit (push_bit 8 (rev8 r)) k = bit (rev8 (drop_bit 8 r)) k"
  proof (cases i)
    case 0
    then show ?thesis using k mirror_byte [of 0 j] bit_imp_le_length [of r "8 + (56 + j)"] by (auto simp: bit_simps)
  next
    case (Suc n)
    then have "7 - n = Suc (7 - i)" using k by simp
    then show ?thesis using k Suc mirror_byte [of n j] mirror_byte [of i j] by (auto simp: bit_simps ac_simps)
  qed
qed

lemma look_rev8: "look (map (map rev8) t) k i = map_option rev8 (look t k i)"
  by (simp add: look_def get_at_def)

lemma big_byte_next:
  assumes "filled UNIV t"
  shows "big_byte (map (map rev8) t) (rev8 r) b = Some (rev8 (next_crc b r))"
proof -
  have m: "(0xff :: u64) = mask 8" by (simp add: mask_eq_exp_minus_1)
  have "(ucast b :: u64) AND 0xff = ucast b"
    unfolding m by (rule bit_word_eqI) (auto simp: bit_simps dest: bit_imp_le_length)
  then have x: "drop_bit 56 (rev8 r) XOR ucast b = (r XOR ucast b) AND 0xff"
    using rev8_byte [of 7 r] high_byte [of "rev8 r"] by (simp add: bit.conj_xor_distrib2)
  obtain a where "look t 0 ((r XOR ucast b) AND 0xff) = Some a" and "next_crc b r = a XOR drop_bit 8 r"
    using little_byte_next [OF assms, of r b] by (auto simp: little_byte_def split: bind_splits)
  then show ?thesis by (simp add: big_byte_def look_rev8 x rev8.f_xor push_rev8)
qed

lemma big_word_next:
  assumes "filled UNIV t"
  shows "big_word (map (map rev8) t) (rev8 r) (rev8 w) = Some (rev8 (shift 64 (r XOR w)))"
proof -
  define x where "x = r XOR w"
  have "rev8 r XOR rev8 w = rev8 x" by (simp add: x_def rev8.f_xor)
  then show ?thesis
    unfolding big_word_def look_rev8 Let_def
    using rev8_byte [of 0 x] rev8_byte [of 1 x] rev8_byte [of 2 x] rev8_byte [of 3 x]
      rev8_byte [of 4 x] rev8_byte [of 5 x] rev8_byte [of 6 x] rev8_byte [of 7 x] shift_bytes [of x]
    by (simp add: high_byte look_byte [OF assms] look_high_byte [OF assms] rev8.f_xor xor.left_commute xor.commute flip: x_def)
qed


subsection \<open>The three loops\<close>

text \<open>
  A step for one byte and a step for eight that represent the register by \<open>rep\<close>. Whatever the alignment of the buffer,
  the loops then compute the byte-by-byte result.
\<close>

locale crc_engine =
  fixes step :: "u64 \<Rightarrow> byte \<Rightarrow> u64 option"
    and wstep :: "u64 \<Rightarrow> byte list \<Rightarrow> u64 option"
    and rep :: "u64 \<Rightarrow> u64"
  assumes step_next: "step (rep r) b = Some (rep (next_crc b r))"
    and wstep_next: "length bs = 8 \<Longrightarrow> wstep (rep r) bs = Some (rep (fold next_crc bs r))"
begin

lemma tail_loop_next: "tail_loop step (rep r) bs = Some (rep (fold next_crc bs r))"
  by (induction bs arbitrary: r) (simp_all add: step_next)

lemma word_loop_next: "word_loop step wstep (rep r) bs = Some (rep (fold next_crc bs r))"
proof (induction "length bs" arbitrary: bs r rule: less_induct)
  case less
  show ?case
  proof (cases "8 \<le> length bs")
    case True
    have "fold next_crc bs r = fold next_crc (drop 8 bs) (fold next_crc (take 8 bs) r)"
      using fold_append [of next_crc "take 8 bs" "drop 8 bs"] by simp
    then show ?thesis using True less [of "drop 8 bs"] by (subst word_loop.simps) (simp add: wstep_next)
  next
    case False
    then show ?thesis by (subst word_loop.simps) (simp add: tail_loop_next)
  qed
qed

lemma head_loop_next: "head_loop step wstep a (rep r) bs = Some (rep (fold next_crc bs r))"
  by (induction bs arbitrary: a r) (simp_all add: step_next word_loop_next)

end

definition little_table :: crc_table where
  "little_table = the (crcspeed64little_init crc64_bitwise (replicate 8 (replicate 256 0)))"

lemma little_init: "crcspeed64little_init crc64_bitwise (replicate 8 (replicate 256 0)) = Some little_table"
  and little_table_filled: "filled UNIV little_table"
  using crcspeed64little_init_filled by (auto simp: little_table_def)

lemma crc64_init_table:
  "crc64_init little = Some (if little then little_table else map (map rev8) little_table)"
  by (simp add: crc64_init_def crcspeed64native_init_def crcspeed64big_init_def little_init)

interpretation little: crc_engine "little_byte little_table" "\<lambda>crc w. little_word little_table crc (load_le w)" "\<lambda>r. r"
  by unfold_locales (simp_all add: little_byte_next little_word_next little_table_filled fold_next_crc8)

interpretation big: crc_engine "big_byte (map (map rev8) little_table)"
    "\<lambda>crc w. big_word (map (map rev8) little_table) crc (load_be w)" rev8
  by unfold_locales (simp_all add: big_byte_next big_word_next load_be_rev8 little_table_filled fold_next_crc8)

lemma crc64_next:
  assumes "crc64_init little = Some t"
  shows "crc64 little t r a s = Some (fold next_crc s r)"
  using assms unfolding crc64_init_table crc64_def crcspeed64native_def crcspeed64little_def crcspeed64big_def
  by (auto simp: little.head_loop_next big.head_loop_next split: if_splits)

text \<open>
  C21. The tables are built without a fault on machines of either byte order, and with them the routine that takes eight
  bytes at a time agrees with the bit-by-bit generator, for every initial value and buffer, however the buffer is aligned.
\<close>

theorem crc64_bitwise_equiv:
  "\<exists>t. crc64_init little = Some t \<and>
     (\<forall>c a s. crc64 little t (crc_reflect c 64) a s = Some (crc64_bitwise c s))"
  using crc64_next by (simp add: crc64_bitwise_next) (simp add: crc64_init_table)

text \<open>
  The checksum of a stream can be computed piece by piece: continuing from the value of a first part gives the value
  of the whole, whatever the byte order of the machine and wherever the parts lie in memory.
\<close>

theorem crc64_chunks:
  assumes "crc64_init little = Some t"
  shows "Option.bind (crc64 little t c a s) (\<lambda>c'. crc64 little t c' b s') = crc64 little t c d (s @ s')"
  by (simp add: crc64_next [OF assms])

theorem crc64_chunks_witness:
  "\<exists>t. crc64_init False = Some t \<and>
     Option.bind (crc64 False t 0 5 [49, 50, 51, 52]) (\<lambda>c'. crc64 False t c' 9 [53, 54, 55, 56, 57]) =
       Some (crc64_bitwise 0 [49, 50, 51, 52, 53, 54, 55, 56, 57])"
proof -
  obtain t where t: "crc64_init False = Some t" by (simp only: crc64_init_table)
  have "crc64 False t 0 0 [49, 50, 51, 52, 53, 54, 55, 56, 57] = Some (crc64_bitwise 0 [49, 50, 51, 52, 53, 54, 55, 56, 57])"
    by (simp only: crc64_next [OF t] crc64_bitwise_next reflect.f_0)
  then show ?thesis
    using t crc64_chunks [OF t, of 0 5 "[49, 50, 51, 52]" 9 "[53, 54, 55, 56, 57]" 0] by (simp only: append_Cons append_Nil) blast
qed

end
