(* ===== verification/Ae.thy ===== *)
theory Ae
  imports Prelude
begin

unbundle bit_operations_syntax


text \<open>
  The event loop of \<open>myRedis/src/ae.c\<close> with its backend \<open>ae_epoll.c\<close>: file events in an array indexed by descriptor, time
  events in a doubly linked list over a store, one round of processing, and the main loop.

  What the loop calls is a parameter, collected in the record \<open>env\<close>: the kernel (\<open>epoll_create\<close>, \<open>epoll_ctl\<close>, \<open>epoll_wait\<close>, \<open>poll\<close>), the
  clock, the allocator for time events, and the callbacks behind the function pointers. They act on a \<open>world\<close> (a type variable),
  and callbacks get the loop and may change it. \<open>None\<close> is a fault: an access out of the array of events, a null or freed time event,
  a call through a pointer that was never set, signed overflow, a panic, or a loop that does not end.

  \<open>zmalloc\<close> leaves memory uninitialised: the handlers of a descriptor are \<open>None\<close> until they are set, and so is the client data of
  a time event, which \<open>aeCreateTimeEvent\<close> never stores (the line is commented out).
\<close>

subsection \<open>Data\<close>

definition AE_OK :: int where "AE_OK = 0"
definition AE_ERR :: int where "AE_ERR = -1"

definition AE_NONE :: u32 where "AE_NONE = 0"
definition AE_READABLE :: u32 where "AE_READABLE = 1"
definition AE_WRITABLE :: u32 where "AE_WRITABLE = 2"
definition AE_BARRIER :: u32 where "AE_BARRIER = 4"

definition AE_FILE_EVENTS :: u32 where "AE_FILE_EVENTS = push_bit 0 1"
definition AE_TIME_EVENTS :: u32 where "AE_TIME_EVENTS = push_bit 1 1"
definition AE_ALL_EVENTS :: u32 where "AE_ALL_EVENTS = AE_FILE_EVENTS OR AE_TIME_EVENTS"
definition AE_DONT_WAIT :: u32 where "AE_DONT_WAIT = push_bit 2 1"
definition AE_CALL_BEFORE_SLEEP :: u32 where "AE_CALL_BEFORE_SLEEP = push_bit 3 1"
definition AE_CALL_AFTER_SLEEP :: u32 where "AE_CALL_AFTER_SLEEP = push_bit 4 1"

definition AE_NOMORE :: int where "AE_NOMORE = -1"
definition AE_DELETED_EVENT_ID :: int where "AE_DELETED_EVENT_ID = -1"

definition EPOLLIN :: u32 where "EPOLLIN = 0x001"
definition EPOLLOUT :: u32 where "EPOLLOUT = 0x004"
definition EPOLLERR :: u32 where "EPOLLERR = 0x008"
definition EPOLLHUP :: u32 where "EPOLLHUP = 0x010"

lemmas ae_flags = AE_NONE_def AE_READABLE_def AE_WRITABLE_def AE_BARRIER_def AE_FILE_EVENTS_def AE_TIME_EVENTS_def
  AE_ALL_EVENTS_def AE_DONT_WAIT_def AE_CALL_BEFORE_SLEEP_def AE_CALL_AFTER_SLEEP_def

lemmas epoll_flags = EPOLLIN_def EPOLLOUT_def EPOLLERR_def EPOLLHUP_def

datatype epoll_op = EPOLL_CTL_ADD | EPOLL_CTL_MOD | EPOLL_CTL_DEL

text \<open>What \<open>epoll_wait\<close> answers: events with their descriptors (none when it timed out), \<open>EINTR\<close>, or another error.\<close>

datatype poll_result = Events "(u32 \<times> int) list" | Interrupted | Failed

record ('p, 'd) aeFileEvent =
  mask :: u32
  rfileProc :: "'p option"
  wfileProc :: "'p option"
  clientData :: "'d option"

record ('p, 'd) aeTimeEvent =
  te_id :: int
  te_when :: u64
  timeProc :: 'p
  finalizerProc :: "'p option"
  te_clientData :: "'d option"
  te_prev :: "addr option"
  te_next :: "addr option"
  refcount :: int

record aeFiredEvent =
  fired_fd :: int
  fired_mask :: u32

record ('p, 'd) aeEventLoop =
  maxfd :: int
  setsize :: int
  timeEventNextId :: int
  events :: "('p, 'd) aeFileEvent list"
  fired :: "aeFiredEvent list"
  timers :: "addr \<Rightarrow> ('p, 'd) aeTimeEvent option"
  timeEventHead :: "addr option"
  stop :: bool
  epfd :: int
  beforesleep :: "'p option"
  aftersleep :: "'p option"
  flags :: u32

record ('p, 'd, 'w) env =
  epoll_create :: "'w \<Rightarrow> int \<times> 'w"
  epoll_ctl :: "'w \<Rightarrow> int \<Rightarrow> epoll_op \<Rightarrow> int \<Rightarrow> u32 \<Rightarrow> int \<times> 'w"
  epoll_wait :: "'w \<Rightarrow> int \<Rightarrow> int \<Rightarrow> int \<Rightarrow> poll_result \<times> 'w"
  getMonotonicUs :: "'w \<Rightarrow> u64 \<times> 'w"
  new_timer :: "(addr \<Rightarrow> ('p, 'd) aeTimeEvent option) \<Rightarrow> addr option"
  call_file :: "'p \<Rightarrow> ('p, 'd) aeEventLoop \<Rightarrow> int \<Rightarrow> 'd option \<Rightarrow> u32 \<Rightarrow> 'w \<Rightarrow> (('p, 'd) aeEventLoop \<times> 'w) option"
  call_time :: "'p \<Rightarrow> ('p, 'd) aeEventLoop \<Rightarrow> int \<Rightarrow> 'd option \<Rightarrow> 'w \<Rightarrow> (int \<times> ('p, 'd) aeEventLoop \<times> 'w) option"
  call_finalizer :: "'p \<Rightarrow> ('p, 'd) aeEventLoop \<Rightarrow> 'd option \<Rightarrow> 'w \<Rightarrow> (('p, 'd) aeEventLoop \<times> 'w) option"
  call_sleep :: "'p \<Rightarrow> ('p, 'd) aeEventLoop \<Rightarrow> 'w \<Rightarrow> (('p, 'd) aeEventLoop \<times> 'w) option"

subsection \<open>Access\<close>

definition event_at :: "('p, 'd) aeEventLoop \<Rightarrow> int \<Rightarrow> ('p, 'd) aeFileEvent option" where
  "event_at el fd = (if fd < 0 then None else get_at (events el) (nat fd))"

definition put_event :: "('p, 'd) aeEventLoop \<Rightarrow> int \<Rightarrow> ('p, 'd) aeFileEvent \<Rightarrow> ('p, 'd) aeEventLoop option" where
  "put_event el fd fe = do {
     ensure (0 \<le> fd);
     evs \<leftarrow> set_at (events el) (nat fd) fe;
     Some (el\<lparr>events := evs\<rparr>) }"

definition timer_at :: "('p, 'd) aeEventLoop \<Rightarrow> addr option \<Rightarrow> ('p, 'd) aeTimeEvent option" where
  "timer_at el p = (case p of None \<Rightarrow> None | Some a \<Rightarrow> timers el a)"

definition put_timer :: "('p, 'd) aeEventLoop \<Rightarrow> addr option \<Rightarrow> (('p, 'd) aeTimeEvent \<Rightarrow> ('p, 'd) aeTimeEvent)
    \<Rightarrow> ('p, 'd) aeEventLoop option" where
  "put_timer el p f = (case p of None \<Rightarrow> None | Some a \<Rightarrow>
     (case timers el a of None \<Rightarrow> None | Some te \<Rightarrow> Some (el\<lparr>timers := (timers el)(a \<mapsto> f te)\<rparr>)))"

definition free_timer :: "('p, 'd) aeEventLoop \<Rightarrow> addr \<Rightarrow> ('p, 'd) aeEventLoop option" where
  "free_timer el a = (case timers el a of None \<Rightarrow> None | Some _ \<Rightarrow> Some (el\<lparr>timers := (timers el)(a := None)\<rparr>))"

text \<open>Signed arithmetic faults when it leaves its type.\<close>

definition int32 :: "int \<Rightarrow> int option" where
  "int32 i = (if -(2 ^ 31) \<le> i \<and> i < 2 ^ 31 then Some i else None)"

definition int64 :: "int \<Rightarrow> int option" where
  "int64 i = (if -(2 ^ 63) \<le> i \<and> i < 2 ^ 63 then Some i else None)"

definition addr_ok :: "((addr \<Rightarrow> ('p, 'd) aeTimeEvent option) \<Rightarrow> addr option) \<Rightarrow> bool" where
  "addr_ok new \<longleftrightarrow> (\<forall>h a. new h = Some a \<longrightarrow> h a = None)"

subsection \<open>The epoll backend\<close>

definition epoll_events :: "u32 \<Rightarrow> u32" where
  "epoll_events m =
     (let ev = 0;
          ev = (if m AND AE_READABLE \<noteq> 0 then ev OR EPOLLIN else ev)
      in if m AND AE_WRITABLE \<noteq> 0 then ev OR EPOLLOUT else ev)"

definition aeApiCreate :: "('p, 'd, 'w) env \<Rightarrow> 'w \<Rightarrow> ('p, 'd) aeEventLoop \<Rightarrow> (('p, 'd) aeEventLoop option \<times> 'w)" where
  "aeApiCreate e w el =
     (let (ep, w) = epoll_create e w in if ep = -1 then (None, w) else (Some (el\<lparr>epfd := ep\<rparr>), w))"

definition aeApiAddEvent :: "('p, 'd, 'w) env \<Rightarrow> 'w \<Rightarrow> ('p, 'd) aeEventLoop \<Rightarrow> int \<Rightarrow> u32 \<Rightarrow> (int \<times> 'w) option" where
  "aeApiAddEvent e w el fd m = do {
     fe \<leftarrow> event_at el fd;
     let op = (if mask fe = AE_NONE then EPOLL_CTL_ADD else EPOLL_CTL_MOD);
     let m = m OR mask fe;
     let (r, w) = epoll_ctl e w (epfd el) op fd (epoll_events m);
     Some (if r = -1 then (-1, w) else (0, w)) }"

definition aeApiDelEvent :: "('p, 'd, 'w) env \<Rightarrow> 'w \<Rightarrow> ('p, 'd) aeEventLoop \<Rightarrow> int \<Rightarrow> u32 \<Rightarrow> 'w option" where
  "aeApiDelEvent e w el fd delmask = do {
     fe \<leftarrow> event_at el fd;
     let m = mask fe AND NOT delmask;
     Some (if m \<noteq> AE_NONE then snd (epoll_ctl e w (epfd el) EPOLL_CTL_MOD fd (epoll_events m))
           else snd (epoll_ctl e w (epfd el) EPOLL_CTL_DEL fd (epoll_events m))) }"

text \<open>The timeout in milliseconds, rounded up, and converted from \<open>long\<close> to \<open>int\<close>. \<open>None\<close> is a null pointer.\<close>

definition timeout_ms :: "(int \<times> int) option \<Rightarrow> int" where
  "timeout_ms tvp = (case tvp of None \<Rightarrow> -1
     | Some (tv_sec, tv_usec) \<Rightarrow> sint (word_of_int (tv_sec * 1000 + (tv_usec + 999) div 1000) :: 32 word))"

definition fired_mask_of :: "u32 \<Rightarrow> u32" where
  "fired_mask_of ev =
     (let m = 0;
          m = (if ev AND EPOLLIN \<noteq> 0 then m OR AE_READABLE else m);
          m = (if ev AND EPOLLOUT \<noteq> 0 then m OR AE_WRITABLE else m);
          m = (if ev AND EPOLLERR \<noteq> 0 then m OR (AE_WRITABLE OR AE_READABLE) else m)
      in if ev AND EPOLLHUP \<noteq> 0 then m OR (AE_WRITABLE OR AE_READABLE) else m)"

fun store_fired :: "aeFiredEvent list \<Rightarrow> nat \<Rightarrow> (u32 \<times> int) list \<Rightarrow> aeFiredEvent list option" where
  "store_fired fs j [] = Some fs"
| "store_fired fs j ((ev, fd) # evs) = do {
     fs \<leftarrow> set_at fs j \<lparr>fired_fd = fd, fired_mask = fired_mask_of ev\<rparr>;
     store_fired fs (j + 1) evs }"

definition aeApiPoll :: "('p, 'd, 'w) env \<Rightarrow> 'w \<Rightarrow> ('p, 'd) aeEventLoop \<Rightarrow> (int \<times> int) option
    \<Rightarrow> (nat \<times> ('p, 'd) aeEventLoop \<times> 'w) option" where
  "aeApiPoll e w el tvp =
     (let (r, w) = epoll_wait e w (epfd el) (setsize el) (timeout_ms tvp) in
      case r of
        Events evs \<Rightarrow> do { fs \<leftarrow> store_fired (fired el) 0 evs; Some (length evs, el\<lparr>fired := fs\<rparr>, w) }
      | Interrupted \<Rightarrow> Some (0, el, w)
      | Failed \<Rightarrow> None)"

subsection \<open>Creating and deleting\<close>

text \<open>\<open>zmalloc\<close> aborts when memory runs out, so only \<open>aeApiCreate\<close> can fail; \<open>NULL\<close> is the inner \<open>None\<close>.\<close>

definition aeCreateEventLoop :: "('p, 'd, 'w) env \<Rightarrow> 'w \<Rightarrow> nat \<Rightarrow> aeFiredEvent list \<Rightarrow> (('p, 'd) aeEventLoop option \<times> 'w)" where
  "aeCreateEventLoop e w n memory =
     aeApiCreate e w \<lparr>maxfd = -1, setsize = int n, timeEventNextId = 0,
       events = replicate n \<lparr>mask = AE_NONE, rfileProc = None, wfileProc = None, clientData = None\<rparr>,
       fired = memory, timers = (\<lambda>_. None), timeEventHead = None, stop = False, epfd = -1,
       beforesleep = None, aftersleep = None, flags = 0\<rparr>"

definition aeSetDontWait :: "('p, 'd) aeEventLoop \<Rightarrow> bool \<Rightarrow> ('p, 'd) aeEventLoop" where
  "aeSetDontWait el noWait =
     (if noWait then el\<lparr>flags := flags el OR AE_DONT_WAIT\<rparr> else el\<lparr>flags := flags el AND NOT AE_DONT_WAIT\<rparr>)"

partial_function (option) delete_timers :: "('p, 'd) aeEventLoop \<Rightarrow> addr option \<Rightarrow> ('p, 'd) aeEventLoop option" where
  "delete_timers el te = (case te of None \<Rightarrow> Some el
     | Some a \<Rightarrow> Option.bind (timers el a) (\<lambda>t.
         Option.bind (free_timer el a) (\<lambda>el. delete_timers el (te_next t))))"

definition aeDeleteEventLoop :: "('p, 'd) aeEventLoop \<Rightarrow> ('p, 'd) aeEventLoop option" where
  "aeDeleteEventLoop el = delete_timers el (timeEventHead el)"

definition set_handlers :: "('p, 'd) aeFileEvent \<Rightarrow> u32 \<Rightarrow> 'p \<Rightarrow> 'd option \<Rightarrow> ('p, 'd) aeFileEvent" where
  "set_handlers fe m proc data =
     (let fe = fe\<lparr>mask := mask fe OR m\<rparr>;
          fe = (if m AND AE_READABLE \<noteq> 0 then fe\<lparr>rfileProc := Some proc\<rparr> else fe);
          fe = (if m AND AE_WRITABLE \<noteq> 0 then fe\<lparr>wfileProc := Some proc\<rparr> else fe)
      in fe\<lparr>clientData := data\<rparr>)"

definition aeCreateFileEvent :: "('p, 'd, 'w) env \<Rightarrow> 'w \<Rightarrow> ('p, 'd) aeEventLoop \<Rightarrow> int \<Rightarrow> u32 \<Rightarrow> 'p \<Rightarrow> 'd option
    \<Rightarrow> (int \<times> ('p, 'd) aeEventLoop \<times> 'w) option" where
  "aeCreateFileEvent e w el fd m proc data =
     (if setsize el \<le> fd then Some (AE_ERR, el, w)
      else do {
        fe \<leftarrow> event_at el fd;
        (r, w) \<leftarrow> aeApiAddEvent e w el fd m;
        if r = -1 then Some (AE_ERR, el, w)
        else do {
          el \<leftarrow> put_event el fd (set_handlers fe m proc data);
          Some (AE_OK, if maxfd el < fd then el\<lparr>maxfd := fd\<rparr> else el, w) } })"

text \<open>The search for the next registered descriptor downwards from \<open>j - 1\<close>; \<open>-1\<close> when there is none.\<close>

fun lower_fd :: "('p, 'd) aeEventLoop \<Rightarrow> nat \<Rightarrow> int option" where
  "lower_fd el 0 = Some (-1)"
| "lower_fd el (Suc j) = do {
     fe \<leftarrow> event_at el (int j);
     if mask fe \<noteq> AE_NONE then Some (int j) else lower_fd el j }"

definition aeDeleteFileEvent :: "('p, 'd, 'w) env \<Rightarrow> 'w \<Rightarrow> ('p, 'd) aeEventLoop \<Rightarrow> int \<Rightarrow> u32
    \<Rightarrow> (('p, 'd) aeEventLoop \<times> 'w) option" where
  "aeDeleteFileEvent e w el fd m =
     (if setsize el \<le> fd then Some (el, w)
      else do {
        fe \<leftarrow> event_at el fd;
        if mask fe = AE_NONE then Some (el, w)
        else do {
          let m = (if m AND AE_WRITABLE \<noteq> 0 then m OR AE_BARRIER else m);
          w \<leftarrow> aeApiDelEvent e w el fd m;
          let fe = fe\<lparr>mask := mask fe AND NOT m\<rparr>;
          el \<leftarrow> put_event el fd fe;
          if fd = maxfd el \<and> mask fe = AE_NONE then do {
            j \<leftarrow> lower_fd el (nat (maxfd el));
            Some (el\<lparr>maxfd := j\<rparr>, w) }
          else Some (el, w) } })"

definition aeCreateTimeEvent :: "('p, 'd, 'w) env \<Rightarrow> 'w \<Rightarrow> ('p, 'd) aeEventLoop \<Rightarrow> int \<Rightarrow> 'p \<Rightarrow> 'd option \<Rightarrow> 'p option
    \<Rightarrow> (int \<times> ('p, 'd) aeEventLoop \<times> 'w) option" where
  "aeCreateTimeEvent e w el milliseconds proc data finalizer = do {
     let id = timeEventNextId el;
     next \<leftarrow> int64 (id + 1);
     let el = el\<lparr>timeEventNextId := next\<rparr>;
     case new_timer e (timers el) of
       None \<Rightarrow> Some (AE_ERR, el, w)
     | Some a \<Rightarrow> do {
         let (now, w) = getMonotonicUs e w;
         us \<leftarrow> int64 (milliseconds * 1000);
         let te = \<lparr>te_id = id, te_when = now + word_of_int us, timeProc = proc, finalizerProc = finalizer, te_clientData = None,
           te_prev = None, te_next = timeEventHead el, refcount = 0\<rparr>;
         let el = el\<lparr>timers := (timers el)(a \<mapsto> te)\<rparr>;
         el \<leftarrow> (if te_next te \<noteq> None then put_timer el (te_next te) (\<lambda>t. t\<lparr>te_prev := Some a\<rparr>) else Some el);
         Some (id, el\<lparr>timeEventHead := Some a\<rparr>, w) } }"

subsection \<open>Time events\<close>

partial_function (option) earliest_timer :: "('p, 'd) aeEventLoop \<Rightarrow> ('p, 'd) aeTimeEvent option \<Rightarrow> addr option
    \<Rightarrow> ('p, 'd) aeTimeEvent option option" where
  "earliest_timer el earliest te = (case te of None \<Rightarrow> Some earliest
     | Some a \<Rightarrow> Option.bind (timers el a) (\<lambda>t.
         earliest_timer el
           (case earliest of None \<Rightarrow> Some t | Some s \<Rightarrow> if te_when t < te_when s then Some t else earliest) (te_next t)))"

definition usUntilEarliestTimer :: "('p, 'd, 'w) env \<Rightarrow> 'w \<Rightarrow> ('p, 'd) aeEventLoop \<Rightarrow> (int \<times> 'w) option" where
  "usUntilEarliestTimer e w el =
     (if timeEventHead el = None then Some (-1, w)
      else do {
        earliest \<leftarrow> earliest_timer el None (timeEventHead el);
        let (now, w) = getMonotonicUs e w;
        t \<leftarrow> earliest;
        Some (if te_when t \<le> now then 0 else sint (te_when t - now), w) })"

text \<open>A time event that was marked deleted is unlinked, finalised and freed.\<close>

definition remove_timer :: "('p, 'd, 'w) env \<Rightarrow> 'w \<Rightarrow> ('p, 'd) aeEventLoop \<Rightarrow> u64 \<Rightarrow> addr
    \<Rightarrow> (('p, 'd) aeEventLoop \<times> u64 \<times> 'w) option" where
  "remove_timer e w el now a = do {
     te \<leftarrow> timers el a;
     el \<leftarrow> (if te_prev te \<noteq> None then put_timer el (te_prev te) (\<lambda>t. t\<lparr>te_next := te_next te\<rparr>)
            else Some (el\<lparr>timeEventHead := te_next te\<rparr>));
     el \<leftarrow> (if te_next te \<noteq> None then put_timer el (te_next te) (\<lambda>t. t\<lparr>te_prev := te_prev te\<rparr>) else Some el);
     (el, now, w) \<leftarrow> (case finalizerProc te of
        None \<Rightarrow> Some (el, now, w)
      | Some f \<Rightarrow> do {
          (el, w) \<leftarrow> call_finalizer e f el (te_clientData te) w;
          let (now, w) = getMonotonicUs e w;
          Some (el, now, w) });
     el \<leftarrow> free_timer el a;
     Some (el, now, w) }"

definition fire_timer :: "('p, 'd, 'w) env \<Rightarrow> 'w \<Rightarrow> ('p, 'd) aeEventLoop \<Rightarrow> addr
    \<Rightarrow> (('p, 'd) aeEventLoop \<times> u64 \<times> 'w) option" where
  "fire_timer e w el a = do {
     te \<leftarrow> timers el a;
     let id = te_id te;
     el \<leftarrow> put_timer el (Some a) (\<lambda>t. t\<lparr>refcount := refcount t + 1\<rparr>);
     (retval, el, w) \<leftarrow> call_time e (timeProc te) el id (te_clientData te) w;
     el \<leftarrow> put_timer el (Some a) (\<lambda>t. t\<lparr>refcount := refcount t - 1\<rparr>);
     let (now, w) = getMonotonicUs e w;
     el \<leftarrow> (if retval \<noteq> AE_NOMORE then do {
              us \<leftarrow> int32 (retval * 1000);
              put_timer el (Some a) (\<lambda>t. t\<lparr>te_when := now + word_of_int us\<rparr>) }
            else put_timer el (Some a) (\<lambda>t. t\<lparr>te_id := AE_DELETED_EVENT_ID\<rparr>));
     Some (el, now, w) }"

partial_function (option) timers_loop :: "('p, 'd, 'w) env \<Rightarrow> int \<Rightarrow> 'w \<Rightarrow> ('p, 'd) aeEventLoop \<Rightarrow> u64 \<Rightarrow> nat \<Rightarrow> addr option
    \<Rightarrow> (nat \<times> ('p, 'd) aeEventLoop \<times> 'w) option" where
  "timers_loop e maxId w el now processed te = (case te of None \<Rightarrow> Some (processed, el, w)
     | Some a \<Rightarrow> Option.bind (timers el a) (\<lambda>t.
         if te_id t = AE_DELETED_EVENT_ID then
           if refcount t \<noteq> 0 then timers_loop e maxId w el now processed (te_next t)
           else Option.bind (remove_timer e w el now a) (\<lambda>(el, now, w).
             timers_loop e maxId w el now processed (te_next t))
         else if maxId < te_id t then timers_loop e maxId w el now processed (te_next t)
         else if te_when t \<le> now then
           Option.bind (fire_timer e w el a) (\<lambda>(el, now, w).
             Option.bind (timers el a) (\<lambda>t. timers_loop e maxId w el now (processed + 1) (te_next t)))
         else timers_loop e maxId w el now processed (te_next t)))"

definition processTimeEvents :: "('p, 'd, 'w) env \<Rightarrow> 'w \<Rightarrow> ('p, 'd) aeEventLoop \<Rightarrow> (nat \<times> ('p, 'd) aeEventLoop \<times> 'w) option" where
  "processTimeEvents e w el =
     (let te = timeEventHead el;
          maxId = timeEventNextId el - 1;
          (now, w) = getMonotonicUs e w
      in timers_loop e maxId w el now 0 te)"

subsection \<open>One round\<close>

definition timeout_for :: "('p, 'd, 'w) env \<Rightarrow> 'w \<Rightarrow> ('p, 'd) aeEventLoop \<Rightarrow> u32 \<Rightarrow> ((int \<times> int) option \<times> 'w) option" where
  "timeout_for e w el fl = do {
     (us, w) \<leftarrow> (if fl AND AE_TIME_EVENTS \<noteq> 0 \<and> fl AND AE_DONT_WAIT = 0 then usUntilEarliestTimer e w el else Some (-1, w));
     let tvp = (if 0 \<le> us then Some (us div 1000000, us mod 1000000)
                else if fl AND AE_DONT_WAIT \<noteq> 0 then Some (0, 0) else None);
     Some (if flags el AND AE_DONT_WAIT \<noteq> 0 then Some (0, 0) else tvp, w) }"

definition sleep_hook :: "('p, 'd, 'w) env \<Rightarrow> 'p option \<Rightarrow> bool \<Rightarrow> 'w \<Rightarrow> ('p, 'd) aeEventLoop \<Rightarrow> (('p, 'd) aeEventLoop \<times> 'w) option" where
  "sleep_hook e hook wanted w el = (case hook of None \<Rightarrow> Some (el, w) | Some p \<Rightarrow> if wanted then call_sleep e p el w else Some (el, w))"

text \<open>The handlers of one descriptor that fired.\<close>

definition fire_read :: "('p, 'd, 'w) env \<Rightarrow> 'w \<Rightarrow> ('p, 'd) aeEventLoop \<Rightarrow> int \<Rightarrow> u32 \<Rightarrow> (('p, 'd) aeEventLoop \<times> 'w) option" where
  "fire_read e w el fd m = do { fe \<leftarrow> event_at el fd; p \<leftarrow> rfileProc fe; call_file e p el fd (clientData fe) m w }"

definition fire_write :: "('p, 'd, 'w) env \<Rightarrow> 'w \<Rightarrow> ('p, 'd) aeEventLoop \<Rightarrow> int \<Rightarrow> u32 \<Rightarrow> (('p, 'd) aeEventLoop \<times> 'w) option" where
  "fire_write e w el fd m = do { fe \<leftarrow> event_at el fd; p \<leftarrow> wfileProc fe; call_file e p el fd (clientData fe) m w }"

definition fire_event :: "('p, 'd, 'w) env \<Rightarrow> 'w \<Rightarrow> ('p, 'd) aeEventLoop \<Rightarrow> int \<Rightarrow> u32 \<Rightarrow> (('p, 'd) aeEventLoop \<times> 'w) option" where
  "fire_event e w el fd m = do {
     fe \<leftarrow> event_at el fd;
     let invert = (mask fe AND AE_BARRIER \<noteq> 0);
     let n = (0 :: nat);
     (el, w, n) \<leftarrow> (if \<not> invert \<and> mask fe AND m AND AE_READABLE \<noteq> 0
        then do { (el, w) \<leftarrow> fire_read e w el fd m; Some (el, w, n + 1) } else Some (el, w, n));
     fe \<leftarrow> event_at el fd;
     (el, w, n) \<leftarrow> (if mask fe AND m AND AE_WRITABLE \<noteq> 0 \<and> (n = 0 \<or> wfileProc fe \<noteq> rfileProc fe)
        then do { (el, w) \<leftarrow> fire_write e w el fd m; Some (el, w, n + 1) } else Some (el, w, n));
     if invert then do {
       fe \<leftarrow> event_at el fd;
       if mask fe AND m AND AE_READABLE \<noteq> 0 \<and> (n = 0 \<or> wfileProc fe \<noteq> rfileProc fe)
       then fire_read e w el fd m else Some (el, w) }
     else Some (el, w) }"

fun fire_loop :: "('p, 'd, 'w) env \<Rightarrow> 'w \<Rightarrow> ('p, 'd) aeEventLoop \<Rightarrow> nat list \<Rightarrow> nat \<Rightarrow> (nat \<times> ('p, 'd) aeEventLoop \<times> 'w) option" where
  "fire_loop e w el [] processed = Some (processed, el, w)"
| "fire_loop e w el (j # js) processed = do {
     f \<leftarrow> get_at (fired el) j;
     (el, w) \<leftarrow> fire_event e w el (fired_fd f) (fired_mask f);
     fire_loop e w el js (processed + 1) }"

definition poll_and_fire :: "('p, 'd, 'w) env \<Rightarrow> 'w \<Rightarrow> ('p, 'd) aeEventLoop \<Rightarrow> u32 \<Rightarrow> (nat \<times> ('p, 'd) aeEventLoop \<times> 'w) option" where
  "poll_and_fire e w el fl = do {
     (tvp, w) \<leftarrow> timeout_for e w el fl;
     (el, w) \<leftarrow> sleep_hook e (beforesleep el) (fl AND AE_CALL_BEFORE_SLEEP \<noteq> 0) w el;
     (numevents, el, w) \<leftarrow> aeApiPoll e w el tvp;
     let numevents = (if fl AND AE_FILE_EVENTS = 0 then 0 else numevents);
     (el, w) \<leftarrow> sleep_hook e (aftersleep el) (fl AND AE_CALL_AFTER_SLEEP \<noteq> 0) w el;
     fire_loop e w el [0..<numevents] 0 }"

definition aeProcessEvents :: "('p, 'd, 'w) env \<Rightarrow> 'w \<Rightarrow> ('p, 'd) aeEventLoop \<Rightarrow> u32 \<Rightarrow> (nat \<times> ('p, 'd) aeEventLoop \<times> 'w) option" where
  "aeProcessEvents e w el fl =
     (if fl AND AE_TIME_EVENTS = 0 \<and> fl AND AE_FILE_EVENTS = 0 then Some (0, el, w)
      else do {
        (processed, el, w) \<leftarrow>
          (if maxfd el \<noteq> -1 \<or> (fl AND AE_TIME_EVENTS \<noteq> 0 \<and> fl AND AE_DONT_WAIT = 0) then poll_and_fire e w el fl
           else Some (0, el, w));
        if fl AND AE_TIME_EVENTS \<noteq> 0 then do {
          (n, el, w) \<leftarrow> processTimeEvents e w el;
          Some (processed + n, el, w) }
        else Some (processed, el, w) })"

text \<open>\<open>aeWait\<close> is a call of \<open>poll\<close>, which answers how many descriptors are ready and the events of the one asked for.\<close>

definition POLLIN :: u32 where "POLLIN = 0x001"
definition POLLOUT :: u32 where "POLLOUT = 0x004"
definition POLLERR :: u32 where "POLLERR = 0x008"
definition POLLHUP :: u32 where "POLLHUP = 0x010"

definition aeWait :: "(int \<Rightarrow> u32 \<Rightarrow> int \<Rightarrow> int \<times> u32) \<Rightarrow> int \<Rightarrow> u32 \<Rightarrow> int \<Rightarrow> int" where
  "aeWait poll fd m milliseconds =
     (let evs = 0;
          evs = (if m AND AE_READABLE \<noteq> 0 then evs OR POLLIN else evs);
          evs = (if m AND AE_WRITABLE \<noteq> 0 then evs OR POLLOUT else evs);
          (retval, revents) = poll fd evs milliseconds
      in if retval = 1 then
           let retmask = 0;
               retmask = (if revents AND POLLIN \<noteq> 0 then retmask OR AE_READABLE else retmask);
               retmask = (if revents AND POLLOUT \<noteq> 0 then retmask OR AE_WRITABLE else retmask);
               retmask = (if revents AND POLLERR \<noteq> 0 then retmask OR AE_WRITABLE else retmask);
               retmask = (if revents AND POLLHUP \<noteq> 0 then retmask OR AE_WRITABLE else retmask)
           in uint retmask
         else retval)"

partial_function (option) main_loop :: "('p, 'd, 'w) env \<Rightarrow> 'w \<Rightarrow> ('p, 'd) aeEventLoop \<Rightarrow> (('p, 'd) aeEventLoop \<times> 'w) option" where
  "main_loop e w el =
     (if stop el then Some (el, w)
      else Option.bind (aeProcessEvents e w el (AE_ALL_EVENTS OR AE_CALL_BEFORE_SLEEP OR AE_CALL_AFTER_SLEEP))
        (\<lambda>(_, el, w). main_loop e w el))"

definition aeMain :: "('p, 'd, 'w) env \<Rightarrow> 'w \<Rightarrow> ('p, 'd) aeEventLoop \<Rightarrow> (('p, 'd) aeEventLoop \<times> 'w) option" where
  "aeMain e w el = main_loop e w (el\<lparr>stop := False\<rparr>)"

definition aeSetBeforeSleepProc :: "('p, 'd) aeEventLoop \<Rightarrow> 'p option \<Rightarrow> ('p, 'd) aeEventLoop" where
  "aeSetBeforeSleepProc el p = el\<lparr>beforesleep := p\<rparr>"

definition aeSetAfterSleepProc :: "('p, 'd) aeEventLoop \<Rightarrow> 'p option \<Rightarrow> ('p, 'd) aeEventLoop" where
  "aeSetAfterSleepProc el p = el\<lparr>aftersleep := p\<rparr>"

end
