(* ===== verification/Ae_Inv.thy ===== *)
theory Ae_Inv
  imports Ae "HOL-Library.Sublist"
begin

unbundle bit_operations_syntax

text \<open>
  The invariants of the event loop: the list of time events, what a callback may do through the interface (\<open>uses\<close>), and the registered file
  events with \<open>maxfd\<close>. Every operation keeps them.
\<close>


subsection \<open>The list of time events\<close>

text \<open>A segment of the list: it starts at \<open>q\<close>, \<open>p\<close> comes before it and \<open>r\<close> after it.\<close>

fun tseg :: "(addr \<Rightarrow> ('p, 'd) aeTimeEvent option) \<Rightarrow> addr option \<Rightarrow> addr option \<Rightarrow> addr list \<Rightarrow> addr option \<Rightarrow> bool" where
  "tseg h p q [] r \<longleftrightarrow> q = r"
| "tseg h p q (a # as) r \<longleftrightarrow> q = Some a \<and> (\<exists>t. h a = Some t \<and> te_prev t = p \<and> tseg h (Some a) (te_next t) as r)"

fun last_of :: "addr option \<Rightarrow> addr list \<Rightarrow> addr option" where
  "last_of p [] = p"
| "last_of p (a # as) = last_of (Some a) as"

lemma tseg_append: "tseg h p q (as @ bs) r \<longleftrightarrow> (\<exists>m. tseg h p q as m \<and> tseg h (last_of p as) m bs r)"
  by (induction as arbitrary: p q) auto

lemma last_of_append [simp]: "last_of p (as @ bs) = last_of (last_of p as) bs"
  by (induction as arbitrary: p) auto

lemma last_of_cases: "last_of p as = p \<and> as = [] \<or> (\<exists>xs a. as = xs @ [a] \<and> last_of p as = Some a)"
  by (cases as rule: rev_cases) auto

definition links :: "('p, 'd) aeTimeEvent option \<Rightarrow> (addr option \<times> addr option) option" where
  "links = map_option (\<lambda>t. (te_prev t, te_next t))"

lemma tseg_cong:
  assumes "tseg h p q as r" and "\<And>a. a \<in> set as \<Longrightarrow> links (h' a) = links (h a)"
  shows "tseg h' p q as r"
  using assms by (induction as arbitrary: p q) (fastforce simp: links_def)+

lemma tseg_upd: "a \<notin> set as \<Longrightarrow> tseg (h(a := v)) p q as r = tseg h p q as r"
  by (induction as arbitrary: p q) auto

lemma tseg_mem: "tseg h p q as r \<Longrightarrow> set as \<subseteq> dom h"
  by (induction as arbitrary: p q) auto

text \<open>Relinking at either end of a segment.\<close>

lemma tseg_set_prev:
  assumes "tseg h p (Some a) (a # as) r" and "h a = Some t" and "a \<notin> set as"
  shows "tseg (h(a \<mapsto> t\<lparr>te_prev := p'\<rparr>)) p' (Some a) (a # as) r"
  using assms by (auto simp: tseg_upd)

lemma tseg_set_next:
  assumes "tseg h p q (as @ [a]) r" and "h a = Some t" and "a \<notin> set as"
  shows "tseg (h(a \<mapsto> t\<lparr>te_next := r'\<rparr>)) p q (as @ [a]) r'"
  using assms by (auto simp: tseg_append tseg_upd)

definition body :: "('p, 'd) aeTimeEvent \<Rightarrow> int \<times> u64 \<times> 'p \<times> 'p option \<times> 'd option \<times> int" where
  "body t = (te_id t, te_when t, timeProc t, finalizerProc t, te_clientData t, refcount t)"

lemma body_links [simp]: "body (t\<lparr>te_prev := p\<rparr>) = body t" "body (t\<lparr>te_next := p\<rparr>) = body t"
  by (simp_all add: body_def)

definition same_body :: "('p, 'd) aeEventLoop \<Rightarrow> ('p, 'd) aeEventLoop \<Rightarrow> addr \<Rightarrow> bool" where
  "same_body el el' a \<longleftrightarrow> map_option body (timers el' a) = map_option body (timers el a)"

lemma same_body_refl [simp]: "same_body el el a"
  by (simp add: same_body_def)

lemma same_body_trans: "same_body el el1 a \<Longrightarrow> same_body el1 el2 a \<Longrightarrow> same_body el el2 a"
  by (simp add: same_body_def)

lemma same_body_timer: "same_body el el' a \<Longrightarrow> timers el a = Some t \<Longrightarrow> \<exists>t'. timers el' a = Some t' \<and> body t' = body t"
  by (simp add: same_body_def)

text \<open>The invariant of the list. \<open>X\<close> holds the time events that are allocated and not in the list: one that is being finalised.\<close>

definition timer_inv :: "addr set \<Rightarrow> ('p, 'd) aeEventLoop \<Rightarrow> addr list \<Rightarrow> bool" where
  "timer_inv X el as \<longleftrightarrow> tseg (timers el) None (timeEventHead el) as None \<and> distinct as \<and> dom (timers el) = X \<union> set as \<and> X \<inter> set as = {} \<and>
     (\<forall>a t. timers el a = Some t \<longrightarrow> te_id t < timeEventNextId el) \<and> 0 \<le> timeEventNextId el"

lemma timer_inv_timer: "timer_inv X el as \<Longrightarrow> a \<in> set as \<Longrightarrow> \<exists>t. timers el a = Some t \<and> te_id t < timeEventNextId el"
  unfolding timer_inv_def by (metis UnCI domD)

lemma timer_inv_next:
  assumes "timer_inv X el (xs @ a # ys)" and "timers el a = Some t"
  shows "te_next t = (case ys of [] \<Rightarrow> None | b # _ \<Rightarrow> Some b)" and "te_prev t = last_of None xs"
  using assms by (cases ys; auto simp: timer_inv_def tseg_append)+

lemma timer_inv_head: "timer_inv X el as \<Longrightarrow> timeEventHead el = (case as of [] \<Rightarrow> None | a # _ \<Rightarrow> Some a)"
  by (cases as) (auto simp: timer_inv_def)

text \<open>\<open>grown\<close> is all a user of the interface can do to the list: new time events in front, with fresh identifiers.\<close>

definition grown :: "addr set \<Rightarrow> ('p, 'd) aeEventLoop \<Rightarrow> addr list \<Rightarrow> ('p, 'd) aeEventLoop \<Rightarrow> addr list \<Rightarrow> bool" where
  "grown X el as el' new \<longleftrightarrow> timer_inv X el' (new @ as) \<and> (\<forall>a \<in> X \<union> set as. same_body el el' a) \<and>
     (\<forall>a \<in> set new. \<forall>t. timers el' a = Some t \<longrightarrow> timeEventNextId el \<le> te_id t) \<and> timeEventNextId el \<le> timeEventNextId el'"

lemma grown_refl: "timer_inv X el as \<Longrightarrow> grown X el as el []"
  by (simp add: grown_def)

lemma grown_trans:
  assumes "grown X el as el1 xs" and "grown X el1 (xs @ as) el2 ys"
  shows "grown X el as el2 (ys @ xs)"
proof -
  have "timeEventNextId el \<le> te_id t" if m: "a \<in> set xs" "timers el2 a = Some t" for a t
  proof -
    have "same_body el1 el2 a" using assms m by (auto simp: grown_def)
    then obtain t1 where "timers el1 a = Some t1" "te_id t1 = te_id t"
      using m(2) by (cases "timers el1 a") (auto simp: same_body_def body_def)
    then show ?thesis using assms m by (auto simp: grown_def)
  qed
  then show ?thesis using assms by (auto simp: grown_def intro: same_body_trans)
qed

lemma aeCreateTimeEvent_grown:
  fixes el :: "('a, 'b) aeEventLoop"
  assumes "addr_ok (new_timer e)" and "timer_inv X el as" and "aeCreateTimeEvent e w el ms p d f = Some (r, el', w')"
  shows "\<exists>new. grown X el as el' new"
proof (cases "new_timer e (timers el)")
  case None
  then have "el' = el\<lparr>timeEventNextId := timeEventNextId el + 1\<rparr>"
    using assms(3) by (auto simp: aeCreateTimeEvent_def int64_def Let_def split: if_splits)
  moreover have "te_id t < timeEventNextId el + 1" if "timers el x = Some t" for x t
    using assms(2) that by (force simp: timer_inv_def)
  ultimately have "grown X el as el' []" using assms(2) by (simp add: grown_def timer_inv_def same_body_def)
  then show ?thesis by blast
next
  case (Some a)
  then have a: "timers el a = None" "a \<notin> set as" "a \<notin> X" using assms(1,2) by (auto simp: addr_ok_def timer_inv_def)
  define te :: "('a, 'b) aeTimeEvent" where "te = \<lparr>te_id = timeEventNextId el, te_when = fst (getMonotonicUs e w) + word_of_int (ms * 1000), timeProc = p,
    finalizerProc = f, te_clientData = None, te_prev = None, te_next = timeEventHead el, refcount = 0\<rparr>"
  then have te: "te_id te = timeEventNextId el" "te_prev te = None" "te_next te = timeEventHead el" by simp_all
  have el': "el' = (case as of [] \<Rightarrow> el\<lparr>timeEventNextId := timeEventNextId el + 1, timers := (timers el)(a \<mapsto> te), timeEventHead := Some a\<rparr>
      | b # _ \<Rightarrow> el\<lparr>timeEventNextId := timeEventNextId el + 1, timers := (timers el)(a \<mapsto> te, b \<mapsto> (the (timers el b))\<lparr>te_prev := Some a\<rparr>),
          timeEventHead := Some a\<rparr>)"
    using assms(2,3) Some a timer_inv_head [OF assms(2)] timer_inv_timer [OF assms(2)]
    by (cases as) (auto simp: aeCreateTimeEvent_def int64_def put_timer_def te_def Let_def split: if_splits prod.splits option.splits)
  have id: "te_id t < timeEventNextId el + 1" if "timers el x = Some t" for x t
    using assms(2) that by (force simp: timer_inv_def)
  have "grown X el as el' [a]"
  proof (cases as)
    case Nil
    then have "el' = el\<lparr>timeEventNextId := timeEventNextId el + 1, timers := (timers el)(a \<mapsto> te), timeEventHead := Some a\<rparr>"
      using el' by simp
    then show ?thesis using assms(2) te Nil a by (fastforce simp: grown_def timer_inv_def same_body_def)
  next
    case (Cons b bs)
    obtain t where t: "timers el b = Some t" using timer_inv_timer [OF assms(2)] Cons by auto
    let ?h = "(timers el)(a \<mapsto> te, b \<mapsto> t\<lparr>te_prev := Some a\<rparr>)"
    have e: "timers el' = ?h" "timeEventHead el' = Some a" "timeEventNextId el' = timeEventNextId el + 1"
      using el' Cons t by simp_all
    have b: "tseg (timers el) None (Some b) (b # bs) None" "b \<notin> set bs" "a \<noteq> b" using assms(2) Cons a by (auto simp: timer_inv_def)
    then have "tseg ?h (Some a) (Some b) (b # bs) None"
      using tseg_set_prev [of "(timers el)(a \<mapsto> te)" None b bs None t "Some a"] t a Cons by (simp add: tseg_upd)
    moreover have "?h a = Some te" "te_next te = Some b" using b te timer_inv_head [OF assms(2)] Cons by simp_all
    ultimately have s: "tseg ?h None (Some a) (a # as) None" using te Cons by simp
    have d: "dom ?h = X \<union> set (a # as)" using assms(2) t Cons by (auto simp: timer_inv_def)
    have i: "te_id t' < timeEventNextId el + 1" if "?h x = Some t'" for x t'
      using that te id [of x] id [OF t] by (auto split: if_splits)
    have "timer_inv X el' ([a] @ as)" using s d i a assms(2) by (simp add: timer_inv_def e)
    moreover have "same_body el el' x" if "x \<in> X \<union> set as" for x using that a t by (auto simp: same_body_def e)
    ultimately show ?thesis using te b by (simp add: grown_def e)
  qed
  then show ?thesis by blast
qed

lemma timer_inv_split:
  "timer_inv X el (xs @ a # ys) \<longleftrightarrow> (\<exists>te. timers el a = Some te \<and> te_prev te = last_of None xs \<and>
     tseg (timers el) None (timeEventHead el) xs (Some a) \<and> tseg (timers el) (Some a) (te_next te) ys None \<and>
     distinct (xs @ a # ys) \<and> dom (timers el) = X \<union> set (xs @ a # ys) \<and> X \<inter> set (xs @ a # ys) = {} \<and>
     (\<forall>a t. timers el a = Some t \<longrightarrow> te_id t < timeEventNextId el) \<and> 0 \<le> timeEventNextId el)"
  by (auto simp: timer_inv_def tseg_append)

text \<open>Unlinking, as \<open>remove_timer\<close> does it before it calls the finalizer.\<close>

definition unlink_timer :: "('p, 'd) aeEventLoop \<Rightarrow> ('p, 'd) aeTimeEvent \<Rightarrow> ('p, 'd) aeEventLoop option" where
  "unlink_timer el te = do {
     el \<leftarrow> (if te_prev te \<noteq> None then put_timer el (te_prev te) (\<lambda>t. t\<lparr>te_next := te_next te\<rparr>)
            else Some (el\<lparr>timeEventHead := te_next te\<rparr>));
     (if te_next te \<noteq> None then put_timer el (te_next te) (\<lambda>t. t\<lparr>te_prev := te_prev te\<rparr>) else Some el) }"

lemma unlink_prev:
  assumes "timer_inv X el (xs @ a # ys)" and "timers el a = Some te"
  shows "\<exists>el1. (if te_prev te \<noteq> None then put_timer el (te_prev te) (\<lambda>t. t\<lparr>te_next := te_next te\<rparr>)
       else Some (el\<lparr>timeEventHead := te_next te\<rparr>)) = Some el1 \<and>
     tseg (timers el1) None (timeEventHead el1) xs (te_next te) \<and> (\<forall>x. x \<notin> set xs \<longrightarrow> timers el1 x = timers el x) \<and>
     dom (timers el1) = dom (timers el) \<and> (\<forall>x. same_body el el1 x) \<and> timeEventNextId el1 = timeEventNextId el"
proof -
  from assms have te: "te_prev te = last_of None xs" "tseg (timers el) None (timeEventHead el) xs (Some a)" "distinct xs"
    by (auto simp: timer_inv_split)
  show ?thesis
  proof (cases xs rule: rev_cases)
    case Nil then show ?thesis using te by (simp add: same_body_def)
  next
    case (snoc us b)
    then obtain t where t: "timers el b = Some t" using te(2) by (auto simp: tseg_append)
    have "tseg ((timers el)(b \<mapsto> t\<lparr>te_next := te_next te\<rparr>)) None (timeEventHead el) xs (te_next te)"
      using tseg_set_next [of "timers el" None "timeEventHead el" us b "Some a" t "te_next te"] te t snoc by simp
    then show ?thesis using te(1) t snoc by (auto simp: put_timer_def same_body_def)
  qed
qed

lemma unlink_next:
  assumes "tseg (timers el) (Some a) q ys None" and "distinct ys"
  shows "\<exists>el1. (if q \<noteq> None then put_timer el q (\<lambda>t. t\<lparr>te_prev := p\<rparr>) else Some el) = Some el1 \<and>
     tseg (timers el1) p q ys None \<and> (\<forall>x. x \<notin> set ys \<longrightarrow> timers el1 x = timers el x) \<and> timeEventHead el1 = timeEventHead el \<and>
     dom (timers el1) = dom (timers el) \<and> (\<forall>x. same_body el el1 x) \<and> timeEventNextId el1 = timeEventNextId el"
proof (cases ys)
  case Nil then show ?thesis using assms by (simp add: same_body_def)
next
  case (Cons b bs)
  then obtain t where t: "timers el b = Some t" "q = Some b" using assms by auto
  then have "tseg ((timers el)(b \<mapsto> t\<lparr>te_prev := p\<rparr>)) p q ys None"
    using tseg_set_prev [of "timers el" "Some a" b bs None t p] assms Cons by auto
  then show ?thesis using t Cons by (auto simp: put_timer_def same_body_def)
qed

lemma same_body_ids:
  assumes "\<And>x. same_body el el' x" and "\<forall>a t. timers el a = Some t \<longrightarrow> te_id t < n" and "timers el' a = Some t"
  shows "te_id t < n"
  using assms(1) [of a] assms(2,3) by (cases "timers el a") (auto simp: same_body_def body_def)

lemma unlink_timer_inv:
  assumes "timer_inv {} el (xs @ a # ys)" and "timers el a = Some te"
  shows "\<exists>el'. unlink_timer el te = Some el' \<and> timer_inv {a} el' (xs @ ys) \<and> (\<forall>x. same_body el el' x) \<and>
     timeEventNextId el' = timeEventNextId el \<and> timers el' a = Some te"
proof -
  from assms have s: "te_prev te = last_of None xs" "tseg (timers el) (Some a) (te_next te) ys None" "distinct (xs @ a # ys)"
    "dom (timers el) = set (xs @ a # ys)" "\<forall>a t. timers el a = Some t \<longrightarrow> te_id t < timeEventNextId el" "0 \<le> timeEventNextId el"
    by (simp_all add: timer_inv_split)
  obtain el1 where 1: "(if te_prev te \<noteq> None then put_timer el (te_prev te) (\<lambda>t. t\<lparr>te_next := te_next te\<rparr>)
       else Some (el\<lparr>timeEventHead := te_next te\<rparr>)) = Some el1"
    "tseg (timers el1) None (timeEventHead el1) xs (te_next te)" "\<forall>x. x \<notin> set xs \<longrightarrow> timers el1 x = timers el x"
    "dom (timers el1) = dom (timers el)" "\<forall>x. same_body el el1 x" "timeEventNextId el1 = timeEventNextId el"
    using unlink_prev [OF assms] by blast
  have "tseg (timers el1) (Some a) (te_next te) ys None"
    by (rule tseg_cong [OF s(2)]) (use 1(3) s(3) in auto)
  moreover have "distinct ys" using s(3) by simp
  ultimately obtain el2 where 2: "(if te_next te \<noteq> None then put_timer el1 (te_next te) (\<lambda>t. t\<lparr>te_prev := te_prev te\<rparr>) else Some el1) = Some el2"
    "tseg (timers el2) (te_prev te) (te_next te) ys None" "\<forall>x. x \<notin> set ys \<longrightarrow> timers el2 x = timers el1 x"
    "timeEventHead el2 = timeEventHead el1" "dom (timers el2) = dom (timers el1)" "\<forall>x. same_body el1 el2 x"
    "timeEventNextId el2 = timeEventNextId el1"
    using unlink_next [of el1 a "te_next te" ys "te_prev te"] by blast
  have b: "same_body el el2 x" for x using 1(5) 2(6) same_body_trans by blast
  have "tseg (timers el2) None (timeEventHead el2) xs (te_next te)"
    unfolding 2(4) by (rule tseg_cong [OF 1(2)]) (use 2(3) s(3) in auto)
  then have "tseg (timers el2) None (timeEventHead el2) (xs @ ys) None"
    using 2(2) s(1) by (auto simp: tseg_append)
  moreover have "te_id t < timeEventNextId el2" if "timers el2 x = Some t" for x t
    using same_body_ids [OF b s(5) that] 1(6) 2(7) by simp
  moreover have "dom (timers el2) = {a} \<union> set (xs @ ys)" using 1(4) 2(5) s(4) by auto
  ultimately have "timer_inv {a} el2 (xs @ ys)" using s(3,6) 1(6) 2(7) by (simp add: timer_inv_def)
  moreover have "timers el2 a = Some te" using 1(3) 2(3) s(3) assms(2) by simp
  moreover have "unlink_timer el te = Some el2" using 1(1) 2(1) by (simp only: unlink_timer_def Option.bind.simps)
  ultimately show ?thesis using 1(6) 2(7) b by auto
qed

lemma free_timer_inv:
  assumes "timer_inv {a} el as"
  shows "\<exists>el'. free_timer el a = Some el' \<and> timer_inv {} el' as \<and> (\<forall>x. x \<noteq> a \<longrightarrow> timers el' x = timers el x) \<and>
     timeEventNextId el' = timeEventNextId el"
proof -
  have "a \<in> dom (timers el)" "a \<notin> set as" using assms by (auto simp: timer_inv_def)
  then obtain t where "timers el a = Some t" "a \<notin> set as" by blast
  moreover from this have "timer_inv {} (el\<lparr>timers := (timers el)(a := None)\<rparr>) as" using assms by (simp add: timer_inv_def tseg_upd)
  ultimately show ?thesis by (simp add: free_timer_def)
qed

lemma put_timer_inv:
  assumes "timer_inv X el as" and "a \<in> set as" and "timers el a = Some t"
    and "te_prev (f t) = te_prev t" and "te_next (f t) = te_next t" and "te_id (f t) < timeEventNextId el"
  shows "put_timer el (Some a) f = Some (el\<lparr>timers := (timers el)(a \<mapsto> f t)\<rparr>)"
    and "timer_inv X (el\<lparr>timers := (timers el)(a \<mapsto> f t)\<rparr>) as"
proof -
  show "put_timer el (Some a) f = Some (el\<lparr>timers := (timers el)(a \<mapsto> f t)\<rparr>)" by (simp add: put_timer_def assms(3))
  have l: "links (((timers el)(a \<mapsto> f t)) x) = links (timers el x)" for x by (simp add: links_def assms(3-5))
  note i = assms(1) [unfolded timer_inv_def]
  have "tseg ((timers el)(a \<mapsto> f t)) None (timeEventHead el) as None"
    by (rule tseg_cong [of "timers el"], simp add: i) (rule l)
  moreover have "dom ((timers el)(a \<mapsto> f t)) = X \<union> set as" using i assms(2) by auto
  moreover have "\<forall>x t'. ((timers el)(a \<mapsto> f t)) x = Some t' \<longrightarrow> te_id t' < timeEventNextId el"
    using i assms(6) by simp
  ultimately show "timer_inv X (el\<lparr>timers := (timers el)(a \<mapsto> f t)\<rparr>) as"
    unfolding timer_inv_def using i by simp
qed


subsection \<open>What callbacks may do\<close>

text \<open>
  A callback uses the loop through its interface: it registers and removes file events, creates time events, sets the flag not to wait,
  or asks the loop to stop. The world it does it in is arbitrary.
\<close>

inductive uses :: "('p, 'd, 'w) env \<Rightarrow> ('p, 'd) aeEventLoop \<Rightarrow> ('p, 'd) aeEventLoop \<Rightarrow> bool" for e where
  uses_refl: "uses e el el"
| uses_create_file: "uses e el el1 \<Longrightarrow> m \<noteq> AE_NONE \<Longrightarrow> aeCreateFileEvent e w el1 fd m p d = Some (r, el2, w') \<Longrightarrow> uses e el el2"
| uses_delete_file: "uses e el el1 \<Longrightarrow> aeDeleteFileEvent e w el1 fd m = Some (el2, w') \<Longrightarrow> uses e el el2"
| uses_create_time: "uses e el el1 \<Longrightarrow> aeCreateTimeEvent e w el1 ms p d f = Some (r, el2, w') \<Longrightarrow> uses e el el2"
| uses_dont_wait: "uses e el el1 \<Longrightarrow> uses e el (aeSetDontWait el1 b)"
| uses_stop: "uses e el el1 \<Longrightarrow> uses e el (el1\<lparr>stop := True\<rparr>)"

lemma uses_trans: "uses e el1 el2 \<Longrightarrow> uses e el0 el1 \<Longrightarrow> uses e el0 el2"
  by (induction rule: uses.induct) (auto intro: uses.intros)

text \<open>The operations on file events, as updates of the loop.\<close>

lemma event_at_Some: "event_at el fd = Some fe \<longleftrightarrow> 0 \<le> fd \<and> nat fd < length (events el) \<and> fe = events el ! nat fd"
  by (auto simp: event_at_def get_at_def)

lemma put_event_Some: "put_event el fd fe = Some el' \<longleftrightarrow> 0 \<le> fd \<and> nat fd < length (events el) \<and> el' = el\<lparr>events := (events el)[nat fd := fe]\<rparr>"
  by (auto simp: put_event_def ensure_def set_at_def)

lemma aeCreateFileEvent_cases:
  assumes "aeCreateFileEvent e w el fd m p d = Some (r, el', w')"
  obtains "r = AE_ERR" "el' = el"
  | "r = AE_OK" "0 \<le> fd" "fd < setsize el" "nat fd < length (events el)"
    "el' = el\<lparr>events := (events el)[nat fd := set_handlers (events el ! nat fd) m p d], maxfd := max (maxfd el) fd\<rparr>"
proof (cases "r = AE_ERR")
  case True
  then show ?thesis using assms that(1)
    by (auto simp: aeCreateFileEvent_def fault_simps AE_OK_def AE_ERR_def split: if_splits prod.splits)
next
  case False
  have m: "(if maxfd l < fd then l\<lparr>maxfd := fd\<rparr> else l) = l\<lparr>maxfd := max (maxfd l) fd\<rparr>" for l :: "('a, 'b) aeEventLoop"
    by (simp add: max_def)
  show ?thesis using assms False that(2)
    by (auto simp: aeCreateFileEvent_def m fault_simps event_at_Some put_event_Some split: if_splits prod.splits)
qed

lemma aeDeleteFileEvent_cases:
  assumes "aeDeleteFileEvent e w el fd m = Some (el', w')"
  obtains "el' = el"
  | m' n where "0 \<le> fd" "fd < setsize el" "nat fd < length (events el)" "mask (events el ! nat fd) \<noteq> AE_NONE"
    "m' = (if m AND AE_WRITABLE \<noteq> 0 then m OR AE_BARRIER else m)"
    "el' = el\<lparr>events := (events el)[nat fd := (events el ! nat fd)\<lparr>mask := mask (events el ! nat fd) AND NOT m'\<rparr>], maxfd := n\<rparr>"
    "if fd = maxfd el \<and> mask (events el ! nat fd) AND NOT m' = AE_NONE then lower_fd (el'\<lparr>maxfd := maxfd el\<rparr>) (nat fd) = Some n else n = maxfd el"
proof (cases "setsize el \<le> fd \<or> mask (events el ! nat fd) = AE_NONE")
  case True
  then show ?thesis using assms that(1) by (auto simp: aeDeleteFileEvent_def fault_simps event_at_Some split: if_splits)
next
  case False
  define m' where "m' = (if m AND AE_WRITABLE \<noteq> 0 then m OR AE_BARRIER else m)"
  let ?fe = "(events el ! nat fd)\<lparr>mask := mask (events el ! nat fd) AND NOT m'\<rparr>"
  let ?el = "el\<lparr>events := (events el)[nat fd := ?fe]\<rparr>"
  obtain w1 where r: "0 \<le> fd" "nat fd < length (events el)" "aeApiDelEvent e w el fd m' = Some w1"
    "(if fd = maxfd ?el \<and> mask ?fe = AE_NONE then do { j \<leftarrow> lower_fd ?el (nat (maxfd ?el)); Some (?el\<lparr>maxfd := j\<rparr>, w1) }
      else Some (?el, w1)) = Some (el', w')"
    using assms False unfolding aeDeleteFileEvent_def Let_def m'_def [symmetric]
    by (auto simp: fault_simps event_at_Some put_event_Some simp del: aeFileEvent.select_convs split del: if_split)
  have "?el = el\<lparr>events := events ?el, maxfd := maxfd el\<rparr>" by simp
  then show ?thesis using that(2) [OF r(1) _ r(2) _ m'_def] r(4) False
    by (auto simp: fault_simps split: if_splits)
qed

lemma uses_grown:
  assumes "uses e el el'" and "addr_ok (new_timer e)" and "timer_inv X el as"
  shows "\<exists>new. grown X el as el' new"
  using assms
proof (induction rule: uses.induct)
  case (uses_refl el) then show ?case using grown_refl by blast
next
  case (uses_create_time el el1 w ms p d f r el2 w')
  then obtain new where n: "grown X el as el1 new" by blast
  then have "timer_inv X el1 (new @ as)" by (simp add: grown_def)
  from aeCreateTimeEvent_grown [OF uses_create_time.prems(1) this uses_create_time.hyps(2)] n show ?case
    using grown_trans by blast
next
  case (uses_create_file el el1 w fd m p d r el2 w')
  from uses_create_file.hyps(3) show ?case
    by (cases rule: aeCreateFileEvent_cases) (use uses_create_file in \<open>simp_all add: grown_def timer_inv_def same_body_def\<close>)
next
  case (uses_delete_file el el1 w fd m el2 w')
  from uses_delete_file.hyps(2) show ?case
    by (cases rule: aeDeleteFileEvent_cases) (use uses_delete_file in \<open>simp_all add: grown_def timer_inv_def same_body_def\<close>)
qed (auto simp: grown_def timer_inv_def same_body_def aeSetDontWait_def)


subsection \<open>The invariant of the file events\<close>

definition registered :: "('p, 'd) aeEventLoop \<Rightarrow> int \<Rightarrow> bool" where
  "registered el fd \<longleftrightarrow> 0 \<le> fd \<and> nat fd < length (events el) \<and> mask (events el ! nat fd) \<noteq> AE_NONE"

definition handlers_set :: "('p, 'd) aeFileEvent \<Rightarrow> bool" where
  "handlers_set fe \<longleftrightarrow> (mask fe AND AE_READABLE \<noteq> 0 \<longrightarrow> rfileProc fe \<noteq> None) \<and> (mask fe AND AE_WRITABLE \<noteq> 0 \<longrightarrow> wfileProc fe \<noteq> None)"

text \<open>\<open>maxfd\<close> is the highest registered descriptor, \<open>-1\<close> when there is none, and the handlers a mask asks for are set.\<close>

definition file_inv :: "('p, 'd) aeEventLoop \<Rightarrow> bool" where
  "file_inv el \<longleftrightarrow> setsize el = int (length (events el)) \<and> length (fired el) = length (events el) \<and> list_all handlers_set (events el) \<and>
     (\<forall>fd. registered el fd \<longrightarrow> fd \<le> maxfd el) \<and> (maxfd el = -1 \<or> registered el (maxfd el))"

lemma flag_bits:
  "(w AND AE_READABLE \<noteq> 0) = bit w 0" "(w AND AE_WRITABLE \<noteq> 0) = bit w 1" "(w AND AE_BARRIER \<noteq> 0) = bit w 2"
  "(w AND AE_READABLE = 0) = (\<not> bit w 0)" "(w AND AE_WRITABLE = 0) = (\<not> bit w 1)" "(w AND AE_BARRIER = 0) = (\<not> bit w 2)"
  using and_exp_eq_0_iff_not_bit [of w 0] and_exp_eq_0_iff_not_bit [of w 1] and_exp_eq_0_iff_not_bit [of w 2]
  by (simp_all add: AE_READABLE_def AE_WRITABLE_def AE_BARRIER_def)

lemma handlers_set_add: "handlers_set fe \<Longrightarrow> handlers_set (set_handlers fe m p d)"
  by (auto simp: handlers_set_def set_handlers_def Let_def flag_bits bit_simps)

lemma handlers_set_remove: "handlers_set fe \<Longrightarrow> handlers_set (fe\<lparr>mask := mask fe AND NOT m\<rparr>)"
  by (auto simp: handlers_set_def flag_bits bit_simps)

lemma mask_set_handlers [simp]: "mask (set_handlers fe m p d) = mask fe OR m"
  by (simp add: set_handlers_def Let_def)

lemma or_none: "(a OR b = AE_NONE) = (a = AE_NONE \<and> b = AE_NONE)"
  by (simp add: AE_NONE_def or_eq_0_iff)

lemma list_all_update: "list_all P xs \<Longrightarrow> P x \<Longrightarrow> list_all P (xs[i := x])"
  by (auto simp: list_all_iff dest!: set_update_subset_insert [THEN subsetD])

lemma list_all_nth: "list_all P xs \<Longrightarrow> i < length xs \<Longrightarrow> P (xs ! i)"
  by (simp add: list_all_length)

lemma registered_update:
  assumes "nat fd < length (events el)" and "0 \<le> fd" and "events el' = (events el)[nat fd := fe]"
  shows "registered el' x \<longleftrightarrow> (if x = fd then mask fe \<noteq> AE_NONE else registered el x)"
  using assms by (auto simp: registered_def nth_list_update)

lemma registered_events: "events el' = events el \<Longrightarrow> registered el' = registered el"
  by (simp add: registered_def fun_eq_iff)

lemma lower_fd_found:
  "j \<le> length (events el) \<Longrightarrow> \<exists>n. lower_fd el j = Some n \<and> n < int j \<and> (n = -1 \<or> registered el n) \<and> (\<forall>fd. registered el fd \<and> fd < int j \<longrightarrow> fd \<le> n)"
proof (induction j)
  case 0 then show ?case by (auto simp: registered_def)
next
  case (Suc j)
  then have e: "event_at el (int j) = Some (events el ! j)" by (simp add: event_at_Some)
  show ?case
  proof (cases "mask (events el ! j) = AE_NONE")
    case True
    then have "\<not> registered el (int j)" by (simp add: registered_def)
    then have "registered el fd \<and> fd < int (Suc j) \<longleftrightarrow> registered el fd \<and> fd < int j" for fd
      by (cases "fd = int j") auto
    then show ?thesis using Suc True e by fastforce
  next
    case False
    then show ?thesis using e Suc.prems by (auto simp: registered_def)
  qed
qed

lemma aeCreateFileEvent_inv:
  assumes "file_inv el" and "m \<noteq> AE_NONE" and "aeCreateFileEvent e w el fd m p d = Some (r, el', w')"
  shows "file_inv el'"
  using assms(3)
proof (cases rule: aeCreateFileEvent_cases)
  case 1 then show ?thesis using assms(1) by simp
next
  case 2
  then have r: "registered el' x \<longleftrightarrow> x = fd \<or> registered el x" for x
    using registered_update [of fd el el'] assms(2) by (simp add: or_none)
  have i: "file_inv el" by (rule assms(1))
  then have "registered el' (maxfd el')" using r 2 by (auto simp: file_inv_def max_def)
  moreover have "x \<le> maxfd el'" if "registered el' x" for x using that r i 2 by (auto simp: file_inv_def)
  moreover have "list_all handlers_set (events el')"
    using i 2 list_all_nth by (auto simp: file_inv_def intro!: list_all_update handlers_set_add)
  ultimately show ?thesis using i 2 by (simp add: file_inv_def)
qed

lemma aeDeleteFileEvent_inv:
  assumes "file_inv el" and "aeDeleteFileEvent e w el fd m = Some (el', w')"
  shows "file_inv el'"
  using assms(2)
proof (cases rule: aeDeleteFileEvent_cases)
  case 1 then show ?thesis using assms(1) by simp
next
  case (2 m' n)
  let ?k = "mask (events el ! nat fd) AND NOT m'"
  have r: "registered el' x \<longleftrightarrow> (if x = fd then ?k \<noteq> AE_NONE else registered el x)" for x
    using registered_update [of fd el el'] 2 by simp
  have i: "file_inv el" by (rule assms(1))
  have "(n = -1 \<or> registered el' n) \<and> (\<forall>x. registered el' x \<longrightarrow> x \<le> n)"
  proof (cases "fd = maxfd el \<and> ?k = AE_NONE")
    case True
    have "registered (el'\<lparr>maxfd := maxfd el\<rparr>) = registered el'" by (rule registered_events) simp
    moreover have "lower_fd (el'\<lparr>maxfd := maxfd el\<rparr>) (nat fd) = Some n" using 2(7) by (simp only: if_P [OF True])
    moreover have "nat fd \<le> length (events (el'\<lparr>maxfd := maxfd el\<rparr>))" using 2 by simp
    ultimately have l: "n = -1 \<or> registered el' n" "\<forall>x. registered el' x \<and> x < fd \<longrightarrow> x \<le> n"
      using lower_fd_found [of "nat fd" "el'\<lparr>maxfd := maxfd el\<rparr>"] 2(1) by auto
    have "x < fd" if "registered el' x" for x
      using that r True i by (cases "x = fd") (auto simp: file_inv_def)
    then show ?thesis using l by blast
  next
    case False
    then have "n = maxfd el" using 2(7) by (simp split: if_splits)
    moreover have "registered el fd" using 2 by (simp add: registered_def)
    ultimately show ?thesis using r i False by (auto simp: file_inv_def split: if_splits)
  qed
  moreover have "list_all handlers_set (events el')"
  proof -
    have "list_all handlers_set (events el)" using i by (simp add: file_inv_def)
    moreover from this have "handlers_set (events el ! nat fd)" using 2(3) by (rule list_all_nth)
    ultimately show ?thesis unfolding 2(6) by (simp add: list_all_update handlers_set_remove)
  qed
  moreover have "maxfd el' = n" "fired el' = fired el" "setsize el' = setsize el" "length (events el') = length (events el)" using 2(6) by simp_all
  ultimately show ?thesis using i by (simp add: file_inv_def)
qed

definition loop_inv :: "('p, 'd) aeEventLoop \<Rightarrow> bool" where
  "loop_inv el \<longleftrightarrow> file_inv el \<and> (\<exists>as. timer_inv {} el as)"

lemma put_timer_only: "put_timer el p f = Some el' \<Longrightarrow> \<exists>h. el' = el\<lparr>timers := h\<rparr>"
  by (auto simp: put_timer_def split: option.splits)

lemma aeCreateTimeEvent_files:
  assumes "aeCreateTimeEvent e w el ms p d f = Some (r, el', w')"
  shows "events el' = events el" "fired el' = fired el" "setsize el' = setsize el" "maxfd el' = maxfd el" "epfd el' = epfd el"
proof -
  obtain now w1 where n: "getMonotonicUs e w = (now, w1)" by fastforce
  have "events el' = events el \<and> fired el' = fired el \<and> setsize el' = setsize el \<and> maxfd el' = maxfd el \<and> epfd el' = epfd el"
  proof (cases "new_timer e (timers el)")
    case None
    then show ?thesis using assms by (auto simp: aeCreateTimeEvent_def int64_def Let_def split: if_splits)
  next
    case (Some a)
    then show ?thesis using assms n
      by (cases "timeEventHead el") (auto simp: aeCreateTimeEvent_def Let_def fault_simps dest!: put_timer_only)
  qed
  then show "events el' = events el" "fired el' = fired el" "setsize el' = setsize el" "maxfd el' = maxfd el" "epfd el' = epfd el"
    by simp_all
qed

lemma file_inv_other:
  assumes "events el' = events el" "fired el' = fired el" "setsize el' = setsize el" "maxfd el' = maxfd el"
  shows "file_inv el' = file_inv el"
  using assms registered_events [of el' el] by (simp add: file_inv_def)

lemma uses_file_inv: "uses e el el' \<Longrightarrow> file_inv el \<Longrightarrow> file_inv el'"
proof (induction rule: uses.induct)
  case (uses_create_file el el1 m w fd p d r el2 w')
  show ?case by (rule aeCreateFileEvent_inv [OF uses_create_file.IH [OF uses_create_file.prems] uses_create_file.hyps(2,3)])
next
  case (uses_delete_file el el1 w fd m el2 w')
  show ?case by (rule aeDeleteFileEvent_inv [OF uses_delete_file.IH [OF uses_delete_file.prems] uses_delete_file.hyps(2)])
next
  case (uses_create_time el el1 w ms p d f r el2 w')
  then show ?case using aeCreateTimeEvent_files file_inv_other by metis
next
  case (uses_dont_wait el el1 b)
  then show ?case using file_inv_other [of "aeSetDontWait el1 b" el1] by (simp add: aeSetDontWait_def)
next
  case (uses_stop el el1)
  then show ?case using file_inv_other [of "el1\<lparr>stop := True\<rparr>" el1] by simp
qed

lemma unlink_timer_files:
  assumes "unlink_timer el te = Some el'"
  shows "file_inv el' = file_inv el"
proof -
  have "events el' = events el \<and> fired el' = fired el \<and> setsize el' = setsize el \<and> maxfd el' = maxfd el"
    using assms by (auto simp: unlink_timer_def fault_simps split: if_splits dest!: put_timer_only)
  then show ?thesis using file_inv_other by blast
qed

lemma put_timer_files: "put_timer el p f = Some el' \<Longrightarrow> file_inv el' = file_inv el"
  using put_timer_only [of el p f el'] file_inv_other [of el' el] by auto

lemma free_timer_files: "free_timer el a = Some el' \<Longrightarrow> file_inv el' = file_inv el"
  using file_inv_other [of el' el] by (auto simp: free_timer_def split: option.splits)

end
