(* ===== verification/Ae_Loop.thy ===== *)
theory Ae_Loop
  imports Ae_Inv
begin

unbundle bit_operations_syntax

text \<open>
  A round of the event loop, for callbacks and a kernel that keep their contracts (the locales \<open>timer_callbacks\<close>, \<open>epoll\<close>, \<open>file_callbacks\<close> and
  \<open>event_loop\<close>): the pass over the time events, the kernel's view of the file events, the timeout, the order in which handlers run,
  and that a round returns with the invariant.
\<close>


subsection \<open>A pass over the time events\<close>

text \<open>A fired time event keeps its callbacks; it has a new time, or is marked deleted.\<close>

definition fired_from :: "('p, 'd) aeTimeEvent \<Rightarrow> ('p, 'd) aeTimeEvent \<Rightarrow> bool" where
  "fired_from t t' \<longleftrightarrow> (te_id t' = te_id t \<or> te_id t' = AE_DELETED_EVENT_ID \<and> te_when t' = te_when t) \<and>
     timeProc t' = timeProc t \<and> finalizerProc t' = finalizerProc t \<and> te_clientData t' = te_clientData t \<and> refcount t' = refcount t"

lemma fired_from_body: "fired_from t t' \<Longrightarrow> body t = body t1 \<Longrightarrow> body t'' = body t' \<Longrightarrow> fired_from t1 t''"
  by (simp add: fired_from_def body_def)

text \<open>
  The outcome of a pass over \<open>rest\<close>, with the time events \<open>B\<close> it found there: those that were marked deleted and are not in use are gone,
  \<open>fs\<close> were fired in the order of the list, the others are as before.
\<close>

definition gone :: "('p, 'd) aeTimeEvent \<Rightarrow> bool" where
  "gone t \<longleftrightarrow> te_id t = AE_DELETED_EVENT_ID \<and> refcount t = 0"

definition passed :: "(addr \<Rightarrow> ('p, 'd) aeTimeEvent) \<Rightarrow> addr list \<Rightarrow> addr list \<Rightarrow> ('p, 'd) aeEventLoop \<Rightarrow> bool" where
  "passed B rest fs el' \<longleftrightarrow> subseq fs (filter (\<lambda>x. te_id (B x) \<noteq> AE_DELETED_EVENT_ID) rest) \<and>
     (\<forall>x \<in> set rest. \<not> gone (B x) \<longrightarrow> (\<exists>t'. timers el' x = Some t' \<and> (if x \<in> set fs then fired_from (B x) t' else body t' = body (B x))))"

text \<open>
  What the pass relies on: the clock does not go back, the allocator answers unused addresses, and callbacks return, use the loop through its
  interface and ask for a delay that fits an \<open>int\<close> in microseconds. \<open>time\<close> is the clock of a world, \<open>calls\<close> the identifiers
  of the time events whose callback ran in it, and \<open>sound\<close> the invariant of the world the callbacks need and keep.
\<close>

locale timer_callbacks =
  fixes e :: "('p, 'd, 'w) env"
    and time :: "'w \<Rightarrow> u64"
    and calls :: "'w \<Rightarrow> int list"
    and sound :: "'w \<Rightarrow> bool"
  assumes fresh: "addr_ok (new_timer e)"
    and clock: "sound w \<Longrightarrow> getMonotonicUs e w = (now, w') \<Longrightarrow> time w \<le> now \<and> time w' = now \<and> calls w' = calls w \<and> sound w'"
    and timer: "sound w \<Longrightarrow> timer_inv {} el as \<Longrightarrow> \<exists>r el' w'. call_time e p el i d w = Some (r, el', w') \<and> uses e el el' \<and>
      calls w' = calls w @ [i] \<and> time w \<le> time w' \<and> sound w' \<and> int32 (r * 1000) \<noteq> None"
    and finalizer: "sound w \<Longrightarrow> timer_inv {a} el as \<Longrightarrow> \<exists>el' w'. call_finalizer e p el d w = Some (el', w') \<and> uses e el el' \<and>
      calls w' = calls w \<and> time w \<le> time w' \<and> sound w'"
begin

lemma passed_Cons:
  assumes "passed B rest fs el'" and "set fs' - {a} = set fs - {a}" and "a \<notin> set rest"
    and "subseq fs' (filter (\<lambda>x. te_id (B x) \<noteq> AE_DELETED_EVENT_ID) (a # rest))"
    and "timers el' a = Some t'" and "if a \<in> set fs' then fired_from (B a) t' else body t' = body (B a)"
  shows "passed B (a # rest) fs' el'"
  unfolding passed_def
proof (intro conjI ballI impI)
  fix x assume x: "x \<in> set (a # rest)" "\<not> gone (B x)"
  show "\<exists>t'. timers el' x = Some t' \<and> (if x \<in> set fs' then fired_from (B x) t' else body t' = body (B x))"
  proof (cases "x = a")
    case True then show ?thesis using assms(5,6) by blast
  next
    case False
    then have "x \<in> set fs' \<longleftrightarrow> x \<in> set fs" "x \<in> set rest" using assms(2) x by auto
    then show ?thesis using assms(1) x(2) by (simp add: passed_def)
  qed
qed (rule assms(4))

text \<open>The step of the loop at a time event that is neither removed nor fired, and at one that is fired.\<close>

lemma passed_skip:
  assumes "passed B rest fs el'" and "a \<notin> set rest" and "same_body el el' a" and "timers el a = Some t" and "body t = body (B a)"
  shows "passed B (a # rest) fs el'"
proof -
  have fs: "subseq fs (filter (\<lambda>x. te_id (B x) \<noteq> AE_DELETED_EVENT_ID) rest)" using assms(1) by (simp add: passed_def)
  have "a \<notin> set fs"
  proof
    assume "a \<in> set fs"
    from list_emb_set [OF fs this] show False using assms(2) by auto
  qed
  moreover obtain t' where "timers el' a = Some t'" "body t' = body (B a)" using same_body_timer [OF assms(3,4)] assms(5) by auto
  moreover have "subseq fs (filter (\<lambda>x. te_id (B x) \<noteq> AE_DELETED_EVENT_ID) (a # rest))" using fs by (simp add: list_emb_Cons)
  ultimately show ?thesis using passed_Cons [OF assms(1) refl assms(2)] by simp
qed

lemma passed_fire:
  assumes "passed B rest fs el'" and "a \<notin> set rest" and "same_body el el' a" and "timers el a = Some t'"
    and "fired_from t t'" and "body t = body (B a)" and "te_id t \<noteq> AE_DELETED_EVENT_ID"
  shows "passed B (a # rest) (a # fs) el'"
proof -
  obtain t'' where "timers el' a = Some t''" "body t'' = body t'" using same_body_timer [OF assms(3,4)] by auto
  moreover from this have "fired_from (B a) t''" using fired_from_body [OF assms(5,6)] by simp
  moreover have "te_id (B a) \<noteq> AE_DELETED_EVENT_ID" using assms(6,7) by (simp add: body_def)
  moreover from this assms(1) have "subseq (a # fs) (filter (\<lambda>x. te_id (B x) \<noteq> AE_DELETED_EVENT_ID) (a # rest))" by (simp add: passed_def)
  ultimately show ?thesis using passed_Cons [OF assms(1) _ assms(2)] by simp
qed

lemma remove_timer_ok:
  assumes "timer_inv {} el (xs @ a # ys)" and "now \<le> time w" and "sound w"
  shows "\<exists>el' now' w' new. remove_timer e w el now a = Some (el', now', w') \<and> grown {} el (xs @ ys) el' new \<and>
     now \<le> now' \<and> now' \<le> time w' \<and> calls w' = calls w \<and> time w \<le> time w' \<and> sound w' \<and> (file_inv el \<longrightarrow> file_inv el')"
proof -
  obtain te where te: "timers el a = Some te" using timer_inv_timer [OF assms(1)] by auto
  obtain el1 where 1: "unlink_timer el te = Some el1" "timer_inv {a} el1 (xs @ ys)" "\<forall>x. same_body el el1 x"
    "timeEventNextId el1 = timeEventNextId el"
    using unlink_timer_inv [OF assms(1) te] by blast
  obtain el2 now2 w2 where 2: "(case finalizerProc te of None \<Rightarrow> Some (el1, now, w)
      | Some f \<Rightarrow> do { (el, w) \<leftarrow> call_finalizer e f el1 (te_clientData te) w; let (now, w) = getMonotonicUs e w; Some (el, now, w) }) = Some (el2, now2, w2)"
    "uses e el1 el2" "now \<le> now2" "now2 \<le> time w2" "calls w2 = calls w" "time w \<le> time w2" "sound w2"
  proof (cases "finalizerProc te")
    case None then show ?thesis using that [of el1 now w] uses_refl [of e el1] assms(2,3) by simp
  next
    case (Some f)
    obtain el2 w1 where f: "call_finalizer e f el1 (te_clientData te) w = Some (el2, w1)" "uses e el1 el2" "calls w1 = calls w" "time w \<le> time w1" "sound w1"
      using finalizer [OF assms(3) 1(2)] by blast
    obtain now2 w2 where c: "getMonotonicUs e w1 = (now2, w2)" by fastforce
    show ?thesis using that [of el2 now2 w2] Some f c clock [OF f(5) c] assms(2) by auto
  qed
  obtain new where g: "grown {a} el1 (xs @ ys) el2 new" using uses_grown [OF 2(2) fresh 1(2)] by blast
  then obtain el3 where 3: "free_timer el2 a = Some el3" "timer_inv {} el3 (new @ xs @ ys)" "\<forall>x. x \<noteq> a \<longrightarrow> timers el3 x = timers el2 x"
    "timeEventNextId el3 = timeEventNextId el2"
    using free_timer_inv [of a el2 "new @ xs @ ys"] by (auto simp: grown_def)
  have a: "a \<notin> set (xs @ ys)" "a \<notin> set new" using g by (auto simp: grown_def timer_inv_def)
  have "same_body el el3 x" if "x \<in> set (xs @ ys)" for x
    using g 1(3) 3(3) a that by (auto simp: grown_def same_body_def)
  then have "grown {} el (xs @ ys) el3 new"
    using g 1(4) 3 a by (simp add: grown_def) (metis (no_types))
  moreover have "remove_timer e w el now a = Some (el3, now2, w2)"
  proof -
    have "remove_timer e w el now a = do { el \<leftarrow> unlink_timer el te; (el, now, w) \<leftarrow> (case finalizerProc te of None \<Rightarrow> Some (el, now, w)
      | Some f \<Rightarrow> do { (el, w) \<leftarrow> call_finalizer e f el (te_clientData te) w; let (now, w) = getMonotonicUs e w; Some (el, now, w) });
      el \<leftarrow> free_timer el a; Some (el, now, w) }"
      by (simp add: remove_timer_def te unlink_timer_def)
    then show ?thesis using 1(1) 2(1) 3(1) by simp
  qed
  moreover have "file_inv el \<longrightarrow> file_inv el3"
    using unlink_timer_files [OF 1(1)] uses_file_inv [OF 2(2)] free_timer_files [OF 3(1)] by blast
  ultimately show ?thesis using 2 by blast
qed

lemma fire_timer_ok:
  assumes "timer_inv {} el (xs @ a # ys)" and "timers el a = Some te" and "te_id te \<noteq> AE_DELETED_EVENT_ID" and "sound w"
  shows "\<exists>el' now' w' new te'. fire_timer e w el a = Some (el', now', w') \<and> timer_inv {} el' (new @ xs @ a # ys) \<and>
     (\<forall>x \<in> set (xs @ ys). same_body el el' x) \<and> timeEventNextId el \<le> timeEventNextId el' \<and>
     (\<forall>x \<in> set new. \<forall>t. timers el' x = Some t \<longrightarrow> timeEventNextId el \<le> te_id t) \<and>
     timers el' a = Some te' \<and> fired_from te te' \<and>
     time w \<le> now' \<and> now' \<le> time w' \<and> calls w' = calls w @ [te_id te] \<and> sound w' \<and> (file_inv el \<longrightarrow> file_inv el')"
proof -
  let ?up = "\<lambda>t. t\<lparr>refcount := refcount t + 1\<rparr>"
  let ?down = "\<lambda>t. t\<lparr>refcount := refcount t - 1\<rparr>"
  let ?el1 = "el\<lparr>timers := (timers el)(a \<mapsto> ?up te)\<rparr>"
  have id: "te_id te < timeEventNextId el" using timer_inv_timer [OF assms(1), of a] assms(2) by simp
  have 1: "put_timer el (Some a) ?up = Some ?el1" "timer_inv {} ?el1 (xs @ a # ys)"
    using put_timer_inv [OF assms(1) _ assms(2), of ?up] id by simp_all
  obtain r el2 w2 where c: "call_time e (timeProc te) ?el1 (te_id te) (te_clientData te) w = Some (r, el2, w2)" "uses e ?el1 el2"
    "calls w2 = calls w @ [te_id te]" "time w \<le> time w2" "int32 (r * 1000) \<noteq> None" "sound w2"
    using timer [OF assms(4) 1(2)] by blast
  obtain new where g: "grown {} ?el1 (xs @ a # ys) el2 new" using uses_grown [OF c(2) fresh 1(2)] by blast
  obtain t2 where t2: "timers el2 a = Some t2" "body t2 = body (?up te)"
    using g same_body_timer [of ?el1 el2 a] by (auto simp: grown_def)
  have g2: "timer_inv {} el2 (new @ xs @ a # ys)" "timeEventNextId el \<le> timeEventNextId el2"
    "\<forall>x \<in> set new. \<forall>t. timers el2 x = Some t \<longrightarrow> timeEventNextId el \<le> te_id t" using g by (simp_all add: grown_def)
  have id2: "te_id t2 < timeEventNextId el2" using timer_inv_timer [OF g2(1), of a] t2 by simp
  let ?el3 = "el2\<lparr>timers := (timers el2)(a \<mapsto> ?down t2)\<rparr>"
  have 3: "put_timer el2 (Some a) ?down = Some ?el3" "timer_inv {} ?el3 (new @ xs @ a # ys)"
    using put_timer_inv [OF g2(1) _ t2(1), of ?down] id2 by simp_all
  obtain now w3 where n: "getMonotonicUs e w2 = (now, w3)" by fastforce
  obtain us where us: "int32 (r * 1000) = Some us" using c(5) by blast
  define f where "f = (if r \<noteq> AE_NOMORE then (\<lambda>t :: ('p, 'd) aeTimeEvent. t\<lparr>te_when := now + word_of_int us\<rparr>) else (\<lambda>t. t\<lparr>te_id := AE_DELETED_EVENT_ID\<rparr>))"
  have ff: "te_prev (f t) = te_prev t" "te_next (f t) = te_next t" "te_id (f t) = te_id t \<or> te_id (f t) = AE_DELETED_EVENT_ID" for t
    by (simp_all add: f_def)
  have neg: "AE_DELETED_EVENT_ID < timeEventNextId el2" using g2(1) by (simp add: timer_inv_def AE_DELETED_EVENT_ID_def)
  let ?el4 = "?el3\<lparr>timers := (timers ?el3)(a \<mapsto> f (?down t2))\<rparr>"
  have "timers ?el3 a = Some (?down t2)" "te_id (f (?down t2)) < timeEventNextId ?el3" using ff(3) [of "?down t2"] id2 neg by auto
  then have 4: "put_timer ?el3 (Some a) f = Some ?el4" "timer_inv {} ?el4 (new @ xs @ a # ys)"
    using put_timer_inv [OF 3(2) _, of a "?down t2" f] ff by simp_all
  have "fire_timer e w el a = Some (?el4, now, w3)"
    using assms(2) 1(1) c(1) 3(1) n us 4(1) by (cases "r = AE_NOMORE") (simp_all add: fire_timer_def f_def)
  moreover have "fired_from te (f (?down t2))" using t2(2) by (auto simp: fired_from_def f_def body_def)
  moreover have "same_body el ?el4 x" if "x \<in> set (xs @ ys)" for x
  proof -
    have "x \<noteq> a" using that assms(1) by (auto simp: timer_inv_def)
    moreover have "same_body ?el1 el2 x" using g that by (auto simp: grown_def)
    ultimately show ?thesis by (simp add: same_body_def)
  qed
  moreover have "a \<notin> set new" using g2(1) by (auto simp: timer_inv_def)
  moreover have "file_inv el \<longrightarrow> file_inv ?el4"
    using put_timer_files [OF 1(1)] uses_file_inv [OF c(2)] put_timer_files [OF 3(1)] put_timer_files [OF 4(1)] by blast
  ultimately show ?thesis using 4(2) g2 clock [OF c(6) n] c(3,4) by (intro exI [of _ ?el4] exI [of _ now] exI [of _ w3] exI [of _ new]) auto
qed

lemma timers_loop_ok:
  assumes "timer_inv {} el (pre @ rest)" and "now \<le> time w" and "q = (case rest of [] \<Rightarrow> None | a # _ \<Rightarrow> Some a)"
    and "\<And>x. x \<in> set rest \<Longrightarrow> te_id (B x) \<le> maxId"
    and "\<And>x. x \<in> set rest \<Longrightarrow> map_option body (timers el x) = Some (body (B x))" and "sound w"
  shows "\<exists>el' w' new fs. timers_loop e maxId w el now k q = Some (k + length fs, el', w') \<and>
     timer_inv {} el' (new @ pre @ filter (\<lambda>x. \<not> gone (B x)) rest) \<and> (\<forall>x \<in> set pre. same_body el el' x) \<and> passed B rest fs el' \<and>
     (\<forall>x \<in> set rest. te_id (B x) \<noteq> AE_DELETED_EVENT_ID \<and> te_when (B x) \<le> now \<longrightarrow> x \<in> set fs) \<and>
     (\<forall>x \<in> set fs. te_when (B x) \<le> time w') \<and> calls w' = calls w @ map (te_id \<circ> B) fs \<and> time w \<le> time w' \<and> sound w' \<and>
     (file_inv el \<longrightarrow> file_inv el')"
  using assms
proof (induction rest arbitrary: pre el w now k q)
  case Nil
  then show ?case by (subst timers_loop.simps) (auto simp: passed_def intro!: exI [of _ "[]"])
next
  case (Cons a rest)
  obtain t where t: "timers el a = Some t" "body t = body (B a)" using Cons.prems(5) [of a] by auto
  have q: "q = Some a" using Cons.prems(3) by simp
  have nxt: "te_next t = (case rest of [] \<Rightarrow> None | b # _ \<Rightarrow> Some b)"
    using timer_inv_next(1) [OF Cons.prems(1) t(1)] .
  have fields: "te_id t = te_id (B a)" "te_when t = te_when (B a)" "refcount t = refcount (B a)" using t(2) by (simp_all add: body_def)
  have dist: "a \<notin> set rest" "a \<notin> set pre" "set pre \<inter> set rest = {}" using Cons.prems(1) by (auto simp: timer_inv_def)
  have B: "map_option body (timers el1 x) = Some (body (B x))" if "x \<in> set rest" "same_body el el1 x" for el1 x
    using that Cons.prems(5) [of x] by (simp add: same_body_def)
  have ids: "te_id (B x) \<le> maxId" if "x \<in> set rest" for x using Cons.prems(4) that by simp
  consider (gone) "gone (B a)" | (fire) "te_id t \<noteq> AE_DELETED_EVENT_ID" "te_when t \<le> now"
    | (skip) "\<not> gone (B a)" "te_id t = AE_DELETED_EVENT_ID \<or> \<not> te_when t \<le> now" by blast
  then show ?case
  proof cases
    case gone
    obtain el1 now1 w1 new where r: "remove_timer e w el now a = Some (el1, now1, w1)" "grown {} el (pre @ rest) el1 new"
      "now \<le> now1" "now1 \<le> time w1" "calls w1 = calls w" "time w \<le> time w1" "file_inv el \<longrightarrow> file_inv el1" "sound w1"
      using remove_timer_ok [OF Cons.prems(1,2,6)] by blast
    have l: "timers_loop e maxId w el now k q = timers_loop e maxId w1 el1 now1 k (te_next t)"
      using gone fields t(1) r(1) q by (subst timers_loop.simps) (simp add: gone_def)
    have g: "timer_inv {} el1 ((new @ pre) @ rest)" "\<forall>x \<in> set pre \<union> set rest. same_body el el1 x" using r(2) by (auto simp: grown_def)
    obtain el' w' new' fs where i: "timers_loop e maxId w1 el1 now1 k (te_next t) = Some (k + length fs, el', w')"
      "timer_inv {} el' (new' @ (new @ pre) @ filter (\<lambda>x. \<not> gone (B x)) rest)" "\<forall>x \<in> set (new @ pre). same_body el1 el' x" "passed B rest fs el'"
      "\<forall>x \<in> set rest. te_id (B x) \<noteq> AE_DELETED_EVENT_ID \<and> te_when (B x) \<le> now1 \<longrightarrow> x \<in> set fs"
      "\<forall>x \<in> set fs. te_when (B x) \<le> time w'" "calls w' = calls w1 @ map (te_id \<circ> B) fs" "time w1 \<le> time w'" "file_inv el1 \<longrightarrow> file_inv el'" "sound w'"
      using Cons.IH [OF g(1) r(4) nxt ids B r(8), where k = k] g(2) by blast
    have p: "passed B (a # rest) fs el'" using i(4) gone by (simp add: passed_def gone_def)
    have s: "\<forall>x \<in> set pre. same_body el el' x" using g(2) i(3) same_body_trans by (metis UnCI set_append)
    have "te_id (B a) = AE_DELETED_EVENT_ID" using gone by (simp add: gone_def)
    then show ?thesis using l i(1,2,5,6,7,8,9,10) p s r(3,5,6,7) gone
      by (intro exI [of _ el'] exI [of _ w'] exI [of _ "new' @ new"] exI [of _ fs]) auto
  next
    case fire
    obtain el1 now1 w1 new t1 where r: "fire_timer e w el a = Some (el1, now1, w1)" "timer_inv {} el1 (new @ pre @ a # rest)"
      "\<forall>x \<in> set (pre @ rest). same_body el el1 x" "timers el1 a = Some t1" "fired_from t t1"
      "time w \<le> now1" "now1 \<le> time w1" "calls w1 = calls w @ [te_id t]" "file_inv el \<longrightarrow> file_inv el1" "sound w1"
      using fire_timer_ok [OF Cons.prems(1) t(1) fire(1) Cons.prems(6)] by blast
    have r2: "timer_inv {} el1 ((new @ pre @ [a]) @ rest)" using r(2) by simp
    have n: "te_next t1 = (case rest of [] \<Rightarrow> None | b # _ \<Rightarrow> Some b)"
      using timer_inv_next(1) [of "{}" el1 "new @ pre" a rest t1] r(2,4) by simp
    have "te_id t \<le> maxId" using Cons.prems(4) fields by simp
    then have l: "timers_loop e maxId w el now k q = timers_loop e maxId w1 el1 now1 (k + 1) (te_next t1)"
      using fire t(1) r(1,4) q by (subst timers_loop.simps) simp
    obtain el' w' new' fs where i: "timers_loop e maxId w1 el1 now1 (k + 1) (te_next t1) = Some (k + 1 + length fs, el', w')"
      "timer_inv {} el' (new' @ (new @ pre @ [a]) @ filter (\<lambda>x. \<not> gone (B x)) rest)" "\<forall>x \<in> set (new @ pre @ [a]). same_body el1 el' x" "passed B rest fs el'"
      "\<forall>x \<in> set rest. te_id (B x) \<noteq> AE_DELETED_EVENT_ID \<and> te_when (B x) \<le> now1 \<longrightarrow> x \<in> set fs"
      "\<forall>x \<in> set fs. te_when (B x) \<le> time w'" "calls w' = calls w1 @ map (te_id \<circ> B) fs" "time w1 \<le> time w'" "file_inv el1 \<longrightarrow> file_inv el'" "sound w'"
      using Cons.IH [OF r2 r(7) n ids B r(10), where k = "k + 1"] r(3) by auto
    have "same_body el1 el' a" using i(3) by simp
    from passed_fire [OF i(4) dist(1) this r(4,5) t(2) fire(1)] have p: "passed B (a # rest) (a # fs) el'" .
    have s: "\<forall>x \<in> set pre. same_body el el' x" using r(3) i(3) same_body_trans by (metis UnCI set_append)
    have ng: "\<not> gone (B a)" using fire(1) fields by (simp add: gone_def)
    have "now \<le> now1" "te_when (B a) \<le> time w'" using Cons.prems(2) r(6,7) i(8) fire(2) fields(2) by order+
    then show ?thesis using l i(1,2,5,6,7,8,9,10) p s r(6,7,8,9) fields ng
      by (intro exI [of _ el'] exI [of _ w'] exI [of _ "new' @ new"] exI [of _ "a # fs"]) auto
  next
    case skip
    then have "te_id t = AE_DELETED_EVENT_ID \<Longrightarrow> refcount t \<noteq> 0" using fields by (simp add: gone_def)
    then have l: "timers_loop e maxId w el now k q = timers_loop e maxId w el now k (te_next t)"
      using skip t(1) q by (subst timers_loop.simps) auto
    have r: "timer_inv {} el ((pre @ [a]) @ rest)" using Cons.prems(1) by simp
    obtain el' w' new' fs where i: "timers_loop e maxId w el now k (te_next t) = Some (k + length fs, el', w')"
      "timer_inv {} el' (new' @ (pre @ [a]) @ filter (\<lambda>x. \<not> gone (B x)) rest)" "\<forall>x \<in> set (pre @ [a]). same_body el el' x" "passed B rest fs el'"
      "\<forall>x \<in> set rest. te_id (B x) \<noteq> AE_DELETED_EVENT_ID \<and> te_when (B x) \<le> now \<longrightarrow> x \<in> set fs"
      "\<forall>x \<in> set fs. te_when (B x) \<le> time w'" "calls w' = calls w @ map (te_id \<circ> B) fs" "time w \<le> time w'" "file_inv el \<longrightarrow> file_inv el'" "sound w'"
      using Cons.IH [OF r Cons.prems(2) nxt ids B [OF _ same_body_refl] Cons.prems(6), where k = k] by blast
    have "same_body el el' a" using i(3) by simp
    from passed_skip [OF i(4) dist(1) this t] have p: "passed B (a # rest) fs el'" .
    show ?thesis using l i p skip fields
      by (intro exI [of _ el'] exI [of _ w'] exI [of _ new'] exI [of _ fs]) auto
  qed
qed

lemma processTimeEvents_ok:
  assumes "timer_inv {} el as" and "getMonotonicUs e w = (now, w1)" and "sound w"
  shows "\<exists>el' w' new fs. processTimeEvents e w el = Some (length fs, el', w') \<and>
     timer_inv {} el' (new @ filter (\<lambda>x. \<not> gone (the (timers el x))) as) \<and> passed (\<lambda>x. the (timers el x)) as fs el' \<and>
     (\<forall>x \<in> set as. te_id (the (timers el x)) \<noteq> AE_DELETED_EVENT_ID \<and> te_when (the (timers el x)) \<le> now \<longrightarrow> x \<in> set fs) \<and>
     (\<forall>x \<in> set fs. te_when (the (timers el x)) \<le> time w') \<and> calls w' = calls w @ map (\<lambda>x. te_id (the (timers el x))) fs \<and> sound w' \<and>
     (file_inv el \<longrightarrow> file_inv el')"
proof -
  have t: "\<exists>t. timers el x = Some t \<and> te_id t < timeEventNextId el" if "x \<in> set as" for x using timer_inv_timer [OF assms(1) that] .
  have "\<exists>el' w' new fs. timers_loop e (timeEventNextId el - 1) w1 el now 0 (timeEventHead el) = Some (0 + length fs, el', w') \<and>
     timer_inv {} el' (new @ [] @ filter (\<lambda>x. \<not> gone (the (timers el x))) as) \<and> (\<forall>x \<in> set []. same_body el el' x) \<and> passed (\<lambda>x. the (timers el x)) as fs el' \<and>
     (\<forall>x \<in> set as. te_id (the (timers el x)) \<noteq> AE_DELETED_EVENT_ID \<and> te_when (the (timers el x)) \<le> now \<longrightarrow> x \<in> set fs) \<and>
     (\<forall>x \<in> set fs. te_when (the (timers el x)) \<le> time w') \<and> calls w' = calls w1 @ map (te_id \<circ> (\<lambda>x. the (timers el x))) fs \<and> time w1 \<le> time w' \<and> sound w' \<and>
     (file_inv el \<longrightarrow> file_inv el')"
  proof (rule timers_loop_ok)
    show "timer_inv {} el ([] @ as)" using assms(1) by simp
    show "now \<le> time w1" "sound w1" using clock [OF assms(3,2)] by simp_all
    show "timeEventHead el = (case as of [] \<Rightarrow> None | a # _ \<Rightarrow> Some a)" using timer_inv_head [OF assms(1)] .
    show "te_id (the (timers el x)) \<le> timeEventNextId el - 1" if "x \<in> set as" for x using t [OF that] by auto
    show "map_option body (timers el x) = Some (body (the (timers el x)))" if "x \<in> set as" for x using t [OF that] by auto
  qed
  then show ?thesis using assms(2) clock [OF assms(3,2)] by (simp add: processTimeEvents_def comp_def) blast
qed

end


subsection \<open>The kernel watches what is registered\<close>

text \<open>
  What \<open>epoll_ctl\<close> documents: adding a descriptor that is not watched can fail; changing and removing one that is watched does what is
  asked. \<open>watched w ep fd\<close> are the events the instance \<open>ep\<close> watches \<open>fd\<close> for.
\<close>

locale epoll =
  fixes e :: "('p, 'd, 'w) env"
    and watched :: "'w \<Rightarrow> int \<Rightarrow> int \<Rightarrow> u32 option"
  assumes ctl_add: "watched w ep fd = None \<Longrightarrow> epoll_ctl e w ep EPOLL_CTL_ADD fd ev = (r, w') \<Longrightarrow>
      r = 0 \<and> watched w' = (watched w)(ep := (watched w ep)(fd \<mapsto> ev)) \<or> r = -1 \<and> watched w' = watched w"
    and ctl_mod: "watched w ep fd \<noteq> None \<Longrightarrow> epoll_ctl e w ep EPOLL_CTL_MOD fd ev = (r, w') \<Longrightarrow>
      r = 0 \<and> watched w' = (watched w)(ep := (watched w ep)(fd \<mapsto> ev))"
    and ctl_del: "watched w ep fd \<noteq> None \<Longrightarrow> epoll_ctl e w ep EPOLL_CTL_DEL fd ev = (r, w') \<Longrightarrow>
      r = 0 \<and> watched w' = (watched w)(ep := (watched w ep)(fd := None))"

definition interest :: "u32 \<Rightarrow> u32 option" where
  "interest m = (if m = AE_NONE then None else Some (epoll_events m))"

definition agree :: "('w \<Rightarrow> int \<Rightarrow> int \<Rightarrow> u32 option) \<Rightarrow> ('p, 'd) aeEventLoop \<Rightarrow> 'w \<Rightarrow> bool" where
  "agree watched el w \<longleftrightarrow> (\<forall>i < length (events el). watched w (epfd el) (int i) = interest (mask (events el ! i)))"

lemma agree_update:
  assumes "agree watched el w" and "i < length (events el)" and "epfd el' = epfd el" and "events el' = (events el)[i := fe]"
    and "watched w' = (watched w)(epfd el := (watched w (epfd el))(int i := interest (mask fe)))"
  shows "agree watched el' w'"
  using assms by (auto simp: agree_def nth_list_update)

lemma agree_world: "agree watched el w \<Longrightarrow> watched w' = watched w \<Longrightarrow> agree watched el w'"
  by (simp add: agree_def)

context epoll
begin

lemma add_event:
  assumes "agree watched el w" and "0 \<le> fd" and "nat fd < length (events el)" and "m \<noteq> AE_NONE"
  shows "\<exists>r w'. aeApiAddEvent e w el fd m = Some (r, w') \<and>
     (r = 0 \<and> watched w' = (watched w)(epfd el := (watched w (epfd el))(fd := interest (mask (events el ! nat fd) OR m))) \<or>
      r = -1 \<and> watched w' = watched w)"
proof -
  let ?k = "mask (events el ! nat fd)"
  let ?op = "if ?k = AE_NONE then EPOLL_CTL_ADD else EPOLL_CTL_MOD"
  obtain r w' where c: "epoll_ctl e w (epfd el) ?op fd (epoll_events (m OR ?k)) = (r, w')" by fastforce
  have k: "watched w (epfd el) fd = interest ?k" using assms(1-3) unfolding agree_def by (metis int_nat_eq)
  have i: "interest (?k OR m) = Some (epoll_events (m OR ?k))" using assms(4) by (simp add: interest_def or_none or.commute)
  have "r = 0 \<and> watched w' = (watched w)(epfd el := (watched w (epfd el))(fd \<mapsto> epoll_events (m OR ?k))) \<or> r = -1 \<and> watched w' = watched w"
  proof (cases "?k = AE_NONE")
    case True then show ?thesis using ctl_add [of w "epfd el" fd] c k by (simp add: interest_def)
  next
    case False then show ?thesis using ctl_mod [of w "epfd el" fd] c k by (simp add: interest_def)
  qed
  moreover have "aeApiAddEvent e w el fd m = Some (if r = -1 then (-1, w') else (0, w'))"
    using c assms(2,3) by (simp add: aeApiAddEvent_def event_at_def Let_def)
  ultimately show ?thesis unfolding i by auto
qed

lemma del_event:
  assumes "agree watched el w" and "0 \<le> fd" and "nat fd < length (events el)" and "mask (events el ! nat fd) \<noteq> AE_NONE"
  shows "\<exists>w'. aeApiDelEvent e w el fd m = Some w' \<and>
     watched w' = (watched w)(epfd el := (watched w (epfd el))(fd := interest (mask (events el ! nat fd) AND NOT m)))"
proof -
  let ?k = "mask (events el ! nat fd)"
  let ?op = "if ?k AND NOT m \<noteq> AE_NONE then EPOLL_CTL_MOD else EPOLL_CTL_DEL"
  obtain r w' where c: "epoll_ctl e w (epfd el) ?op fd (epoll_events (?k AND NOT m)) = (r, w')" by fastforce
  have "watched w (epfd el) fd = interest ?k" using assms(1-3) unfolding agree_def by (metis int_nat_eq)
  then have k: "watched w (epfd el) fd \<noteq> None" using assms(4) by (simp add: interest_def)
  have "watched w' = (watched w)(epfd el := (watched w (epfd el))(fd := interest (?k AND NOT m)))"
    using ctl_mod [OF k] ctl_del [OF k] c by (auto simp: interest_def split: if_splits)
  moreover have "aeApiDelEvent e w el fd m = Some w'"
    using c assms(2,3) by (auto simp: aeApiDelEvent_def event_at_def Let_def split: if_splits)
  ultimately show ?thesis by blast
qed

lemma create_agrees:
  assumes "file_inv el" and "agree watched el w" and "0 \<le> fd" and "m \<noteq> AE_NONE"
  shows "\<exists>r el' w'. aeCreateFileEvent e w el fd m p d = Some (r, el', w') \<and> file_inv el' \<and> agree watched el' w' \<and>
     (r = AE_ERR \<and> el' = el \<or>
      r = AE_OK \<and> fd < setsize el \<and> events el' = (events el)[nat fd := set_handlers (events el ! nat fd) m p d])"
proof (cases "fd < setsize el")
  case False
  then show ?thesis using assms by (auto simp: aeCreateFileEvent_def)
next
  case True
  then have l: "nat fd < length (events el)" using assms(1,3) by (simp add: file_inv_def)
  obtain r w' where a: "aeApiAddEvent e w el fd m = Some (r, w')"
    "r = 0 \<and> watched w' = (watched w)(epfd el := (watched w (epfd el))(fd := interest (mask (events el ! nat fd) OR m))) \<or>
     r = -1 \<and> watched w' = watched w"
    using add_event [OF assms(2,3) l assms(4)] by blast
  show ?thesis
  proof (cases "r = -1")
    case True
    then have "aeCreateFileEvent e w el fd m p d = Some (AE_ERR, el, w')"
      using a(1) \<open>fd < setsize el\<close> assms(3) l by (simp add: aeCreateFileEvent_def event_at_def)
    then show ?thesis using a(2) True assms(1) agree_world [OF assms(2)] by auto
  next
    case False
    then obtain el' where c: "aeCreateFileEvent e w el fd m p d = Some (AE_OK, el', w')"
      using a(1) \<open>fd < setsize el\<close> assms(3) l by (simp add: aeCreateFileEvent_def event_at_def put_event_def)
    from c have el': "events el' = (events el)[nat fd := set_handlers (events el ! nat fd) m p d]" "epfd el' = epfd el"
      by (cases rule: aeCreateFileEvent_cases; simp add: AE_OK_def AE_ERR_def)+
    have "agree watched el' w'"
      using agree_update [OF assms(2) l el'(2,1), of w'] a(2) False assms(3) by simp
    then show ?thesis using c el' \<open>fd < setsize el\<close> aeCreateFileEvent_inv [OF assms(1,4) c] by blast
  qed
qed

lemma delete_agrees:
  assumes "file_inv el" and "agree watched el w" and "0 \<le> fd"
  shows "\<exists>el' w' m'. aeDeleteFileEvent e w el fd m = Some (el', w') \<and> file_inv el' \<and> agree watched el' w' \<and>
     m' = (if m AND AE_WRITABLE \<noteq> 0 then m OR AE_BARRIER else m) \<and>
     (fd < setsize el \<longrightarrow> events el' = (events el)[nat fd := (events el ! nat fd)\<lparr>mask := mask (events el ! nat fd) AND NOT m'\<rparr>])"
proof (cases "fd < setsize el \<and> mask (events el ! nat fd) \<noteq> AE_NONE")
  case False
  then have "aeDeleteFileEvent e w el fd m = Some (el, w)"
    using assms by (auto simp: aeDeleteFileEvent_def event_at_def file_inv_def)
  moreover have "(events el)[nat fd := (events el ! nat fd)\<lparr>mask := mask (events el ! nat fd) AND NOT k\<rparr>] = events el" if "fd < setsize el" for k
  proof -
    have "mask (events el ! nat fd) = AE_NONE" using False that by simp
    then have "(events el ! nat fd)\<lparr>mask := mask (events el ! nat fd) AND NOT k\<rparr> = events el ! nat fd" by (simp add: AE_NONE_def)
    then show ?thesis by simp
  qed
  ultimately show ?thesis using assms by auto
next
  case True
  then have l: "nat fd < length (events el)" using assms(1,3) by (simp add: file_inv_def nat_less_iff)
  define m' where "m' = (if m AND AE_WRITABLE \<noteq> 0 then m OR AE_BARRIER else m)"
  let ?fe = "(events el ! nat fd)\<lparr>mask := mask (events el ! nat fd) AND NOT m'\<rparr>"
  obtain w' where a: "aeApiDelEvent e w el fd m' = Some w'"
    "watched w' = (watched w)(epfd el := (watched w (epfd el))(fd := interest (mask ?fe)))"
    using del_event [OF assms(2,3) l] True by auto
  let ?el = "el\<lparr>events := (events el)[nat fd := ?fe]\<rparr>"
  have "nat (maxfd ?el) \<le> length (events ?el)" using assms(1) by (auto simp: file_inv_def registered_def)
  then obtain j where j: "lower_fd ?el (nat (maxfd ?el)) = Some j" using lower_fd_found by blast
  define el' where "el' = (if fd = maxfd ?el \<and> mask ?fe = AE_NONE then ?el\<lparr>maxfd := j\<rparr> else ?el)"
  have "aeDeleteFileEvent e w el fd m = (if fd = maxfd ?el \<and> mask ?fe = AE_NONE then do { j \<leftarrow> lower_fd ?el (nat (maxfd ?el)); Some (?el\<lparr>maxfd := j\<rparr>, w') }
      else Some (?el, w'))"
    using True a(1) assms(3) l unfolding aeDeleteFileEvent_def Let_def m'_def [symmetric]
    by (simp only: event_at_def put_event_def) (simp split del: if_split)
  then have c: "aeDeleteFileEvent e w el fd m = Some (el', w')" unfolding j el'_def by (simp only: Option.bind.simps if_distrib [of "\<lambda>l. Some (l, w')"])
  have el': "events el' = (events el)[nat fd := ?fe]" "epfd el' = epfd el" by (simp_all add: el'_def)
  have "agree watched el' w'" using agree_update [OF assms(2) l el'(2,1), of w'] a(2) assms(3) by simp
  then show ?thesis using c el'(1) aeDeleteFileEvent_inv [OF assms(1) c] m'_def by blast
qed

end


subsection \<open>How long a round sleeps\<close>

definition earlier :: "('p, 'd) aeTimeEvent option \<Rightarrow> ('p, 'd) aeTimeEvent \<Rightarrow> ('p, 'd) aeTimeEvent option" where
  "earlier s t = (case s of None \<Rightarrow> Some t | Some u \<Rightarrow> if te_when t < te_when u then Some t else s)"

lemma earliest_timer_step:
  "earliest_timer el s (Some a) = Option.bind (timers el a) (\<lambda>t. earliest_timer el (earlier s t) (te_next t))"
  by (subst earliest_timer.simps) (simp add: earlier_def)

lemma earliest_timer_fold:
  "tseg (timers el) p q as None \<Longrightarrow> earliest_timer el s q = Some (foldl earlier s (map (\<lambda>a. the (timers el a)) as))"
proof (induction as arbitrary: p q s)
  case Nil then show ?case by (subst earliest_timer.simps) simp
next
  case (Cons a as)
  then show ?case by (auto simp: earliest_timer_step)
qed

lemma foldl_earlier_Some:
  "\<exists>t. foldl earlier (Some s) ts = Some t \<and> t \<in> insert s (set ts) \<and> (\<forall>x \<in> insert s (set ts). te_when t \<le> te_when x)"
proof (induction ts arbitrary: s)
  case Nil then show ?case by simp
next
  case (Cons u ts)
  obtain v where v: "earlier (Some s) u = Some v" "v \<in> {s, u}" "te_when v \<le> te_when s" "te_when v \<le> te_when u"
    by (cases "te_when u < te_when s") (auto simp: earlier_def not_less)
  obtain t where t: "foldl earlier (Some v) ts = Some t" "t \<in> insert v (set ts)" "\<forall>x \<in> insert v (set ts). te_when t \<le> te_when x"
    using Cons.IH by blast
  have "te_when t \<le> te_when v" using t(3) by simp
  then have "te_when t \<le> te_when s" "te_when t \<le> te_when u" using v by order+
  then show ?case using v t by auto
qed

text \<open>The earliest time of a non-empty list.\<close>

definition earliest_when :: "('p, 'd) aeEventLoop \<Rightarrow> addr list \<Rightarrow> u64" where
  "earliest_when el as = Min (set (map (\<lambda>a. te_when (the (timers el a))) as))"

lemma usUntilEarliestTimer_value:
  assumes "timer_inv X el as" and "getMonotonicUs e w = (now, w')"
  shows "usUntilEarliestTimer e w el = (if as = [] then Some (-1, w)
     else Some (if earliest_when el as \<le> now then 0 else sint (earliest_when el as - now), w'))"
proof (cases as)
  case Nil then show ?thesis using timer_inv_head [OF assms(1)] by (simp add: usUntilEarliestTimer_def)
next
  case (Cons a bs)
  let ?t = "\<lambda>a. the (timers el a)"
  have s: "tseg (timers el) None (timeEventHead el) as None" using assms(1) by (simp add: timer_inv_def)
  obtain t where t: "foldl earlier None (map ?t as) = Some t" "t \<in> set (map ?t as)" "\<forall>x \<in> set (map ?t as). te_when t \<le> te_when x"
    using foldl_earlier_Some [of "?t a" "map ?t bs"] Cons by (auto simp: earlier_def)
  then have "te_when t = earliest_when el as"
    unfolding earliest_when_def by (intro Min_eqI [symmetric]) auto
  then show ?thesis
    using timer_inv_head [OF assms(1)] Cons t(1) earliest_timer_fold [OF s, of None] assms(2)
    by (simp add: usUntilEarliestTimer_def)
qed

lemma sint_word_of_int:
  "-(2 ^ (LENGTH('a) - 1)) \<le> k \<Longrightarrow> k < 2 ^ (LENGTH('a) - 1) \<Longrightarrow> sint (word_of_int k :: 'a::len word) = k"
  by (simp add: signed_of_int signed_take_bit_int_eq_self)

lemma timeout_ms_value:
  assumes "0 \<le> us" and "us < 2000000000000"
  shows "timeout_ms (Some (us div 1000000, us mod 1000000)) = (us + 999) div 1000"
proof -
  have "us + 999 = (us mod 1000000 + 999) + (us div 1000000 * 1000) * 1000" using div_mult_mod_eq [of us 1000000] by linarith
  then have "us div 1000000 * 1000 + (us mod 1000000 + 999) div 1000 = (us + 999) div 1000"
    using div_mult_self1 [of 1000 "us mod 1000000 + 999" "us div 1000000 * 1000"] by (simp only:)
  moreover have "sint (word_of_int ((us + 999) div 1000) :: 32 word) = (us + 999) div 1000"
    using assms by (intro sint_word_of_int) simp_all
  ultimately show ?thesis by (simp only: timeout_ms_def option.case prod.case)
qed

lemma sint_until:
  fixes t now :: u64
  assumes "now \<le> t" and "uint t - uint now < 2000000000000"
  shows "sint (t - now) = uint t - uint now"
proof -
  have "t - now = word_of_int (uint t - uint now)" by simp
  moreover have "sint (word_of_int (uint t - uint now) :: u64) = uint t - uint now"
    using assms by (intro sint_word_of_int) (simp_all add: word_le_def)
  ultimately show ?thesis by simp
qed

definition waits :: "('p, 'd) aeEventLoop \<Rightarrow> u32 \<Rightarrow> bool" where
  "waits el fl \<longleftrightarrow> fl AND AE_TIME_EVENTS \<noteq> 0 \<and> fl AND AE_DONT_WAIT = 0 \<and> flags el AND AE_DONT_WAIT = 0"

subsection \<open>Dispatching\<close>

lemma uses_loop_inv:
  assumes "uses e el el'" and "addr_ok (new_timer e)" and "loop_inv el"
  shows "loop_inv el'"
proof -
  obtain as where "timer_inv {} el as" using assms(3) by (auto simp: loop_inv_def)
  from uses_grown [OF assms(1,2) this] show ?thesis
    using uses_file_inv [OF assms(1)] assms(3) by (auto simp: loop_inv_def grown_def)
qed

lemma uses_arrays:
  "uses e el el' \<Longrightarrow> length (events el') = length (events el) \<and> fired el' = fired el \<and> setsize el' = setsize el \<and> epfd el' = epfd el"
proof (induction rule: uses.induct)
  case (uses_create_file el el1 m w fd p d r el2 w')
  from uses_create_file.hyps(3) show ?case by (cases rule: aeCreateFileEvent_cases) (use uses_create_file.IH in simp_all)
next
  case (uses_delete_file el el1 w fd m el2 w')
  from uses_delete_file.hyps(2) show ?case by (cases rule: aeDeleteFileEvent_cases) (use uses_delete_file.IH in simp_all)
next
  case (uses_create_time el el1 w ms p d f r el2 w')
  then show ?case using aeCreateTimeEvent_files [OF uses_create_time.hyps(2)] by simp
qed (simp_all add: aeSetDontWait_def)

text \<open>
  The handlers a fired descriptor should have called, in their order, by its registration \<open>fe\<close> when it is reached and \<open>fe1\<close> after the
  first handler ran.
\<close>

definition dispatch_order :: "('p, 'd) aeFileEvent \<Rightarrow> ('p, 'd) aeFileEvent \<Rightarrow> u32 \<Rightarrow> 'p list" where
  "dispatch_order fe fe1 m =
     (let readable = (\<lambda>fe. mask fe AND m AND AE_READABLE \<noteq> 0);
          writable = (\<lambda>fe. mask fe AND m AND AE_WRITABLE \<noteq> 0);
          distinct = (wfileProc fe1 \<noteq> rfileProc fe1)
      in if mask fe AND AE_BARRIER = 0 then
           if readable fe then the (rfileProc fe) # (if writable fe1 \<and> distinct then [the (wfileProc fe1)] else [])
           else if writable fe then [the (wfileProc fe)] else []
         else
           if writable fe then the (wfileProc fe) # (if readable fe1 \<and> distinct then [the (rfileProc fe1)] else [])
           else if readable fe then [the (rfileProc fe)] else [])"

locale file_callbacks =
  fixes e :: "('p, 'd, 'w) env"
    and fcalls :: "'w \<Rightarrow> ('p \<times> int) list"
    and sound :: "'w \<Rightarrow> bool"
  assumes fresh_addr: "addr_ok (new_timer e)"
    and handler: "sound w \<Longrightarrow> loop_inv el \<Longrightarrow> \<exists>el' w'. call_file e p el fd d m w = Some (el', w') \<and> uses e el el' \<and>
      fcalls w' = fcalls w @ [(p, fd)] \<and> sound w'"
begin

lemma handlers_at:
  assumes "loop_inv el" and "i < length (events el)"
  shows "handlers_set (events el ! i)"
  using assms list_all_nth by (auto simp: loop_inv_def file_inv_def)

lemma fire_read_ok:
  assumes "loop_inv el" and "0 \<le> fd" and "nat fd < length (events el)" and "mask (events el ! nat fd) AND m AND AE_READABLE \<noteq> 0" and "sound w"
  shows "\<exists>el' w'. fire_read e w el fd m = Some (el', w') \<and> uses e el el' \<and> fcalls w' = fcalls w @ [(the (rfileProc (events el ! nat fd)), fd)] \<and> sound w'"
proof -
  obtain p where p: "rfileProc (events el ! nat fd) = Some p"
    using handlers_at [OF assms(1,3)] assms(4) by (auto simp: handlers_set_def flag_bits bit_simps simp flip: and.assoc)
  show ?thesis using handler [OF assms(5,1), of p fd "clientData (events el ! nat fd)" m] p assms(2,3)
    by (auto simp: fire_read_def event_at_def)
qed

lemma fire_write_ok:
  assumes "loop_inv el" and "0 \<le> fd" and "nat fd < length (events el)" and "mask (events el ! nat fd) AND m AND AE_WRITABLE \<noteq> 0" and "sound w"
  shows "\<exists>el' w'. fire_write e w el fd m = Some (el', w') \<and> uses e el el' \<and> fcalls w' = fcalls w @ [(the (wfileProc (events el ! nat fd)), fd)] \<and> sound w'"
proof -
  obtain p where p: "wfileProc (events el ! nat fd) = Some p"
    using handlers_at [OF assms(1,3)] assms(4) by (auto simp: handlers_set_def flag_bits bit_simps simp flip: and.assoc)
  show ?thesis using handler [OF assms(5,1), of p fd "clientData (events el ! nat fd)" m] p assms(2,3)
    by (auto simp: fire_write_def event_at_def)
qed

lemma fire_event_order:
  assumes inv: "loop_inv el" and fd: "0 \<le> fd" "nat fd < length (events el)" and so: "sound w"
  shows "\<exists>el1 el' w'. fire_event e w el fd m = Some (el', w') \<and> uses e el el1 \<and> uses e el1 el' \<and>
     fcalls w' = fcalls w @ map (\<lambda>p. (p, fd)) (dispatch_order (events el ! nat fd) (events el1 ! nat fd) m) \<and> sound w'"
proof -
  let ?fe = "events el ! nat fd"
  let ?b = "mask ?fe AND AE_BARRIER = 0"
  let ?R = "\<lambda>fe. mask fe AND m AND AE_READABLE \<noteq> 0"
  let ?W = "\<lambda>fe. mask fe AND m AND AE_WRITABLE \<noteq> 0"
  have at: "event_at l fd = Some (events l ! nat fd)" if "uses e el l" for l
    using fd uses_arrays [OF that] by (simp add: event_at_def)
  have lenat: "nat fd < length (events l)" if "uses e el l" for l using fd uses_arrays [OF that] by simp
  note linv = uses_loop_inv [OF _ fresh_addr inv]
  consider (rd) "?b" "?R ?fe" | (wr) "\<not> ?b" "?W ?fe" | (one) "?b" "\<not> ?R ?fe" | (two) "\<not> ?b" "\<not> ?W ?fe" by blast
  then show ?thesis
  proof cases
    case rd
    obtain el1 w1 where r: "fire_read e w el fd m = Some (el1, w1)" "uses e el el1" "fcalls w1 = fcalls w @ [(the (rfileProc ?fe), fd)]" "sound w1"
      using fire_read_ok [OF inv fd rd(2) so] by blast
    show ?thesis
    proof (cases "?W (events el1 ! nat fd) \<and> wfileProc (events el1 ! nat fd) \<noteq> rfileProc (events el1 ! nat fd)")
      case True
      obtain el2 w2 where "fire_write e w1 el1 fd m = Some (el2, w2)" "uses e el1 el2" "fcalls w2 = fcalls w1 @ [(the (wfileProc (events el1 ! nat fd)), fd)]" "sound w2"
        using fire_write_ok [OF linv [OF r(2)] fd(1) lenat [OF r(2)] _ r(4)] True by blast
      then show ?thesis using rd r True at [OF uses_refl] at [OF r(2)] by (intro exI [of _ el1] exI [of _ el2] exI [of _ w2]) (simp add: fire_event_def dispatch_order_def Let_def)
    next
      case False
      then show ?thesis using rd r at [OF uses_refl] at [OF r(2)] uses_refl
        by (intro exI [of _ el1] exI [of _ el1] exI [of _ w1]) (auto simp: fire_event_def dispatch_order_def Let_def)
    qed
  next
    case wr
    obtain el1 w1 where r: "fire_write e w el fd m = Some (el1, w1)" "uses e el el1" "fcalls w1 = fcalls w @ [(the (wfileProc ?fe), fd)]" "sound w1"
      using fire_write_ok [OF inv fd wr(2) so] by blast
    show ?thesis
    proof (cases "?R (events el1 ! nat fd) \<and> wfileProc (events el1 ! nat fd) \<noteq> rfileProc (events el1 ! nat fd)")
      case True
      obtain el2 w2 where "fire_read e w1 el1 fd m = Some (el2, w2)" "uses e el1 el2" "fcalls w2 = fcalls w1 @ [(the (rfileProc (events el1 ! nat fd)), fd)]" "sound w2"
        using fire_read_ok [OF linv [OF r(2)] fd(1) lenat [OF r(2)] _ r(4)] True by blast
      then show ?thesis using wr r True at [OF uses_refl] at [OF r(2)] by (intro exI [of _ el1] exI [of _ el2] exI [of _ w2]) (simp add: fire_event_def dispatch_order_def Let_def)
    next
      case False
      then show ?thesis using wr r at [OF uses_refl] at [OF r(2)] uses_refl
        by (intro exI [of _ el1] exI [of _ el1] exI [of _ w1]) (auto simp: fire_event_def dispatch_order_def Let_def)
    qed
  next
    case one
    show ?thesis
    proof (cases "?W ?fe")
      case True
      then show ?thesis using one fire_write_ok [OF inv fd True so] so at [OF uses_refl] uses_refl
        by (fastforce simp: fire_event_def dispatch_order_def Let_def)
    next
      case False
      then show ?thesis using one so at [OF uses_refl] uses_refl
        by (intro exI [of _ el] exI [of _ el] exI [of _ w]) (simp add: fire_event_def dispatch_order_def Let_def)
    qed
  next
    case two
    show ?thesis
    proof (cases "?R ?fe")
      case True
      then show ?thesis using two fire_read_ok [OF inv fd True so] so at [OF uses_refl] uses_refl
        by (fastforce simp: fire_event_def dispatch_order_def Let_def)
    next
      case False
      then show ?thesis using two so at [OF uses_refl] uses_refl
        by (intro exI [of _ el] exI [of _ el] exI [of _ w]) (simp add: fire_event_def dispatch_order_def Let_def)
    qed
  qed
qed

end


subsection \<open>A round of the loop\<close>

lemma store_fired_ok:
  "j + length evs \<le> length fs \<Longrightarrow> \<exists>fs'. store_fired fs j evs = Some fs' \<and> length fs' = length fs \<and>
     (\<forall>i < j. fs' ! i = fs ! i) \<and> (\<forall>i < length evs. fired_fd (fs' ! (j + i)) = snd (evs ! i) \<and> fired_mask (fs' ! (j + i)) = fired_mask_of (fst (evs ! i)))"
proof (induction fs j evs rule: store_fired.induct)
  case (1 fs j) then show ?case by simp
next
  case (2 fs j ev fd evs)
  let ?fs = "fs[j := \<lparr>fired_fd = fd, fired_mask = fired_mask_of ev\<rparr>]"
  have s: "set_at fs j \<lparr>fired_fd = fd, fired_mask = fired_mask_of ev\<rparr> = Some ?fs" using 2 by simp
  obtain fs' where f: "store_fired ?fs (j + 1) evs = Some fs'" "length fs' = length ?fs" "\<forall>i < j + 1. fs' ! i = ?fs ! i"
    "\<forall>i < length evs. fired_fd (fs' ! (j + 1 + i)) = snd (evs ! i) \<and> fired_mask (fs' ! (j + 1 + i)) = fired_mask_of (fst (evs ! i))"
    using 2(1) [OF s] 2(2) by auto
  have "fired_fd (fs' ! (j + i)) = snd (((ev, fd) # evs) ! i) \<and> fired_mask (fs' ! (j + i)) = fired_mask_of (fst (((ev, fd) # evs) ! i))"
    if "i < length ((ev, fd) # evs)" for i
  proof (cases i)
    case 0 then show ?thesis using f(3) 2(2) by simp
  next
    case (Suc k) then show ?thesis using f(4) that by simp
  qed
  then show ?case using s f by auto
qed

locale event_loop = timer_callbacks e time calls sound + file_callbacks e fcalls sound
  for e :: "('p, 'd, 'w) env" and time :: "'w \<Rightarrow> u64" and calls :: "'w \<Rightarrow> int list" and fcalls :: "'w \<Rightarrow> ('p \<times> int) list"
    and sound :: "'w \<Rightarrow> bool" +
  assumes hook: "sound w \<Longrightarrow> loop_inv el \<Longrightarrow> \<exists>el' w'. call_sleep e p el w = Some (el', w') \<and> uses e el el' \<and> sound w'"
    and wait: "sound w \<Longrightarrow> loop_inv el \<Longrightarrow> epoll_wait e w (epfd el) (setsize el) t = (r, w') \<Longrightarrow> sound w' \<and>
      (case r of Events evs \<Rightarrow> length evs \<le> length (events el) \<and> (\<forall>(ev, fd) \<in> set evs. 0 \<le> fd \<and> nat fd < length (events el))
       | Interrupted \<Rightarrow> True | Failed \<Rightarrow> False)"
begin

lemma fire_loop_ok:
  assumes "loop_inv el" and "\<And>j. j \<in> set js \<Longrightarrow> j < length (fired el) \<and> 0 \<le> fired_fd (fired el ! j) \<and> nat (fired_fd (fired el ! j)) < length (events el)"
    and "sound w"
  shows "\<exists>el' w'. fire_loop e w el js k = Some (k + length js, el', w') \<and> uses e el el' \<and> sound w'"
  using assms
proof (induction js arbitrary: el w k)
  case Nil then show ?case using uses_refl by simp
next
  case (Cons j js)
  let ?f = "fired el ! j"
  have j: "j < length (fired el)" "0 \<le> fired_fd ?f" "nat (fired_fd ?f) < length (events el)" using Cons.prems(2) [of j] by simp_all
  obtain el1 w1 where f: "fire_event e w el (fired_fd ?f) (fired_mask ?f) = Some (el1, w1)" "uses e el el1" "sound w1"
    using fire_event_order [OF Cons.prems(1) j(2,3) Cons.prems(3)] uses_trans by blast
  have i: "loop_inv el1" using uses_loop_inv [OF f(2) fresh_addr Cons.prems(1)] .
  have a: "length (events el1) = length (events el)" "fired el1 = fired el" using uses_arrays [OF f(2)] by simp_all
  have "\<exists>el' w'. fire_loop e w1 el1 js (k + 1) = Some (k + 1 + length js, el', w') \<and> uses e el1 el' \<and> sound w'"
    by (rule Cons.IH [OF i _ f(3)]) (use Cons.prems(2) in \<open>simp add: a\<close>)
  then show ?case using f j(1) uses_trans by fastforce
qed

lemma sleep_hook_ok: "loop_inv el \<Longrightarrow> sound w \<Longrightarrow> \<exists>el' w'. sleep_hook e h b w el = Some (el', w') \<and> uses e el el' \<and> sound w'"
  using hook uses_refl by (cases h) (fastforce simp: sleep_hook_def)+

lemma poll_ok:
  assumes "loop_inv el" and "sound w"
  shows "\<exists>n el' w'. aeApiPoll e w el tvp = Some (n, el', w') \<and> loop_inv el' \<and> sound w' \<and> n \<le> length (fired el') \<and> length (events el') = length (events el) \<and>
     (\<forall>j < n. 0 \<le> fired_fd (fired el' ! j) \<and> nat (fired_fd (fired el' ! j)) < length (events el'))"
proof -
  obtain r w' where r: "epoll_wait e w (epfd el) (setsize el) (timeout_ms tvp) = (r, w')" by fastforce
  have len: "length (fired el) = length (events el)" using assms by (simp add: loop_inv_def file_inv_def)
  show ?thesis
  proof (cases r)
    case (Events evs)
    then have w: "length evs \<le> length (fired el)" "\<forall>(ev, fd) \<in> set evs. 0 \<le> fd \<and> nat fd < length (events el)"
      using wait [OF assms(2,1) r] len by simp_all
    then obtain fs where fs: "store_fired (fired el) 0 evs = Some fs" "length fs = length (fired el)" "\<forall>i < length evs. fired_fd (fs ! i) = snd (evs ! i)"
      using store_fired_ok [of 0 evs "fired el"] by auto
    let ?el = "el\<lparr>fired := fs\<rparr>"
    have "registered ?el = registered el" by (rule registered_events) simp
    then have "loop_inv ?el" using assms fs(2) by (simp add: loop_inv_def file_inv_def timer_inv_def)
    moreover have "0 \<le> fired_fd (fs ! i) \<and> nat (fired_fd (fs ! i)) < length (events el)" if "i < length evs" for i
      using w(2) fs(3) that nth_mem [OF that] by (auto simp: case_prod_beta)
    ultimately show ?thesis using r Events fs w(1) wait [OF assms(2,1) r] by (simp add: aeApiPoll_def)
  next
    case Interrupted
    then show ?thesis using r assms wait [OF assms(2,1) r] by (simp add: aeApiPoll_def)
  next
    case Failed
    then show ?thesis using wait [OF assms(2,1) r] by simp
  qed
qed

lemma timeout_ok:
  assumes "loop_inv el" and "sound w"
  shows "\<exists>tvp w'. timeout_for e w el fl = Some (tvp, w') \<and> sound w'"
proof -
  obtain as where as: "timer_inv {} el as" using assms by (auto simp: loop_inv_def)
  obtain now w1 where n: "getMonotonicUs e w = (now, w1)" by fastforce
  have "\<exists>us w'. usUntilEarliestTimer e w el = Some (us, w') \<and> sound w'"
    using usUntilEarliestTimer_value [OF as n] assms(2) clock [OF assms(2) n] by simp
  then show ?thesis using assms(2) by (auto simp: timeout_for_def)
qed


lemma poll_and_fire_ok:
  assumes "loop_inv el" and "sound w"
  shows "\<exists>n el' w'. poll_and_fire e w el fl = Some (n, el', w') \<and> loop_inv el' \<and> sound w'"
proof -
  note u = uses_loop_inv [OF _ fresh_addr]
  obtain tvp w1 where 1: "timeout_for e w el fl = Some (tvp, w1)" "sound w1" using timeout_ok [OF assms] by blast
  obtain el2 w2 where 2: "sleep_hook e (beforesleep el) (fl AND AE_CALL_BEFORE_SLEEP \<noteq> 0) w1 el = Some (el2, w2)" "loop_inv el2" "sound w2"
    using sleep_hook_ok [OF assms(1) 1(2)] u [OF _ assms(1)] by blast
  obtain n el3 w3 where 3: "aeApiPoll e w2 el2 tvp = Some (n, el3, w3)" "loop_inv el3" "n \<le> length (fired el3)"
    "\<forall>j < n. 0 \<le> fired_fd (fired el3 ! j) \<and> nat (fired_fd (fired el3 ! j)) < length (events el3)" "sound w3"
    using poll_ok [OF 2(2,3)] by blast
  define k where "k = (if fl AND AE_FILE_EVENTS = 0 then 0 else n)"
  obtain el4 w4 where 4: "sleep_hook e (aftersleep el3) (fl AND AE_CALL_AFTER_SLEEP \<noteq> 0) w3 el3 = Some (el4, w4)" "uses e el3 el4" "sound w4"
    using sleep_hook_ok [OF 3(2,5)] by blast
  have i: "loop_inv el4" using u [OF 4(2) 3(2)] .
  have r: "j < length (fired el4) \<and> 0 \<le> fired_fd (fired el4 ! j) \<and> nat (fired_fd (fired el4 ! j)) < length (events el4)" if "j \<in> set [0..<k]" for j
    using that 3(3,4) uses_arrays [OF 4(2)] by (auto simp: k_def split: if_splits)
  obtain el5 w5 where 5: "fire_loop e w4 el4 [0..<k] 0 = Some (0 + length [0..<k], el5, w5)" "uses e el4 el5" "sound w5"
    using fire_loop_ok [OF i r 4(3), where k = 0] by blast
  show ?thesis using 1 2(1) 3(1) 4(1) 5(1,3) u [OF 5(2) i] by (auto simp: poll_and_fire_def simp flip: k_def)
qed

lemma aeProcessEvents_ok:
  assumes "loop_inv el" and "sound w"
  shows "\<exists>n el' w'. aeProcessEvents e w el fl = Some (n, el', w') \<and> loop_inv el' \<and> sound w'"
proof -
  have t: "\<exists>k el' w'. processTimeEvents e v l = Some (k, el', w') \<and> loop_inv el' \<and> sound w'" if i: "loop_inv l" "sound v" for v l
  proof -
    obtain as where as: "timer_inv {} l as" "file_inv l" using i(1) by (auto simp: loop_inv_def)
    obtain now v2 where c: "getMonotonicUs e v = (now, v2)" by fastforce
    from processTimeEvents_ok [OF as(1) c i(2)] as(2) show ?thesis unfolding loop_inv_def by blast
  qed
  obtain n el1 w1 where 1: "(if maxfd el \<noteq> -1 \<or> (fl AND AE_TIME_EVENTS \<noteq> 0 \<and> fl AND AE_DONT_WAIT = 0) then poll_and_fire e w el fl
      else Some (0, el, w)) = Some (n, el1, w1)" "loop_inv el1" "sound w1"
  proof (cases "maxfd el \<noteq> -1 \<or> (fl AND AE_TIME_EVENTS \<noteq> 0 \<and> fl AND AE_DONT_WAIT = 0)")
    case True then show ?thesis using that poll_and_fire_ok [OF assms, of fl] by auto
  next
    case False
    then have "(if maxfd el \<noteq> -1 \<or> (fl AND AE_TIME_EVENTS \<noteq> 0 \<and> fl AND AE_DONT_WAIT = 0) then poll_and_fire e w el fl
      else Some (0, el, w)) = Some (0, el, w)" by (rule if_not_P)
    then show ?thesis using that assms by blast
  qed
  show ?thesis using t [OF 1(2,3)] 1(2,3) assms unfolding aeProcessEvents_def 1(1) by auto
qed

end

subsection \<open>Creating and deleting the loop\<close>

lemma aeCreateEventLoop_inv:
  assumes "aeCreateEventLoop e w n memory = (Some el, w')" and "length memory = n"
  shows "loop_inv el" and "timer_inv {} el []"
proof -
  have el: "events el = replicate n \<lparr>mask = AE_NONE, rfileProc = None, wfileProc = None, clientData = None\<rparr>" "setsize el = int n" "fired el = memory"
    "maxfd el = -1" "timers el = (\<lambda>_. None)" "timeEventHead el = None" "timeEventNextId el = 0"
    using assms(1) by (auto simp: aeCreateEventLoop_def aeApiCreate_def split: prod.splits if_splits)
  then show t: "timer_inv {} el []" by (simp add: timer_inv_def)
  have "file_inv el" using el assms(2) by (auto simp: file_inv_def registered_def handlers_set_def list_all_iff AE_NONE_def)
  then show "loop_inv el" using t by (auto simp: loop_inv_def)
qed

lemma delete_timers_all:
  "tseg (timers el) p q as None \<Longrightarrow> distinct as \<Longrightarrow> dom (timers el) = set as \<Longrightarrow>
     \<exists>el'. delete_timers el q = Some el' \<and> timers el' = (\<lambda>_. None)"
proof (induction as arbitrary: el p q)
  case Nil
  then show ?case by (subst delete_timers.simps) auto
next
  case (Cons a as)
  then obtain t where t: "q = Some a" "timers el a = Some t" "tseg (timers el) (Some a) (te_next t) as None" by auto
  let ?el = "el\<lparr>timers := (timers el)(a := None)\<rparr>"
  have "tseg (timers ?el) (Some a) (te_next t) as None" using t Cons.prems(2) by (simp add: tseg_upd)
  moreover have "dom (timers ?el) = set as" using Cons.prems(2,3) by auto
  ultimately have "\<exists>el'. delete_timers ?el (te_next t) = Some el' \<and> timers el' = (\<lambda>_. None)"
    using Cons.IH [of ?el "Some a" "te_next t"] Cons.prems(2) by (simp only: distinct.simps)
  then show ?case using t by (subst delete_timers.simps) (simp add: free_timer_def)
qed

end
