(* ===== verification/Cron.thy ===== *)
theory Cron
  imports Adlist Client Ae_Loop "HOL-Library.Signed_Division"
begin


text \<open>
  The periodic work of the server (\<open>server.c\<close>): \<open>serverCron\<close>, the callback of the only time event the server creates, the pass over the
  clients it makes, and the maintenance of the query buffer of a client.

  The list \<open>server.clients\<close> is the linked list of \<open>Adlist\<close>; its values are client pointers, here identifiers looked up in \<open>table\<close>. The bodies of the
  two blocks under \<open>run_with_period\<close> are commented out in the source, their conditions are not. The watchdog timer
  that \<open>serverCron\<close> arms first when one is configured acts by a signal and is not modelled. The counter \<open>cronloops\<close> wraps around as
  the machine's addition does; after \<open>2 ^ 31\<close> calls C leaves that increment undefined.
\<close>

definition PROTO_RESIZE_THRESHOLD :: nat where "PROTO_RESIZE_THRESHOLD = 1024 * 32"
definition CLIENTS_CRON_MIN_ITERATIONS :: int where "CLIENTS_CRON_MIN_ITERATIONS = 5"
definition CLIENTS_PEAK_MEM_USAGE_SLOTS :: int where "CLIENTS_PEAK_MEM_USAGE_SLOTS = 8"

record cron =
  hz :: int
  config_hz :: int
  pause_cron :: bool
  cronloops :: int
  verbose :: bool
  sentinel_mode :: bool
  cron_server :: server
  cmem :: "nat mem"
  clients :: "nat hlist"
  table :: "nat \<Rightarrow> client option"
  ClientsPeakMemInput :: "nat list"
  ClientsPeakMemOutput :: "nat list"

text \<open>Division of C integers, and a signed value converted to \<open>size_t\<close>.\<close>

definition cdiv :: "int \<Rightarrow> int \<Rightarrow> int option" where
  "cdiv a b = (if b = 0 then None else Some (a sdiv b))"

definition cmod :: "int \<Rightarrow> int \<Rightarrow> int option" where
  "cmod a b = (if b = 0 then None else Some (a smod b))"

definition size_of :: "int \<Rightarrow> nat" where
  "size_of i = nat (i mod 2 ^ 64)"

subsection \<open>The query buffer of a client\<close>

definition clientsCronResizeQueryBuffer :: "malloc \<Rightarrow> server \<Rightarrow> client \<Rightarrow> client option" where
  "clientsCronResizeQueryBuffer mal sv c = do {
     let querybuf_size = sdsalloc (querybuf c);
     let idletime = unixtime sv - lastinteraction c;
     c \<leftarrow> (if 1024 * 4 < sdsavail (querybuf c) then
              if 2 < idletime then do {
                s \<leftarrow> sdsRemoveFreeSpace mal (querybuf c);
                Some (c\<lparr>querybuf := s\<rparr>) }
              else if PROTO_RESIZE_THRESHOLD < querybuf_size \<and> querybuf_peak c < querybuf_size div 2 then do {
                let resize = sdslen (querybuf c);
                let resize = (if resize < querybuf_peak c then querybuf_peak c else resize);
                let resize = (if bulklen c \<noteq> -1 \<and> resize < size_of (bulklen c) then size_of (bulklen c) else resize);
                s \<leftarrow> sdsResize mal (querybuf c) resize;
                Some (c\<lparr>querybuf := s\<rparr>) }
              else Some c
            else Some c);
     let c = c\<lparr>querybuf_peak := sdslen (querybuf c)\<rparr>;
     Some (if bulklen c \<noteq> -1 \<and> querybuf_peak c < size_of (bulklen c) then c\<lparr>querybuf_peak := size_of (bulklen c)\<rparr> else c) }"

subsection \<open>The clients\<close>

fun clients_loop :: "malloc \<Rightarrow> nat \<Rightarrow> cron \<Rightarrow> cron option" where
  "clients_loop mal 0 s = Some s"
| "clients_loop mal (Suc iterations) s =
     (if llen (clients s) = 0 then Some s
      else do {
        (m, l) \<leftarrow> listRotateTailToHead (cmem s) (clients s);
        hd \<leftarrow> load m (head l);
        c \<leftarrow> table s (nvalue hd);
        c \<leftarrow> clientsCronResizeQueryBuffer mal (cron_server s) c;
        clients_loop mal iterations (s\<lparr>cmem := m, clients := l, table := (table s)(nvalue hd \<mapsto> c)\<rparr>) })"

definition cron_iterations :: "int \<Rightarrow> int \<Rightarrow> int option" where
  "cron_iterations numclients h = do {
     iterations \<leftarrow> cdiv numclients h;
     Some (if iterations < CLIENTS_CRON_MIN_ITERATIONS
           then if numclients < CLIENTS_CRON_MIN_ITERATIONS then numclients else CLIENTS_CRON_MIN_ITERATIONS
           else iterations) }"

definition set_peak :: "nat list \<Rightarrow> int \<Rightarrow> nat list option" where
  "set_peak xs i = do { ensure (0 \<le> i); set_at xs (nat i) 0 }"

definition clientsCron :: "malloc \<Rightarrow> cron \<Rightarrow> cron option" where
  "clientsCron mal s = do {
     let numclients = sint (of_nat (llen (clients s)) :: 32 word);
     iterations \<leftarrow> cron_iterations numclients (hz s);
     curr \<leftarrow> cmod (unixtime (cron_server s)) CLIENTS_PEAK_MEM_USAGE_SLOTS;
     zeroidx \<leftarrow> cmod (curr + 1) CLIENTS_PEAK_MEM_USAGE_SLOTS;
     pin \<leftarrow> set_peak (ClientsPeakMemInput s) zeroidx;
     pout \<leftarrow> set_peak (ClientsPeakMemOutput s) zeroidx;
     clients_loop mal (nat iterations) (s\<lparr>ClientsPeakMemInput := pin, ClientsPeakMemOutput := pout\<rparr>) }"

subsection \<open>The cron\<close>

definition run_with_period :: "int \<Rightarrow> cron \<Rightarrow> bool option" where
  "run_with_period ms s = do {
     p \<leftarrow> cdiv 1000 (hz s);
     if ms \<le> p then Some True
     else do { q \<leftarrow> cdiv ms p; r \<leftarrow> cmod (cronloops s) q; Some (r = 0) } }"

definition serverCron :: "malloc \<Rightarrow> cron \<Rightarrow> (int \<times> cron) option" where
  "serverCron mal s = do {
     h \<leftarrow> int32 (config_hz s + 1);
     let s = s\<lparr>hz := h\<rparr>;
     if pause_cron s then do { p \<leftarrow> cdiv 1000 (hz s); Some (p, s) }
     else do {
       _ \<leftarrow> (if verbose s then run_with_period 5000 s else Some False);
       _ \<leftarrow> (if \<not> sentinel_mode s then run_with_period 5000 s else Some False);
       s \<leftarrow> clientsCron mal s;
       let s = s\<lparr>cronloops := sint (word_of_int (cronloops s + 1) :: 32 word)\<rparr>;
       p \<leftarrow> cdiv 1000 (hz s);
       Some (p + 1, s) } }"


subsection \<open>The query buffer is kept\<close>

definition client_ok :: "client \<Rightarrow> bool" where
  "client_ok c \<longleftrightarrow> sds_ok (querybuf c) \<and> sdsalloc (querybuf c) < 2 ^ 62 \<and> -1 \<le> bulklen c \<and> bulklen c < 2 ^ 62"

text \<open>What the maintenance of a client may change: the allocation of the query buffer and the recorded peak.\<close>

definition maintained :: "server \<Rightarrow> client \<Rightarrow> client \<Rightarrow> bool" where
  "maintained sv c c' \<longleftrightarrow> (\<exists>s k. c' = c\<lparr>querybuf := s, querybuf_peak := k\<rparr>) \<and> content (querybuf c') = content (querybuf c) \<and>
     client_ok c' \<and> querybuf_peak c' = max (length (content (querybuf c))) (nat (bulklen c)) \<and>
     (2 < unixtime sv - lastinteraction c \<longrightarrow> sdsavail (querybuf c') \<le> 4096)"

lemma sds_room:
  assumes "sds_ok s"
  shows "sdslen s = length (content s)" and "sdsavail s = sdsalloc s - sdslen s" and "sdslen s \<le> sdsalloc s"
  using assms wf_avail [of s] wf_content_length [of s] by (auto simp: sds_ok_def sds_wf_def sdsalloc_def sdslen_def)

lemma size_of_nat: "0 \<le> i \<Longrightarrow> i < 2 ^ 62 \<Longrightarrow> size_of i = nat i"
  by (simp add: size_of_def)

lemma clientsCronResizeQueryBuffer_ok:
  assumes "malloc_ok mal" and "client_ok c"
  shows "\<exists>c'. clientsCronResizeQueryBuffer mal sv c = Some c' \<and> maintained sv c c'"
proof -
  let ?q = "querybuf c"
  have ok: "sds_ok ?q" "sdsalloc ?q < 2 ^ 62" "-1 \<le> bulklen c" "bulklen c < 2 ^ 62" using assms(2) by (auto simp: client_ok_def)
  define resize where "resize = (let r = (if sdslen ?q < querybuf_peak c then querybuf_peak c else sdslen ?q)
     in if bulklen c \<noteq> -1 \<and> r < size_of (bulklen c) then size_of (bulklen c) else r)"
  define go where "go = (1024 * 4 < sdsavail ?q)"
  define idle where "idle = (2 < unixtime sv - lastinteraction c)"
  define big where "big = (PROTO_RESIZE_THRESHOLD < sdsalloc ?q \<and> querybuf_peak c < sdsalloc ?q div 2)"
  have "\<exists>s. (if go then if idle then map_option (\<lambda>s. c\<lparr>querybuf := s\<rparr>) (sdsRemoveFreeSpace mal ?q)
        else if big then map_option (\<lambda>s. c\<lparr>querybuf := s\<rparr>) (sdsResize mal ?q resize) else Some c
      else Some c) = Some (c\<lparr>querybuf := s\<rparr>) \<and> sds_ok s \<and> content s = content ?q \<and> sdsalloc s < 2 ^ 62 \<and> (idle \<longrightarrow> sdsavail s \<le> 4096)"
  proof -
    consider (idle) "go" "idle" | (big) "go" "\<not> idle" "big" | (none) "\<not> go \<or> \<not> idle \<and> \<not> big" by blast
    then show ?thesis
    proof cases
      case idle
      obtain s where s: "sdsRemoveFreeSpace mal ?q = Some s" "sds_ok s" "content s = content ?q" "sdsavail s = 0"
        using RemoveFreeSpace_ok [OF assms(1) ok(1)] by blast
      moreover have "sdsalloc s < 2 ^ 62" using sds_room [OF s(2)] sds_room [OF ok(1)] s(3,4) ok(2) by simp
      ultimately show ?thesis using idle by auto
    next
      case big
      have r: "resize < 2 ^ 62" "length (content ?q) \<le> resize"
        using big(3) ok sds_room [OF ok(1)] size_of_nat [of "bulklen c"] by (auto simp: resize_def big_def Let_def)
      obtain s where "sdsResize mal ?q resize = Some s" "sds_ok s" "content s = content ?q" "sdsalloc s = resize"
        using Resize_ok [OF assms(1) ok(1) r(1)] r(2) by auto
      then show ?thesis using big r(1) by auto
    next
      case none
      then have "(if go then if idle then map_option (\<lambda>s. c\<lparr>querybuf := s\<rparr>) (sdsRemoveFreeSpace mal ?q)
        else if big then map_option (\<lambda>s. c\<lparr>querybuf := s\<rparr>) (sdsResize mal ?q resize) else Some c
        else Some c) = Some (c\<lparr>querybuf := ?q\<rparr>)" by auto
      moreover have "idle \<longrightarrow> sdsavail ?q \<le> 4096" using none by (auto simp: go_def)
      ultimately show ?thesis using ok by blast
    qed
  qed
  then obtain s where s: "(if go then if idle then map_option (\<lambda>s. c\<lparr>querybuf := s\<rparr>) (sdsRemoveFreeSpace mal ?q)
        else if big then map_option (\<lambda>s. c\<lparr>querybuf := s\<rparr>) (sdsResize mal ?q resize) else Some c
      else Some c) = Some (c\<lparr>querybuf := s\<rparr>)" "sds_ok s" "content s = content ?q" "sdsalloc s < 2 ^ 62" "idle \<longrightarrow> sdsavail s \<le> 4096" by blast
  define peak where "peak = max (length (content ?q)) (nat (bulklen c))"
  have m: "maintained sv c (c\<lparr>querybuf := s, querybuf_peak := peak\<rparr>)"
    using s ok unfolding maintained_def client_ok_def peak_def idle_def by auto
  have "clientsCronResizeQueryBuffer mal sv c =
      Option.bind (if go then if idle then map_option (\<lambda>s. c\<lparr>querybuf := s\<rparr>) (sdsRemoveFreeSpace mal ?q)
        else if big then map_option (\<lambda>s. c\<lparr>querybuf := s\<rparr>) (sdsResize mal ?q resize) else Some c
      else Some c) (\<lambda>c. let c = c\<lparr>querybuf_peak := sdslen (querybuf c)\<rparr> in
        Some (if bulklen c \<noteq> -1 \<and> querybuf_peak c < size_of (bulklen c) then c\<lparr>querybuf_peak := size_of (bulklen c)\<rparr> else c))"
    unfolding clientsCronResizeQueryBuffer_def go_def idle_def big_def resize_def Let_def
    by (simp add: map_conv_bind_option)
  also have "\<dots> = Some (c\<lparr>querybuf := s, querybuf_peak := peak\<rparr>)"
    unfolding s(1) using ok(3,4) sds_room(1) [OF s(2)] s(3) size_of_nat [of "bulklen c"]
    by (cases "bulklen c = -1") (simp_all add: peak_def Let_def max_def not_less)
  finally show ?thesis using m by blast
qed

subsection \<open>The pass over the clients\<close>

lemma lrep_head: "lrep m l (x # xs) \<Longrightarrow> \<exists>n. load m (head l) = Some n \<and> nvalue n = x"
  by (auto simp: lrep_def list_inv_def vals_def Cons_eq_map_conv)

lemma rotate_back: "rotate (length us) (us @ [z]) = z # us"
  by (simp add: rotate_append)

definition clients_rep :: "cron \<Rightarrow> nat list \<Rightarrow> bool" where
  "clients_rep s xs \<longleftrightarrow> lrep (cmem s) (clients s) xs \<and> distinct xs \<and> (\<forall>x \<in> set xs. \<exists>c. table s x = Some c \<and> client_ok c)"

lemma clients_loop_ok:
  assumes "malloc_ok mal" and "clients_rep s xs" and "k \<le> length xs"
  shows "\<exists>s' m l t. clients_loop mal k s = Some s' \<and> s' = s\<lparr>cmem := m, clients := l, table := t\<rparr> \<and>
     clients_rep s' (rotate (length xs - k) xs) \<and>
     (\<forall>x \<in> set (drop (length xs - k) xs). \<exists>c c'. table s x = Some c \<and> t x = Some c' \<and> maintained (cron_server s) c c') \<and>
     (\<forall>x. x \<notin> set (drop (length xs - k) xs) \<longrightarrow> t x = table s x)"
  using assms(2,3)
proof (induction k arbitrary: s xs)
  case 0
  then show ?case by (intro exI [of _ s] exI [of _ "cmem s"] exI [of _ "clients s"] exI [of _ "table s"]) simp
next
  case (Suc k)
  obtain us z where xs: "xs = us @ [z]" using Suc.prems(2) by (cases xs rule: rev_cases) auto
  have rep: "lrep (cmem s) (clients s) (us @ [z])" "distinct (us @ [z])" using Suc.prems(1) xs by (auto simp: clients_rep_def)
  obtain m l where r: "listRotateTailToHead (cmem s) (clients s) = Some (m, l)" "lrep m l (z # us)"
    using lrep_rot_tail_head [OF rep(1)] rotate_back [of us z] by auto
  obtain nd where nd: "load m (head l) = Some nd" "nvalue nd = z" using lrep_head [OF r(2)] by blast
  obtain c where c: "table s z = Some c" "client_ok c" using Suc.prems(1) xs by (auto simp: clients_rep_def)
  obtain c' where c': "clientsCronResizeQueryBuffer mal (cron_server s) c = Some c'" "maintained (cron_server s) c c'"
    using clientsCronResizeQueryBuffer_ok [OF assms(1) c(2)] by blast
  let ?s = "s\<lparr>cmem := m, clients := l, table := (table s)(z \<mapsto> c')\<rparr>"
  have "client_ok c'" using c'(2) by (simp add: maintained_def)
  then have rep1: "clients_rep ?s (z # us)" using r(2) Suc.prems(1) xs by (auto simp: clients_rep_def)
  have k: "k \<le> length (z # us)" using Suc.prems(2) xs by simp
  obtain s' m' l' t' where i: "clients_loop mal k ?s = Some s'" "s' = ?s\<lparr>cmem := m', clients := l', table := t'\<rparr>"
    "clients_rep s' (rotate (length (z # us) - k) (z # us))"
    "\<forall>x \<in> set (drop (length (z # us) - k) (z # us)). \<exists>c c'. table ?s x = Some c \<and> t' x = Some c' \<and> maintained (cron_server ?s) c c'"
    "\<forall>x. x \<notin> set (drop (length (z # us) - k) (z # us)) \<longrightarrow> t' x = table ?s x"
    using Suc.IH [OF rep1 k] by blast
  have n: "length (z # us) - k = Suc (length us - k)" "length xs - Suc k = length us - k" using Suc.prems(2) xs by auto
  have d: "drop (length xs - Suc k) xs = drop (length us - k) us @ [z]" unfolding n(2) using xs by simp
  have z: "z \<notin> set us" using rep(2) by simp
  then have zd: "z \<notin> set (drop (length us - k) us)" by (meson in_set_dropD)
  have rot: "rotate (length (z # us) - k) (z # us) = rotate (length xs - Suc k) xs"
  proof -
    have "rotate (Suc (length us - k)) (rotate (length us) xs) = rotate (Suc (length us - k) + length us) xs" by (simp only: rotate_rotate)
    also have "\<dots> = rotate ((length us - k) + length xs) xs" using xs by (simp add: add.commute)
    also have "\<dots> = rotate (length us - k) xs" by (subst rotate_conv_mod) (simp, metis rotate_conv_mod)
    finally show ?thesis using rotate_back [of us z] xs n by simp
  qed
  have "clients_loop mal (Suc k) s = Some s'"
    using lrep_len [OF rep(1)] r(1) nd c(1) c'(1) i(1) by simp
  moreover have "s' = s\<lparr>cmem := m', clients := l', table := t'\<rparr>" using i(2) by simp
  moreover have "\<forall>x \<in> set (drop (length us - k) us @ [z]). \<exists>c c'. table s x = Some c \<and> t' x = Some c' \<and> maintained (cron_server s) c c'"
  proof
    fix x assume "x \<in> set (drop (length us - k) us @ [z])"
    then consider "x = z" | "x \<in> set (drop (length us - k) us)" "x \<noteq> z" using zd by auto
    then show "\<exists>c c'. table s x = Some c \<and> t' x = Some c' \<and> maintained (cron_server s) c c'"
    proof cases
      case 1 then show ?thesis using i(5) zd n(1) c(1) c'(2) by auto
    next
      case 2 then show ?thesis using i(4) n(1) by auto
    qed
  qed
  moreover have "\<forall>x. x \<notin> set (drop (length us - k) us @ [z]) \<longrightarrow> t' x = table s x" using i(5) n(1) by auto
  ultimately show ?case using i(3) unfolding rot d by blast
qed


definition cron_ok :: "cron \<Rightarrow> bool" where
  "cron_ok s \<longleftrightarrow> 1 \<le> config_hz s \<and> config_hz s \<le> 500 \<and> 0 \<le> unixtime (cron_server s) \<and>
     length (ClientsPeakMemInput s) = 8 \<and> length (ClientsPeakMemOutput s) = 8 \<and> (\<exists>xs. clients_rep s xs \<and> length xs < 2 ^ 31)"

lemma sdiv_pos: "0 \<le> a \<Longrightarrow> 0 < b \<Longrightarrow> a sdiv b = a div b" for a b :: int
  by (simp add: signed_divide_int_def sgn_if)

lemma smod_pos: "0 \<le> a \<Longrightarrow> 0 < b \<Longrightarrow> a smod b = a mod b" for a b :: int
  by (cases "a = 0") (simp_all add: signed_modulo_int_def)

lemma cron_iterations_value:
  assumes "0 \<le> n" and "0 < h"
  shows "cron_iterations n h = Some (max (n div h) (min n 5))"
proof -
  have "n div h \<le> n" using assms by (metis div_by_1 int_one_le_iff_zero_less zdiv_mono2 zero_less_one)
  then show ?thesis using assms by (simp add: cron_iterations_def cdiv_def sdiv_pos CLIENTS_CRON_MIN_ITERATIONS_def max_def min_def)
qed

text \<open>The clients a call of \<open>clientsCron\<close> maintains: at least five if there are so many, and enough to reach all of them in a second.\<close>

definition cron_share :: "nat \<Rightarrow> int \<Rightarrow> nat" where
  "cron_share n h = max (n div nat h) (min n 5)"

lemma cron_share_le: "cron_share n h \<le> n"
  by (simp add: cron_share_def)

lemma clientsCron_ok:
  assumes "malloc_ok mal" and "cron_ok s" and "0 < hz s" and "clients_rep s xs" and "length xs < 2 ^ 31"
  shows "\<exists>s' m l t pin pout. clientsCron mal s = Some s' \<and>
     s' = s\<lparr>ClientsPeakMemInput := pin, ClientsPeakMemOutput := pout, cmem := m, clients := l, table := t\<rparr> \<and> length pin = 8 \<and> length pout = 8 \<and>
     clients_rep s' (rotate (length xs - cron_share (length xs) (hz s)) xs) \<and>
     (\<forall>x \<in> set (drop (length xs - cron_share (length xs) (hz s)) xs). \<exists>c c'. table s x = Some c \<and> t x = Some c' \<and> maintained (cron_server s) c c') \<and>
     (\<forall>x. x \<notin> set (drop (length xs - cron_share (length xs) (hz s)) xs) \<longrightarrow> t x = table s x)"
proof -
  let ?n = "length xs"
  let ?z = "(unixtime (cron_server s) mod 8 + 1) mod 8"
  let ?s = "s\<lparr>ClientsPeakMemInput := (ClientsPeakMemInput s)[nat ?z := 0], ClientsPeakMemOutput := (ClientsPeakMemOutput s)[nat ?z := 0]\<rparr>"
  have ok: "0 \<le> unixtime (cron_server s)" "length (ClientsPeakMemInput s) = 8" "length (ClientsPeakMemOutput s) = 8"
    using assms(2) by (simp_all add: cron_ok_def)
  have len: "llen (clients s) = ?n" using assms(4) lrep_len by (auto simp: clients_rep_def)
  have n: "sint (of_nat (llen (clients s)) :: 32 word) = int ?n"
    using sint_word_of_int [where 'a = 32, of "int ?n"] assms(5) len by simp
  have it: "cron_iterations (int ?n) (hz s) = Some (int (cron_share ?n (hz s)))"
    using cron_iterations_value [of "int ?n" "hz s"] assms(3) by (simp add: cron_share_def zdiv_int of_nat_max of_nat_min)
  have z: "0 \<le> ?z" "nat ?z < 8" using pos_mod_bound [of 8 "unixtime (cron_server s) mod 8 + 1"] by (simp_all add: nat_less_iff)
  have e: "clientsCron mal s = clients_loop mal (cron_share ?n (hz s)) ?s"
  proof -
    have "cmod (unixtime (cron_server s)) 8 = Some (unixtime (cron_server s) mod 8)"
      "cmod (unixtime (cron_server s) mod 8 + 1) 8 = Some ?z" using ok(1) by (simp_all add: cmod_def smod_pos)
    moreover have "set_peak (ClientsPeakMemInput s) ?z = Some ((ClientsPeakMemInput s)[nat ?z := 0])"
      "set_peak (ClientsPeakMemOutput s) ?z = Some ((ClientsPeakMemOutput s)[nat ?z := 0])"
      unfolding set_peak_def using ok(2,3) z by (simp_all only: ensure_simps Option.bind.simps set_at_in)
    ultimately show ?thesis unfolding clientsCron_def CLIENTS_PEAK_MEM_USAGE_SLOTS_def Let_def n it by (simp only: Option.bind.simps nat_int)
  qed
  have "clients_rep ?s xs" using assms(4) by (simp add: clients_rep_def)
  from clients_loop_ok [OF assms(1) this cron_share_le [of _ "hz s"]]
  obtain s' m l t where r: "clients_loop mal (cron_share ?n (hz s)) ?s = Some s'" "s' = ?s\<lparr>cmem := m, clients := l, table := t\<rparr>"
    "clients_rep s' (rotate (?n - cron_share ?n (hz s)) xs)"
    "\<forall>x \<in> set (drop (?n - cron_share ?n (hz s)) xs). \<exists>c c'. table ?s x = Some c \<and> t x = Some c' \<and> maintained (cron_server ?s) c c'"
    "\<forall>x. x \<notin> set (drop (?n - cron_share ?n (hz s)) xs) \<longrightarrow> t x = table ?s x" by blast
  show ?thesis using ok(2,3) r unfolding e
    by (intro exI [of _ s'] exI [of _ m] exI [of _ l] exI [of _ t] exI [of _ "ClientsPeakMemInput ?s"] exI [of _ "ClientsPeakMemOutput ?s"]) simp
qed

lemma rotate_cut: "rotate (length xs - k) xs = drop (length xs - k) xs @ take (length xs - k) xs"
  by (cases "k = 0 \<or> xs = []") (auto simp: rotate_drop_take)

lemma cron_delay:
  assumes "cron_ok s"
  shows "cdiv 1000 (config_hz s + 1) = Some (1000 div (config_hz s + 1))" and "1 \<le> 1000 div (config_hz s + 1)"
    and "1000 div (config_hz s + 1) \<le> 500" and "int32 (config_hz s + 1) = Some (config_hz s + 1)"
proof -
  have c: "1 \<le> config_hz s" "config_hz s \<le> 500" using assms by (simp_all add: cron_ok_def)
  then show "cdiv 1000 (config_hz s + 1) = Some (1000 div (config_hz s + 1))" by (simp add: cdiv_def sdiv_pos)
  show "1 \<le> 1000 div (config_hz s + 1)" using c zdiv_mono2 [of 1000 "config_hz s + 1" 501] by simp
  show "1000 div (config_hz s + 1) \<le> 500" using c zdiv_mono2 [of 1000 2 "config_hz s + 1"] by simp
  show "int32 (config_hz s + 1) = Some (config_hz s + 1)" using c by (simp add: int32_def)
qed

lemma serverCron_step:
  assumes "malloc_ok mal" and "cron_ok s" and "\<not> pause_cron s" and "clients_rep s xs" and "length xs < 2 ^ 31"
  shows "\<exists>r s' k. serverCron mal s = Some (r, s') \<and> cron_ok s' \<and> 2 \<le> r \<and> r \<le> 501 \<and> k = cron_share (length xs) (config_hz s + 1) \<and>
     clients_rep s' (drop (length xs - k) xs @ take (length xs - k) xs) \<and>
     (\<forall>x \<in> set (drop (length xs - k) xs). \<exists>c c'. table s x = Some c \<and> table s' x = Some c' \<and> maintained (cron_server s) c c') \<and>
     (\<forall>x. x \<notin> set (drop (length xs - k) xs) \<longrightarrow> table s' x = table s x)"
proof -
  let ?h = "config_hz s + 1"
  let ?s = "s\<lparr>hz := ?h\<rparr>"
  let ?k = "cron_share (length xs) ?h"
  note d = cron_delay [OF assms(2)]
  have xs: "clients_rep ?s xs" using assms(4) by (simp add: clients_rep_def)
  have ok: "cron_ok ?s" using assms(2) by (simp add: cron_ok_def clients_rep_def)
  have "0 < hz ?s" using assms(2) by (simp add: cron_ok_def)
  from clientsCron_ok [OF assms(1) ok this xs assms(5)] obtain s' m l t pin pout where k: "clientsCron mal ?s = Some s'"
    "s' = ?s\<lparr>ClientsPeakMemInput := pin, ClientsPeakMemOutput := pout, cmem := m, clients := l, table := t\<rparr>" "length pin = 8" "length pout = 8"
    "clients_rep s' (rotate (length xs - ?k) xs)"
    "\<forall>x \<in> set (drop (length xs - ?k) xs). \<exists>c c'. table s x = Some c \<and> t x = Some c' \<and> maintained (cron_server s) c c'"
    "\<forall>x. x \<notin> set (drop (length xs - ?k) xs) \<longrightarrow> t x = table s x" by auto
  let ?s' = "s'\<lparr>cronloops := sint (word_of_int (cronloops s' + 1) :: 32 word)\<rparr>"
  have rep: "clients_rep ?s' (drop (length xs - ?k) xs @ take (length xs - ?k) xs)"
    using k(5) unfolding rotate_cut by (simp add: clients_rep_def)
  have "length (drop (length xs - ?k) xs @ take (length xs - ?k) xs) < 2 ^ 31" using assms(5) by simp
  then have ok': "cron_ok ?s'" using rep k(2-4) assms(2) unfolding cron_ok_def by auto
  have q: "5000 sdiv (1000 div ?h) \<noteq> 0" using d sdiv_pos [of 5000 "1000 div ?h"] zdiv_mono2 [of 5000 "1000 div ?h" 500] by simp
  have "\<exists>b. run_with_period 5000 ?s = Some b" using d q by (auto simp: run_with_period_def cdiv_def cmod_def)
  then obtain b where b: "run_with_period 5000 ?s = Some b" by blast
  have "serverCron mal s = Some (1000 div ?h + 1, ?s')"
    using b k(1,2) d(1,4) assms(3) by (simp add: serverCron_def Let_def)
  moreover have "table ?s' = t" using k(2) by simp
  ultimately show ?thesis using ok' rep d(2,3) k(6,7) by (intro exI [of _ "1000 div ?h + 1"] exI [of _ ?s'] exI [of _ ?k]) simp
qed

lemma serverCron_ok:
  assumes "malloc_ok mal" and "cron_ok s"
  shows "\<exists>r s'. serverCron mal s = Some (r, s') \<and> cron_ok s' \<and> 1 \<le> r \<and> r \<le> 501"
proof (cases "pause_cron s")
  case True
  have "cron_ok (s\<lparr>hz := config_hz s + 1\<rparr>)" using assms(2) by (simp add: cron_ok_def clients_rep_def)
  then show ?thesis using True cron_delay [OF assms(2)] by (simp add: serverCron_def Let_def)
next
  case False
  obtain xs where "clients_rep s xs" "length xs < 2 ^ 31" using assms(2) by (auto simp: cron_ok_def)
  from serverCron_step [OF assms False this] show ?thesis by force
qed

end
