(* ===== verification/Server_Loop.thy ===== *)
theory Server_Loop
  imports Cron Reply
begin

unbundle bit_operations_syntax


subsection \<open>The event loop of the server\<close>

text \<open>
  The event loop with the callbacks of the server: \<open>serverCron\<close> behind its time event, and \<open>beforeSleep\<close> as far as it acts on the loop. The kernel is
  a map of watched descriptors and a list of descriptors that are ready; the clock advances by a microsecond when it is read, and stays at its
  maximum. Handlers of descriptors are recorded.
\<close>

datatype proc = ServerCron | BeforeSleep | AfterSleep | Handler nat

record world =
  state :: cron
  clk :: u64
  timer_log :: "int list"
  file_log :: "(proc \<times> int) list"
  watching :: "int \<Rightarrow> int \<Rightarrow> u32 option"
  ready :: "(u32 \<times> int) list"

definition tick :: "world \<Rightarrow> u64 \<times> world" where
  "tick w = (let c = (if clk w = -1 then clk w else clk w + 1) in (c, w\<lparr>clk := c\<rparr>))"

definition kernel_ctl :: "world \<Rightarrow> int \<Rightarrow> epoll_op \<Rightarrow> int \<Rightarrow> u32 \<Rightarrow> int \<times> world" where
  "kernel_ctl w ep op fd ev =
     (if (watching w ep fd = None) = (op = EPOLL_CTL_ADD)
      then (0, w\<lparr>watching := (watching w)(ep := (watching w ep)(fd := if op = EPOLL_CTL_DEL then None else Some ev))\<rparr>)
      else (-1, w))"

definition kernel_wait :: "world \<Rightarrow> int \<Rightarrow> int \<Rightarrow> int \<Rightarrow> poll_result \<times> world" where
  "kernel_wait w ep maxevents timeout = (Events (take (nat maxevents) (filter (\<lambda>(ev, fd). 0 \<le> fd \<and> fd < maxevents) (ready w))), w)"

definition server_env :: "malloc \<Rightarrow> (proc, nat, world) env" where
  "server_env mal = \<lparr>
     epoll_create = (\<lambda>w. (3, w)),
     epoll_ctl = kernel_ctl,
     epoll_wait = kernel_wait,
     getMonotonicUs = tick,
     new_timer = (\<lambda>h. find (\<lambda>a. h a = None) [0..<1024]),
     call_file = (\<lambda>p el fd d m w. Some (el, w\<lparr>file_log := file_log w @ [(p, fd)]\<rparr>)),
     call_time = (\<lambda>p el i d w. case p of
         ServerCron \<Rightarrow> map_option (\<lambda>(r, s). (r, el, w\<lparr>state := s, timer_log := timer_log w @ [i]\<rparr>)) (serverCron mal (state w))
       | _ \<Rightarrow> Some (AE_NOMORE, el, w\<lparr>timer_log := timer_log w @ [i]\<rparr>)),
     call_finalizer = (\<lambda>p el d w. Some (el, w)),
     call_sleep = (\<lambda>p el w. Some (if p = BeforeSleep then aeSetDontWait el False else el, w))\<rparr>"

definition world_ok :: "world \<Rightarrow> bool" where "world_ok w \<longleftrightarrow> cron_ok (state w)"

lemma tick_later: "tick w = (now, w') \<Longrightarrow> clk w \<le> now \<and> clk w' = now \<and> w' = w\<lparr>clk := now\<rparr>"
  using inc_less_eq_triv_imp [of "clk w"] linear [of "clk w" "clk w + 1"] by (auto simp: tick_def Let_def split: if_splits)

interpretation server_kernel: epoll "server_env mal" watching for mal
  by unfold_locales (auto simp: server_env_def kernel_ctl_def split: if_splits)

lemma server_call_time:
  assumes "malloc_ok mal" and "world_ok w"
  shows "\<exists>r w'. call_time (server_env mal) p el i d w = Some (r, el, w') \<and> timer_log w' = timer_log w @ [i] \<and> clk w' = clk w \<and>
     world_ok w' \<and> int32 (r * 1000) \<noteq> None"
proof (cases p)
  case ServerCron
  obtain r s where s: "serverCron mal (state w) = Some (r, s)" "cron_ok s" "1 \<le> r" "r \<le> 501"
    using serverCron_ok [OF assms(1) assms(2) [unfolded world_ok_def]] by blast
  then have "int32 (r * 1000) \<noteq> None" by (simp add: int32_def)
  then show ?thesis using ServerCron s(1,2) by (simp add: server_env_def world_ok_def)
qed (use assms(2) in \<open>simp_all add: server_env_def world_ok_def AE_NOMORE_def int32_def\<close>)

lemma server_event_loop:
  assumes "malloc_ok mal"
  shows "event_loop (server_env mal) clk timer_log file_log world_ok"
proof
  show "addr_ok (new_timer (server_env mal))"
    by (auto simp: addr_ok_def server_env_def dest: find_SomeD)
next
  fix w w' :: world and now
  assume "world_ok w" "getMonotonicUs (server_env mal) w = (now, w')"
  then show "clk w \<le> now \<and> clk w' = now \<and> timer_log w' = timer_log w \<and> world_ok w'"
    using tick_later [of w now w'] by (auto simp: server_env_def world_ok_def)
next
  fix w el as p i d
  assume "world_ok w"
  then show "\<exists>r el' w'. call_time (server_env mal) p el i d w = Some (r, el', w') \<and> uses (server_env mal) el el' \<and>
      timer_log w' = timer_log w @ [i] \<and> clk w \<le> clk w' \<and> world_ok w' \<and> int32 (r * 1000) \<noteq> None"
    using server_call_time [OF assms, of w p el i d] uses_refl by fastforce
next
  fix w a el as p d
  assume "world_ok w"
  then show "\<exists>el' w'. call_finalizer (server_env mal) p el d w = Some (el', w') \<and> uses (server_env mal) el el' \<and>
      timer_log w' = timer_log w \<and> clk w \<le> clk w' \<and> world_ok w'"
    by (simp add: server_env_def uses_refl)
next
  fix w el p fd d m
  assume "world_ok w"
  then show "\<exists>el' w'. call_file (server_env mal) p el fd d m w = Some (el', w') \<and> uses (server_env mal) el el' \<and>
      file_log w' = file_log w @ [(p, fd)] \<and> world_ok w'"
    by (simp add: server_env_def world_ok_def uses_refl)
next
  fix w el p
  assume "world_ok w"
  then show "\<exists>el' w'. call_sleep (server_env mal) p el w = Some (el', w') \<and> uses (server_env mal) el el' \<and> world_ok w'"
    by (cases "p = BeforeSleep") (simp_all add: server_env_def uses_refl uses_dont_wait)
next
  fix w el t r w'
  assume "world_ok w" "loop_inv el" "epoll_wait (server_env mal) w (epfd el) (setsize el) t = (r, w')"
  moreover from this(2) have "setsize el = int (length (events el))" by (simp add: loop_inv_def file_inv_def)
  ultimately show "world_ok w' \<and> (case r of Events evs \<Rightarrow> length evs \<le> length (events el) \<and> (\<forall>(ev, fd) \<in> set evs. 0 \<le> fd \<and> nat fd < length (events el))
      | Interrupted \<Rightarrow> True | Failed \<Rightarrow> False)"
    by (fastforce simp: server_env_def kernel_wait_def nat_less_iff dest!: in_set_takeD)
qed

interpretation server_loop: event_loop "server_env demo_malloc" clk timer_log file_log world_ok
  by (rule server_event_loop [OF demo_malloc_ok])


subsection \<open>A small server\<close>

definition demo_cron :: cron where
  "demo_cron = \<lparr>hz = 10, config_hz = 10, pause_cron = False, cronloops = 0, verbose = True, sentinel_mode = False, cron_server = demo_server,
     cmem = \<lparr>nodes = (\<lambda>_. None)(4 \<mapsto> \<lparr>prev = None, nxt = None, nvalue = 7\<rparr>), freed = []\<rparr>,
     clients = \<lparr>head = Some 4, tail = Some 4, dup = None, free = False, match = None, llen = 1\<rparr>,
     table = (\<lambda>_. None)(7 \<mapsto> demo_client), ClientsPeakMemInput = replicate 8 3, ClientsPeakMemOutput = replicate 8 3\<rparr>"

definition demo_world :: world where
  "demo_world = \<lparr>state = demo_cron, clk = 10, timer_log = [], file_log = [], watching = (\<lambda>_ _. None), ready = [(5, 1)]\<rparr>"

text \<open>A loop for two descriptors: the second is registered for both directions, and \<open>serverCron\<close> is due.\<close>

definition demo_loop :: "u32 \<Rightarrow> (proc, nat) aeEventLoop" where
  "demo_loop m = \<lparr>maxfd = 1, setsize = 2, timeEventNextId = 1,
     events = [\<lparr>mask = AE_NONE, rfileProc = None, wfileProc = None, clientData = None\<rparr>,
       \<lparr>mask = m, rfileProc = Some (Handler 1), wfileProc = Some (Handler 2), clientData = None\<rparr>],
     fired = replicate 2 \<lparr>fired_fd = 0, fired_mask = 0\<rparr>,
     timers = (\<lambda>_. None)(0 \<mapsto> \<lparr>te_id = 0, te_when = 5, timeProc = ServerCron, finalizerProc = None, te_clientData = None,
       te_prev = None, te_next = None, refcount = 0\<rparr>),
     timeEventHead = Some 0, stop = False, epfd = 3, beforesleep = Some BeforeSleep, aftersleep = None, flags = 0\<rparr>"

lemma demo_client_kept: "client_ok demo_client"
  by (simp add: client_ok_def demo_client_def sds_ok_def sds_wf_def sdsalloc_def sds_types len_bits_def)

lemma demo_clients: "clients_rep demo_cron [7]"
  using demo_client_kept by (auto simp: clients_rep_def lrep_def list_inv_def demo_cron_def intro!: exI [of _ "[4]"])

lemma demo_world_ok: "world_ok demo_world" "cron_ok demo_cron"
proof -
  show "cron_ok demo_cron"
    using demo_clients by (auto simp: cron_ok_def demo_cron_def demo_server_def)
  then show "world_ok demo_world" by (simp add: world_ok_def demo_world_def)
qed

lemma demo_loop_inv: "timer_inv {} (demo_loop m) [0]" "m \<noteq> AE_NONE \<Longrightarrow> loop_inv (demo_loop m)"
proof -
  show t: "timer_inv {} (demo_loop m) [0]" by (auto simp: timer_inv_def demo_loop_def)
  assume m: "m \<noteq> AE_NONE"
  have "registered (demo_loop m) fd \<longleftrightarrow> fd = 1" for fd
  proof -
    have "nat fd < 2 \<and> 0 \<le> fd \<longleftrightarrow> fd = 0 \<or> fd = 1" by auto
    then show ?thesis using m by (auto simp: registered_def demo_loop_def)
  qed
  then have "file_inv (demo_loop m)" by (simp add: file_inv_def) (simp add: demo_loop_def handlers_set_def AE_NONE_def)
  then show "loop_inv (demo_loop m)" using t by (auto simp: loop_inv_def)
qed

subsection \<open>Properties of the event loop\<close>





text \<open>
  C11. The kernel watches exactly what is registered. Registering and removing a file event keep the invariant of the loop (\<open>maxfd\<close> is the
  highest registered descriptor, the handlers a mask asks for are set) and the agreement with the interest list of epoll, whether the
  kernel accepts a new descriptor or not; removing the writable direction removes the barrier.
\<close>

theorem file_events_watched:
  assumes "epoll e watched" and "file_inv el" and "agree watched el w" and "0 \<le> fd" and "m \<noteq> AE_NONE"
  shows "(\<exists>r el' w'. aeCreateFileEvent e w el fd m p d = Some (r, el', w') \<and> file_inv el' \<and> agree watched el' w' \<and>
       (r = AE_ERR \<and> el' = el \<or>
        r = AE_OK \<and> fd < setsize el \<and> events el' = (events el)[nat fd := set_handlers (events el ! nat fd) m p d])) \<and>
     (\<exists>el' w' m'. aeDeleteFileEvent e w el fd m = Some (el', w') \<and> file_inv el' \<and> agree watched el' w' \<and>
       m' = (if m AND AE_WRITABLE \<noteq> 0 then m OR AE_BARRIER else m) \<and>
       (fd < setsize el \<longrightarrow> events el' = (events el)[nat fd := (events el ! nat fd)\<lparr>mask := mask (events el ! nat fd) AND NOT m'\<rparr>]))"
  using epoll.create_agrees [OF assms] epoll.delete_agrees [OF assms(1-4)] by blast

theorem file_events_watched_witness:
  "\<exists>el' w'. aeDeleteFileEvent (server_env demo_malloc) (demo_world\<lparr>watching := (\<lambda>_ _. None)(3 := [1 \<mapsto> 5])\<rparr>) (demo_loop 7) 1 2 = Some (el', w') \<and>
     file_inv el' \<and> agree watching el' w' \<and> mask (events el' ! 1) = 1"
proof -
  let ?w = "demo_world\<lparr>watching := (\<lambda>_ _. None)(3 := [1 \<mapsto> 5])\<rparr>"
  have "agree watching (demo_loop 7) ?w"
    by (auto simp: agree_def demo_loop_def interest_def epoll_events_def less_Suc_eq AE_NONE_def AE_READABLE_def AE_WRITABLE_def epoll_flags)
  moreover have "file_inv (demo_loop 7)" using demo_loop_inv(2) [of 7] by (simp add: loop_inv_def AE_NONE_def)
  ultimately have "\<exists>el' w' m'. aeDeleteFileEvent (server_env demo_malloc) ?w (demo_loop 7) 1 2 = Some (el', w') \<and> file_inv el' \<and> agree watching el' w' \<and>
       m' = (if (2 :: u32) AND AE_WRITABLE \<noteq> 0 then 2 OR AE_BARRIER else 2) \<and>
       (1 < setsize (demo_loop 7) \<longrightarrow> events el' = (events (demo_loop 7))[nat 1 := (events (demo_loop 7) ! nat 1)\<lparr>mask := mask (events (demo_loop 7) ! nat 1) AND NOT m'\<rparr>])"
    using file_events_watched [OF server_kernel.epoll_axioms, of "demo_loop 7" ?w 1 2 demo_malloc] by (simp add: AE_NONE_def)
  then show ?thesis by (auto simp: demo_loop_def AE_WRITABLE_def AE_BARRIER_def)
qed

text \<open>
  C36. The timeout a round of the loop gives to \<open>epoll_wait\<close>. Without time events it waits for ever; with an event that is due it does
  not wait; otherwise it waits until the earliest time event, to the millisecond rounded up: it neither wakes before the
  event is due nor sleeps a millisecond longer than needed (for events less than \<open>2 * 10 ^ 12\<close> microseconds ahead, beyond which the conversion to \<open>int\<close>
  wraps). When it was asked not to wait it does not.
\<close>

theorem timeout_reaches_earliest:
  assumes "timer_inv {} el as" and "getMonotonicUs e w = (now, w')"
    and "as \<noteq> [] \<longrightarrow> uint (earliest_when el as) - uint now < 2000000000000"
  shows "\<exists>tvp v. timeout_for e w el fl = Some (tvp, v) \<and>
     (waits el fl \<longrightarrow>
        (if as = [] then timeout_ms tvp = -1
         else if earliest_when el as \<le> now then timeout_ms tvp = 0
         else let us = uint (earliest_when el as) - uint now in us \<le> timeout_ms tvp * 1000 \<and> timeout_ms tvp * 1000 < us + 1000)) \<and>
     (flags el AND AE_DONT_WAIT \<noteq> 0 \<or> fl AND AE_DONT_WAIT \<noteq> 0 \<longrightarrow> timeout_ms tvp = 0)"
proof (cases "waits el fl")
  case False
  obtain us v where "(if fl AND AE_TIME_EVENTS \<noteq> 0 \<and> fl AND AE_DONT_WAIT = 0 then usUntilEarliestTimer e w el else Some (-1, w)) = Some (us, v)"
    "fl AND AE_DONT_WAIT \<noteq> 0 \<longrightarrow> us = -1"
  proof (cases "fl AND AE_TIME_EVENTS \<noteq> 0 \<and> fl AND AE_DONT_WAIT = 0")
    case True
    then show ?thesis using usUntilEarliestTimer_value [OF assms(1,2)] that by (cases "as = []") simp_all
  next
    case False
    then show ?thesis using that by auto
  qed
  then show ?thesis using False by (auto simp: timeout_for_def timeout_ms_def)
next
  case True
  then have f: "fl AND AE_TIME_EVENTS \<noteq> 0" "fl AND AE_DONT_WAIT = 0" "flags el AND AE_DONT_WAIT = 0" by (simp_all add: waits_def)
  show ?thesis
  proof (cases "as = []")
    case True
    then show ?thesis using f usUntilEarliestTimer_value [OF assms(1,2)] by (simp add: timeout_for_def timeout_ms_def)
  next
    case False
    define us where "us = (if earliest_when el as \<le> now then 0 else uint (earliest_when el as) - uint now)"
    have u: "usUntilEarliestTimer e w el = Some (us, w')"
      using usUntilEarliestTimer_value [OF assms(1,2)] False assms(3) sint_until [of now "earliest_when el as"]
      by (cases "earliest_when el as \<le> now") (simp_all add: us_def)
    have b: "0 \<le> us" "us < 2000000000000" using assms(3) False by (auto simp: us_def word_le_def)
    then have "timeout_for e w el fl = Some (Some (us div 1000000, us mod 1000000), w')" using u f by (simp add: timeout_for_def)
    moreover have "us \<le> (us + 999) div 1000 * 1000" "(us + 999) div 1000 * 1000 < us + 1000"
      using div_mult_mod_eq [of "us + 999" 1000] pos_mod_bound [of 1000 "us + 999"] pos_mod_sign [of 1000 "us + 999"] by linarith+
    ultimately show ?thesis using False f timeout_ms_value [OF b] by (auto simp: us_def Let_def)
  qed
qed

theorem timeout_reaches_earliest_witness:
  "\<exists>tvp v. timeout_for (server_env demo_malloc) (demo_world\<lparr>clk := 1\<rparr>) (demo_loop 3) AE_TIME_EVENTS = Some (tvp, v) \<and>
     3 \<le> timeout_ms tvp * 1000 \<and> timeout_ms tvp * 1000 < 1003"
proof -
  have e: "earliest_when (demo_loop 3) [0] = 5" by (simp add: earliest_when_def demo_loop_def)
  have g: "getMonotonicUs (server_env demo_malloc) (demo_world\<lparr>clk := 1\<rparr>) = (2, demo_world\<lparr>clk := 2\<rparr>)"
    by (simp add: server_env_def tick_def)
  have w: "waits (demo_loop 3) AE_TIME_EVENTS" by (simp add: waits_def demo_loop_def AE_TIME_EVENTS_def AE_DONT_WAIT_def)
  have "[0::addr] \<noteq> [] \<longrightarrow> uint (earliest_when (demo_loop 3) [0]) - uint (2 :: u64) < 2000000000000" by (simp add: e)
  from timeout_reaches_earliest [OF demo_loop_inv(1) g this, of AE_TIME_EVENTS] w e show ?thesis by (auto simp: Let_def)
qed

text \<open>The main loop for at most \<open>n\<close> rounds.\<close>

fun main_rounds :: "('p, 'd, 'w) env \<Rightarrow> nat \<Rightarrow> 'w \<Rightarrow> ('p, 'd) aeEventLoop \<Rightarrow> (('p, 'd) aeEventLoop \<times> 'w) option" where
  "main_rounds e 0 w el = Some (el, w)"
| "main_rounds e (Suc n) w el =
     (if stop el then Some (el, w)
      else Option.bind (aeProcessEvents e w el (AE_ALL_EVENTS OR AE_CALL_BEFORE_SLEEP OR AE_CALL_AFTER_SLEEP))
        (\<lambda>(_, el, w). main_rounds e n w el))"

lemma main_loop_rounds: "main_rounds e n w el = Some (el', w') \<Longrightarrow> stop el' \<Longrightarrow> main_loop e w el = Some (el', w')"
proof (induction n arbitrary: w el)
  case 0 then show ?case by (subst main_loop.simps) simp
next
  case (Suc n)
  then show ?case by (subst main_loop.simps) (auto simp: fault_simps split: if_splits)
qed

lemma main_rounds_ok:
  assumes "event_loop e time calls fcalls sound"
  shows "loop_inv el \<Longrightarrow> sound w \<Longrightarrow> \<exists>el' w'. main_rounds e n w el = Some (el', w') \<and> loop_inv el' \<and> sound w'"
proof (induction n arbitrary: w el)
  case 0 then show ?case by simp
next
  case (Suc n)
  obtain k el1 w1 where "aeProcessEvents e w el (AE_ALL_EVENTS OR AE_CALL_BEFORE_SLEEP OR AE_CALL_AFTER_SLEEP) = Some (k, el1, w1)" "loop_inv el1" "sound w1"
    using event_loop.aeProcessEvents_ok [OF assms Suc.prems] by blast
  then show ?case using Suc by simp
qed



subsection \<open>The cron\<close>

text \<open>
  C37. One run of \<open>serverCron\<close>. It returns the delay to its next run, between 2 and 501 milliseconds, and has maintained the clients at the end of
  the list, as many as it takes to see all of them in a second and at least five, each once; those clients are now at the front. No byte of a query buffer
  is lost, an idle client keeps at most 4096 bytes of free space, and every other client is untouched.
\<close>

theorem serverCron_maintains:
  assumes "malloc_ok mal" and "cron_ok s" and "\<not> pause_cron s" and "clients_rep s xs" and "length xs < 2 ^ 31"
  shows "\<exists>r s' k. serverCron mal s = Some (r, s') \<and> cron_ok s' \<and> 2 \<le> r \<and> r \<le> 501 \<and> k = cron_share (length xs) (config_hz s + 1) \<and>
     clients_rep s' (drop (length xs - k) xs @ take (length xs - k) xs) \<and>
     (\<forall>x \<in> set (drop (length xs - k) xs). \<exists>c c'. table s x = Some c \<and> table s' x = Some c' \<and> maintained (cron_server s) c c') \<and>
     (\<forall>x. x \<notin> set (drop (length xs - k) xs) \<longrightarrow> table s' x = table s x)"
  using serverCron_step [OF assms] by blast

theorem serverCron_maintains_witness:
  "\<exists>r s'. serverCron demo_malloc demo_cron = Some (r, s') \<and> cron_ok s' \<and> 2 \<le> r \<and>
     clients_rep s' [7] \<and> (\<exists>c'. table s' 7 = Some c' \<and> maintained demo_server demo_client c')"
proof -
  have p: "\<not> pause_cron demo_cron" "length [7::nat] < 2 ^ 31" "cron_share (length [7::nat]) (config_hz demo_cron + 1) = 1"
    "cron_server demo_cron = demo_server" "table demo_cron 7 = Some demo_client"
    by (simp_all add: demo_cron_def cron_share_def)
  show ?thesis using serverCron_maintains [OF demo_malloc_ok demo_world_ok(2) p(1) demo_clients p(2)] unfolding p(3,4) by (auto simp: p(5))
qed

end
