(* ===== verification/Rax.thy ===== *)
theory Rax
  imports Prelude
begin

text \<open>
  The radix tree of \<open>myRedis/src/rax.c\<close> and \<open>rax.h\<close>: lookup, insertion, removal and release.

  Nodes live in a store, address to node. A node is the header bits, the characters on its edges (\<open>size\<close> is their number), the child
  pointers behind them, the value pointer at its end, and the number of bytes of its block. The sections of the variable part of a node are lists; every store checks that the
  node, laid out with its padding, fits its block. A child slot that was never written is \<open>None\<close>. Pointers to child slots
  (\<open>raxNode **\<close>) are values of \<open>rlink\<close>: the head of the tree or a slot of a node.

  \<open>rax_malloc.h\<close> is not in the repository, so the allocator is a parameter: \<open>rax_malloc\<close> and \<open>rax_realloc\<close> answer \<open>NULL\<close> or an address, and
  \<open>rax_room\<close> says whether a block outside the tree (for its header, the stack of parents, or the key of an iterator) is to be had. Branches for exhausted memory are modelled. \<open>None\<close> is a fault: a null or freed node, a slot
  out of bounds, a node that does not fit its block, a failed assertion.

  A value is a \<open>void *\<close>, \<open>None\<close> for \<open>NULL\<close>. Counters are 64-bit words.
\<close>

subsection \<open>Data\<close>

definition RAX_NODE_MAX_SIZE :: nat where "RAX_NODE_MAX_SIZE = 2 ^ 29 - 1"
definition RAX_STACK_STATIC_ITEMS :: nat where "RAX_STACK_STATIC_ITEMS = 32"

record 'd raxNode =
  iskey :: bool
  isnull :: bool
  iscompr :: bool
  chars :: "byte list"
  kids :: "addr option list"
  nval :: "'d option"
  cap :: nat

type_synonym 'd rheap = "addr \<Rightarrow> 'd raxNode option"

record 'd rax =
  rheap :: "'d rheap"
  rhead :: addr
  numele :: u64
  numnodes :: u64

record raxStack =
  sitems :: "addr list"
  popped :: "addr list"
  maxitems :: nat
  on_heap :: bool
  soom :: bool

record 'd ralloc =
  rax_malloc :: "'d rheap \<Rightarrow> nat \<Rightarrow> addr option"
  rax_realloc :: "'d rheap \<Rightarrow> addr \<Rightarrow> nat \<Rightarrow> addr option"
  rax_room :: "nat \<Rightarrow> bool"

datatype rlink = HeadLink | Slot addr nat

text \<open>What the C library documents of the allocator: a new block is not one in use.\<close>

definition ralloc_ok :: "'d ralloc \<Rightarrow> bool" where
  "ralloc_ok al \<longleftrightarrow> (\<forall>m sz a. rax_malloc al m sz = Some a \<longrightarrow> m a = None) \<and>
     (\<forall>m p sz a. rax_realloc al m p sz = Some a \<longrightarrow> a = p \<or> m a = None)"

abbreviation rsize :: "'d raxNode \<Rightarrow> nat" where
  "rsize n \<equiv> length (chars n)"

subsection \<open>The stack of parents\<close>

text \<open>The items, the last pushed first; \<open>popped\<close> are those that were popped and are still in the array, behind the last item.\<close>

definition raxStackInit :: raxStack where
  "raxStackInit = \<lparr>sitems = [], popped = [], maxitems = RAX_STACK_STATIC_ITEMS, on_heap = False, soom = False\<rparr>"

definition raxStackPush :: "'d ralloc \<Rightarrow> raxStack \<Rightarrow> addr \<Rightarrow> (bool \<times> raxStack) option" where
  "raxStackPush al ts p =
     (if length (sitems ts) = maxitems ts \<and> \<not> rax_room al (8 * maxitems ts * 2) then Some (False, ts\<lparr>soom := True\<rparr>)
      else do {
        let ts = (if length (sitems ts) = maxitems ts then ts\<lparr>on_heap := True, maxitems := maxitems ts * 2\<rparr> else ts);
        ensure (length (sitems ts) < maxitems ts);
        Some (True, ts\<lparr>sitems := p # sitems ts, popped := drop 1 (popped ts)\<rparr>) })"

definition raxStackPop :: "raxStack \<Rightarrow> addr option \<times> raxStack" where
  "raxStackPop ts = (case sitems ts of [] \<Rightarrow> (None, ts) | p # ps \<Rightarrow> (Some p, ts\<lparr>sitems := ps, popped := p # popped ts\<rparr>))"

subsection \<open>Nodes\<close>

definition raxPadding :: "nat \<Rightarrow> nat" where
  "raxPadding nodesize = (8 - (nodesize + 4) mod 8) mod 8"

definition raxNodeCurrentLength :: "'d raxNode \<Rightarrow> nat" where
  "raxNodeCurrentLength n = 4 + rsize n + raxPadding (rsize n) + (if iscompr n then 8 else 8 * rsize n) +
     (if iskey n \<and> \<not> isnull n then 8 else 0)"

text \<open>Storing a node, releasing one, and the child pointer in a slot.\<close>

definition put_node :: "'d rheap \<Rightarrow> addr \<Rightarrow> 'd raxNode \<Rightarrow> 'd rheap option" where
  "put_node m a n = do { _ \<leftarrow> m a; ensure (raxNodeCurrentLength n \<le> cap n); Some (m(a \<mapsto> n)) }"

definition rax_free :: "'d rheap \<Rightarrow> addr \<Rightarrow> 'd rheap option" where
  "rax_free m a = do { _ \<leftarrow> m a; Some (m(a := None)) }"

definition child_at :: "'d raxNode \<Rightarrow> nat \<Rightarrow> addr option" where
  "child_at n j = do { p \<leftarrow> get_at (kids n) j; p }"

definition last_child :: "'d raxNode \<Rightarrow> addr option" where
  "last_child n = (if kids n = [] then None else last (kids n))"

definition set_link :: "'d rax \<Rightarrow> rlink \<Rightarrow> addr \<Rightarrow> 'd rax option" where
  "set_link rx l a = (case l of HeadLink \<Rightarrow> Some (rx\<lparr>rhead := a\<rparr>)
     | Slot p j \<Rightarrow> do { n \<leftarrow> rheap rx p; ks \<leftarrow> set_at (kids n) j (Some a); Some (rx\<lparr>rheap := (rheap rx)(p \<mapsto> n\<lparr>kids := ks\<rparr>)\<rparr>) })"

definition blank :: "nat \<Rightarrow> nat \<Rightarrow> 'd raxNode" where
  "blank children sz = \<lparr>iskey = False, isnull = False, iscompr = False, chars = replicate children 0, kids = replicate children None,
     nval = None, cap = sz\<rparr>"

definition rax_block :: "'d ralloc \<Rightarrow> 'd rheap \<Rightarrow> nat \<Rightarrow> nat \<Rightarrow> (addr \<times> 'd rheap) option" where
  "rax_block al m children sz = (case rax_malloc al m sz of None \<Rightarrow> None | Some a \<Rightarrow> Some (a, m(a \<mapsto> blank children sz)))"

definition raxNewNode :: "'d ralloc \<Rightarrow> 'd rheap \<Rightarrow> nat \<Rightarrow> bool \<Rightarrow> (addr \<times> 'd rheap) option" where
  "raxNewNode al m children datafield =
     rax_block al m children (4 + children + raxPadding children + 8 * children + (if datafield then 8 else 0))"

text \<open>Reallocating a node: a fault if the pointer is not a node, \<open>Some None\<close> if there is no memory. Shrinking below the length of the node would lose part of it.\<close>

definition resize_node :: "'d ralloc \<Rightarrow> 'd rheap \<Rightarrow> addr \<Rightarrow> nat \<Rightarrow> (addr \<times> 'd rheap) option option" where
  "resize_node al m p sz = do {
     n \<leftarrow> m p;
     ensure (raxNodeCurrentLength n \<le> sz);
     Some (case rax_realloc al m p sz of None \<Rightarrow> None | Some a \<Rightarrow> Some (a, (m(p := None))(a \<mapsto> n\<lparr>cap := sz\<rparr>))) }"

definition raxNew :: "'d ralloc \<Rightarrow> 'd rax option" where
  "raxNew al = (if \<not> rax_room al 24 then None
     else case raxNewNode al Map.empty 0 False of None \<Rightarrow> None
     | Some (a, m) \<Rightarrow> Some \<lparr>rheap = m, rhead = a, numele = 0, numnodes = 1\<rparr>)"

definition raxReallocForData :: "'d ralloc \<Rightarrow> 'd rheap \<Rightarrow> addr \<Rightarrow> 'd option \<Rightarrow> (addr \<times> 'd rheap) option option" where
  "raxReallocForData al m a data = (if data = None then Some (Some (a, m))
     else do { n \<leftarrow> m a; resize_node al m a (raxNodeCurrentLength n + 8) })"

definition raxSetData :: "'d raxNode \<Rightarrow> 'd option \<Rightarrow> 'd raxNode option" where
  "raxSetData n data =
     (if data \<noteq> None then do {
        let n = n\<lparr>iskey := True, isnull := False\<rparr>;
        ensure (raxNodeCurrentLength n \<le> cap n);
        Some (n\<lparr>nval := data\<rparr>) }
      else Some (n\<lparr>iskey := True, isnull := True\<rparr>))"

text \<open>The value of a node; reading the slot of a node that has none is a fault.\<close>

definition raxGetData :: "'d raxNode \<Rightarrow> 'd option option" where
  "raxGetData n = (if isnull n then Some None else if iskey n \<and> nval n \<noteq> None then Some (nval n) else None)"

text \<open>Adding the child for an edge, before the first edge that is greater. The result has the new place of the node, the child, and its position.\<close>

fun edge_pos :: "byte list \<Rightarrow> byte \<Rightarrow> nat" where
  "edge_pos [] c = 0"
| "edge_pos (x # xs) c = (if c < x then 0 else Suc (edge_pos xs c))"

definition insert_at :: "nat \<Rightarrow> 'a \<Rightarrow> 'a list \<Rightarrow> 'a list" where
  "insert_at i x xs = take i xs @ x # drop i xs"

definition raxAddChild :: "'d ralloc \<Rightarrow> 'd rheap \<Rightarrow> addr \<Rightarrow> byte \<Rightarrow> ((addr \<times> addr \<times> nat) \<times> 'd rheap) option option" where
  "raxAddChild al m a c = do {
     n \<leftarrow> m a;
     ensure (\<not> iscompr n);
     let newlen = raxNodeCurrentLength (n\<lparr>chars := 0 # chars n\<rparr>);
     case raxNewNode al m 0 False of None \<Rightarrow> Some None
     | Some (child, m1) \<Rightarrow> do {
         r \<leftarrow> resize_node al m1 a newlen;
         case r of None \<Rightarrow> do { _ \<leftarrow> rax_free m1 child; Some None }
         | Some (a, m) \<Rightarrow> do {
             n \<leftarrow> m a;
             let pos = edge_pos (chars n) c;
             m \<leftarrow> put_node m a (n\<lparr>chars := insert_at pos c (chars n), kids := insert_at pos (Some child) (kids n)\<rparr>);
             Some (Some ((a, child, pos), m)) } } }"

definition raxCompressNode :: "'d ralloc \<Rightarrow> 'd rheap \<Rightarrow> addr \<Rightarrow> byte list \<Rightarrow> ((addr \<times> addr) \<times> 'd rheap) option option" where
  "raxCompressNode al m a s = do {
     n \<leftarrow> m a;
     ensure (rsize n = 0 \<and> \<not> iscompr n);
     case raxNewNode al m 0 False of None \<Rightarrow> Some None
     | Some (child, m1) \<Rightarrow> do {
         data \<leftarrow> (if iskey n then raxGetData n else Some None);
         let newsize = 4 + length s + raxPadding (length s) + 8 + (if iskey n \<and> \<not> isnull n then 8 else 0);
         r \<leftarrow> resize_node al m1 a newsize;
         case r of None \<Rightarrow> do { _ \<leftarrow> rax_free m1 child; Some None }
         | Some (a, m) \<Rightarrow> do {
             n \<leftarrow> m a;
             let n = n\<lparr>iscompr := True, chars := s, kids := [Some child]\<rparr>;
             n \<leftarrow> (if iskey n then raxSetData n data else Some n);
             m \<leftarrow> put_node m a n;
             Some (Some ((a, child), m)) } } }"

subsection \<open>Walking\<close>

fun match_len :: "byte list \<Rightarrow> byte list \<Rightarrow> nat" where
  "match_len (v # vs) (s # ss) = (if v = s then Suc (match_len vs ss) else 0)"
| "match_len _ _ = 0"

fun find_edge :: "byte list \<Rightarrow> byte \<Rightarrow> nat" where
  "find_edge [] c = 0"
| "find_edge (x # xs) c = (if x = c then 0 else Suc (find_edge xs c))"

definition push_parent :: "'d ralloc \<Rightarrow> raxStack option \<Rightarrow> addr \<Rightarrow> raxStack option option" where
  "push_parent al ts h = (case ts of None \<Rightarrow> Some None | Some ts \<Rightarrow> do { (_, ts) \<leftarrow> raxStackPush al ts h; Some (Some ts) })"

text \<open>The result has the number of characters matched, the node where the walk stopped, the slot that holds it, and the position in a
  compressed node.\<close>

function low_walk :: "'d ralloc \<Rightarrow> 'd rheap \<Rightarrow> byte list \<Rightarrow> addr \<Rightarrow> rlink \<Rightarrow> nat \<Rightarrow> raxStack option
    \<Rightarrow> (nat \<times> addr \<times> rlink \<times> nat \<times> raxStack option) option" where
  "low_walk al m s h parentlink i ts = (case m h of None \<Rightarrow> None
     | Some n \<Rightarrow>
         if rsize n \<noteq> 0 \<and> i < length s then
           if iscompr n then
             let j = match_len (chars n) (drop i s) in
             if j \<noteq> rsize n then Some (i + j, h, parentlink, j, ts)
             else Option.bind (push_parent al ts h) (\<lambda>ts.
               Option.bind (child_at n 0) (\<lambda>c. low_walk al m s c (Slot h 0) (i + j) ts))
           else
             let j = find_edge (chars n) (s ! i) in
             if j = rsize n then Some (i, h, parentlink, 0, ts)
             else Option.bind (push_parent al ts h) (\<lambda>ts.
               Option.bind (child_at n j) (\<lambda>c. low_walk al m s c (Slot h j) (i + 1) ts))
         else Some (i, h, parentlink, 0, ts))"
  by pat_completeness auto
termination low_walk
  by (relation "measure (\<lambda>(al, m, s, h, l, i, ts). length s - i)") (auto simp flip: length_greater_0_conv intro: diff_less_mono2)

definition raxLowWalk :: "'d ralloc \<Rightarrow> 'd rax \<Rightarrow> byte list \<Rightarrow> raxStack option \<Rightarrow> (nat \<times> addr \<times> rlink \<times> nat \<times> raxStack option) option" where
  "raxLowWalk al rx s ts = low_walk al (rheap rx) s (rhead rx) HeadLink 0 ts"

text \<open>\<open>None\<close> inside is \<open>raxNotFound\<close>.\<close>

definition raxFind :: "'d ralloc \<Rightarrow> 'd rax \<Rightarrow> byte list \<Rightarrow> 'd option option option" where
  "raxFind al rx s = do {
     (i, h, _, splitpos, _) \<leftarrow> raxLowWalk al rx s None;
     n \<leftarrow> rheap rx h;
     if i \<noteq> length s \<or> (iscompr n \<and> splitpos \<noteq> 0) \<or> \<not> iskey n then Some None
     else do { d \<leftarrow> raxGetData n; Some (Some d) } }"

subsection \<open>Removal\<close>

fun find_child :: "addr option list \<Rightarrow> addr \<Rightarrow> nat option" where
  "find_child [] c = None"
| "find_child (k # ks) c = (case k of None \<Rightarrow> None | Some p \<Rightarrow> if p = c then Some 0 else do { i \<leftarrow> find_child ks c; Some (Suc i) })"

definition raxFindParentLink :: "'d rheap \<Rightarrow> addr \<Rightarrow> addr \<Rightarrow> rlink option" where
  "raxFindParentLink m parent child = do { n \<leftarrow> m parent; i \<leftarrow> find_child (kids n) child; Some (Slot parent i) }"

definition remove_at :: "nat \<Rightarrow> 'a list \<Rightarrow> 'a list" where
  "remove_at i xs = take i xs @ drop (Suc i) xs"

definition raxRemoveChild :: "'d ralloc \<Rightarrow> 'd rheap \<Rightarrow> addr \<Rightarrow> addr \<Rightarrow> (addr \<times> 'd rheap) option" where
  "raxRemoveChild al m parent child = do {
     n \<leftarrow> m parent;
     if iscompr n then do {
       data \<leftarrow> (if iskey n then raxGetData n else Some None);
       let n = n\<lparr>isnull := False, iscompr := False, chars := [], kids := []\<rparr>;
       n \<leftarrow> (if iskey n then raxSetData n data else Some n);
       m \<leftarrow> put_node m parent n;
       Some (parent, m) }
     else do {
       i \<leftarrow> find_child (kids n) child;
       let n = n\<lparr>chars := remove_at i (chars n), kids := remove_at i (kids n)\<rparr>;
       m \<leftarrow> put_node m parent n;
       r \<leftarrow> resize_node al m parent (raxNodeCurrentLength n);
       Some (case r of None \<Rightarrow> (parent, m) | Some am \<Rightarrow> am) } }"

text \<open>A node that ends a chain: it is a key, or it has not exactly one child.\<close>

definition ends_chain :: "'d raxNode \<Rightarrow> bool" where
  "ends_chain n \<longleftrightarrow> iskey n \<or> (\<not> iscompr n \<and> rsize n \<noteq> 1)"

fun free_chain :: "'d rax \<Rightarrow> addr \<Rightarrow> addr list \<Rightarrow> addr option \<Rightarrow> ('d rax \<times> addr \<times> addr list \<times> addr option) option" where
  "free_chain rx h ts child =
     (if h = rhead rx then Some (rx, h, ts, child)
      else do {
        m \<leftarrow> rax_free (rheap rx) h;
        let rx = rx\<lparr>rheap := m, numnodes := numnodes rx - 1\<rparr>;
        case ts of [] \<Rightarrow> None
        | p # ps \<Rightarrow> do {
            n \<leftarrow> rheap rx p;
            if ends_chain n then Some (rx, p, ps, Some h) else free_chain rx p ps (Some h) } })"

text \<open>Unlinking the last node freed from its parent. The result says whether to try to compress, and from which node.\<close>

definition unlink_child :: "'d ralloc \<Rightarrow> 'd rax \<Rightarrow> addr \<Rightarrow> addr list \<Rightarrow> addr \<Rightarrow> ('d rax \<times> addr \<times> bool) option" where
  "unlink_child al rx h ts child = do {
     (new, m) \<leftarrow> raxRemoveChild al (rheap rx) h child;
     let rx = rx\<lparr>rheap := m\<rparr>;
     rx \<leftarrow> (if new \<noteq> h then do {
              l \<leftarrow> (case ts of [] \<Rightarrow> Some HeadLink | parent # _ \<Rightarrow> raxFindParentLink (rheap rx) parent h);
              set_link rx l new }
            else Some rx);
     n \<leftarrow> rheap rx new;
     Some (if rsize n = 1 \<and> \<not> iskey n then (rx, new, True) else (rx, h, False)) }"

fun climb :: "'d rheap \<Rightarrow> addr \<Rightarrow> addr list \<Rightarrow> (addr \<times> addr option) option" where
  "climb m h [] = Some (h, None)"
| "climb m h (p # ps) = do { n \<leftarrow> m p; if ends_chain n then Some (h, Some p) else climb m p ps }"

partial_function (option) scan_chain :: "'d rheap \<Rightarrow> addr \<Rightarrow> nat \<Rightarrow> nat \<Rightarrow> (nat \<times> nat) option" where
  "scan_chain m h comprsize nds = Option.bind (m h) (\<lambda>n.
     if rsize n = 0 then Some (comprsize, nds)
     else Option.bind (last_child n) (\<lambda>c. Option.bind (m c) (\<lambda>k.
       if ends_chain k \<or> RAX_NODE_MAX_SIZE < comprsize + rsize k then Some (comprsize, nds)
       else scan_chain m c (comprsize + rsize k) (nds + 1))))"

definition copy_chars :: "byte list \<Rightarrow> nat \<Rightarrow> byte list \<Rightarrow> byte list option" where
  "copy_chars dst off src = do { ensure (off + length src \<le> length dst); Some (take off dst @ src @ drop (off + length src) dst) }"

partial_function (option) fill_chain :: "'d rax \<Rightarrow> addr \<Rightarrow> addr \<Rightarrow> nat \<Rightarrow> ('d rax \<times> addr) option" where
  "fill_chain rx new h off = Option.bind (rheap rx h) (\<lambda>n.
     if rsize n = 0 then Some (rx, h)
     else Option.bind (rheap rx new) (\<lambda>nn. Option.bind (copy_chars (chars nn) off (chars n)) (\<lambda>cs.
       Option.bind (last_child n) (\<lambda>c. Option.bind (rax_free ((rheap rx)(new \<mapsto> nn\<lparr>chars := cs\<rparr>)) h) (\<lambda>m.
         Option.bind (m c) (\<lambda>k.
           if ends_chain k then Some (rx\<lparr>rheap := m, numnodes := numnodes rx - 1\<rparr>, c)
           else fill_chain (rx\<lparr>rheap := m, numnodes := numnodes rx - 1\<rparr>) new c (off + rsize n)))))))"

definition recompress :: "'d ralloc \<Rightarrow> 'd rax \<Rightarrow> addr \<Rightarrow> addr list \<Rightarrow> 'd rax option" where
  "recompress al rx h ts = do {
     (start, parent) \<leftarrow> climb (rheap rx) h ts;
     n \<leftarrow> rheap rx start;
     (comprsize, nds) \<leftarrow> scan_chain (rheap rx) start (rsize n) 1;
     if nds \<le> 1 then Some rx
     else case rax_block al (rheap rx) 0 (4 + comprsize + raxPadding comprsize + 8) of None \<Rightarrow> Some rx
       | Some (new, m) \<Rightarrow> do {
           nn \<leftarrow> m new;
           m \<leftarrow> put_node m new (nn\<lparr>iskey := False, isnull := False, iscompr := True, chars := replicate comprsize 0, kids := [None]\<rparr>);
           (rx, h) \<leftarrow> fill_chain (rx\<lparr>rheap := m, numnodes := numnodes rx + 1\<rparr>) new start 0;
           rx \<leftarrow> set_link rx (Slot new 0) h;
           l \<leftarrow> (case parent of None \<Rightarrow> Some HeadLink | Some p \<Rightarrow> raxFindParentLink (rheap rx) p start);
           set_link rx l new } }"

definition raxRemove :: "'d ralloc \<Rightarrow> 'd rax \<Rightarrow> byte list \<Rightarrow> (bool \<times> 'd option option \<times> 'd rax) option" where
  "raxRemove al rx s = do {
     (i, h, _, splitpos, ts) \<leftarrow> raxLowWalk al rx s (Some raxStackInit);
     ts \<leftarrow> ts;
     n \<leftarrow> rheap rx h;
     if i \<noteq> length s \<or> (iscompr n \<and> splitpos \<noteq> 0) \<or> \<not> iskey n then Some (False, None, rx)
     else do {
       old \<leftarrow> raxGetData n;
       m \<leftarrow> put_node (rheap rx) h (n\<lparr>iskey := False\<rparr>);
       let rx = rx\<lparr>rheap := m, numele := numele rx - 1\<rparr>;
       (rx, h, stack, trycompress) \<leftarrow>
         (if rsize n = 0 then do {
            (rx, h, stack, child) \<leftarrow> free_chain rx h (sitems ts) None;
            case child of None \<Rightarrow> Some (rx, h, stack, False)
            | Some child \<Rightarrow> do { (rx, h, try) \<leftarrow> unlink_child al rx h stack child; Some (rx, h, stack, try) } }
          else Some (rx, h, sitems ts, rsize n = 1));
       rx \<leftarrow> (if trycompress \<and> \<not> soom ts then recompress al rx h stack else Some rx);
       Some (True, Some old, rx) } }"

subsection \<open>Insertion\<close>

text \<open>The results of an insertion: what it returns, what it stores through \<open>old\<close>, and whether \<open>errno\<close> is \<open>ENOMEM\<close>.\<close>

record 'd inserted =
  result :: bool
  old_data :: "'d option option"
  enomem :: bool

definition insert_oom :: "'d inserted" where
  "insert_oom = \<lparr>result = False, old_data = None, enomem = True\<rparr>"

definition insert_done :: "'d inserted" where
  "insert_done = \<lparr>result = True, old_data = None, enomem = False\<rparr>"

text \<open>The key has a node already.\<close>

definition insert_existing :: "'d ralloc \<Rightarrow> 'd rax \<Rightarrow> addr \<Rightarrow> rlink \<Rightarrow> 'd option \<Rightarrow> bool \<Rightarrow> ('d inserted \<times> 'd rax) option" where
  "insert_existing al rx h parentlink data overwrite = do {
     n \<leftarrow> rheap rx h;
     r \<leftarrow> (if \<not> iskey n \<or> (isnull n \<and> overwrite) then do {
             r \<leftarrow> raxReallocForData al (rheap rx) h data;
             case r of None \<Rightarrow> Some None
             | Some (h, m) \<Rightarrow> do { rx \<leftarrow> set_link (rx\<lparr>rheap := m\<rparr>) parentlink h; Some (Some (h, rx)) } }
           else Some (Some (h, rx)));
     case r of None \<Rightarrow> Some (insert_oom, rx)
     | Some (h, rx) \<Rightarrow> do {
         n \<leftarrow> rheap rx h;
         if iskey n then do {
           old \<leftarrow> raxGetData n;
           m \<leftarrow> (if overwrite then do { n \<leftarrow> raxSetData n data; put_node (rheap rx) h n } else Some (rheap rx));
           Some (\<lparr>result = False, old_data = Some old, enomem = False\<rparr>, rx\<lparr>rheap := m\<rparr>) }
         else do {
           n \<leftarrow> raxSetData n data;
           m \<leftarrow> put_node (rheap rx) h n;
           Some (insert_done, rx\<lparr>rheap := m, numele := numele rx + 1\<rparr>) } } }"

text \<open>A node with the first or the last characters of the compressed node that is split.\<close>

definition piece :: "nat \<Rightarrow> bool \<Rightarrow> bool \<Rightarrow> byte list \<Rightarrow> addr \<Rightarrow> 'd raxNode" where
  "piece sz key null cs child =
     \<lparr>iskey = key, isnull = null, iscompr = 1 < length cs, chars = cs, kids = [Some child], nval = None, cap = sz\<rparr>"

definition piece_size :: "nat \<Rightarrow> bool \<Rightarrow> nat" where
  "piece_size k hasval = 4 + k + raxPadding k + 8 + (if hasval then 8 else 0)"

text \<open>A block that is only wanted under a condition.\<close>

definition block_if :: "bool \<Rightarrow> 'd ralloc \<Rightarrow> 'd rheap \<Rightarrow> nat \<Rightarrow> (addr option \<times> 'd rheap) option" where
  "block_if b al m sz = (if b then (case rax_block al m 0 sz of None \<Rightarrow> None | Some (a, m) \<Rightarrow> Some (Some a, m)) else Some (None, m))"

text \<open>Algorithm 1, the walk stopped at a different character of a compressed node. \<open>Some None\<close> is exhausted memory; otherwise the
  result has the split node and the slot that holds it.\<close>

definition split_blocks :: "'d ralloc \<Rightarrow> 'd rheap \<Rightarrow> 'd raxNode \<Rightarrow> nat \<Rightarrow> ((addr \<times> addr option \<times> addr option) \<times> 'd rheap) option" where
  "split_blocks al m n j = do {
     let hasval = (iskey n \<and> \<not> isnull n);
     (splitnode, m) \<leftarrow> raxNewNode al m 1 (j = 0 \<and> hasval);
     (trimmed, m) \<leftarrow> block_if (j \<noteq> 0) al m (piece_size j hasval);
     (postfix, m) \<leftarrow> block_if (rsize n - j - 1 \<noteq> 0) al m (piece_size (rsize n - j - 1) False);
     Some ((splitnode, trimmed, postfix), m) }"

definition split_head :: "'d rax \<Rightarrow> 'd raxNode \<Rightarrow> nat \<Rightarrow> rlink \<Rightarrow> addr \<Rightarrow> addr option \<Rightarrow> ('d rax \<times> rlink) option" where
  "split_head rx n j parentlink splitnode trimmed =
     (case trimmed of None \<Rightarrow> do {
        m \<leftarrow> (if iskey n then do {
                ndata \<leftarrow> raxGetData n;
                sn \<leftarrow> rheap rx splitnode;
                sn \<leftarrow> raxSetData sn ndata;
                put_node (rheap rx) splitnode sn }
              else Some (rheap rx));
        rx \<leftarrow> set_link (rx\<lparr>rheap := m\<rparr>) parentlink splitnode;
        Some (rx, parentlink) }
      | Some trimmed \<Rightarrow> do {
          tn \<leftarrow> rheap rx trimmed;
          let tn = piece (cap tn) (iskey n) (isnull n) (take j (chars n)) splitnode;
          tn \<leftarrow> (if iskey n \<and> \<not> isnull n then do { ndata \<leftarrow> raxGetData n; raxSetData tn ndata } else Some tn);
          m \<leftarrow> put_node (rheap rx) trimmed tn;
          rx \<leftarrow> set_link (rx\<lparr>rheap := m, numnodes := numnodes rx + 1\<rparr>) parentlink trimmed;
          Some (rx, Slot trimmed 0) })"

definition split_tail :: "'d rax \<Rightarrow> 'd raxNode \<Rightarrow> nat \<Rightarrow> addr option \<Rightarrow> addr \<Rightarrow> ('d rax \<times> addr) option" where
  "split_tail rx n j postfix nxt = (case postfix of None \<Rightarrow> Some (rx, nxt)
     | Some postfix \<Rightarrow> do {
         pn \<leftarrow> rheap rx postfix;
         m \<leftarrow> put_node (rheap rx) postfix (piece (cap pn) False False (drop (j + 1) (chars n)) nxt);
         Some (rx\<lparr>rheap := m, numnodes := numnodes rx + 1\<rparr>, postfix) })"

definition insert_split :: "'d ralloc \<Rightarrow> 'd rax \<Rightarrow> addr \<Rightarrow> rlink \<Rightarrow> nat \<Rightarrow> ('d rax \<times> addr \<times> rlink) option option" where
  "insert_split al rx h parentlink j = do {
     n \<leftarrow> rheap rx h;
     nxt \<leftarrow> last_child n;
     c \<leftarrow> get_at (chars n) j;
     case split_blocks al (rheap rx) n j of None \<Rightarrow> Some None
     | Some ((splitnode, trimmed, postfix), m) \<Rightarrow> do {
         sn \<leftarrow> m splitnode;
         m \<leftarrow> put_node m splitnode (sn\<lparr>chars := [c]\<rparr>);
         (rx, parentlink) \<leftarrow> split_head (rx\<lparr>rheap := m\<rparr>) n j parentlink splitnode trimmed;
         (rx, postfix) \<leftarrow> split_tail rx n j postfix nxt;
         rx \<leftarrow> set_link rx (Slot splitnode 0) postfix;
         m \<leftarrow> rax_free (rheap rx) h;
         Some (Some (rx\<lparr>rheap := m\<rparr>, splitnode, parentlink)) } }"

text \<open>Algorithm 2, the key ends inside a compressed node.\<close>

definition insert_inside :: "'d ralloc \<Rightarrow> 'd rax \<Rightarrow> addr \<Rightarrow> rlink \<Rightarrow> nat \<Rightarrow> 'd option \<Rightarrow> ('d inserted \<times> 'd rax) option" where
  "insert_inside al rx h parentlink j data = do {
     n \<leftarrow> rheap rx h;
     let blocks = do {
       (postfix, m) \<leftarrow> rax_block al (rheap rx) 0 (piece_size (rsize n - j) (data \<noteq> None));
       (trimmed, m) \<leftarrow> rax_block al m 0 (piece_size j (iskey n \<and> \<not> isnull n));
       Some (postfix, trimmed, m) };
     case blocks of None \<Rightarrow> Some (insert_oom, rx)
     | Some (postfix, trimmed, m) \<Rightarrow> do {
         nxt \<leftarrow> last_child n;
         pn \<leftarrow> m postfix;
         pn \<leftarrow> raxSetData (piece (cap pn) False False (drop j (chars n)) nxt) data;
         m \<leftarrow> put_node m postfix pn;
         tn \<leftarrow> m trimmed;
         let tn = piece (cap tn) False False (take j (chars n)) postfix;
         tn \<leftarrow> (if iskey n then do { aux \<leftarrow> raxGetData n; raxSetData tn aux } else Some tn);
         rx \<leftarrow> set_link (rx\<lparr>rheap := m, numnodes := numnodes rx + 1\<rparr>) parentlink trimmed;
         m \<leftarrow> put_node (rheap rx) trimmed tn;
         m \<leftarrow> rax_free m h;
         Some (insert_done, rx\<lparr>rheap := m, numele := numele rx + 1\<rparr>) } }"

text \<open>What is left of the key after the walk. Running out of memory on the way removes the nodes that were added.\<close>

definition insert_undo :: "'d ralloc \<Rightarrow> 'd rax \<Rightarrow> byte list \<Rightarrow> nat \<Rightarrow> addr \<Rightarrow> ('d inserted \<times> 'd rax) option" where
  "insert_undo al rx s i h = do {
     n \<leftarrow> rheap rx h;
     if rsize n = 0 then do {
       m \<leftarrow> put_node (rheap rx) h (n\<lparr>isnull := True, iskey := True\<rparr>);
       (removed, _, rx) \<leftarrow> raxRemove al (rx\<lparr>rheap := m, numele := numele rx + 1\<rparr>) (take i s);
       ensure removed;
       Some (insert_oom, rx) }
     else Some (insert_oom, rx) }"

definition insert_leaf :: "'d ralloc \<Rightarrow> 'd rax \<Rightarrow> byte list \<Rightarrow> nat \<Rightarrow> addr \<Rightarrow> rlink \<Rightarrow> 'd option \<Rightarrow> ('d inserted \<times> 'd rax) option" where
  "insert_leaf al rx s i h parentlink data = do {
     r \<leftarrow> raxReallocForData al (rheap rx) h data;
     case r of None \<Rightarrow> insert_undo al rx s i h
     | Some (h, m) \<Rightarrow> do {
         n \<leftarrow> m h;
         let rx = (if \<not> iskey n then rx\<lparr>numele := numele rx + 1\<rparr> else rx);
         n \<leftarrow> raxSetData n data;
         m \<leftarrow> put_node m h n;
         rx \<leftarrow> set_link (rx\<lparr>rheap := m\<rparr>) parentlink h;
         Some (insert_done, rx) } }"

function insert_loop :: "'d ralloc \<Rightarrow> 'd rax \<Rightarrow> byte list \<Rightarrow> nat \<Rightarrow> addr \<Rightarrow> rlink \<Rightarrow> 'd option \<Rightarrow> ('d inserted \<times> 'd rax) option" where
  "insert_loop al rx s i h parentlink data =
     (if i < length s then
        Option.bind (rheap rx h) (\<lambda>n.
          if rsize n = 0 \<and> 1 < length s - i then
            let comprsize = min (length s - i) RAX_NODE_MAX_SIZE in
            Option.bind (raxCompressNode al (rheap rx) h (take comprsize (drop i s))) (\<lambda>r.
              case r of None \<Rightarrow> insert_undo al rx s i h
              | Some ((h, child), m) \<Rightarrow> Option.bind (set_link (rx\<lparr>rheap := m\<rparr>) parentlink h) (\<lambda>rx.
                  insert_loop al (rx\<lparr>numnodes := numnodes rx + 1\<rparr>) s (i + comprsize) child (Slot h 0) data))
          else
            Option.bind (raxAddChild al (rheap rx) h (s ! i)) (\<lambda>r.
              case r of None \<Rightarrow> insert_undo al rx s i h
              | Some ((h, child, pos), m) \<Rightarrow> Option.bind (set_link (rx\<lparr>rheap := m\<rparr>) parentlink h) (\<lambda>rx.
                  insert_loop al (rx\<lparr>numnodes := numnodes rx + 1\<rparr>) s (i + 1) child (Slot h pos) data)))
      else insert_leaf al rx s i h parentlink data)"
  by pat_completeness auto
termination insert_loop
  by (relation "measure (\<lambda>(al, rx, s, i, h, l, d). length s - i)") (auto simp: RAX_NODE_MAX_SIZE_def)

definition raxGenericInsert :: "'d ralloc \<Rightarrow> 'd rax \<Rightarrow> byte list \<Rightarrow> 'd option \<Rightarrow> bool \<Rightarrow> ('d inserted \<times> 'd rax) option" where
  "raxGenericInsert al rx s data overwrite = do {
     (i, h, parentlink, j, _) \<leftarrow> raxLowWalk al rx s None;
     n \<leftarrow> rheap rx h;
     if i = length s \<and> (\<not> iscompr n \<or> j = 0) then insert_existing al rx h parentlink data overwrite
     else if iscompr n \<and> i \<noteq> length s then do {
       r \<leftarrow> insert_split al rx h parentlink j;
       case r of None \<Rightarrow> Some (insert_oom, rx)
       | Some (rx, h, parentlink) \<Rightarrow> insert_loop al rx s i h parentlink data }
     else if iscompr n then insert_inside al rx h parentlink j data
     else insert_loop al rx s i h parentlink data }"

definition raxInsert :: "'d ralloc \<Rightarrow> 'd rax \<Rightarrow> byte list \<Rightarrow> 'd option \<Rightarrow> ('d inserted \<times> 'd rax) option" where
  "raxInsert al rx s data = raxGenericInsert al rx s data True"

definition raxTryInsert :: "'d ralloc \<Rightarrow> 'd rax \<Rightarrow> byte list \<Rightarrow> 'd option \<Rightarrow> ('d inserted \<times> 'd rax) option" where
  "raxTryInsert al rx s data = raxGenericInsert al rx s data False"

subsection \<open>Release\<close>

text \<open>The recursion is on a bound on the depth of the tree; the values passed to the callback are recorded, last first.\<close>

fun raxRecursiveFree :: "nat \<Rightarrow> 'd rax \<Rightarrow> bool \<Rightarrow> 'd list \<Rightarrow> addr \<Rightarrow> ('d rax \<times> 'd list) option"
  and free_children :: "nat \<Rightarrow> 'd rax \<Rightarrow> bool \<Rightarrow> 'd list \<Rightarrow> addr option list \<Rightarrow> ('d rax \<times> 'd list) option" where
  "raxRecursiveFree 0 rx cb log a = None"
| "raxRecursiveFree (Suc k) rx cb log a = do {
     n \<leftarrow> rheap rx a;
     (rx, log) \<leftarrow> free_children k rx cb log (rev (kids n));
     log \<leftarrow> (if cb \<and> iskey n \<and> \<not> isnull n then do { d \<leftarrow> raxGetData n; Some (case d of None \<Rightarrow> log | Some x \<Rightarrow> x # log) } else Some log);
     m \<leftarrow> rax_free (rheap rx) a;
     Some (rx\<lparr>rheap := m, numnodes := numnodes rx - 1\<rparr>, log) }"
| "free_children k rx cb log [] = Some (rx, log)"
| "free_children k rx cb log (p # ps) = do {
     a \<leftarrow> p;
     (rx, log) \<leftarrow> raxRecursiveFree k rx cb log a;
     free_children k rx cb log ps }"

text \<open>\<open>rax_free\<close> of the header is the end of the tree: what is left is the store, in which no node may be left.\<close>

definition raxFreeWithCallback :: "nat \<Rightarrow> 'd rax \<Rightarrow> bool \<Rightarrow> ('d rheap \<times> 'd list) option" where
  "raxFreeWithCallback k rx cb = do {
     (rx, log) \<leftarrow> raxRecursiveFree k rx cb [] (rhead rx);
     ensure (numnodes rx = 0);
     Some (rheap rx, log) }"

definition raxFree :: "nat \<Rightarrow> 'd rax \<Rightarrow> 'd rheap option" where
  "raxFree k rx = do { (m, _) \<leftarrow> raxFreeWithCallback k rx False; Some m }"

definition raxSize :: "'d rax \<Rightarrow> u64" where
  "raxSize rx = numele rx"

declare low_walk.simps [simp del] insert_loop.simps [simp del] free_chain.simps [simp del]

end
