(* ===== verification/Rax_Iter.thy ===== *)
theory Rax_Iter
  imports Rax
begin

text \<open>
  The iterator of the radix tree, \<open>myRedis/src/rax.c\<close>: seeking a position, and stepping to the next and to the previous key.

  The iterator keeps the current key in a buffer (a static one of 128 bytes until the key outgrows it), the current node and the stack of its parents. \<open>key_buf\<close> is the
  part of the buffer that was written, of which \<open>key_len\<close> bytes are the key. The two flags in use are booleans. The tree is an argument of the steps and part of their result, since a callback may
  move the nodes that a forward iteration enters. The steps return 0, here \<open>False\<close>, when memory is exhausted; \<open>errno\<close> is not modelled. The loops depend on the tree and are partial functions.

  The strings that name a relation are C strings, here without their terminator. The key to be sought is a value: the code also allows it to be the key buffer of the iterator itself.
\<close>

subsection \<open>Data\<close>

definition RAX_ITER_STATIC_LEN :: nat where "RAX_ITER_STATIC_LEN = 128"

record 'd raxIterator =
  it_eof :: bool
  just_seeked :: bool
  key_buf :: "byte list"
  key_len :: nat
  key_max :: nat
  key_on_heap :: bool
  it_data :: "'d option"
  it_node :: "addr option"
  it_stack :: raxStack
  node_cb :: "('d rheap \<Rightarrow> addr \<Rightarrow> 'd rheap \<times> addr option) option"

text \<open>\<open>None\<close> for the node is a pointer that is \<open>NULL\<close> or was not set.\<close>

definition raxStart :: "'d raxIterator" where
  "raxStart = \<lparr>it_eof = True, just_seeked = False, key_buf = [], key_len = 0, key_max = RAX_ITER_STATIC_LEN, key_on_heap = False,
     it_data = None, it_node = None, it_stack = raxStackInit, node_cb = None\<rparr>"

definition raxEOF :: "'d raxIterator \<Rightarrow> bool" where
  "raxEOF it = it_eof it"

subsection \<open>The key and the stack\<close>

definition raxIteratorAddChars :: "'d ralloc \<Rightarrow> 'd raxIterator \<Rightarrow> byte list \<Rightarrow> (bool \<times> 'd raxIterator) option" where
  "raxIteratorAddChars al it s =
     (if s = [] then Some (True, it)
      else let new_len = key_len it + length s in
        if key_max it < new_len \<and> \<not> rax_room al (new_len * 2) then Some (False, it)
        else do {
          let it = (if key_max it < new_len
                    then it\<lparr>key_buf := (if key_on_heap it then key_buf it else take (key_len it) (key_buf it)), key_max := new_len * 2, key_on_heap := True\<rparr>
                    else it);
          ensure (key_len it \<le> length (key_buf it) \<and> new_len \<le> key_max it);
          Some (True, it\<lparr>key_buf := take (key_len it) (key_buf it) @ s @ drop new_len (key_buf it), key_len := new_len\<rparr>) })"

definition raxIteratorDelChars :: "'d raxIterator \<Rightarrow> nat \<Rightarrow> 'd raxIterator option" where
  "raxIteratorDelChars it k = do { ensure (k \<le> key_len it); Some (it\<lparr>key_len := key_len it - k\<rparr>) }"

definition it_push :: "'d ralloc \<Rightarrow> 'd raxIterator \<Rightarrow> addr \<Rightarrow> (bool \<times> 'd raxIterator) option" where
  "it_push al it a = do { (ok, ts) \<leftarrow> raxStackPush al (it_stack it) a; Some (ok, it\<lparr>it_stack := ts\<rparr>) }"

text \<open>Assigning the number of items of a stack.\<close>

definition stack_items :: "raxStack \<Rightarrow> nat \<Rightarrow> raxStack" where
  "stack_items ts k = (let slots = rev (sitems ts) @ popped ts in ts\<lparr>sitems := rev (take k slots), popped := drop k slots\<rparr>)"

text \<open>The end of the iteration: the iterator is where it was when the step began.\<close>

definition iter_end :: "'d raxIterator \<Rightarrow> 'd raxIterator \<Rightarrow> 'd raxIterator" where
  "iter_end it orig = it\<lparr>it_eof := True, it_stack := stack_items (it_stack it) (length (sitems (it_stack orig))), key_len := key_len orig, it_node := it_node orig\<rparr>"

text \<open>Going up: the last character of the key, then the parent (unless the search starts at the node itself), then the key of that node.\<close>

definition last_char :: "'d raxIterator \<Rightarrow> byte option" where
  "last_char it = do { ensure (0 < key_len it); get_at (key_buf it) (key_len it - 1) }"

definition to_parent :: "'d rheap \<Rightarrow> 'd raxIterator \<Rightarrow> bool \<Rightarrow> (addr \<times> 'd raxNode \<times> 'd raxIterator) option" where
  "to_parent m it noup = do {
     let it = (if noup then it else (case raxStackPop (it_stack it) of (p, ts) \<Rightarrow> it\<lparr>it_node := p, it_stack := ts\<rparr>));
     a \<leftarrow> it_node it;
     n \<leftarrow> m a;
     it \<leftarrow> raxIteratorDelChars it (if iscompr n then rsize n else 1);
     Some (a, n, it) }"

subsection \<open>The next key\<close>

text \<open>Entering a child: the callback may move it, and if it is a key the step ends there.\<close>

definition enter_child :: "'d rax \<Rightarrow> 'd raxIterator \<Rightarrow> addr \<Rightarrow> nat \<Rightarrow> (bool \<times> 'd rax \<times> 'd raxIterator) option" where
  "enter_child rx it a i = do {
     n \<leftarrow> rheap rx a;
     c \<leftarrow> child_at n i;
     (rx, c) \<leftarrow> (case node_cb it of None \<Rightarrow> Some (rx, c)
       | Some cb \<Rightarrow> (case cb (rheap rx) c of (m, None) \<Rightarrow> Some (rx\<lparr>rheap := m\<rparr>, c)
           | (m, Some c) \<Rightarrow> do { rx \<leftarrow> set_link (rx\<lparr>rheap := m\<rparr>) (Slot a i) c; Some (rx, c) }));
     n \<leftarrow> rheap rx c;
     let it = it\<lparr>it_node := Some c\<rparr>;
     if iskey n then do { d \<leftarrow> raxGetData n; Some (True, rx, it\<lparr>it_data := d\<rparr>) } else Some (False, rx, it) }"

text \<open>The child \<open>i\<close> of a node that was reached from below.\<close>

definition enter_next :: "'d ralloc \<Rightarrow> 'd rax \<Rightarrow> 'd raxIterator \<Rightarrow> addr \<Rightarrow> 'd raxNode \<Rightarrow> nat \<Rightarrow> (bool option \<times> 'd rax \<times> 'd raxIterator) option" where
  "enter_next al rx it a n i = do {
     (_, it) \<leftarrow> raxIteratorAddChars al it [chars n ! i];
     (ok, it) \<leftarrow> it_push al it a;
     if \<not> ok then Some (Some False, rx, it)
     else do { (key, rx, it) \<leftarrow> enter_child rx it a i; Some (if key then Some True else None, rx, it) } }"

text \<open>Up to a node with a child behind the one just left. The result is what the step returns, or \<open>None\<close> if it goes on at the child.\<close>

partial_function (option) next_up :: "'d ralloc \<Rightarrow> 'd rax \<Rightarrow> 'd raxIterator \<Rightarrow> bool \<Rightarrow> 'd raxIterator \<Rightarrow> (bool option \<times> 'd rax \<times> 'd raxIterator) option" where
  [code]: "next_up al rx it noup orig =
     (if \<not> noup \<and> it_node it = Some (rhead rx) then Some (Some True, rx, iter_end it orig)
      else Option.bind (last_char it) (\<lambda>prevchild. Option.bind (to_parent (rheap rx) it noup) (\<lambda>(a, n, it).
        if \<not> iscompr n \<and> (if noup then 0 else 1) < rsize n \<and> edge_pos (chars n) prevchild \<noteq> rsize n then
          enter_next al rx it a n (edge_pos (chars n) prevchild)
        else next_up al rx it False orig)))"

partial_function (option) next_loop :: "'d ralloc \<Rightarrow> 'd rax \<Rightarrow> 'd raxIterator \<Rightarrow> bool \<Rightarrow> 'd raxIterator \<Rightarrow> (bool \<times> 'd rax \<times> 'd raxIterator) option" where
  [code]: "next_loop al rx it noup orig = Option.bind (it_node it) (\<lambda>a. Option.bind (rheap rx a) (\<lambda>n.
     if \<not> noup \<and> (if iscompr n then 1 else rsize n) \<noteq> 0 then
       Option.bind (it_push al it a) (\<lambda>(ok, it).
         if \<not> ok then Some (False, rx, it)
         else Option.bind (raxIteratorAddChars al it (if iscompr n then chars n else take 1 (chars n))) (\<lambda>(ok, it).
           if \<not> ok then Some (False, rx, it)
           else Option.bind (enter_child rx it a 0) (\<lambda>(key, rx, it).
             if key then Some (True, rx, it) else next_loop al rx it noup orig)))
     else Option.bind (next_up al rx it noup orig) (\<lambda>(r, rx, it).
       case r of Some ok \<Rightarrow> Some (ok, rx, it) | None \<Rightarrow> next_loop al rx it False orig)))"

definition raxIteratorNextStep :: "'d ralloc \<Rightarrow> 'd rax \<Rightarrow> 'd raxIterator \<Rightarrow> bool \<Rightarrow> (bool \<times> 'd rax \<times> 'd raxIterator) option" where
  "raxIteratorNextStep al rx it noup =
     (if it_eof it then Some (True, rx, it)
      else if just_seeked it then Some (True, rx, it\<lparr>just_seeked := False\<rparr>)
      else next_loop al rx it noup it)"

subsection \<open>The previous key\<close>

partial_function (option) raxSeekGreatest :: "'d ralloc \<Rightarrow> 'd rheap \<Rightarrow> 'd raxIterator \<Rightarrow> (bool \<times> 'd raxIterator) option" where
  [code]: "raxSeekGreatest al m it = Option.bind (it_node it) (\<lambda>a. Option.bind (m a) (\<lambda>n.
     if rsize n = 0 then Some (True, it)
     else Option.bind (raxIteratorAddChars al it (if iscompr n then chars n else [last (chars n)])) (\<lambda>(ok, it).
       if \<not> ok then Some (False, it)
       else Option.bind (it_push al it a) (\<lambda>(ok, it).
         if \<not> ok then Some (False, it)
         else Option.bind (last_child n) (\<lambda>c. raxSeekGreatest al m (it\<lparr>it_node := Some c\<rparr>))))))"

fun edge_before :: "byte list \<Rightarrow> byte \<Rightarrow> nat \<Rightarrow> nat option" where
  "edge_before cs c 0 = None"
| "edge_before cs c (Suc i) = (if cs ! i < c then Some i else edge_before cs c i)"

definition enter_greatest :: "'d ralloc \<Rightarrow> 'd rheap \<Rightarrow> 'd raxIterator \<Rightarrow> addr \<Rightarrow> 'd raxNode \<Rightarrow> nat \<Rightarrow> (bool \<times> 'd raxIterator) option" where
  "enter_greatest al m it a n i = do {
     (ok, it) \<leftarrow> raxIteratorAddChars al it [chars n ! i];
     if \<not> ok then Some (False, it)
     else do {
       (ok, it) \<leftarrow> it_push al it a;
       if \<not> ok then Some (False, it)
       else do { c \<leftarrow> child_at n i; raxSeekGreatest al m (it\<lparr>it_node := Some c\<rparr>) } } }"

partial_function (option) prev_loop :: "'d ralloc \<Rightarrow> 'd rax \<Rightarrow> 'd raxIterator \<Rightarrow> bool \<Rightarrow> 'd raxIterator \<Rightarrow> (bool \<times> 'd raxIterator) option" where
  [code]: "prev_loop al rx it noup orig =
     (if \<not> noup \<and> it_node it = Some (rhead rx) then Some (True, iter_end it orig)
      else Option.bind (last_char it) (\<lambda>prevchild. Option.bind (to_parent (rheap rx) it noup) (\<lambda>(a, n, it).
        Option.bind (case edge_before (chars n) prevchild (if \<not> iscompr n \<and> (if noup then 0 else 1) < rsize n then rsize n else 0) of
            None \<Rightarrow> Some (True, it) | Some i \<Rightarrow> enter_greatest al (rheap rx) it a n i) (\<lambda>(ok, it).
          if \<not> ok then Some (False, it)
          else Option.bind (it_node it) (\<lambda>b. Option.bind (rheap rx b) (\<lambda>k.
            if iskey k then Option.bind (raxGetData k) (\<lambda>d. Some (True, it\<lparr>it_data := d\<rparr>))
            else prev_loop al rx it False orig))))))"

definition raxIteratorPrevStep :: "'d ralloc \<Rightarrow> 'd rax \<Rightarrow> 'd raxIterator \<Rightarrow> bool \<Rightarrow> (bool \<times> 'd raxIterator) option" where
  "raxIteratorPrevStep al rx it noup =
     (if it_eof it then Some (True, it)
      else if just_seeked it then Some (True, it\<lparr>just_seeked := False\<rparr>)
      else prev_loop al rx it noup it)"


subsection \<open>Seeking\<close>

definition op_char :: "string \<Rightarrow> nat \<Rightarrow> char option" where
  "op_char op i = get_at (op @ [CHR 0x00]) i"

text \<open>A seek before or behind a key: the walk has stopped after \<open>i\<close> characters, at position \<open>splitpos\<close> of a compressed node. The three cases of the code, by what stopped the walk.\<close>

definition seek_mismatch :: "'d ralloc \<Rightarrow> 'd rax \<Rightarrow> 'd raxIterator \<Rightarrow> bool \<Rightarrow> bool \<Rightarrow> byte \<Rightarrow> (bool \<times> 'd rax \<times> 'd raxIterator) option" where
  "seek_mismatch al rx it lt gt c = do {
     (ok, it) \<leftarrow> raxIteratorAddChars al it [c];
     if \<not> ok then Some (False, rx, it)
     else do {
       let it = it\<lparr>just_seeked := False\<rparr>;
       (ok, it) \<leftarrow> (if lt then raxIteratorPrevStep al rx it True else Some (True, it));
       if \<not> ok then Some (False, rx, it)
       else do {
         (ok, rx, it) \<leftarrow> (if gt then raxIteratorNextStep al rx it True else Some (True, rx, it));
         Some (if ok then (True, rx, it\<lparr>just_seeked := True\<rparr>) else (False, rx, it)) } } }"

definition seek_compressed_gt :: "'d ralloc \<Rightarrow> 'd rax \<Rightarrow> 'd raxIterator \<Rightarrow> 'd raxNode \<Rightarrow> byte \<Rightarrow> byte \<Rightarrow> (bool \<times> 'd rax \<times> 'd raxIterator) option" where
  "seek_compressed_gt al rx it n nodechar keychar =
     (if keychar < nodechar then raxIteratorNextStep al rx it False
      else do {
        (ok, it) \<leftarrow> raxIteratorAddChars al it (chars n);
        if \<not> ok then Some (False, rx, it) else raxIteratorNextStep al rx it True })"

definition seek_compressed_lt :: "'d ralloc \<Rightarrow> 'd rax \<Rightarrow> 'd raxIterator \<Rightarrow> 'd raxNode \<Rightarrow> byte \<Rightarrow> byte \<Rightarrow> (bool \<times> 'd raxIterator) option" where
  "seek_compressed_lt al rx it n nodechar keychar =
     (if nodechar < keychar then do {
        (ok, it) \<leftarrow> raxSeekGreatest al (rheap rx) it;
        if \<not> ok then Some (False, it)
        else do { b \<leftarrow> it_node it; k \<leftarrow> rheap rx b; d \<leftarrow> raxGetData k; Some (True, it\<lparr>it_data := d\<rparr>) } }
      else do {
        (ok, it) \<leftarrow> raxIteratorAddChars al it (chars n);
        if \<not> ok then Some (False, it) else raxIteratorPrevStep al rx it True })"

definition seek_compressed :: "'d ralloc \<Rightarrow> 'd rax \<Rightarrow> 'd raxIterator \<Rightarrow> bool \<Rightarrow> bool \<Rightarrow> 'd raxNode \<Rightarrow> byte \<Rightarrow> byte \<Rightarrow> (bool \<times> 'd rax \<times> 'd raxIterator) option" where
  "seek_compressed al rx it lt gt n nodechar keychar = do {
     let it = it\<lparr>just_seeked := False\<rparr>;
     (ok, rx, it) \<leftarrow> (if gt then seek_compressed_gt al rx it n nodechar keychar else Some (True, rx, it));
     if \<not> ok then Some (False, rx, it)
     else do {
       (ok, it) \<leftarrow> (if lt then seek_compressed_lt al rx it n nodechar keychar else Some (True, it));
       Some (if ok then (True, rx, it\<lparr>just_seeked := True\<rparr>) else (False, rx, it)) } }"

definition seek_match :: "'d ralloc \<Rightarrow> 'd rax \<Rightarrow> 'd raxIterator \<Rightarrow> bool \<Rightarrow> bool \<Rightarrow> 'd raxNode \<Rightarrow> nat \<Rightarrow> (bool \<times> 'd rax \<times> 'd raxIterator) option" where
  "seek_match al rx it lt gt n splitpos = do {
     let it = it\<lparr>just_seeked := False\<rparr>;
     if iscompr n \<and> iskey n \<and> splitpos \<noteq> 0 \<and> lt then do { d \<leftarrow> raxGetData n; Some (True, rx, it\<lparr>it_data := d, just_seeked := True\<rparr>) }
     else do {
       (ok, rx, it) \<leftarrow> (if gt then raxIteratorNextStep al rx it False else Some (True, rx, it));
       if \<not> ok then Some (False, rx, it)
       else do {
         (ok, it) \<leftarrow> (if lt then raxIteratorPrevStep al rx it False else Some (True, it));
         Some (if ok then (True, rx, it\<lparr>just_seeked := True\<rparr>) else (False, rx, it)) } } }"

definition seek_key :: "'d ralloc \<Rightarrow> 'd rax \<Rightarrow> 'd raxIterator \<Rightarrow> bool \<Rightarrow> bool \<Rightarrow> bool \<Rightarrow> byte list \<Rightarrow> (bool \<times> 'd rax \<times> 'd raxIterator) option" where
  "seek_key al rx it eq lt gt ele = do {
     (i, h, _, splitpos, ts) \<leftarrow> raxLowWalk al rx ele (Some (it_stack it));
     ts \<leftarrow> ts;
     let it = it\<lparr>it_node := Some h, it_stack := ts\<rparr>;
     if soom ts then Some (False, rx, it)
     else do {
       n \<leftarrow> rheap rx h;
       if eq \<and> i = length ele \<and> (\<not> iscompr n \<or> splitpos = 0) \<and> iskey n then do {
         (ok, it) \<leftarrow> raxIteratorAddChars al it ele;
         if \<not> ok then Some (False, rx, it) else do { d \<leftarrow> raxGetData n; Some (True, rx, it\<lparr>it_data := d\<rparr>) } }
       else if lt \<or> gt then do {
         ensure (splitpos \<le> i);
         (_, it) \<leftarrow> raxIteratorAddChars al it (take (i - splitpos) ele);
         if i \<noteq> length ele \<and> \<not> iscompr n then do { c \<leftarrow> get_at ele i; seek_mismatch al rx it lt gt c }
         else if i \<noteq> length ele \<and> iscompr n then do { nodechar \<leftarrow> get_at (chars n) splitpos; keychar \<leftarrow> get_at ele i; seek_compressed al rx it lt gt n nodechar keychar }
         else seek_match al rx it lt gt n splitpos }
       else Some (True, rx, it\<lparr>it_eof := True\<rparr>) } }"

definition seek_last :: "'d ralloc \<Rightarrow> 'd rax \<Rightarrow> 'd raxIterator \<Rightarrow> (bool \<times> 'd rax \<times> 'd raxIterator) option" where
  "seek_last al rx it = do {
     (ok, it) \<leftarrow> raxSeekGreatest al (rheap rx) (it\<lparr>it_node := Some (rhead rx)\<rparr>);
     if \<not> ok then Some (False, rx, it)
     else do {
       a \<leftarrow> it_node it;
       n \<leftarrow> rheap rx a;
       ensure (iskey n);
       d \<leftarrow> raxGetData n;
       Some (True, rx, it\<lparr>it_data := d\<rparr>) } }"

definition seek_reset :: "'d raxIterator \<Rightarrow> 'd raxIterator" where
  "seek_reset it = it\<lparr>it_stack := stack_items (it_stack it) 0, just_seeked := True, it_eof := False, key_len := 0, it_node := None\<rparr>"

function raxSeek :: "'d ralloc \<Rightarrow> 'd rax \<Rightarrow> 'd raxIterator \<Rightarrow> string \<Rightarrow> byte list \<Rightarrow> (bool \<times> 'd rax \<times> 'd raxIterator) option" where
  "raxSeek al rx it op ele = Option.bind (op_char op 0) (\<lambda>c.
     let it = seek_reset it; gt = (c = CHR ''>''); lt = (c = CHR ''<''); first = (c = CHR ''^''); at_last = (c = CHR ''$'') in
     Option.bind (if gt \<or> lt then map_option (\<lambda>d. d = CHR ''='') (op_char op 1) else Some (c = CHR ''='')) (\<lambda>eq.
       if \<not> (gt \<or> lt \<or> eq \<or> first \<or> at_last) then Some (False, rx, it)
       else if numele rx = 0 then Some (True, rx, it\<lparr>it_eof := True\<rparr>)
       else if first then raxSeek al rx it ''>='' []
       else if at_last then seek_last al rx it
       else seek_key al rx it eq lt gt ele))"
  by pat_completeness auto
termination raxSeek
  by (relation "measure (\<lambda>(al, rx, it, op, ele). if op_char op 0 = Some (CHR ''^'') then 1 else 0)") (auto simp: op_char_def)

subsection \<open>Stepping\<close>

definition raxNext :: "'d ralloc \<Rightarrow> 'd rax \<Rightarrow> 'd raxIterator \<Rightarrow> (bool \<times> 'd rax \<times> 'd raxIterator) option" where
  "raxNext al rx it = do { (ok, rx, it) \<leftarrow> raxIteratorNextStep al rx it False; Some (ok \<and> \<not> it_eof it, rx, it) }"

definition raxPrev :: "'d ralloc \<Rightarrow> 'd rax \<Rightarrow> 'd raxIterator \<Rightarrow> (bool \<times> 'd raxIterator) option" where
  "raxPrev al rx it = do { (ok, it) \<leftarrow> raxIteratorPrevStep al rx it False; Some (ok \<and> \<not> it_eof it, it) }"

definition it_key :: "'d raxIterator \<Rightarrow> byte list" where
  "it_key it = take (key_len it) (key_buf it)"

text \<open>Comparing the current key with another one.\<close>

definition raxCompare :: "'d raxIterator \<Rightarrow> string \<Rightarrow> byte list \<Rightarrow> bool option" where
  "raxCompare it op key = do {
     c \<leftarrow> op_char op 0;
     eq \<leftarrow> (if c = CHR ''='' then Some True else map_option (\<lambda>d. d = CHR ''='') (op_char op 1));
     let gt = (c = CHR ''>''); let lt = (c = CHR ''<'');
     d \<leftarrow> (if gt \<or> lt then Some (CHR ''='') else op_char op 1);
     if d \<noteq> CHR ''='' then Some False
     else do {
       let klen = length key; let minlen = (if klen < key_len it then klen else key_len it);
       ensure (minlen \<le> length (key_buf it));
       let cmp = memcmp (take minlen (key_buf it)) (take minlen key) minlen;
       Some (if \<not> lt \<and> \<not> gt then cmp = 0 \<and> klen = key_len it
         else if cmp = 0 then
           (if eq \<and> klen = key_len it then True else if lt then key_len it < klen else if gt then klen < key_len it else False)
         else if 0 < cmp then gt else lt) } }"

subsection \<open>Random walks\<close>

text \<open>The results of \<open>rand\<close> are a list. \<open>Some None\<close> is a walk that is not over when they are used up; a remainder by 0 is a fault.
  \<open>floor_log\<close> is the whole part of the logarithm, which the code computes in floating point.\<close>

definition num_children :: "'d raxNode \<Rightarrow> nat" where
  "num_children n = (if iscompr n then 1 else rsize n)"

definition walk_range :: "'d rax \<Rightarrow> addr \<Rightarrow> 'd raxNode \<Rightarrow> nat" where
  "walk_range rx a n = num_children n + (if a \<noteq> rhead rx then 1 else 0)"

fun random_walk :: "'d ralloc \<Rightarrow> 'd rax \<Rightarrow> nat list \<Rightarrow> 'd raxIterator \<Rightarrow> addr \<Rightarrow> u64 \<Rightarrow> (bool \<times> 'd raxIterator) option option" where
  "random_walk al rx rands it a steps = Option.bind (rheap rx a) (\<lambda>n.
     if \<not> (0 < steps \<or> \<not> iskey n) then Option.bind (raxGetData n) (\<lambda>d. Some (Some (True, it\<lparr>it_node := Some a, it_data := d\<rparr>)))
     else case rands of [] \<Rightarrow> Some None
     | x # xs \<Rightarrow>
         if walk_range rx a n = 0 then None
         else if x mod walk_range rx a n = num_children n then
           (case raxStackPop (it_stack it) of (p, ts) \<Rightarrow>
             Option.bind p (\<lambda>p. Option.bind (rheap rx p) (\<lambda>k.
               Option.bind (raxIteratorDelChars (it\<lparr>it_stack := ts\<rparr>) (if iscompr k then rsize k else 1)) (\<lambda>it.
                 random_walk al rx xs it p (if iskey k then steps - 1 else steps)))))
         else
           Option.bind (raxIteratorAddChars al it (if iscompr n then chars n else [chars n ! (x mod walk_range rx a n)])) (\<lambda>(ok, it).
             if \<not> ok then Some (Some (False, it))
             else Option.bind (it_push al it a) (\<lambda>(ok, it).
               if \<not> ok then Some (Some (False, it))
               else Option.bind (child_at n (x mod walk_range rx a n)) (\<lambda>c. Option.bind (rheap rx c) (\<lambda>k.
                 random_walk al rx xs it c (if iskey k then steps - 1 else steps))))))"

definition raxRandomWalk :: "(nat \<Rightarrow> nat) \<Rightarrow> 'd ralloc \<Rightarrow> 'd rax \<Rightarrow> nat list \<Rightarrow> 'd raxIterator \<Rightarrow> u64 \<Rightarrow> (bool \<times> 'd raxIterator) option option" where
  "raxRandomWalk floor_log al rx rands it steps =
     (if numele rx = 0 then Some (Some (False, it\<lparr>it_eof := True\<rparr>))
      else if steps = 0 then
        (case rands of [] \<Rightarrow> Some None
         | x # rands \<Rightarrow> do { a \<leftarrow> it_node it; random_walk al rx rands it a (1 + of_nat (x mod (2 * (1 + floor_log (unat (numele rx)))))) })
      else do { a \<leftarrow> it_node it; random_walk al rx rands it a steps })"

declare raxSeek.simps [simp del] random_walk.simps [simp del]

end
