(* ===== verification/Rax_Tree.thy ===== *)
theory Rax_Tree
  imports Rax "HOL-Library.List_Lexorder"
begin

text \<open>
  The tree that a store of nodes holds, and the map that a tree stands for.

  A tree \<open>rt\<close> has at each node its address and its record (the child slots of the record are those the subtrees determine). The store is exactly
  the multiset of the nodes of the tree: \<open>heap_is\<close> says so, and its rules read, write, add and release one node of the multiset
  with no side conditions on the others. A context (a list of frames, innermost first) is a tree with a hole: the walk of the code goes down to a
  context and a subtree, and \<open>link_of\<close> is the slot of the hole.

  \<open>entries\<close> lists the keys of a tree with their values, in lexicographic order.
\<close>

subsection \<open>Stores as multisets of nodes\<close>

definition distinct_keys :: "('a \<times> 'b) multiset \<Rightarrow> bool" where
  "distinct_keys M \<longleftrightarrow> (\<forall>a. count (image_mset fst M) a \<le> 1)"

definition heap_is :: "('a \<Rightarrow> 'b option) \<Rightarrow> ('a \<times> 'b) multiset \<Rightarrow> bool" where
  "heap_is m M \<longleftrightarrow> distinct_keys M \<and> (\<forall>a n. m a = Some n \<longleftrightarrow> (a, n) \<in># M)"

lemma distinct_keys_add [simp]:
  "distinct_keys (add_mset (k, v) M) \<longleftrightarrow> k \<notin> fst ` set_mset M \<and> distinct_keys M"
proof -
  have k: "k \<notin> fst ` set_mset M \<longleftrightarrow> count (image_mset fst M) k = 0" by (simp only: not_in_iff [symmetric] set_image_mset)
  have "distinct_keys (add_mset (k, v) M) \<longleftrightarrow> (\<forall>a. (if k = a then Suc (count (image_mset fst M) a) else count (image_mset fst M) a) \<le> 1)"
    unfolding distinct_keys_def by (rule all_cong1) (simp split del: if_split)
  also have "\<dots> \<longleftrightarrow> count (image_mset fst M) k = 0 \<and> distinct_keys M" unfolding distinct_keys_def
  proof (intro iffI conjI allI)
    fix a assume *: "\<forall>a. (if k = a then Suc (count (image_mset fst M) a) else count (image_mset fst M) a) \<le> 1"
    show "count (image_mset fst M) k = 0" using spec [OF *, of k] by simp
    show "count (image_mset fst M) a \<le> 1" using spec [OF *, of a] by (simp split: if_splits)
  next
    fix a assume "count (image_mset fst M) k = 0 \<and> (\<forall>a. count (image_mset fst M) a \<le> 1)"
    then show "(if k = a then Suc (count (image_mset fst M) a) else count (image_mset fst M) a) \<le> 1" by (cases "k = a") auto
  qed
  finally show ?thesis using k by simp
qed

lemma heap_is_get: "heap_is m (add_mset (k, v) M) \<Longrightarrow> m k = Some v"
  by (simp add: heap_is_def)

lemma heap_is_mem: "heap_is m M \<Longrightarrow> (k, v) \<in># M \<Longrightarrow> m k = Some v"
  by (simp add: heap_is_def)

lemma heap_is_upd: "heap_is m (add_mset (k, v) M) \<Longrightarrow> heap_is (m(k \<mapsto> v')) (add_mset (k, v') M)"
  by (force simp: heap_is_def)

lemma heap_is_new: "heap_is m M \<Longrightarrow> m k = None \<Longrightarrow> heap_is (m(k \<mapsto> v)) (add_mset (k, v) M)"
  by (force simp: heap_is_def)

lemma heap_is_free: "heap_is m (add_mset (k, v) M) \<Longrightarrow> heap_is (m(k := None)) M"
  by (force simp: heap_is_def)

lemma heap_is_fresh: "heap_is m M \<Longrightarrow> m k = None \<Longrightarrow> k \<notin> fst ` set_mset M"
  by (force simp: heap_is_def)

lemma heap_is_notin: "heap_is m (add_mset (k, v) M) \<Longrightarrow> k \<notin> fst ` set_mset M"
  by (simp add: heap_is_def)

lemma heap_is_move:
  assumes "heap_is m (add_mset (k, v) M)" "a = k \<or> m a = None"
  shows "heap_is ((m(k := None))(a \<mapsto> v')) (add_mset (a, v') M)"
proof (cases "a = k")
  case True
  then show ?thesis using heap_is_upd [OF assms(1), of v'] by simp
next
  case False
  then show ?thesis using heap_is_new [OF heap_is_free [OF assms(1)], of a v'] assms(2) by simp
qed

lemma heap_is_empty: "heap_is m {#} \<longleftrightarrow> m = Map.empty"
  by (auto simp: heap_is_def distinct_keys_def)

lemma heap_is_finite: "heap_is m M \<Longrightarrow> finite (dom m)"
proof -
  assume "heap_is m M"
  then have "dom m = fst ` set_mset M" by (force simp: heap_is_def dom_def)
  then show ?thesis by simp
qed

subsection \<open>Trees\<close>

datatype 'd rt = RT (root: addr) (info: "'d raxNode") (subs: "'d rt list")

definition linked :: "'d raxNode \<Rightarrow> addr list \<Rightarrow> 'd raxNode" where
  "linked n as = n\<lparr>kids := map Some as\<rparr>"

fun rt_nodes :: "'d rt \<Rightarrow> (addr \<times> 'd raxNode) multiset" where
  "rt_nodes (RT a n ts) = add_mset (a, linked n (map root ts)) (sum_list (map rt_nodes ts))"

abbreviation forest :: "'d rt list \<Rightarrow> (addr \<times> 'd raxNode) multiset" where
  "forest ts \<equiv> sum_list (map rt_nodes ts)"

lemma linked_simps [simp]:
  "iskey (linked n as) = iskey n" "isnull (linked n as) = isnull n" "iscompr (linked n as) = iscompr n"
  "chars (linked n as) = chars n" "nval (linked n as) = nval n" "cap (linked n as) = cap n" "kids (linked n as) = map Some as"
  "raxNodeCurrentLength (linked n as) = raxNodeCurrentLength n" "linked (linked n as) bs = linked n bs"
  "raxGetData (linked n as) = raxGetData n" "ends_chain (linked n as) = ends_chain n"
  by (auto simp: linked_def raxNodeCurrentLength_def raxGetData_def ends_chain_def)

definition edges :: "'d raxNode \<Rightarrow> byte list list" where
  "edges n = (if iscompr n then [chars n] else map (\<lambda>c. [c]) (chars n))"

definition node_ok :: "'d raxNode \<Rightarrow> nat \<Rightarrow> bool" where
  "node_ok n k \<longleftrightarrow> length (edges n) = k \<and> (if iscompr n then chars n \<noteq> [] else sorted_wrt (<) (chars n)) \<and>
     raxNodeCurrentLength n \<le> cap n \<and> (iskey n \<and> \<not> isnull n \<longrightarrow> nval n \<noteq> None)"

fun wf_rt :: "'d rt \<Rightarrow> bool" where
  "wf_rt (RT a n ts) \<longleftrightarrow> node_ok n (length ts) \<and> (\<forall>t \<in> set ts. wf_rt t)"

text \<open>No subtree is without a key.\<close>

fun live :: "'d rt \<Rightarrow> bool" where
  "live (RT a n ts) \<longleftrightarrow> (ts = [] \<longrightarrow> iskey n) \<and> (\<forall>t \<in> set ts. live t)"

subsection \<open>Entries\<close>

definition own :: "'d raxNode \<Rightarrow> (byte list \<times> 'd option) list" where
  "own n = (if iskey n then [([], if isnull n then None else nval n)] else [])"

definition pfx :: "byte list \<Rightarrow> byte list \<times> 'a \<Rightarrow> byte list \<times> 'a" where
  "pfx p = (\<lambda>(k, v). (p @ k, v))"

lemma pfx_simps [simp]: "pfx p (k, v) = (p @ k, v)" "fst (pfx p x) = p @ fst x" "snd (pfx p x) = snd x"
  "pfx p (pfx q x) = pfx (p @ q) x" "pfx [] = (\<lambda>x. x)"
  by (auto simp: pfx_def split: prod.splits)

definition hung :: "byte list list \<Rightarrow> (byte list \<times> 'a) list list \<Rightarrow> (byte list \<times> 'a) list" where
  "hung es xss = concat (map2 (\<lambda>e. map (pfx e)) es xss)"

fun entries :: "'d rt \<Rightarrow> (byte list \<times> 'd option) list" where
  "entries (RT a n ts) = own n @ hung (edges n) (map entries ts)"

lemma hung_simps [simp]: "hung [] xss = []" "hung es [] = []" "hung (e # es) (xs # xss) = map (pfx e) xs @ hung es xss"
  by (simp_all add: hung_def)

lemma hung_append: "length es = length xss \<Longrightarrow> hung (es @ es') (xss @ xss') = hung es xss @ hung es' xss'"
  by (simp add: hung_def)

lemma hung_split:
  assumes "length es = length xss + Suc (length yss)"
  shows "hung es (xss @ ys # yss) = hung (take (length xss) es) xss @ map (pfx (es ! length xss)) ys @ hung (drop (Suc (length xss)) es) yss"
proof -
  let ?k = "length xss"
  have es: "es = take ?k es @ es ! ?k # drop (Suc ?k) es" using assms by (simp add: id_take_nth_drop)
  have "hung es (xss @ ys # yss) = hung (take ?k es) xss @ hung (es ! ?k # drop (Suc ?k) es) (ys # yss)"
    using assms by (subst es) (rule hung_append, simp)
  then show ?thesis by simp
qed

lemma in_hung: "x \<in> set (hung es xss) \<longleftrightarrow> (\<exists>i < min (length es) (length xss). \<exists>y \<in> set (xss ! i). x = pfx (es ! i) y)"
  by (force simp: hung_def set_zip)

subsection \<open>Contexts\<close>

datatype 'd frame = Frame addr "'d raxNode" "'d rt list" "'d rt list"

fun plug :: "'d frame list \<Rightarrow> 'd rt \<Rightarrow> 'd rt" where
  "plug [] t = t"
| "plug (Frame a n ls rs # C) t = plug C (RT a n (ls @ t # rs))"

fun frame_addr :: "'d frame \<Rightarrow> addr" where
  "frame_addr (Frame a n ls rs) = a"

fun path :: "'d frame list \<Rightarrow> byte list" where
  "path [] = []"
| "path (Frame a n ls rs # C) = path C @ edges n ! length ls"

fun ctx_nodes :: "'d frame list \<Rightarrow> addr \<Rightarrow> (addr \<times> 'd raxNode) multiset" where
  "ctx_nodes [] x = {#}"
| "ctx_nodes (Frame a n ls rs # C) x =
     add_mset (a, linked n (map root ls @ x # map root rs)) (forest ls + forest rs) + ctx_nodes C a"

fun ctx_head :: "'d frame list \<Rightarrow> addr \<Rightarrow> addr" where
  "ctx_head [] x = x"
| "ctx_head (Frame a n ls rs # C) x = ctx_head C a"

fun link_of :: "'d frame list \<Rightarrow> rlink" where
  "link_of [] = HeadLink"
| "link_of (Frame a n ls rs # C) = Slot a (length ls)"

fun wf_ctx :: "'d frame list \<Rightarrow> bool" where
  "wf_ctx [] \<longleftrightarrow> True"
| "wf_ctx (Frame a n ls rs # C) \<longleftrightarrow> node_ok n (length ls + Suc (length rs)) \<and> (\<forall>t \<in> set ls \<union> set rs. wf_rt t) \<and> wf_ctx C"

fun live_ctx :: "'d frame list \<Rightarrow> bool" where
  "live_ctx [] \<longleftrightarrow> True"
| "live_ctx (Frame a n ls rs # C) \<longleftrightarrow> (\<forall>t \<in> set ls \<union> set rs. live t) \<and> live_ctx C"

fun ctx_pre :: "'d frame list \<Rightarrow> (byte list \<times> 'd option) list" where
  "ctx_pre [] = []"
| "ctx_pre (Frame a n ls rs # C) = ctx_pre C @ map (pfx (path C)) (own n @ hung (take (length ls) (edges n)) (map entries ls))"

fun ctx_post :: "'d frame list \<Rightarrow> (byte list \<times> 'd option) list" where
  "ctx_post [] = []"
| "ctx_post (Frame a n ls rs # C) = map (pfx (path C)) (hung (drop (Suc (length ls)) (edges n)) (map entries rs)) @ ctx_post C"

lemma rt_nodes_plug: "rt_nodes (plug C t) = ctx_nodes C (root t) + rt_nodes t"
  by (induction C t rule: plug.induct) (simp_all add: ac_simps)

lemma root_plug: "root (plug C t) = ctx_head C (root t)"
  by (induction C t rule: plug.induct) simp_all

lemma wf_plug: "wf_rt (plug C t) \<longleftrightarrow> wf_ctx C \<and> wf_rt t"
  by (induction C t rule: plug.induct) auto

lemma size_ctx_nodes: "size (ctx_nodes C x) = size (ctx_nodes C y)"
  by (cases "(C, x)" rule: ctx_nodes.cases) auto

lemma length_edges: "node_ok n k \<Longrightarrow> length (edges n) = k"
  by (simp add: node_ok_def)

lemma entries_plug:
  "wf_ctx C \<Longrightarrow> entries (plug C t) = ctx_pre C @ map (pfx (path C)) (entries t) @ ctx_post C"
proof (induction C t rule: plug.induct)
  case (2 a n ls rs C t)
  then have "length (edges n) = length (map entries ls) + Suc (length (map entries rs))" by (simp add: length_edges)
  from hung_split [OF this] 2 show ?case by (simp add: comp_def)
qed simp

text \<open>Writing through the slot of the hole.\<close>

lemma set_link_ctx:
  assumes "heap_is (rheap rx) (ctx_nodes C x + M)" "rhead rx = ctx_head C x"
  shows "\<exists>m'. set_link rx (link_of C) y = Some (rx\<lparr>rheap := m', rhead := ctx_head C y\<rparr>) \<and> heap_is m' (ctx_nodes C y + M)"
proof (cases "(C, x)" rule: ctx_nodes.cases)
  case (1 x)
  then show ?thesis using assms by (auto simp: set_link_def intro!: exI [of _ "rheap rx"])
next
  case (2 a n ls rs C' x')
  then have h: "heap_is (rheap rx) (add_mset (a, linked n (map root ls @ x # map root rs)) (forest ls + forest rs + ctx_nodes C' a + M))"
    using assms(1) by (simp add: ac_simps)
  let ?m = "(rheap rx)(a \<mapsto> linked n (map root ls @ y # map root rs))"
  have m: "heap_is ?m (ctx_nodes C y + M)" using heap_is_upd [OF h] 2 by (simp add: ac_simps)
  have "set_link rx (link_of C) y = Some (rx\<lparr>rheap := ?m\<rparr>)"
    using heap_is_get [OF h] 2 by (simp add: set_link_def linked_def list_update_append)
  moreover have "rx\<lparr>rheap := ?m\<rparr> = rx\<lparr>rheap := ?m, rhead := ctx_head C y\<rparr>" using assms(2) 2 by (cases rx) simp
  ultimately show ?thesis using m by (intro exI [of _ ?m]) simp
qed


subsection \<open>Order\<close>

lemma append_less_append: "xs @ ys < xs @ zs \<longleftrightarrow> ys < zs" for xs :: "'a::order list"
  by (induction xs) simp_all

lemma hd_less_append: "xs \<noteq> [] \<Longrightarrow> ys \<noteq> [] \<Longrightarrow> hd xs < hd ys \<Longrightarrow> xs @ us < ys @ vs" for xs :: "'a::order list"
  by (cases xs; cases ys) simp_all

lemma edges_ok:
  assumes "node_ok n k"
  shows "e \<in> set (edges n) \<Longrightarrow> e \<noteq> []" "sorted_wrt (\<lambda>e f. hd e < hd f) (edges n)"
  using assms by (auto simp: node_ok_def edges_def sorted_wrt_map split: if_splits)

lemma hung_sorted:
  assumes "\<And>e. e \<in> set es \<Longrightarrow> e \<noteq> []" "sorted_wrt (\<lambda>e f. hd e < hd f) es"
    "\<And>xs. xs \<in> set xss \<Longrightarrow> sorted_wrt (<) (map fst xs)" "length es = length xss"
  shows "sorted_wrt (<) (map fst (hung es xss))"
  using assms(4,1-3)
proof (induction es xss rule: list_induct2)
  case (Cons e es xs xss)
  have 1: "sorted_wrt (<) (map fst (map (pfx e) xs))" using Cons.prems(3) [of xs] by (simp add: sorted_wrt_map append_less_append)
  have 2: "k < k'" if "k \<in> set (map fst (map (pfx e) xs))" "k' \<in> set (map fst (hung es xss))" for k k'
  proof -
    from that(2) obtain i y where i: "i < length es" "k' = es ! i @ fst y" by (auto simp: in_hung)
    then have "hd e < hd (es ! i)" "e \<noteq> []" "es ! i \<noteq> []" using Cons.prems(1,2) by auto
    then show ?thesis using that(1) i by (auto intro: hd_less_append)
  qed
  show ?case using 1 2 Cons by (auto simp: sorted_wrt_append)
qed simp

lemma entries_sorted: "wf_rt t \<Longrightarrow> sorted_wrt (<) (map fst (entries t))"
proof (induction t rule: entries.induct)
  case (1 a n ts)
  then have n: "node_ok n (length ts)" by simp
  have u: "sorted_wrt (<) (map fst (hung (edges n) (map entries ts)))"
    by (rule hung_sorted) (use edges_ok [OF n] 1 n in \<open>auto simp: length_edges\<close>)
  have "k \<noteq> []" if "k \<in> set (map fst (hung (edges n) (map entries ts)))" for k
    using that edges_ok(1) [OF n] by (auto simp: in_hung)
  then have "[] < k" if "k \<in> set (map fst (hung (edges n) (map entries ts)))" for k
    using that by (cases k) auto
  then show ?case using u by (auto simp: own_def)
qed

lemma entries_distinct: "wf_rt t \<Longrightarrow> distinct (map fst (entries t))"
  using entries_sorted [of t] by (simp add: strict_sorted_iff flip: sorted_list_of_set_nonempty)

lemma map_of_entries: "wf_rt t \<Longrightarrow> map_of (entries t) k = Some v \<longleftrightarrow> (k, v) \<in> set (entries t)"
  by (simp add: entries_distinct map_of_eq_Some_iff)

subsection \<open>Walking\<close>

definition stack_ok :: "'d ralloc \<Rightarrow> raxStack \<Rightarrow> bool" where
  "stack_ok al ts \<longleftrightarrow> (\<forall>n. rax_room al n) \<and> length (sitems ts) \<le> maxitems ts \<and> 0 < maxitems ts"

lemma raxStackPush_ok:
  "stack_ok al ts \<Longrightarrow> \<exists>ts'. raxStackPush al ts p = Some (True, ts') \<and> sitems ts' = p # sitems ts \<and> soom ts' = soom ts \<and> stack_ok al ts'"
  by (auto simp: raxStackPush_def stack_ok_def Let_def)

lemma raxStackInit_ok: "\<forall>n. rax_room al n \<Longrightarrow> stack_ok al raxStackInit"
  by (simp add: stack_ok_def raxStackInit_def RAX_STACK_STATIC_ITEMS_def)

fun pushed :: "'d ralloc \<Rightarrow> addr list \<Rightarrow> raxStack option \<Rightarrow> raxStack option \<Rightarrow> bool" where
  "pushed al ps None ts' \<longleftrightarrow> ts' = None"
| "pushed al ps (Some ts) ts' \<longleftrightarrow> (\<exists>us. ts' = Some us \<and> sitems us = ps @ sitems ts \<and> soom us = soom ts \<and> stack_ok al us)"

abbreviation stack_opt :: "'d ralloc \<Rightarrow> raxStack option \<Rightarrow> bool" where
  "stack_opt al ts \<equiv> (\<forall>us. ts = Some us \<longrightarrow> stack_ok al us)"

lemma push_parent_ok:
  "stack_opt al ts \<Longrightarrow> \<exists>ts'. push_parent al ts h = Some ts' \<and> pushed al [h] ts ts' \<and> stack_opt al ts'"
  using raxStackPush_ok [of al "the ts" h] by (cases ts) (auto simp: push_parent_def)

lemma pushed_trans: "pushed al ps ts us \<Longrightarrow> pushed al qs us vs \<Longrightarrow> pushed al (qs @ ps) ts vs"
  by (cases ts) auto

lemma pushed_refl: "stack_opt al ts \<Longrightarrow> pushed al [] ts ts"
  by (cases ts) auto

definition stops_at :: "'d raxNode \<Rightarrow> byte list \<Rightarrow> nat \<Rightarrow> bool" where
  "stops_at n r j \<longleftrightarrow> (if r = [] then j = 0
     else if iscompr n then j = match_len (chars n) r \<and> j < rsize n
     else j = 0 \<and> hd r \<notin> set (chars n))"

lemma match_len_take: "take (match_len v r) r = take (match_len v r) v" "match_len v r \<le> length v" "match_len v r \<le> length r"
  by (induction v r rule: match_len.induct) auto

lemma match_len_differ: "match_len v r < length v \<Longrightarrow> match_len v r < length r \<Longrightarrow> v ! match_len v r \<noteq> r ! match_len v r"
  by (induction v r rule: match_len.induct) auto

lemma find_edge_le: "find_edge cs c \<le> length cs" "find_edge cs c = length cs \<longleftrightarrow> c \<notin> set cs"
  "find_edge cs c < length cs \<Longrightarrow> cs ! find_edge cs c = c"
  by (induction cs) auto

lemma find_nodes: "heap_is m (rt_nodes (plug C (RT a n ts))) \<Longrightarrow> m a = Some (linked n (map root ts))"
  by (simp add: rt_nodes_plug heap_is_get)

lemma plug_descend:
  assumes "j < length ts"
  shows "plug (Frame a n (take j ts) (drop (Suc j) ts) # C) (ts ! j) = plug C (RT a n ts)"
  using assms by (simp add: id_take_nth_drop [symmetric])

lemma low_walk_ok:
  assumes "heap_is m (rt_nodes (plug C t))" "wf_rt (plug C t)" "s = path C @ r" "stack_opt al ts"
  shows "\<exists>D t' j r' ts'. low_walk al m s (root t) (link_of C) (length (path C)) ts =
       Some (length (path (D @ C)) + j, root t', link_of (D @ C), j, ts') \<and> plug (D @ C) t' = plug C t \<and>
     s = path (D @ C) @ r' \<and> stops_at (info t') r' j \<and> pushed al (map frame_addr D) ts ts'"
  using assms
proof (induction "length r" arbitrary: C t r ts rule: less_induct)
  case less
  obtain a n us where t: "t = RT a n us" by (cases t)
  have m: "m a = Some (linked n (map root us))" using less.prems(1) t find_nodes by simp
  have ok: "node_ok n (length us)" "wf_ctx C" using less.prems(2) t by (auto simp: wf_plug)
  have stop: ?case if "low_walk al m s (root t) (link_of C) (length (path C)) ts = Some (length (path C) + j, a, link_of C, j, ts)"
    "stops_at n r j" for j
    by (rule exI [of _ "[]"], rule exI [of _ t]) (use that less.prems(3,4) t pushed_refl in auto)
  have step: ?case if j: "j < length us" "r = edges n ! j @ r2"
    and w: "\<And>ts'. push_parent al ts a = Some ts' \<Longrightarrow> low_walk al m s (root t) (link_of C) (length (path C)) ts =
       low_walk al m s (root (us ! j)) (Slot a j) (length (path C) + length (edges n ! j)) ts'" for j r2
  proof -
    let ?F = "Frame a n (take j us) (drop (Suc j) us)"
    have p: "plug (?F # C) (us ! j) = plug C t" using plug_descend [OF j(1)] t by simp
    have lf: "min (length us) j = j" using j by simp
    have e: "edges n ! j \<noteq> []" using edges_ok(1) [OF ok(1)] j length_edges [OF ok(1)] by simp
    obtain ts1 where ts1: "push_parent al ts a = Some ts1" "pushed al [a] ts ts1" "stack_opt al ts1"
      using push_parent_ok [OF less.prems(4)] by blast
    have "s = path (?F # C) @ r2" using less.prems(3) j lf by simp
    from less.hyps [of r2 "?F # C" "us ! j" ts1, unfolded p, OF _ less.prems(1,2) this ts1(3)] e j
    obtain D t' k r' ts' where ih: "low_walk al m s (root (us ! j)) (link_of (?F # C)) (length (path (?F # C))) ts1 =
        Some (length (path (D @ ?F # C)) + k, root t', link_of (D @ ?F # C), k, ts')" "plug (D @ ?F # C) t' = plug C t"
      "s = path (D @ ?F # C) @ r'" "stops_at (info t') r' k" "pushed al (map frame_addr D) ts1 ts'" by auto
    have "pushed al (map frame_addr (D @ [?F])) ts ts'" using pushed_trans [OF ts1(2) ih(5)] by simp
    then show ?thesis using ih w [OF ts1(1)] lf
      by (intro exI [of _ "D @ [?F]"] exI [of _ t'] exI [of _ k] exI [of _ r'] exI [of _ ts']) simp
  qed
  show ?case
  proof (cases "r = [] \<or> chars n = []")
    case True
    then have "\<not> iscompr n \<or> r = []" using ok(1) by (auto simp: node_ok_def)
    then have "stops_at n r 0" using True by (auto simp: stops_at_def)
    then show ?thesis using True less.prems(3) m t by (intro stop) (auto simp: low_walk.simps)
  next
    case False
    then have i: "length (path C) < length s" "s ! length (path C) = hd r" "drop (length (path C)) s = r"
      using less.prems(3) by (auto simp: nth_append hd_conv_nth)
    show ?thesis
    proof (cases "iscompr n")
      case True
      let ?j = "match_len (chars n) r"
      have us: "length us = 1" "edges n = [chars n]" using ok(1) True by (auto simp: node_ok_def edges_def)
      show ?thesis
      proof (cases "?j = rsize n")
        case eq: True
        have "r = edges n ! 0 @ drop ?j r" using match_len_take(1) [of "chars n" r] eq us by (metis append_take_drop_id nth_Cons_0 order_refl take_all_iff)
        then show ?thesis by (rule step [rotated]) (use us m t False i True eq in \<open>auto simp: low_walk.simps [of _ _ _ a] child_at_def\<close>)
      next
        case ne: False
        then have "stops_at n r ?j" using False True match_len_take(2) [of "chars n" r] by (auto simp: stops_at_def)
        then show ?thesis by (rule stop [rotated]) (use m t False i True ne in \<open>auto simp: low_walk.simps [of _ _ _ a] Let_def\<close>)
      qed
    next
      case nc: False
      let ?j = "find_edge (chars n) (hd r)"
      have us: "length us = rsize n" "edges n = map (\<lambda>c. [c]) (chars n)" using ok(1) nc by (auto simp: node_ok_def edges_def)
      show ?thesis
      proof (cases "?j = rsize n")
        case eq: True
        then have "stops_at n r 0" using nc False find_edge_le(2) [of "chars n" "hd r"] by (auto simp: stops_at_def)
        then show ?thesis by (rule stop [rotated]) (use m t False i nc eq in \<open>auto simp: low_walk.simps [of _ _ _ a] Let_def\<close>)
      next
        case ne: False
        then have j: "?j < rsize n" using find_edge_le(1) [of "chars n" "hd r"] by simp
        then have "r = edges n ! ?j @ tl r" using find_edge_le(3) False us by simp
        then show ?thesis by (rule step [rotated]) (use j us m t False i nc ne in \<open>auto simp: low_walk.simps [of _ _ _ a] child_at_def Let_def\<close>)
      qed
    qed
  qed
qed

subsection \<open>Lookup\<close>

lemma single_entry: "\<exists>t :: 'd rt. wf_rt t \<and> entries t = [(r, None)]"
proof -
  let ?leaf = "\<lparr>iskey = True, isnull = True, iscompr = False, chars = [], kids = [], nval = None, cap = 8\<rparr> :: 'd raxNode"
  let ?n = "\<lparr>iskey = False, isnull = False, iscompr = True, chars = r, kids = [], nval = None, cap = 12 + length r + raxPadding (length r)\<rparr> :: 'd raxNode"
  have l: "wf_rt (RT 0 ?leaf [])" "entries (RT 0 ?leaf []) = [([], None)]"
    by (simp_all add: node_ok_def edges_def raxNodeCurrentLength_def raxPadding_def own_def)
  have "wf_rt (RT 0 ?n [RT 0 ?leaf []])" "entries (RT 0 ?n [RT 0 ?leaf []]) = [(r, None)]" if "r \<noteq> []"
    using that l by (simp_all add: node_ok_def edges_def raxNodeCurrentLength_def own_def)
  with l show ?thesis by (cases "r = []") blast+
qed

lemma ctx_no_prefix:
  assumes "wf_ctx C"
  shows "(path C @ r, v) \<notin> set (ctx_pre C)" "(path C @ r, v) \<notin> set (ctx_post C)"
proof -
  obtain t :: "'a rt" where t: "wf_rt t" "entries t = [(r, None)]" using single_entry by blast
  have "distinct (map fst (entries (plug C t)))" using t(1) assms by (intro entries_distinct) (simp add: wf_plug)
  then have "path C @ r \<notin> fst ` set (ctx_pre C)" "path C @ r \<notin> fst ` set (ctx_post C)" using entries_plug [OF assms, of t] t(2) by auto
  then show "(path C @ r, v) \<notin> set (ctx_pre C)" "(path C @ r, v) \<notin> set (ctx_post C)" by force+
qed

lemma lookup_plug:
  assumes "wf_rt (plug C t)"
  shows "map_of (entries (plug C t)) (path C @ r) = map_of (entries t) r"
proof -
  have w: "wf_ctx C" "wf_rt t" using assms by (auto simp: wf_plug)
  have "map_of (entries (plug C t)) (path C @ r) = Some v \<longleftrightarrow> map_of (entries t) r = Some v" for v
    unfolding map_of_entries [OF assms] map_of_entries [OF w(2)] using ctx_no_prefix [OF w(1)] by (auto simp: entries_plug [OF w(1)] pfx_def)
  then show ?thesis by (metis option.exhaust)
qed

lemma lookup_root: "wf_rt t \<Longrightarrow> map_of (entries t) [] = (if iskey (info t) then raxGetData (info t) else None)"
proof -
  assume w: "wf_rt t"
  obtain a n ts where t: "t = RT a n ts" by (cases t)
  have "([], v) \<notin> set (hung (edges n) (map entries ts))" for v using w t edges_ok(1) [of n "length ts"] by (auto simp: in_hung pfx_def split: prod.splits)
  then have "map_of (hung (edges n) (map entries ts)) [] = None" by (force simp: map_of_eq_None_iff)
  then show ?thesis using w t by (auto simp: own_def raxGetData_def node_ok_def)
qed

lemma lookup_stops:
  assumes "wf_rt t" "stops_at (info t) r j" "r \<noteq> []"
  shows "map_of (entries t) r = None"
proof -
  obtain a n ts where t: "t = RT a n ts" by (cases t)
  have "r \<noteq> e @ k" if "e \<in> set (edges n)" for e k
  proof (cases "iscompr n")
    case True
    have "match_len e (e @ k) = length e" for e k :: "byte list" by (induction e) auto
    then show ?thesis using that True assms(2,3) t by (auto simp: edges_def stops_at_def)
  next
    case False
    then show ?thesis using that assms(2,3) t by (auto simp: edges_def stops_at_def)
  qed
  then have "r \<notin> fst ` set (hung (edges n) (map entries ts))" by (auto simp: in_hung)
  then show ?thesis using t assms(3) by (auto simp: map_of_eq_None_iff own_def)
qed

lemma raxLowWalk_ok:
  assumes "heap_is (rheap rx) (rt_nodes t)" "rhead rx = root t" "wf_rt t" "stack_opt al ts"
  shows "\<exists>D t' j r ts'. raxLowWalk al rx s ts = Some (length (path D) + j, root t', link_of D, j, ts') \<and> plug D t' = t \<and> s = path D @ r \<and>
     stops_at (info t') r j \<and> pushed al (map frame_addr D) ts ts'"
  using low_walk_ok [where C = "[]" and t = t and r = s and s = s and m = "rheap rx"] assms by (simp add: raxLowWalk_def)

lemma raxFind_walk:
  assumes "heap_is (rheap rx) (rt_nodes t)" "rhead rx = root t" "wf_rt t"
  shows "raxFind al rx s = Some (map_of (entries t) s)"
proof -
  obtain D t' j r where w: "raxLowWalk al rx s None = Some (length (path D) + j, root t', link_of D, j, None)" "plug D t' = t"
      "s = path D @ r" "stops_at (info t') r j"
    using raxLowWalk_ok [OF assms, where al = al and ts = None and s = s] by auto
  obtain a n ts where t': "t' = RT a n ts" by (cases t')
  have m: "rheap rx a = Some (linked n (map root ts))" using assms(1) w(2) t' find_nodes by blast
  have wt: "wf_rt t'" using assms(3) w(2) wf_plug by blast
  have l: "map_of (entries t) s = map_of (entries t') r" using lookup_plug [of D t' r] assms(3) w by simp
  show ?thesis
  proof (cases "r = []")
    case True
    then have "j = 0" using w(4) by (simp add: stops_at_def)
    moreover have "iskey n \<Longrightarrow> \<exists>d. raxGetData n = Some d" using wt t' by (auto simp: node_ok_def raxGetData_def)
    ultimately show ?thesis using w(1,3) m l lookup_root [OF wt] True t' by (auto simp: raxFind_def)
  next
    case False
    then have "j = length r \<Longrightarrow> iscompr n \<and> j \<noteq> 0" using w(4) t' by (auto simp: stops_at_def split: if_splits)
    moreover have "map_of (entries t) s = None" using l lookup_stops [OF wt w(4) False] by simp
    ultimately show ?thesis using w(1,3) m t' by (auto simp: raxFind_def)
  qed
qed

end
