(* ===== verification/Rax_Insert.thy ===== *)
theory Rax_Insert
  imports Rax_Tree
begin

text \<open>
  Insertion. The locale \<open>rax_memory\<close> has what the tree relies on of the allocator: blocks are fresh, and there is memory. Each step of the code is a step on
  trees in contexts; the entries of the result are those of the tree before with the new one.
\<close>

definition ralloc_total :: "'d ralloc \<Rightarrow> bool" where
  "ralloc_total al \<longleftrightarrow> (\<forall>m sz. finite (dom m) \<longrightarrow> rax_malloc al m sz \<noteq> None) \<and>
     (\<forall>m p sz. finite (dom m) \<longrightarrow> rax_realloc al m p sz \<noteq> None) \<and> (\<forall>sz. rax_room al sz)"

subsection \<open>Single nodes\<close>

lemma raxPadding_mod: "raxPadding k = (if k mod 8 \<le> 4 then 4 - k mod 8 else 12 - k mod 8)"
proof -
  have r: "(k + 4) mod 8 = (k mod 8 + 4) mod 8" by (simp add: mod_add_left_eq)
  consider "k mod 8 = 0" | "k mod 8 = 1" | "k mod 8 = 2" | "k mod 8 = 3" | "k mod 8 = 4" | "k mod 8 = 5" | "k mod 8 = 6" | "k mod 8 = 7"
    using mod_less_divisor [of 8 k] by linarith
  then show ?thesis by cases (simp_all add: raxPadding_def r)
qed

lemma raxPadding_mono: "k + raxPadding k \<le> Suc k + raxPadding (Suc k)"
  by (simp add: raxPadding_mod mod_Suc) linarith

lemma raxPadding_0 [simp]: "raxPadding 0 = 4" "raxPadding (Suc 0) = 3"
  by (simp_all add: raxPadding_def)

lemma put_node_ok:
  assumes "heap_is m (add_mset (a, n0) M)" "raxNodeCurrentLength n \<le> cap n"
  shows "\<exists>m'. put_node m a n = Some m' \<and> heap_is m' (add_mset (a, n) M)"
  using heap_is_get [OF assms(1)] heap_is_upd [OF assms(1)] assms(2) by (simp add: put_node_def)

lemma free_ok: "heap_is m (add_mset (a, n) M) \<Longrightarrow> \<exists>m'. rax_free m a = Some m' \<and> heap_is m' M"
  using heap_is_get [of m a n M] heap_is_free [of m a n M] by (simp add: rax_free_def)

lemma set_slot_ok:
  assumes "heap_is (rheap rx) (add_mset (p, n) M)" "j < length (kids n)"
  shows "\<exists>m'. set_link rx (Slot p j) x = Some (rx\<lparr>rheap := m'\<rparr>) \<and> heap_is m' (add_mset (p, n\<lparr>kids := (kids n)[j := Some x]\<rparr>) M)"
  using heap_is_get [OF assms(1)] heap_is_upd [OF assms(1)] assms(2) by (auto simp: set_link_def)

lemma raxSetData_ok:
  assumes "raxNodeCurrentLength n + (if data = None \<or> (iskey n \<and> \<not> isnull n) then 0 else 8) \<le> cap n"
  shows "raxSetData n data = Some (n\<lparr>iskey := True, isnull := (data = None), nval := (if data = None then nval n else data)\<rparr>)"
  using assms by (auto simp: raxSetData_def raxNodeCurrentLength_def split: if_splits)

lemma raxGetData_ok: "node_ok n k \<Longrightarrow> iskey n \<Longrightarrow> raxGetData n = Some (if isnull n then None else nval n)"
  by (auto simp: node_ok_def raxGetData_def)

locale rax_memory =
  fixes al :: "'d ralloc"
  assumes fresh: "ralloc_ok al"
    and enough: "ralloc_total al"
begin

lemma block_ok:
  assumes "heap_is m M"
  shows "\<exists>a m'. rax_block al m k sz = Some (a, m') \<and> heap_is m' (add_mset (a, blank k sz) M)"
proof -
  obtain a where a: "rax_malloc al m sz = Some a" using enough heap_is_finite [OF assms] unfolding ralloc_total_def by (cases "rax_malloc al m sz") blast+
  then have "m a = None" using fresh by (auto simp: ralloc_ok_def)
  then show ?thesis using heap_is_new [OF assms] a by (auto simp: rax_block_def)
qed

lemma resize_ok:
  assumes "heap_is m (add_mset (p, n) M)" "raxNodeCurrentLength n \<le> sz"
  shows "\<exists>a m'. resize_node al m p sz = Some (Some (a, m')) \<and> heap_is m' (add_mset (a, n\<lparr>cap := sz\<rparr>) M)"
proof -
  obtain a where a: "rax_realloc al m p sz = Some a" using enough heap_is_finite [OF assms(1)] unfolding ralloc_total_def by (cases "rax_realloc al m p sz") blast+
  then have "a = p \<or> m a = None" using fresh by (auto simp: ralloc_ok_def)
  from heap_is_move [OF assms(1) this] show ?thesis using heap_is_get [OF assms(1)] a assms(2) by (auto simp: resize_node_def)
qed

lemma realloc_data_ok:
  assumes "heap_is m (add_mset (p, n) M)" "raxNodeCurrentLength n \<le> cap n"
  shows "\<exists>a m' sz. raxReallocForData al m p data = Some (Some (a, m')) \<and> heap_is m' (add_mset (a, n\<lparr>cap := sz\<rparr>) M) \<and>
     raxNodeCurrentLength n + (if data = None then 0 else 8) \<le> sz"
proof (cases "data = None")
  case True
  have "n\<lparr>cap := cap n\<rparr> = n" by simp
  then show ?thesis using assms True by (intro exI [of _ p] exI [of _ m] exI [of _ "cap n"]) (simp add: raxReallocForData_def)
next
  case False
  then show ?thesis using resize_ok [OF assms(1), of "raxNodeCurrentLength n + 8"] heap_is_get [OF assms(1)]
    by (fastforce simp: raxReallocForData_def)
qed

end

subsection \<open>Adding a child\<close>

lemma edge_pos_le: "edge_pos cs c \<le> length cs"
  by (induction cs) auto

lemma edge_pos_sorted:
  assumes "sorted_wrt (<) cs" "c \<notin> set cs"
  shows "sorted_wrt (<) (insert_at (edge_pos cs c) c cs)"
proof -
  have 1: "x < c" if "x \<in> set (take (edge_pos cs c) cs)" for x using that assms by (induction cs) (auto split: if_splits)
  have 2: "c < x" if "x \<in> set (drop (edge_pos cs c) cs)" for x using that assms by (induction cs) (auto split: if_splits)
  have 3: "x < y" if "x \<in> set (take (edge_pos cs c) cs)" "y \<in> set (drop (edge_pos cs c) cs)" for x y
    using order.strict_trans [OF 1 [OF that(1)] 2 [OF that(2)]] .
  show ?thesis using assms(1) 1 2 3 by (simp add: insert_at_def sorted_wrt_append sorted_wrt_take sorted_wrt_drop)
qed

lemma insert_at_simps [simp]: "i \<le> length xs \<Longrightarrow> length (insert_at i x xs) = Suc (length xs)" "map f (insert_at i x xs) = insert_at i (f x) (map f xs)"
  by (auto simp: insert_at_def take_map drop_map)

abbreviation new_leaf :: "addr \<Rightarrow> 'd rt" where
  "new_leaf a \<equiv> RT a (blank 0 8) []"

lemma new_leaf_ok [simp]: "node_ok (blank 0 8 :: 'd raxNode) 0" "wf_rt (new_leaf a)" "entries (new_leaf a) = []" "rt_nodes (new_leaf a) = {#(a, blank 0 8)#}"
  by (auto simp: node_ok_def blank_def edges_def raxNodeCurrentLength_def own_def linked_def)

lemma blank_simps [simp]: "\<not> iskey (blank k sz)" "\<not> iscompr (blank k sz)" "chars (blank k sz) = replicate k 0" "cap (blank k sz) = sz"
  "kids (blank k sz) = replicate k None" "own (blank k sz) = []"
  by (simp_all add: blank_def own_def)

lemma linked_blank [simp]: "linked (blank 0 k) [] = blank 0 k"
  by (simp add: linked_def blank_def)

lemma raxNewNode_leaf: "raxNewNode al m 0 False = rax_block al m 0 8"
  by (simp add: raxNewNode_def)

lemma length_blank [simp]: "raxNodeCurrentLength (n\<lparr>cap := k\<rparr>) = raxNodeCurrentLength n" "raxNodeCurrentLength (n\<lparr>kids := ks\<rparr>) = raxNodeCurrentLength n"
  by (simp_all add: raxNodeCurrentLength_def)

context rax_memory
begin

lemma raxAddChild_ok:
  assumes "heap_is m (rt_nodes (RT a n ts) + M)" "\<not> iscompr n" "node_ok n (length ts)" "c \<notin> set (chars n)"
  shows "\<exists>a' child pos m' n'. raxAddChild al m a c = Some (Some ((a', child, pos), m')) \<and> pos \<le> length ts \<and>
     heap_is m' (rt_nodes (RT a' n' (take pos ts @ new_leaf child # drop pos ts)) + M) \<and> node_ok n' (Suc (length ts)) \<and>
     iskey n' = iskey n \<and> own n' = own n \<and> edges n' = insert_at pos [c] (edges n) \<and> \<not> iscompr n'"
proof -
  let ?n = "linked n (map root ts)" let ?M = "forest ts + M" let ?pos = "edge_pos (chars n) c"
  have h: "heap_is m (add_mset (a, ?n) ?M)" using assms(1) by simp
  obtain child m1 where m1: "rax_block al m 0 8 = Some (child, m1)" "heap_is m1 (add_mset (child, blank 0 8) (add_mset (a, ?n) ?M))"
    using block_ok [OF h] by blast
  have h1: "heap_is m1 (add_mset (a, ?n) (add_mset (child, blank 0 8) ?M))" using m1(2) by (simp add: add_mset_commute)
  let ?len = "raxNodeCurrentLength (?n\<lparr>chars := 0 # chars ?n\<rparr>)"
  have len: "raxNodeCurrentLength ?n \<le> ?len" using raxPadding_mono [of "rsize n"] assms(2) by (simp add: raxNodeCurrentLength_def)
  obtain a' m2 where m2: "resize_node al m1 a ?len = Some (Some (a', m2))" "heap_is m2 (add_mset (a', ?n\<lparr>cap := ?len\<rparr>) (add_mset (child, blank 0 8) ?M))"
    using resize_ok [OF h1 len] by blast
  have ts: "length ts = rsize n" using assms(2,3) by (simp add: node_ok_def edges_def)
  have pos: "?pos \<le> rsize n" by (rule edge_pos_le)
  let ?n' = "n\<lparr>chars := insert_at ?pos c (chars n), cap := ?len\<rparr>"
  let ?n2 = "?n\<lparr>cap := ?len, chars := insert_at ?pos c (chars n), kids := insert_at ?pos (Some child) (kids ?n)\<rparr>"
  have len2: "raxNodeCurrentLength ?n2 \<le> cap ?n2" using pos by (simp add: raxNodeCurrentLength_def)
  obtain m3 where m3: "put_node m2 a' ?n2 = Some m3" "heap_is m3 (add_mset (a', ?n2) (add_mset (child, blank 0 8) ?M))"
    using put_node_ok [OF m2(2) len2] by blast
  let ?T = "RT a' ?n' (take ?pos ts @ new_leaf child # drop ?pos ts)"
  have n2: "?n2 = linked ?n' (map root (take ?pos ts @ new_leaf child # drop ?pos ts))"
    by (simp add: linked_def insert_at_def take_map drop_map)
  have f: "forest (take ?pos ts) + forest (drop ?pos ts) = forest ts" by (simp flip: sum_list_append map_append)
  have "rt_nodes ?T + M = add_mset (a', ?n2) (add_mset (child, blank 0 8) ?M)" using n2 by (simp add: f [symmetric] ac_simps)
  then have T: "heap_is m3 (rt_nodes ?T + M)" using m3(2) by (simp only:)
  have ok: "node_ok ?n' (Suc (length ts))" using assms(2-4) len2 pos ts edge_pos_sorted [of "chars n" c]
    by (auto simp: node_ok_def edges_def raxNodeCurrentLength_def)
  have run: "raxAddChild al m a c = Some (Some ((a', child, ?pos), m3))"
    using heap_is_get [OF h] heap_is_get [OF m2(2)] m1(1) m2(1) m3(1) assms(2) by (simp add: raxAddChild_def raxNewNode_leaf)
  show ?thesis
    by (rule exI [of _ a'], rule exI [of _ child], rule exI [of _ ?pos], rule exI [of _ m3], rule exI [of _ ?n'])
      (use run ok T pos ts assms(2) in \<open>simp add: own_def edges_def del: rt_nodes.simps\<close>)
qed

lemma raxCompressNode_ok:
  assumes "heap_is m (rt_nodes (RT a n []) + M)" "\<not> iscompr n" "node_ok n 0" "s \<noteq> []"
  shows "\<exists>a' child m' n'. raxCompressNode al m a s = Some (Some ((a', child), m')) \<and>
     heap_is m' (rt_nodes (RT a' n' [new_leaf child]) + M) \<and> node_ok n' 1 \<and>
     iskey n' = iskey n \<and> own n' = own n \<and> edges n' = [s] \<and> chars n' = s"
proof -
  let ?n = "linked n []"
  have h: "heap_is m (add_mset (a, ?n) M)" using assms(1) by simp
  have cs: "chars n = []" using assms(2,3) by (simp add: node_ok_def edges_def)
  obtain child m1 where m1: "rax_block al m 0 8 = Some (child, m1)" "heap_is m1 (add_mset (child, blank 0 8) (add_mset (a, ?n) M))"
    using block_ok [OF h] by blast
  have h1: "heap_is m1 (add_mset (a, ?n) (add_mset (child, blank 0 8) M))" using m1(2) by (simp add: add_mset_commute)
  let ?len = "4 + length s + raxPadding (length s) + 8 + (if iskey ?n \<and> \<not> isnull ?n then 8 else 0)"
  have len: "raxNodeCurrentLength ?n \<le> ?len" using cs assms(2,4) by (simp add: raxNodeCurrentLength_def)
  obtain a' m2 where m2: "resize_node al m1 a ?len = Some (Some (a', m2))" "heap_is m2 (add_mset (a', ?n\<lparr>cap := ?len\<rparr>) (add_mset (child, blank 0 8) M))"
    using resize_ok [OF h1 len] by blast
  let ?n' = "n\<lparr>iscompr := True, chars := s, cap := ?len\<rparr>"
  let ?n2 = "?n\<lparr>cap := ?len, iscompr := True, chars := s, kids := [Some child]\<rparr>"
  have n2: "?n2 = linked ?n' [child]" by (simp add: linked_def)
  have ok: "node_ok ?n' 1" using assms(3,4) by (simp add: node_ok_def edges_def raxNodeCurrentLength_def)
  have d: "raxSetData ?n2 (if isnull n then None else nval n) = Some ?n2" if "iskey n"
    using that ok by (auto simp: raxSetData_def node_ok_def linked_def raxNodeCurrentLength_def)
  obtain m3 where m3: "put_node m2 a' ?n2 = Some m3" "heap_is m3 (add_mset (a', ?n2) (add_mset (child, blank 0 8) M))"
    using put_node_ok [OF m2(2), of ?n2] ok by (auto simp: node_ok_def raxNodeCurrentLength_def)
  have run: "raxCompressNode al m a s = Some (Some ((a', child), m3))"
    using heap_is_get [OF h] heap_is_get [OF m2(2)] m1(1) m2(1) m3(1) assms(2) cs d raxGetData_ok [OF assms(3)]
    by (auto simp: raxCompressNode_def raxNewNode_leaf Let_def)
  show ?thesis
    by (rule exI [of _ a'], rule exI [of _ child], rule exI [of _ m3], rule exI [of _ ?n'])
      (use run ok m3(2) [unfolded n2] in \<open>simp add: own_def edges_def add_mset_commute\<close>)
qed

end

subsection \<open>Extending a tree\<close>

definition shape :: "'d rax \<Rightarrow> 'd rt \<Rightarrow> bool" where
  "shape rx t \<longleftrightarrow> heap_is (rheap rx) (rt_nodes t) \<and> rhead rx = root t \<and> wf_rt t \<and> numnodes rx = of_nat (size (rt_nodes t))"

definition with_data :: "'d raxNode \<Rightarrow> 'd option \<Rightarrow> 'd raxNode" where
  "with_data n data = n\<lparr>iskey := True, isnull := (data = None), nval := (if data = None then nval n else data)\<rparr>"

lemma with_data_simps [simp]:
  "iskey (with_data n d)" "iscompr (with_data n d) = iscompr n" "chars (with_data n d) = chars n" "cap (with_data n d) = cap n"
  "kids (with_data n d) = kids n" "edges (with_data n d) = edges n" "own (with_data n d) = [([], d)]"
  "with_data (linked n as) d = linked (with_data n d) as"
  by (simp_all add: with_data_def edges_def own_def linked_def)

lemma with_data_ok:
  assumes "node_ok n k" "raxNodeCurrentLength n + (if d = None \<or> (iskey n \<and> \<not> isnull n) then 0 else 8) \<le> sz"
  shows "raxSetData (n\<lparr>cap := sz\<rparr>) d = Some (with_data (n\<lparr>cap := sz\<rparr>) d)" "node_ok (with_data (n\<lparr>cap := sz\<rparr>) d) k"
proof -
  show "raxSetData (n\<lparr>cap := sz\<rparr>) d = Some (with_data (n\<lparr>cap := sz\<rparr>) d)"
    using assms(2) by (subst raxSetData_ok) (simp_all add: with_data_def)
  show "node_ok (with_data (n\<lparr>cap := sz\<rparr>) d) k"
    using assms by (auto simp: with_data_def node_ok_def edges_def raxNodeCurrentLength_def split: if_splits)
qed

lemma linked_cap: "(linked n as)\<lparr>cap := sz\<rparr> = linked (n\<lparr>cap := sz\<rparr>) as"
  by (simp add: linked_def)

lemma node_ok_cap: "node_ok n k \<Longrightarrow> raxNodeCurrentLength n \<le> sz \<Longrightarrow> node_ok (n\<lparr>cap := sz\<rparr>) k"
  by (auto simp: node_ok_def edges_def)

lemma edges_cap [simp]: "edges (n\<lparr>cap := sz\<rparr>) = edges n" "edges (linked n as) = edges n" "own (n\<lparr>cap := sz\<rparr>) = own n"
  by (simp_all add: edges_def own_def linked_def)

lemma relink:
  assumes "heap_is m (ctx_nodes C x + rt_nodes t)" "rhead rx = ctx_head C x"
  shows "\<exists>m'. set_link (rx\<lparr>rheap := m\<rparr>) (link_of C) (root t) = Some (rx\<lparr>rheap := m', rhead := root (plug C t)\<rparr>) \<and>
     heap_is m' (rt_nodes (plug C t))"
  using set_link_ctx [of "rx\<lparr>rheap := m\<rparr>" C x "rt_nodes t" "root t"] assms by (auto simp: rt_nodes_plug root_plug)

lemma shape_focus:
  "shape rx (plug C (RT a n ts)) \<Longrightarrow> heap_is (rheap rx) (add_mset (a, linked n (map root ts)) (forest ts + ctx_nodes C a)) \<and>
     rhead rx = ctx_head C a \<and> node_ok n (length ts) \<and> wf_ctx C \<and> (\<forall>t \<in> set ts. wf_rt t)"
  by (auto simp: shape_def rt_nodes_plug root_plug wf_plug ac_simps)

lemma shape_plug:
  "heap_is (rheap rx) (rt_nodes (plug C t)) \<Longrightarrow> rhead rx = root (plug C t) \<Longrightarrow> wf_ctx C \<Longrightarrow> wf_rt t \<Longrightarrow>
     numnodes rx = of_nat (size (ctx_nodes C x) + size (rt_nodes t)) \<Longrightarrow> shape rx (plug C t)"
  using size_ctx_nodes [of C x "root t"] by (simp add: shape_def wf_plug rt_nodes_plug)

context rax_memory
begin

lemma insert_leaf_ok:
  assumes "shape rx (plug C (RT a n ts))" "\<not> iskey n"
  shows "\<exists>rx' a' n'. insert_leaf al rx s i a (link_of C) data = Some (insert_done, rx') \<and> shape rx' (plug C (RT a' n' ts)) \<and>
     numele rx' = numele rx + 1 \<and> iskey n' \<and> own n' = [([], data)] \<and> edges n' = edges n"
proof -
  let ?as = "map root ts" let ?M = "forest ts + ctx_nodes C a"
  note f = shape_focus [OF assms(1)]
  have h: "heap_is (rheap rx) (add_mset (a, linked n ?as) ?M)" and ok: "node_ok n (length ts)" using f by blast+
  have l: "raxNodeCurrentLength (linked n ?as) \<le> cap (linked n ?as)" using ok by (simp add: node_ok_def)
  obtain a' m1 sz where m1: "raxReallocForData al (rheap rx) a data = Some (Some (a', m1))"
    "heap_is m1 (add_mset (a', linked (n\<lparr>cap := sz\<rparr>) ?as) ?M)" "raxNodeCurrentLength n + (if data = None then 0 else 8) \<le> sz"
    using realloc_data_ok [OF h l, of data] by (auto simp: linked_cap)
  have "raxNodeCurrentLength (linked n ?as) + (if data = None \<or> (iskey (linked n ?as) \<and> \<not> isnull (linked n ?as)) then 0 else 8) \<le> sz"
    using m1(3) assms(2) by simp
  then have d: "raxSetData (linked (n\<lparr>cap := sz\<rparr>) ?as) data = Some (linked (with_data (n\<lparr>cap := sz\<rparr>) data) ?as)"
    using raxSetData_ok [of "linked (n\<lparr>cap := sz\<rparr>) ?as" data] by (simp flip: with_data_def)
  let ?n = "with_data (n\<lparr>cap := sz\<rparr>) data"
  have ok': "node_ok ?n (length ts)" using with_data_ok(2) [OF ok, of data sz] m1(3) assms(2) by simp
  obtain m2 where m2: "put_node m1 a' (linked ?n ?as) = Some m2" "heap_is m2 (add_mset (a', linked ?n ?as) ?M)"
    using put_node_ok [OF m1(2), of "linked ?n ?as"] ok' by (auto simp: node_ok_def)
  have "heap_is m2 (ctx_nodes C a + rt_nodes (RT a' ?n ts))" using m2(2) by (simp add: ac_simps)
  from relink [OF this, of "rx\<lparr>numele := numele rx + 1\<rparr>"] f obtain m3 where
    m3: "set_link (rx\<lparr>numele := numele rx + 1, rheap := m2\<rparr>) (link_of C) a' = Some (rx\<lparr>numele := numele rx + 1, rheap := m3, rhead := root (plug C (RT a' ?n ts))\<rparr>)"
      "heap_is m3 (rt_nodes (plug C (RT a' ?n ts)))" by auto
  let ?rx = "rx\<lparr>numele := numele rx + 1, rheap := m3, rhead := root (plug C (RT a' ?n ts))\<rparr>"
  have "insert_leaf al rx s i a (link_of C) data = Some (insert_done, ?rx)"
    using m1(1) heap_is_get [OF m1(2)] d m2(1) m3(1) assms(2) by (simp add: insert_leaf_def)
  moreover have "shape ?rx (plug C (RT a' ?n ts))"
    by (rule shape_plug [where x = a]) (use m3(2) f ok' assms(1) in \<open>simp_all add: shape_def rt_nodes_plug\<close>)
  ultimately show ?thesis
    by (intro exI [of _ ?rx] exI [of _ a'] exI [of _ ?n]) simp
qed

end

lemma entries_insert_at:
  assumes "length (edges n) = length ts" "pos \<le> length ts" "edges n' = insert_at pos e (edges n)" "own n' = own n"
  shows "set (entries (RT a' n' (take pos ts @ t # drop pos ts))) = set (entries (RT a n ts)) \<union> pfx e ` set (entries t)"
proof -
  let ?E = "map entries ts"
  have l: "length (edges n') = length (take pos ?E) + Suc (length (drop pos ?E))" using assms(1-3) by simp
  have e: "take pos (edges n') = take pos (edges n)" "edges n' ! pos = e" "drop (Suc pos) (edges n') = drop pos (edges n)"
    using assms(1-3) by (simp_all add: insert_at_def nth_append)
  have "hung (edges n) ?E = hung (take pos (edges n)) (take pos ?E) @ hung (drop pos (edges n)) (drop pos ?E)"
    using assms(1,2) by (subst hung_append [symmetric]) simp_all
  then show ?thesis using hung_split [OF l, of "entries t"] e assms(2,4) by (auto simp: take_map drop_map)
qed

context rax_memory
begin

text \<open>One round of the loop: the node gets a child for the next characters, and the focus moves to that child.\<close>

lemma loop_round:
  assumes sh: "shape rx (plug C t)" and s: "s = path C @ r" "r \<noteq> []"
    and n: "t = RT a n ts" "\<not> iscompr n" "hd r \<notin> set (chars n)"
  shows "\<exists>rx' a' n' pos child k. insert_loop al rx s (length (path C)) a (link_of C) data =
       insert_loop al rx' s (length (path C) + k) child (Slot a' pos) data \<and> 0 < k \<and> k \<le> length r \<and> pos \<le> length ts \<and>
     shape rx' (plug C (RT a' n' (take pos ts @ new_leaf child # drop pos ts))) \<and> numele rx' = numele rx \<and>
     own n' = own n \<and> iskey n' = iskey n \<and> edges n' = insert_at pos (take k r) (edges n)"
proof -
  note f = shape_focus [OF sh [unfolded n(1)]]
  have h: "heap_is (rheap rx) (rt_nodes (RT a n ts) + ctx_nodes C a)" using f by (simp add: ac_simps)
  have hd: "s ! length (path C) = hd r" "length (path C) < length s" "drop (length (path C)) s = r" "length s - length (path C) = length r"
    using s by (auto simp: nth_append hd_conv_nth)
  have get: "rheap rx a = Some (linked n (map root ts))" using heap_is_get [OF conjunct1 [OF f]] .
  have fin: "\<exists>rx'. set_link (rx\<lparr>rheap := m\<rparr>) (link_of C) a' = Some rx' \<and> shape (rx'\<lparr>numnodes := numnodes rx' + 1\<rparr>) (plug C t') \<and> numele rx' = numele rx"
    if "heap_is m (rt_nodes t' + ctx_nodes C a)" "root t' = a'" "wf_rt t'" "size (rt_nodes t') = Suc (size (rt_nodes t))" for m t' a'
  proof -
    have "heap_is m (ctx_nodes C a + rt_nodes t')" using that(1) by (simp add: ac_simps)
    from relink [OF this, of rx] f that(2) obtain m' where m': "set_link (rx\<lparr>rheap := m\<rparr>) (link_of C) a' =
        Some (rx\<lparr>rheap := m', rhead := root (plug C t')\<rparr>)" "heap_is m' (rt_nodes (plug C t'))" by auto
    let ?rx = "rx\<lparr>rheap := m', rhead := root (plug C t')\<rparr>"
    have "shape (?rx\<lparr>numnodes := numnodes ?rx + 1\<rparr>) (plug C t')"
      by (rule shape_plug [where x = a]) (use m'(2) f that sh n(1) in \<open>simp_all add: shape_def rt_nodes_plug\<close>)
    then show ?thesis using m'(1) by simp
  qed
  show ?thesis
  proof (cases "chars n = [] \<and> 1 < length r")
    case True
    let ?k = "min (length r) RAX_NODE_MAX_SIZE"
    have ts: "ts = []" using True f n(2) by (simp add: node_ok_def edges_def)
    have k: "0 < ?k" "?k \<le> length r" "take ?k r \<noteq> []" using True s(2) by (auto simp: RAX_NODE_MAX_SIZE_def)
    obtain a' child m' n' where c: "raxCompressNode al (rheap rx) a (take ?k r) = Some (Some ((a', child), m'))"
      "heap_is m' (rt_nodes (RT a' n' [new_leaf child]) + ctx_nodes C a)" "node_ok n' 1" "iskey n' = iskey n" "own n' = own n" "edges n' = [take ?k r]"
      using raxCompressNode_ok [OF h [unfolded ts] n(2) _ k(3)] f [unfolded ts list.size] by blast
    have w: "wf_rt (RT a' n' [new_leaf child])" "size (rt_nodes (RT a' n' [new_leaf child])) = Suc (size (rt_nodes t))" using c(3) n(1) ts by simp_all
    obtain rx' where rx': "set_link (rx\<lparr>rheap := m'\<rparr>) (link_of C) a' = Some rx'" "numele rx' = numele rx"
      "shape (rx'\<lparr>numnodes := numnodes rx' + 1\<rparr>) (plug C (RT a' n' [new_leaf child]))"
      using fin [OF c(2) rt.sel(1) w] by blast
    let ?rx = "rx'\<lparr>numnodes := numnodes rx' + 1\<rparr>"
    have run: "insert_loop al rx s (length (path C)) a (link_of C) data = insert_loop al ?rx s (length (path C) + ?k) child (Slot a' 0) data"
      using hd get True c(1) rx'(1) by (subst insert_loop.simps) simp
    have e: "edges n = []" using True n(2) by (simp add: edges_def)
    show ?thesis
      by (rule exI [of _ ?rx], rule exI [of _ a'], rule exI [of _ n'], rule exI [of _ 0], rule exI [of _ child], rule exI [of _ ?k])
        (use run e k c rx' ts in \<open>simp add: insert_at_def\<close>)
  next
    case False
    obtain a' child pos m' n' where c: "raxAddChild al (rheap rx) a (hd r) = Some (Some ((a', child, pos), m'))" "pos \<le> length ts"
      "heap_is m' (rt_nodes (RT a' n' (take pos ts @ new_leaf child # drop pos ts)) + ctx_nodes C a)" "node_ok n' (Suc (length ts))"
      "iskey n' = iskey n" "own n' = own n" "edges n' = insert_at pos [hd r] (edges n)"
      using raxAddChild_ok [OF h n(2) _ n(3)] f by blast
    let ?t = "RT a' n' (take pos ts @ new_leaf child # drop pos ts)"
    have "forest (take pos ts) + forest (drop pos ts) = forest ts" by (simp flip: sum_list_append map_append)
    then have sz: "size (rt_nodes ?t) = Suc (size (rt_nodes t))" using n(1) by (simp flip: size_union)
    have w: "wf_rt ?t" using c(2,4) f by (auto dest: in_set_takeD in_set_dropD)
    obtain rx' where rx': "set_link (rx\<lparr>rheap := m'\<rparr>) (link_of C) a' = Some rx'" "numele rx' = numele rx"
      "shape (rx'\<lparr>numnodes := numnodes rx' + 1\<rparr>) (plug C ?t)"
      using fin [OF c(3) rt.sel(1) w sz] by blast
    let ?rx = "rx'\<lparr>numnodes := numnodes rx' + 1\<rparr>"
    have run: "insert_loop al rx s (length (path C)) a (link_of C) data = insert_loop al ?rx s (length (path C) + 1) child (Slot a' pos) data"
      using hd get False c(1) rx'(1) by (subst insert_loop.simps) auto
    have e: "take 1 r = [hd r]" using s(2) by (cases r) auto
    show ?thesis
      by (rule exI [of _ ?rx], rule exI [of _ a'], rule exI [of _ n'], rule exI [of _ pos], rule exI [of _ child], rule exI [of _ 1])
        (use run e c rx' s(2) in \<open>simp add: Suc_le_eq\<close>)
  qed
qed

lemma insert_loop_ok:
  assumes "shape rx (plug C (RT a n ts))" "s = path C @ r" "r = [] \<Longrightarrow> \<not> iskey n" "r \<noteq> [] \<Longrightarrow> \<not> iscompr n \<and> hd r \<notin> set (chars n)"
    "\<forall>u \<in> set ts. live u"
  shows "\<exists>rx' t'. insert_loop al rx s (length (path C)) a (link_of C) data = Some (insert_done, rx') \<and> shape rx' (plug C t') \<and>
     numele rx' = numele rx + 1 \<and> set (entries t') = insert (r, data) (set (entries (RT a n ts))) \<and> live t'"
  using assms
proof (induction "length r" arbitrary: rx C a n ts r rule: less_induct)
  case less
  show ?case
  proof (cases "r = []")
    case True
    then have k: "\<not> iskey n" "own n = []" using less.prems(3) by (simp_all add: own_def)
    obtain rx' a' n' where i: "insert_leaf al rx s (length (path C)) a (link_of C) data = Some (insert_done, rx')" "shape rx' (plug C (RT a' n' ts))"
      "numele rx' = numele rx + 1" "iskey n'" "own n' = [([], data)]" "edges n' = edges n"
      using insert_leaf_ok [OF less.prems(1) k(1)] by blast
    have "insert_loop al rx s (length (path C)) a (link_of C) data = Some (insert_done, rx')"
      using less.prems(2) True i(1) by (subst insert_loop.simps) simp
    then show ?thesis using i k(2) True less.prems(5) by (intro exI [of _ rx'] exI [of _ "RT a' n' ts"]) simp
  next
    case False
    obtain rx1 a' n' pos child k where l: "insert_loop al rx s (length (path C)) a (link_of C) data =
         insert_loop al rx1 s (length (path C) + k) child (Slot a' pos) data" "0 < k" "k \<le> length r" "pos \<le> length ts"
      "shape rx1 (plug C (RT a' n' (take pos ts @ new_leaf child # drop pos ts)))" "numele rx1 = numele rx"
      "own n' = own n" "edges n' = insert_at pos (take k r) (edges n)"
      using loop_round [OF less.prems(1,2) False refl] less.prems(4) [OF False] by blast
    have len: "length (edges n) = length ts" using shape_focus [OF less.prems(1)] by (simp add: node_ok_def)
    let ?F = "Frame a' n' (take pos ts) (drop pos ts)"
    have p: "path (?F # C) = path C @ take k r" "link_of (?F # C) = Slot a' pos" "length (path (?F # C)) = length (path C) + k"
      using l(3,4,8) len by (simp_all add: insert_at_def nth_append min_def)
    have "length (drop k r) < length r" using l(2,3) by simp
    moreover have "shape rx1 (plug (?F # C) (new_leaf child))" "s = path (?F # C) @ drop k r" using l(5) less.prems(2) p(1) by simp_all
    ultimately obtain rx' t2 where ih: "insert_loop al rx1 s (length (path (?F # C))) child (link_of (?F # C)) data = Some (insert_done, rx')"
      "shape rx' (plug (?F # C) t2)" "numele rx' = numele rx1 + 1" "set (entries t2) = insert (drop k r, data) (set (entries (new_leaf child)))" "live t2"
      using less.hyps [of "drop k r" rx1 "?F # C" child "blank 0 8" "[]"] by force
    let ?t = "RT a' n' (take pos ts @ t2 # drop pos ts)"
    have "set (entries ?t) = insert (r, data) (set (entries (RT a n ts)))"
      using entries_insert_at [OF len l(4,8,7), of a' t2 a] ih(4) by simp
    moreover have "live ?t" using ih(5) less.prems(5) by (auto dest: in_set_takeD in_set_dropD)
    ultimately show ?thesis using l(1,6) ih(1-3) unfolding p(2,3) by (intro exI [of _ rx'] exI [of _ ?t]) simp
  qed
qed

lemma insert_existing_ok:
  assumes "shape rx (plug C (RT a n ts))"
  shows "\<exists>rx' a' n'. insert_existing al rx a (link_of C) data overwrite =
       Some (if iskey n then \<lparr>result = False, old_data = raxGetData n, enomem = False\<rparr> else insert_done, rx') \<and>
     shape rx' (plug C (RT a' n' ts)) \<and> numele rx' = numele rx + (if iskey n then 0 else 1) \<and>
     iskey n' \<and> own n' = (if iskey n \<and> \<not> overwrite then own n else [([], data)]) \<and> edges n' = edges n"
proof -
  let ?as = "map root ts" let ?M = "forest ts + ctx_nodes C a"
  note f = shape_focus [OF assms]
  have h: "heap_is (rheap rx) (add_mset (a, linked n ?as) ?M)" and ok: "node_ok n (length ts)" using f by blast+
  have l: "raxNodeCurrentLength (linked n ?as) \<le> cap (linked n ?as)" using ok by (simp add: node_ok_def)
  show ?thesis
  proof (cases "\<not> iskey n \<or> (isnull n \<and> overwrite)")
    case True
    obtain a' m1 sz where m1: "raxReallocForData al (rheap rx) a data = Some (Some (a', m1))"
      "heap_is m1 (add_mset (a', linked (n\<lparr>cap := sz\<rparr>) ?as) ?M)" "raxNodeCurrentLength n + (if data = None then 0 else 8) \<le> sz"
      using realloc_data_ok [OF h l, of data] by (auto simp: linked_cap)
    let ?n1 = "n\<lparr>cap := sz\<rparr>" let ?n = "with_data ?n1 data"
    have "heap_is m1 (ctx_nodes C a + rt_nodes (RT a' ?n1 ts))" using m1(2) by (simp add: ac_simps)
    from relink [OF this, of rx] f obtain m2 where m2: "set_link (rx\<lparr>rheap := m1\<rparr>) (link_of C) a' =
        Some (rx\<lparr>rheap := m2, rhead := root (plug C (RT a' ?n1 ts))\<rparr>)" "heap_is m2 (rt_nodes (plug C (RT a' ?n1 ts)))" by auto
    have h2: "heap_is m2 (add_mset (a', linked ?n1 ?as) (forest ts + ctx_nodes C a'))" using m2(2) by (simp add: rt_nodes_plug ac_simps)
    have d: "raxSetData (linked ?n1 ?as) data = Some (linked ?n ?as)"
      using raxSetData_ok [of "linked ?n1 ?as" data] m1(3) by (simp flip: with_data_def split: if_splits)
    have ok': "node_ok ?n (length ts)" using with_data_ok(2) [OF ok, of data sz] m1(3) by (simp split: if_splits)
    obtain m3 where m3: "put_node m2 a' (linked ?n ?as) = Some m3" "heap_is m3 (add_mset (a', linked ?n ?as) (forest ts + ctx_nodes C a'))"
      using put_node_ok [OF h2, of "linked ?n ?as"] ok' by (auto simp: node_ok_def)
    let ?rx = "rx\<lparr>rheap := m3, rhead := root (plug C (RT a' ?n ts)), numele := numele rx + (if iskey n then 0 else 1)\<rparr>"
    have r: "root (plug C (RT a' ?n1 ts)) = root (plug C (RT a' ?n ts))" by (simp add: root_plug)
    have run: "insert_existing al rx a (link_of C) data overwrite =
       Some (if iskey n then \<lparr>result = False, old_data = raxGetData n, enomem = False\<rparr> else insert_done, ?rx)"
      using heap_is_get [OF h] True m1(1) m2(1) heap_is_get [OF h2] d m3(1) r raxGetData_ok [OF ok]
      by (auto simp: insert_existing_def raxGetData_def)
    have sh: "shape ?rx (plug C (RT a' ?n ts))"
      by (rule shape_plug [where x = a]) (use m3(2) f ok' assms in \<open>simp_all add: shape_def rt_nodes_plug ac_simps\<close>)
    show ?thesis
      by (rule exI [of _ ?rx], rule exI [of _ a'], rule exI [of _ ?n]) (use run sh True in auto)
  next
    case False
    show ?thesis
    proof (cases overwrite)
      case o: True
      let ?n = "with_data n data"
      have d: "raxSetData (linked n ?as) data = Some (linked ?n ?as)"
        using raxSetData_ok [of "linked n ?as" data] l False o by (auto simp flip: with_data_def)
      have "node_ok (with_data (n\<lparr>cap := cap n\<rparr>) data) (length ts)" by (rule with_data_ok(2) [OF ok]) (use False o ok in \<open>simp add: node_ok_def\<close>)
      then have ok': "node_ok ?n (length ts)" by simp
      obtain m3 where m3: "put_node (rheap rx) a (linked ?n ?as) = Some m3" "heap_is m3 (add_mset (a, linked ?n ?as) ?M)"
        using put_node_ok [OF h, of "linked ?n ?as"] ok' by (auto simp: node_ok_def)
      let ?rx = "rx\<lparr>rheap := m3\<rparr>"
      have run: "insert_existing al rx a (link_of C) data overwrite = Some (\<lparr>result = False, old_data = raxGetData n, enomem = False\<rparr>, ?rx)"
        using heap_is_get [OF h] False o d m3(1) raxGetData_ok [OF ok] by (auto simp: insert_existing_def)
      have sh: "shape ?rx (plug C (RT a ?n ts))"
        by (rule shape_plug [where x = a]) (use m3(2) f ok' assms in \<open>simp_all add: shape_def rt_nodes_plug root_plug ac_simps\<close>)
      show ?thesis
        by (rule exI [of _ ?rx], rule exI [of _ a], rule exI [of _ ?n]) (use run sh False o in auto)
    next
      case o: False
      have "insert_existing al rx a (link_of C) data overwrite = Some (\<lparr>result = False, old_data = raxGetData n, enomem = False\<rparr>, rx)"
        using heap_is_get [OF h] False o raxGetData_ok [OF ok] by (auto simp: insert_existing_def)
      then show ?thesis using assms False o by auto
    qed
  qed
qed

end

subsection \<open>Splitting a compressed node\<close>

lemma piece_simps [simp]:
  "iskey (piece sz k nl cs c) = k" "isnull (piece sz k nl cs c) = nl" "chars (piece sz k nl cs c) = cs" "cap (piece sz k nl cs c) = sz"
  "nval (piece sz k nl cs c) = None" "linked (piece sz k nl cs c) [c] = piece sz k nl cs c" "(piece sz k nl cs c)\<lparr>cap := sz'\<rparr> = piece sz' k nl cs c"
  by (simp_all add: piece_def linked_def)

lemma piece_length: "cs \<noteq> [] \<Longrightarrow> raxNodeCurrentLength (piece sz k nl cs c) = piece_size (length cs) (k \<and> \<not> nl)"
  by (cases cs) (auto simp: raxNodeCurrentLength_def piece_def piece_size_def)

lemma piece_edges [simp]: "cs \<noteq> [] \<Longrightarrow> edges (piece sz k nl cs c) = [cs]"
  by (cases cs) (auto simp: edges_def piece_def)

lemma piece_compr [simp]: "iscompr (piece sz k nl cs c) = (1 < length cs)"
  by (simp add: piece_def)

lemma piece_ok: "cs \<noteq> [] \<Longrightarrow> \<not> k \<or> nl \<Longrightarrow> piece_size (length cs) False \<le> sz \<Longrightarrow> node_ok (piece sz k nl cs c) 1"
  by (cases cs) (auto simp: node_ok_def piece_length)

text \<open>A piece that gets the value of the node that is split.\<close>

lemma piece_data:
  fixes d :: "'a option"
  assumes "cs \<noteq> []" "piece_size (length cs) (d \<noteq> None) \<le> sz"
  shows "raxSetData (piece sz False False cs c) d = Some (with_data (piece sz False False cs c) d)"
    "node_ok (with_data (piece sz False False cs c) d) 1"
proof -
  let ?p = "piece sz False False cs c :: 'a raxNode"
  have ok: "node_ok ?p 1" using assms by (intro piece_ok) (auto simp: piece_size_def split: if_splits)
  have "raxNodeCurrentLength ?p + (if d = None \<or> False then 0 else 8) \<le> sz"
    using assms by (auto simp: piece_length piece_size_def)
  with with_data_ok [OF ok, of d sz] show "raxSetData (piece sz False False cs c) d = Some (with_data (piece sz False False cs c) d)"
    "node_ok (with_data (piece sz False False cs c) d) 1" by simp_all
qed

lemma linked_piece_data [simp]: "linked (with_data (piece sz k nl cs c) d) [c] = with_data (piece sz k nl cs c) d"
  by (simp flip: with_data_simps(8))

lemma compr_facts:
  assumes "node_ok n (length ts)" "iscompr n"
  shows "\<exists>t. ts = [t]" "edges n = [chars n]"
  using assms length_Suc_conv [of ts 0] by (simp_all add: node_ok_def edges_def)

context rax_memory
begin

lemma insert_inside_ok:
  assumes "shape rx (plug C (RT a n [t]))" "iscompr n" "0 < j" "j < rsize n"
  shows "\<exists>rx' tr tn po pn. insert_inside al rx a (link_of C) j data = Some (insert_done, rx') \<and>
     shape rx' (plug C (RT tr tn [RT po pn [t]])) \<and> numele rx' = numele rx + 1 \<and> own tn = own n \<and> own pn = [([], data)] \<and>
     edges tn = [take j (chars n)] \<and> edges pn = [drop j (chars n)] \<and> iskey pn"
proof -
  let ?M = "rt_nodes t + ctx_nodes C a" let ?n = "linked n [root t]"
  note f = shape_focus [OF assms(1)]
  have h: "heap_is (rheap rx) (add_mset (a, ?n) ?M)" and ok: "node_ok n 1" using f by auto
  let ?ps = "piece_size (rsize n - j) (data \<noteq> None)" let ?ts = "piece_size j (iskey n \<and> \<not> isnull n)"
  obtain po m1 where m1: "rax_block al (rheap rx) 0 ?ps = Some (po, m1)" "heap_is m1 (add_mset (po, blank 0 ?ps) (add_mset (a, ?n) ?M))"
    using block_ok [OF h] by blast
  obtain tr m2 where m2: "rax_block al m1 0 ?ts = Some (tr, m2)"
    "heap_is m2 (add_mset (tr, blank 0 ?ts) (add_mset (po, blank 0 ?ps) (add_mset (a, ?n) ?M)))" using block_ok [OF m1(2)] by blast
  have h2: "heap_is m2 (add_mset (po, blank 0 ?ps) (add_mset (tr, blank 0 ?ts) (add_mset (a, ?n) ?M)))" using m2(2) by (simp add: add_mset_commute)
  let ?pn = "with_data (piece ?ps False False (drop j (chars n)) (root t)) data"
  have pn: "raxSetData (piece ?ps False False (drop j (chars n)) (root t)) data = Some ?pn" "node_ok ?pn 1"
    using piece_data [of "drop j (chars n)" data ?ps] assms(4) by simp_all
  obtain m3 where m3: "put_node m2 po ?pn = Some m3" "heap_is m3 (add_mset (po, ?pn) (add_mset (tr, blank 0 ?ts) (add_mset (a, ?n) ?M)))"
    using put_node_ok [OF h2, of ?pn] pn(2) by (auto simp: node_ok_def)
  have h3: "heap_is m3 (add_mset (tr, blank 0 ?ts) (add_mset (po, ?pn) (add_mset (a, ?n) ?M)))" using m3(2) by (simp add: add_mset_commute)
  let ?d = "if isnull n then None else nval n"
  let ?p = "piece ?ts False False (take j (chars n)) po"
  let ?tn = "if iskey n then with_data ?p ?d else ?p"
  have c: "take j (chars n) \<noteq> []" "length (take j (chars n)) = j" using assms(3,4) by auto
  have val: "?d = None \<longleftrightarrow> isnull n" if "iskey n" using that ok by (auto simp: node_ok_def)
  have tn: "(if iskey n then do { aux \<leftarrow> raxGetData n; raxSetData ?p aux } else Some ?p) = Some ?tn" "node_ok ?tn 1"
    using piece_data [OF c(1), of ?d ?ts] piece_ok [OF c(1), of False False ?ts] c(2) val raxGetData_ok [OF ok] by (auto simp: piece_size_def)
  let ?N = "add_mset (tr, blank 0 ?ts) (add_mset (po, ?pn) (add_mset (a, ?n) (rt_nodes t)))"
  have "heap_is m3 (ctx_nodes C a + ?N)" using h3 by (simp add: ac_simps)
  then have "\<exists>m4. set_link (rx\<lparr>rheap := m3, numnodes := numnodes rx + 1\<rparr>) (link_of C) tr =
      Some (rx\<lparr>numnodes := numnodes rx + 1, rheap := m4, rhead := ctx_head C tr\<rparr>) \<and> heap_is m4 (ctx_nodes C tr + ?N)"
    using set_link_ctx [of "rx\<lparr>rheap := m3, numnodes := numnodes rx + 1\<rparr>" C a ?N tr] f by simp
  then obtain m4 where m4: "set_link (rx\<lparr>rheap := m3, numnodes := numnodes rx + 1\<rparr>) (link_of C) tr =
      Some (rx\<lparr>numnodes := numnodes rx + 1, rheap := m4, rhead := ctx_head C tr\<rparr>)" "heap_is m4 (ctx_nodes C tr + ?N)" by blast
  have h4: "heap_is m4 (add_mset (tr, blank 0 ?ts) (add_mset (a, ?n) (add_mset (po, ?pn) (rt_nodes t + ctx_nodes C tr))))"
    using m4(2) by (simp add: ac_simps add_mset_commute)
  obtain m5 where m5: "put_node m4 tr ?tn = Some m5" "heap_is m5 (add_mset (tr, ?tn) (add_mset (a, ?n) (add_mset (po, ?pn) (rt_nodes t + ctx_nodes C tr))))"
    using put_node_ok [OF h4, of ?tn] tn(2) unfolding node_ok_def by blast
  have h5: "heap_is m5 (add_mset (a, ?n) (add_mset (tr, ?tn) (add_mset (po, ?pn) (rt_nodes t + ctx_nodes C tr))))" using m5(2) by (simp add: add_mset_commute)
  obtain m6 where m6: "rax_free m5 a = Some m6" "heap_is m6 (add_mset (tr, ?tn) (add_mset (po, ?pn) (rt_nodes t + ctx_nodes C tr)))"
    using free_ok [OF h5] by blast
  let ?T = "RT tr ?tn [RT po ?pn [t]]"
  let ?rx = "rx\<lparr>numnodes := numnodes rx + 1, rhead := ctx_head C tr, rheap := m6, numele := numele rx + 1\<rparr>"
  have e: "linked ?tn [po] = ?tn" "own ?tn = own n" "edges ?tn = [take j (chars n)]"
    using c(1) by (simp_all add: own_def [of n] own_def [of "piece _ _ _ _ _"])
  have run: "insert_inside al rx a (link_of C) j data = Some (insert_done, ?rx)"
    using heap_is_get [OF h] m1(1) m2(1) heap_is_get [OF h2] pn(1) m3(1) heap_is_get [OF h3] tn(1) m4(1) m5(1) m6(1)
    by (simp add: insert_inside_def last_child_def Let_def split del: if_split cong: if_cong)
  have "heap_is m6 (rt_nodes (plug C ?T))" using m6(2) e(1) by (simp add: rt_nodes_plug ac_simps)
  then have sh: "shape ?rx (plug C ?T)"
    by (rule_tac shape_plug [where x = a]) (use f tn(2) pn(2) assms(1) in \<open>simp_all add: shape_def rt_nodes_plug root_plug\<close>)
  show ?thesis
    by (rule exI [of _ ?rx], rule exI [of _ tr], rule exI [of _ ?tn], rule exI [of _ po], rule exI [of _ ?pn]) (use run sh e assms(4) in simp)
qed

end

lemma piece_keyed_ok:
  assumes "cs \<noteq> []" "d \<noteq> None" "piece_size (length cs) True \<le> sz"
  shows "node_ok (with_data (piece sz True False cs c) d) 1"
proof -
  have "sorted_wrt (<) cs" if "length cs \<le> 1" using that assms(1) by (cases cs) auto
  moreover have "raxNodeCurrentLength (with_data (piece sz True False cs c) d) = piece_size (length cs) True"
    using assms by (cases cs) (auto simp: raxNodeCurrentLength_def with_data_def piece_size_def)
  moreover have "isnull (with_data (piece sz True False cs c) d) = False" "nval (with_data (piece sz True False cs c) d) = d"
    using assms(2) by (simp_all add: with_data_def)
  ultimately show ?thesis using assms by (simp add: node_ok_def)
qed

text \<open>Algorithm 1 step by step: the blocks, the front of the compressed node, its rest.\<close>

fun block_of :: "addr option \<Rightarrow> nat \<Rightarrow> (addr \<times> 'd raxNode) multiset" where
  "block_of None sz = {#}"
| "block_of (Some a) sz = {#(a, blank 0 sz)#}"

fun rest_tree :: "addr option \<Rightarrow> byte list \<Rightarrow> 'd rt \<Rightarrow> 'd rt" where
  "rest_tree None cs t = t"
| "rest_tree (Some a) cs t = RT a (piece (piece_size (length cs) False) False False cs (root t)) [t]"

lemma rest_tree_ok:
  assumes "p = None \<longleftrightarrow> cs = []"
  shows "(wf_rt t \<longrightarrow> wf_rt (rest_tree p cs t)) \<and> (live t \<longrightarrow> live (rest_tree p cs t)) \<and> entries (rest_tree p cs t) = map (pfx cs) (entries t) \<and>
    size (rt_nodes (rest_tree p cs t)) = size (rt_nodes t) + (if p = None then 0 else 1)"
proof (cases p)
  case None
  then show ?thesis using assms by simp
next
  case (Some a)
  then have cs: "cs \<noteq> []" using assms by simp
  let ?n = "piece (piece_size (length cs) False) False False cs (root t) :: 'a raxNode"
  have "node_ok ?n 1" by (rule piece_ok) (use cs in simp_all)
  moreover have "own ?n = []" by (simp add: own_def)
  ultimately show ?thesis using Some cs by simp
qed

lemma split_tail_ok:
  assumes "heap_is (rheap rx) (block_of p (piece_size (rsize n - j - 1) False) + (rt_nodes t + N))" "p = None \<longleftrightarrow> rsize n - j - 1 = 0"
    "u = rest_tree p (drop (j + 1) (chars n)) t"
  shows "\<exists>rx'. split_tail rx n j p (root t) = Some (rx', root u) \<and> heap_is (rheap rx') (rt_nodes u + N) \<and> rhead rx' = rhead rx \<and>
     numele rx' = numele rx \<and> numnodes rx' = numnodes rx + (if p = None then 0 else 1)"
proof (cases p)
  case None
  then show ?thesis using assms by (simp add: split_tail_def)
next
  case (Some a)
  let ?cs = "drop (j + 1) (chars n)" let ?sz = "piece_size (rsize n - j - 1) False"
  let ?n = "piece ?sz False False ?cs (root t)"
  have h: "heap_is (rheap rx) (add_mset (a, blank 0 ?sz) (rt_nodes t + N))" using assms(1) Some by simp
  have l: "length ?cs = rsize n - j - 1" "?cs \<noteq> []" using assms(2) Some by auto
  obtain m where m: "put_node (rheap rx) a ?n = Some m" "heap_is m (add_mset (a, ?n) (rt_nodes t + N))"
    using put_node_ok [OF h, of ?n] l by (auto simp: piece_length)
  then show ?thesis using heap_is_get [OF h] Some assms(3) l by (simp add: split_tail_def)
qed

context rax_memory
begin

lemma split_blocks_ok:
  assumes "heap_is m M"
  shows "\<exists>sp tr po m'. split_blocks al m n j = Some ((sp, tr, po), m') \<and> (tr = None \<longleftrightarrow> j = 0) \<and> (po = None \<longleftrightarrow> rsize n - j - 1 = 0) \<and>
     heap_is m' (add_mset (sp, blank 1 (16 + (if j = 0 \<and> iskey n \<and> \<not> isnull n then 8 else 0)))
       (block_of tr (piece_size j (iskey n \<and> \<not> isnull n)) + (block_of po (piece_size (rsize n - j - 1) False) + M)))"
proof -
  let ?ssz = "16 + (if j = 0 \<and> iskey n \<and> \<not> isnull n then 8 else 0)"
  have nn: "raxNewNode al m 1 (j = 0 \<and> iskey n \<and> \<not> isnull n) = rax_block al m 1 ?ssz" by (simp add: raxNewNode_def)
  obtain sp m1 where m1: "rax_block al m 1 ?ssz = Some (sp, m1)" "heap_is m1 (add_mset (sp, blank 1 ?ssz) M)" using block_ok [OF assms] by blast
  have bi: "\<exists>x m'. block_if b al m sz = Some (x, m') \<and> (x = None \<longleftrightarrow> \<not> b) \<and> heap_is m' (block_of x sz + K)" if "heap_is m K" for b m sz K
    using block_ok [OF that, of 0 sz] that by (auto simp: block_if_def)
  obtain tr m2 where m2: "block_if (j \<noteq> 0) al m1 (piece_size j (iskey n \<and> \<not> isnull n)) = Some (tr, m2)" "tr = None \<longleftrightarrow> j = 0"
    "heap_is m2 (block_of tr (piece_size j (iskey n \<and> \<not> isnull n)) + add_mset (sp, blank 1 ?ssz) M)" using bi [OF m1(2)] by blast
  obtain po m3 where m3: "block_if (rsize n - j - 1 \<noteq> 0) al m2 (piece_size (rsize n - j - 1) False) = Some (po, m3)" "po = None \<longleftrightarrow> rsize n - j - 1 = 0"
    "heap_is m3 (block_of po (piece_size (rsize n - j - 1) False) + (block_of tr (piece_size j (iskey n \<and> \<not> isnull n)) + add_mset (sp, blank 1 ?ssz) M))"
    using bi [OF m2(3)] by blast
  have "split_blocks al m n j = Some ((sp, tr, po), m3)" using nn m1(1) m2(1) m3(1) by (simp add: split_blocks_def)
  then show ?thesis using m2(2) m3(2,3) by (auto simp: ac_simps)
qed

end

lemma split_head_ok:
  assumes h: "heap_is (rheap rx) (ctx_nodes C a + add_mset (sp, sn) (block_of tr (piece_size j (iskey n \<and> \<not> isnull n)) + N))"
    and hd: "rhead rx = ctx_head C a" and ok: "node_ok n k" and tr: "tr = None \<longleftrightarrow> j = 0" "j < rsize n" and C: "wf_ctx C"
    and sn: "sn = (blank 1 (16 + (if j = 0 \<and> iskey n \<and> \<not> isnull n then 8 else 0)))\<lparr>chars := [c]\<rparr>"
  shows "\<exists>rx' C' sn'. split_head rx n j (link_of C) sp tr = Some (rx', link_of C') \<and>
     heap_is (rheap rx') (ctx_nodes C' sp + add_mset (sp, sn') N) \<and> rhead rx' = ctx_head C' sp \<and> numele rx' = numele rx \<and>
     numnodes rx' + of_nat (size (ctx_nodes C 0)) = numnodes rx + of_nat (size (ctx_nodes C' 0)) \<and> wf_ctx C' \<and>
     (live_ctx C \<longrightarrow> live_ctx C') \<and> path C' = path C @ take j (chars n) \<and> kids sn' = [None] \<and> node_ok sn' 1 \<and> chars sn' = [c] \<and> \<not> iscompr sn' \<and>
     (\<forall>x. entries x = own sn' @ map (pfx [c]) w \<longrightarrow> entries (plug C' x) = ctx_pre C @ map (pfx (path C)) (own n @ map (pfx (take j (chars n) @ [c])) w) @ ctx_post C)"
proof (cases tr)
  case None
  then have j: "j = 0" using tr by simp
  let ?d = "if isnull n then None else nval n"
  let ?sn = "if iskey n then with_data sn ?d else sn"
  have val: "?d = None \<longleftrightarrow> isnull n" if "iskey n" using that ok by (auto simp: node_ok_def)
  have ln: "raxNodeCurrentLength sn = 16" using sn by (simp add: raxNodeCurrentLength_def)
  have d: "raxSetData sn ?d = Some (with_data sn ?d)" if "iskey n"
    unfolding with_data_def by (rule raxSetData_ok) (use that val ln sn j in auto)
  have cap: "raxNodeCurrentLength ?sn \<le> cap ?sn" using ln sn j val by (auto simp: raxNodeCurrentLength_def with_data_def)
  have nok: "node_ok ?sn 1" using cap sn val by (auto simp: node_ok_def edges_def with_data_def)
  have h0: "heap_is (rheap rx) (add_mset (sp, sn) (ctx_nodes C a + N))" using h None by simp
  have "\<exists>m. (if iskey n then do { ndata \<leftarrow> raxGetData n; sn \<leftarrow> rheap rx sp; sn \<leftarrow> raxSetData sn ndata; put_node (rheap rx) sp sn }
      else Some (rheap rx)) = Some m \<and> heap_is m (ctx_nodes C a + add_mset (sp, ?sn) N)"
    using put_node_ok [OF h0 cap] heap_is_get [OF h0] d raxGetData_ok [OF ok] h0 by auto
  then obtain m where m: "(if iskey n then do { ndata \<leftarrow> raxGetData n; sn \<leftarrow> rheap rx sp; sn \<leftarrow> raxSetData sn ndata; put_node (rheap rx) sp sn }
      else Some (rheap rx)) = Some m" "heap_is m (ctx_nodes C a + add_mset (sp, ?sn) N)" by blast
  then obtain m' where m': "set_link (rx\<lparr>rheap := m\<rparr>) (link_of C) sp = Some (rx\<lparr>rheap := m', rhead := ctx_head C sp\<rparr>)"
      "heap_is m' (ctx_nodes C sp + add_mset (sp, ?sn) N)"
    using set_link_ctx [of "rx\<lparr>rheap := m\<rparr>" C a "add_mset (sp, ?sn) N" sp] hd by auto
  have own: "own ?sn = own n" using sn by (simp add: own_def [of n] own_def [of "blank _ _\<lparr>chars := _\<rparr>"])
  have sk: "kids ?sn = [None]" "chars ?sn = [c]" "\<not> iscompr ?sn" using sn by simp_all
  show ?thesis
    by (rule exI [of _ "rx\<lparr>rheap := m', rhead := ctx_head C sp\<rparr>"], rule exI [of _ C], rule exI [of _ ?sn])
      (use m m' None j nok sk C own in \<open>simp add: split_head_def entries_plug split del: if_split cong: if_cong\<close>)
next
  case (Some b)
  then have j: "j \<noteq> 0" using tr by simp
  let ?cs = "take j (chars n)" let ?v = "iskey n \<and> \<not> isnull n" let ?sz = "piece_size j ?v"
  let ?p = "piece ?sz (iskey n) (isnull n) ?cs sp :: 'a raxNode"
  let ?tn = "if ?v then with_data ?p (nval n) else ?p"
  have cs: "?cs \<noteq> []" "length ?cs = j" using j tr(2) by auto
  have ln: "raxNodeCurrentLength ?p = ?sz" using cs by (simp add: piece_length)
  have val: "nval n \<noteq> None" if ?v using that ok by (simp add: node_ok_def)
  have d: "raxSetData ?p (nval n) = Some (with_data ?p (nval n))" if ?v
    unfolding with_data_def by (rule raxSetData_ok) (use that ln in simp)
  have tn: "(if ?v then do { ndata \<leftarrow> raxGetData n; raxSetData ?p ndata } else Some ?p) = Some ?tn"
    using d raxGetData_ok [OF ok] by auto
  have cap: "raxNodeCurrentLength ?tn \<le> cap ?tn" using ln val by (auto simp: raxNodeCurrentLength_def with_data_def)
  have nok: "node_ok ?tn 1"
  proof (cases ?v)
    case True
    then have "?sz = piece_size (length ?cs) True" using cs(2) by simp
    then show ?thesis using True piece_keyed_ok [OF cs(1) val, of ?sz sp] by simp
  next
    case False
    have "node_ok ?p 1" by (rule piece_ok) (use cs False in auto)
    then show ?thesis using False by auto
  qed
  have tf: "own ?tn = own n" "edges ?tn = [?cs]" "linked ?tn [sp] = ?tn"
    using cs(1) by (auto simp: own_def [of n] own_def [of "piece _ _ _ _ _"])
  have h0: "heap_is (rheap rx) (add_mset (b, blank 0 ?sz) (add_mset (sp, sn) (ctx_nodes C a + N)))" using h Some by (simp add: add_mset_commute)
  obtain m where m: "put_node (rheap rx) b ?tn = Some m" "heap_is m (add_mset (b, ?tn) (add_mset (sp, sn) (ctx_nodes C a + N)))"
    using put_node_ok [OF h0 cap] by blast
  have "heap_is m (ctx_nodes C a + add_mset (b, ?tn) (add_mset (sp, sn) N))" using m(2) by (simp add: ac_simps)
  then have "\<exists>m'. set_link (rx\<lparr>rheap := m, numnodes := numnodes rx + 1\<rparr>) (link_of C) b = Some (rx\<lparr>numnodes := numnodes rx + 1, rheap := m', rhead := ctx_head C b\<rparr>) \<and>
      heap_is m' (ctx_nodes C b + add_mset (b, ?tn) (add_mset (sp, sn) N))"
    using set_link_ctx [of "rx\<lparr>rheap := m, numnodes := numnodes rx + 1\<rparr>" C a "add_mset (b, ?tn) (add_mset (sp, sn) N)" b] hd by simp
  then obtain m' where m': "set_link (rx\<lparr>rheap := m, numnodes := numnodes rx + 1\<rparr>) (link_of C) b = Some (rx\<lparr>numnodes := numnodes rx + 1, rheap := m', rhead := ctx_head C b\<rparr>)"
      "heap_is m' (ctx_nodes C b + add_mset (b, ?tn) (add_mset (sp, sn) N))" by blast
  let ?C = "Frame b ?tn [] [] # C"
  have run: "split_head rx n j (link_of C) sp tr = Some (rx\<lparr>numnodes := numnodes rx + 1, rheap := m', rhead := ctx_head C b\<rparr>, link_of ?C)"
    using Some heap_is_get [OF h0] tn m(1) m'(1) by (simp add: split_head_def Let_def split del: if_split cong: if_cong)
  have sk: "kids sn = [None]" "chars sn = [c]" "\<not> iscompr sn" "node_ok sn 1" "own sn = []" using sn j by (auto simp: node_ok_def edges_def raxNodeCurrentLength_def own_def)
  have hm: "heap_is m' (ctx_nodes ?C sp + add_mset (sp, sn) N)" using m'(2) tf(3) by (simp add: ac_simps)
  have wf: "wf_ctx ?C" "live_ctx C \<longrightarrow> live_ctx ?C" "path ?C = path C @ ?cs" using nok C tf(2) by simp_all
  have sz: "size (ctx_nodes ?C 0) = Suc (size (ctx_nodes C 0))" using size_ctx_nodes [of C b 0] by simp
  have en: "entries (plug ?C x) = ctx_pre C @ map (pfx (path C)) (own n @ map (pfx (?cs @ [c])) w) @ ctx_post C"
    if "entries x = own sn @ map (pfx [c]) w" for x
    using entries_plug [OF C, of "RT b ?tn [x]"] that tf sk(5) by (simp add: comp_def del: append_assoc)
  show ?thesis
    by (rule exI [of _ "rx\<lparr>numnodes := numnodes rx + 1, rheap := m', rhead := ctx_head C b\<rparr>"], rule exI [of _ ?C], rule exI [of _ sn])
      (use run hm wf sz sk en in \<open>simp del: ctx_nodes.simps wf_ctx.simps live_ctx.simps path.simps plug.simps link_of.simps\<close>)
qed

context rax_memory
begin

lemma insert_split_ok:
  assumes "shape rx (plug C (RT a n [t]))" "iscompr n" "j < rsize n"
  shows "\<exists>rx' C' sp sn u. insert_split al rx a (link_of C) j = Some (Some (rx', sp, link_of C')) \<and> shape rx' (plug C' (RT sp sn [u])) \<and>
     numele rx' = numele rx \<and> path C' = path C @ take j (chars n) \<and> \<not> iscompr sn \<and> chars sn = [chars n ! j] \<and>
     entries (plug C' (RT sp sn [u])) = entries (plug C (RT a n [t])) \<and> (live_ctx C \<longrightarrow> live_ctx C') \<and> (live t \<longrightarrow> live u)"
proof -
  let ?n = "linked n [root t]" let ?M = "rt_nodes t + ctx_nodes C a" let ?c = "chars n ! j"
  note f = shape_focus [OF assms(1)]
  have h: "heap_is (rheap rx) (add_mset (a, ?n) ?M)" and ok: "node_ok n 1" and C: "wf_ctx C" and wt: "wf_rt t" and hd: "rhead rx = ctx_head C a"
    using f by auto
  let ?ssz = "16 + (if j = 0 \<and> iskey ?n \<and> \<not> isnull ?n then 8 else 0)"
  let ?T = "piece_size j (iskey ?n \<and> \<not> isnull ?n)" let ?P = "piece_size (rsize ?n - j - 1) False"
  obtain sp tr po m1 where m1: "split_blocks al (rheap rx) ?n j = Some ((sp, tr, po), m1)" "tr = None \<longleftrightarrow> j = 0" "po = None \<longleftrightarrow> rsize ?n - j - 1 = 0"
    "heap_is m1 (add_mset (sp, blank 1 ?ssz) (block_of tr ?T + (block_of po ?P + add_mset (a, ?n) ?M)))"
    using split_blocks_ok [OF h, of ?n j] by (elim exE conjE)
  let ?sn = "(blank 1 ?ssz :: 'd raxNode)\<lparr>chars := [?c]\<rparr>"
  let ?N = "block_of po ?P + (rt_nodes t + {#(a, ?n)#})"
  obtain m2 where m2: "put_node m1 sp ?sn = Some m2" "heap_is m2 (add_mset (sp, ?sn) (block_of tr ?T + (block_of po ?P + add_mset (a, ?n) ?M)))"
    using put_node_ok [OF m1(4), of ?sn] by (auto simp: raxNodeCurrentLength_def)
  have h2: "heap_is (rheap (rx\<lparr>rheap := m2\<rparr>)) (ctx_nodes C a + add_mset (sp, ?sn) (block_of tr ?T + ?N))" using m2(2) by (simp add: ac_simps)
  have ok': "node_ok ?n 1" using ok by (simp add: node_ok_def edges_def cong: if_cong)
  let ?w = "map (pfx (drop (j + 1) (chars n))) (entries t)"
  obtain rx3 C' sn where s3: "split_head (rx\<lparr>rheap := m2\<rparr>) ?n j (link_of C) sp tr = Some (rx3, link_of C')"
      "heap_is (rheap rx3) (ctx_nodes C' sp + add_mset (sp, sn) ?N)" "rhead rx3 = ctx_head C' sp" "numele rx3 = numele rx"
      "numnodes rx3 + of_nat (size (ctx_nodes C 0)) = numnodes rx + of_nat (size (ctx_nodes C' 0))" "wf_ctx C'"
      "live_ctx C \<longrightarrow> live_ctx C'" "path C' = path C @ take j (chars n)" "kids sn = [None]" "node_ok sn 1" "chars sn = [?c]" "\<not> iscompr sn"
      "\<And>x. entries x = own sn @ map (pfx [?c]) ?w \<Longrightarrow>
         entries (plug C' x) = ctx_pre C @ map (pfx (path C)) (own n @ map (pfx (take j (chars n) @ [?c])) ?w) @ ctx_post C"
    using split_head_ok [OF h2 _ ok' m1(2) _ C refl, where w = ?w] hd assms(3) by (auto simp: own_def)
  define u where "u = rest_tree po (drop (j + 1) (chars n)) t"
  have "heap_is (rheap rx3) (block_of po ?P + (rt_nodes t + (ctx_nodes C' sp + {#(sp, sn), (a, ?n)#})))" using s3(2) by (simp add: ac_simps)
  then obtain rx4 where s4: "split_tail rx3 ?n j po (root t) = Some (rx4, root u)" "heap_is (rheap rx4) (rt_nodes u + (ctx_nodes C' sp + {#(sp, sn), (a, ?n)#}))"
      "rhead rx4 = rhead rx3" "numele rx4 = numele rx3" "numnodes rx4 = numnodes rx3 + (if po = None then 0 else 1)"
    using split_tail_ok [of rx3 po ?n j t "ctx_nodes C' sp + {#(sp, sn), (a, ?n)#}" u] m1(3) u_def by auto
  have u: "wf_rt u" "live t \<longrightarrow> live u" "entries u = ?w" "size (rt_nodes u) = size (rt_nodes t) + (if po = None then 0 else 1)"
    using rest_tree_ok [of po "drop (j + 1) (chars n)" t] m1(3) wt unfolding u_def by auto
  have "heap_is (rheap rx4) (add_mset (sp, sn) (add_mset (a, ?n) (rt_nodes u + ctx_nodes C' sp)))" using s4(2) by (simp add: ac_simps)
  then obtain m5 where m5: "set_link rx4 (Slot sp 0) (root u) = Some (rx4\<lparr>rheap := m5\<rparr>)"
      "heap_is m5 (add_mset (sp, linked sn [root u]) (add_mset (a, ?n) (rt_nodes u + ctx_nodes C' sp)))"
    using set_slot_ok [of rx4 sp sn _ 0 "root u"] s3(9) by (auto simp: linked_def)
  have "heap_is m5 (add_mset (a, ?n) (add_mset (sp, linked sn [root u]) (rt_nodes u + ctx_nodes C' sp)))" using m5(2) by (simp add: add_mset_commute)
  then obtain m6 where m6: "rax_free m5 a = Some m6" "heap_is m6 (add_mset (sp, linked sn [root u]) (rt_nodes u + ctx_nodes C' sp))"
    using free_ok by blast
  let ?rx = "rx4\<lparr>rheap := m6\<rparr>" let ?x = "RT sp sn [u]"
  have run: "insert_split al rx a (link_of C) j = Some (Some (?rx, sp, link_of C'))"
    using heap_is_get [OF h] assms(3) m1(1) heap_is_get [OF m1(4)] m2(1) s3(1) s4(1) m5(1) m6(1) by (simp add: insert_split_def last_child_def)
  have e: "edges sn = [[?c]]" "edges n = [chars n]" using s3(11,12) assms(2) by (simp_all add: edges_def)
  have nn: "numnodes rx + of_nat (size (ctx_nodes C' 0)) = of_nat (size (ctx_nodes C 0) + Suc (size (rt_nodes t)) + size (ctx_nodes C' 0))"
    using assms(1) size_ctx_nodes [of C a 0] by (simp add: shape_def rt_nodes_plug)
  have nn3: "numnodes rx3 = of_nat (Suc (size (rt_nodes t)) + size (ctx_nodes C' 0))"
    using s3(5) nn by (simp add: add_ac)
  have sh: "shape ?rx (plug C' ?x)"
  proof (rule shape_plug [where x = 0])
    show "heap_is (rheap ?rx) (rt_nodes (plug C' ?x))" using m6(2) by (simp add: rt_nodes_plug ac_simps)
    show "rhead ?rx = root (plug C' ?x)" using s3(3) s4(3) by (simp add: root_plug)
    show "wf_ctx C'" "wf_rt ?x" using s3(6,10) u(1) by simp_all
    show "numnodes ?rx = of_nat (size (ctx_nodes C' 0) + size (rt_nodes ?x))" using s4(5) nn3 u(4) by simp
  qed
  have "chars n = take j (chars n) @ [?c] @ drop (j + 1) (chars n)" using assms(3) by (simp add: id_take_nth_drop [symmetric])
  then have "map (pfx (take j (chars n) @ [?c])) ?w = map (pfx (chars n)) (entries t)" by (simp add: comp_def)
  then have en: "entries (plug C' ?x) = entries (plug C (RT a n [t]))"
    using s3(13) [of ?x] e u(3) entries_plug [OF C, of "RT a n [t]"] by simp
  show ?thesis
    by (rule exI [of _ ?rx], rule exI [of _ C'], rule exI [of _ sp], rule exI [of _ sn], rule exI [of _ u])
      (use run sh en s3 s4 u in simp)
qed

end

subsection \<open>The whole insertion\<close>

definition live_root :: "'d rt \<Rightarrow> bool" where
  "live_root t \<longleftrightarrow> (\<forall>u \<in> set (subs t). live u)"

lemma live_root_simps [simp]: "live_root (RT a n ts) \<longleftrightarrow> (\<forall>u \<in> set ts. live u)"
  by (simp add: live_root_def)

lemma live_live_root: "live t \<Longrightarrow> live_root t"
  by (cases t) (simp add: live_root_def)

lemma live_plug: "C \<noteq> [] \<Longrightarrow> live (plug C t) \<longleftrightarrow> live_ctx C \<and> live t"
  by (induction C t rule: plug.induct) (case_tac [!] C, auto)

lemma live_root_plug: "live_root (plug C t) \<longleftrightarrow> live_ctx C \<and> (if C = [] then live_root t else live t)"
proof (induction C t rule: plug.induct)
  case (2 a n ls rs C t)
  then show ?case by (auto simp: live_root_def)
qed simp

text \<open>A store that holds a tree, and the counters.\<close>

definition rax_rep :: "'d rax \<Rightarrow> 'd rt \<Rightarrow> bool" where
  "rax_rep rx t \<longleftrightarrow> shape rx t \<and> live_root t \<and> numele rx = of_nat (length (entries t))"

lemma length_entries: "wf_rt t \<Longrightarrow> length (entries t) = card (set (entries t))"
  using entries_distinct [of t] distinct_card distinct_map by metis

lemma entries_inserted:
  assumes "wf_rt t" "wf_rt t'" "set (entries t') = insert (s, d) (set (entries t))" "map_of (entries t) s = None"
  shows "map_of (entries t') = (map_of (entries t))(s \<mapsto> d)" "length (entries t') = Suc (length (entries t))"
proof -
  have n: "(s, v) \<notin> set (entries t)" for v using assms(4) by (force simp: map_of_eq_None_iff)
  have "map_of (entries t') k = Some v \<longleftrightarrow> ((map_of (entries t))(s \<mapsto> d)) k = Some v" for k v
    unfolding map_of_entries [OF assms(2)] using assms(3) n by (auto simp: map_of_entries [OF assms(1)])
  then show "map_of (entries t') = (map_of (entries t))(s \<mapsto> d)" by (intro ext) (metis option.exhaust)
  show "length (entries t') = Suc (length (entries t))" using assms(3) n by (simp add: length_entries [OF assms(1)] length_entries [OF assms(2)])
qed

lemma set_entries_plug:
  assumes "wf_ctx C" "set (entries t') = insert (r, d) (set (entries t))"
  shows "set (entries (plug C t')) = insert (path C @ r, d) (set (entries (plug C t)))"
  using assms(2) by (auto simp: entries_plug [OF assms(1)])

text \<open>What an insertion returns and leaves.\<close>

definition inserts :: "'d rt \<Rightarrow> byte list \<Rightarrow> 'd option \<Rightarrow> bool \<Rightarrow> 'd inserted \<Rightarrow> 'd rt \<Rightarrow> bool" where
  "inserts t s data overwrite r t' \<longleftrightarrow> (case map_of (entries t) s of
     None \<Rightarrow> r = insert_done \<and> map_of (entries t') = (map_of (entries t))(s \<mapsto> data)
   | Some old \<Rightarrow> r = \<lparr>result = False, old_data = Some old, enomem = False\<rparr> \<and>
       map_of (entries t') = (if overwrite then (map_of (entries t))(s \<mapsto> data) else map_of (entries t)))"

lemma inserts_new:
  assumes "rax_rep rx T" "shape rx' T'" "live_root T'" "numele rx' = numele rx + 1" "set (entries T') = insert (s, data) (set (entries T))"
    "map_of (entries T) s = None"
  shows "rax_rep rx' T' \<and> inserts T s data ov insert_done T'"
proof -
  have w: "wf_rt T" "wf_rt T'" using assms(1,2) by (simp_all add: rax_rep_def shape_def)
  show ?thesis using entries_inserted [OF w assms(5,6)] assms by (simp add: rax_rep_def inserts_def)
qed

lemma map_of_replace:
  assumes "distinct (map fst (xs @ (s, old) # ys))"
  shows "map_of (xs @ (s, d) # ys) = (map_of (xs @ (s, old) # ys))(s \<mapsto> d)"
proof -
  have "s \<notin> fst ` set xs" "s \<notin> fst ` set ys" using assms by auto
  then have "map_of xs s = None" "map_of ys s = None" by (simp_all add: map_of_eq_None_iff)
  then show ?thesis by (auto simp: fun_eq_iff map_add_def split: option.splits)
qed

context rax_memory
begin

lemma insert_existing_case:
  assumes rep: "rax_rep rx (plug C (RT a n ts))"
  shows "\<exists>r rx' t'. insert_existing al rx a (link_of C) data ov = Some (r, rx') \<and> rax_rep rx' t' \<and> inserts (plug C (RT a n ts)) (path C) data ov r t'"
proof -
  let ?t = "plug C (RT a n ts)"
  have sh: "shape rx ?t" and lv: "live_root ?t" and ne: "numele rx = of_nat (length (entries ?t))" using rep by (simp_all add: rax_rep_def)
  have w: "wf_rt ?t" "wf_ctx C" "wf_rt (RT a n ts)" using sh by (simp_all add: shape_def wf_plug)
  have look: "map_of (entries ?t) (path C) = (if iskey n then raxGetData n else None)"
    using lookup_plug [OF w(1), of "[]"] lookup_root [OF w(3)] by simp
  obtain rx' a' n' where e: "insert_existing al rx a (link_of C) data ov =
      Some (if iskey n then \<lparr>result = False, old_data = raxGetData n, enomem = False\<rparr> else insert_done, rx')"
      "shape rx' (plug C (RT a' n' ts))" "numele rx' = numele rx + (if iskey n then 0 else 1)" "iskey n'"
      "own n' = (if iskey n \<and> \<not> ov then own n else [([], data)])" "edges n' = edges n"
    using insert_existing_ok [OF sh] by blast
  let ?t' = "plug C (RT a' n' ts)"
  have lv': "live_root ?t'" using lv e(4) by (auto simp: live_root_plug split: if_splits)
  show ?thesis
  proof (cases "iskey n")
    case False
    then have "set (entries (RT a' n' ts)) = insert ([], data) (set (entries (RT a n ts)))" using e(5,6) by (simp add: own_def)
    from set_entries_plug [OF w(2) this] inserts_new [OF rep e(2) lv'] e(3) look False
    have "rax_rep rx' ?t' \<and> inserts ?t (path C) data ov insert_done ?t'" by simp
    then show ?thesis using e(1) False by auto
  next
    case True
    then obtain old where old: "raxGetData n = Some old" "own n = [([], old)]"
      using w(3) raxGetData_ok [of n "length ts"] by (auto simp: own_def)
    let ?X = "ctx_pre C" let ?Y = "map (pfx (path C)) (hung (edges n) (map entries ts)) @ ctx_post C"
    have E: "entries ?t = ?X @ (path C, old) # ?Y" using entries_plug [OF w(2), of "RT a n ts"] old(2) by simp
    have E': "entries ?t' = ?X @ (path C, if ov then data else old) # ?Y" using entries_plug [OF w(2), of "RT a' n' ts"] old(2) e(5,6) True by simp
    have "map_of (entries ?t') = (if ov then (map_of (entries ?t))(path C \<mapsto> data) else map_of (entries ?t))"
      using map_of_replace [of ?X "path C" old ?Y data] entries_distinct [OF w(1)] E E' by (simp del: map_of_append map_of.simps)
    then show ?thesis using e(1-3) True old lv' ne look E E' by (auto simp: inserts_def rax_rep_def)
  qed
qed

lemma raxGenericInsert_ok:
  assumes rep: "rax_rep rx t"
  shows "\<exists>r rx' t'. raxGenericInsert al rx s data ov = Some (r, rx') \<and> rax_rep rx' t' \<and> inserts t s data ov r t'"
proof -
  have sh: "shape rx t" and w: "wf_rt t" using rep by (simp_all add: rax_rep_def shape_def)
  obtain C u j r where wk: "raxLowWalk al rx s None = Some (length (path C) + j, root u, link_of C, j, None)" "plug C u = t"
      "s = path C @ r" "stops_at (info u) r j"
    using raxLowWalk_ok [where rx = rx and t = t and ts = None and al = al and s = s] sh by (auto simp: shape_def)
  obtain a n ts where u: "u = RT a n ts" by (cases u)
  note f = shape_focus [OF sh [folded wk(2), unfolded u]]
  have get: "rheap rx a = Some (linked n (map root ts))" using heap_is_get [OF conjunct1 [OF f]] .
  have wu: "wf_rt u" "wf_ctx C" using w wk(2) wf_plug by blast+
  have lv: "live_ctx C" "\<forall>v \<in> set ts. live v" using rep wk(2) u by (auto simp: rax_rep_def live_root_plug split: if_splits)
  have new: "\<exists>r rx' t'. Some (insert_done, rx1) = Some (r, rx') \<and> rax_rep rx' t' \<and> inserts t s data ov r t'"
    if "r \<noteq> []" "shape rx1 (plug D v)" "live_ctx D" "live v" "numele rx1 = numele rx + 1" "set (entries (plug D v)) = insert (s, data) (set (entries t))" for rx1 D v
  proof -
    have "map_of (entries t) s = None" using lookup_plug [of C u r] lookup_stops [OF wu(1) wk(4) that(1)] w wk(2,3) by simp
    moreover have "live_root (plug D v)" using that(3,4) by (simp add: live_root_plug live_live_root)
    ultimately show ?thesis using inserts_new [OF rep that(2) _ that(5,6)] by blast
  qed
  show ?thesis
  proof (cases "r = []")
    case True
    then have "j = 0" using wk(4) by (simp add: stops_at_def)
    then have "raxGenericInsert al rx s data ov = insert_existing al rx a (link_of C) data ov"
      using True wk(1,3) u get by (simp add: raxGenericInsert_def)
    then show ?thesis using insert_existing_case [of rx C a n ts data ov] rep wk(2,3) u True by simp
  next
    case r: False
    show ?thesis
    proof (cases "iscompr n")
      case False
      then have j: "j = 0" "hd r \<notin> set (chars n)" using wk(4) r u by (simp_all add: stops_at_def)
      obtain rx1 v where l: "insert_loop al rx s (length (path C)) a (link_of C) data = Some (insert_done, rx1)" "shape rx1 (plug C v)"
          "numele rx1 = numele rx + 1" "set (entries v) = insert (r, data) (set (entries (RT a n ts)))" "live v"
        using insert_loop_ok [OF sh [folded wk(2), unfolded u] wk(3)] r j False lv by blast
      have "raxGenericInsert al rx s data ov = Some (insert_done, rx1)" using wk(1,3) u get r j False l(1) by (simp add: raxGenericInsert_def)
      moreover have "set (entries (plug C v)) = insert (s, data) (set (entries t))" using set_entries_plug [OF wu(2) l(4)] wk(2,3) u by simp
      ultimately show ?thesis using new [OF r l(2) lv(1) l(5,3)] by simp
    next
      case cm: True
      then have j: "j = match_len (chars n) r" "j < rsize n" using wk(4) r u by (simp_all add: stops_at_def)
      obtain t1 where ts: "ts = [t1]" "edges n = [chars n]" using compr_facts [of n ts] f cm by auto
      show ?thesis
      proof (cases "j = length r")
        case True
        then have j0: "0 < j" "take j (chars n) = r" using r match_len_take(1) [of "chars n" r] j by auto
        obtain rx1 tr tn po pn where i: "insert_inside al rx a (link_of C) j data = Some (insert_done, rx1)"
            "shape rx1 (plug C (RT tr tn [RT po pn [t1]]))" "numele rx1 = numele rx + 1" "own tn = own n" "own pn = [([], data)]"
            "edges tn = [take j (chars n)]" "edges pn = [drop j (chars n)]"
          using insert_inside_ok [OF sh [folded wk(2), unfolded u ts] cm j0(1) j(2)] by blast
        let ?v = "RT tr tn [RT po pn [t1]]"
        have "raxGenericInsert al rx s data ov = Some (insert_done, rx1)" using wk(1,3) u get True j0(1) cm i(1) by (simp add: raxGenericInsert_def)
        moreover have v: "set (entries ?v) = insert (r, data) (set (entries (RT a n ts)))"
          using i(4-7) ts j0(2) append_take_drop_id [of j "chars n"] by (simp add: comp_def)
        have "set (entries (plug C ?v)) = insert (s, data) (set (entries t))" using set_entries_plug [OF wu(2) v] wk(2,3) u by simp
        ultimately show ?thesis using new [OF r i(2) lv(1) _ i(3)] lv(2) ts by simp
      next
        case False
        then have jr: "j < length r" "chars n ! j \<noteq> r ! j" "take j (chars n) = take j r"
          using match_len_take(1,3) [of "chars n" r] match_len_differ [of "chars n" r] j by auto
        obtain rx1 D sp sn v where i: "insert_split al rx a (link_of C) j = Some (Some (rx1, sp, link_of D))" "shape rx1 (plug D (RT sp sn [v]))"
            "numele rx1 = numele rx" "path D = path C @ take j (chars n)" "\<not> iscompr sn" "chars sn = [chars n ! j]"
            "entries (plug D (RT sp sn [v])) = entries (plug C (RT a n [t1]))" "live_ctx C \<longrightarrow> live_ctx D" "live t1 \<longrightarrow> live v"
          using insert_split_ok [OF sh [folded wk(2), unfolded u ts] cm j(2)] by blast
        have sD: "s = path D @ drop j r" "length (path D) = length (path C) + j" "drop j r \<noteq> []" "hd (drop j r) = r ! j"
          using wk(3) i(4) jr j by (simp_all add: hd_drop_conv_nth)
        obtain rx2 x where l: "insert_loop al rx1 s (length (path D)) sp (link_of D) data = Some (insert_done, rx2)" "shape rx2 (plug D x)"
            "numele rx2 = numele rx1 + 1" "set (entries x) = insert (drop j r, data) (set (entries (RT sp sn [v])))" "live x"
          using insert_loop_ok [OF i(2) sD(1), where data = data] sD(3,4) i(5,6,9) jr(2) lv(2) ts by auto
        have "raxGenericInsert al rx s data ov = Some (insert_done, rx2)" using wk(1,3) u get False cm i(1) l(1) sD(2) by (simp add: raxGenericInsert_def)
        moreover have "wf_ctx D" using shape_focus [OF i(2)] by blast
        then have "set (entries (plug D x)) = insert (s, data) (set (entries t))" using set_entries_plug [OF _ l(4)] sD(1) i(7) wk(2) u ts by simp
        ultimately show ?thesis using new [OF r l(2) _ l(5)] i(3,8) l(3) lv(1) by simp
      qed
    qed
  qed
qed

end

end
