(* ===== verification/Rax_Remove.thy ===== *)
theory Rax_Remove
  imports Rax_Insert
begin

text \<open>
  Removal and release. Removing a key frees the chain of nodes that only led to it, unlinks it, and then merges the nodes left with one child into a compressed node;
  the entries change in the key only. Release frees every node once.
\<close>

subsection \<open>Chains\<close>

fun bare :: "'d frame \<Rightarrow> bool" where
  "bare (Frame a n ls rs) \<longleftrightarrow> ls = [] \<and> rs = [] \<and> \<not> ends_chain n"

lemma not_ends_chain: "node_ok n (length ls + Suc (length rs)) \<Longrightarrow> \<not> ends_chain n \<Longrightarrow> ls = [] \<and> rs = []"
  by (auto simp: node_ok_def edges_def ends_chain_def split: if_splits)

lemma not_ends_edges: "node_ok n k \<Longrightarrow> \<not> ends_chain n \<Longrightarrow> edges n = [chars n] \<and> chars n \<noteq> [] \<and> own n = []"
  by (cases "chars n") (auto simp: node_ok_def edges_def ends_chain_def own_def split: if_splits)

lemma root_in_forest: "t \<in> set ts \<Longrightarrow> root t \<in> fst ` set_mset (forest ts)"
proof (induction ts)
  case (Cons u us)
  then show ?case by (cases u) force
qed simp

lemma find_child_append: "c \<notin> set as \<Longrightarrow> find_child (map Some as @ Some c # ks) c = Some (length as)"
  by (induction as) auto

text \<open>The slot that holds the subtree of a context is found by its address.\<close>

lemma find_link:
  assumes "heap_is m (ctx_nodes C x + M)" "x \<notin> fst ` set_mset (ctx_nodes C x)"
  shows "(case map frame_addr C of [] \<Rightarrow> Some HeadLink | p # _ \<Rightarrow> raxFindParentLink m p x) = Some (link_of C)"
proof (cases "(C, x)" rule: ctx_nodes.cases)
  case (2 a n ls rs C' x')
  then have "x \<notin> fst ` set_mset (forest ls)" using assms(2) by auto
  then have nin: "x \<notin> set (map root ls)" using root_in_forest by fastforce
  have "heap_is m (add_mset (a, linked n (map root ls @ x # map root rs)) (forest ls + forest rs + ctx_nodes C' a + M))"
    using assms(1) 2 by (simp add: ac_simps)
  then have "m a = Some (linked n (map root ls @ x # map root rs))" by (rule heap_is_get)
  moreover have "find_child (map Some (map root ls @ x # map root rs)) x = Some (length ls)"
    using find_child_append [OF nin, of "map Some (map root rs)"] by simp
  ultimately show ?thesis using 2 by (simp add: raxFindParentLink_def)
qed simp

subsection \<open>Freeing the chain above a leaf\<close>

lemma ctx_head_in: "C \<noteq> [] \<Longrightarrow> ctx_head C x \<in> fst ` set_mset (ctx_nodes C x)"
proof (induction C x rule: ctx_head.induct)
  case (2 a n ls rs C x)
  then show ?case by (cases "C = []") (simp_all add: image_Un)
qed simp

lemma free_chain_ok:
  assumes "heap_is (rheap rx) (add_mset (h, nd) (ctx_nodes C h))" "rhead rx = ctx_head C h" "wf_ctx C" "C \<noteq> []"
  shows "\<exists>rx' D p k ls rs C' c. free_chain rx h (map frame_addr C) ch = Some (rx', p, map frame_addr C', Some c) \<and>
     C = D @ Frame p k ls rs # C' \<and> heap_is (rheap rx') (ctx_nodes (Frame p k ls rs # C') c) \<and> rhead rx' = rhead rx \<and> numele rx' = numele rx \<and>
     numnodes rx' + of_nat (size (ctx_nodes C 0)) + 1 = numnodes rx + of_nat (size (ctx_nodes (Frame p k ls rs # C') 0)) \<and>
     list_all bare D \<and> (ends_chain k \<or> C' = []) \<and> c \<notin> fst ` set_mset (ctx_nodes (Frame p k ls rs # C') c)"
  using assms
proof (induction C arbitrary: rx h nd ch)
  case (Cons F C)
  obtain p k ls rs where F: "F = Frame p k ls rs" by (cases F)
  have nin: "h \<notin> fst ` set_mset (ctx_nodes (F # C) h)" using heap_is_notin [OF Cons.prems(1)] .
  have "ctx_head (F # C) h \<in> fst ` set_mset (ctx_nodes (F # C) h)" by (rule ctx_head_in) simp
  then have nh: "h \<noteq> rhead rx" unfolding Cons.prems(2) using nin by (intro notI) (simp only:)
  obtain m where m: "rax_free (rheap rx) h = Some m" "heap_is m (ctx_nodes (F # C) h)" using free_ok [OF Cons.prems(1)] by blast
  let ?rx = "rx\<lparr>rheap := m, numnodes := numnodes rx - 1\<rparr>"
  have hp: "heap_is m (add_mset (p, linked k (map root ls @ h # map root rs)) (forest ls + forest rs + ctx_nodes C p))" using m(2) F by (simp add: ac_simps)
  have run: "free_chain rx h (map frame_addr (F # C)) ch =
      (if ends_chain k then Some (?rx, p, map frame_addr C, Some h) else free_chain ?rx p (map frame_addr C) (Some h))"
    using nh m(1) heap_is_get [OF hp] F by (subst free_chain.simps) simp
  show ?case
  proof (cases "ends_chain k \<or> C = []")
    case True
    have r: "free_chain rx h (map frame_addr (F # C)) ch = Some (?rx, p, map frame_addr C, Some h)"
    proof (cases "ends_chain k")
      case False
      then have "C = []" using True by simp
      then show ?thesis using run False Cons.prems(2) F by (subst (asm) (2) free_chain.simps) simp
    qed (use run in simp)
    show ?thesis
      by (rule exI [of _ ?rx], rule exI [of _ "[]"], rule exI [of _ p], rule exI [of _ k], rule exI [of _ ls], rule exI [of _ rs], rule exI [of _ C], rule exI [of _ h])
        (use r m(2) F True nin in simp)
  next
    case False
    have bare: "ls = []" "rs = []" using not_ends_chain [of k ls rs] Cons.prems(3) F False by auto
    have hp': "heap_is (rheap ?rx) (add_mset (p, linked k [h]) (ctx_nodes C p))" using hp bare by simp
    have s: "size (ctx_nodes (F # C) 0) = Suc (size (ctx_nodes C 0))" using F bare size_ctx_nodes [of C p 0] by simp
    have pr: "rhead ?rx = ctx_head C p" "wf_ctx C" "C \<noteq> []" using Cons.prems(2,3) F False by simp_all
    obtain rx' D q k' ls' rs' C' c where ih: "free_chain ?rx p (map frame_addr C) (Some h) = Some (rx', q, map frame_addr C', Some c)"
      "C = D @ Frame q k' ls' rs' # C'" "heap_is (rheap rx') (ctx_nodes (Frame q k' ls' rs' # C') c)" "rhead rx' = rhead ?rx" "numele rx' = numele ?rx"
      "numnodes rx' + of_nat (size (ctx_nodes C 0)) + 1 = numnodes ?rx + of_nat (size (ctx_nodes (Frame q k' ls' rs' # C') 0))"
      "list_all bare D" "ends_chain k' \<or> C' = []" "c \<notin> fst ` set_mset (ctx_nodes (Frame q k' ls' rs' # C') c)"
      using Cons.IH [OF hp' pr, of "Some h"] by (elim exE conjE)
    show ?thesis
      by (rule exI [of _ rx'], rule exI [of _ "F # D"], rule exI [of _ q], rule exI [of _ k'], rule exI [of _ ls'], rule exI [of _ rs'], rule exI [of _ C'], rule exI [of _ c])
        (use run ih s F bare False in \<open>simp del: ctx_nodes.simps add: algebra_simps\<close>)
  qed
qed simp

subsection \<open>Unlinking a child\<close>

lemma remove_at_append: "remove_at (length as) (as @ x # bs) = as @ bs"
  by (simp add: remove_at_def)

lemma sorted_remove_at: "sorted_wrt P xs \<Longrightarrow> sorted_wrt P (remove_at i xs)"
proof -
  assume "sorted_wrt P xs"
  then have "sorted_wrt P (take i xs @ drop i xs)" by simp
  then have "\<forall>x \<in> set (take i xs). \<forall>y \<in> set (drop i xs). P x y" by (simp add: sorted_wrt_append del: append_take_drop_id)
  moreover have "set (drop (Suc i) xs) \<subseteq> set (drop i xs)" by (simp add: set_drop_subset_set_drop)
  ultimately show ?thesis using \<open>sorted_wrt P xs\<close> by (auto simp: remove_at_def sorted_wrt_append sorted_wrt_take sorted_wrt_drop)
qed

lemma raxPadding_ge: "4 \<le> k + raxPadding k"
  using mod_less_eq_dividend [of k 8] mod_less_divisor [of 8 k] by (auto simp: raxPadding_mod)

lemma length_chars: "raxNodeCurrentLength ((linked n as)\<lparr>chars := cs\<rparr>) = raxNodeCurrentLength (n\<lparr>chars := cs\<rparr>)"
  by (simp add: raxNodeCurrentLength_def)

lemma length_remove_at: "i < length xs \<Longrightarrow> length (remove_at i xs) = length xs - 1"
  by (simp add: remove_at_def)

context rax_memory
begin

lemma raxRemoveChild_ok:
  assumes h: "heap_is m (add_mset (p, linked k (as @ c # bs)) M)" and ok: "node_ok k (length as + Suc (length bs))" and c: "c \<notin> set as"
  shows "\<exists>a m' k'. raxRemoveChild al m p c = Some (a, m') \<and> heap_is m' (add_mset (a, linked k' (as @ bs)) M) \<and> node_ok k' (length as + length bs) \<and>
     own k' = own k \<and> iskey k' = iskey k \<and> edges k' = remove_at (length as) (edges k) \<and> \<not> iscompr k'"
proof (cases "iscompr k")
  case True
  then have nil: "as = []" "bs = []" "edges k = [chars k]" "chars k \<noteq> []" using ok by (auto simp: node_ok_def edges_def)
  let ?d = "if isnull k then None else nval k"
  let ?base = "k\<lparr>isnull := False, iscompr := False, chars := []\<rparr>"
  let ?k = "if iskey k then with_data ?base ?d else ?base"
  have val: "?d = None \<longleftrightarrow> isnull k" if "iskey k" using that ok by (auto simp: node_ok_def)
  have cap: "16 + (if iskey k \<and> \<not> isnull k then 8 else 0) \<le> cap k" using ok True raxPadding_ge [of "rsize k"] by (auto simp: node_ok_def raxNodeCurrentLength_def split: if_splits)
  have c0: "(linked k (as @ c # bs))\<lparr>isnull := False, iscompr := False, chars := [], kids := []\<rparr> = linked ?base []" by (simp add: linked_def)
  have d: "raxSetData (linked ?base []) ?d = Some (linked (with_data ?base ?d) [])" if "iskey k"
    using raxSetData_ok [of "linked ?base []" ?d] that cap by (simp add: with_data_def [of "linked _ _", symmetric] raxNodeCurrentLength_def split: if_splits)
  have k: "node_ok ?k 0" using cap val by (auto simp: node_ok_def edges_def raxNodeCurrentLength_def with_data_def split: if_splits)
  obtain m' where m': "put_node m p (linked ?k []) = Some m'" "heap_is m' (add_mset (p, linked ?k []) M)"
    using put_node_ok [OF h, of "linked ?k []"] k by (auto simp: node_ok_def)
  have set: "(if iskey k then raxSetData (linked ?base []) ?d else Some (linked ?base [])) = Some (linked ?k [])" using d by simp
  have run: "raxRemoveChild al m p c = Some (p, m')"
    using heap_is_get [OF h] True raxGetData_ok [OF ok] set m'(1) unfolding raxRemoveChild_def Let_def
    by (cases "iskey k") (simp_all add: c0 split del: if_split)
  have f: "own ?k = own k" "iskey ?k = iskey k" "edges ?k = []" "\<not> iscompr ?k"
    by (auto simp: own_def [of k] own_def [of "k\<lparr>isnull := _, iscompr := _, chars := _\<rparr>"] edges_def)
  show ?thesis
    by (rule exI [of _ p], rule exI [of _ m'], rule exI [of _ ?k]) (use run m'(2) k f nil in \<open>simp add: remove_at_def\<close>)
next
  case False
  let ?i = "length as" let ?n = "linked k (as @ c # bs)"
  have len: "rsize k = length as + Suc (length bs)" "sorted_wrt (<) (chars k)" using ok False by (auto simp: node_ok_def edges_def)
  let ?k = "k\<lparr>chars := remove_at ?i (chars k)\<rparr>"
  have n1: "?n\<lparr>chars := remove_at ?i (chars ?n), kids := remove_at ?i (kids ?n)\<rparr> = linked ?k (as @ bs)"
    using remove_at_append [of "map Some as" "Some c" "map Some bs"] by (simp add: linked_def)
  have lr: "length (remove_at ?i (chars k)) = length as + length bs" using len by (simp add: length_remove_at)
  have less: "raxNodeCurrentLength ?k \<le> cap ?k"
    using ok raxPadding_mono [of "length as + length bs"] False lr len(1) by (simp add: node_ok_def raxNodeCurrentLength_def)
  obtain m1 where m1: "put_node m p (linked ?k (as @ bs)) = Some m1" "heap_is m1 (add_mset (p, linked ?k (as @ bs)) M)"
    using put_node_ok [OF h, of "linked ?k (as @ bs)"] less by auto
  let ?len = "raxNodeCurrentLength (linked ?k (as @ bs))"
  obtain a m2 where m2: "resize_node al m1 p ?len = Some (Some (a, m2))" "heap_is m2 (add_mset (a, linked (?k\<lparr>cap := ?len\<rparr>) (as @ bs)) M)"
    using resize_ok [OF m1(2) order_refl] by (auto simp: linked_cap)
  have find: "find_child (kids ?n) c = Some ?i" using find_child_append [OF c, of "map Some bs"] by simp
  have run: "raxRemoveChild al m p c = Some (a, m2)"
    using heap_is_get [OF h] False find n1 m1(1) m2(1) by (simp add: raxRemoveChild_def Let_def length_chars)
  have "node_ok (?k\<lparr>cap := ?len\<rparr>) (length as + length bs)"
    using ok False lr sorted_remove_at [OF len(2)] by (auto simp: node_ok_def edges_def raxNodeCurrentLength_def)
  moreover have "edges ?k = remove_at ?i (edges k)" using False by (simp add: edges_def remove_at_def take_map drop_map)
  moreover have "own ?k = own k" by (simp add: own_def)
  ultimately show ?thesis using run m2(2) False
    by (intro exI [of _ a] exI [of _ m2] exI [of _ "?k\<lparr>cap := ?len\<rparr>"]) simp
qed

lemma unlink_child_ok:
  assumes h: "heap_is (rheap rx) (ctx_nodes (Frame p k ls rs # C) c)" and hd: "rhead rx = ctx_head C p" and w: "wf_ctx (Frame p k ls rs # C)"
    and c: "c \<notin> fst ` set_mset (ctx_nodes (Frame p k ls rs # C) c)" and nn: "numnodes rx = of_nat (size (ctx_nodes (Frame p k ls rs # C) 0))"
  shows "\<exists>rx' a k'. unlink_child al rx p (map frame_addr C) c = Some (rx', if rsize k' = 1 \<and> \<not> iskey k' then a else p, rsize k' = 1 \<and> \<not> iskey k') \<and>
     shape rx' (plug C (RT a k' (ls @ rs))) \<and> numele rx' = numele rx \<and> own k' = own k \<and> iskey k' = iskey k \<and>
     edges k' = remove_at (length ls) (edges k) \<and> \<not> iscompr k'"
proof -
  let ?M = "forest ls + forest rs + ctx_nodes C p"
  have h': "heap_is (rheap rx) (add_mset (p, linked k (map root ls @ c # map root rs)) ?M)" using h by (simp add: ac_simps)
  have "c \<notin> fst ` set_mset (forest ls)" using c by auto
  then have cn: "c \<notin> set (map root ls)" using root_in_forest by fastforce
  have pn: "p \<notin> fst ` set_mset (ctx_nodes C p)" using heap_is_notin [OF h'] by auto
  obtain a m1 k' where m1: "raxRemoveChild al (rheap rx) p c = Some (a, m1)" "heap_is m1 (add_mset (a, linked k' (map root ls @ map root rs)) ?M)"
    "node_ok k' (length ls + length rs)" "own k' = own k" "iskey k' = iskey k" "edges k' = remove_at (length ls) (edges k)" "\<not> iscompr k'"
    using raxRemoveChild_ok [OF h' _ cn] w by auto
  let ?t = "RT a k' (ls @ rs)"
  have m1': "heap_is m1 (ctx_nodes C p + rt_nodes ?t)" using m1(2) by (simp add: ac_simps)
  have "\<exists>rx'. (if a \<noteq> p then do {
              l \<leftarrow> (case map frame_addr C of [] \<Rightarrow> Some HeadLink | parent # _ \<Rightarrow> raxFindParentLink m1 parent p);
              set_link (rx\<lparr>rheap := m1\<rparr>) l a }
            else Some (rx\<lparr>rheap := m1\<rparr>)) = Some rx' \<and> heap_is (rheap rx') (rt_nodes (plug C ?t)) \<and> rhead rx' = root (plug C ?t) \<and>
      numele rx' = numele rx \<and> numnodes rx' = numnodes rx"
  proof (cases "a = p")
    case True
    then show ?thesis using m1' hd by (simp add: rt_nodes_plug root_plug)
  next
    case False
    from relink [OF m1' hd] find_link [OF m1' pn] False show ?thesis by auto
  qed
  then obtain rx' where rx': "(if a \<noteq> p then do {
              l \<leftarrow> (case map frame_addr C of [] \<Rightarrow> Some HeadLink | parent # _ \<Rightarrow> raxFindParentLink m1 parent p);
              set_link (rx\<lparr>rheap := m1\<rparr>) l a }
            else Some (rx\<lparr>rheap := m1\<rparr>)) = Some rx'" "heap_is (rheap rx') (rt_nodes (plug C ?t))" "rhead rx' = root (plug C ?t)"
      "numele rx' = numele rx" "numnodes rx' = numnodes rx" by blast
  have sh: "shape rx' (plug C ?t)"
    by (rule shape_plug [where x = p]) (use rx' w m1(3) nn in \<open>auto simp: ac_simps\<close>)
  have "rheap rx' a = Some (linked k' (map root (ls @ rs)))" using heap_is_get [OF conjunct1 [OF shape_focus [OF sh]]] .
  then have run: "unlink_child al rx p (map frame_addr C) c = Some (rx', if rsize k' = 1 \<and> \<not> iskey k' then a else p, rsize k' = 1 \<and> \<not> iskey k')"
    using m1(1) rx'(1) by (simp add: unlink_child_def Let_def split del: if_split cong: if_cong list.case_cong) simp
  show ?thesis
    by (rule exI [of _ rx'], rule exI [of _ a], rule exI [of _ k']) (use run sh rx'(4) m1(4-7) in simp)
qed

end

subsection \<open>Merging a chain\<close>

fun chain :: "(addr \<times> 'd raxNode) list \<Rightarrow> 'd rt \<Rightarrow> 'd rt" where
  "chain [] w = w"
| "chain ((a, n) # bs) w = RT a n [chain bs w]"

definition ctext :: "(addr \<times> 'd raxNode) list \<Rightarrow> byte list" where
  "ctext bs = concat (map (\<lambda>(a, n). chars n) bs)"

abbreviation links_only :: "(addr \<times> 'd raxNode) list \<Rightarrow> bool" where
  "links_only bs \<equiv> (\<forall>(a, n) \<in> set bs. \<not> ends_chain n)"

lemma ctext_simps [simp]: "ctext [] = []" "ctext ((a, n) # bs) = chars n @ ctext bs"
  by (simp_all add: ctext_def)

lemma chain_ex: "wf_rt t \<Longrightarrow> \<exists>bs w. t = chain bs w \<and> links_only bs \<and> ends_chain (info w)"
proof (induction t rule: wf_rt.induct)
  case (1 a n ts)
  show ?case
  proof (cases "ends_chain n")
    case True
    then show ?thesis by (intro exI [of _ "[]"] exI [of _ "RT a n ts"]) simp
  next
    case False
    obtain u where u: "ts = [u]"
    proof (cases ts)
      case Nil
      then show ?thesis using not_ends_edges [of n 0] False 1(2) by (auto simp: node_ok_def)
    next
      case (Cons u us)
      then show ?thesis using not_ends_chain [of n "[]" us] False 1(2) that by simp
    qed
    then obtain bs w where "u = chain bs w" "links_only bs" "ends_chain (info w)" using 1 by auto
    then show ?thesis using u False by (intro exI [of _ "(a, n) # bs"] exI [of _ w]) simp
  qed
qed

lemma wf_chain: "wf_rt (chain bs w) \<longleftrightarrow> (\<forall>(a, n) \<in> set bs. node_ok n 1) \<and> wf_rt w"
  by (induction bs w rule: chain.induct) auto

lemma entries_chain: "wf_rt (chain bs w) \<Longrightarrow> links_only bs \<Longrightarrow> entries (chain bs w) = map (pfx (ctext bs)) (entries w)"
proof (induction bs w rule: chain.induct)
  case (2 a n bs w)
  then show ?case using not_ends_edges [of n 1] by (simp add: comp_def)
qed simp

lemma live_chain: "live_root (chain bs w) \<Longrightarrow> bs \<noteq> [] \<Longrightarrow> live w" "live (chain bs w) \<Longrightarrow> live w"
proof -
  have l: "live (chain bs w) \<Longrightarrow> live w" for bs by (induction bs w rule: chain.induct) auto
  then show "live (chain bs w) \<Longrightarrow> live w" .
  show "live_root (chain bs w) \<Longrightarrow> bs \<noteq> [] \<Longrightarrow> live w" using l by (cases "(bs, w)" rule: chain.cases) auto
qed

lemma live_entries: "live t \<Longrightarrow> wf_rt t \<Longrightarrow> entries t \<noteq> []"
proof (induction t rule: live.induct)
  case (1 a n ts)
  show ?case
  proof (cases ts)
    case Nil
    then show ?thesis using 1 by (simp add: own_def)
  next
    case (Cons u us)
    then obtain e es where "edges n = e # es" using 1(3) by (cases "edges n") (auto simp: node_ok_def)
    then show ?thesis using 1 Cons by simp
  qed
qed

lemma last_child_linked [simp]: "last_child (linked n [a]) = Some a"
  by (simp add: last_child_def)

lemma scan_chain_ok:
  assumes "heap_is m (rt_nodes (chain ((a, n) # bs) w) + M)" "wf_rt (chain ((a, n) # bs) w)" "links_only ((a, n) # bs)" "ends_chain (info w)"
    "c + length (ctext bs) \<le> RAX_NODE_MAX_SIZE"
  shows "scan_chain m a c k = Some (c + length (ctext bs), k + length bs)"
  using assms
proof (induction bs arbitrary: a n c k M)
  case Nil
  obtain b l us where w: "w = RT b l us" by (cases w)
  have "chars n \<noteq> []" using not_ends_edges [of n 1] Nil.prems(2,3) by simp
  moreover have "m a = Some (linked n [b])" "m b = Some (linked l (map root us))" using Nil.prems(1) w by (auto simp: heap_is_def)
  ultimately show ?case using w Nil.prems(4) by (simp add: scan_chain.simps)
next
  case (Cons x bs)
  obtain b l where x: "x = (b, l)" by (cases x)
  have "chars n \<noteq> []" using not_ends_edges [of n 1] Cons.prems(2,3) by simp
  moreover have m: "m a = Some (linked n [b])" "m b = Some (linked l [root (chain bs w)])" using Cons.prems(1) x by (auto simp: heap_is_def)
  moreover have "scan_chain m b (c + rsize l) (k + 1) = Some (c + rsize l + length (ctext bs), k + 1 + length bs)"
    using Cons.prems x by (intro Cons.IH [of b l "add_mset (a, linked n [b]) M"]) (simp_all add: add_mset_commute)
  ultimately show ?case using x Cons.prems(3,5) by (simp add: scan_chain.simps [of m a])
qed

text \<open>One step of filling: the characters of a node are copied and the node is freed.\<close>

lemma fill_step:
  assumes "heap_is (rheap rx) (add_mset (nw, nn) (add_mset (a, linked n [c]) (rt_nodes t + M)))" "root t = c" "chars n \<noteq> []" "off + rsize n \<le> length (chars nn)"
  shows "\<exists>m. fill_chain rx nw a off =
       (if ends_chain (info t) then Some (rx\<lparr>rheap := m, numnodes := numnodes rx - 1\<rparr>, c)
        else fill_chain (rx\<lparr>rheap := m, numnodes := numnodes rx - 1\<rparr>) nw c (off + rsize n)) \<and>
     heap_is m (add_mset (nw, nn\<lparr>chars := take off (chars nn) @ chars n @ drop (off + rsize n) (chars nn)\<rparr>) (rt_nodes t + M))"
proof -
  obtain b l us where t: "t = RT b l us" by (cases t)
  let ?nn = "nn\<lparr>chars := take off (chars nn) @ chars n @ drop (off + rsize n) (chars nn)\<rparr>"
  let ?m = "(rheap rx)(nw \<mapsto> ?nn)"
  have h: "heap_is ?m (add_mset (nw, ?nn) (add_mset (a, linked n [c]) (rt_nodes t + M)))" using heap_is_upd [OF assms(1)] .
  then have "heap_is ?m (add_mset (a, linked n [c]) (add_mset (nw, ?nn) (rt_nodes t + M)))" by (simp add: add_mset_commute)
  then obtain m where m: "rax_free ?m a = Some m" "heap_is m (add_mset (nw, ?nn) (rt_nodes t + M))" using free_ok by blast
  have "rheap rx a = Some (linked n [c])" using assms(1) by (auto simp: heap_is_def)
  moreover have "m c = Some (linked l (map root us))" using m(2) t assms(2) by (auto simp: heap_is_def)
  ultimately have "fill_chain rx nw a off =
       (if ends_chain (info t) then Some (rx\<lparr>rheap := m, numnodes := numnodes rx - 1\<rparr>, c)
        else fill_chain (rx\<lparr>rheap := m, numnodes := numnodes rx - 1\<rparr>) nw c (off + rsize n))"
    using assms(3,4) heap_is_get [OF assms(1)] m(1) t by (subst fill_chain.simps) (simp add: copy_chars_def)
  then show ?thesis using m(2) by blast
qed

lemma fill_chain_ok:
  assumes "heap_is (rheap rx) (add_mset (nw, nn) (rt_nodes (chain ((a, n) # bs) w) + M))" "wf_rt (chain ((a, n) # bs) w)" "links_only ((a, n) # bs)"
    "ends_chain (info w)" "off + length (ctext ((a, n) # bs)) = length (chars nn)"
  shows "\<exists>rx'. fill_chain rx nw a off = Some (rx', root w) \<and>
     heap_is (rheap rx') (add_mset (nw, nn\<lparr>chars := take off (chars nn) @ ctext ((a, n) # bs)\<rparr>) (rt_nodes w + M)) \<and>
     numnodes rx' = numnodes rx - of_nat (Suc (length bs)) \<and> rhead rx' = rhead rx \<and> numele rx' = numele rx"
  using assms
proof (induction bs arbitrary: a n off rx nn)
  case Nil
  have c: "chars n \<noteq> []" using not_ends_edges [of n 1] Nil.prems(2,3) by simp
  obtain m where m: "fill_chain rx nw a off = Some (rx\<lparr>rheap := m, numnodes := numnodes rx - 1\<rparr>, root w)"
      "heap_is m (add_mset (nw, nn\<lparr>chars := take off (chars nn) @ chars n @ drop (off + rsize n) (chars nn)\<rparr>) (rt_nodes w + M))"
    using fill_step [of rx nw nn a n "root w" w M off] Nil.prems(1,4,5) c by auto
  then show ?case using Nil.prems(5) by simp
next
  case (Cons x bs)
  obtain b l where x: "x = (b, l)" by (cases x)
  let ?t = "chain (x # bs) w"
  have c: "chars n \<noteq> []" "\<not> ends_chain (info ?t)" using not_ends_edges [of n 1] Cons.prems(2,3) x by simp_all
  let ?nn = "nn\<lparr>chars := take off (chars nn) @ chars n @ drop (off + rsize n) (chars nn)\<rparr>"
  obtain m where m: "fill_chain rx nw a off = fill_chain (rx\<lparr>rheap := m, numnodes := numnodes rx - 1\<rparr>) nw b (off + rsize n)"
      "heap_is m (add_mset (nw, ?nn) (rt_nodes ?t + M))"
    using fill_step [of rx nw nn a n b ?t M off] Cons.prems(1,5) c x by auto
  let ?rx = "rx\<lparr>rheap := m, numnodes := numnodes rx - 1\<rparr>"
  have "heap_is (rheap ?rx) (add_mset (nw, ?nn) (rt_nodes (chain ((b, l) # bs) w) + M))" using m(2) x by simp
  moreover have "wf_rt (chain ((b, l) # bs) w)" "links_only ((b, l) # bs)" using Cons.prems(2,3) x by simp_all
  moreover have "off + rsize n + length (ctext ((b, l) # bs)) = length (chars ?nn)" using Cons.prems(5) x by simp
  ultimately obtain rx' where ih: "fill_chain ?rx nw b (off + rsize n) = Some (rx', root w)"
      "heap_is (rheap rx') (add_mset (nw, ?nn\<lparr>chars := take (off + rsize n) (chars ?nn) @ ctext ((b, l) # bs)\<rparr>) (rt_nodes w + M))"
      "numnodes rx' = numnodes ?rx - of_nat (Suc (length bs))" "rhead rx' = rhead ?rx" "numele rx' = numele ?rx"
    using Cons.IH [of ?rx ?nn b l "off + rsize n"] Cons.prems(4) by blast
  have e: "take (off + rsize n) (chars ?nn) = take off (chars nn) @ chars n" using Cons.prems(5) by simp
  show ?case using m(1) ih(1,3-5) ih(2) [unfolded e] x by (intro exI [of _ rx']) (simp add: algebra_simps)
qed

subsection \<open>Recompression\<close>

lemma plug_append: "plug (D @ C) t = plug C (plug D t)"
  by (induction D t rule: plug.induct) auto

lemma climb_ok:
  assumes "heap_is m (ctx_nodes C (root u) + M)" "wf_ctx C" "\<not> ends_chain (info u)"
  shows "\<exists>D C'. C = D @ C' \<and> climb m (root u) (map frame_addr C) = Some (root (plug D u), case map frame_addr C' of [] \<Rightarrow> None | p # _ \<Rightarrow> Some p) \<and>
     \<not> ends_chain (info (plug D u))"
  using assms
proof (induction C arbitrary: u M)
  case Nil
  then show ?case by (intro exI [of _ "[]"]) simp
next
  case (Cons F C)
  obtain a n ls rs where F: "F = Frame a n ls rs" by (cases F)
  have m: "m a = Some (linked n (map root ls @ root u # map root rs))" using Cons.prems(1) F by (auto simp: heap_is_def)
  show ?case
  proof (cases "ends_chain n")
    case True
    then show ?thesis using m F Cons.prems(3) by (intro exI [of _ "[]"] exI [of _ "F # C"]) simp
  next
    case False
    have h: "heap_is m (ctx_nodes C a + (add_mset (a, linked n (map root ls @ root u # map root rs)) (forest ls + forest rs) + M))"
      using Cons.prems(1) F by (simp add: ac_simps)
    let ?u = "RT a n (ls @ u # rs)"
    from Cons.IH [of ?u, unfolded rt.sel, OF h] Cons.prems(2) False F obtain D C' where
      ih: "C = D @ C'" "climb m a (map frame_addr C) = Some (root (plug D ?u), case map frame_addr C' of [] \<Rightarrow> None | p # _ \<Rightarrow> Some p)"
        "\<not> ends_chain (info (plug D ?u))" by auto
    then show ?thesis using m F False by (intro exI [of _ "F # D"] exI [of _ C']) simp
  qed
qed

lemma size_chain: "size (rt_nodes (chain bs w)) = length bs + size (rt_nodes w)"
  by (induction bs w rule: chain.induct) auto

lemma entries_bound:
  assumes "wf_ctx C" "wf_rt (chain bs w)" "links_only bs" "live w" "\<forall>x \<in> set (entries (plug C (chain bs w))). length (fst x) \<le> b"
  shows "length (ctext bs) \<le> b"
proof -
  have "entries w \<noteq> []" using live_entries [OF assms(4)] assms(2) by (simp add: wf_chain)
  then obtain x where "x \<in> set (entries w)" by (cases "entries w") auto
  then have "pfx (path C @ ctext bs) x \<in> set (entries (plug C (chain bs w)))"
    using entries_plug [OF assms(1), of "chain bs w"] entries_chain [OF assms(2,3)] by simp
  with assms(5) show ?thesis by fastforce
qed

definition merged :: "byte list \<Rightarrow> 'd raxNode" where
  "merged cs = \<lparr>iskey = False, isnull = False, iscompr = True, chars = cs, kids = [], nval = None, cap = 4 + length cs + raxPadding (length cs) + 8\<rparr>"

lemma merged_ok: "cs \<noteq> [] \<Longrightarrow> node_ok (merged cs) 1" "edges (merged cs) = [cs]" "own (merged cs) = []"
  by (simp_all add: merged_def node_ok_def edges_def raxNodeCurrentLength_def own_def)

context rax_memory
begin

lemma recompress_ok:
  assumes sh: "shape rx (plug C u)" and u: "\<not> ends_chain (info u)" and lv: "live_root (plug C u)"
    and b: "\<forall>x \<in> set (entries (plug C u)). length (fst x) \<le> RAX_NODE_MAX_SIZE"
  shows "\<exists>rx' t'. recompress al rx (root u) (map frame_addr C) = Some rx' \<and> shape rx' t' \<and> live_root t' \<and> entries t' = entries (plug C u) \<and>
     numele rx' = numele rx"
proof -
  have "heap_is (rheap rx) (ctx_nodes C (root u) + rt_nodes u)" "wf_ctx C" using sh by (simp_all add: shape_def rt_nodes_plug wf_plug)
  from climb_ok [OF this u] obtain D C' where cl: "C = D @ C'"
    "climb (rheap rx) (root u) (map frame_addr C) = Some (root (plug D u), case map frame_addr C' of [] \<Rightarrow> None | p # _ \<Rightarrow> Some p)"
    "\<not> ends_chain (info (plug D u))" by blast
  have pl: "plug C u = plug C' (plug D u)" using cl(1) plug_append by simp
  have w: "wf_ctx C'" "wf_rt (plug D u)" using sh pl by (simp_all add: shape_def wf_plug)
  obtain bs0 w0 where c0: "plug D u = chain bs0 w0" "links_only bs0" "ends_chain (info w0)" using chain_ex [OF w(2)] by blast
  then obtain a n bs where bs0: "bs0 = (a, n) # bs" using cl(3) by (cases "(bs0, w0)" rule: chain.cases) auto
  define v where "v = chain ((a, n) # bs) w0"
  have v: "plug D u = v" "root v = a" using c0(1) bs0 by (simp_all add: v_def)
  let ?cs = "ctext ((a, n) # bs)"
  have lw: "live w0" using lv pl c0(1) bs0 live_chain [of "(a, n) # bs" w0] by (auto simp: live_root_plug split: if_splits)
  have tot: "length ?cs \<le> RAX_NODE_MAX_SIZE" using entries_bound [OF w(1), of "(a, n) # bs" w0] w(2) c0 bs0 lw b pl by simp
  have h: "heap_is (rheap rx) (rt_nodes v + ctx_nodes C' a)" and hd: "rhead rx = ctx_head C' a" and nn: "numnodes rx = of_nat (size (rt_nodes v) + size (ctx_nodes C' a))"
    using sh pl v by (simp_all add: shape_def rt_nodes_plug root_plug ac_simps)
  have get: "rheap rx a = Some (linked n [root (chain bs w0)])" using h by (auto simp: v_def heap_is_def)
  have an: "a \<notin> fst ` set_mset (ctx_nodes C' a)" using heap_is_notin [of "rheap rx" a "linked n [root (chain bs w0)]" "rt_nodes (chain bs w0) + ctx_nodes C' a"] h
    by (auto simp: v_def)
  have ww: "wf_rt v" "links_only ((a, n) # bs)" using w(2) v c0(2) bs0 by simp_all
  have sc: "scan_chain (rheap rx) a (rsize n) 1 = Some (length ?cs, 1 + length bs)"
    using scan_chain_ok [OF h [unfolded v_def] ww(1) [unfolded v_def] ww(2) c0(3), of "rsize n" 1] tot by simp
  show ?thesis
  proof (cases "bs = []")
    case True
    then have "recompress al rx (root u) (map frame_addr C) = Some rx" using cl(2) v get sc by (simp add: recompress_def)
    then show ?thesis using sh lv by blast
  next
    case False
    then have bl: "\<not> length bs = 0" by simp
    let ?sz = "4 + length ?cs + raxPadding (length ?cs) + 8"
    obtain nw m1 where m1: "rax_block al (rheap rx) 0 ?sz = Some (nw, m1)" "heap_is m1 (add_mset (nw, blank 0 ?sz) (rt_nodes v + ctx_nodes C' a))"
      using block_ok [OF h] by blast
    let ?nn = "(blank 0 ?sz :: 'd raxNode)\<lparr>iskey := False, isnull := False, iscompr := True, chars := replicate (length ?cs) 0, kids := [None]\<rparr>"
    obtain m2 where m2: "put_node m1 nw ?nn = Some m2" "heap_is m2 (add_mset (nw, ?nn) (rt_nodes v + ctx_nodes C' a))"
      using put_node_ok [OF m1(2), of ?nn] by (auto simp: raxNodeCurrentLength_def)
    let ?rx2 = "rx\<lparr>rheap := m2, numnodes := numnodes rx + 1\<rparr>"
    have "heap_is (rheap ?rx2) (add_mset (nw, ?nn) (rt_nodes (chain ((a, n) # bs) w0) + ctx_nodes C' a))" using m2(2) by (simp add: v_def)
    from fill_chain_ok [OF this ww(1) [unfolded v_def] ww(2) c0(3), of 0]
    obtain rx3 where f: "fill_chain ?rx2 nw a 0 = Some (rx3, root w0)" "heap_is (rheap rx3) (add_mset (nw, ?nn\<lparr>chars := ?cs\<rparr>) (rt_nodes w0 + ctx_nodes C' a))"
        "numnodes rx3 = numnodes ?rx2 - of_nat (Suc (length bs))" "rhead rx3 = rhead rx" "numele rx3 = numele rx" by auto
    let ?k = "merged ?cs" let ?t = "RT nw ?k [w0]"
    obtain m4 where m4: "set_link rx3 (Slot nw 0) (root w0) = Some (rx3\<lparr>rheap := m4\<rparr>)"
        "heap_is m4 (add_mset (nw, ?nn\<lparr>chars := ?cs, kids := [Some (root w0)]\<rparr>) (rt_nodes w0 + ctx_nodes C' a))"
      using set_slot_ok [OF f(2), of 0 "root w0"] by auto
    have "?nn\<lparr>chars := ?cs, kids := [Some (root w0)]\<rparr> = linked ?k [root w0]" by (simp add: merged_def linked_def blank_def)
    then have h4: "heap_is m4 (ctx_nodes C' a + rt_nodes ?t)" using m4(2) by (simp add: ac_simps)
    obtain m5 where m5: "set_link (rx3\<lparr>rheap := m4\<rparr>) (link_of C') nw = Some (rx3\<lparr>rheap := m5, rhead := root (plug C' ?t)\<rparr>)" "heap_is m5 (rt_nodes (plug C' ?t))"
      using relink [OF h4, of rx3] f(4) hd by auto
    let ?rx = "rx3\<lparr>rheap := m5, rhead := root (plug C' ?t)\<rparr>"
    have fl: "(case map frame_addr C' of [] \<Rightarrow> Some HeadLink | p # _ \<Rightarrow> raxFindParentLink m4 p a) = Some (link_of C')" by (rule find_link [OF h4 an])
    have run: "recompress al rx (root u) (map frame_addr C) = Some ?rx"
      using cl(2) v get sc bl m1(1) heap_is_get [OF m1(2)] m2(1) f(1) m4(1) m5(1) fl
      by (cases "map frame_addr C'") (simp_all add: recompress_def)
    have ok: "node_ok ?k 1" by (rule merged_ok) (use ww not_ends_edges [of n 1] in \<open>simp add: v_def\<close>)
    have sh': "shape ?rx (plug C' ?t)"
      by (rule shape_plug [where x = a]) (use m5(2) w(1) ok w(2) v(1) f(3) nn in \<open>simp_all add: wf_chain v_def size_chain\<close>)
    have "entries ?t = entries v" using entries_chain [OF ww(1) [unfolded v_def] ww(2)] by (simp add: v_def merged_ok)
    then have "entries (plug C' ?t) = entries (plug C u)" using entries_plug [OF w(1)] pl v(1) by simp
    moreover have "live_root (plug C' ?t)" using lv pl lw by (auto simp: live_root_plug split: if_splits)
    ultimately show ?thesis using run sh' f(5) by (intro exI [of _ ?rx] exI [of _ "plug C' ?t"]) simp
  qed
qed

end

subsection \<open>The whole removal\<close>

lemma map_of_erase:
  assumes "distinct (map fst (xs @ (s, old) # ys))"
  shows "map_of (xs @ ys) = (map_of (xs @ (s, old) # ys))(s := None)"
proof -
  have "s \<notin> fst ` set xs" "s \<notin> fst ` set ys" using assms by auto
  then have "map_of xs s = None" "map_of ys s = None" by (simp_all add: map_of_eq_None_iff)
  then show ?thesis by (auto simp: fun_eq_iff map_add_def split: option.splits)
qed

lemma entries_bare: "list_all bare D \<Longrightarrow> wf_ctx D \<Longrightarrow> entries t = [] \<Longrightarrow> entries (plug D t) = []"
proof (induction D t rule: plug.induct)
  case (2 a n ls rs C t)
  then show ?case using not_ends_edges [of n 1] by (simp add: comp_def)
qed simp

lemma wf_ctx_append: "wf_ctx (D @ C) \<longleftrightarrow> wf_ctx D \<and> wf_ctx C"
  by (induction D rule: wf_ctx.induct) auto

lemma live_ctx_append: "live_ctx (D @ C) \<longleftrightarrow> live_ctx D \<and> live_ctx C"
  by (induction D rule: live_ctx.induct) auto

text \<open>Unlinking a subtree without keys does not change the entries.\<close>

lemma entries_remove_at:
  assumes "length (edges k) = length ls + Suc (length rs)" "edges k' = remove_at (length ls) (edges k)" "own k' = own k" "entries t = []"
  shows "entries (RT a' k' (ls @ rs)) = entries (RT a k (ls @ t # rs))"
proof -
  let ?L = "map entries ls" let ?R = "map entries rs"
  have l: "length (edges k) = length ?L + Suc (length ?R)" using assms(1) by simp
  have "hung (edges k') (?L @ ?R) = hung (take (length ls) (edges k)) ?L @ hung (drop (Suc (length ls)) (edges k)) ?R"
    unfolding assms(2) remove_at_def by (rule hung_append) (use assms(1) in simp)
  then show ?thesis using hung_split [OF l, of "[]"] assms(3,4) by simp
qed

context rax_memory
begin

text \<open>The key was the last one in its branch.\<close>

lemma remove_leaf_ok:
  assumes sh: "shape rx (plug C (RT a n []))" and C: "C \<noteq> []" and n: "\<not> iskey n" and lv: "live_ctx C"
  shows "\<exists>rx1 rx' p C' c u. free_chain rx a (map frame_addr C) None = Some (rx1, p, map frame_addr C', Some c) \<and>
     unlink_child al rx1 p (map frame_addr C') c = Some (rx', if rsize (info u) = 1 \<and> \<not> iskey (info u) then root u else p, rsize (info u) = 1 \<and> \<not> iskey (info u)) \<and>
     shape rx' (plug C' u) \<and> live_root (plug C' u) \<and> numele rx' = numele rx \<and> entries (plug C' u) = entries (plug C (RT a n [])) \<and> \<not> iscompr (info u)"
proof -
  note f = shape_focus [OF sh]
  have h: "heap_is (rheap rx) (add_mset (a, linked n []) (ctx_nodes C a))" and hd: "rhead rx = ctx_head C a" and w: "wf_ctx C" using f by auto
  obtain rx1 D p k ls rs C' c where fc: "free_chain rx a (map frame_addr C) None = Some (rx1, p, map frame_addr C', Some c)"
      "C = D @ Frame p k ls rs # C'" "heap_is (rheap rx1) (ctx_nodes (Frame p k ls rs # C') c)" "rhead rx1 = rhead rx" "numele rx1 = numele rx"
      "numnodes rx1 + of_nat (size (ctx_nodes C 0)) + 1 = numnodes rx + of_nat (size (ctx_nodes (Frame p k ls rs # C') 0))"
      "list_all bare D" "ends_chain k \<or> C' = []" "c \<notin> fst ` set_mset (ctx_nodes (Frame p k ls rs # C') c)"
    using free_chain_ok [OF h hd w C, of None] by (elim exE conjE)
  have wF: "wf_ctx (Frame p k ls rs # C')" "wf_ctx D" using w fc(2) by (simp_all add: wf_ctx_append)
  have "ctx_head (D @ F # C') x = ctx_head C' (frame_addr F)" for D F x by (induction D x rule: ctx_head.induct) (auto, cases F, simp)
  then have hd1: "rhead rx1 = ctx_head C' p" using hd fc(2,4) by simp
  have nn: "numnodes rx1 = of_nat (size (ctx_nodes (Frame p k ls rs # C') 0))"
    using sh fc(6) size_ctx_nodes [of C a 0] by (simp add: shape_def rt_nodes_plug algebra_simps del: ctx_nodes.simps)
  obtain rx' a' k' where ul: "unlink_child al rx1 p (map frame_addr C') c = Some (rx', if rsize k' = 1 \<and> \<not> iskey k' then a' else p, rsize k' = 1 \<and> \<not> iskey k')"
      "shape rx' (plug C' (RT a' k' (ls @ rs)))" "numele rx' = numele rx1" "own k' = own k" "iskey k' = iskey k" "edges k' = remove_at (length ls) (edges k)" "\<not> iscompr k'"
    using unlink_child_ok [OF fc(3) hd1 wF(1) fc(9) nn] by blast
  let ?u = "RT a' k' (ls @ rs)" let ?d = "plug D (RT a n [])"
  have ed: "entries ?d = []" using entries_bare [OF fc(7) wF(2), of "RT a n []"] n by (simp add: own_def)
  have le: "length (edges k) = length ls + Suc (length rs)" using wF(1) by (simp add: node_ok_def)
  have "entries ?u = entries (RT p k (ls @ ?d # rs))" by (rule entries_remove_at [OF le ul(6,4) ed])
  then have en: "entries (plug C' ?u) = entries (plug C (RT a n []))" using fc(2) wF(1) by (simp add: entries_plug plug_append)
  have lF: "\<forall>t \<in> set ls \<union> set rs. live t" "live_ctx C'" using lv fc(2) by (simp_all add: live_ctx_append)
  have lu: "live_root (plug C' ?u)"
  proof (cases "ls @ rs = [] \<and> \<not> iskey k")
    case True
    then have "\<not> ends_chain k" using wF(1) by (auto simp: ends_chain_def node_ok_def edges_def split: if_splits)
    then show ?thesis using fc(8) True by simp
  next
    case False
    then show ?thesis using lF ul(5) by (auto simp: live_root_plug)
  qed
  show ?thesis
    by (rule exI [of _ rx1], rule exI [of _ rx'], rule exI [of _ p], rule exI [of _ C'], rule exI [of _ c], rule exI [of _ ?u]) (use lu fc(1,5) ul en in simp)
qed

lemma raxRemove_ok:
  assumes rep: "rax_rep rx t" and b: "\<forall>k \<in> dom (map_of (entries t)). length k \<le> RAX_NODE_MAX_SIZE"
  shows "\<exists>rx' t'. raxRemove al rx s = Some (map_of (entries t) s \<noteq> None, map_of (entries t) s, rx') \<and> rax_rep rx' t' \<and>
     map_of (entries t') = (map_of (entries t))(s := None)"
proof -
  have sh: "shape rx t" and w: "wf_rt t" and ne: "numele rx = of_nat (length (entries t))" using rep by (simp_all add: rax_rep_def shape_def)
  have "stack_ok al raxStackInit" using enough by (intro raxStackInit_ok) (simp add: ralloc_total_def)
  then obtain C u j r us where wk: "raxLowWalk al rx s (Some raxStackInit) = Some (length (path C) + j, root u, link_of C, j, Some us)" "plug C u = t"
      "s = path C @ r" "stops_at (info u) r j" "sitems us = map frame_addr C" "\<not> soom us"
    using raxLowWalk_ok [where rx = rx and t = t and ts = "Some raxStackInit" and al = al and s = s] sh by (auto simp: shape_def raxStackInit_def)
  obtain a n ts where u: "u = RT a n ts" by (cases u)
  note f = shape_focus [OF sh [folded wk(2), unfolded u]]
  have h: "heap_is (rheap rx) (add_mset (a, linked n (map root ts)) (forest ts + ctx_nodes C a))" and ok: "node_ok n (length ts)" using f by blast+
  have wu: "wf_rt u" "wf_ctx C" using w wk(2) wf_plug by blast+
  have look: "map_of (entries t) s = map_of (entries u) r" using lookup_plug [of C u r] w wk(2,3) by simp
  have lv: "live_ctx C" "\<forall>v \<in> set ts. live v" using rep wk(2) u by (auto simp: rax_rep_def live_root_plug split: if_splits)
  show ?thesis
  proof (cases "r = [] \<and> iskey n")
    case False
    have "map_of (entries u) r = None"
    proof (cases "r = []")
      case True
      then show ?thesis using lookup_root [OF wu(1)] False u by simp
    qed (rule lookup_stops [OF wu(1) wk(4)])
    moreover have "raxRemove al rx s = Some (False, None, rx)"
    proof (cases "r = []")
      case True
      then show ?thesis using wk(1,3) u heap_is_get [OF h] False by (auto simp: raxRemove_def)
    next
      case r: False
      then have "j = length r \<Longrightarrow> iscompr n \<and> j \<noteq> 0" using wk(4) u by (auto simp: stops_at_def split: if_splits)
      then show ?thesis using wk(1,3) u heap_is_get [OF h] by (auto simp: raxRemove_def)
    qed
    ultimately show ?thesis using rep look by (intro exI [of _ rx] exI [of _ t]) (auto simp: fun_upd_idem)
  next
    case True
    then have r: "r = []" "iskey n" "j = 0" "s = path C" using wk(3,4) by (auto simp: stops_at_def)
    obtain old where old: "raxGetData n = Some old" "own n = [([], old)]" using raxGetData_ok [OF ok r(2)] r(2) by (simp add: own_def)
    have lk: "map_of (entries t) s = Some old" using look lookup_root [OF wu(1)] r u old by simp
    let ?n = "n\<lparr>iskey := False\<rparr>"
    have ok': "node_ok ?n (length ts)" "edges ?n = edges n" "own ?n = []" using ok by (auto simp: node_ok_def edges_def raxNodeCurrentLength_def own_def split: if_splits)
    have ln: "(linked n (map root ts))\<lparr>iskey := False\<rparr> = linked ?n (map root ts)" by (simp add: linked_def)
    obtain m1 where m1: "put_node (rheap rx) a (linked ?n (map root ts)) = Some m1" "heap_is m1 (add_mset (a, linked ?n (map root ts)) (forest ts + ctx_nodes C a))"
      using put_node_ok [OF h, of "linked ?n (map root ts)"] ok'(1) by (auto simp: node_ok_def)
    let ?rx = "rx\<lparr>rheap := m1, numele := numele rx - 1\<rparr>" let ?t = "plug C (RT a ?n ts)"
    have sh1: "shape ?rx ?t"
      by (rule shape_plug [where x = a]) (use m1(2) ok'(1) f sh wk(2) u in \<open>auto simp: shape_def rt_nodes_plug root_plug ac_simps\<close>)
    let ?X = "ctx_pre C" let ?Y = "map (pfx (path C)) (hung (edges n) (map entries ts)) @ ctx_post C"
    have E: "entries t = ?X @ (s, old) # ?Y" "entries ?t = ?X @ ?Y"
      using entries_plug [OF wu(2), of u] entries_plug [OF wu(2), of "RT a ?n ts"] wk(2) u old(2) ok'(2,3) r(4) by simp_all
    have mp: "map_of (entries ?t) = (map_of (entries t))(s := None)" using map_of_erase [of ?X s old ?Y] entries_distinct [OF w] unfolding E by blast
    have bd: "\<forall>x \<in> set (entries ?t). length (fst x) \<le> RAX_NODE_MAX_SIZE" using b unfolding E by (force simp: dom_map_of_conv_image_fst)
    have ne1: "numele ?rx = of_nat (length (entries ?t))" using ne unfolding E by simp
    let ?tail = "if rsize n = 0 then do {
            (rx, h, stack, child) \<leftarrow> free_chain ?rx a (map frame_addr C) None;
            case child of None \<Rightarrow> Some (rx, h, stack, False)
            | Some child \<Rightarrow> do { (rx, h, try) \<leftarrow> unlink_child al rx h stack child; Some (rx, h, stack, try) } }
          else Some (?rx, a, map frame_addr C, rsize n = 1)"
    have run: "raxRemove al rx s = do { (rx, h, stack, trycompress) \<leftarrow> ?tail;
        rx \<leftarrow> (if trycompress then recompress al rx h stack else Some rx); Some (True, Some old, rx) }"
      using wk(1,5,6) r u heap_is_get [OF h] old(1) m1(1) by (simp add: raxRemove_def Let_def ln split del: if_split cong: if_cong)
    have fin: ?thesis if g: "?tail = Some (rx2, if tr then root v else x, map frame_addr D, tr)" "shape rx2 (plug D v)" "live_root (plug D v)"
        "numele rx2 = numele ?rx" "entries (plug D v) = entries ?t" "tr \<Longrightarrow> \<not> ends_chain (info v)" for rx2 tr v x D
    proof (cases tr)
      case True
      obtain rx3 t3 where rc: "recompress al rx2 (root v) (map frame_addr D) = Some rx3" "shape rx3 t3" "live_root t3" "entries t3 = entries (plug D v)" "numele rx3 = numele rx2"
        using recompress_ok [OF g(2) _ g(3)] g(5,6) True bd by auto
      have "raxRemove al rx s = Some (True, Some old, rx3)" unfolding run g(1) using True rc(1) by simp
      then show ?thesis using rc g(4,5) ne1 mp lk by (intro exI [of _ rx3] exI [of _ t3]) (simp add: rax_rep_def)
    next
      case False
      have "raxRemove al rx s = Some (True, Some old, rx2)" unfolding run g(1) using False by simp
      then show ?thesis using g(2-5) ne1 mp lk by (intro exI [of _ rx2] exI [of _ "plug D v"]) (simp add: rax_rep_def)
    qed
    show ?thesis
    proof (cases "rsize n = 0")
      case z: True
      then have ts: "ts = []" using ok by (auto simp: node_ok_def edges_def split: if_splits)
      show ?thesis
      proof (cases "C = []")
        case True
        have "?tail = Some (?rx, if False then root (RT a ?n ts) else a, map frame_addr [], False)"
          using z True sh1 by (simp add: free_chain.simps shape_def)
        from fin [OF this] show ?thesis using sh1 True ts by simp
      next
        case C: False
        obtain rx1 rx2 p C' c v where l: "free_chain ?rx a (map frame_addr C) None = Some (rx1, p, map frame_addr C', Some c)"
            "unlink_child al rx1 p (map frame_addr C') c = Some (rx2, if rsize (info v) = 1 \<and> \<not> iskey (info v) then root v else p, rsize (info v) = 1 \<and> \<not> iskey (info v))"
            "shape rx2 (plug C' v)" "live_root (plug C' v)" "numele rx2 = numele ?rx" "entries (plug C' v) = entries (plug C (RT a ?n []))" "\<not> iscompr (info v)"
          using remove_leaf_ok [OF sh1 [unfolded ts] C _ lv(1)] by auto
        have "?tail = Some (rx2, if rsize (info v) = 1 \<and> \<not> iskey (info v) then root v else p, map frame_addr C', rsize (info v) = 1 \<and> \<not> iskey (info v))"
          using z l(1,2) by simp
        from fin [OF this l(3,4,5)] show ?thesis using l(6,7) ts by (simp add: ends_chain_def)
      qed
    next
      case z: False
      have t: "?tail = Some (?rx, if rsize n = 1 then root (RT a ?n ts) else a, map frame_addr C, rsize n = 1)" using z by simp
      have "ts \<noteq> []" using z ok by (auto simp: node_ok_def edges_def split: if_splits)
      then have "live_root ?t" using lv by (auto simp: live_root_plug)
      then show ?thesis using fin [OF t sh1] by (simp add: ends_chain_def)
    qed
  qed
qed

end

subsection \<open>Release\<close>

definition values_of :: "(byte list \<times> 'd option) list \<Rightarrow> 'd list" where
  "values_of es = List.map_filter snd es"

lemma values_of_append: "values_of (xs @ ys) = values_of xs @ values_of ys"
  by (induction xs) (auto simp: values_of_def map_filter_simps split: option.splits)

lemma values_of_hung: "length es = length xss \<Longrightarrow> values_of (hung es xss) = concat (map values_of xss)"
proof (induction es xss rule: list_induct2)
  case (Cons e es xs xss)
  have "values_of (map (pfx e) xs) = values_of xs" by (induction xs) (auto simp: values_of_def map_filter_simps split: option.splits)
  then show ?case using Cons by (simp add: values_of_append)
qed (simp add: values_of_def map_filter_simps)

lemma values_of_tree:
  "node_ok n (length ts) \<Longrightarrow> values_of (entries (RT a n ts)) =
     (if iskey n \<and> \<not> isnull n then [the (nval n)] else []) @ concat (map (\<lambda>t. values_of (entries t)) ts)"
proof -
  assume ok: "node_ok n (length ts)"
  then have "iskey n \<and> \<not> isnull n \<longrightarrow> nval n \<noteq> None" by (simp add: node_ok_def)
  then have "values_of (own n) = (if iskey n \<and> \<not> isnull n then [the (nval n)] else [])" by (auto simp: own_def values_of_def map_filter_simps)
  then show ?thesis using ok by (simp add: values_of_append values_of_hung length_edges comp_def)
qed

lemma heap_is_card: "heap_is m M \<Longrightarrow> size M = card (dom m)"
proof (induction M arbitrary: m)
  case empty
  then show ?case by (simp add: heap_is_empty)
next
  case (add x M)
  obtain k v where x: "x = (k, v)" by (cases x)
  have "dom m = insert k (dom (m(k := None)))" using heap_is_get [of m k v M] add.prems x by auto
  moreover have "finite (dom (m(k := None)))" "k \<notin> dom (m(k := None))" using heap_is_finite [OF heap_is_free [of m k v M]] add.prems x by auto
  ultimately have "card (dom m) = Suc (card (dom (m(k := None))))" by (metis card_insert_disjoint)
  moreover have "heap_is m (add_mset (k, v) M)" using add.prems x by simp
  then have "size M = card (dom (m(k := None)))" by (rule add.IH [OF heap_is_free])
  ultimately show ?case by simp
qed

lemma size_forest: "t \<in> set ts \<Longrightarrow> size (rt_nodes t) \<le> size (forest ts)"
  by (induction ts) auto

lemma free_tree_ok:
  fixes rx :: "'d rax"
  shows "heap_is (rheap rx) (rt_nodes t + M) \<Longrightarrow> wf_rt t \<Longrightarrow> size (rt_nodes t) \<le> k \<Longrightarrow>
   \<exists>m. raxRecursiveFree k rx cb log (root t) =
       Some (rx\<lparr>rheap := m, numnodes := numnodes rx - of_nat (size (rt_nodes t))\<rparr>, (if cb then values_of (entries t) else []) @ log) \<and> heap_is m M"
proof (induction k arbitrary: rx t M log)
  case 0
  then show ?case by (cases t) simp
next
  case (Suc k)
  obtain a n ts where t: "t = RT a n ts" by (cases t)
  have kids: "\<exists>m. free_children k rx cb log (rev (map Some (map root us))) =
       Some (rx\<lparr>rheap := m, numnodes := numnodes rx - of_nat (size (forest us))\<rparr>, (if cb then concat (map (\<lambda>t. values_of (entries t)) us) else []) @ log) \<and> heap_is m K"
    if "heap_is (rheap rx) (forest us + K)" "\<forall>u \<in> set us. wf_rt u \<and> size (rt_nodes u) \<le> k" for us K and rx :: "'d rax" and log
    using that
  proof (induction us arbitrary: rx log rule: rev_induct)
    case Nil
    then show ?case by (intro exI [of _ "rheap rx"]) simp
  next
    case (snoc u us)
    have "heap_is (rheap rx) (rt_nodes u + (forest us + K))" using snoc.prems(1) by (simp add: ac_simps)
    from Suc.IH [OF this, of log] snoc.prems(2) obtain m1 where m1: "raxRecursiveFree k rx cb log (root u) =
        Some (rx\<lparr>rheap := m1, numnodes := numnodes rx - of_nat (size (rt_nodes u))\<rparr>, (if cb then values_of (entries u) else []) @ log)" "heap_is m1 (forest us + K)" by auto
    let ?rx = "rx\<lparr>rheap := m1, numnodes := numnodes rx - of_nat (size (rt_nodes u))\<rparr>"
    from snoc.IH [of ?rx "(if cb then values_of (entries u) else []) @ log"] m1(2) snoc.prems(2) obtain m2 where
      m2: "free_children k ?rx cb ((if cb then values_of (entries u) else []) @ log) (rev (map Some (map root us))) =
        Some (?rx\<lparr>rheap := m2, numnodes := numnodes ?rx - of_nat (size (forest us))\<rparr>,
          (if cb then concat (map (\<lambda>t. values_of (entries t)) us) else []) @ (if cb then values_of (entries u) else []) @ log)" "heap_is m2 K" by auto
    show ?case using m1(1) m2 by (intro exI [of _ m2]) (simp add: algebra_simps split: if_splits)
  qed
  have ok: "node_ok n (length ts)" using Suc.prems(2) t by simp
  have "heap_is (rheap rx) (forest ts + add_mset (a, linked n (map root ts)) M)" using Suc.prems(1) t by (simp add: ac_simps)
  moreover have "\<forall>u \<in> set ts. wf_rt u \<and> size (rt_nodes u) \<le> k" using Suc.prems(2,3) t size_forest [of _ ts] by fastforce
  ultimately obtain m1 where m1: "free_children k rx cb log (rev (map Some (map root ts))) =
      Some (rx\<lparr>rheap := m1, numnodes := numnodes rx - of_nat (size (forest ts))\<rparr>, (if cb then concat (map (\<lambda>t. values_of (entries t)) ts) else []) @ log)"
      "heap_is m1 (add_mset (a, linked n (map root ts)) M)" using kids by blast
  obtain m2 where m2: "rax_free m1 a = Some m2" "heap_is m2 M" using free_ok [OF m1(2)] by blast
  have get: "rheap rx a = Some (linked n (map root ts))" using Suc.prems(1) t by (auto simp: heap_is_def)
  have "raxRecursiveFree (Suc k) rx cb log (root t) =
       Some (rx\<lparr>rheap := m2, numnodes := numnodes rx - of_nat (size (rt_nodes t))\<rparr>, (if cb then values_of (entries t) else []) @ log)"
    using get m1(1) m2(1) t raxGetData_ok [OF ok] ok values_of_tree [OF ok, of a] by (auto simp: node_ok_def algebra_simps)
  then show ?case using m2(2) by blast
qed

lemma raxFree_ok:
  assumes "shape rx t" "card (dom (rheap rx)) \<le> k"
  shows "raxFreeWithCallback k rx cb = Some (Map.empty, if cb then values_of (entries t) else [])"
proof -
  have h: "heap_is (rheap rx) (rt_nodes t + {#})" "wf_rt t" using assms(1) by (simp_all add: shape_def)
  moreover have "size (rt_nodes t) \<le> k" using heap_is_card [of "rheap rx" "rt_nodes t"] assms by (simp add: shape_def)
  ultimately show ?thesis using free_tree_ok [of rx t "{#}" k cb "[]"] assms(1) by (auto simp: raxFreeWithCallback_def heap_is_empty shape_def)
qed

end
