(* ===== verification/Rax_Map.thy ===== *)
theory Rax_Map
  imports Rax_Remove
begin

text \<open>
  The radix tree as a map from byte strings to pointers. The locale \<open>byte_map\<close> is what a client relies on: a representation, one operation at a time, and lookup;
  any sequence of operations then acts as on a map. With memory to be had the radix tree inhabits it.

  The last section is about memory that runs out: there the code can remove a key it was not asked to.
\<close>

subsection \<open>The interface\<close>

datatype 'd rop = Put "byte list" "'d option" | TryPut "byte list" "'d option" | Del "byte list"

fun op_key :: "'d rop \<Rightarrow> byte list" where
  "op_key (Put k v) = k"
| "op_key (TryPut k v) = k"
| "op_key (Del k) = k"

fun map_op :: "'d rop \<Rightarrow> (byte list \<rightharpoonup> 'd option) \<Rightarrow> (byte list \<rightharpoonup> 'd option)" where
  "map_op (Put k v) m = m(k \<mapsto> v)"
| "map_op (TryPut k v) m = (if m k = None then m(k \<mapsto> v) else m)"
| "map_op (Del k) m = m(k := None)"

fun run_ops :: "('d rop \<Rightarrow> 's \<Rightarrow> 's option) \<Rightarrow> 'd rop list \<Rightarrow> 's \<Rightarrow> 's option" where
  "run_ops f [] s = Some s"
| "run_ops f (x # xs) s = do { s \<leftarrow> f x s; run_ops f xs s }"

locale byte_map =
  fixes represents :: "'s \<Rightarrow> (byte list \<rightharpoonup> 'd option) \<Rightarrow> bool"
    and apply_op :: "'d rop \<Rightarrow> 's \<Rightarrow> 's option"
    and find_key :: "'s \<Rightarrow> byte list \<Rightarrow> 'd option option option"
    and key_ok :: "byte list \<Rightarrow> bool"
  assumes op_ok: "represents s m \<Longrightarrow> key_ok (op_key x) \<Longrightarrow> \<exists>s'. apply_op x s = Some s' \<and> represents s' (map_op x m)"
    and find_ok: "represents s m \<Longrightarrow> find_key s k = Some (m k)"
begin

lemma run_ok:
  "represents s m \<Longrightarrow> \<forall>x \<in> set xs. key_ok (op_key x) \<Longrightarrow> \<exists>s'. run_ops apply_op xs s = Some s' \<and> represents s' (fold map_op xs m)"
proof (induction xs arbitrary: s m)
  case (Cons x xs)
  then obtain s1 where "apply_op x s = Some s1" "represents s1 (map_op x m)" using op_ok by fastforce
  then show ?case using Cons by auto
qed simp

lemma run_find:
  assumes "represents s m" "\<forall>x \<in> set xs. key_ok (op_key x)"
  shows "\<exists>s'. run_ops apply_op xs s = Some s' \<and> (\<forall>k. find_key s' k = Some (fold map_op xs m k))"
  using run_ok [OF assms] find_ok by blast

end

subsection \<open>The radix tree\<close>

definition rax_is :: "'d rax \<Rightarrow> (byte list \<rightharpoonup> 'd option) \<Rightarrow> bool" where
  "rax_is rx m \<longleftrightarrow> (\<exists>t. rax_rep rx t \<and> m = map_of (entries t)) \<and> (\<forall>k \<in> dom m. length k \<le> RAX_NODE_MAX_SIZE)"

fun rax_op :: "'d ralloc \<Rightarrow> 'd rop \<Rightarrow> 'd rax \<Rightarrow> 'd rax option" where
  "rax_op al (Put k v) rx = do { (_, rx) \<leftarrow> raxInsert al rx k v; Some rx }"
| "rax_op al (TryPut k v) rx = do { (_, rx) \<leftarrow> raxTryInsert al rx k v; Some rx }"
| "rax_op al (Del k) rx = do { (_, _, rx) \<leftarrow> raxRemove al rx k; Some rx }"

lemma rax_is_size: "rax_is rx m \<Longrightarrow> raxSize rx = of_nat (card (dom m))"
proof -
  assume "rax_is rx m"
  then obtain t where t: "rax_rep rx t" "m = map_of (entries t)" by (auto simp: rax_is_def)
  then have "distinct (map fst (entries t))" by (intro entries_distinct) (simp add: rax_rep_def shape_def)
  then have "length (entries t) = card (dom m)" using t(2) distinct_card [of "map fst (entries t)"] by (simp add: dom_map_of_conv_image_fst)
  then show ?thesis using t(1) by (simp add: raxSize_def rax_rep_def)
qed

lemma rax_is_find: "rax_is rx m \<Longrightarrow> raxFind al rx s = Some (m s)"
  using raxFind_walk [of rx _ al s] by (auto simp: rax_is_def rax_rep_def shape_def)

context rax_memory
begin

lemma raxNew_is: "\<exists>rx. raxNew al = Some rx \<and> rax_is rx Map.empty"
proof -
  have "heap_is (Map.empty :: 'd rheap) {#}" by (simp add: heap_is_empty)
  then obtain a m where m: "rax_block al Map.empty 0 8 = Some (a, m)" "heap_is m {#(a, blank 0 8)#}" using block_ok by blast
  have "rax_rep \<lparr>rheap = m, rhead = a, numele = 0, numnodes = 1\<rparr> (new_leaf a)" using m(2) by (simp add: rax_rep_def shape_def)
  then have "rax_is \<lparr>rheap = m, rhead = a, numele = 0, numnodes = 1\<rparr> Map.empty" unfolding rax_is_def by (auto intro!: exI [of _ "new_leaf a"])
  then show ?thesis using m(1) enough by (simp add: raxNew_def raxNewNode_leaf ralloc_total_def)
qed

lemma insert_is:
  assumes "rax_is rx m" "length s \<le> RAX_NODE_MAX_SIZE"
  shows "\<exists>rx'. raxGenericInsert al rx s data ov = Some (case m s of None \<Rightarrow> insert_done | Some old \<Rightarrow> \<lparr>result = False, old_data = Some old, enomem = False\<rparr>, rx') \<and>
     rax_is rx' (if m s = None \<or> ov then m(s \<mapsto> data) else m)"
proof -
  obtain t where t: "rax_rep rx t" "m = map_of (entries t)" using assms(1) by (auto simp: rax_is_def)
  obtain r rx' t' where r: "raxGenericInsert al rx s data ov = Some (r, rx')" "rax_rep rx' t'" "inserts t s data ov r t'"
    using raxGenericInsert_ok [OF t(1)] by blast
  have "map_of (entries t') = (if m s = None \<or> ov then m(s \<mapsto> data) else m)"
    "r = (case m s of None \<Rightarrow> insert_done | Some old \<Rightarrow> \<lparr>result = False, old_data = Some old, enomem = False\<rparr>)"
    using r(3) t(2) by (auto simp: inserts_def split: option.splits)
  moreover from this have "rax_is rx' (map_of (entries t'))" using r(2) assms by (auto simp: rax_is_def split: if_splits)
  ultimately show ?thesis using r(1) by auto
qed

lemma remove_is:
  assumes "rax_is rx m"
  shows "\<exists>rx'. raxRemove al rx s = Some (m s \<noteq> None, m s, rx') \<and> rax_is rx' (m(s := None))"
proof -
  obtain t where t: "rax_rep rx t" "m = map_of (entries t)" using assms(1) by (auto simp: rax_is_def)
  obtain rx' t' where r: "raxRemove al rx s = Some (m s \<noteq> None, m s, rx')" "rax_rep rx' t'" "map_of (entries t') = m(s := None)"
    using raxRemove_ok [OF t(1), of s] assms t(2) by (auto simp: rax_is_def)
  then have "rax_is rx' (m(s := None))" using assms by (auto simp: rax_is_def intro!: exI [of _ t'])
  then show ?thesis using r(1) by blast
qed

end

sublocale rax_memory \<subseteq> rm: byte_map rax_is "rax_op al" "raxFind al" "\<lambda>k. length k \<le> RAX_NODE_MAX_SIZE"
proof unfold_locales
  fix rx :: "'d rax" and m and x :: "'d rop" assume a: "rax_is rx m" "length (op_key x) \<le> RAX_NODE_MAX_SIZE"
  show "\<exists>rx'. rax_op al x rx = Some rx' \<and> rax_is rx' (map_op x m)"
  proof (cases x)
    case (Put k v)
    then show ?thesis using insert_is [of rx m k v True] a by (auto simp: raxInsert_def)
  next
    case (TryPut k v)
    then show ?thesis using insert_is [of rx m k v False] a by (auto simp: raxTryInsert_def)
  next
    case (Del k)
    then show ?thesis using remove_is [OF a(1), of k] by auto
  qed
qed (rule rax_is_find)

context rax_memory
begin

lemma rax_runs:
  assumes "\<forall>x \<in> set xs. length (op_key x) \<le> RAX_NODE_MAX_SIZE"
  shows "\<exists>rx rx'. raxNew al = Some rx \<and> run_ops (rax_op al) xs rx = Some rx' \<and> rax_is rx' (fold map_op xs Map.empty)"
  using raxNew_is rm.run_ok [OF _ assms] by blast

end

text \<open>An allocator that always has memory, by the first free address.\<close>

definition first_free :: "'d ralloc" where
  "first_free = \<lparr>rax_malloc = (\<lambda>m sz. if \<exists>a. m a = None then Some (LEAST a. m a = None) else None), rax_realloc = (\<lambda>m p sz. Some p), rax_room = (\<lambda>_. True)\<rparr>"

lemma first_free_ok: "ralloc_ok (first_free :: 'd ralloc)" "ralloc_total (first_free :: 'd ralloc)"
proof -
  show "ralloc_ok (first_free :: 'd ralloc)" by (auto simp: ralloc_ok_def first_free_def split: if_splits intro: LeastI_ex)
  have "infinite (dom m)" if "\<forall>a. \<exists>y. m a = Some y" for m :: "'d rheap"
  proof -
    have "dom m = UNIV" using that by auto
    then show ?thesis by simp
  qed
  then show "ralloc_total (first_free :: 'd ralloc)" by (simp add: ralloc_total_def first_free_def)
qed

interpretation rax_first: rax_memory first_free
  by unfold_locales (rule first_free_ok)+

subsection \<open>Properties\<close>

text \<open>
  C5. A radix tree is a map. From an empty tree, any sequence of insertions, insertions that do not overwrite, and removals (keys of any bytes, up to the 512 MB a node can
  hold; NULL values included) runs without a fault, and afterwards \<open>raxFind\<close> finds exactly the keys and values of the map on which the same operations were performed; \<open>raxSize\<close> is
  their number.
\<close>

theorem rax_refines_map:
  assumes "ralloc_ok al" and "ralloc_total al" and "\<forall>x \<in> set xs. length (op_key x) \<le> RAX_NODE_MAX_SIZE"
  shows "\<exists>rx rx'. raxNew al = Some rx \<and> run_ops (rax_op al) xs rx = Some rx' \<and> (\<forall>k. raxFind al rx' k = Some (fold map_op xs Map.empty k)) \<and>
     raxSize rx' = of_nat (card (dom (fold map_op xs Map.empty)))"
  using rax_memory.rax_runs [OF _ assms(3), of al] assms(1,2) rax_is_find rax_is_size by (fastforce simp: rax_memory_def)

theorem rax_refines_map_witness:
  "\<exists>rx rx'. raxNew first_free = Some rx \<and> run_ops (rax_op first_free) [Put [1] (Some True), Put [1, 2] None, Del [1]] rx = Some rx' \<and>
     raxFind first_free rx' [1] = Some None \<and> raxFind first_free rx' [1, 2] = Some (Some None)"
  using rax_refines_map [OF first_free_ok, of "[Put [1] (Some True), Put [1, 2] None, Del [1]]"] by (fastforce simp: RAX_NODE_MAX_SIZE_def)

definition two_blocks :: "'d ralloc" where
  "two_blocks = \<lparr>rax_malloc = (\<lambda>m sz. if m 0 = None then Some 0 else if m 1 = None then Some 1 else None), rax_realloc = (\<lambda>m p sz. Some p), rax_room = (\<lambda>_. True)\<rparr>"

text \<open>
  C14. What insertion and removal report. An insertion that finds the key returns 0 with the value that was there, and replaces it only when it may overwrite; otherwise it returns 1 and adds the key.
  A removal returns 1 and the value of a key that was there, and 0 for one that was not. Nothing else in the map changes, whatever splitting and merging of nodes it takes, and the tree stays well formed.
\<close>

theorem rax_reports:
  assumes "ralloc_ok al" and "ralloc_total al" and "rax_is rx m" and "length s \<le> RAX_NODE_MAX_SIZE"
  shows "\<exists>rx1 rx2 rx3.
     raxInsert al rx s data = Some (case m s of None \<Rightarrow> insert_done | Some old \<Rightarrow> \<lparr>result = False, old_data = Some old, enomem = False\<rparr>, rx1) \<and> rax_is rx1 (m(s \<mapsto> data)) \<and>
     raxTryInsert al rx s data = Some (case m s of None \<Rightarrow> insert_done | Some old \<Rightarrow> \<lparr>result = False, old_data = Some old, enomem = False\<rparr>, rx2) \<and>
       rax_is rx2 (if m s = None then m(s \<mapsto> data) else m) \<and>
     raxRemove al rx s = Some (m s \<noteq> None, m s, rx3) \<and> rax_is rx3 (m(s := None))"
proof -
  have mem: "rax_memory al" using assms(1,2) by (simp add: rax_memory_def)
  show ?thesis using rax_memory.insert_is [OF mem assms(3,4), of data True] rax_memory.insert_is [OF mem assms(3,4), of data False]
      rax_memory.remove_is [OF mem assms(3), of s] by (simp add: raxInsert_def raxTryInsert_def)
qed

theorem rax_reports_witness:
  "\<exists>rx rx1 rx2. raxNew first_free = Some rx \<and> raxInsert first_free rx [1, 2] (Some True) = Some (insert_done, rx1) \<and>
     raxRemove first_free rx [1, 2] = Some (False, None, rx2) \<and> rax_is rx1 [[1, 2] \<mapsto> Some True]"
proof -
  obtain rx :: "bool rax" where rx: "raxNew first_free = Some rx" "rax_is rx Map.empty" using rax_first.raxNew_is by blast
  then show ?thesis using rax_reports [OF first_free_ok rx(2), of "[1, 2]" "Some True"] by (auto simp: RAX_NODE_MAX_SIZE_def)
qed

text \<open>
  C38. Releasing a tree. Every node is freed, each once (no node is left in the store, none is freed twice), the counter of nodes is 0 at the end as the code asserts, and the callback gets
  every value that is not NULL once, in the reverse order of the keys (the log has the last call first). A bound on the recursion of the number of nodes is enough.
\<close>

theorem raxFree_releases:
  assumes "rax_rep rx t" and "card (dom (rheap rx)) \<le> k"
  shows "raxFreeWithCallback k rx True = Some (Map.empty, values_of (entries t)) \<and> raxFree k rx = Some Map.empty"
  using raxFree_ok [OF _ assms(2), of t] assms(1) by (simp add: rax_rep_def raxFree_def)

theorem raxFree_releases_witness:
  "raxFreeWithCallback 1 \<lparr>rheap = [5 \<mapsto> with_data (blank 0 16) (Some True)], rhead = 5, numele = 1, numnodes = 1\<rparr> True = Some (Map.empty, [True]) \<and>
   raxFree 1 \<lparr>rheap = [5 \<mapsto> with_data (blank 0 16) (Some True)], rhead = 5, numele = 1, numnodes = 1\<rparr> = Some Map.empty"
proof -
  let ?n = "with_data (blank 0 16) (Some True)" let ?t = "RT 5 ?n []" let ?rx = "\<lparr>rheap = [5 \<mapsto> ?n], rhead = 5, numele = 1, numnodes = 1\<rparr>"
  have l: "linked ?n [] = ?n" by (simp add: linked_def with_data_def blank_def)
  have "heap_is [5 \<mapsto> ?n] {#(5 :: nat, ?n)#}" by (rule heap_is_new) (simp_all add: heap_is_empty)
  then have "rax_rep ?rx ?t" using l by (simp add: rax_rep_def shape_def node_ok_def edges_def raxNodeCurrentLength_def with_data_def blank_def own_def linked_def)
  moreover have "values_of (entries ?t) = [True]" by (simp add: values_of_def map_filter_simps edges_def)
  ultimately show ?thesis using raxFree_releases [of ?rx ?t 1] by simp
qed

subsection \<open>Exhausted memory\<close>

text \<open>
  With room for two nodes only, a tree that holds the key \<open>a\<close> is asked to insert \<open>ab\<close>. The code answers that memory is exhausted, but on its way out it has removed the key \<open>a\<close> (the node where it ran out
  was the node of that key), and the number of elements is one too many.
\<close>

definition oom_run :: "((nat inserted \<times> nat rax) \<times> nat rax) option" where
  "oom_run = do { rx \<leftarrow> raxNew two_blocks; (_, rx) \<leftarrow> raxInsert two_blocks rx [97] (Some 7); r \<leftarrow> raxInsert two_blocks rx [97, 98] None; Some (r, rx) }"

lemma two_blocks_ok: "ralloc_ok two_blocks"
  by (auto simp: ralloc_ok_def two_blocks_def split: if_splits)

lemma rax_oom_loses_key:
  "map_option (\<lambda>((r, rx'), rx). (enomem r, raxFind two_blocks rx [97], raxFind two_blocks rx' [97], raxSize rx')) oom_run =
     Some (True, Some (Some (Some 7)), Some None, 1)"
  by code_simp

end
