(* ===== verification/Rax_Scan.thy ===== *)
theory Rax_Scan
  imports Rax_Iter Rax_Map
begin

text \<open>
  The iterator of the radix tree is a cursor in the sorted list of its entries. A position is a node in its context (\<open>at_node\<close>); \<open>ctx_pre\<close> and \<open>ctx_post\<close> are the entries before and
  behind it, and each step of the code moves along these lists.
\<close>

subsection \<open>Positions\<close>

definition walkable :: "'d ralloc \<Rightarrow> 'd rax \<Rightarrow> 'd rt \<Rightarrow> bool" where
  "walkable al rx T \<longleftrightarrow> (\<forall>n. rax_room al n) \<and> heap_is (rheap rx) (rt_nodes T) \<and> rhead rx = root T \<and> wf_rt T \<and> live_root T"

definition it_ok :: "'d ralloc \<Rightarrow> 'd raxIterator \<Rightarrow> bool" where
  "it_ok al it \<longleftrightarrow> stack_ok al (it_stack it) \<and> \<not> soom (it_stack it) \<and> length (key_buf it) \<le> key_max it \<and> node_cb it = None"

definition key_is :: "'d raxIterator \<Rightarrow> byte list \<Rightarrow> bool" where
  "key_is it k \<longleftrightarrow> key_len it = length k \<and> it_key it = k"

definition at_node :: "'d ralloc \<Rightarrow> 'd raxIterator \<Rightarrow> 'd frame list \<Rightarrow> 'd rt \<Rightarrow> byte list \<Rightarrow> bool" where
  "at_node al it C t k \<longleftrightarrow> it_ok al it \<and> it_node it = Some (root t) \<and> sitems (it_stack it) = map frame_addr C \<and> key_is it k \<and>
     \<not> it_eof it \<and> \<not> just_seeked it"

definition at_entry :: "'d ralloc \<Rightarrow> 'd raxIterator \<Rightarrow> 'd frame list \<Rightarrow> 'd rt \<Rightarrow> bool" where
  "at_entry al it C t \<longleftrightarrow> at_node al it C t (path C) \<and> own (info t) = [([], it_data it)]"

definition below :: "'d frame list \<Rightarrow> 'd rt \<Rightarrow> (byte list \<times> 'd option) list" where
  "below C t = map (pfx (path C)) (hung (edges (info t)) (map entries (subs t)))"

definition behind :: "'d frame list \<Rightarrow> 'd rt \<Rightarrow> (byte list \<times> 'd option) list" where
  "behind C t = below C t @ ctx_post C"

definition so_far :: "'d frame list \<Rightarrow> 'd rt \<Rightarrow> (byte list \<times> 'd option) list" where
  "so_far C t = ctx_pre C @ map (pfx (path C)) (own (info t))"

text \<open>What a step to the next entry reaches, given the entries that are left, and what one to the previous entry reaches.\<close>

definition lands :: "'d ralloc \<Rightarrow> 'd rt \<Rightarrow> 'd raxIterator \<Rightarrow> (byte list \<times> 'd option) list \<Rightarrow> bool" where
  "lands al T it xs \<longleftrightarrow> (if xs = [] then it_ok al it \<and> it_eof it
     else \<exists>C t. plug C t = T \<and> at_entry al it C t \<and> xs = (path C, it_data it) # behind C t)"

definition lands_back :: "'d ralloc \<Rightarrow> 'd rt \<Rightarrow> 'd raxIterator \<Rightarrow> (byte list \<times> 'd option) list \<Rightarrow> bool" where
  "lands_back al T it xs \<longleftrightarrow> (if xs = [] then it_ok al it \<and> it_eof it
     else \<exists>C t. plug C t = T \<and> at_entry al it C t \<and> xs = ctx_pre C @ [(path C, it_data it)])"

lemma walkable_parts:
  assumes "walkable al rx T" "plug C t = T"
  shows "wf_ctx C" "wf_rt t" "live_ctx C" "live_root t" "C \<noteq> [] \<Longrightarrow> live t" "rax_room al n" "wf_rt T"
  using assms by (auto simp: walkable_def wf_plug live_root_plug split: if_splits intro: live_live_root)

lemma walkable_node:
  assumes "walkable al rx T" "plug C t = T"
  shows "rheap rx (root t) = Some (linked (info t) (map root (subs t)))"
  using assms find_nodes [of "rheap rx" C "root t" "info t" "subs t"] by (auto simp: walkable_def)

lemma node_ok_info: "wf_rt t \<Longrightarrow> node_ok (info t) (length (subs t))"
  by (cases t) simp

lemma on_head:
  assumes "walkable al rx T" "plug C t = T"
  shows "root t = rhead rx \<longleftrightarrow> C = []"
proof (cases "C = []")
  case False
  have "rt_nodes T = add_mset (root t, linked (info t) (map root (subs t))) (forest (subs t) + ctx_nodes C (root t))"
    using rt_nodes_plug [of C t] assms(2) by (cases t) (simp add: add.commute)
  then have "heap_is (rheap rx) (add_mset (root t, linked (info t) (map root (subs t))) (forest (subs t) + ctx_nodes C (root t)))"
    using assms(1) by (simp only: walkable_def)
  from heap_is_notin [OF this] have "root t \<notin> fst ` set_mset (ctx_nodes C (root t))" by (simp only: set_mset_union image_Un Un_iff) blast
  then have "root t \<noteq> ctx_head C (root t)" using ctx_head_in [OF False, of "root t"] by metis
  moreover have "rhead rx = ctx_head C (root t)" using root_plug [of C t] assms by (simp add: walkable_def)
  ultimately show ?thesis using False by simp
qed (use assms in \<open>auto simp: walkable_def\<close>)

lemma entries_at:
  assumes "walkable al rx T" "plug C t = T"
  shows "entries T = so_far C t @ behind C t"
  using entries_plug [OF walkable_parts(1) [OF assms], of t] assms(2) by (cases t) (simp add: so_far_def behind_def below_def)

lemma flag_ok [simp]: "it_ok al (it\<lparr>just_seeked := b\<rparr>) = it_ok al it" "it_ok al (it\<lparr>it_data := d\<rparr>) = it_ok al it"
  "key_is (it\<lparr>just_seeked := b\<rparr>) k = key_is it k" "key_is (it\<lparr>it_data := d\<rparr>) k = key_is it k"
  by (simp_all add: it_ok_def key_is_def it_key_def)

subsection \<open>The key and the stack\<close>

lemma add_chars_ok:
  assumes "it_ok al it" "key_is it k" "\<forall>n. rax_room al n"
  shows "\<exists>it'. raxIteratorAddChars al it s = Some (True, it') \<and> it_ok al it' \<and> key_is it' (k @ s) \<and> it_node it' = it_node it \<and> it_stack it' = it_stack it \<and>
     it_eof it' = it_eof it \<and> just_seeked it' = just_seeked it"
proof (cases "s = []")
  case False
  have k: "length k \<le> length (key_buf it)" "take (length k) (key_buf it) = k" "key_len it = length k"
    using assms(2) by (auto simp: key_is_def it_key_def)
  then show ?thesis using False assms by (auto simp: raxIteratorAddChars_def Let_def it_ok_def key_is_def it_key_def)
qed (use assms in \<open>simp add: raxIteratorAddChars_def\<close>)

lemma push_ok:
  assumes "it_ok al it"
  shows "\<exists>it'. it_push al it a = Some (True, it') \<and> it_ok al it' \<and> sitems (it_stack it') = a # sitems (it_stack it) \<and> it_key it' = it_key it \<and> key_len it' = key_len it \<and>
     it_eof it' = it_eof it \<and> just_seeked it' = just_seeked it \<and> it_node it' = it_node it"
  using raxStackPush_ok [of al "it_stack it" a] assms by (auto simp: it_ok_def it_push_def it_key_def)

text \<open>Leaving a node for its parent, and, with \<open>noup\<close>, returning to the node whose key was extended.\<close>

lemma last_char_ok: "key_is it (k @ e) \<Longrightarrow> e \<noteq> [] \<Longrightarrow> last_char it = Some (last e)"
proof -
  assume a: "key_is it (k @ e)" "e \<noteq> []"
  then have l: "key_len it = length (k @ e)" "take (key_len it) (key_buf it) = k @ e" by (auto simp: key_is_def it_key_def)
  then have "key_len it \<le> length (key_buf it)" by (metis length_take min.absorb_iff2 min.commute)
  moreover have "key_buf it ! (key_len it - 1) = (k @ e) ! (length (k @ e) - 1)" using l a(2) nth_take [of "key_len it - 1" "key_len it" "key_buf it"] by auto
  moreover have "(k @ e) ! (length (k @ e) - 1) = last e" using a(2) last_conv_nth [of "k @ e"] by simp
  moreover have "0 < key_len it" using l a(2) by simp
  ultimately show ?thesis by (simp add: last_char_def get_at_def)
qed

lemma del_chars_ok: "key_is it (k @ e) \<Longrightarrow> it_ok al it \<Longrightarrow> length e = d \<Longrightarrow>
   \<exists>it'. raxIteratorDelChars it d = Some it' \<and> it' = it\<lparr>key_len := length k\<rparr> \<and> key_is it' k \<and> it_ok al it'"
  by (auto simp: raxIteratorDelChars_def key_is_def it_key_def it_ok_def) (metis append_eq_conv_conj take_take min.absorb1 le_add1)

lemma edge_length: "node_ok n k \<Longrightarrow> j < k \<Longrightarrow> length (edges n ! j) = (if iscompr n then rsize n else 1) \<and> edges n ! j \<noteq> []"
  by (auto simp: node_ok_def edges_def)

lemma to_parent_noup:
  assumes "walkable al rx T" "plug C t = T" "at_node al it C t (path C @ e)" "length e = (if iscompr (info t) then rsize (info t) else 1)" "e \<noteq> []"
  shows "\<exists>it'. last_char it = Some (last e) \<and> to_parent (rheap rx) it True = Some (root t, linked (info t) (map root (subs t)), it') \<and>
     at_node al it' C t (path C) \<and> maxitems (it_stack it') = maxitems (it_stack it)"
proof -
  have k: "key_is it (path C @ e)" "it_ok al it" using assms(3) by (auto simp: at_node_def)
  from del_chars_ok [OF k assms(4)] last_char_ok [OF k(1) assms(5)] walkable_node [OF assms(1,2)] assms(3)
  show ?thesis by (auto simp: to_parent_def at_node_def)
qed

lemma to_parent_up:
  assumes "walkable al rx T" "plug (Frame a n ls rs # C) t = T" "at_node al it (Frame a n ls rs # C) t (path (Frame a n ls rs # C))"
  shows "\<exists>it'. last_char it = Some (last (edges n ! length ls)) \<and> to_parent (rheap rx) it False = Some (a, linked n (map root (ls @ t # rs)), it') \<and>
     at_node al it' C (RT a n (ls @ t # rs)) (path C) \<and> maxitems (it_stack it') = maxitems (it_stack it)"
proof -
  let ?it = "it\<lparr>it_node := Some a, it_stack := (it_stack it)\<lparr>sitems := map frame_addr C, popped := a # popped (it_stack it)\<rparr>\<rparr>"
  let ?e = "edges n ! length ls" let ?t = "RT a n (ls @ t # rs)"
  have e: "length ?e = (if iscompr (info ?t) then rsize (info ?t) else 1)" "?e \<noteq> []"
    using edge_length [of n "length ls + Suc (length rs)" "length ls"] walkable_parts(1) [OF assms(1,2)] by auto
  have p: "plug C ?t = T" using assms(2) by simp
  have at: "at_node al ?it C ?t (path C @ ?e)"
    using assms(3) by (auto simp: at_node_def it_ok_def stack_ok_def key_is_def it_key_def)
  obtain it' where it': "last_char ?it = Some (last ?e)" "to_parent (rheap rx) ?it True = Some (root ?t, linked (info ?t) (map root (subs ?t)), it')"
    "at_node al it' C ?t (path C)" "maxitems (it_stack it') = maxitems (it_stack ?it)"
    using to_parent_noup [OF assms(1) p at e] by blast
  have "raxStackPop (it_stack it) = (Some a, it_stack ?it)" using assms(3) by (simp add: at_node_def raxStackPop_def)
  then have "to_parent (rheap rx) it False = to_parent (rheap rx) ?it True" by (simp add: to_parent_def)
  moreover have "last_char it = last_char ?it" by (simp add: last_char_def)
  ultimately show ?thesis using it' by auto
qed


subsection \<open>The next entry\<close>

lemma hung_drop:
  assumes "i < length es" "length es = length ts"
  shows "hung (drop i es) (map entries (drop i ts)) = map (pfx (es ! i)) (entries (ts ! i)) @ hung (drop (Suc i) es) (map entries (drop (Suc i) ts))"
  using assms by (simp add: Cons_nth_drop_Suc [symmetric])

lemma own_key: "node_ok n k \<Longrightarrow> own n = (if iskey n then [([], the (raxGetData n))] else [])"
  by (auto simp: own_def node_ok_def raxGetData_def)

text \<open>Entering a child reaches its entry, or the child itself, from which there is more to come.\<close>

definition arrives :: "'d ralloc \<Rightarrow> 'd rt \<Rightarrow> bool \<Rightarrow> 'd raxIterator \<Rightarrow> (byte list \<times> 'd option) list \<Rightarrow> bool" where
  "arrives al T key it xs \<longleftrightarrow> (if key then xs \<noteq> [] \<and> lands al T it xs
     else \<exists>C t. plug C t = T \<and> at_node al it C t (path C) \<and> subs t \<noteq> [] \<and> C \<noteq> [] \<and> behind C t = xs)"

lemma enter_child_ok:
  assumes w: "walkable al rx T" "plug C (RT a n ts) = T" and j: "j < length ts"
    and it: "it_ok al it" "sitems (it_stack it) = a # map frame_addr C" "key_is it (path C @ edges n ! j)" "\<not> it_eof it" "\<not> just_seeked it"
  shows "\<exists>it'. enter_child rx it a j = Some (iskey (info (ts ! j)), rx, it') \<and>
     arrives al T (iskey (info (ts ! j))) it' (map (pfx (path C)) (hung (drop j (edges n)) (map entries (drop j ts))) @ ctx_post C) \<and>
     (let D = Frame a n (take j ts) (drop (Suc j) ts) # C in plug D (ts ! j) = T \<and> at_node al it' D (ts ! j) (path D))"
proof -
  let ?D = "Frame a n (take j ts) (drop (Suc j) ts) # C" let ?u = "ts ! j" let ?k = "info ?u"
  have p: "plug ?D ?u = T" using plug_descend [OF j, of a n C] w(2) by simp
  have le: "length (edges n) = length ts" using walkable_parts(2) [OF w] by (simp add: length_edges)
  have u: "node_ok ?k (length (subs ?u))" "live ?u" using walkable_parts(2,5) [OF w(1) p] node_ok_info by auto
  have path: "path ?D = path C @ edges n ! j" using j by simp
  have n: "rheap rx a = Some (linked n (map root ts))" "rheap rx (root ?u) = Some (linked ?k (map root (subs ?u)))"
    using walkable_node [OF w] walkable_node [OF w(1) p] by auto
  define it' where "it' = (if iskey ?k then it\<lparr>it_node := Some (root ?u), it_data := the (raxGetData ?k)\<rparr> else it\<lparr>it_node := Some (root ?u)\<rparr>)"
  have e: "enter_child rx it a j = Some (iskey ?k, rx, it')"
    using n j it(1) raxGetData_ok [OF u(1)] by (auto simp: enter_child_def child_at_def it'_def it_ok_def)
  have at: "at_node al it' ?D ?u (path ?D)" using it path by (auto simp: at_node_def it'_def it_ok_def key_is_def it_key_def)
  have x: "map (pfx (path C)) (hung (drop j (edges n)) (map entries (drop j ts))) @ ctx_post C = map (pfx (path ?D)) (own ?k) @ behind ?D ?u"
    using hung_drop [of j "edges n" ts] j le by (cases ?u) (simp add: behind_def below_def comp_def)
  have "arrives al T (iskey ?k) it' (map (pfx (path ?D)) (own ?k) @ behind ?D ?u)"
  proof (cases "iskey ?k")
    case True
    then have "at_entry al it' ?D ?u" using at own_key [OF u(1)] by (auto simp: at_entry_def it'_def)
    then show ?thesis using True p own_key [OF u(1)] by (auto simp: arrives_def lands_def at_entry_def intro!: exI [of _ ?D] exI [of _ ?u])
  next
    case False
    then have "subs ?u \<noteq> []" using u(2) by (cases ?u) auto
    then show ?thesis using False at p own_key [OF u(1)] unfolding arrives_def by (auto intro!: exI [of _ ?D] exI [of _ ?u])
  qed
  then show ?thesis using e at p x by (simp add: Let_def)
qed


lemma size_sub: "u \<in> set ts \<Longrightarrow> size u < size (RT a n ts)"
  by (induction ts) auto

lemma first_edge: "node_ok n k \<Longrightarrow> 0 < k \<Longrightarrow> edges n ! 0 = (if iscompr n then chars n else take 1 (chars n))"
  by (cases "chars n") (auto simp: node_ok_def edges_def)

lemma next_down:
  assumes "walkable al rx T" "plug C t = T" "at_node al it C t (path C)" "subs t \<noteq> []"
  shows "\<exists>it'. next_loop al rx it False orig = Some (True, rx, it') \<and> behind C t \<noteq> [] \<and> lands al T it' (behind C t)"
  using assms(2-4)
proof (induction t arbitrary: C it rule: measure_induct_rule [where f = size])
  case (less t)
  obtain a n ts where t: "t = RT a n ts" by (cases t)
  have j: "0 < length ts" using less.prems(3) t by simp
  have p: "plug C (RT a n ts) = T" using less.prems(1) t by simp
  have n: "node_ok n (length ts)" using walkable_parts(2) [OF assms(1) p] by simp
  have at: "it_ok al it" "sitems (it_stack it) = map frame_addr C" "key_is it (path C)" "\<not> it_eof it" "\<not> just_seeked it" "it_node it = Some a"
    using less.prems(2) t by (auto simp: at_node_def)
  obtain it1 where i1: "it_push al it a = Some (True, it1)" "it_ok al it1" "sitems (it_stack it1) = a # map frame_addr C" "key_is it1 (path C)" "\<not> it_eof it1" "\<not> just_seeked it1"
    using push_ok [OF at(1), of a] at by (auto simp: key_is_def)
  obtain it2 where i2: "raxIteratorAddChars al it1 (edges n ! 0) = Some (True, it2)" "it_ok al it2" "sitems (it_stack it2) = a # map frame_addr C"
    "key_is it2 (path C @ edges n ! 0)" "\<not> it_eof it2" "\<not> just_seeked it2"
    using add_chars_ok [OF i1(2,4), of "edges n ! 0"] i1 assms(1) by (auto simp: walkable_def)
  obtain it3 where i3: "enter_child rx it2 a 0 = Some (iskey (info (ts ! 0)), rx, it3)"
    "arrives al T (iskey (info (ts ! 0))) it3 (map (pfx (path C)) (hung (drop 0 (edges n)) (map entries (drop 0 ts))) @ ctx_post C)"
    "let D = Frame a n (take 0 ts) (drop (Suc 0) ts) # C in plug D (ts ! 0) = T \<and> at_node al it3 D (ts ! 0) (path D)"
    using enter_child_ok [OF assms(1) p j i2(2-6)] by blast
  have b: "map (pfx (path C)) (hung (drop 0 (edges n)) (map entries (drop 0 ts))) @ ctx_post C = behind C t" using t by (simp add: behind_def below_def)
  have ne: "(if iscompr n then 1 else rsize n) \<noteq> 0" using n j by (auto simp: node_ok_def edges_def)
  have step: "next_loop al rx it False orig = (if iskey (info (ts ! 0)) then Some (True, rx, it3) else next_loop al rx it3 False orig)"
    using walkable_node [OF assms(1) p] at(6) i1(1) i2(1) i3(1) ne first_edge [OF n j]
    by (subst next_loop.simps) (simp split del: if_split cong: if_cong)
  show ?case
  proof (cases "iskey (info (ts ! 0))")
    case True
    then show ?thesis using step i3(2) b by (auto simp: arrives_def)
  next
    case False
    let ?D = "Frame a n (take 0 ts) (drop (Suc 0) ts) # C"
    have D: "plug ?D (ts ! 0) = T" "at_node al it3 ?D (ts ! 0) (path ?D)" using i3(3) by (simp_all add: Let_def)
    have "live (ts ! 0)" using walkable_parts(5) [OF assms(1) D(1)] by simp
    then have "subs (ts ! 0) \<noteq> []" using False by (cases "ts ! 0") auto
    moreover have "size (ts ! 0) < size t" using size_sub [of "ts ! 0" ts a n] j t by simp
    ultimately obtain it' where it': "next_loop al rx it3 False orig = Some (True, rx, it')" "behind ?D (ts ! 0) \<noteq> []" "lands al T it' (behind ?D (ts ! 0))"
      using less.IH [OF _ D] by blast
    have "own (info (ts ! 0)) = []" using False by (simp add: own_def)
    then have "behind ?D (ts ! 0) = behind C t" using hung_drop [of 0 "edges n" ts] j t n
      by (cases "ts ! 0") (simp add: behind_def below_def comp_def length_edges)
    then show ?thesis using step it' False by simp
  qed
qed

lemma enter_next_ok:
  assumes w: "walkable al rx T" "plug C (RT a n ts) = T" and at: "at_node al it C (RT a n ts) (path C)" and i: "i < length ts" "\<not> iscompr n"
  shows "\<exists>key it'. enter_next al rx it a (linked n as) i = Some (if key then Some True else None, rx, it') \<and>
     arrives al T key it' (map (pfx (path C)) (hung (drop i (edges n)) (map entries (drop i ts))) @ ctx_post C)"
proof -
  have e: "edges n ! i = [chars n ! i]" using i walkable_parts(2) [OF w] by (auto simp: node_ok_def edges_def)
  have a: "it_ok al it" "sitems (it_stack it) = map frame_addr C" "key_is it (path C)" "\<not> it_eof it" "\<not> just_seeked it" using at by (auto simp: at_node_def)
  obtain it1 where i1: "raxIteratorAddChars al it (edges n ! i) = Some (True, it1)" "it_ok al it1" "sitems (it_stack it1) = map frame_addr C"
    "key_is it1 (path C @ edges n ! i)" "\<not> it_eof it1" "\<not> just_seeked it1"
    using add_chars_ok [OF a(1,3), of "edges n ! i"] a w(1) by (auto simp: walkable_def)
  obtain it2 where i2: "it_push al it1 a = Some (True, it2)" "it_ok al it2" "sitems (it_stack it2) = a # map frame_addr C" "key_is it2 (path C @ edges n ! i)" "\<not> it_eof it2" "\<not> just_seeked it2"
    using push_ok [OF i1(2), of a] i1 by (auto simp: key_is_def)
  obtain it3 where i3: "enter_child rx it2 a i = Some (iskey (info (ts ! i)), rx, it3)"
    "arrives al T (iskey (info (ts ! i))) it3 (map (pfx (path C)) (hung (drop i (edges n)) (map entries (drop i ts))) @ ctx_post C)"
    using enter_child_ok [OF w i(1) i2(2-6)] by blast
  show ?thesis by (rule exI [of _ "iskey (info (ts ! i))"], rule exI [of _ it3]) (use i1(1) i2(1) i3 e in \<open>simp add: enter_next_def\<close>)
qed


text \<open>The end of an iteration.\<close>

lemma iter_end_ok:
  "at_node al it C t k \<Longrightarrow> length (sitems (it_stack orig)) \<le> maxitems (it_stack it) \<Longrightarrow> it_ok al (iter_end it orig) \<and> it_eof (iter_end it orig)"
  by (auto simp: iter_end_def at_node_def it_ok_def stack_ok_def stack_items_def Let_def)

lemma edge_pos_is:
  "i \<le> length cs \<Longrightarrow> (\<And>j. j < i \<Longrightarrow> \<not> c < cs ! j) \<Longrightarrow> (i < length cs \<Longrightarrow> c < cs ! i) \<Longrightarrow> edge_pos cs c = i"
proof (induction cs arbitrary: i)
  case (Cons x xs)
  show ?case
  proof (cases i)
    case (Suc k)
    have "edge_pos xs c = k" by (rule Cons.IH) (use Cons.prems Suc in \<open>force+\<close>)
    then show ?thesis using Suc Cons.prems(2) [of 0] by simp
  qed (use Cons.prems in simp)
qed simp

text \<open>Behind the edge that was left.\<close>

lemma edge_pos_left:
  assumes "node_ok n (length ls + Suc (length rs))" "\<not> iscompr n"
  shows "edge_pos (chars n) (last (edges n ! length ls)) = Suc (length ls)"
proof -
  have l: "rsize n = length ls + Suc (length rs)" "sorted_wrt (<) (chars n)" "edges n ! length ls = [chars n ! length ls]"
    using assms by (auto simp: node_ok_def edges_def)
  have lt: "chars n ! i < chars n ! j" if "i < j" "j < rsize n" for i j using sorted_wrt_nth_less [OF l(2) that] .
  have le: "\<not> chars n ! length ls < chars n ! j" if "j < Suc (length ls)" for j using lt [of j "length ls"] that l(1) by (cases "j = length ls") auto
  show ?thesis unfolding l(3) by (rule edge_pos_is) (use lt le l(1) in simp_all)
qed

lemma next_up_ok:
  assumes "walkable al rx T" "plug C t = T" "at_node al it C t (path C)" "length (sitems (it_stack orig)) \<le> maxitems (it_stack it)"
  shows "\<exists>r it'. next_up al rx it False orig = Some (r, rx, it') \<and>
     (r = Some True \<and> lands al T it' (ctx_post C) \<or> r = None \<and> arrives al T False it' (ctx_post C))"
  using assms(2-4)
proof (induction C arbitrary: t it)
  case Nil
  have "it_node it = Some (rhead rx)" using Nil on_head [OF assms(1), of "[]" t] by (simp add: at_node_def)
  moreover have "lands al T (iter_end it orig) []" using iter_end_ok [OF Nil(2,3)] by (simp add: lands_def)
  ultimately show ?case by (subst next_up.simps) simp
next
  case (Cons F C)
  obtain a n ls rs where F: "F = Frame a n ls rs" by (cases F)
  let ?ts = "ls @ t # rs" let ?c = "last (edges n ! length ls)"
  have p: "plug C (RT a n ?ts) = T" "plug (Frame a n ls rs # C) t = T" using Cons.prems(1) F by simp_all
  have n: "node_ok n (length ls + Suc (length rs))" using walkable_parts(1) [OF assms(1) p(2)] by simp
  have head: "it_node it \<noteq> Some (rhead rx)" using Cons.prems(2) on_head [OF assms(1) Cons.prems(1)] by (simp add: at_node_def)
  obtain it1 where i1: "last_char it = Some ?c" "to_parent (rheap rx) it False = Some (a, linked n (map root ?ts), it1)"
    "at_node al it1 C (RT a n ?ts) (path C)" "maxitems (it_stack it1) = maxitems (it_stack it)"
    using to_parent_up [OF assms(1) p(2)] Cons.prems(2) F by blast
  have post: "ctx_post (F # C) = map (pfx (path C)) (hung (drop (Suc (length ls)) (edges n)) (map entries (drop (Suc (length ls)) ?ts))) @ ctx_post C" using F by simp
  show ?case
  proof (cases "\<not> iscompr n \<and> rs \<noteq> []")
    case True
    have e: "edge_pos (chars n) ?c = Suc (length ls)" using edge_pos_left [OF n] True by simp
    have l: "Suc (length ls) \<noteq> rsize n" "1 < rsize n" "Suc (length ls) < length ?ts" using n True by (auto simp: node_ok_def edges_def)
    obtain key it2 where i2: "enter_next al rx it1 a (linked n (map root ?ts)) (Suc (length ls)) = Some (if key then Some True else None, rx, it2)"
      "arrives al T key it2 (ctx_post (F # C))"
      using enter_next_ok [OF assms(1) p(1) i1(3) l(3), of "map root ?ts"] True post by auto
    have "next_up al rx it False orig = Some (if key then Some True else None, rx, it2)"
      using head i1(1,2) i2(1) e l True by (subst next_up.simps) simp
    then show ?thesis using i2(2) by (auto simp: arrives_def split: if_splits)
  next
    case False
    then have rs: "rs = []" using n by (auto simp: node_ok_def edges_def)
    then have e: "\<not> iscompr n \<Longrightarrow> edge_pos (chars n) ?c = rsize n" using edge_pos_left [OF n] n by (auto simp: node_ok_def edges_def)
    have "next_up al rx it False orig = next_up al rx it1 False orig" using head i1(1,2) e by (subst next_up.simps) auto
    moreover have "ctx_post (F # C) = ctx_post C" using post rs by simp
    ultimately show ?thesis using Cons.IH [OF p(1) i1(3)] Cons.prems(3) i1(4) by simp
  qed
qed


text \<open>The search that starts at a node: behind the edges up to the last character of the extended key.\<close>

definition edges_upto :: "'d raxNode \<Rightarrow> byte \<Rightarrow> nat" where
  "edges_upto n c = (if iscompr n then 1 else edge_pos (chars n) c)"

lemma next_up_noup:
  assumes "walkable al rx T" "plug C t = T" "at_node al it C t (path C @ e)" "length e = (if iscompr (info t) then rsize (info t) else 1)" "e \<noteq> []"
    "length (sitems (it_stack orig)) \<le> maxitems (it_stack it)"
  shows "\<exists>r it'. next_up al rx it True orig = Some (r, rx, it') \<and>
     (let xs = map (pfx (path C)) (hung (drop (edges_upto (info t) (last e)) (edges (info t))) (map entries (drop (edges_upto (info t) (last e)) (subs t)))) @ ctx_post C in
      r = Some True \<and> lands al T it' xs \<or> r = None \<and> arrives al T False it' xs)"
proof -
  obtain a n ts where t: "t = RT a n ts" by (cases t)
  have p: "plug C (RT a n ts) = T" using assms(2) t by simp
  have n: "node_ok n (length ts)" using walkable_parts(2) [OF assms(1) p] by simp
  obtain it1 where i1: "last_char it = Some (last e)" "to_parent (rheap rx) it True = Some (a, linked n (map root ts), it1)"
    "at_node al it1 C (RT a n ts) (path C)" "maxitems (it_stack it1) = maxitems (it_stack it)"
    using to_parent_noup [OF assms(1-5)] t by auto
  let ?i = "edges_upto n (last e)"
  show ?thesis
  proof (cases "?i < length ts")
    case True
    have nc: "\<not> iscompr n" using True n by (auto simp: node_ok_def edges_def edges_upto_def)
    then have l: "?i \<noteq> rsize n" "0 < rsize n" "edge_pos (chars n) (last e) = ?i" using True n by (auto simp: node_ok_def edges_def edges_upto_def)
    obtain key it2 where i2: "enter_next al rx it1 a (linked n (map root ts)) ?i = Some (if key then Some True else None, rx, it2)"
      "arrives al T key it2 (map (pfx (path C)) (hung (drop ?i (edges n)) (map entries (drop ?i ts))) @ ctx_post C)"
      using enter_next_ok [OF assms(1) p i1(3) True nc, of "map root ts"] by auto
    have "next_up al rx it True orig = Some (if key then Some True else None, rx, it2)"
      using i1(1,2) i2(1) l nc by (subst next_up.simps) simp
    then show ?thesis using i2(2) t by (auto simp: arrives_def Let_def split: if_splits)
  next
    case False
    then have e: "\<not> iscompr n \<Longrightarrow> edge_pos (chars n) (last e) = rsize n" using n edge_pos_le [of "chars n" "last e"] by (auto simp: node_ok_def edges_def edges_upto_def)
    have "next_up al rx it True orig = next_up al rx it1 False orig" using i1(1,2) e by (subst next_up.simps) auto
    then show ?thesis using next_up_ok [OF assms(1) p i1(3)] assms(6) i1(4) False t by (simp add: Let_def)
  qed
qed

lemma loop_after_up:
  assumes "walkable al rx T" "it_node it = Some (root t)" "rheap rx (root t) = Some (linked (info t) as)" "noup \<or> edges (info t) = []"
    and up: "next_up al rx it noup orig = Some (r, rx, it1)" "r = Some True \<and> lands al T it1 xs \<or> r = None \<and> arrives al T False it1 xs"
  shows "\<exists>it'. next_loop al rx it noup orig = Some (True, rx, it') \<and> lands al T it' xs"
proof -
  have "\<not> (\<not> noup \<and> (if iscompr (info t) then 1 else rsize (info t)) \<noteq> 0)" using assms(4) by (auto simp: edges_def)
  then have l: "next_loop al rx it noup orig = (case r of Some ok \<Rightarrow> Some (ok, rx, it1) | None \<Rightarrow> next_loop al rx it1 False orig)"
    using assms(2,3) up(1) by (subst next_loop.simps) (auto split: option.splits)
  show ?thesis
  proof (cases r)
    case None
    then obtain C u where u: "plug C u = T" "at_node al it1 C u (path C)" "subs u \<noteq> []" "behind C u = xs" using up(2) by (auto simp: arrives_def)
    then show ?thesis using next_down [OF assms(1) u(1-3), of orig] l None by auto
  qed (use l up(2) in auto)
qed

lemma at_node_items: "at_node al it C t k \<Longrightarrow> length (sitems (it_stack it)) \<le> maxitems (it_stack it)"
  by (auto simp: at_node_def it_ok_def stack_ok_def)

lemma next_step_ok:
  assumes "walkable al rx T" "plug C t = T" "at_node al it C t (path C)"
  shows "\<exists>it'. raxIteratorNextStep al rx it False = Some (True, rx, it') \<and> lands al T it' (behind C t)"
proof (cases "subs t = []")
  case True
  have n: "node_ok (info t) (length (subs t))" using walkable_parts(2) [OF assms(1,2)] node_ok_info by blast
  then have e: "edges (info t) = []" using True length_edges by fastforce
  have b: "behind C t = ctx_post C" using True by (simp add: behind_def below_def)
  obtain r it1 where "next_up al rx it False it = Some (r, rx, it1)" "r = Some True \<and> lands al T it1 (ctx_post C) \<or> r = None \<and> arrives al T False it1 (ctx_post C)"
    using next_up_ok [OF assms at_node_items [OF assms(3)]] by blast
  from loop_after_up [OF assms(1) _ walkable_node [OF assms(1,2)] _ this] e assms(3) b show ?thesis by (auto simp: raxIteratorNextStep_def at_node_def)
next
  case False
  then show ?thesis using next_down [OF assms False, of it] assms(3) by (auto simp: raxIteratorNextStep_def at_node_def)
qed

lemma next_step_noup:
  assumes "walkable al rx T" "plug C t = T" "at_node al it C t (path C @ e)" "length e = (if iscompr (info t) then rsize (info t) else 1)" "e \<noteq> []"
  shows "\<exists>it'. raxIteratorNextStep al rx it True = Some (True, rx, it') \<and>
     lands al T it' (map (pfx (path C)) (hung (drop (edges_upto (info t) (last e)) (edges (info t))) (map entries (drop (edges_upto (info t) (last e)) (subs t)))) @ ctx_post C)"
  using next_up_noup [OF assms at_node_items [OF assms(3)]] loop_after_up [OF assms(1) _ walkable_node [OF assms(1,2)], of it True it] assms(3)
  by (auto simp: raxIteratorNextStep_def at_node_def Let_def)


subsection \<open>The previous entry\<close>

lemma last_edge: "node_ok n k \<Longrightarrow> 0 < k \<Longrightarrow> edges n ! (k - 1) = (if iscompr n then chars n else [last (chars n)])"
  by (cases "chars n = []") (auto simp: node_ok_def edges_def last_conv_nth)

lemma hung_snoc:
  assumes "length es = length ts" "ts \<noteq> []"
  shows "hung es (map entries ts) = hung (take (length ts - 1) es) (map entries (butlast ts)) @ map (pfx (es ! (length ts - 1))) (entries (last ts))"
proof -
  have "ts = butlast ts @ [last ts]" "length es = length (map entries (butlast ts)) + Suc (length [])" using assms by simp_all
  then show ?thesis using hung_split [of es "map entries (butlast ts)" "[]" "entries (last ts)"] by (metis (no_types, lifting) append_Nil2 hung_simps(2) length_butlast length_map list.simps(8,9) map_append)
qed

lemma seek_greatest_any:
  assumes "walkable al rx T" "plug C t = T" "at_node al (it\<lparr>just_seeked := False\<rparr>) C t (path C)" "live t"
  shows "\<exists>it' D u. raxSeekGreatest al (rheap rx) it = Some (True, it') \<and> plug D u = T \<and> at_node al (it'\<lparr>just_seeked := False\<rparr>) D u (path D) \<and> iskey (info u) \<and>
     just_seeked it' = just_seeked it \<and> so_far D u = ctx_pre C @ map (pfx (path C)) (entries t)"
  using assms(2-4)
proof (induction t arbitrary: C it rule: measure_induct_rule [where f = size])
  case (less t)
  obtain a n ts where t: "t = RT a n ts" by (cases t)
  have p: "plug C (RT a n ts) = T" using less.prems(1) t by simp
  have n: "node_ok n (length ts)" using walkable_parts(2) [OF assms(1) p] by simp
  have m: "rheap rx a = Some (linked n (map root ts))" using walkable_node [OF assms(1) p] by simp
  have at: "it_ok al it" "sitems (it_stack it) = map frame_addr C" "key_is it (path C)" "\<not> it_eof it" "it_node it = Some a"
    using less.prems(2) t by (auto simp: at_node_def)
  show ?case
  proof (cases "ts = []")
    case True
    then have "rsize n = 0" "edges n = []" using n by (auto simp: node_ok_def edges_def split: if_splits)
    then have "raxSeekGreatest al (rheap rx) it = Some (True, it)" using at(5) m by (subst raxSeekGreatest.simps) simp
    then show ?thesis using less.prems t True by (auto simp: so_far_def intro!: exI [of _ C] exI [of _ t])
  next
    case False
    let ?j = "length ts - 1" let ?u = "last ts" let ?D = "Frame a n (butlast ts) [] # C"
    have j: "0 < length ts" "?j < length ts" using False by (cases ts; simp)+
    have pD: "plug ?D ?u = T" using p False by simp
    have e: "path ?D = path C @ edges n ! ?j" by simp
    obtain it1 where i1: "raxIteratorAddChars al it (edges n ! ?j) = Some (True, it1)" "it_ok al it1" "sitems (it_stack it1) = map frame_addr C"
      "key_is it1 (path C @ edges n ! ?j)" "\<not> it_eof it1" "just_seeked it1 = just_seeked it"
      using add_chars_ok [OF at(1,3), of "edges n ! ?j"] at assms(1) by (auto simp: walkable_def)
    obtain it2 where i2: "it_push al it1 a = Some (True, it2)" "it_ok al it2" "sitems (it_stack it2) = a # map frame_addr C" "key_is it2 (path C @ edges n ! ?j)" "\<not> it_eof it2" "just_seeked it2 = just_seeked it"
      using push_ok [OF i1(2), of a] i1 by (auto simp: key_is_def)
    let ?it = "it2\<lparr>it_node := Some (root ?u)\<rparr>"
    have atD: "at_node al (?it\<lparr>just_seeked := False\<rparr>) ?D ?u (path ?D)" using i2 by (auto simp: at_node_def it_ok_def key_is_def it_key_def)
    have ne: "rsize n \<noteq> 0" using n False by (cases "iscompr n") (auto simp: node_ok_def edges_def)
    have lc: "last_child (linked n (map root ts)) = Some (root ?u)" using False by (simp add: last_child_def last_map)
    have step: "raxSeekGreatest al (rheap rx) it = raxSeekGreatest al (rheap rx) ?it"
      using at(5) m i1(1) i2(1) ne lc last_edge [OF n j(1)] by (subst raxSeekGreatest.simps) (simp split del: if_split cong: if_cong)
    have u: "live ?u" "size ?u < size t" using less.prems(3) False t size_sub [of ?u ts a n] by simp_all
    have x: "ctx_pre ?D @ map (pfx (path ?D)) (entries ?u) = ctx_pre C @ map (pfx (path C)) (entries t)"
      using hung_snoc [of "edges n" ts] False n t by (simp add: length_edges comp_def)
    show ?thesis using less.IH [OF u(2) pD atD u(1)] i2(6) unfolding step x by simp
  qed
qed

lemma seek_greatest_ok:
  assumes "walkable al rx T" "plug C t = T" "at_node al it C t (path C)" "live t"
  shows "\<exists>it' D u. raxSeekGreatest al (rheap rx) it = Some (True, it') \<and> plug D u = T \<and> at_node al it' D u (path D) \<and> iskey (info u) \<and>
     so_far D u = ctx_pre C @ map (pfx (path C)) (entries t)"
proof -
  have f: "it\<lparr>just_seeked := False\<rparr> = it" if "\<not> just_seeked it" for it :: "'a raxIterator" using that by (cases it) simp
  have n: "\<not> just_seeked it" using assms(3) by (simp add: at_node_def)
  then show ?thesis using seek_greatest_any [OF assms(1,2), of it] assms(3,4) f by metis
qed

lemma edge_before_is:
  assumes "m \<le> length cs" "i \<le> m" "\<And>j. j < i \<Longrightarrow> cs ! j < c" "\<And>j. i \<le> j \<Longrightarrow> j < m \<Longrightarrow> \<not> cs ! j < c"
  shows "edge_before cs c m = (if i = 0 then None else Some (i - 1))"
  using assms
proof (induction m)
  case (Suc m)
  show ?case
  proof (cases "i = Suc m")
    case False
    then show ?thesis using Suc.IH Suc.prems Suc.prems(4) [of m] by simp
  qed (use Suc.prems in simp)
qed simp

lemma enter_greatest_ok:
  assumes w: "walkable al rx T" "plug C (RT a n ts) = T" and at: "at_node al it C (RT a n ts) (path C)" and i: "i < length ts" "\<not> iscompr n"
  shows "\<exists>it' D u. enter_greatest al (rheap rx) it a (linked n (map root ts)) i = Some (True, it') \<and> plug D u = T \<and> at_node al it' D u (path D) \<and> iskey (info u) \<and>
     so_far D u = ctx_pre C @ map (pfx (path C)) (own n @ hung (take (Suc i) (edges n)) (map entries (take (Suc i) ts)))"
proof -
  let ?D = "Frame a n (take i ts) (drop (Suc i) ts) # C" let ?u = "ts ! i"
  have pD: "plug ?D ?u = T" using plug_descend [OF i(1), of a n C] w(2) by simp
  have n: "node_ok n (length ts)" using walkable_parts(2) [OF w] by simp
  have e: "edges n ! i = [chars n ! i]" using i n by (auto simp: node_ok_def edges_def)
  have a: "it_ok al it" "sitems (it_stack it) = map frame_addr C" "key_is it (path C)" "\<not> it_eof it" "\<not> just_seeked it" using at by (auto simp: at_node_def)
  obtain it1 where i1: "raxIteratorAddChars al it (edges n ! i) = Some (True, it1)" "it_ok al it1" "sitems (it_stack it1) = map frame_addr C"
    "key_is it1 (path C @ edges n ! i)" "\<not> it_eof it1" "\<not> just_seeked it1"
    using add_chars_ok [OF a(1,3), of "edges n ! i"] a w(1) by (auto simp: walkable_def)
  obtain it2 where i2: "it_push al it1 a = Some (True, it2)" "it_ok al it2" "sitems (it_stack it2) = a # map frame_addr C" "key_is it2 (path C @ edges n ! i)" "\<not> it_eof it2" "\<not> just_seeked it2"
    using push_ok [OF i1(2), of a] i1 by (auto simp: key_is_def)
  let ?it = "it2\<lparr>it_node := Some (root ?u)\<rparr>"
  have atD: "at_node al ?it ?D ?u (path ?D)" using i2 i(1) by (auto simp: at_node_def it_ok_def key_is_def it_key_def)
  have g: "enter_greatest al (rheap rx) it a (linked n (map root ts)) i = raxSeekGreatest al (rheap rx) ?it"
    using i1(1) i2(1) i(1) e by (simp add: enter_greatest_def child_at_def)
  have "live ?u" using walkable_parts(5) [OF w(1) pD] by simp
  moreover have "hung (take (Suc i) (edges n)) (map entries (take (Suc i) ts)) = hung (take i (edges n)) (map entries (take i ts)) @ map (pfx (edges n ! i)) (entries ?u)"
    using hung_append [of "take i (edges n)" "map entries (take i ts)" "[edges n ! i]" "[entries ?u]"] i n by (simp add: take_Suc_conv_app_nth length_edges)
  then have "ctx_pre ?D @ map (pfx (path ?D)) (entries ?u) = ctx_pre C @ map (pfx (path C)) (own n @ hung (take (Suc i) (edges n)) (map entries (take (Suc i) ts)))"
    using i(1) by (simp add: comp_def min_def)
  ultimately show ?thesis using seek_greatest_ok [OF w(1) pD atD] g by metis
qed


text \<open>At a node that was reached from below: the greatest entry under the edges before \<open>i\<close>, else the node itself, else further up.\<close>

lemma prev_arrive:
  assumes w: "walkable al rx T" "plug C (RT a n ts) = T" and at: "at_node al it1 C (RT a n ts) (path C)" and i: "i \<le> length ts" "0 < i \<Longrightarrow> \<not> iscompr n"
    and up: "\<not> (\<not> noup \<and> it_node it = Some (rhead rx))" "last_char it = Some c" "to_parent (rheap rx) it noup = Some (a, linked n (map root ts), it1)"
    and e: "edge_before (chars n) c (if \<not> iscompr n \<and> (if noup then 0 else 1) < rsize n then rsize n else 0) = (if i = 0 then None else Some (i - 1))"
  shows "(\<exists>it'. prev_loop al rx it noup orig = Some (True, it') \<and>
       lands_back al T it' (ctx_pre C @ map (pfx (path C)) (own n @ hung (take i (edges n)) (map entries (take i ts))))) \<or>
     i = 0 \<and> own n = [] \<and> prev_loop al rx it noup orig = prev_loop al rx it1 False orig"
proof -
  have n: "node_ok n (length ts)" using walkable_parts(2) [OF w] by simp
  have m: "rheap rx a = Some (linked n (map root ts))" using walkable_node [OF w] by simp
  have found: "lands_back al T (it'\<lparr>it_data := the (raxGetData (info u))\<rparr>) (so_far D u)"
    if "plug D u = T" "at_node al it' D u (path D)" "iskey (info u)" for it' D u
  proof -
    have k: "node_ok (info u) (length (subs u))" using walkable_parts(2) [OF w(1) that(1)] node_ok_info by blast
    have o: "own (info u) = [([], the (raxGetData (info u)))]" using own_key [OF k] that(3) by simp
    let ?it = "it'\<lparr>it_data := the (raxGetData (info u))\<rparr>"
    have "at_entry al ?it D u" using that(2) o by (auto simp: at_entry_def at_node_def it_ok_def key_is_def it_key_def)
    then show ?thesis using that(1) o unfolding lands_back_def by (auto simp: so_far_def intro!: exI [of _ D] exI [of _ u])
  qed
  show ?thesis
  proof (cases "i = 0")
    case True
    have u: "it_node it1 = Some a" using at by (simp add: at_node_def)
    show ?thesis
    proof (cases "iskey n")
      case key: True
      then have "prev_loop al rx it noup orig = Some (True, it1\<lparr>it_data := the (raxGetData n)\<rparr>)"
        using up e True u m raxGetData_ok [OF n] by (subst prev_loop.simps, subst if_not_P [OF up(1)]) (simp split del: if_split cong: if_cong)
      then show ?thesis using found [OF w(2) at] key True by (simp add: so_far_def)
    next
      case False
      then have "prev_loop al rx it noup orig = prev_loop al rx it1 False orig"
        using up e True u m by (subst prev_loop.simps, subst if_not_P [OF up(1)]) (simp split del: if_split cong: if_cong)
      then show ?thesis using True False by (simp add: own_def)
    qed
  next
    case False
    have j: "i - 1 < length ts" "Suc (i - 1) = i" "\<not> iscompr n" using i False by auto
    obtain it2 D u where g: "enter_greatest al (rheap rx) it1 a (linked n (map root ts)) (i - 1) = Some (True, it2)" "plug D u = T" "at_node al it2 D u (path D)" "iskey (info u)"
      "so_far D u = ctx_pre C @ map (pfx (path C)) (own n @ hung (take i (edges n)) (map entries (take i ts)))"
      using enter_greatest_ok [OF w at j(1,3)] unfolding j(2) by blast
    have "raxGetData (info u) \<noteq> None" using raxGetData_ok [OF node_ok_info [OF walkable_parts(2) [OF w(1) g(2)]] g(4)] by simp
    then have "prev_loop al rx it noup orig = Some (True, it2\<lparr>it_data := the (raxGetData (info u))\<rparr>)"
      using up e False g(1,3,4) walkable_node [OF w(1) g(2)] by (subst prev_loop.simps, subst if_not_P [OF up(1)]) (auto simp: at_node_def split del: if_split cong: if_cong)
    then show ?thesis using found [OF g(2-4)] g(5) by auto
  qed
qed

lemma edge_before_left:
  assumes "node_ok n (length ls + Suc (length rs))"
  shows "edge_before (chars n) (last (edges n ! length ls)) (if \<not> iscompr n \<and> 1 < rsize n then rsize n else 0) = (if length ls = 0 then None else Some (length ls - 1))"
proof (cases "\<not> iscompr n \<and> 1 < rsize n")
  case True
  then have l: "rsize n = length ls + Suc (length rs)" "sorted_wrt (<) (chars n)" "edges n ! length ls = [chars n ! length ls]"
    using assms by (auto simp: node_ok_def edges_def)
  have lt: "chars n ! i < chars n ! j" if "i < j" "j < rsize n" for i j using sorted_wrt_nth_less [OF l(2) that] .
  have le: "\<not> chars n ! j < chars n ! length ls" if "length ls \<le> j" "j < rsize n" for j using lt [of "length ls" j] that by (cases "j = length ls") auto
  have "edge_before (chars n) (chars n ! length ls) (rsize n) = (if length ls = 0 then None else Some (length ls - 1))"
    by (rule edge_before_is) (use lt le l(1) in simp_all)
  then show ?thesis using True l(3) by simp
next
  case False
  then have "ls = []" using assms by (auto simp: node_ok_def edges_def split: if_splits)
  then show ?thesis using False by auto
qed

lemma prev_loop_ok:
  assumes "walkable al rx T" "plug C t = T" "at_node al it C t (path C)" "length (sitems (it_stack orig)) \<le> maxitems (it_stack it)"
  shows "\<exists>it'. prev_loop al rx it False orig = Some (True, it') \<and> lands_back al T it' (ctx_pre C)"
  using assms(2-4)
proof (induction C arbitrary: t it)
  case Nil
  have "it_node it = Some (rhead rx)" using Nil on_head [OF assms(1), of "[]" t] by (simp add: at_node_def)
  moreover have "lands_back al T (iter_end it orig) []" using iter_end_ok [OF Nil(2,3)] by (simp add: lands_back_def)
  ultimately show ?case by (subst prev_loop.simps) simp
next
  case (Cons F C)
  obtain a n ls rs where F: "F = Frame a n ls rs" by (cases F)
  let ?ts = "ls @ t # rs" let ?c = "last (edges n ! length ls)"
  have p: "plug C (RT a n ?ts) = T" "plug (Frame a n ls rs # C) t = T" using Cons.prems(1) F by simp_all
  have n: "node_ok n (length ls + Suc (length rs))" using walkable_parts(1) [OF assms(1) p(2)] by simp
  have head: "\<not> (\<not> False \<and> it_node it = Some (rhead rx))" using Cons.prems(2) on_head [OF assms(1) Cons.prems(1)] by (simp add: at_node_def)
  obtain it1 where i1: "last_char it = Some ?c" "to_parent (rheap rx) it False = Some (a, linked n (map root ?ts), it1)"
    "at_node al it1 C (RT a n ?ts) (path C)" "maxitems (it_stack it1) = maxitems (it_stack it)"
    using to_parent_up [OF assms(1) p(2)] Cons.prems(2) F by blast
  have l: "length ls \<le> length ?ts" "0 < length ls \<Longrightarrow> \<not> iscompr n" using n by (auto simp: node_ok_def edges_def)
  have pre: "ctx_pre (F # C) = ctx_pre C @ map (pfx (path C)) (own n @ hung (take (length ls) (edges n)) (map entries (take (length ls) ?ts)))" using F by simp
  consider (found) it' where "prev_loop al rx it False orig = Some (True, it')" "lands_back al T it' (ctx_pre (F # C))"
    | (up) "length ls = 0" "own n = []" "prev_loop al rx it False orig = prev_loop al rx it1 False orig"
    using prev_arrive [OF assms(1) p(1) i1(3) l head i1(1,2), of orig] edge_before_left [OF n] pre by auto
  then show ?case
  proof cases
    case up
    then show ?thesis using Cons.IH [OF p(1) i1(3)] Cons.prems(3) i1(4) pre by simp
  qed blast
qed

text \<open>The search that starts at a node.\<close>

definition edges_under :: "'d raxNode \<Rightarrow> byte \<Rightarrow> nat" where
  "edges_under n c = (if iscompr n then 0 else length (takeWhile (\<lambda>x. x < c) (chars n)))"

lemma prev_step_noup:
  assumes "walkable al rx T" "plug C t = T" "at_node al it C t (path C @ e)" "length e = (if iscompr (info t) then rsize (info t) else 1)" "e \<noteq> []"
  shows "\<exists>it'. raxIteratorPrevStep al rx it True = Some (True, it') \<and>
     lands_back al T it' (ctx_pre C @ map (pfx (path C)) (own (info t) @ hung (take (edges_under (info t) (last e)) (edges (info t))) (map entries (take (edges_under (info t) (last e)) (subs t)))))"
proof -
  obtain a n ts where t: "t = RT a n ts" by (cases t)
  have p: "plug C (RT a n ts) = T" using assms(2) t by simp
  have n: "node_ok n (length ts)" using walkable_parts(2) [OF assms(1) p] by simp
  obtain it1 where i1: "last_char it = Some (last e)" "to_parent (rheap rx) it True = Some (a, linked n (map root ts), it1)"
    "at_node al it1 C (RT a n ts) (path C)" "maxitems (it_stack it1) = maxitems (it_stack it)"
    using to_parent_noup [OF assms] t by auto
  let ?i = "edges_under n (last e)"
  have l: "?i \<le> length ts" "0 < ?i \<Longrightarrow> \<not> iscompr n" using n length_takeWhile_le [of "\<lambda>x. x < last e" "chars n"] by (auto simp: node_ok_def edges_def edges_under_def split: if_splits)
  have lt: "chars n ! i < chars n ! j" if "i < j" "j < rsize n" "\<not> iscompr n" for i j using sorted_wrt_nth_less [of "(<)" "chars n" i j] that n by (simp add: node_ok_def)
  have b: "edge_before (chars n) (last e) (rsize n) = (if ?i = 0 then None else Some (?i - 1))" if nc: "\<not> iscompr n"
  proof (rule edge_before_is)
    show "chars n ! j < last e" if "j < ?i" for j using that nc nth_length_takeWhile set_takeWhileD [of "chars n ! j" "\<lambda>x. x < last e" "chars n"]
        takeWhile_nth [of j "\<lambda>x. x < last e" "chars n"] nth_mem [of j "takeWhile (\<lambda>x. x < last e) (chars n)"] by (auto simp: edges_under_def)
    show "\<not> chars n ! j < last e" if "?i \<le> j" "j < rsize n" for j
    proof -
      have "\<not> chars n ! ?i < last e" using nth_length_takeWhile [of "\<lambda>x. x < last e" "chars n"] that nc by (simp add: edges_under_def)
      then show ?thesis using lt [of ?i j] that nc by (cases "?i = j") auto
    qed
  qed (use length_takeWhile_le [of "\<lambda>x. x < last e" "chars n"] nc in \<open>simp_all add: edges_under_def\<close>)
  have e: "edge_before (chars n) (last e) (if \<not> iscompr n \<and> (if True then 0 else 1) < rsize n then rsize n else 0) = (if ?i = 0 then None else Some (?i - 1))"
    using b by (auto simp: edges_under_def)
  have o: "raxIteratorPrevStep al rx it True = prev_loop al rx it True it" using assms(3) by (simp add: raxIteratorPrevStep_def at_node_def)
  consider (found) "\<exists>it'. prev_loop al rx it True it = Some (True, it') \<and> lands_back al T it' (ctx_pre C @ map (pfx (path C)) (own n @ hung (take ?i (edges n)) (map entries (take ?i ts))))"
    | (up) "?i = 0" "own n = []" "prev_loop al rx it True it = prev_loop al rx it1 False it"
    using prev_arrive [OF assms(1) p i1(3) l _ i1(1,2) e, of it] by auto
  then show ?thesis
  proof cases
    case up
    then show ?thesis using prev_loop_ok [OF assms(1) p i1(3), of it] at_node_items [OF assms(3)] i1(4) o t by simp
  qed (use o t in simp)
qed

lemma prev_step_ok:
  assumes "walkable al rx T" "plug C t = T" "at_node al it C t (path C)"
  shows "\<exists>it'. raxIteratorPrevStep al rx it False = Some (True, it') \<and> lands_back al T it' (ctx_pre C)"
  using prev_loop_ok [OF assms at_node_items [OF assms(3)]] assms(3) by (simp add: raxIteratorPrevStep_def at_node_def)


subsection \<open>Seeking\<close>

definition after :: "bool \<Rightarrow> byte list \<Rightarrow> byte list \<times> 'a \<Rightarrow> bool" where
  "after eq k e \<longleftrightarrow> k < fst e \<or> eq \<and> fst e = k"

definition before :: "bool \<Rightarrow> byte list \<Rightarrow> byte list \<times> 'a \<Rightarrow> bool" where
  "before eq k e \<longleftrightarrow> fst e < k \<or> eq \<and> fst e = k"

lemma ctx_order:
  assumes "wf_ctx C"
  shows "e \<in> set (ctx_pre C) \<Longrightarrow> fst e < path C @ r" "e \<in> set (ctx_post C) \<Longrightarrow> path C @ r < fst e"
proof -
  obtain t :: "'a rt" where t: "wf_rt t" "entries t = [(r, None)]" using single_entry by blast
  have "sorted_wrt (<) (map fst (entries (plug C t)))" using t(1) assms by (intro entries_sorted) (simp add: wf_plug)
  then have s: "\<forall>k \<in> fst ` set (ctx_pre C). k < path C @ r" "\<forall>k \<in> fst ` set (ctx_post C). path C @ r < k"
    using entries_plug [OF assms, of t] t(2) by (auto simp: sorted_wrt_append)
  show "e \<in> set (ctx_pre C) \<Longrightarrow> fst e < path C @ r" "e \<in> set (ctx_post C) \<Longrightarrow> path C @ r < fst e" using s by auto
qed

lemma filter_at:
  assumes "wf_ctx C"
  shows "filter (after eq (path C @ r)) (entries (plug C t)) = map (pfx (path C)) (filter (after eq r) (entries t)) @ ctx_post C"
    "filter (before eq (path C @ r)) (entries (plug C t)) = ctx_pre C @ map (pfx (path C)) (filter (before eq r) (entries t))"
proof -
  have lt: "fst e < path C @ r" "fst e \<noteq> path C @ r" "\<not> path C @ r < fst e" if "e \<in> set (ctx_pre C)" for e
    using ctx_order(1) [OF assms that, of r] by auto
  have gt: "path C @ r < fst e" "fst e \<noteq> path C @ r" "\<not> fst e < path C @ r" if "e \<in> set (ctx_post C)" for e
    using ctx_order(2) [OF assms that, of r] by auto
  have pre: "filter (after eq (path C @ r)) (ctx_pre C) = []" "filter (before eq (path C @ r)) (ctx_pre C) = ctx_pre C"
    using lt by (simp_all add: filter_empty_conv filter_id_conv after_def before_def)
  have post: "filter (after eq (path C @ r)) (ctx_post C) = ctx_post C" "filter (before eq (path C @ r)) (ctx_post C) = []"
    using gt by (simp_all add: filter_empty_conv filter_id_conv after_def before_def)
  have f: "after eq (path C @ r) \<circ> pfx (path C) = after eq r" "before eq (path C @ r) \<circ> pfx (path C) = before eq r"
    by (auto simp: fun_eq_iff after_def before_def append_less_append)
  show "filter (after eq (path C @ r)) (entries (plug C t)) = map (pfx (path C)) (filter (after eq r) (entries t)) @ ctx_post C"
    "filter (before eq (path C @ r)) (entries (plug C t)) = ctx_pre C @ map (pfx (path C)) (filter (before eq r) (entries t))"
    by (simp_all add: entries_plug [OF assms] pre post filter_map f)
qed

text \<open>A key that ends at a node.\<close>

lemma filter_here:
  assumes "wf_rt t"
  shows "filter (after eq []) (entries t) = (if eq then own (info t) else []) @ hung (edges (info t)) (map entries (subs t))"
    "filter (before eq []) (entries t) = (if eq then own (info t) else [])"
proof -
  obtain a n ts where t: "t = RT a n ts" by (cases t)
  have "fst e \<noteq> []" if "e \<in> set (hung (edges n) (map entries ts))" for e
    using that edges_ok(1) [of n "length ts"] assms t by (auto simp: in_hung)
  moreover have "[] < k" if "k \<noteq> []" for k :: "byte list" using that by (cases k) auto
  ultimately have h: "filter (after eq []) (hung (edges n) (map entries ts)) = hung (edges n) (map entries ts)" "filter (before eq []) (hung (edges n) (map entries ts)) = []"
    by (auto simp: filter_id_conv filter_empty_conv after_def before_def)
  show "filter (after eq []) (entries t) = (if eq then own (info t) else []) @ hung (edges (info t)) (map entries (subs t))"
    "filter (before eq []) (entries t) = (if eq then own (info t) else [])"
    using t h by (simp_all add: own_def after_def before_def)
qed

text \<open>A key that leaves a node before the edge \<open>i\<close>.\<close>

lemma filter_split:
  assumes "wf_rt t" "i \<le> length (subs t)" "r \<noteq> []" and lo: "\<And>e x. e \<in> set (take i (edges (info t))) \<Longrightarrow> e @ x < r"
    and hi: "\<And>e x. e \<in> set (drop i (edges (info t))) \<Longrightarrow> r < e @ x"
  shows "filter (after eq r) (entries t) = hung (drop i (edges (info t))) (map entries (drop i (subs t)))"
    "filter (before eq r) (entries t) = own (info t) @ hung (take i (edges (info t))) (map entries (take i (subs t)))"
proof -
  obtain a n ts where t: "t = RT a n ts" by (cases t)
  have l: "length (edges n) = length ts" using assms(1) t by (simp add: length_edges)
  have h: "hung (edges n) (map entries ts) = hung (take i (edges n)) (map entries (take i ts)) @ hung (drop i (edges n)) (map entries (drop i ts))"
    using hung_append [of "take i (edges n)" "map entries (take i ts)" "drop i (edges n)" "map entries (drop i ts)"] l assms(2) t
    by (simp add: map_append [symmetric] del: map_append)
  have lt: "fst e < r" if "e \<in> set (hung (take i (edges n)) (map entries (take i ts)))" for e
  proof -
    from that obtain k y where "k < length (take i (edges n))" "e = pfx (take i (edges n) ! k) y" by (auto simp only: in_hung min_less_iff_conj)
    then show ?thesis using lo [of "take i (edges n) ! k" "fst y"] t by (simp del: nth_take)
  qed
  have gt: "r < fst e" if "e \<in> set (hung (drop i (edges n)) (map entries (drop i ts)))" for e
  proof -
    from that obtain k y where "k < length (drop i (edges n))" "e = pfx (drop i (edges n) ! k) y" by (auto simp only: in_hung min_less_iff_conj)
    then show ?thesis using hi [of "drop i (edges n) ! k" "fst y"] nth_mem [of k "drop i (edges n)"] t by (simp del: nth_drop)
  qed
  have o: "[] < r" using assms(3) by (cases r) auto
  have f: "filter (after eq r) (hung (take i (edges n)) (map entries (take i ts))) = []" "filter (before eq r) (hung (drop i (edges n)) (map entries (drop i ts))) = []"
    using lt gt by (fastforce simp: filter_empty_conv after_def before_def dest: order.asym)+
  have g: "filter (after eq r) (hung (drop i (edges n)) (map entries (drop i ts))) = hung (drop i (edges n)) (map entries (drop i ts))"
    "filter (before eq r) (hung (take i (edges n)) (map entries (take i ts))) = hung (take i (edges n)) (map entries (take i ts))"
    using lt gt by (simp_all add: filter_id_conv after_def before_def)
  show "filter (after eq r) (entries t) = hung (drop i (edges (info t))) (map entries (drop i (subs t)))"
    "filter (before eq r) (entries t) = own (info t) @ hung (take i (edges (info t))) (map entries (take i (subs t)))"
    using t h f g o assms(3) by (auto simp: own_def after_def before_def)
qed


text \<open>The result of a seek, for a scan in either direction: the iterator is on the first entry of the scan, which the next step returns.\<close>

definition seeks :: "'d ralloc \<Rightarrow> 'd rt \<Rightarrow> 'd raxIterator \<Rightarrow> (byte list \<times> 'd option) list \<Rightarrow> bool" where
  "seeks al T it xs \<longleftrightarrow> (if xs = [] then it_ok al it \<and> it_eof it else just_seeked it \<and> lands al T (it\<lparr>just_seeked := False\<rparr>) xs)"

definition seeks_back :: "'d ralloc \<Rightarrow> 'd rt \<Rightarrow> 'd raxIterator \<Rightarrow> (byte list \<times> 'd option) list \<Rightarrow> bool" where
  "seeks_back al T it xs \<longleftrightarrow> (if xs = [] then it_ok al it \<and> it_eof it else just_seeked it \<and> lands_back al T (it\<lparr>just_seeked := False\<rparr>) xs)"

lemma at_entry_flag: "at_entry al it C t \<Longrightarrow> at_entry al (it\<lparr>just_seeked := False\<rparr>) C t"
  by (auto simp: at_entry_def at_node_def)

lemma lands_flag: "lands al T it xs \<Longrightarrow> seeks al T (it\<lparr>just_seeked := True\<rparr>) xs" "lands_back al T it xs \<Longrightarrow> seeks_back al T (it\<lparr>just_seeked := True\<rparr>) xs"
  by (auto simp: lands_def seeks_def lands_back_def seeks_back_def dest: at_entry_flag split: if_splits)

text \<open>The iterator on the node of a key.\<close>

lemma lands_here:
  assumes "walkable al rx T" "plug C t = T" "at_node al it C t (path C)" "raxGetData (info t) = Some d" "iskey (info t)"
  shows "lands al T (it\<lparr>it_data := d\<rparr>) (map (pfx (path C)) (own (info t)) @ behind C t)" "lands_back al T (it\<lparr>it_data := d\<rparr>) (so_far C t)"
proof -
  have o: "own (info t) = [([], d)]" using own_key [OF node_ok_info [OF walkable_parts(2) [OF assms(1,2)]]] assms(4,5) by simp
  have "at_entry al (it\<lparr>it_data := d\<rparr>) C t" using assms(3) o by (simp add: at_entry_def at_node_def)
  then show "lands al T (it\<lparr>it_data := d\<rparr>) (map (pfx (path C)) (own (info t)) @ behind C t)" "lands_back al T (it\<lparr>it_data := d\<rparr>) (so_far C t)"
    using assms(2) o by (auto simp: lands_def lands_back_def so_far_def intro!: exI [of _ C] exI [of _ t])
qed

lemma edge_pos_splits:
  "sorted_wrt (<) cs \<Longrightarrow> c \<notin> set cs \<Longrightarrow> (\<forall>x \<in> set (take (edge_pos cs c) cs). x < c) \<and> (\<forall>x \<in> set (drop (edge_pos cs c) cs). c < x)"
  by (induction cs) (auto simp: not_less_iff_gr_or_eq dest: order.strict_trans)

lemma edge_pos_takeWhile: "c \<notin> set cs \<Longrightarrow> length (takeWhile (\<lambda>x. x < c) cs) = edge_pos cs c"
  by (induction cs) (auto simp: not_less_iff_gr_or_eq)

text \<open>The three cases of a seek, by how the rest \<open>r\<close> of the key leaves the node.\<close>

lemma seek_mismatch_ok:
  assumes w: "walkable al rx T" "plug C t = T" and at: "at_node al (it\<lparr>just_seeked := False\<rparr>) C t (path C)"
    and r: "\<not> iscompr (info t)" "c \<notin> set (chars (info t))"
  shows "\<exists>it'. seek_mismatch al rx it False True c = Some (True, rx, it') \<and> seeks al T it' (filter (after eq (path C @ c # r)) (entries T))"
    "\<exists>it'. seek_mismatch al rx it True False c = Some (True, rx, it') \<and> seeks_back al T it' (filter (before eq (path C @ c # r)) (entries T))"
proof -
  let ?n = "info t" let ?i = "edge_pos (chars ?n) c"
  have n: "node_ok ?n (length (subs t))" and wt: "wf_rt t" using walkable_parts(2) [OF w] node_ok_info by blast+
  have cs: "edges ?n = map (\<lambda>c. [c]) (chars ?n)" "sorted_wrt (<) (chars ?n)" "rsize ?n = length (subs t)" using n r by (auto simp: node_ok_def edges_def)
  have i: "?i \<le> length (subs t)" using edge_pos_le [of "chars ?n" c] cs(3) by simp
  have lo: "e @ x < c # r" if "e \<in> set (take ?i (edges ?n))" for e x using that edge_pos_splits [OF cs(2) r(2)] cs(1) by (auto simp: take_map)
  have hi: "c # r < e @ x" if "e \<in> set (drop ?i (edges ?n))" for e x using that edge_pos_splits [OF cs(2) r(2)] cs(1) by (auto simp: drop_map)
  have u: "edges_upto ?n c = ?i" "edges_under ?n c = ?i" using r edge_pos_takeWhile [OF r(2)] by (simp_all add: edges_upto_def edges_under_def)
  have x: "filter (after eq (path C @ c # r)) (entries T) = map (pfx (path C)) (hung (drop ?i (edges ?n)) (map entries (drop ?i (subs t)))) @ ctx_post C"
    "filter (before eq (path C @ c # r)) (entries T) = ctx_pre C @ map (pfx (path C)) (own ?n @ hung (take ?i (edges ?n)) (map entries (take ?i (subs t))))"
    using filter_at [OF walkable_parts(1) [OF w], of eq "c # r" t] w(2) filter_split [where r = "c # r", OF wt i _ lo hi] by simp_all
  have k: "it_ok al it" "key_is it (path C)" "\<forall>n. rax_room al n" using at w(1) by (auto simp: at_node_def walkable_def)
  obtain it1 where i1: "raxIteratorAddChars al it [c] = Some (True, it1)" "at_node al (it1\<lparr>just_seeked := False\<rparr>) C t (path C @ [c])"
    using add_chars_ok [OF k, of "[c]"] at by (auto simp: at_node_def)
  show "\<exists>it'. seek_mismatch al rx it False True c = Some (True, rx, it') \<and> seeks al T it' (filter (after eq (path C @ c # r)) (entries T))"
    using next_step_noup [OF w i1(2)] i1(1) r(1) u x lands_flag(1) by (fastforce simp: seek_mismatch_def)
  show "\<exists>it'. seek_mismatch al rx it True False c = Some (True, rx, it') \<and> seeks_back al T it' (filter (before eq (path C @ c # r)) (entries T))"
    using prev_step_noup [OF w i1(2)] i1(1) r(1) u x lands_flag(2) by (fastforce simp: seek_mismatch_def)
qed


lemma compare_at:
  assumes "take j a = take j b" "j < length a" "j < length b" "a ! j < b ! j"
  shows "a @ x < b @ (y :: byte list)"
proof -
  have "a = take j a @ a ! j # drop (Suc j) a" "b = take j a @ b ! j # drop (Suc j) b" using assms(1-3) id_take_nth_drop by metis+
  then have "a @ x = take j a @ a ! j # drop (Suc j) a @ x" "b @ y = take j a @ b ! j # drop (Suc j) b @ y" by (metis append.assoc append_Cons)+
  moreover have "take j a @ a ! j # drop (Suc j) a @ x < take j a @ b ! j # drop (Suc j) b @ y" using assms(4) by (simp add: append_less_append)
  ultimately show ?thesis by (simp only:)
qed

lemma entries_root: "entries t = own (info t) @ hung (edges (info t)) (map entries (subs t))"
  by (cases t) simp

lemma seek_compressed_ok:
  assumes w: "walkable al rx T" "plug C t = T" and at: "at_node al (it\<lparr>just_seeked := False\<rparr>) C t (path C)"
    and r: "iscompr (info t)" "j = match_len (chars (info t)) r" "j < rsize (info t)" "j < length r"
  shows "\<exists>it'. seek_compressed al rx it False True (linked (info t) as) (chars (info t) ! j) (r ! j) = Some (True, rx, it') \<and> seeks al T it' (filter (after eq (path C @ r)) (entries T))"
    "\<exists>it'. seek_compressed al rx it True False (linked (info t) as) (chars (info t) ! j) (r ! j) = Some (True, rx, it') \<and> seeks_back al T it' (filter (before eq (path C @ r)) (entries T))"
proof -
  let ?n = "info t" let ?it = "it\<lparr>just_seeked := False\<rparr>"
  have n: "node_ok ?n (length (subs t))" and wt: "wf_rt t" using walkable_parts(2) [OF w] node_ok_info by blast+
  have es: "edges ?n = [chars ?n]" "length (subs t) = 1" "chars ?n \<noteq> []" using n r by (auto simp: node_ok_def edges_def)
  have ne: "r \<noteq> []" using r(4) by auto
  have d: "chars ?n ! j \<noteq> r ! j" "take j (chars ?n) = take j r" using match_len_differ [of "chars ?n" r] match_len_take(1) [of "chars ?n" r] r by auto
  have f: "filter (after eq (path C @ r)) (entries T) = map (pfx (path C)) (filter (after eq r) (entries t)) @ ctx_post C"
    "filter (before eq (path C @ r)) (entries T) = ctx_pre C @ map (pfx (path C)) (filter (before eq r) (entries t))"
    using filter_at [OF walkable_parts(1) [OF w], of eq r t] w(2) by simp_all
  have k: "it_ok al ?it" "key_is ?it (path C)" "\<forall>n. rax_room al n" using at w(1) by (auto simp: at_node_def walkable_def)
  obtain it1 where i1: "raxIteratorAddChars al ?it (chars ?n) = Some (True, it1)" "at_node al it1 C t (path C @ chars ?n)"
    using add_chars_ok [OF k, of "chars ?n"] at by (auto simp: at_node_def)
  have le: "length (chars ?n) = (if iscompr ?n then rsize ?n else 1)" using r(1) by simp
  have "(\<exists>it'. seek_compressed al rx it False True (linked ?n as) (chars ?n ! j) (r ! j) = Some (True, rx, it') \<and> seeks al T it' (filter (after eq (path C @ r)) (entries T))) \<and>
    (\<exists>it'. seek_compressed al rx it True False (linked ?n as) (chars ?n ! j) (r ! j) = Some (True, rx, it') \<and> seeks_back al T it' (filter (before eq (path C @ r)) (entries T)))"
  proof (cases "r ! j < chars ?n ! j")
    case True
    then have "r < chars ?n @ x" for x using compare_at [of j r "chars ?n" "[]" x] d r by simp
    then have x: "filter (after eq (path C @ r)) (entries T) = behind C t" "filter (before eq (path C @ r)) (entries T) = so_far C t"
      using f filter_split [OF wt, of 0 r eq] ne es by (simp_all add: behind_def below_def so_far_def)
    have p: "\<exists>it'. raxIteratorPrevStep al rx it1 True = Some (True, it') \<and> lands_back al T it' (so_far C t)"
      using prev_step_noup [OF w i1(2) le es(3)] r(1) by (simp add: edges_under_def so_far_def)
    obtain it2 where i2: "raxIteratorNextStep al rx ?it False = Some (True, rx, it2)" "lands al T it2 (behind C t)" using next_step_ok [OF w at] by blast
    obtain it3 where i3: "raxIteratorPrevStep al rx it1 True = Some (True, it3)" "lands_back al T it3 (so_far C t)" using p by blast
    have "seek_compressed al rx it False True (linked ?n as) (chars ?n ! j) (r ! j) = Some (True, rx, it2\<lparr>just_seeked := True\<rparr>)"
      "seek_compressed al rx it True False (linked ?n as) (chars ?n ! j) (r ! j) = Some (True, rx, it3\<lparr>just_seeked := True\<rparr>)"
      using i1(1) i2(1) i3(1) True less_not_sym [OF True] by (simp_all add: seek_compressed_def seek_compressed_gt_def seek_compressed_lt_def)
    then show ?thesis unfolding x using lands_flag(1) [OF i2(2)] lands_flag(2) [OF i3(2)] by blast
  next
    case False
    then have lt: "chars ?n ! j < r ! j" using d(1) by simp
    then have "chars ?n @ x < r" for x using compare_at [of j "chars ?n" r x "[]"] d r by simp
    then have x: "filter (after eq (path C @ r)) (entries T) = ctx_post C" "filter (before eq (path C @ r)) (entries T) = ctx_pre C @ map (pfx (path C)) (entries t)"
      using f filter_split [OF wt, of 1 r eq] ne es by (simp_all add: entries_root [of t, symmetric, unfolded es(1)])
    have "live t" using walkable_parts(4) [OF w] es(2) by (cases t) auto
    then obtain it2 D u where g: "raxSeekGreatest al (rheap rx) ?it = Some (True, it2)" "plug D u = T" "at_node al it2 D u (path D)" "iskey (info u)" "so_far D u = ctx_pre C @ map (pfx (path C)) (entries t)"
      using seek_greatest_ok [OF w at] by blast
    obtain v where v: "raxGetData (info u) = Some v" using raxGetData_ok [OF node_ok_info [OF walkable_parts(2) [OF w(1) g(2)]] g(4)] by simp
    have g2: "seek_compressed al rx it True False (linked ?n as) (chars ?n ! j) (r ! j) = Some (True, rx, it2\<lparr>it_data := v, just_seeked := True\<rparr>)"
      using g(1,3) v lt walkable_node [OF w(1) g(2)] by (simp add: seek_compressed_def seek_compressed_lt_def at_node_def)
    have "seeks_back al T (it2\<lparr>it_data := v, just_seeked := True\<rparr>) (ctx_pre C @ map (pfx (path C)) (entries t))"
      using lands_flag(2) [OF lands_here(2) [OF w(1) g(2,3) v g(4)]] g(5) by simp
    moreover obtain it3 where i3: "raxIteratorNextStep al rx it1 True = Some (True, rx, it3)" "lands al T it3 (ctx_post C)"
      using next_step_noup [OF w i1(2) le es(3)] r(1) es by (auto simp: edges_upto_def)
    moreover have "seek_compressed al rx it False True (linked ?n as) (chars ?n ! j) (r ! j) = Some (True, rx, it3\<lparr>just_seeked := True\<rparr>)"
      using i1(1) i3(1) False by (simp add: seek_compressed_def seek_compressed_gt_def)
    ultimately show ?thesis unfolding x using g2 lands_flag(1) [OF i3(2)] by blast
  qed
  then show "\<exists>it'. seek_compressed al rx it False True (linked ?n as) (chars ?n ! j) (r ! j) = Some (True, rx, it') \<and> seeks al T it' (filter (after eq (path C @ r)) (entries T))"
    "\<exists>it'. seek_compressed al rx it True False (linked ?n as) (chars ?n ! j) (r ! j) = Some (True, rx, it') \<and> seeks_back al T it' (filter (before eq (path C @ r)) (entries T))"
    by blast+
qed

lemma seek_match_ok:
  assumes w: "walkable al rx T" "plug C t = T" and at: "at_node al (it\<lparr>just_seeked := False\<rparr>) C t (path C)"
    and r: "r = [] \<and> j = 0 \<and> (eq \<longrightarrow> \<not> iskey (info t)) \<or> iscompr (info t) \<and> r \<noteq> [] \<and> j = length r \<and> (\<exists>v. v \<noteq> [] \<and> chars (info t) = r @ v)"
  shows "\<exists>it'. seek_match al rx it False True (linked (info t) as) j = Some (True, rx, it') \<and> seeks al T it' (filter (after eq (path C @ r)) (entries T))"
    "\<exists>it'. seek_match al rx it True False (linked (info t) as) j = Some (True, rx, it') \<and> seeks_back al T it' (filter (before eq (path C @ r)) (entries T))"
proof -
  let ?n = "info t" let ?it = "it\<lparr>just_seeked := False\<rparr>"
  have n: "node_ok ?n (length (subs t))" and wt: "wf_rt t" using walkable_parts(2) [OF w] node_ok_info by blast+
  have f: "filter (after eq (path C @ r)) (entries T) = map (pfx (path C)) (filter (after eq r) (entries t)) @ ctx_post C"
    "filter (before eq (path C @ r)) (entries T) = ctx_pre C @ map (pfx (path C)) (filter (before eq r) (entries t))"
    using filter_at [OF walkable_parts(1) [OF w], of eq r t] w(2) by simp_all
  have x: "filter (after eq (path C @ r)) (entries T) = behind C t \<and> filter (before eq (path C @ r)) (entries T) = (if iscompr ?n \<and> iskey ?n \<and> j \<noteq> 0 then so_far C t else ctx_pre C)"
  proof (cases "r = []")
    case True
    then show ?thesis using r f filter_here [OF wt, of eq] by (auto simp: behind_def below_def own_def)
  next
    case False
    then obtain v where m: "iscompr ?n" "j \<noteq> 0" "v \<noteq> []" "chars ?n = r @ v" using r by auto
    then have "[] < v @ x" for x by (cases v) auto
    then have hi: "r < chars ?n @ x" for x using append_less_append [of r "[]" "v @ x"] m(4) by simp
    have es: "edges ?n = [chars ?n]" using m(1) by (simp add: edges_def)
    show ?thesis using f filter_split [OF wt, of 0 r eq] hi False es m by (auto simp: behind_def below_def so_far_def own_def)
  qed
  show "\<exists>it'. seek_match al rx it False True (linked (info t) as) j = Some (True, rx, it') \<and> seeks al T it' (filter (after eq (path C @ r)) (entries T))"
  proof -
    obtain it2 where i2: "raxIteratorNextStep al rx ?it False = Some (True, rx, it2)" "lands al T it2 (behind C t)" using next_step_ok [OF w at] by blast
    then have "seek_match al rx it False True (linked ?n as) j = Some (True, rx, it2\<lparr>just_seeked := True\<rparr>)" by (simp add: seek_match_def)
    then show ?thesis using lands_flag(1) [OF i2(2)] x by simp
  qed
  show "\<exists>it'. seek_match al rx it True False (linked (info t) as) j = Some (True, rx, it') \<and> seeks_back al T it' (filter (before eq (path C @ r)) (entries T))"
  proof (cases "iscompr ?n \<and> iskey ?n \<and> j \<noteq> 0")
    case True
    obtain v where v: "raxGetData ?n = Some v" using raxGetData_ok [OF n] True by simp
    have "seek_match al rx it True False (linked ?n as) j = Some (True, rx, ?it\<lparr>it_data := v, just_seeked := True\<rparr>)" using True v by (simp add: seek_match_def)
    moreover have "seeks_back al T (?it\<lparr>it_data := v, just_seeked := True\<rparr>) (so_far C t)" using lands_flag(2) [OF lands_here(2) [OF w at v]] True by simp
    ultimately show ?thesis using x True by auto
  next
    case False
    obtain it2 where i2: "raxIteratorPrevStep al rx ?it False = Some (True, it2)" "lands_back al T it2 (ctx_pre C)" using prev_step_ok [OF w at] by blast
    then have "seek_match al rx it True False (linked ?n as) j = Some (True, rx, it2\<lparr>just_seeked := True\<rparr>)" using False by (auto simp: seek_match_def)
    then show ?thesis using lands_flag(2) [OF i2(2)] x False by auto
  qed
qed


text \<open>An iterator that was reset.\<close>

definition reset_ok :: "'d ralloc \<Rightarrow> 'd raxIterator \<Rightarrow> bool" where
  "reset_ok al it \<longleftrightarrow> it_ok al it \<and> sitems (it_stack it) = [] \<and> key_is it [] \<and> just_seeked it \<and> \<not> it_eof it"

lemma seek_reset_ok: "it_ok al it \<Longrightarrow> reset_ok al (seek_reset it)"
  by (simp add: reset_ok_def seek_reset_def it_ok_def stack_ok_def stack_items_def key_is_def it_key_def Let_def)

lemma seek_walk:
  assumes "walkable al rx T" "reset_ok al it"
  shows "\<exists>D t j r us. raxLowWalk al rx ele (Some (it_stack it)) = Some (length (path D) + j, root t, link_of D, j, Some us) \<and> plug D t = T \<and> ele = path D @ r \<and>
     stops_at (info t) r j \<and> \<not> soom us \<and> it_ok al (it\<lparr>it_node := Some (root t), it_stack := us\<rparr>) \<and> sitems us = map frame_addr D"
proof -
  have w: "heap_is (rheap rx) (rt_nodes T)" "rhead rx = root T" "wf_rt T" "stack_opt al (Some (it_stack it))"
    using assms by (auto simp: walkable_def reset_ok_def it_ok_def)
  obtain D t j r ts where o: "raxLowWalk al rx ele (Some (it_stack it)) = Some (length (path D) + j, root t, link_of D, j, ts)" "plug D t = T" "ele = path D @ r"
    "stops_at (info t) r j" "pushed al (map frame_addr D) (Some (it_stack it)) ts"
    using raxLowWalk_ok [OF w, of ele] by blast
  then obtain us where us: "ts = Some us" "sitems us = map frame_addr D" "\<not> soom us" "stack_ok al us" using assms(2) by (auto simp: reset_ok_def it_ok_def)
  then have "it_ok al (it\<lparr>it_node := Some (root t), it_stack := us\<rparr>)" using assms(2) by (simp add: reset_ok_def it_ok_def)
  then show ?thesis using o us by blast
qed

text \<open>Where the walk stopped, as the code tells the cases apart.\<close>

lemma stops_cases:
  assumes "stops_at n r j"
  obtains (here) "r = []" "j = 0"
    | (mid) v where "iscompr n" "r \<noteq> []" "j = length r" "v \<noteq> []" "chars n = r @ v"
    | (compr) "iscompr n" "j = match_len (chars n) r" "j < rsize n" "j < length r"
    | (edge) c r' where "\<not> iscompr n" "r = c # r'" "c \<notin> set (chars n)" "j = 0"
proof (cases "r = []")
  case True
  then show ?thesis using assms here by (simp add: stops_at_def)
next
  case False
  show ?thesis
  proof (cases "iscompr n")
    case True
    then have j: "j = match_len (chars n) r" "j < rsize n" using assms False by (simp_all add: stops_at_def)
    show ?thesis
    proof (cases "j < length r")
      case jl: False
      then have "j = length r" using match_len_take(3) [of "chars n" r] j by simp
      moreover from this have "chars n = r @ drop j (chars n)" using match_len_take(1) [of "chars n" r] j append_take_drop_id [of j "chars n"] by simp
      ultimately show ?thesis using mid [of "drop j (chars n)"] True False j(2) by simp
    qed (use compr True j in blast)
  next
    case nc: False
    then show ?thesis using assms False edge [of "hd r" "tl r"] by (simp add: stops_at_def)
  qed
qed

text \<open>The state of a seek after its walk: the walk stopped at \<open>t\<close> in the context \<open>D\<close> with \<open>r\<close> left of the key, and \<open>it1\<close> has the key of that node.\<close>

definition sought :: "'d ralloc \<Rightarrow> 'd rax \<Rightarrow> 'd rt \<Rightarrow> 'd raxIterator \<Rightarrow> byte list \<Rightarrow> 'd frame list \<Rightarrow> 'd rt \<Rightarrow> nat \<Rightarrow> byte list \<Rightarrow> raxStack \<Rightarrow> 'd raxIterator \<Rightarrow> bool" where
  "sought al rx T it ele D t j r us it1 \<longleftrightarrow> walkable al rx T \<and> raxLowWalk al rx ele (Some (it_stack it)) = Some (length (path D) + j, root t, link_of D, j, Some us) \<and> \<not> soom us \<and>
     plug D t = T \<and> ele = path D @ r \<and> stops_at (info t) r j \<and> it_ok al (it\<lparr>it_node := Some (root t), it_stack := us\<rparr>) \<and>
     raxIteratorAddChars al (it\<lparr>it_node := Some (root t), it_stack := us\<rparr>) (path D) = Some (True, it1) \<and> at_node al (it1\<lparr>just_seeked := False\<rparr>) D t (path D) \<and> just_seeked it1"

lemma soughtD:
  assumes "sought al rx T it ele D t j r us it1"
  shows "walkable al rx T" "plug D t = T" "ele = path D @ r" "stops_at (info t) r j" "at_node al (it1\<lparr>just_seeked := False\<rparr>) D t (path D)" "just_seeked it1"
    "rheap rx (root t) = Some (linked (info t) (map root (subs t)))" "wf_rt t" "node_ok (info t) (length (subs t))" "wf_ctx D"
    "length (path D) + j = length ele \<and> (\<not> iscompr (info t) \<or> j = 0) \<and> iskey (info t) \<longleftrightarrow> r = [] \<and> iskey (info t)"
proof -
  show s: "walkable al rx T" "plug D t = T" "ele = path D @ r" "stops_at (info t) r j" "at_node al (it1\<lparr>just_seeked := False\<rparr>) D t (path D)" "just_seeked it1"
    using assms by (auto simp: sought_def)
  show "rheap rx (root t) = Some (linked (info t) (map root (subs t)))" by (rule walkable_node [OF s(1,2)])
  show "wf_rt t" "node_ok (info t) (length (subs t))" "wf_ctx D" using walkable_parts(1,2) [OF s(1,2)] node_ok_info by blast+
  show "length (path D) + j = length ele \<and> (\<not> iscompr (info t) \<or> j = 0) \<and> iskey (info t) \<longleftrightarrow> r = [] \<and> iskey (info t)"
    using s(3,4) by (cases rule: stops_cases [OF s(4)]) auto
qed

lemma sought_walk:
  assumes "sought al rx T it ele D t j r us it1"
  shows "raxLowWalk al rx ele (Some (it_stack it)) = Some (length (path D) + j, root t, link_of D, j, Some us)" "\<not> soom us"
    "raxIteratorAddChars al (it\<lparr>it_node := Some (root t), it_stack := us\<rparr>) (path D) = Some (True, it1)"
  using assms by (auto simp: sought_def)

lemma sought_ex:
  assumes w: "walkable al rx T" and it: "reset_ok al it"
  shows "\<exists>D t j r us it1. sought al rx T it ele D t j r us it1"
proof -
  obtain D t j r us where o: "raxLowWalk al rx ele (Some (it_stack it)) = Some (length (path D) + j, root t, link_of D, j, Some us)" "plug D t = T" "ele = path D @ r"
    "stops_at (info t) r j" "\<not> soom us" "it_ok al (it\<lparr>it_node := Some (root t), it_stack := us\<rparr>)" "sitems us = map frame_addr D"
    using seek_walk [OF assms] by blast
  let ?it = "it\<lparr>it_node := Some (root t), it_stack := us\<rparr>"
  have k: "key_is ?it []" "\<forall>n. rax_room al n" using it w by (auto simp: reset_ok_def walkable_def key_is_def it_key_def)
  have fl: "just_seeked it" "\<not> it_eof it" using it by (auto simp: reset_ok_def)
  obtain it1 where "raxIteratorAddChars al ?it (path D) = Some (True, it1)" "at_node al (it1\<lparr>just_seeked := False\<rparr>) D t (path D)" "just_seeked it1"
    using add_chars_ok [OF o(6) k, of "path D"] fl o(7) by (auto simp: at_node_def)
  then show ?thesis using o w unfolding sought_def by blast
qed

lemma sought_hit:
  assumes s: "sought al rx T it ele D t j r us it1" and f: "r = []" "iskey (info t)"
  shows "\<exists>it'. seek_key al rx it True lt gt ele = Some (True, rx, it') \<and> seeks al T it' (filter (after True ele) (entries T)) \<and> seeks_back al T it' (filter (before True ele) (entries T))"
proof -
  note d = soughtD [OF s]
  obtain v where v: "raxGetData (info t) = Some v" using raxGetData_ok [OF d(9) f(2)] by simp
  have ele: "ele = path D" using d(3) f(1) by simp
  have k: "seek_key al rx it True lt gt ele = Some (True, rx, it1\<lparr>it_data := v\<rparr>)"
    using sought_walk [OF s] f d(7,11) v ele unfolding seek_key_def by simp
  have x: "filter (after True ele) (entries T) = map (pfx (path D)) (own (info t)) @ behind D t" "filter (before True ele) (entries T) = so_far D t"
    using filter_at [OF d(10), of True "[]" t] filter_here [OF d(8), of True] ele d(2) by (simp_all add: behind_def below_def so_far_def)
  have "lands al T (it1\<lparr>just_seeked := False, it_data := v\<rparr>) (map (pfx (path D)) (own (info t)) @ behind D t)" "lands_back al T (it1\<lparr>just_seeked := False, it_data := v\<rparr>) (so_far D t)"
    using lands_here [OF d(1,2,5) v f(2)] by simp_all
  moreover have "own (info t) \<noteq> []" using f(2) by (simp add: own_def)
  moreover have c: "it1\<lparr>it_data := v, just_seeked := False\<rparr> = it1\<lparr>just_seeked := False, it_data := v\<rparr>" by (cases it1) simp
  ultimately show ?thesis unfolding k x using d(6) by (auto simp: seeks_def seeks_back_def so_far_def c)
qed

lemma sought_goes:
  assumes s: "sought al rx T it ele D t j r us it1" and nf: "\<not> (eq \<and> r = [] \<and> iskey (info t))" and "lt \<or> gt"
  shows "seek_key al rx it eq lt gt ele = (if length (path D) + j \<noteq> length ele \<and> \<not> iscompr (info t) then Option.bind (get_at ele (length (path D) + j)) (seek_mismatch al rx it1 lt gt)
      else if length (path D) + j \<noteq> length ele \<and> iscompr (info t)
        then Option.bind (get_at (chars (info t)) j) (\<lambda>x. Option.bind (get_at ele (length (path D) + j)) (\<lambda>y. seek_compressed al rx it1 lt gt (linked (info t) (map root (subs t))) x y))
      else seek_match al rx it1 lt gt (linked (info t) (map root (subs t))) j)"
proof -
  define found where "found = (r = [] \<and> iskey (info t))"
  have nf: "(eq \<and> found) = False" using nf by (simp add: found_def)
  have tk: "take (length (path D) + j - j) ele = path D" using soughtD(3) [OF s] by simp
  show ?thesis using assms(3) sought_walk [OF s] soughtD(7,11) [OF s, folded found_def] tk unfolding seek_key_def by (simp add: nf split del: if_split cong: if_cong)
qed

lemma sought_near:
  assumes s: "sought al rx T it ele D t j r us it1" and nf: "\<not> (eq \<and> r = [] \<and> iskey (info t))"
  shows "(\<exists>it'. seek_key al rx it eq False True ele = Some (True, rx, it') \<and> seeks al T it' (filter (after eq ele) (entries T))) \<and>
    (\<exists>it'. seek_key al rx it eq True False ele = Some (True, rx, it') \<and> seeks_back al T it' (filter (before eq ele) (entries T)))"
proof -
  note d = soughtD [OF s] and goes = sought_goes [OF s nf]
  let ?n = "info t" let ?here = "r = [] \<and> j = 0 \<and> (eq \<longrightarrow> \<not> iskey ?n) \<or> iscompr ?n \<and> r \<noteq> [] \<and> j = length r \<and> (\<exists>v. v \<noteq> [] \<and> chars ?n = r @ v)"
  show ?thesis using d(4)
  proof (cases rule: stops_cases)
    case here
    then have ?here using nf by auto
    from seek_match_ok [OF d(1,2,5) this] show ?thesis using goes here d(3) by simp
  next
    case (mid v)
    then have ?here by blast
    from seek_match_ok [OF d(1,2,5) this] show ?thesis using goes mid d(3) by simp
  next
    case compr
    have "get_at (chars ?n) j = Some (chars ?n ! j)" "get_at ele (length (path D) + j) = Some (r ! j)" using compr d(3) by simp_all
    then show ?thesis using seek_compressed_ok [OF d(1,2,5) compr] goes compr(1,4) d(3) by simp
  next
    case (edge c r')
    then have "get_at ele (length (path D) + j) = Some c" using d(3) by simp
    then show ?thesis using seek_mismatch_ok [OF d(1,2,5) edge(1,3), of eq r'] goes edge d(3) by simp
  qed
qed

lemma sought_keys:
  assumes s: "sought al rx T it ele D t j r us it1"
  shows "ele \<in> fst ` set (entries T) \<longleftrightarrow> r = [] \<and> iskey (info t)"
proof -
  note d = soughtD [OF s]
  have "ele \<in> fst ` set (entries T) \<longleftrightarrow> map_of (entries T) ele \<noteq> None" by (simp add: map_of_eq_None_iff)
  also have "map_of (entries T) ele = map_of (entries t) r" using lookup_plug [of D t r] walkable_parts(7) [OF d(1,2)] d(2,3) by simp
  also have "\<dots> \<noteq> None \<longleftrightarrow> r = [] \<and> iskey (info t)"
    using lookup_root [OF d(8)] lookup_stops [OF d(8,4)] raxGetData_ok [OF d(9)] by (cases "r = []") auto
  finally show ?thesis .
qed

lemma seek_key_ok:
  assumes w: "walkable al rx T" and it: "reset_ok al it"
  shows "\<exists>it'. seek_key al rx it eq False True ele = Some (True, rx, it') \<and> seeks al T it' (filter (after eq ele) (entries T))"
    "\<exists>it'. seek_key al rx it eq True False ele = Some (True, rx, it') \<and> seeks_back al T it' (filter (before eq ele) (entries T))"
    "\<exists>it'. seek_key al rx it True False False ele = Some (True, rx, it') \<and>
       (if ele \<in> fst ` set (entries T) then seeks al T it' (filter (after True ele) (entries T)) \<and> seeks_back al T it' (filter (before True ele) (entries T)) else it_ok al it' \<and> it_eof it')"
proof -
  obtain D t j r us it1 where s: "sought al rx T it ele D t j r us it1" using sought_ex [OF assms] by blast
  show "\<exists>it'. seek_key al rx it eq False True ele = Some (True, rx, it') \<and> seeks al T it' (filter (after eq ele) (entries T))"
    "\<exists>it'. seek_key al rx it eq True False ele = Some (True, rx, it') \<and> seeks_back al T it' (filter (before eq ele) (entries T))"
    using sought_near [OF s, of eq] sought_hit [OF s, of False True] sought_hit [OF s, of True False] by (cases "eq \<and> r = [] \<and> iskey (info t)"; auto)+
  let ?it = "it\<lparr>it_node := Some (root t), it_stack := us\<rparr>"
  have "seek_key al rx it True False False ele = Some (True, rx, ?it\<lparr>it_eof := True\<rparr>)" if "\<not> (r = [] \<and> iskey (info t))"
    using that sought_walk [OF s] soughtD(7,11) [OF s] unfolding seek_key_def by (auto simp: Let_def)
  moreover have "it_ok al (?it\<lparr>it_eof := True\<rparr>)" using s by (simp add: sought_def it_ok_def)
  ultimately show "\<exists>it'. seek_key al rx it True False False ele = Some (True, rx, it') \<and>
       (if ele \<in> fst ` set (entries T) then seeks al T it' (filter (after True ele) (entries T)) \<and> seeks_back al T it' (filter (before True ele) (entries T)) else it_ok al it' \<and> it_eof it')"
    using sought_keys [OF s] sought_hit [OF s, of False False] by (cases "r = [] \<and> iskey (info t)") auto
qed

text \<open>Seeking with each of the operators.\<close>

lemma raxSeek_ok:
  assumes w: "walkable al rx T" and it: "it_ok al it" and c: "numele rx = 0 \<longleftrightarrow> entries T = []"
  shows "\<exists>it'. raxSeek al rx it ''>'' ele = Some (True, rx, it') \<and> seeks al T it' (filter (after False ele) (entries T))"
    "\<exists>it'. raxSeek al rx it ''>='' ele = Some (True, rx, it') \<and> seeks al T it' (filter (after True ele) (entries T))"
    "\<exists>it'. raxSeek al rx it ''<'' ele = Some (True, rx, it') \<and> seeks_back al T it' (filter (before False ele) (entries T))"
    "\<exists>it'. raxSeek al rx it ''<='' ele = Some (True, rx, it') \<and> seeks_back al T it' (filter (before True ele) (entries T))"
    "\<exists>it'. raxSeek al rx it ''='' ele = Some (True, rx, it') \<and>
       (if ele \<in> fst ` set (entries T) then seeks al T it' (filter (after True ele) (entries T)) \<and> seeks_back al T it' (filter (before True ele) (entries T)) else it_ok al it' \<and> it_eof it')"
    "\<exists>it'. raxSeek al rx it ''^'' ele = Some (True, rx, it') \<and> seeks al T it' (entries T)"
    "\<exists>it'. raxSeek al rx it ''$'' ele = Some (True, rx, it') \<and> seeks_back al T it' (entries T)"
proof -
  have empty: "seeks al T (r\<lparr>it_eof := True\<rparr>) [] \<and> seeks_back al T (r\<lparr>it_eof := True\<rparr>) [] \<and> it_ok al (r\<lparr>it_eof := True\<rparr>)" if "reset_ok al r" for r
    using that by (simp add: seeks_def seeks_back_def reset_ok_def it_ok_def)
  note reset = seek_reset_ok [OF it]
  note key = seek_key_ok [OF w reset]
  show "\<exists>it'. raxSeek al rx it ''>'' ele = Some (True, rx, it') \<and> seeks al T it' (filter (after False ele) (entries T))"
    using key(1) empty [OF reset] c by (cases "numele rx = 0") (auto simp: raxSeek.simps [of _ _ _ "''>''"] op_char_def)
  show "\<exists>it'. raxSeek al rx it ''<'' ele = Some (True, rx, it') \<and> seeks_back al T it' (filter (before False ele) (entries T))"
    using key(2) empty [OF reset] c by (cases "numele rx = 0") (auto simp: raxSeek.simps [of _ _ _ "''<''"] op_char_def)
  show "\<exists>it'. raxSeek al rx it ''<='' ele = Some (True, rx, it') \<and> seeks_back al T it' (filter (before True ele) (entries T))"
    using key(2) empty [OF reset] c by (cases "numele rx = 0") (auto simp: raxSeek.simps [of _ _ _ "''<=''"] op_char_def)
  show "\<exists>it'. raxSeek al rx it ''='' ele = Some (True, rx, it') \<and>
       (if ele \<in> fst ` set (entries T) then seeks al T it' (filter (after True ele) (entries T)) \<and> seeks_back al T it' (filter (before True ele) (entries T)) else it_ok al it' \<and> it_eof it')"
    using key(3) empty [OF reset] c by (cases "numele rx = 0") (auto simp: raxSeek.simps [of _ _ _ "''=''"] op_char_def)
  have ge: "\<exists>it'. raxSeek al rx it ''>='' ele = Some (True, rx, it') \<and> seeks al T it' (filter (after True ele) (entries T))" if "it_ok al it" for it ele
    using seek_key_ok(1) [OF w seek_reset_ok [OF that], of True ele] empty [OF seek_reset_ok [OF that]] c by (cases "numele rx = 0") (auto simp: raxSeek.simps [of _ _ _ "''>=''"] op_char_def)
  then show "\<exists>it'. raxSeek al rx it ''>='' ele = Some (True, rx, it') \<and> seeks al T it' (filter (after True ele) (entries T))" using it .
  have all: "filter (after True []) (entries T) = entries T" by (auto simp: filter_id_conv after_def) (metis list.exhaust Nil_less_Cons)
  have "it_ok al (seek_reset it)" using reset by (simp add: reset_ok_def)
  then show "\<exists>it'. raxSeek al rx it ''^'' ele = Some (True, rx, it') \<and> seeks al T it' (entries T)"
    using ge [of "seek_reset it" "[]"] all empty [OF reset] c by (cases "numele rx = 0") (auto simp: raxSeek.simps [of _ _ _ "''^''"] op_char_def)
  show "\<exists>it'. raxSeek al rx it ''$'' ele = Some (True, rx, it') \<and> seeks_back al T it' (entries T)"
  proof (cases "entries T = []")
    case True
    then show ?thesis using empty [OF reset] c by (auto simp: raxSeek.simps [of _ _ _ "''$''"] op_char_def)
  next
    case False
    let ?it = "seek_reset it\<lparr>it_node := Some (rhead rx)\<rparr>"
    have p: "plug [] T = T" by simp
    have at: "at_node al (?it\<lparr>just_seeked := False\<rparr>) [] T (path [])" using reset w by (auto simp: reset_ok_def at_node_def it_ok_def key_is_def it_key_def walkable_def)
    have "live T" using False walkable_parts(4) [OF w p] by (cases T) (auto simp: own_def split: if_splits)
    then obtain it2 D u where g: "raxSeekGreatest al (rheap rx) ?it = Some (True, it2)" "plug D u = T" "at_node al (it2\<lparr>just_seeked := False\<rparr>) D u (path D)" "iskey (info u)"
      "just_seeked it2" "so_far D u = entries T"
      using seek_greatest_any [OF w p at] reset by (auto simp: reset_ok_def)
    obtain v where v: "raxGetData (info u) = Some v" using raxGetData_ok [OF node_ok_info [OF walkable_parts(2) [OF w g(2)]] g(4)] by simp
    have "raxSeek al rx it ''$'' ele = Some (True, rx, it2\<lparr>it_data := v\<rparr>)"
      using False c g(1,3,4) v walkable_node [OF w g(2)] by (simp add: raxSeek.simps [of _ _ _ "''$''"] op_char_def seek_last_def at_node_def)
    moreover have c: "it2\<lparr>it_data := v, just_seeked := False\<rparr> = it2\<lparr>just_seeked := False, it_data := v\<rparr>" by (cases it2) simp
    moreover have "seeks_back al T (it2\<lparr>it_data := v\<rparr>) (entries T)" using lands_here(2) [OF w g(2,3) v g(4)] g(5,6) False by (simp add: seeks_back_def c)
    ultimately show ?thesis by blast
  qed
qed

end
