(* ===== verification/Rax_Range.thy ===== *)
theory Rax_Range
  imports Rax_Scan
begin

text \<open>
  Range scans over a radix tree: what a seek and the steps behind it return, as lists of the entries of the map that the tree holds. A scan is a cursor (the locale \<open>cursor\<close>), which both
  directions of the iterator are.
\<close>

subsection \<open>Cursors\<close>

fun collect :: "('s \<Rightarrow> ('e option \<times> 's) option) \<Rightarrow> nat \<Rightarrow> 's \<Rightarrow> ('e list \<times> 's) option" where
  "collect step 0 s = Some ([], s)"
| "collect step (Suc n) s = do {
     (e, s) \<leftarrow> step s;
     case e of None \<Rightarrow> Some ([], s)
     | Some e \<Rightarrow> do { (es, s) \<leftarrow> collect step n s; Some (e # es, s) } }"

locale cursor =
  fixes step :: "'s \<Rightarrow> ('e option \<times> 's) option" and left :: "'s \<Rightarrow> 'e list \<Rightarrow> bool"
  assumes ends: "left s [] \<Longrightarrow> \<exists>s'. step s = Some (None, s') \<and> left s' []"
    and goes: "left s (x # xs) \<Longrightarrow> \<exists>s'. step s = Some (Some x, s') \<and> left s' xs"
begin

lemma collects: "left s xs \<Longrightarrow> \<exists>s'. collect step n s = Some (take n xs, s') \<and> left s' (drop n xs)"
proof (induction n arbitrary: s xs)
  case (Suc n)
  show ?case
  proof (cases xs)
    case Nil
    then show ?thesis using ends [of s] Suc.prems by auto
  next
    case (Cons x ys)
    then obtain s1 where "step s = Some (Some x, s1)" "left s1 ys" using goes Suc.prems by blast
    then show ?thesis using Suc.IH [of s1 ys] Cons by auto
  qed
qed simp

end

text \<open>The iterator as a cursor, forward and backward. A step yields the key and the data that the iterator then has.\<close>

definition step_next :: "'d ralloc \<Rightarrow> 'd rax \<times> 'd raxIterator \<Rightarrow> ((byte list \<times> 'd option) option \<times> 'd rax \<times> 'd raxIterator) option" where
  "step_next al = (\<lambda>(rx, it). do { (ok, rx, it) \<leftarrow> raxNext al rx it; Some (if ok then Some (it_key it, it_data it) else None, rx, it) })"

definition step_prev :: "'d ralloc \<Rightarrow> 'd rax \<times> 'd raxIterator \<Rightarrow> ((byte list \<times> 'd option) option \<times> 'd rax \<times> 'd raxIterator) option" where
  "step_prev al = (\<lambda>(rx, it). do { (ok, it) \<leftarrow> raxPrev al rx it; Some (if ok then Some (it_key it, it_data it) else None, rx, it) })"

definition to_come :: "'d ralloc \<Rightarrow> 'd rt \<Rightarrow> 'd rax \<times> 'd raxIterator \<Rightarrow> (byte list \<times> 'd option) list \<Rightarrow> bool" where
  "to_come al T = (\<lambda>(rx, it) xs. walkable al rx T \<and> (seeks al T it xs \<or> (\<exists>C t. plug C t = T \<and> at_entry al it C t \<and> xs = behind C t)))"

definition to_come_back :: "'d ralloc \<Rightarrow> 'd rt \<Rightarrow> 'd rax \<times> 'd raxIterator \<Rightarrow> (byte list \<times> 'd option) list \<Rightarrow> bool" where
  "to_come_back al T = (\<lambda>(rx, it) xs. walkable al rx T \<and> (seeks_back al T it (rev xs) \<or> (\<exists>C t. plug C t = T \<and> at_entry al it C t \<and> rev xs = ctx_pre C)))"

lemma at_entry_key: "at_entry al it C t \<Longrightarrow> it_key it = path C \<and> \<not> it_eof it \<and> \<not> just_seeked it"
  by (simp add: at_entry_def at_node_def key_is_def)

lemma next_moves:
  assumes "walkable al rx T" "plug C t = T" "at_entry al it C t"
  shows "\<exists>it'. raxNext al rx it = Some (behind C t \<noteq> [], rx, it') \<and> lands al T it' (behind C t)"
proof -
  obtain it' where it': "raxIteratorNextStep al rx it False = Some (True, rx, it')" "lands al T it' (behind C t)"
    using next_step_ok [OF assms(1,2)] assms(3) by (auto simp: at_entry_def)
  then have "it_eof it' \<longleftrightarrow> behind C t = []" by (auto simp: lands_def dest: at_entry_key split: if_splits)
  then show ?thesis using it' by (simp add: raxNext_def)
qed

lemma prev_moves:
  assumes "walkable al rx T" "plug C t = T" "at_entry al it C t"
  shows "\<exists>it'. raxPrev al rx it = Some (ctx_pre C \<noteq> [], it') \<and> lands_back al T it' (ctx_pre C)"
proof -
  obtain it' where it': "raxIteratorPrevStep al rx it False = Some (True, it')" "lands_back al T it' (ctx_pre C)"
    using prev_step_ok [OF assms(1,2)] assms(3) by (auto simp: at_entry_def)
  then have "it_eof it' \<longleftrightarrow> ctx_pre C = []" by (auto simp: lands_back_def dest: at_entry_key split: if_splits)
  then show ?thesis using it' by (simp add: raxPrev_def)
qed

interpretation fwd: cursor "step_next al" "to_come al T" for al T
proof
  fix s :: "'a rax \<times> 'a raxIterator" and x xs
  obtain rx it where s: "s = (rx, it)" by (cases s)
  show "\<exists>s'. step_next al s = Some (None, s') \<and> to_come al T s' []" if l: "to_come al T s []"
  proof -
    have w: "walkable al rx T" using l s by (simp add: to_come_def)
    consider (eof) "it_ok al it" "it_eof it" | (last) C t where "plug C t = T" "at_entry al it C t" "behind C t = []"
      using l s by (auto simp: to_come_def seeks_def)
    then show ?thesis
    proof cases
      case eof
      then show ?thesis using w s by (simp add: step_next_def raxNext_def raxIteratorNextStep_def to_come_def seeks_def)
    next
      case last
      then show ?thesis using next_moves [OF w last(1,2)] w s by (auto simp: step_next_def to_come_def seeks_def lands_def)
    qed
  qed
  show "\<exists>s'. step_next al s = Some (Some x, s') \<and> to_come al T s' xs" if l: "to_come al T s (x # xs)"
  proof -
    have w: "walkable al rx T" using l s by (simp add: to_come_def)
    have "\<exists>it'. raxNext al rx it = Some (True, rx, it') \<and> lands al T it' (x # xs)"
    proof (cases "seeks al T it (x # xs)")
      case True
      then have "just_seeked it" "lands al T (it\<lparr>just_seeked := False\<rparr>) (x # xs)" "\<not> it_eof it" by (auto simp: seeks_def lands_def dest: at_entry_key)
      then show ?thesis by (auto simp: raxNext_def raxIteratorNextStep_def)
    next
      case False
      then obtain C t where "plug C t = T" "at_entry al it C t" "x # xs = behind C t" using l s by (auto simp: to_come_def)
      then show ?thesis using next_moves [OF w, of C t it] by (metis list.discI)
    qed
    then obtain it' C t where n: "raxNext al rx it = Some (True, rx, it')" "plug C t = T" "at_entry al it' C t" "x = (path C, it_data it')" "xs = behind C t" by (auto simp: lands_def)
    then show ?thesis using at_entry_key [OF n(3)] w s by (auto simp: step_next_def to_come_def)
  qed
qed

interpretation bwd: cursor "step_prev al" "to_come_back al T" for al T
proof
  fix s :: "'a rax \<times> 'a raxIterator" and x xs
  obtain rx it where s: "s = (rx, it)" by (cases s)
  show "\<exists>s'. step_prev al s = Some (None, s') \<and> to_come_back al T s' []" if l: "to_come_back al T s []"
  proof -
    have w: "walkable al rx T" using l s by (simp add: to_come_back_def)
    consider (eof) "it_ok al it" "it_eof it" | (last) C t where "plug C t = T" "at_entry al it C t" "ctx_pre C = []"
      using l s by (auto simp: to_come_back_def seeks_back_def)
    then show ?thesis
    proof cases
      case eof
      then show ?thesis using w s by (simp add: step_prev_def raxPrev_def raxIteratorPrevStep_def to_come_back_def seeks_back_def)
    next
      case last
      then show ?thesis using prev_moves [OF w last(1,2)] w s by (auto simp: step_prev_def to_come_back_def seeks_back_def lands_back_def)
    qed
  qed
  show "\<exists>s'. step_prev al s = Some (Some x, s') \<and> to_come_back al T s' xs" if l: "to_come_back al T s (x # xs)"
  proof -
    have w: "walkable al rx T" using l s by (simp add: to_come_back_def)
    have "\<exists>it'. raxPrev al rx it = Some (True, it') \<and> lands_back al T it' (rev xs @ [x])"
    proof (cases "seeks_back al T it (rev xs @ [x])")
      case True
      then have "just_seeked it" "lands_back al T (it\<lparr>just_seeked := False\<rparr>) (rev xs @ [x])" "\<not> it_eof it" by (auto simp: seeks_back_def lands_back_def dest: at_entry_key)
      then show ?thesis by (auto simp: raxPrev_def raxIteratorPrevStep_def)
    next
      case False
      then obtain C t where "plug C t = T" "at_entry al it C t" "rev xs @ [x] = ctx_pre C" using l s by (auto simp: to_come_back_def)
      then show ?thesis using prev_moves [OF w, of C t it] by (metis snoc_eq_iff_butlast)
    qed
    then obtain it' C t where n: "raxPrev al rx it = Some (True, it')" "plug C t = T" "at_entry al it' C t" "x = (path C, it_data it')" "rev xs = ctx_pre C" by (auto simp: lands_back_def)
    then show ?thesis using at_entry_key [OF n(3)] w s by (auto simp: step_prev_def to_come_back_def)
  qed
qed


subsection \<open>The entries of a map\<close>

definition sorted_entries :: "(byte list \<rightharpoonup> 'v) \<Rightarrow> (byte list \<times> 'v) list" where
  "sorted_entries m = map (\<lambda>k. (k, the (m k))) (sorted_list_of_set (dom m))"

lemma entries_of_map:
  assumes "wf_rt T"
  shows "sorted_entries (map_of (entries T)) = entries T"
proof -
  have "sorted_list_of_set (dom (map_of (entries T))) = map fst (entries T)"
    using entries_sorted [OF assms] sorted_list_of_set.idem_if_sorted_distinct [of "map fst (entries T)"]
    by (simp add: dom_map_of_conv_image_fst strict_sorted_iff)
  moreover have "map (\<lambda>e. (fst e, the (map_of (entries T) (fst e)))) (entries T) = entries T"
  proof (intro map_idI)
    show "(fst e, the (map_of (entries T) (fst e))) = e" if "e \<in> set (entries T)" for e
      using map_of_entries [OF assms, of "fst e" "snd e"] that by (simp add: prod_eq_iff)
  qed
  ultimately show ?thesis by (simp add: sorted_entries_def comp_def)
qed

lemma rax_is_walkable:
  assumes "rax_is rx m" "\<forall>n. rax_room al n" "card (dom m) < 2 ^ 64"
  shows "\<exists>T. walkable al rx T \<and> entries T = sorted_entries m \<and> m = map_of (entries T) \<and> (numele rx = 0 \<longleftrightarrow> entries T = [])"
proof -
  obtain T where T: "rax_rep rx T" "m = map_of (entries T)" using assms(1) by (auto simp: rax_is_def)
  have w: "wf_rt T" using T(1) by (simp add: rax_rep_def shape_def)
  have "length (entries T) = card (dom m)" using distinct_card [OF entries_distinct [OF w]] T(2) by (simp add: dom_map_of_conv_image_fst)
  then have "numele rx = 0 \<longleftrightarrow> entries T = []" using T(1) assms(3) by (simp add: rax_rep_def word_of_nat_eq_0_iff nat_dvd_not_less dvd_imp_le) (metis length_0_conv dvd_0_right nat_dvd_not_less neq0_conv)
  then show ?thesis using T w assms(2) entries_of_map [OF w] by (auto simp: walkable_def rax_rep_def shape_def)
qed

lemma raxStart_ok: "\<forall>n. rax_room al n \<Longrightarrow> it_ok al raxStart"
  using raxStackInit_ok [of al] by (simp add: it_ok_def raxStart_def) (simp add: raxStackInit_def)

subsection \<open>Properties\<close>

definition in_range :: "string \<Rightarrow> byte list \<Rightarrow> byte list \<Rightarrow> bool" where
  "in_range op ele k \<longleftrightarrow> op = ''>'' \<and> ele < k \<or> op = ''>='' \<and> ele \<le> k \<or> op = ''<'' \<and> k < ele \<or> op = ''<='' \<and> k \<le> ele \<or> op = ''^'' \<or> op = ''$''"

lemma in_range_simps:
  "in_range ''>'' ele \<circ> fst = after False ele" "in_range ''>='' ele \<circ> fst = after True ele" "in_range ''^'' ele \<circ> fst = (\<lambda>_. True)"
  "in_range ''<'' ele \<circ> fst = before False ele" "in_range ''<='' ele \<circ> fst = before True ele" "in_range ''$'' ele \<circ> fst = (\<lambda>_. True)"
  by (auto simp: fun_eq_iff in_range_def after_def before_def)

text \<open>
  C6. Range scans. On a tree that holds a map, \<open>raxSeek\<close> with one of the operators for a lower bound (or the first key) followed by calls of \<open>raxNext\<close> returns the entries of the map
  within the bound in ascending order of their keys (bytes compared as unsigned, a prefix before its extensions), each once, and then reports the end; with one of the operators for an upper
  bound (or the last key) and \<open>raxPrev\<close>, in descending order. The key need not be in the tree, nothing faults and every step returns, and the tree is not changed. The iterator may have been used before.
\<close>

theorem rax_scans:
  assumes "\<forall>n. rax_room al n" and "rax_is rx m" and "card (dom m) < 2 ^ 64" and "it_ok al it"
  shows "(op \<in> {''>'', ''>='', ''^''} \<longrightarrow> (\<exists>it'. raxSeek al rx it op ele = Some (True, rx, it') \<and>
       (\<forall>n. \<exists>s. collect (step_next al) n (rx, it') = Some (take n (filter (in_range op ele \<circ> fst) (sorted_entries m)), s)))) \<and>
     (op \<in> {''<'', ''<='', ''$''} \<longrightarrow> (\<exists>it'. raxSeek al rx it op ele = Some (True, rx, it') \<and>
       (\<forall>n. \<exists>s. collect (step_prev al) n (rx, it') = Some (take n (rev (filter (in_range op ele \<circ> fst) (sorted_entries m))), s))))"
proof -
  obtain T where T: "walkable al rx T" "entries T = sorted_entries m" "numele rx = 0 \<longleftrightarrow> entries T = []" using rax_is_walkable [OF assms(2,1,3)] by metis
  note seek = raxSeek_ok [OF T(1) assms(4) T(3), where ele = ele, unfolded T(2)]
  have f: "\<exists>s. collect (step_next al) n (rx, it') = Some (take n xs, s)" if "seeks al T it' xs" for it' xs n
    using fwd.collects [of al T "(rx, it')" xs n] that T(1) by (auto simp: to_come_def)
  have b: "\<exists>s. collect (step_prev al) n (rx, it') = Some (take n (rev xs), s)" if "seeks_back al T it' xs" for it' xs n
    using bwd.collects [of al T "(rx, it')" "rev xs" n] that T(1) by (auto simp: to_come_back_def)
  show ?thesis using seek f b by (auto simp: in_range_simps)
qed


lemma first_free_room: "\<forall>n. rax_room (first_free :: 'd ralloc) n"
  by (simp add: first_free_def)

lemma two_keys: "\<exists>rx. rax_is rx ([[1, 2] \<mapsto> Some True, [1] \<mapsto> None] :: byte list \<rightharpoonup> bool option)"
proof -
  obtain rx :: "bool rax" where "rax_is rx Map.empty" using rax_first.raxNew_is by blast
  then obtain rx1 :: "bool rax" where rx1: "rax_is rx1 [[1, 2] \<mapsto> Some True]"
    using rax_first.insert_is [of rx Map.empty "[1, 2]" "Some True" True] by (auto simp: RAX_NODE_MAX_SIZE_def)
  then show ?thesis using rax_first.insert_is [OF rx1, of "[1]" None True] by (auto simp: RAX_NODE_MAX_SIZE_def)
qed

lemma two_keys_sorted:
  "sorted_entries ([[1, 2] \<mapsto> Some True, [1] \<mapsto> None] :: byte list \<rightharpoonup> bool option) = [([1], None), ([1, 2], Some True)]"
proof -
  have "sorted_list_of_set {[1], [1, 2] :: byte list} = [[1], [1, 2]]" by (subst sorted_list_of_set_insert_remove) simp_all
  then show ?thesis by (simp add: sorted_entries_def)
qed

theorem rax_scans_witness:
  "\<exists>rx it. raxSeek first_free rx raxStart ''>='' [1] = Some (True, rx, it) \<and>
     (\<exists>s. collect (step_next first_free) 5 (rx, it) = Some ([([1], None), ([1, 2], Some True)], s))"
proof -
  obtain rx where "rax_is rx ([[1, 2] \<mapsto> Some True, [1] \<mapsto> None] :: byte list \<rightharpoonup> bool option)" using two_keys by blast
  from rax_scans [OF first_free_room this _ raxStart_ok [OF first_free_room], of "''>=''" "[1]"]
  obtain it where it: "raxSeek first_free rx raxStart ''>='' [1] = Some (True, rx, it)"
    "\<forall>n. \<exists>s. collect (step_next first_free) n (rx, it) = Some (take n (filter (in_range ''>='' [1] \<circ> fst) [([1], None), ([1, 2], Some True)]), s)"
    by (auto simp: two_keys_sorted)
  have "filter (in_range ''>='' [1] \<circ> fst) [([1], None), ([1, 2], Some True)] = [([1 :: byte], None), ([1, 2], Some True)]" by (simp add: in_range_def)
  then show ?thesis using it(1) it(2) [rule_format, of 5] by auto
qed

text \<open>The iterator on the entry number \<open>i\<close> of the map.\<close>

definition on_index :: "'d ralloc \<Rightarrow> 'd rax \<Rightarrow> 'd raxIterator \<Rightarrow> (byte list \<rightharpoonup> 'd option) \<Rightarrow> nat \<Rightarrow> bool" where
  "on_index al rx it m i \<longleftrightarrow> (\<exists>T C t. walkable al rx T \<and> entries T = sorted_entries m \<and> plug C t = T \<and> at_entry al it C t \<and> i = length (ctx_pre C))"

lemma on_index_entry:
  assumes "on_index al rx it m i"
  shows "i < length (sorted_entries m)" "sorted_entries m ! i = (it_key it, it_data it)"
proof -
  obtain T C t where T: "walkable al rx T" "entries T = sorted_entries m" "plug C t = T" "at_entry al it C t" "i = length (ctx_pre C)" using assms by (auto simp: on_index_def)
  have "sorted_entries m = ctx_pre C @ (path C, it_data it) # behind C t" using entries_at [OF T(1,3)] T(2,4) by (simp add: so_far_def at_entry_def)
  then show "i < length (sorted_entries m)" "sorted_entries m ! i = (it_key it, it_data it)" using T(5) at_entry_key [OF T(4)] by auto
qed

lemma on_index_next:
  assumes "on_index al rx it m i"
  shows "\<exists>it'. raxNext al rx it = Some (Suc i < length (sorted_entries m), rx, it') \<and> (if Suc i < length (sorted_entries m) then on_index al rx it' m (Suc i) else raxEOF it')"
proof -
  obtain T C t where T: "walkable al rx T" "entries T = sorted_entries m" "plug C t = T" "at_entry al it C t" "i = length (ctx_pre C)" using assms by (auto simp: on_index_def)
  have e: "sorted_entries m = ctx_pre C @ (path C, it_data it) # behind C t" using entries_at [OF T(1,3)] T(2,4) by (simp add: so_far_def at_entry_def)
  obtain it' where it': "raxNext al rx it = Some (behind C t \<noteq> [], rx, it')" "lands al T it' (behind C t)" using next_moves [OF T(1,3,4)] by blast
  show ?thesis
  proof (cases "behind C t = []")
    case True
    then show ?thesis using it' e T(5) by (simp add: lands_def raxEOF_def)
  next
    case False
    then obtain D u where D: "plug D u = T" "at_entry al it' D u" "behind C t = (path D, it_data it') # behind D u" using it'(2) by (auto simp: lands_def)
    have "entries T = ctx_pre D @ (path D, it_data it') # behind D u" using entries_at [OF T(1) D(1)] D(2) by (simp add: so_far_def at_entry_def)
    then have "length (ctx_pre D) = Suc i" using e T(2,5) D(3) by (metis (no_types, lifting) add_Suc_right add_right_cancel append_Cons length_Cons length_append)
    then have "on_index al rx it' m (Suc i)" using T(1,2) D(1,2) unfolding on_index_def by metis
    then show ?thesis using it'(1) False e T(5) by simp
  qed
qed

lemma on_index_prev:
  assumes "on_index al rx it m i"
  shows "\<exists>it'. raxPrev al rx it = Some (0 < i, it') \<and> (if 0 < i then on_index al rx it' m (i - 1) else raxEOF it')"
proof -
  obtain T C t where T: "walkable al rx T" "entries T = sorted_entries m" "plug C t = T" "at_entry al it C t" "i = length (ctx_pre C)" using assms by (auto simp: on_index_def)
  obtain it' where it': "raxPrev al rx it = Some (ctx_pre C \<noteq> [], it')" "lands_back al T it' (ctx_pre C)" using prev_moves [OF T(1,3,4)] by blast
  show ?thesis
  proof (cases "ctx_pre C = []")
    case True
    then show ?thesis using it' T(5) by (simp add: lands_back_def raxEOF_def)
  next
    case False
    then obtain D u where D: "plug D u = T" "at_entry al it' D u" "ctx_pre C = ctx_pre D @ [(path D, it_data it')]" using it'(2) by (auto simp: lands_back_def)
    then have "length (ctx_pre D) = i - 1" using T(5) by simp
    then have "on_index al rx it' m (i - 1)" using T(1,2) D(1,2) unfolding on_index_def by metis
    then show ?thesis using it'(1) False T(5) by simp
  qed
qed

lemma seek_eq_index:
  assumes "\<forall>n. rax_room al n" and "rax_is rx m" and "card (dom m) < 2 ^ 64" and "it_ok al it"
  shows "\<exists>it'. raxSeek al rx it ''='' k = Some (True, rx, it') \<and>
       (case m k of None \<Rightarrow> raxEOF it' | Some v \<Rightarrow> \<exists>i it2. raxNext al rx it' = Some (True, rx, it2) \<and> on_index al rx it2 m i \<and> sorted_entries m ! i = (k, v))"
proof -
  obtain T where T: "walkable al rx T" "entries T = sorted_entries m" "m = map_of (entries T)" "numele rx = 0 \<longleftrightarrow> entries T = []" using rax_is_walkable [OF assms(2,1,3)] by blast
  obtain it' where it': "raxSeek al rx it ''='' k = Some (True, rx, it')"
    "if k \<in> fst ` set (entries T) then seeks al T it' (filter (after True k) (entries T)) \<and> seeks_back al T it' (filter (before True k) (entries T)) else it_ok al it' \<and> it_eof it'"
    using raxSeek_ok(5) [OF T(1) assms(4) T(4)] by blast
  have "case m k of None \<Rightarrow> raxEOF it' | Some v \<Rightarrow> \<exists>i it2. raxNext al rx it' = Some (True, rx, it2) \<and> on_index al rx it2 m i \<and> sorted_entries m ! i = (k, v)"
  proof (cases "m k")
    case None
    then have "k \<notin> fst ` set (entries T)" using T(3) by (simp add: map_of_eq_None_iff)
    then show ?thesis using it'(2) None by (simp add: raxEOF_def)
  next
    case (Some v)
    then have k: "(k, v) \<in> set (entries T)" using T(3) map_of_SomeD by metis
    then have "k \<in> fst ` set (entries T)" by force
    then have s: "seeks al T it' (filter (after True k) (entries T))" "seeks_back al T it' (filter (before True k) (entries T))" using it'(2) by auto
    have m: "(k, v) \<in> set (filter (after True k) (entries T))" "(k, v) \<in> set (filter (before True k) (entries T))" using k by (simp_all add: after_def before_def)
    have ne: "filter (after True k) (entries T) \<noteq> []" "filter (before True k) (entries T) \<noteq> []" using m by (metis empty_iff list.set(1))+
    let ?it = "it'\<lparr>just_seeked := False\<rparr>"
    obtain C t where C: "plug C t = T" "at_entry al ?it C t" "filter (after True k) (entries T) = (path C, it_data ?it) # behind C t" "just_seeked it'"
      using s(1) ne(1) by (auto simp: seeks_def lands_def)
    obtain D u where D: "at_entry al ?it D u" "filter (before True k) (entries T) = ctx_pre D @ [(path D, it_data ?it)]"
      using s(2) ne(2) by (auto simp: seeks_back_def lands_back_def)
    have "(it_key ?it, it_data ?it) \<in> set (filter (after True k) (entries T))" "(it_key ?it, it_data ?it) \<in> set (filter (before True k) (entries T))"
      using C(3) D(2) at_entry_key [OF C(2)] at_entry_key [OF D(1)] by simp_all
    then have e: "it_key ?it = k" "(it_key ?it, it_data ?it) \<in> set (entries T)" by (auto simp: after_def before_def)
    have on: "on_index al rx ?it m (length (ctx_pre C))" using C(1,2) T(1,2) by (auto simp: on_index_def)
    have "map_of (entries T) k = Some (it_data ?it)" using e map_of_entries [of T k] T(1) by (simp add: walkable_def)
    then have "it_data ?it = v" using Some T(3) by simp
    then have "sorted_entries m ! length (ctx_pre C) = (k, v)" using on_index_entry(2) [OF on] e(1) by simp
    moreover have "raxNext al rx it' = Some (True, rx, ?it)" using C(4) at_entry_key [OF C(2)] by (simp add: raxNext_def raxIteratorNextStep_def)
    ultimately show ?thesis using Some on by auto
  qed
  then show ?thesis using it'(1) by blast
qed

text \<open>
  C15. The iterator is a cursor in the sorted list of the entries of the map. A seek of a key that is there puts it on the entry of that key, which the next call returns. From entry \<open>i\<close>, \<open>raxNext\<close> moves to entry
  \<open>i + 1\<close> and \<open>raxPrev\<close> to entry \<open>i - 1\<close>, in any order of calls, with the key and the value of that entry; beyond either end they return 0 and the iterator reports the end. A seek of a key that is not there reports the end.
\<close>

theorem rax_cursor:
  assumes "\<forall>n. rax_room al n" and "rax_is rx m" and "card (dom m) < 2 ^ 64" and "it_ok al it"
  shows "(\<exists>it'. raxSeek al rx it ''='' k = Some (True, rx, it') \<and>
       (case m k of None \<Rightarrow> raxEOF it' | Some v \<Rightarrow> \<exists>i it2. raxNext al rx it' = Some (True, rx, it2) \<and> on_index al rx it2 m i \<and> sorted_entries m ! i = (k, v))) \<and>
     (\<forall>i it. on_index al rx it m i \<longrightarrow> sorted_entries m ! i = (it_key it, it_data it) \<and>
       (\<exists>it'. raxNext al rx it = Some (Suc i < length (sorted_entries m), rx, it') \<and> (if Suc i < length (sorted_entries m) then on_index al rx it' m (Suc i) else raxEOF it')) \<and>
       (\<exists>it'. raxPrev al rx it = Some (0 < i, it') \<and> (if 0 < i then on_index al rx it' m (i - 1) else raxEOF it')))"
proof (intro conjI allI impI)
  show "\<exists>it'. raxSeek al rx it ''='' k = Some (True, rx, it') \<and>
       (case m k of None \<Rightarrow> raxEOF it' | Some v \<Rightarrow> \<exists>i it2. raxNext al rx it' = Some (True, rx, it2) \<and> on_index al rx it2 m i \<and> sorted_entries m ! i = (k, v))"
    by (rule seek_eq_index [OF assms])
next
  fix i it
  assume on: "on_index al rx it m i"
  then show "sorted_entries m ! i = (it_key it, it_data it)" by (rule on_index_entry)
  show "\<exists>it'. raxNext al rx it = Some (Suc i < length (sorted_entries m), rx, it') \<and> (if Suc i < length (sorted_entries m) then on_index al rx it' m (Suc i) else raxEOF it')"
    by (rule on_index_next [OF on])
  show "\<exists>it'. raxPrev al rx it = Some (0 < i, it') \<and> (if 0 < i then on_index al rx it' m (i - 1) else raxEOF it')"
    by (rule on_index_prev [OF on])
qed

theorem rax_cursor_witness:
  "\<exists>rx it1 it2 it3 i. raxSeek first_free rx raxStart ''='' [1, 2] = Some (True, rx, it1) \<and> raxNext first_free rx it1 = Some (True, rx, it2) \<and>
     on_index first_free rx it2 [[1, 2] \<mapsto> Some True, [1] \<mapsto> None] i \<and> raxPrev first_free rx it2 = Some (0 < i, it3)"
proof -
  let ?m = "[[1, 2] \<mapsto> Some True, [1] \<mapsto> None] :: byte list \<rightharpoonup> bool option"
  obtain rx where rx: "rax_is rx ?m" using two_keys by blast
  have "card (dom ?m) < 2 ^ 64" by simp
  note c = rax_cursor [OF first_free_room rx this raxStart_ok [OF first_free_room], of "[1, 2]"]
  obtain it1 it2 i where "raxSeek first_free rx raxStart ''='' [1, 2] = Some (True, rx, it1)" "raxNext first_free rx it1 = Some (True, rx, it2)" "on_index first_free rx it2 ?m i"
    using c by auto
  then show ?thesis using c by blast
qed


lemma memcmp_order:
  "(xs :: byte list) < ys \<longleftrightarrow> (let m = min (length xs) (length ys); c = memcmp (take m xs) (take m ys) m in c < 0 \<or> c = 0 \<and> length xs < length ys)"
proof (induction xs arbitrary: ys)
  case Nil
  show ?case by (cases ys) simp_all
next
  case (Cons x xs)
  show ?case
  proof (cases ys)
    case (Cons y zs)
    have "x \<noteq> y \<Longrightarrow> uint x \<noteq> uint y" using word_uint_eq_iff by blast
    then show ?thesis using Cons Cons.IH [of zs] by (cases "x = y") (simp_all add: Let_def word_less_def)
  qed simp
qed

lemma memcmp_swap: "memcmp ys xs n = - memcmp xs ys n"
  by (induction xs ys n rule: memcmp.induct) auto

text \<open>
  C39. Comparing. For the current key of an iterator \<open>raxCompare\<close> computes the order in which the iterator returns the keys, for each of the operators \<open>>\<close>, \<open>>=\<close>, \<open><\<close>, \<open><=\<close> and \<open>==\<close>, so it agrees with the bounds that
  \<open>raxSeek\<close> applies. The operator \<open>=\<close>, which \<open>raxSeek\<close> accepts for equality, is rejected: the result is 0 for equal keys too.
\<close>

theorem raxCompare_orders:
  assumes "key_len it \<le> length (key_buf it)"
  shows "raxCompare it ''>'' k = Some (in_range ''>'' k (it_key it)) \<and> raxCompare it ''>='' k = Some (in_range ''>='' k (it_key it)) \<and>
     raxCompare it ''<'' k = Some (in_range ''<'' k (it_key it)) \<and> raxCompare it ''<='' k = Some (in_range ''<='' k (it_key it)) \<and>
     raxCompare it ''=='' k = Some (it_key it = k) \<and> raxCompare it ''='' k = Some False"
proof -
  let ?K = "it_key it" let ?m = "min (length ?K) (length k)" let ?c = "memcmp (take ?m (key_buf it)) (take ?m k) ?m"
  have l: "length ?K = key_len it" "take ?m (key_buf it) = take ?m ?K" "(if length k < key_len it then length k else key_len it) = ?m" "?m \<le> length (key_buf it)"
    using assms by (auto simp: it_key_def)
  have lt: "?K < k \<longleftrightarrow> ?c < 0 \<or> ?c = 0 \<and> key_len it < length k" using memcmp_order [of ?K k] l(1,2) by (simp add: Let_def)
  have gt: "k < ?K \<longleftrightarrow> 0 < ?c \<or> ?c = 0 \<and> length k < key_len it"
    using memcmp_order [of k ?K] memcmp_swap [of "take ?m k" "take ?m ?K" ?m] l(1,2) by (simp add: Let_def min.commute)
  have eq: "?K = k \<longleftrightarrow> ?c = 0 \<and> length k = key_len it" using lt gt l(1) by (metis linorder_neq_iff)
  have "?K \<le> k \<longleftrightarrow> \<not> k < ?K" "k \<le> ?K \<longleftrightarrow> \<not> ?K < k" by auto
  then show ?thesis using lt gt eq l(3,4) by (simp add: raxCompare_def op_char_def in_range_def Let_def) auto
qed

theorem raxCompare_orders_witness:
  "raxCompare (raxStart\<lparr>key_buf := [1, 2], key_len := 2\<rparr> :: bool raxIterator) ''>='' [1, 2] = Some True \<and> raxCompare (raxStart\<lparr>key_buf := [1, 2], key_len := 2\<rparr> :: bool raxIterator) ''='' [1, 2] = Some False"
  using raxCompare_orders [of "raxStart\<lparr>key_buf := [1, 2], key_len := 2\<rparr>" "[1, 2]"] by (auto simp: in_range_def it_key_def)

end
