(* ===== verification/Rax_Random.thy ===== *)
theory Rax_Random
  imports Rax_Range
begin

text \<open>
  Random walks in a radix tree. A walk moves between a node and its children and parent and ends on a key. It never leaves the tree and never faults, whatever random numbers it gets, except in a tree whose only key is
  the empty one, where the first step divides by zero.
\<close>

definition walking :: "'d ralloc \<Rightarrow> 'd raxIterator \<Rightarrow> 'd frame list \<Rightarrow> bool" where
  "walking al it C \<longleftrightarrow> it_ok al it \<and> sitems (it_stack it) = map frame_addr C \<and> key_is it (path C) \<and> \<not> it_eof it"

lemma walk_up:
  assumes "walking al it (Frame a n ls rs # C)" "node_ok n (length ls + Suc (length rs))"
  shows "\<exists>ts it'. raxStackPop (it_stack it) = (Some a, ts) \<and> raxIteratorDelChars (it\<lparr>it_stack := ts\<rparr>) (if iscompr n then rsize n else 1) = Some it' \<and> walking al it' C"
proof -
  let ?ts = "(it_stack it)\<lparr>sitems := map frame_addr C, popped := a # popped (it_stack it)\<rparr>"
  have p: "raxStackPop (it_stack it) = (Some a, ?ts)" using assms(1) by (simp add: walking_def raxStackPop_def)
  have k: "key_is (it\<lparr>it_stack := ?ts\<rparr>) (path C @ edges n ! length ls)" "it_ok al (it\<lparr>it_stack := ?ts\<rparr>)"
    using assms(1) by (auto simp: walking_def key_is_def it_key_def it_ok_def stack_ok_def)
  have e: "length (edges n ! length ls) = (if iscompr n then rsize n else 1)" using edge_length [OF assms(2), of "length ls"] by simp
  from del_chars_ok [OF k e] p assms(1) show ?thesis by (auto simp: walking_def)
qed

lemma walk_down:
  assumes "\<forall>n. rax_room al n" "walking al it C" "j < length ts" "node_ok n (length ts)"
  shows "\<exists>it1 it2. raxIteratorAddChars al it (if iscompr n then chars n else [chars n ! j]) = Some (True, it1) \<and> it_push al it1 a = Some (True, it2) \<and>
     walking al it2 (Frame a n (take j ts) (drop (Suc j) ts) # C)"
proof -
  have "j = 0" if "iscompr n" using assms(3,4) that by (auto simp: node_ok_def edges_def)
  then have e: "edges n ! j = (if iscompr n then chars n else [chars n ! j])" using assms(3,4) by (auto simp: node_ok_def edges_def)
  have k: "it_ok al it" "key_is it (path C)" using assms(2) by (auto simp: walking_def)
  obtain it1 where i1: "raxIteratorAddChars al it (edges n ! j) = Some (True, it1)" "it_ok al it1" "key_is it1 (path C @ edges n ! j)" "it_stack it1 = it_stack it" "\<not> it_eof it1"
    using add_chars_ok [OF k assms(1), of "edges n ! j"] assms(2) by (auto simp: walking_def)
  obtain it2 where i2: "it_push al it1 a = Some (True, it2)" "it_ok al it2" "sitems (it_stack it2) = a # map frame_addr C" "key_is it2 (path C @ edges n ! j)" "\<not> it_eof it2"
    using push_ok [OF i1(2), of a] i1 assms(2) by (auto simp: walking_def key_is_def)
  have "walking al it2 (Frame a n (take j ts) (drop (Suc j) ts) # C)" using i2 assms(3) by (simp add: walking_def)
  then show ?thesis using i1(1) i2(1) e by auto
qed

text \<open>The outcome of a walk: it needs more random numbers, or it is on an entry.\<close>

definition walked :: "'d ralloc \<Rightarrow> 'd rt \<Rightarrow> (bool \<times> 'd raxIterator) option \<Rightarrow> bool" where
  "walked al T r \<longleftrightarrow> (case r of None \<Rightarrow> True | Some (ok, it) \<Rightarrow> ok \<and> (\<exists>C t. plug C t = T \<and> at_entry al (it\<lparr>just_seeked := False\<rparr>) C t))"

lemma walk_ends:
  assumes "walkable al rx T" "plug C t = T" "walking al it C" "iskey (info t)"
  shows "\<exists>d. raxGetData (info t) = Some d \<and> walked al T (Some (True, it\<lparr>it_node := Some (root t), it_data := d\<rparr>))"
proof -
  have n: "node_ok (info t) (length (subs t))" using walkable_parts(2) [OF assms(1,2)] node_ok_info by blast
  obtain d where d: "raxGetData (info t) = Some d" using raxGetData_ok [OF n assms(4)] by simp
  let ?it = "it\<lparr>it_node := Some (root t), it_data := d, just_seeked := False\<rparr>"
  have "at_entry al ?it C t" using assms(3,4) d own_key [OF n]
    by (auto simp: at_entry_def at_node_def walking_def it_ok_def key_is_def it_key_def)
  then show ?thesis using assms(2) d by (auto simp: walked_def)
qed

lemma random_walk_ok:
  assumes "walkable al rx T" "subs T \<noteq> []" "plug C t = T" "walking al it C"
  shows "\<exists>r. random_walk al rx rands it (root t) steps = Some r \<and> walked al T r"
  using assms(3,4)
proof (induction rands arbitrary: C t it steps)
  case Nil
  show ?case
  proof (cases "0 < steps \<or> \<not> iskey (info t)")
    case True
    then show ?thesis using walkable_node [OF assms(1) Nil(1)] by (auto simp: random_walk.simps walked_def)
  next
    case False
    then show ?thesis using walk_ends [OF assms(1) Nil] walkable_node [OF assms(1) Nil(1)] by (auto simp: random_walk.simps)
  qed
next
  case (Cons x rands)
  let ?n = "info t" let ?k = "length (subs t)" let ?range = "?k + (if C = [] then 0 else 1)"
  have m: "rheap rx (root t) = Some (linked ?n (map root (subs t)))" using walkable_node [OF assms(1) Cons.prems(1)] .
  have n: "node_ok ?n ?k" using walkable_parts(2) [OF assms(1) Cons.prems(1)] node_ok_info by blast
  have wr: "walk_range rx (root t) (linked ?n as) = ?range" for as using n on_head [OF assms(1) Cons.prems(1)] by (auto simp: node_ok_def edges_def num_children_def walk_range_def)
  have c: "num_children (linked ?n as) = ?k" for as using n by (auto simp: node_ok_def edges_def num_children_def)
  have r: "?range \<noteq> 0" using assms(2) Cons.prems(1) by (cases C) auto
  show ?case
  proof (cases "0 < steps \<or> \<not> iskey ?n")
    case False
    then show ?thesis using walk_ends [OF assms(1) Cons.prems] m by (auto simp: random_walk.simps)
  next
    case go: True
    have step: "random_walk al rx (x # rands) it (root t) steps =
      (if x mod ?range = ?k then
         (case raxStackPop (it_stack it) of (p, ts) \<Rightarrow> Option.bind p (\<lambda>p. Option.bind (rheap rx p) (\<lambda>k.
            Option.bind (raxIteratorDelChars (it\<lparr>it_stack := ts\<rparr>) (if iscompr k then rsize k else 1)) (\<lambda>it. random_walk al rx rands it p (if iskey k then steps - 1 else steps)))))
       else Option.bind (raxIteratorAddChars al it (if iscompr ?n then chars ?n else [chars ?n ! (x mod ?range)])) (\<lambda>(ok, it).
             if \<not> ok then Some (Some (False, it))
             else Option.bind (it_push al it (root t)) (\<lambda>(ok, it).
               if \<not> ok then Some (Some (False, it))
               else Option.bind (child_at (linked ?n (map root (subs t))) (x mod ?range)) (\<lambda>c. Option.bind (rheap rx c) (\<lambda>k.
                 random_walk al rx rands it c (if iskey k then steps - 1 else steps))))))"
    proof -
      have s: "(\<not> (0 < steps \<or> \<not> iskey ?n)) = False" "(?range = 0) = False" using go r by simp_all
      show ?thesis by (subst random_walk.simps) (simp only: m wr c s linked_simps Option.bind_eq_Some_conv bind.bind_lunit if_False list.case)
    qed
    show ?thesis
    proof (cases "x mod ?range = ?k")
      case up: True
      then have "C \<noteq> []" using r mod_less_divisor [of ?range x] by (cases "C = []") auto
      then obtain a n' ls rs D where C: "C = Frame a n' ls rs # D" by (metis neq_Nil_conv frame.exhaust)
      have p: "plug D (RT a n' (ls @ t # rs)) = T" using Cons.prems(1) C by simp
      have "node_ok n' (length ls + Suc (length rs))" using walkable_parts(2) [OF assms(1) p] by simp
      from walk_up [OF _ this] obtain ts it' where u: "raxStackPop (it_stack it) = (Some a, ts)"
        "raxIteratorDelChars (it\<lparr>it_stack := ts\<rparr>) (if iscompr n' then rsize n' else 1) = Some it'" "walking al it' D" using Cons.prems(2) C by blast
      show ?thesis using Cons.IH [OF p u(3)] step up u(1,2) walkable_node [OF assms(1) p] by (simp split del: if_split cong: if_cong)
    next
      case down: False
      moreover have "x mod ?range < ?range" using r by (intro mod_less_divisor) simp
      ultimately have j: "x mod ?range < ?k" by (cases "C = []") (auto simp: less_Suc_eq)
      let ?D = "Frame (root t) ?n (take (x mod ?range) (subs t)) (drop (Suc (x mod ?range)) (subs t)) # C"
      have p: "plug ?D (subs t ! (x mod ?range)) = T" using plug_descend [OF j, of "root t" ?n C] Cons.prems(1) by simp
      obtain it1 it2 where w: "raxIteratorAddChars al it (if iscompr ?n then chars ?n else [chars ?n ! (x mod ?range)]) = Some (True, it1)" "it_push al it1 (root t) = Some (True, it2)" "walking al it2 ?D"
        using walk_down [OF _ Cons.prems(2) j n, of "root t"] assms(1) by (auto simp: walkable_def)
      show ?thesis using Cons.IH [OF p w(3)] step down j w(1,2) walkable_node [OF assms(1) p] by (simp add: child_at_def split del: if_split cong: if_cong)
    qed
  qed
qed


lemma on_index_flag: "on_index al rx it m i \<Longrightarrow> on_index al rx (it\<lparr>just_seeked := False\<rparr>) m i"
  unfolding on_index_def using at_entry_flag by metis

lemma on_index_walking:
  assumes "on_index al rx (it\<lparr>just_seeked := False\<rparr>) m i"
  shows "\<exists>T C t. walkable al rx T \<and> entries T = sorted_entries m \<and> plug C t = T \<and> walking al it C \<and> it_node it = Some (root t)"
proof -
  obtain T C t where T: "walkable al rx T" "entries T = sorted_entries m" "plug C t = T" "at_entry al (it\<lparr>just_seeked := False\<rparr>) C t" using assms by (auto simp: on_index_def)
  then have "walking al it C \<and> it_node it = Some (root t)" by (auto simp: at_entry_def at_node_def walking_def)
  then show ?thesis using T by blast
qed

lemma sorted_entries_keys: "finite (dom m) \<Longrightarrow> fst ` set (sorted_entries m) = dom m"
  by (simp add: sorted_entries_def image_image)

text \<open>A tree without nodes below the root has at most the empty key, and the other way round.\<close>

lemma lone_root:
  assumes "walkable al rx T"
  shows "subs T = [] \<longleftrightarrow> fst ` set (entries T) \<subseteq> {[]}"
proof
  show "fst ` set (entries T) \<subseteq> {[]}" if "subs T = []" using entries_root [of T] that by (auto simp: own_def)
  show "subs T = []" if k: "fst ` set (entries T) \<subseteq> {[]}"
  proof (rule ccontr)
    assume ne: "subs T \<noteq> []"
    have p: "plug [] T = T" by simp
    have n: "node_ok (info T) (length (subs T))" "live_root T" "wf_rt T" using walkable_parts [OF assms p] node_ok_info by blast+
    have u: "subs T ! 0 \<in> set (subs T)" using ne by simp
    then have "live (subs T ! 0)" "wf_rt (subs T ! 0)" using n(2,3) by (cases T; auto)+
    then obtain e where e: "e \<in> set (entries (subs T ! 0))" using live_entries by (metis list.set_intros(1) neq_Nil_conv)
    have "0 < min (length (edges (info T))) (length (map entries (subs T)))" using ne length_edges [OF n(1)] by simp
    then have "pfx (edges (info T) ! 0) e \<in> set (hung (edges (info T)) (map entries (subs T)))" using e ne unfolding in_hung by (intro exI [of _ 0]) auto
    then have "pfx (edges (info T) ! 0) e \<in> set (entries T)" using entries_root [of T] by simp
    then have "edges (info T) ! 0 @ fst e \<in> fst ` set (entries T)" by (metis imageI pfx_simps(2))
    moreover have "edges (info T) ! 0 \<noteq> []" using edge_length [OF n(1), of 0] ne by simp
    ultimately show False using k by auto
  qed
qed

lemma plug_subs: "subs (plug D (RT a n (ls @ t # rs))) \<noteq> []"
proof (induction D arbitrary: a n ls t rs)
  case (Cons F D)
  obtain b k ls' rs' where "F = Frame b k ls' rs'" by (cases F)
  then show ?case using Cons.IH by simp
qed simp

lemma lone_range:
  assumes "walkable al rx T" "plug C t = T" "subs T = []"
  shows "walk_range rx (root t) (linked (info t) as) = 0"
proof -
  have C: "C = []"
  proof (rule ccontr)
    assume "C \<noteq> []"
    then obtain a n ls rs D where "C = Frame a n ls rs # D" by (metis neq_Nil_conv frame.exhaust)
    then show False using assms(2,3) plug_subs [of D a n ls t rs] by simp
  qed
  have "edges (info t) = []" using node_ok_info [OF walkable_parts(2) [OF assms(1,2)]] assms(2,3) C length_edges by fastforce
  then show ?thesis using on_head [OF assms(1,2)] C by (auto simp: walk_range_def num_children_def edges_def split: if_splits)
qed

text \<open>
  C40. Random walks. From an iterator on a key of a tree with a key other than the empty one, \<open>raxRandomWalk\<close> never faults, whatever the numbers \<open>rand\<close> returns: the stack of parents and the key buffer stay those of the node
  it is on, and when it ends it is on a key of the map, with its value. In a tree whose only key is the empty one (the root is the only node), every walk of at least one step divides by zero.
\<close>

theorem raxRandomWalk_safe:
  assumes "\<forall>n. rax_room al n" and "rax_is rx m" and "card (dom m) < 2 ^ 64" and "on_index al rx (it\<lparr>just_seeked := False\<rparr>) m i"
  shows "((\<exists>k. k \<in> dom m \<and> k \<noteq> []) \<longrightarrow> (\<exists>r. raxRandomWalk floor_log al rx rands it steps = Some r \<and>
       (case r of None \<Rightarrow> True | Some (ok, it') \<Rightarrow> ok \<and> (\<exists>j. on_index al rx (it'\<lparr>just_seeked := False\<rparr>) m j)))) \<and>
     (dom m = {[]} \<and> steps \<noteq> 0 \<longrightarrow> raxRandomWalk floor_log al rx (x # rands) it steps = None)"
proof -
  obtain T C t where T: "walkable al rx T" "entries T = sorted_entries m" "plug C t = T" "walking al it C" "it_node it = Some (root t)"
    using on_index_walking [OF assms(4)] by blast
  have fin: "finite (dom m)" using assms(2) by (auto simp: rax_is_def finite_dom_map_of)
  have keys: "fst ` set (entries T) = dom m" using sorted_entries_keys [OF fin] T(2) by simp
  have "dom m \<noteq> {}" using on_index_entry(1) [OF assms(4)] keys T(2) by (cases "sorted_entries m") auto
  then have "0 < card (dom m)" using fin by (simp add: card_gt_0_iff)
  then have num: "numele rx \<noteq> 0" using rax_is_size [OF assms(2)] nat_dvd_not_less [OF _ assms(3)] by (simp add: raxSize_def word_of_nat_eq_0_iff)
  have idx: "\<exists>j. on_index al rx it' m j" if "plug D u = T" "at_entry al it' D u" for it' D u using that T(1,2) unfolding on_index_def by blast
  have 1: "\<exists>r. raxRandomWalk floor_log al rx rands it steps = Some r \<and> (case r of None \<Rightarrow> True | Some (ok, it') \<Rightarrow> ok \<and> (\<exists>j. on_index al rx (it'\<lparr>just_seeked := False\<rparr>) m j))"
    if "k \<in> dom m" "k \<noteq> []" for k
  proof -
    have ne: "subs T \<noteq> []" using lone_root [OF T(1)] keys that by auto
    have "\<exists>r. raxRandomWalk floor_log al rx rands it steps = Some r \<and> walked al T r"
      using random_walk_ok [OF T(1) ne T(3,4)] num T(5) by (auto simp: raxRandomWalk_def walked_def split: list.splits)
    then show ?thesis using idx by (fastforce simp: walked_def split: option.splits)
  qed
  have 2: "raxRandomWalk floor_log al rx (x # rands) it steps = None" if "dom m = {[]}" "steps \<noteq> 0"
  proof -
    have s: "subs T = []" using lone_root [OF T(1)] keys that(1) by simp
    have "walk_range rx (root t) (linked (info t) (map root (subs t))) = 0" by (rule lone_range [OF T(1,3) s])
    moreover have "0 < steps" using that(2) by (simp add: word_gt_0)
    ultimately show ?thesis using num T(5) that(2) walkable_node [OF T(1,3)] by (simp add: raxRandomWalk_def random_walk.simps)
  qed
  show ?thesis using 1 2 by blast
qed

theorem raxRandomWalk_safe_witness:
  "\<exists>rx it r. raxRandomWalk (\<lambda>_. 0) first_free rx [5, 7] it 2 = Some r \<and> (\<exists>i. on_index first_free rx it [[1, 2] \<mapsto> Some True, [1] \<mapsto> None] i)"
proof -
  let ?m = "[[1, 2] \<mapsto> Some True, [1] \<mapsto> None] :: byte list \<rightharpoonup> bool option"
  obtain rx where rx: "rax_is rx ?m" using two_keys by blast
  have c: "card (dom ?m) < 2 ^ 64" by simp
  obtain it i where on: "on_index first_free rx it ?m i" using seek_eq_index [OF first_free_room rx c raxStart_ok [OF first_free_room], of "[1]"] by auto
  have "\<exists>k. k \<in> dom ?m \<and> k \<noteq> []" by (rule exI [of _ "[1]"]) simp
  then show ?thesis using raxRandomWalk_safe [OF first_free_room rx c on_index_flag [OF on], of "\<lambda>_. 0" "[5, 7]" 2] on by blast
qed

end
