(* ===== verification/Spec2Isabelle.thy ===== *)
theory Spec2Isabelle
  imports Adlist Dict_Iter Pipeline Crc Server_Loop Rax_Random
begin

text \<open>
  A verification library for \<open>myRedis\<close>, a trimmed Redis server: its data structures (\<open>myRedis/src\<close>: \<open>adlist.c\<close>,
  \<open>dict.c\<close>, \<open>siphash.c\<close>, \<open>sds.c\<close>, \<open>rax.c\<close>, \<open>util.c\<close>), the event loop (\<open>ae.c\<close>), the cron of \<open>server.c\<close> and the path of a request through
  \<open>networking.c\<close>.

  \<^bold>\<open>The program.\<close> The event loop calls the read handler of a client. It reads bytes into the query buffer (an sds), the
  parsers turn them into an argument vector, the command table dispatches to a command, which queues its reply in the
  static buffer of the client and a list of reply blocks; before the loop sleeps, the queued output is written to the
  socket. Dictionaries keyed by strings (hashed with siphash) hold the tables of the server, lists its queues.

  \<^bold>\<open>The theories.\<close>
  \<^item> \<open>Prelude\<close>: machine integers, faults as \<open>None\<close>, bounds-checked arrays, generic lemmas.
  \<^item> \<open>Adlist\<close> (\<open>adlist.c\<close>): the doubly linked list over a store of nodes. The operations refine sequences; iterating
    survives the deletion of the element just returned.
  \<^item> \<open>Dict\<close>, \<open>Dict_Types\<close>, \<open>Dict_Iter\<close> (\<open>dict.c\<close>, \<open>dict.h\<close>, the dictionary types of \<open>server.c\<close>): the two tables of buckets with
    incremental rehashing. The invariant is kept, insertion, replacement and deletion refine a finite map, rehashing
    ends, iteration visits every entry once, release frees everything once. \<open>dictFind\<close> reads the wrong bucket.
  \<^item> \<open>Siphash\<close> (\<open>siphash.c\<close>): both hash functions on 64-bit words.
  \<^item> \<open>Sds\<close>, \<open>Sds_Text\<close> (\<open>sds.c\<close>, \<open>sds.h\<close>): dynamic strings with their headers at the width they have, over an allocator that
    is a parameter; splitting, joining, quoting and templates. Every operation is shown free of faults and to have the
    content it should; quoting and splitting are inverse.
  \<^item> \<open>Util\<close>, \<open>Glob\<close> (\<open>util.c\<close>): numbers to text and back, memory sizes, glob patterns against a token semantics.
  \<^item> \<open>Crc\<close> (\<open>crc64.c\<close>, \<open>crcspeed.c\<close>): the 64-bit checksum. The routine that takes eight bytes at a time agrees with the
    bit-by-bit generator on either byte order.
  \<^item> \<open>Rax\<close> (\<open>rax.c\<close>, \<open>rax.h\<close>): the radix tree over a store of nodes, with lookup, insertion, removal and release. The three sections of a node
    (edge characters, child pointers, value) are lists, and every store checks that the node with its padding fits its block.
    \<open>Rax_Tree\<close>: the tree in the store as a value (\<open>rt\<close>), its entries in key order, paths and contexts, and what the walk finds.
    \<open>Rax_Insert\<close>, \<open>Rax_Remove\<close>: in a memory that does not run out (the locale \<open>rax_memory\<close>), insertion and removal keep the representation and do to the
    entries what they should, through splitting and merging of compressed nodes; release frees each node once. \<open>Rax_Map\<close>: the contract \<open>byte_map\<close> of
    a finite map, which the tree meets, the properties, and a run in which exhausted memory loses a key.
  \<^item> \<open>Rax_Iter\<close> (\<open>rax.c\<close>): the iterator, with its key buffer and stack of parents: seeking, stepping, comparing, random walks. \<open>Rax_Scan\<close>: positions as contexts, and
    every step as a move along the entries before and behind them. \<open>Rax_Range\<close>: the locale \<open>cursor\<close> of a scan, which both directions inhabit; a seek and the steps behind it return a
    range of the map in order. \<open>Rax_Random\<close>: random walks stay in the tree, and divide by zero in a tree with the empty key only.
  \<^item> \<open>Client\<close> (\<open>networking.c\<close>, \<open>server.h\<close>): the client and server records, scheduling, output limits, the reply functions,
    writing. \<open>Reply\<close> proves them: replies are queued in order, what is sent is a prefix of the queue.
  \<^item> \<open>Resp\<close> (\<open>networking.c\<close>): the parsers, the input loop, the read handler. \<open>Request\<close> proves the parsers: a request arriving in
    any pieces is parsed to what was encoded, without reading or storing out of bounds.
  \<^item> \<open>Pipeline\<close>: the locales \<open>command\<close> (what the input loop relies on of a command), \<open>pipeline\<close> (with memory) and
    \<open>ping_memory\<close>, which \<open>pingCommand\<close> of \<open>server.c\<close> inhabits; a stream of pipelined requests gives the stream of answers.
  \<^item> \<open>Ae\<close> (\<open>ae.c\<close>, \<open>ae.h\<close>, \<open>ae_epoll.c\<close>): file events, time events, one round of the loop and the main loop, over an environment
    \<open>env\<close> of kernel, clock, allocator and callbacks. \<open>Ae_Inv\<close>: the invariants of the array of file events and of the list of time events, and
    the relation \<open>uses\<close> of what a callback may do to the loop it is given. \<open>Ae_Loop\<close>: the contracts as locales (\<open>timer_callbacks\<close>,
    \<open>epoll\<close>, \<open>file_callbacks\<close>, \<open>event_loop\<close>) and what follows from them: passes over the time events end and fire what is due,
    dispatch has the documented order, the kernel watches what is registered, no round faults.
  \<^item> \<open>Cron\<close> (\<open>server.c\<close>): \<open>serverCron\<close> and the maintenance of clients it performs, on the list of \<open>Adlist\<close> and the client of \<open>Client\<close>.
  \<^item> \<open>Server_Loop\<close>: an environment in which \<open>serverCron\<close> is the time event and epoll an interest list inhabits the contracts; the properties of
    the loop and the cron.
  \<^item> This theory: the property that spans them, from socket to socket.

  \<^bold>\<open>Conventions.\<close> \<open>None\<close> is a fault: undefined behaviour, a failed assertion, an allocation that aborts or a loop that does not
  return, so a theorem that a result is \<open>Some\<close> is a statement of memory safety and termination. Bytes are 8-bit words; lengths
  are natural numbers with the wrap-around of \<open>size_t\<close> written out where the code depends on it. Loops are structural or
  well-founded recursions; those of \<open>writeToClient\<close> and \<open>processInputBuffer\<close>, which depend on the socket and the commands, are
  partial functions whose return is proved. \<open>multibulk_loop\<close> recurses on the number of arguments left, which every
  round that goes on decrements. The release of a radix tree takes a bound on its depth, and the number of nodes is shown to be enough. Bounds in hypotheses (buffers below \<open>2 ^ 61\<close>, reply bytes below \<open>2 ^ 63\<close>, streams below \<open>2 ^ 31\<close>
  bytes, keys of a radix tree up to the \<open>2 ^ 29 - 1\<close> bytes of a node) keep the machine arithmetic from wrapping; the code does not check for it there.

  \<^bold>\<open>Parameters.\<close> The allocator (\<open>malloc\<close>, \<open>usable\<close>) with the documented fact that a block has at least the size asked for; for the
  radix tree \<open>rax_malloc\<close> and \<open>rax_realloc\<close>, whose header is not in the repository, with the fact that a new block is not in use; the sockets, as scripts of what they accept and deliver; the commands other than PING; for the event loop
  the kernel, the monotonic clock and the callbacks. A callback may create and remove file and time events and stop the loop; that it runs
  the loop itself (a nested \<open>aeProcessEvents\<close>) is excluded by its contract.

  \<^bold>\<open>Not modelled.\<close> The backends of the event loop other than epoll, connections and sockets, accepting and freeing clients, I/O threads, the
  command table and its configuration, ACLs, persistence, replication, cluster, sentinel, scripting, modules, streams,
  the debugging output of the radix tree, the 16-bit checksums, digests, the command line clients, allocation statistics and logging. Code that is commented out in
  the repository is not modelled.
\<close>

section \<open>Across components\<close>




end
